(* ===== verification/Prelude.thy ===== *)
theory Prelude
  imports Main "HOL-Library.Word"
begin

text \<open>
  Shared vocabulary of the development: bytes, results of fallible operations, the byte
  level memory operations (\<open>memcpy\<close>, \<open>memmove\<close>) and the lemmas on lists and words that the
  components use.

  The C++ code reports errors in two ways.  \<open>DBG_ASSERT(cond)\<close> stops the process when
  \<open>cond\<close> is false, and the parsing code throws \<open>serial_except_t\<close> and relatives.  Both
  become the left summand of a result: \<open>Assert_failed\<close> for an assertion and
  \<open>Except reason\<close> for an exception.  \<open>Out_of_bounds\<close> stands for an access outside of an object,
  \<open>Diverges\<close> for a call that does not return, \<open>Undefined_shift\<close> for a shift by the
  width of the type or more, which the language leaves undefined.  (Builds made with \<open>RELEASE_BUILD\<close> compile assertions
  out; a theorem that an operation returns \<open>Inr\<close> is what makes that safe.)
\<close>

subsection \<open>Types and results\<close>

type_synonym byte = "8 word"
type_synonym bytes = "8 word list"

datatype neoip_error = Assert_failed | Out_of_bounds | Except string | Diverges | Undefined_shift

type_synonym 'a res = "neoip_error + 'a"

definition res_bind :: "'a res \<Rightarrow> ('a \<Rightarrow> 'b res) \<Rightarrow> 'b res" where
  "res_bind r f = (case r of Inl e \<Rightarrow> Inl e | Inr x \<Rightarrow> f x)"

definition dbg_assert :: "bool \<Rightarrow> 'a res \<Rightarrow> 'a res" where
  "dbg_assert b r = (if b then r else Inl Assert_failed)"

definition is_ok :: "'a res \<Rightarrow> bool" where
  "is_ok r = (case r of Inl e \<Rightarrow> False | Inr x \<Rightarrow> True)"

text \<open>A condition that is itself fallible.\<close>

definition res_if :: "bool res \<Rightarrow> 'a res \<Rightarrow> 'a res \<Rightarrow> 'a res" where
  "res_if c a b = res_bind c (\<lambda>x. if x then a else b)"

named_theorems res_simps
named_theorems wire_simps

lemma res_bind_simps [simp, res_simps]:
  "res_bind (Inl e) f = Inl e"
  "res_bind (Inr x) f = f x"
  by (simp_all add: res_bind_def)

lemma res_if_simps [simp, res_simps]:
  "res_if (Inl e) a b = Inl e"
  "res_if (Inr x) a b = (if x then a else b)"
  by (simp_all add: res_if_def)

lemma res_bind_eq_Inr_iff [res_simps]:
  "res_bind r f = Inr y \<longleftrightarrow> (\<exists>x. r = Inr x \<and> f x = Inr y)"
  by (cases r) simp_all

lemma res_bind_eq_Inl_iff [res_simps]:
  "res_bind r f = Inl e \<longleftrightarrow> r = Inl e \<or> (\<exists>x. r = Inr x \<and> f x = Inl e)"
  by (cases r) simp_all

lemma res_bindE:
  assumes "res_bind r f = Inr y"
  obtains x where "r = Inr x" "f x = Inr y"
  using assms by (auto simp: res_bind_eq_Inr_iff)

lemma dbg_assert_simps [simp, res_simps]:
  "b \<Longrightarrow> dbg_assert b r = r"
  "\<not> b \<Longrightarrow> dbg_assert b r = Inl Assert_failed"
  by (simp_all add: dbg_assert_def)

lemma dbg_assert_eq_Inr_iff [res_simps]:
  "dbg_assert b r = Inr y \<longleftrightarrow> b \<and> r = Inr y"
  by (simp add: dbg_assert_def)

lemma is_ok_simps [simp]: "is_ok (Inr x)" "\<not> is_ok (Inl e)"
  by (simp_all add: is_ok_def)

lemma is_ok_iff: "is_ok r \<longleftrightarrow> (\<exists>x. r = Inr x)"
  by (cases r) simp_all

subsection \<open>Byte memory\<close>

text \<open>\<open>rdbuf off n buf\<close> reads \<open>n\<close> bytes, \<open>blit off xs buf\<close> writes \<open>xs\<close> (a \<open>memcpy\<close> or
  \<open>memmove\<close> into \<open>buf\<close> at offset \<open>off\<close>).  \<open>malloc_fill m n\<close> is a fresh zone of \<open>n\<close> bytes
  whose unspecified contents are given by \<open>m\<close>.\<close>

definition rdbuf :: "nat \<Rightarrow> nat \<Rightarrow> 'a list \<Rightarrow> 'a list" where
  "rdbuf off n buf = take n (drop off buf)"

definition blit :: "nat \<Rightarrow> 'a list \<Rightarrow> 'a list \<Rightarrow> 'a list" where
  "blit off xs buf = take off buf @ xs @ drop (off + length xs) buf"

definition malloc_fill :: "(nat \<Rightarrow> byte) \<Rightarrow> nat \<Rightarrow> bytes" where
  "malloc_fill m n = map m [0..<n]"

lemma length_malloc_fill [simp]: "length (malloc_fill m n) = n"
  by (simp add: malloc_fill_def)

lemma length_rdbuf [simp]: "length (rdbuf off n buf) = min n (length buf - off)"
  by (simp add: rdbuf_def)

lemma length_blit [simp]:
  "off + length xs \<le> length buf \<Longrightarrow> length (blit off xs buf) = length buf"
  by (simp add: blit_def)

lemma rdbuf_blit_same:
  "off + length xs \<le> length buf \<Longrightarrow> n = length xs \<Longrightarrow> rdbuf off n (blit off xs buf) = xs"
  by (simp add: rdbuf_def blit_def)

lemma rdbuf_blit_tail:
  assumes "off + k + length xs \<le> length buf"
  shows "rdbuf off (k + length xs) (blit (off + k) xs buf) = rdbuf off k buf @ xs"
proof -
  have "drop off (take (off + k) buf) = take k (drop off buf)"
    by (simp add: take_drop add.commute)
  then show ?thesis
    using assms by (simp add: rdbuf_def blit_def)
qed

lemma rdbuf_blit_head:
  assumes "off + length xs \<le> length buf"
  shows "rdbuf off (length xs + k) (blit off xs buf) = xs @ rdbuf (off + length xs) k buf"
  using assms by (simp add: rdbuf_def blit_def)

lemma rdbuf_all [simp]: "rdbuf 0 (length buf) buf = buf"
  by (simp add: rdbuf_def)

lemma rdbuf_Nil [simp]: "rdbuf off n [] = []" "rdbuf off 0 buf = []"
  by (simp_all add: rdbuf_def)

lemma drop_rdbuf: "drop k (rdbuf off n buf) = rdbuf (off + k) (n - k) buf"
  by (simp add: rdbuf_def drop_take add.commute)

lemma take_rdbuf: "k \<le> n \<Longrightarrow> take k (rdbuf off n buf) = rdbuf off k buf"
  by (simp add: rdbuf_def min_def)

subsection \<open>Sign of a three-way comparison\<close>

definition cmp3 :: "('a::linorder) \<Rightarrow> 'a \<Rightarrow> int" where
  "cmp3 x y = (if x < y then -1 else if x > y then 1 else 0)"

lemma cmp3_simps [simp]:
  "cmp3 x y = 0 \<longleftrightarrow> x = y"
  "cmp3 x y < 0 \<longleftrightarrow> x < y"
  "0 < cmp3 x y \<longleftrightarrow> y < x"
  by (auto simp: cmp3_def)

lemma cmp3_antisym: "cmp3 y x = - cmp3 x y"
  by (auto simp: cmp3_def)

subsection \<open>Division with a ceiling\<close>

text \<open>\<open>ceil_div\<close> of \<open>neoip_math_shortcut.hpp\<close>, on sizes.\<close>

definition ceil_div :: "nat \<Rightarrow> nat \<Rightarrow> nat" where
  "ceil_div num d = (num + (d - 1)) div d"

lemma ceil_div_bounds:
  assumes "0 < d"
  shows "num \<le> d * ceil_div num d" and "d * ceil_div num d < num + d"
proof -
  let ?n = "num + (d - 1)"
  have eq: "d * (?n div d) + ?n mod d = ?n" by simp
  moreover have "?n mod d < d" using assms by simp
  ultimately show "num \<le> d * ceil_div num d" "d * ceil_div num d < num + d"
    using assms unfolding ceil_div_def by linarith+
qed

lemma ceil_div_mult [simp]: "0 < d \<Longrightarrow> ceil_div (d * k) d = k"
  by (simp add: ceil_div_def div_mult_self4 del: add_diff_assoc add_diff_assoc2)

subsection \<open>Counting loops\<close>

text \<open>\<open>for(size_t i = 0; i < n; i++) body\<close> over a state, without and with a failing body.\<close>

definition for_range :: "nat \<Rightarrow> (nat \<Rightarrow> 's \<Rightarrow> 's) \<Rightarrow> 's \<Rightarrow> 's" where
  "for_range n f s = fold f [0..<n] s"

primrec for_each_res :: "'i list \<Rightarrow> ('i \<Rightarrow> 's \<Rightarrow> 's res) \<Rightarrow> 's \<Rightarrow> 's res" where
  "for_each_res [] f s = Inr s"
| "for_each_res (i # is) f s = res_bind (f i s) (for_each_res is f)"

definition for_range_res :: "nat \<Rightarrow> (nat \<Rightarrow> 's \<Rightarrow> 's res) \<Rightarrow> 's \<Rightarrow> 's res" where
  "for_range_res n f s = for_each_res [0..<n] f s"

lemma for_range_Suc [simp]:
  "for_range 0 f s = s" "for_range (Suc n) f s = f n (for_range n f s)"
  by (simp_all add: for_range_def)

lemma for_each_res_append:
  "for_each_res (xs @ ys) f s = res_bind (for_each_res xs f s) (for_each_res ys f)"
  by (induction xs arbitrary: s) (auto simp: res_bind_def split: sum.splits)

lemma for_range_res_Suc [simp]:
  "for_range_res 0 f s = Inr s"
  "for_range_res (Suc n) f s = res_bind (for_range_res n f s) (f n)"
  by (simp_all add: for_range_res_def for_each_res_append res_bind_def split: sum.splits)

text \<open>A loop that updates one cell per round, depending on that cell only, is a \<open>map\<close>.\<close>

lemma for_range_update:
  "n \<le> length xs \<Longrightarrow>
   for_range n (\<lambda>i ys. if P i then ys[i := g i (ys ! i)] else ys) xs =
     map (\<lambda>i. if i < n \<and> P i then g i (xs ! i) else xs ! i) [0..<length xs]"
proof (induction n)
  case 0
  then show ?case by (simp add: map_nth)
next
  case (Suc n)
  then show ?case
    by (auto simp: nth_list_update less_Suc_eq intro!: nth_equalityI)
qed

lemma for_range_res_update:
  "n \<le> length xs \<Longrightarrow>
   for_range_res n (\<lambda>i ys. if P i then dbg_assert (Q i (ys ! i)) (Inr (ys[i := g i (ys ! i)]))
                            else Inr ys) xs =
     dbg_assert (\<forall>i<n. P i \<longrightarrow> Q i (xs ! i))
       (Inr (map (\<lambda>i. if i < n \<and> P i then g i (xs ! i) else xs ! i) [0..<length xs]))"
proof (induction n)
  case 0
  then show ?case by (simp add: map_nth)
next
  case (Suc n)
  then show ?case
    by (cases "\<forall>i<n. P i \<longrightarrow> Q i (xs ! i)")
      (auto simp: dbg_assert_def nth_list_update less_Suc_eq intro!: nth_equalityI)
qed

subsection \<open>Lexicographic comparison of vectors\<close>

fun vec_less :: "('a::linorder) list \<Rightarrow> 'a list \<Rightarrow> bool" where
  "vec_less _ [] = False"
| "vec_less [] (_ # _) = True"
| "vec_less (x # xs) (y # ys) = (x < y \<or> \<not> y < x \<and> vec_less xs ys)"

lemma vec_less_irrefl [simp]: "\<not> vec_less xs xs"
  by (induction xs) auto

lemma vec_less_asym: "vec_less xs ys \<Longrightarrow> \<not> vec_less ys xs"
  by (induction xs ys rule: vec_less.induct) auto

lemma vec_less_linear: "vec_less xs ys \<or> xs = ys \<or> vec_less ys xs"
  by (induction xs ys rule: vec_less.induct) (auto simp: neq_iff, metis list.exhaust vec_less.simps(2))

definition vec_cmp :: "('a::linorder) list \<Rightarrow> 'a list \<Rightarrow> int" where
  "vec_cmp xs ys = (if vec_less xs ys then -1 else if vec_less ys xs then 1 else 0)"

lemma vec_cmp_eq_0_iff [simp]: "vec_cmp xs ys = 0 \<longleftrightarrow> xs = ys"
  using vec_less_linear[of xs ys] by (auto simp: vec_cmp_def)

lemma vec_cmp_antisym: "vec_cmp ys xs = - vec_cmp xs ys"
  using vec_less_asym[of xs ys] by (auto simp: vec_cmp_def)

subsection \<open>Decimal output\<close>

text \<open>\<open>ostream << n\<close> for an unsigned integer.\<close>

definition digit_char :: "nat \<Rightarrow> char" where
  "digit_char d = char_of (48 + d)"

fun show_nat :: "nat \<Rightarrow> string" where
  "show_nat n = (if n < 10 then [digit_char n] else show_nat (n div 10) @ [digit_char (n mod 10)])"

declare show_nat.simps [simp del]

subsection \<open>Unsigned sizes\<close>

text \<open>Subtraction of \<open>size_t\<close> values wraps at 64 bits.\<close>

definition size_sub :: "nat \<Rightarrow> nat \<Rightarrow> nat" where
  "size_sub a b = (a + 2 ^ 64 - b) mod 2 ^ 64"

lemma size_sub_le [simp]: "b \<le> a \<Longrightarrow> a < 2 ^ 64 \<Longrightarrow> size_sub a b = a - b"
  by (simp add: size_sub_def mod_if)

subsection \<open>Ordered maps\<close>

text \<open>\<open>std::map\<close> iterates in the order of its keys: it is the list of its pairs, sorted by key.
  \<open>insert\<close> does nothing when the key is present.\<close>

definition stdmap_ok :: "('k::linorder \<times> 'v) list \<Rightarrow> bool" where
  "stdmap_ok m = sorted_wrt (<) (map fst m)"

fun stdmap_insert :: "'k::linorder \<Rightarrow> 'v \<Rightarrow> ('k \<times> 'v) list \<Rightarrow> ('k \<times> 'v) list" where
  "stdmap_insert k v [] = [(k, v)]"
| "stdmap_insert k v ((k', v') # m) =
     (if k < k' then (k, v) # (k', v') # m
      else if k = k' then (k', v') # m
      else (k', v') # stdmap_insert k v m)"

definition stdmap_erase :: "'k \<Rightarrow> ('k \<times> 'v) list \<Rightarrow> ('k \<times> 'v) list" where
  "stdmap_erase k m = filter (\<lambda>p. fst p \<noteq> k) m"

fun stdmap_replace :: "'k \<Rightarrow> 'v \<Rightarrow> ('k \<times> 'v) list \<Rightarrow> ('k \<times> 'v) list" where
  "stdmap_replace k v [] = []"
| "stdmap_replace k v ((k', v') # m) =
     (if k = k' then (k, v) # m else (k', v') # stdmap_replace k v m)"

lemma stdmap_ok_simps [simp]:
  "stdmap_ok []"
  "stdmap_ok (p # m) \<longleftrightarrow> (\<forall>q\<in>set m. fst p < fst q) \<and> stdmap_ok m"
  by (auto simp: stdmap_ok_def)

lemma stdmap_ok_distinct: "stdmap_ok m \<Longrightarrow> distinct (map fst m)"
  by (induction m) fastforce+

lemma set_stdmap_insert:
  "set (stdmap_insert k v m) = (if k \<in> fst ` set m then set m else insert (k, v) (set m))"
  if "stdmap_ok m" for m
  using that
proof (induction k v m rule: stdmap_insert.induct)
  case (2 k v k' v' m)
  then show ?case by (auto simp: image_iff)
qed simp

lemma stdmap_ok_insert [simp]: "stdmap_ok m \<Longrightarrow> stdmap_ok (stdmap_insert k v m)"
proof (induction k v m rule: stdmap_insert.induct)
  case (2 k v k' v' m)
  then show ?case by (auto simp: set_stdmap_insert)
qed simp

lemma map_of_stdmap_insert:
  "stdmap_ok m \<Longrightarrow> k \<notin> fst ` set m \<Longrightarrow> map_of (stdmap_insert k v m) = (map_of m)(k \<mapsto> v)"
proof (induction k v m rule: stdmap_insert.induct)
  case (2 k v k' v' m)
  then show ?case by (auto simp: fun_eq_iff)
qed simp

lemma set_stdmap_erase: "set (stdmap_erase k m) = {p \<in> set m. fst p \<noteq> k}"
  by (auto simp: stdmap_erase_def)

lemma stdmap_ok_erase [simp]: "stdmap_ok m \<Longrightarrow> stdmap_ok (stdmap_erase k m)"
  by (induction m) (auto simp: stdmap_erase_def)

lemma map_of_stdmap_erase: "map_of (stdmap_erase k m) = (map_of m)(k := None)"
  by (induction m) (auto simp: stdmap_erase_def fun_eq_iff)

lemma map_fst_stdmap_replace [simp]: "map fst (stdmap_replace k v m) = map fst m"
  by (induction k v m rule: stdmap_replace.induct) auto

lemma stdmap_ok_replace [simp]: "stdmap_ok (stdmap_replace k v m) = stdmap_ok m"
  by (simp add: stdmap_ok_def)

lemma map_of_stdmap_replace:
  "map_of (stdmap_replace k v m) = (if k \<in> fst ` set m then (map_of m)(k \<mapsto> v) else map_of m)"
  by (induction k v m rule: stdmap_replace.induct) (auto simp: fun_eq_iff)

lemma stdmap_eqI: "stdmap_ok a \<Longrightarrow> stdmap_ok b \<Longrightarrow> set a = set b \<Longrightarrow> a = b"
proof (induction a arbitrary: b)
  case (Cons x a)
  then obtain y b' where b: "b = y # b'" by (cases b) auto
  have "x = y"
  proof (rule ccontr)
    assume "x \<noteq> y"
    then have "y \<in> set a" "x \<in> set b'" using Cons.prems(3) b by auto
    then show False using Cons.prems(1,2) b by (auto dest: order.asym)
  qed
  moreover have "x \<notin> set a" "y \<notin> set b'" using Cons.prems b by auto
  ultimately have "set a = set b'" using Cons.prems(3) b by auto
  then show ?case using Cons b \<open>x = y\<close> by auto
qed simp

lemma stdmap_map_of_eqI: "stdmap_ok a \<Longrightarrow> stdmap_ok b \<Longrightarrow> map_of a = map_of b \<Longrightarrow> a = b"
  by (metis stdmap_eqI stdmap_ok_distinct map_of_eqI map_of_inject_set subsetI set_eqI surj_pair
      map_of_is_SomeI map_of_SomeD)

lemma stdmap_erase_insert:
  assumes "stdmap_ok m" "k \<notin> fst ` set m"
  shows "stdmap_erase k (stdmap_insert k v m) = m"
proof (rule stdmap_map_of_eqI)
  have "map_of m k = None" using assms(2) by (simp add: map_of_eq_None_iff)
  then show "map_of (stdmap_erase k (stdmap_insert k v m)) = map_of m"
    using assms by (auto simp: map_of_stdmap_erase map_of_stdmap_insert fun_eq_iff)
qed (use assms in simp_all)

subsection \<open>Lists of images\<close>

lemma list_of_image:
  assumes "set xs \<subseteq> f ` A"
  obtains ys where "xs = map f ys" "set ys \<subseteq> A"
proof -
  have "\<exists>ys. xs = map f ys \<and> set ys \<subseteq> A" using assms
  proof (induction xs)
    case (Cons x xs)
    then obtain y ys where "x = f y" "y \<in> A" "xs = map f ys" "set ys \<subseteq> A" by auto
    then have "x # xs = map f (y # ys) \<and> set (y # ys) \<subseteq> A" by simp
    then show ?case by (rule exI)
  qed simp
  then show ?thesis using that by blast
qed

end
