(* ===== verification/Datum.thy ===== *)
theory Datum
  imports Prelude
begin

unbundle bit_operations_syntax

text \<open>
  Memory blobs: \<open>neoip_base/memory/datum\<close>.  A \<open>datum_t\<close> is a flag word, a data pointer and a
  length.  Every constructor sets the pointer to \<open>NULL\<close> exactly when the length is 0, so
  the pair is modelled by the byte list it designates and \<open>is_null\<close> is emptiness of that
  list.  The flags keep their 32 bit representation.  A \<open>NOCOPY\<close> datum shares the memory of
  its origin; the model gives it the contents at the time of the call.
\<close>

subsection \<open>Flags (\<open>datum_flag_t\<close>)\<close>

type_synonym datum_flag_t = "32 word"

definition NOCOPY :: datum_flag_t where "NOCOPY = push_bit 0 1"
definition SECMEM :: datum_flag_t where "SECMEM = push_bit 1 1"
definition FLAG_DFL :: datum_flag_t where "FLAG_DFL = 0"

definition flag_fully_include :: "datum_flag_t \<Rightarrow> datum_flag_t \<Rightarrow> bool" where
  "flag_fully_include f other = (f AND other = other)"

definition is_secmem :: "datum_flag_t \<Rightarrow> bool" where
  "is_secmem f = flag_fully_include f SECMEM"

definition is_nocopy :: "datum_flag_t \<Rightarrow> bool" where
  "is_nocopy f = flag_fully_include f NOCOPY"

definition inheritance :: "datum_flag_t \<Rightarrow> datum_flag_t" where
  "inheritance f = (if is_nocopy f then f XOR NOCOPY else f)"

text \<open>The binary \<open>^\<close> of the header is written with \<open>&=\<close>; the compound \<open>^=\<close> is a xor.\<close>

definition flag_xor_assign :: "datum_flag_t \<Rightarrow> datum_flag_t \<Rightarrow> datum_flag_t" where
  "flag_xor_assign f other = f XOR other"

definition flag_xor :: "datum_flag_t \<Rightarrow> datum_flag_t \<Rightarrow> datum_flag_t" where
  "flag_xor f other = f AND other"

subsection \<open>Blobs (\<open>datum_t\<close>)\<close>

record datum_t =
  datum_flag :: datum_flag_t
  datum_data :: bytes

definition datum_length :: "datum_t \<Rightarrow> nat" where
  "datum_length d = length (datum_data d)"

definition datum_is_null :: "datum_t \<Rightarrow> bool" where
  "datum_is_null d = (datum_data d = [])"

text \<open>\<open>internal_ctor\<close> with the original data given, as the constructors from a pointer and a
  length, a string or another datum call it.\<close>

definition datum_ctor :: "bytes \<Rightarrow> datum_flag_t \<Rightarrow> datum_t res" where
  "datum_ctor orig f =
     dbg_assert (\<not> is_nocopy f \<or> \<not> is_secmem f) (Inr \<lparr>datum_flag = f, datum_data = orig\<rparr>)"

definition datum_copy :: "datum_t \<Rightarrow> datum_t res" where
  "datum_copy other = datum_ctor (datum_data other) (inheritance (datum_flag other))"

text \<open>The self-assignment test of \<open>operator=\<close> compares addresses: \<open>same\<close> is its outcome.\<close>

definition datum_assign :: "bool \<Rightarrow> datum_t \<Rightarrow> datum_t \<Rightarrow> datum_t res" where
  "datum_assign same this other = (if same then Inr this else datum_copy other)"

definition datum_swap :: "datum_t \<Rightarrow> datum_t \<Rightarrow> datum_t \<times> datum_t" where
  "datum_swap a b = (b, a)"

definition datum_append :: "datum_t \<Rightarrow> datum_t \<Rightarrow> datum_t res" where
  "datum_append a b =
     res_bind (datum_ctor (datum_data a @ datum_data b) (inheritance (datum_flag a OR datum_flag b)))
       (\<lambda>tmp. datum_assign False a tmp)"

text \<open>The sum of the two \<open>size_t\<close> values wraps before it is compared; reading a range that the
  wrapped test let through is an access out of bounds.\<close>

definition datum_range :: "datum_t \<Rightarrow> nat \<Rightarrow> nat \<Rightarrow> datum_flag_t \<Rightarrow> datum_t res" where
  "datum_range d off len rflag =
     dbg_assert (is_nocopy rflag \<or> inheritance (datum_flag d) = inheritance rflag)
       (dbg_assert ((off + len) mod 2 ^ 64 \<le> datum_length d)
         (if datum_length d < off + len then Inl Out_of_bounds
          else datum_ctor (rdbuf off len (datum_data d)) rflag))"

fun memcmp :: "bytes \<Rightarrow> bytes \<Rightarrow> int" where
  "memcmp (x # xs) (y # ys) = (if x < y then -1 else if y < x then 1 else memcmp xs ys)"
| "memcmp _ _ = 0"

definition datum_compare :: "datum_t \<Rightarrow> datum_t \<Rightarrow> int" where
  "datum_compare a b =
     (if datum_is_null a \<and> \<not> datum_is_null b then -1
      else if \<not> datum_is_null a \<and> datum_is_null b then 1
      else if datum_is_null a \<and> datum_is_null b then 0
      else if datum_length a < datum_length b then -1
      else if datum_length a > datum_length b then 1
      else memcmp (datum_data a) (datum_data b))"

text \<open>The order operators of \<open>datum_t\<close>, each with the sign test the header has.\<close>

definition datum_eq :: "datum_t \<Rightarrow> datum_t \<Rightarrow> bool" where
  "datum_eq a b = (datum_compare a b = 0)"

definition datum_lt :: "datum_t \<Rightarrow> datum_t \<Rightarrow> bool" where
  "datum_lt a b = (datum_compare a b > 0)"

definition datum_gt :: "datum_t \<Rightarrow> datum_t \<Rightarrow> bool" where
  "datum_gt a b = (datum_compare a b < 0)"

definition hex_digit :: "nat \<Rightarrow> char" where
  "hex_digit n = ''0123456789abcdef'' ! n"

definition hex_byte :: "byte \<Rightarrow> string" where
  "hex_byte b = [hex_digit (unat b div 16), hex_digit (unat b mod 16)]"

definition datum_to_string :: "datum_t \<Rightarrow> string" where
  "datum_to_string d =
     (if datum_length d = 0 then [] else ''0x'' @ concat (map hex_byte (datum_data d)))"

subsection \<open>Lemmas\<close>

lemma inheritance_not_nocopy [simp]: "\<not> is_nocopy (inheritance f)"
proof (cases "is_nocopy f")
  case True
  then have "bit f 0"
    by (metis NOCOPY_def bit_and_iff bit_push_bit_iff flag_fully_include_def is_nocopy_def
        bit_1_0 push_bit_0_id id_apply)
  then have "\<not> bit (inheritance f) 0"
    using True by (simp add: inheritance_def NOCOPY_def bit_xor_iff)
  then show ?thesis
    by (metis NOCOPY_def bit_and_iff flag_fully_include_def is_nocopy_def bit_1_0 push_bit_0_id
        id_apply)
next
  case False
  then show ?thesis by (simp add: inheritance_def)
qed

lemma inheritance_idem [simp]: "inheritance (inheritance f) = inheritance f"
  using inheritance_not_nocopy[of f] by (simp add: inheritance_def[of "inheritance f"])

lemma datum_ctor_inherit [simp]:
  "datum_ctor bs (inheritance f) = Inr \<lparr>datum_flag = inheritance f, datum_data = bs\<rparr>"
  by (simp add: datum_ctor_def)

lemma memcmp_eq_0_iff: "length xs = length ys \<Longrightarrow> memcmp xs ys = 0 \<longleftrightarrow> xs = ys"
  by (induction xs ys rule: list_induct2) auto

lemma memcmp_antisym: "length xs = length ys \<Longrightarrow> memcmp ys xs = - memcmp xs ys"
  by (induction xs ys rule: list_induct2) auto

lemma datum_compare_eq_0_iff: "datum_compare a b = 0 \<longleftrightarrow> datum_data a = datum_data b"
  by (auto simp: datum_compare_def datum_is_null_def datum_length_def memcmp_eq_0_iff)

lemma datum_compare_antisym: "datum_compare b a = - datum_compare a b"
  using memcmp_antisym[of "datum_data a" "datum_data b"]
  by (auto simp: datum_compare_def datum_is_null_def datum_length_def)

lemma hex_digits_distinct: "distinct ''0123456789abcdef''"
  by code_simp

lemma hex_digits_length: "length ''0123456789abcdef'' = 16"
  by simp

lemma hex_digit_inj:
  assumes "i < 16" "j < 16" "hex_digit i = hex_digit j"
  shows "i = j"
  using assms nth_eq_iff_index_eq[OF hex_digits_distinct, of i j]
  unfolding hex_digits_length hex_digit_def by blast

lemma hex_byte_inj:
  assumes "hex_byte a = hex_byte b"
  shows "a = b"
proof -
  have "unat a < 256" "unat b < 256" using unsigned_less[of a] unsigned_less[of b] by simp_all
  then have "unat a div 16 = unat b div 16" "unat a mod 16 = unat b mod 16"
    using assms by (auto simp: hex_byte_def intro!: hex_digit_inj)
  then have "unat a = unat b" by (metis div_mult_mod_eq)
  then show "a = b" by (simp only: unsigned_word_eqI)
qed

lemma length_hex_byte [simp]: "length (hex_byte b) = 2"
  by (simp add: hex_byte_def)

lemma concat_hex_byte_inj:
  "concat (map hex_byte xs) = concat (map hex_byte ys) \<Longrightarrow> xs = ys"
proof (induction xs arbitrary: ys)
  case Nil
  then show ?case by (cases ys) (auto simp: hex_byte_def)
next
  case (Cons x xs)
  then obtain y ys' where ys: "ys = y # ys'" by (cases ys) (auto simp: hex_byte_def)
  with Cons.prems have "hex_byte x = hex_byte y" "concat (map hex_byte xs) = concat (map hex_byte ys')"
    by simp_all
  with Cons.IH ys show ?case using hex_byte_inj by blast
qed

lemma datum_to_string_inj:
  "datum_to_string a = datum_to_string b \<Longrightarrow> datum_data a = datum_data b"
  by (auto simp: datum_to_string_def datum_length_def split: if_splits intro: concat_hex_byte_inj)

end
