(* ===== verification/Serial.thy ===== *)
theory Serial
  imports Datum
begin

text \<open>
  The growable byte buffer \<open>serial_t\<close> (\<open>neoip_base/memory/serial\<close>) on which every packet of
  the library is built and parsed.  The buffer keeps its data in the middle of an allocated
  zone, grows at either end, and moves or reallocates the data when an end is exhausted.

  \<open>full_data\<close> is the allocated zone, \<open>used_ptr\<close> the offset of the used data in it (an \<open>int\<close>,
  as the code computes it with pointer arithmetic that may leave the zone), \<open>used_len\<close> and
  \<open>grow_length\<close> the two \<open>size_t\<close> fields.  A null zone is the empty list, with \<open>used_ptr = 0\<close>
  for the \<open>NULL\<close> pointer.  The contents of freshly allocated memory is the parameter \<open>m\<close>.
  Statistics (\<open>SERIAL_STAT_CODE\<close>) are compiled out in the source.
\<close>

definition INIT_LENGTH_DFL :: nat where "INIT_LENGTH_DFL = 256"
definition HEAD_LENGTH_DFL :: nat where "HEAD_LENGTH_DFL = 0"
definition GROW_LENGTH_DFL :: nat where "GROW_LENGTH_DFL = 256"

record serial_t =
  full_data :: bytes
  used_ptr :: int
  used_len :: nat
  grow_length :: nat

subsection \<open>Queries\<close>

definition full_length :: "serial_t \<Rightarrow> nat" where
  "full_length s = length (full_data s)"

definition head_freelen :: "serial_t \<Rightarrow> nat" where
  "head_freelen s = nat (used_ptr s)"

definition tail_freelen :: "serial_t \<Rightarrow> nat" where
  "tail_freelen s = full_length s - head_freelen s - used_len s"

definition serial_is_null :: "serial_t \<Rightarrow> bool" where
  "serial_is_null s = (used_len s = 0)"

text \<open>The bytes the buffer holds, in reading order.\<close>

definition serial_bytes :: "serial_t \<Rightarrow> bytes" where
  "serial_bytes s = rdbuf (nat (used_ptr s)) (used_len s) (full_data s)"

definition serial_is_sane :: "serial_t \<Rightarrow> bool" where
  "serial_is_sane s =
     ((full_data s = [] \<longrightarrow> used_ptr s = 0) \<and>
      (full_data s = [] \<longrightarrow> used_len s = 0) \<and>
      0 \<le> used_ptr s \<and>
      used_ptr s + int (used_len s) \<le> int (length (full_data s)) \<and>
      used_len s \<le> length (full_data s) \<and>
      int (used_len s) \<le> int (length (full_data s)) - used_ptr s \<and>
      head_freelen s + used_len s + tail_freelen s = full_length s)"

subsection \<open>Construction\<close>

definition serial_ctor :: "serial_t res" where
  "serial_ctor =
     (let s = \<lparr>full_data = [], used_ptr = 0, used_len = 0, grow_length = GROW_LENGTH_DFL\<rparr>
      in dbg_assert (serial_is_sane s) (Inr s))"

definition allocate_ctor :: "(nat \<Rightarrow> byte) \<Rightarrow> nat \<Rightarrow> nat \<Rightarrow> nat \<Rightarrow> serial_t res" where
  "allocate_ctor m new_init_length new_head_length new_grow_length =
     dbg_assert (0 < new_init_length)
      (dbg_assert (new_head_length \<le> new_init_length)
       (dbg_assert (0 < new_grow_length)
        (let s = \<lparr>full_data = malloc_fill m new_init_length, used_ptr = int new_head_length,
                  used_len = 0, grow_length = new_grow_length\<rparr>
         in dbg_assert (serial_is_sane s) (Inr s))))"

definition serial_prealloc :: "(nat \<Rightarrow> byte) \<Rightarrow> nat \<Rightarrow> nat \<Rightarrow> nat \<Rightarrow> serial_t res" where
  "serial_prealloc m new_init_length new_head_length new_grow_length =
     res_bind (allocate_ctor m new_init_length new_head_length new_grow_length)
       (\<lambda>s. dbg_assert (serial_is_sane s) (Inr s))"

definition work_on_data_nocopy :: "bytes \<Rightarrow> serial_t res" where
  "work_on_data_nocopy dat =
     (let s = \<lparr>full_data = dat, used_ptr = 0, used_len = length dat,
               grow_length = GROW_LENGTH_DFL\<rparr>
      in dbg_assert (serial_is_sane s) (Inr s))"

subsection \<open>Growing\<close>

text \<open>\<open>reallocate\<close> copies the old bytes with \<open>tail_add\<close>, which calls \<open>tail_alloc\<close>, which could
  call \<open>reallocate\<close> again.  The new zone always has the room, so that this inner call takes
  the first branch of \<open>tail_alloc\<close>: \<open>tail_add_room\<close> is that path, and it is an error (never
  reached, lemma \<open>reallocate_ok\<close>) when the room is missing.\<close>

definition tail_alloc_room :: "nat \<Rightarrow> serial_t \<Rightarrow> (int \<times> serial_t) res" where
  "tail_alloc_room req s =
     (let s' = s\<lparr>used_len := used_len s + req\<rparr>
      in dbg_assert (serial_is_sane s') (Inr (used_ptr s' + int (used_len s') - int req, s')))"

definition memcpy_at :: "int \<Rightarrow> bytes \<Rightarrow> serial_t \<Rightarrow> serial_t res" where
  "memcpy_at p dat s =
     (if p < 0 \<or> int (length (full_data s)) < p + int (length dat) then Inl Out_of_bounds
      else Inr (s\<lparr>full_data := blit (nat p) dat (full_data s)\<rparr>))"

definition tail_add_room :: "bytes \<Rightarrow> serial_t \<Rightarrow> serial_t res" where
  "tail_add_room dat s =
     (if tail_freelen s < length dat then Inl Out_of_bounds
      else res_bind (tail_alloc_room (length dat) s)
             (\<lambda>(p, s'). res_bind (memcpy_at p dat s')
                (\<lambda>s''. dbg_assert (serial_is_sane s'') (Inr s''))))"

definition reallocate :: "(nat \<Rightarrow> byte) \<Rightarrow> nat \<Rightarrow> nat \<Rightarrow> serial_t \<Rightarrow> serial_t res" where
  "reallocate m head_inclen tail_inclen s =
     (let new_used_length = used_len s + head_inclen + tail_inclen;
          new_full_length =
            (if new_used_length \<le> INIT_LENGTH_DFL then INIT_LENGTH_DFL
             else grow_length s * ceil_div new_used_length (grow_length s));
          old_used_data = serial_bytes s;
          new_free_length = new_full_length - new_used_length
      in res_bind (allocate_ctor m new_full_length (new_free_length div 2 + head_inclen)
                     (grow_length s))
           (\<lambda>s1. res_bind (tail_add_room old_used_data s1)
              (\<lambda>s2. dbg_assert (serial_is_sane s2) (Inr s2))))"

text \<open>\<open>memmove\<close> of the used data to another offset of the zone.\<close>

definition memshift :: "nat \<Rightarrow> serial_t \<Rightarrow> serial_t res" where
  "memshift new_ptr s =
     dbg_assert (full_data s \<noteq> [])
       (res_bind (memcpy_at (int new_ptr) (serial_bytes s) s)
         (\<lambda>s'. Inr (s'\<lparr>used_ptr := int new_ptr\<rparr>)))"

definition head_alloc :: "(nat \<Rightarrow> byte) \<Rightarrow> nat \<Rightarrow> serial_t \<Rightarrow> (int \<times> serial_t) res" where
  "head_alloc m req s =
     res_bind
       (if head_freelen s < req then
          if tail_freelen s + head_freelen s < req then reallocate m req 0 s
          else memshift (2 * (head_freelen s + tail_freelen s - req) div 3) s
        else Inr s)
       (\<lambda>s1. let s2 = s1\<lparr>used_ptr := used_ptr s1 - int req, used_len := used_len s1 + req\<rparr>
             in dbg_assert (serial_is_sane s2) (Inr (used_ptr s2, s2)))"

definition tail_alloc :: "(nat \<Rightarrow> byte) \<Rightarrow> nat \<Rightarrow> serial_t \<Rightarrow> (int \<times> serial_t) res" where
  "tail_alloc m req s =
     res_bind
       (if tail_freelen s < req then
          if head_freelen s + tail_freelen s < req then reallocate m 0 req s
          else memshift 0 s
        else Inr s)
       (tail_alloc_room req)"

definition head_add :: "(nat \<Rightarrow> byte) \<Rightarrow> bytes \<Rightarrow> serial_t \<Rightarrow> serial_t res" where
  "head_add m dat s =
     res_bind (head_alloc m (length dat) s)
       (\<lambda>(p, s'). res_bind (memcpy_at p dat s')
          (\<lambda>s''. dbg_assert (serial_is_sane s'') (Inr s'')))"

definition tail_add :: "(nat \<Rightarrow> byte) \<Rightarrow> bytes \<Rightarrow> serial_t \<Rightarrow> serial_t res" where
  "tail_add m dat s =
     res_bind (tail_alloc m (length dat) s)
       (\<lambda>(p, s'). res_bind (memcpy_at p dat s')
          (\<lambda>s''. dbg_assert (serial_is_sane s'') (Inr s'')))"

subsection \<open>Freeing and reading\<close>

definition head_free :: "nat \<Rightarrow> serial_t \<Rightarrow> serial_t res" where
  "head_free n s =
     dbg_assert (n \<le> used_len s)
       (dbg_assert (serial_is_sane s)
         (let s' = s\<lparr>used_ptr := used_ptr s + int n, used_len := used_len s - n\<rparr>
          in dbg_assert (serial_is_sane s') (Inr s')))"

definition tail_free :: "nat \<Rightarrow> serial_t \<Rightarrow> serial_t res" where
  "tail_free n s =
     dbg_assert (n \<le> used_len s)
       (let s' = s\<lparr>used_len := used_len s - n\<rparr> in dbg_assert (serial_is_sane s') (Inr s'))"

text \<open>\<open>offset + len\<close> is a \<open>size_t\<close> sum and wraps at 64 bits.\<close>

definition serial_range :: "nat \<Rightarrow> nat \<Rightarrow> serial_t \<Rightarrow> bytes res" where
  "serial_range off len s =
     (if used_len s < (off + len) mod 2 ^ 64 then Inl (Except ''ByteArray too short.'')
      else if used_len s < off + len then Inl Out_of_bounds
      else Inr (rdbuf (nat (used_ptr s) + off) len (full_data s)))"

definition head_peek :: "nat \<Rightarrow> serial_t \<Rightarrow> bytes res" where
  "head_peek len s = dbg_assert (len \<le> used_len s) (serial_range 0 len s)"

definition tail_peek :: "nat \<Rightarrow> serial_t \<Rightarrow> bytes res" where
  "tail_peek len s = dbg_assert (len \<le> used_len s) (serial_range (used_len s - len) len s)"

definition head_consume :: "nat \<Rightarrow> serial_t \<Rightarrow> (bytes \<times> serial_t) res" where
  "head_consume len s =
     res_bind (head_peek len s) (\<lambda>d. res_bind (head_free len s) (\<lambda>s'. Inr (d, s')))"

definition tail_consume :: "nat \<Rightarrow> serial_t \<Rightarrow> (bytes \<times> serial_t) res" where
  "tail_consume len s =
     res_bind (tail_peek len s) (\<lambda>d. res_bind (tail_free len s) (\<lambda>s'. Inr (d, s')))"

definition serial_reset :: "serial_t \<Rightarrow> serial_t res" where
  "serial_reset s = head_free (used_len s) s"

definition set_size :: "(nat \<Rightarrow> byte) \<Rightarrow> nat \<Rightarrow> serial_t \<Rightarrow> serial_t res" where
  "set_size m len s = res_bind (tail_alloc m len s) (\<lambda>(p, s'). Inr s')"

subsection \<open>Copies\<close>

definition internal_ctor_docopy :: "(nat \<Rightarrow> byte) \<Rightarrow> bytes \<Rightarrow> serial_t res" where
  "internal_ctor_docopy m dat =
     (if length dat = 0 then serial_ctor
      else res_bind (allocate_ctor m (length dat) 0 GROW_LENGTH_DFL)
             (\<lambda>s. res_bind (tail_add m dat s)
                (\<lambda>s'. dbg_assert (serial_is_sane s') (Inr s'))))"

definition serial_copy :: "(nat \<Rightarrow> byte) \<Rightarrow> serial_t \<Rightarrow> serial_t res" where
  "serial_copy m other =
     (if serial_is_null other then serial_ctor
      else res_bind (allocate_ctor m (full_length other) (head_freelen other) (grow_length other))
             (\<lambda>s. res_bind (tail_add m (serial_bytes other) s)
                (\<lambda>s'. dbg_assert (serial_is_sane s') (Inr s'))))"

text \<open>\<open>operator=\<close>: the special case for an empty \<open>other\<close> is disabled there, so that the
  allocation is copied as it is.\<close>

definition serial_assign :: "(nat \<Rightarrow> byte) \<Rightarrow> serial_t \<Rightarrow> serial_t res" where
  "serial_assign m other =
     res_bind (allocate_ctor m (full_length other) (head_freelen other) (grow_length other))
       (\<lambda>s. res_bind (tail_add m (serial_bytes other) s)
          (\<lambda>s'. dbg_assert (serial_is_sane s') (Inr s')))"

definition serial_compare :: "serial_t \<Rightarrow> serial_t \<Rightarrow> int" where
  "serial_compare a b =
     (if serial_is_null a \<and> \<not> serial_is_null b then -1
      else if \<not> serial_is_null a \<and> serial_is_null b then 1
      else if serial_is_null a \<and> serial_is_null b then 0
      else datum_compare \<lparr>datum_flag = NOCOPY, datum_data = serial_bytes a\<rparr>
                         \<lparr>datum_flag = NOCOPY, datum_data = serial_bytes b\<rparr>)"

subsection \<open>Reading without consuming\<close>

text \<open>\<open>operator >>\<close> of a type reads a prefix of the bytes with a decoder and frees it.  The
  decoders themselves are in theory \<open>SerialCodec\<close>.  \<open>unserial_peek\<close> decodes and then takes the
  freed bytes back with \<open>head_alloc\<close>.\<close>

definition serial_get :: "(bytes \<Rightarrow> ('a \<times> bytes) res) \<Rightarrow> serial_t \<Rightarrow> ('a \<times> serial_t) res" where
  "serial_get dec s =
     res_bind (dec (serial_bytes s))
       (\<lambda>(v, rest). res_bind (head_free (used_len s - length rest) s) (\<lambda>s'. Inr (v, s')))"

definition unserial_peek ::
  "(nat \<Rightarrow> byte) \<Rightarrow> (bytes \<Rightarrow> ('a \<times> bytes) res) \<Rightarrow> serial_t \<Rightarrow> ('a \<times> serial_t) res" where
  "unserial_peek m dec s =
     (let old_len = used_len s
      in res_bind (serial_get dec s)
           (\<lambda>(v, s1). res_bind (head_alloc m (old_len - used_len s1) s1)
              (\<lambda>(p, s2). dbg_assert (used_len s2 = old_len) (Inr (v, s2)))))"

subsection \<open>Sequences of operations and their specification\<close>

datatype buf_op = Tail_add bytes | Head_free nat | Tail_free nat

fun buf_step :: "(nat \<Rightarrow> byte) \<Rightarrow> buf_op \<Rightarrow> serial_t \<Rightarrow> serial_t res" where
  "buf_step m (Tail_add d) s = tail_add m d s"
| "buf_step m (Head_free n) s = head_free n s"
| "buf_step m (Tail_free n) s = tail_free n s"

fun spec_step :: "buf_op \<Rightarrow> bytes \<Rightarrow> bytes option" where
  "spec_step (Tail_add d) bs = Some (bs @ d)"
| "spec_step (Head_free n) bs = (if n \<le> length bs then Some (drop n bs) else None)"
| "spec_step (Tail_free n) bs = (if n \<le> length bs then Some (take (length bs - n) bs) else None)"

fun buf_run :: "(nat \<Rightarrow> byte) \<Rightarrow> buf_op list \<Rightarrow> serial_t \<Rightarrow> serial_t res" where
  "buf_run m [] s = Inr s"
| "buf_run m (x # xs) s = res_bind (buf_step m x s) (buf_run m xs)"

fun spec_run :: "buf_op list \<Rightarrow> bytes \<Rightarrow> bytes option" where
  "spec_run [] bs = Some bs"
| "spec_run (x # xs) bs = (case spec_step x bs of None \<Rightarrow> None | Some bs' \<Rightarrow> spec_run xs bs')"

text \<open>What a client of a byte buffer relies on: data is added at the tail and freed at the
  head, the former always succeeds.\<close>

locale byte_buffer =
  fixes bytes_of :: "'b \<Rightarrow> bytes"
    and inv :: "'b \<Rightarrow> bool"
    and add_tail :: "bytes \<Rightarrow> 'b \<Rightarrow> 'b res"
    and drop_head :: "nat \<Rightarrow> 'b \<Rightarrow> 'b res"
  assumes add_tail_law:
      "inv b \<Longrightarrow> \<exists>b'. add_tail d b = Inr b' \<and> inv b' \<and> bytes_of b' = bytes_of b @ d"
    and drop_head_law:
      "inv b \<Longrightarrow> n \<le> length (bytes_of b) \<Longrightarrow>
         \<exists>b'. drop_head n b = Inr b' \<and> inv b' \<and> bytes_of b' = drop n (bytes_of b)"
    and drop_head_short:
      "inv b \<Longrightarrow> length (bytes_of b) < n \<Longrightarrow> drop_head n b = Inl Assert_failed"
begin

fun add_all :: "bytes list \<Rightarrow> 'b \<Rightarrow> 'b res" where
  "add_all [] b = Inr b"
| "add_all (d # ds) b = res_bind (add_tail d b) (add_all ds)"

lemma add_all_bytes:
  "inv b \<Longrightarrow> \<exists>b'. add_all ds b = Inr b' \<and> inv b' \<and> bytes_of b' = bytes_of b @ concat ds"
proof (induction ds arbitrary: b)
  case Nil
  then show ?case by simp
next
  case (Cons d ds)
  obtain b1 where b1: "add_tail d b = Inr b1" "inv b1" "bytes_of b1 = bytes_of b @ d"
    using add_tail_law[OF Cons.prems] by blast
  from Cons.IH[OF b1(2)] b1 show ?case by auto
qed

lemma fifo:
  assumes "inv b"
  shows "\<exists>b1 b2. add_all ds b = Inr b1 \<and> drop_head (length (bytes_of b)) b1 = Inr b2 \<and>
           inv b2 \<and> bytes_of b2 = concat ds"
proof -
  obtain b1 where b1: "add_all ds b = Inr b1" "inv b1" "bytes_of b1 = bytes_of b @ concat ds"
    using add_all_bytes[OF assms] by blast
  with drop_head_law[OF b1(2), of "length (bytes_of b)"] show ?thesis by auto
qed

end

subsection \<open>Invariant\<close>

text \<open>\<open>is_sane\<close> of the code says where the used data may lie; together with a positive
  \<open>grow_length\<close> (asserted by \<open>allocate_ctor\<close>) it is the invariant of the class.\<close>

definition serial_inv :: "serial_t \<Rightarrow> bool" where
  "serial_inv s = (serial_is_sane s \<and> 0 < grow_length s)"

lemma serial_is_sane_iff:
  "serial_is_sane s \<longleftrightarrow>
     0 \<le> used_ptr s \<and> used_ptr s + int (used_len s) \<le> int (length (full_data s))"
  by (auto simp: serial_is_sane_def head_freelen_def tail_freelen_def full_length_def)

lemma serial_inv_iff:
  "serial_inv s \<longleftrightarrow>
     0 \<le> used_ptr s \<and> used_ptr s + int (used_len s) \<le> int (length (full_data s)) \<and>
     0 < grow_length s"
  by (auto simp: serial_inv_def serial_is_sane_iff)

lemmas serial_len_defs = head_freelen_def tail_freelen_def full_length_def

lemma length_serial_bytes [simp]: "serial_inv s \<Longrightarrow> length (serial_bytes s) = used_len s"
  by (auto simp: serial_inv_iff serial_bytes_def min_def)

lemma allocate_ctor_ok:
  assumes "0 < n" "h \<le> n" "0 < g"
  shows "allocate_ctor m n h g =
    Inr \<lparr>full_data = malloc_fill m n, used_ptr = int h, used_len = 0, grow_length = g\<rparr>"
  using assms by (simp add: allocate_ctor_def Let_def serial_is_sane_iff)

text \<open>Growing the used area inside the zone and filling the new part.\<close>

lemma tail_alloc_room_ok:
  assumes "serial_inv s" "req \<le> tail_freelen s"
  shows "tail_alloc_room req s =
           Inr (used_ptr s + int (used_len s), s\<lparr>used_len := used_len s + req\<rparr>)"
    and "serial_inv (s\<lparr>used_len := used_len s + req\<rparr>)"
  using assms
  by (auto simp: tail_alloc_room_def Let_def serial_inv_iff serial_is_sane_iff serial_len_defs)

lemma tail_fill_ok:
  assumes "serial_inv s" "length dat \<le> tail_freelen s"
  shows "\<exists>s'. res_bind (tail_alloc_room (length dat) s)
              (\<lambda>(p, s'). res_bind (memcpy_at p dat s')
                 (\<lambda>s''. dbg_assert (serial_is_sane s'') (Inr s''))) = Inr s' \<and>
           serial_inv s' \<and> serial_bytes s' = serial_bytes s @ dat \<and>
           used_ptr s' = used_ptr s \<and> full_length s' = full_length s \<and>
           grow_length s' = grow_length s"
proof -
  have room: "nat (used_ptr s) + used_len s + length dat \<le> length (full_data s)"
    using assms by (auto simp: serial_inv_iff serial_len_defs)
  moreover have "nat (used_ptr s + int (used_len s)) = nat (used_ptr s) + used_len s"
    using assms(1) by (simp add: serial_inv_iff nat_add_distrib)
  moreover have "used_ptr s + int (used_len s) + int (length dat) \<le> int (length (full_data s))"
    using room assms(1) by (auto simp: serial_inv_iff)
  ultimately show ?thesis
    using assms rdbuf_blit_tail[OF room]
    by (auto simp: tail_alloc_room_ok memcpy_at_def serial_inv_iff serial_is_sane_iff
        serial_bytes_def full_length_def)
qed

lemma reallocate_ok:
  assumes "serial_inv s"
  shows "\<exists>s'. reallocate m h t s = Inr s' \<and> serial_inv s' \<and> serial_bytes s' = serial_bytes s \<and>
           grow_length s' = grow_length s \<and> used_len s' = used_len s \<and>
           h \<le> head_freelen s' \<and> t \<le> tail_freelen s'"
proof -
  let ?n = "used_len s + h + t"
  define full where
    "full = (if ?n \<le> INIT_LENGTH_DFL then INIT_LENGTH_DFL
             else grow_length s * ceil_div ?n (grow_length s))"
  define hd where "hd = (full - ?n) div 2 + h"
  have g: "0 < grow_length s" using assms by (simp add: serial_inv_iff)
  have "?n \<le> full"
    using ceil_div_bounds(1)[OF g, of ?n] by (simp add: full_def INIT_LENGTH_DFL_def)
  moreover have "?n \<le> 256 \<Longrightarrow> full = 256" by (simp add: full_def INIT_LENGTH_DFL_def)
  ultimately have full: "?n \<le> full" "0 < full" by linarith+
  have hd: "h \<le> hd" "hd + used_len s + t \<le> full" using full by (auto simp: hd_def)
  define s1 where "s1 = \<lparr>full_data = malloc_fill m full, used_ptr = int hd, used_len = 0,
                         grow_length = grow_length s\<rparr>"
  have s1: "allocate_ctor m full hd (grow_length s) = Inr s1" "serial_inv s1"
    "serial_bytes s1 = []" "tail_freelen s1 = full - hd"
    using full hd g
    by (auto simp: allocate_ctor_ok s1_def serial_inv_iff serial_bytes_def serial_len_defs)
  have "length (serial_bytes s) \<le> tail_freelen s1" using hd s1 assms by simp
  from tail_fill_ok[OF s1(2) this] obtain s2 where
    s2: "tail_add_room (serial_bytes s) s1 = Inr s2" "serial_inv s2"
      "serial_bytes s2 = serial_bytes s" "used_ptr s2 = int hd" "full_length s2 = full"
      "grow_length s2 = grow_length s"
    using \<open>length (serial_bytes s) \<le> tail_freelen s1\<close> s1(3)
    by (auto simp: tail_add_room_def s1_def full_length_def)
  have len: "used_len s2 = used_len s" using s2 assms by (metis length_serial_bytes)
  have "reallocate m h t s = Inr s2"
    using s1(1) s2(1,2)
    by (simp add: reallocate_def Let_def full_def[symmetric] hd_def[symmetric] serial_inv_def)
  then show ?thesis
    using s2 len hd by (auto simp: serial_len_defs)
qed

lemma memshift_ok:
  assumes "serial_inv s" "full_data s \<noteq> []" "p + used_len s \<le> full_length s"
  shows "\<exists>s'. memshift p s = Inr s' \<and> serial_inv s' \<and> serial_bytes s' = serial_bytes s \<and>
           used_ptr s' = int p \<and> used_len s' = used_len s \<and> full_length s' = full_length s \<and>
           grow_length s' = grow_length s"
proof -
  have len: "length (serial_bytes s) = used_len s" using assms(1) by simp
  let ?s = "s\<lparr>full_data := blit p (serial_bytes s) (full_data s), used_ptr := int p\<rparr>"
  have eq: "memshift p s = Inr ?s"
    using assms len by (simp add: memshift_def memcpy_at_def full_length_def)
  have "p + length (serial_bytes s) \<le> length (full_data s)"
    using assms(3) len by (simp add: full_length_def)
  then have "serial_bytes ?s = serial_bytes s" "full_length ?s = full_length s"
    using len by (simp_all add: serial_bytes_def[of ?s] full_length_def rdbuf_blit_same)
  moreover have "serial_inv ?s"
    using assms len by (simp add: serial_inv_iff full_length_def)
  ultimately show ?thesis using eq by simp
qed

text \<open>Making room at the tail always succeeds.\<close>

lemma tail_room_ok:
  assumes "serial_inv s"
  shows "\<exists>s'. (if tail_freelen s < req then
          if head_freelen s + tail_freelen s < req then reallocate m 0 req s
          else memshift 0 s
        else Inr s) = Inr s' \<and> serial_inv s' \<and> serial_bytes s' = serial_bytes s \<and>
        used_len s' = used_len s \<and> req \<le> tail_freelen s'"
proof (cases "tail_freelen s < req")
  case True
  show ?thesis
  proof (cases "head_freelen s + tail_freelen s < req")
    case realloc: True
    then show ?thesis using True reallocate_ok[OF assms, of m 0 req] by auto
  next
    case False
    with True have "0 < head_freelen s" by linarith
    then have "full_data s \<noteq> []" using assms by (auto simp: serial_inv_iff head_freelen_def)
    moreover have "0 + used_len s \<le> full_length s"
      using assms by (auto simp: serial_inv_iff full_length_def)
    ultimately obtain s' where
      s': "memshift 0 s = Inr s'" "serial_inv s'" "serial_bytes s' = serial_bytes s"
        "used_ptr s' = 0" "used_len s' = used_len s" "full_length s' = full_length s"
      using memshift_ok[OF assms, of 0] by auto
    moreover have "req \<le> tail_freelen s'"
      using False s' assms by (auto simp: serial_len_defs serial_inv_iff)
    ultimately show ?thesis using True False by auto
  qed
next
  case False
  then show ?thesis using assms by auto
qed


subsection \<open>The operations on the bytes\<close>

lemma serial_bytes_shrink:
  assumes "serial_inv s" "n \<le> used_len s"
  shows "serial_bytes (s\<lparr>used_ptr := used_ptr s + int n, used_len := used_len s - n\<rparr>) =
           drop n (serial_bytes s)"
    and "serial_bytes (s\<lparr>used_len := used_len s - n\<rparr>) = take (used_len s - n) (serial_bytes s)"
  using assms
  by (auto simp: serial_bytes_def drop_rdbuf take_rdbuf serial_inv_iff nat_add_distrib)

lemma tail_add_ok:
  assumes "serial_inv s"
  shows "\<exists>s'. tail_add m dat s = Inr s' \<and> serial_inv s' \<and>
           serial_bytes s' = serial_bytes s @ dat"
proof -
  obtain s1 where s1: "serial_inv s1" "serial_bytes s1 = serial_bytes s"
    "length dat \<le> tail_freelen s1"
    "tail_alloc m (length dat) s = tail_alloc_room (length dat) s1"
    using tail_room_ok[OF assms, of "length dat" m] by (auto simp: tail_alloc_def)
  then show ?thesis using tail_fill_ok[OF s1(1,3)] by (auto simp: tail_add_def)
qed

lemma head_free_ok:
  assumes "serial_inv s" "n \<le> used_len s"
  shows "\<exists>s'. head_free n s = Inr s' \<and> serial_inv s' \<and>
           serial_bytes s' = drop n (serial_bytes s) \<and>
           used_ptr s' = used_ptr s + int n \<and> used_len s' = used_len s - n \<and>
           full_data s' = full_data s \<and> grow_length s' = grow_length s"
  using assms serial_bytes_shrink(1)[OF assms]
  by (auto simp: head_free_def Let_def serial_inv_iff serial_is_sane_iff)

lemma tail_free_ok:
  assumes "serial_inv s" "n \<le> used_len s"
  shows "\<exists>s'. tail_free n s = Inr s' \<and> serial_inv s' \<and>
           serial_bytes s' = take (used_len s - n) (serial_bytes s)"
  using assms serial_bytes_shrink(2)[OF assms]
  by (auto simp: tail_free_def Let_def serial_inv_iff serial_is_sane_iff)

lemma free_short:
  "used_len s < n \<Longrightarrow> head_free n s = Inl Assert_failed"
  "used_len s < n \<Longrightarrow> tail_free n s = Inl Assert_failed"
  by (simp_all add: head_free_def tail_free_def)

interpretation serial_buf: byte_buffer serial_bytes serial_inv "tail_add m" head_free for m
proof unfold_locales
  fix b d
  assume "serial_inv b"
  then show "\<exists>b'. tail_add m d b = Inr b' \<and> serial_inv b' \<and> serial_bytes b' = serial_bytes b @ d"
    by (rule tail_add_ok)
next
  fix b n
  assume "serial_inv b" "n \<le> length (serial_bytes b)"
  then show "\<exists>b'. head_free n b = Inr b' \<and> serial_inv b' \<and> serial_bytes b' = drop n (serial_bytes b)"
    using head_free_ok[of b n] by auto
next
  fix b n
  assume "serial_inv b" "length (serial_bytes b) < n"
  then show "head_free n b = Inl Assert_failed" by (simp add: free_short)
qed

lemma buf_step_refines:
  assumes "serial_inv s"
  shows "case spec_step x (serial_bytes s) of
           None \<Rightarrow> buf_step m x s = Inl Assert_failed
         | Some bs \<Rightarrow> \<exists>s'. buf_step m x s = Inr s' \<and> serial_inv s' \<and> serial_bytes s' = bs"
proof (cases x)
  case (Tail_add d)
  then show ?thesis using tail_add_ok[OF assms, of m d] by simp
next
  case (Head_free n)
  then show ?thesis using assms head_free_ok[OF assms, of n] by (auto simp: free_short)
next
  case (Tail_free n)
  then show ?thesis using assms tail_free_ok[OF assms, of n] by (auto simp: free_short)
qed

lemma buf_run_refines:
  "serial_inv s \<Longrightarrow>
     (case spec_run xs (serial_bytes s) of
        None \<Rightarrow> buf_run m xs s = Inl Assert_failed
      | Some bs \<Rightarrow> \<exists>s'. buf_run m xs s = Inr s' \<and> serial_inv s' \<and> serial_bytes s' = bs)"
proof (induction xs arbitrary: s)
  case Nil
  then show ?case by simp
next
  case (Cons x xs)
  show ?case
  proof (cases "spec_step x (serial_bytes s)")
    case None
    then show ?thesis using buf_step_refines[OF Cons.prems, of m x] by simp
  next
    case (Some bs)
    then obtain s' where s': "buf_step m x s = Inr s'" "serial_inv s'" "serial_bytes s' = bs"
      using buf_step_refines[OF Cons.prems, of m x] by auto
    then show ?thesis using Cons.IH[OF s'(2)] Some by (auto split: option.splits)
  qed
qed

subsection \<open>Growing at the head\<close>

text \<open>The memory shift of \<open>head_alloc\<close> leaves \<open>2 * (free - req) / 3\<close> bytes in front of the data
  and then moves the start of the data down by \<open>req\<close>: it stays inside the zone only when that
  many bytes are there.\<close>

definition head_shift_fits :: "nat \<Rightarrow> serial_t \<Rightarrow> bool" where
  "head_shift_fits req s =
     (req \<le> head_freelen s \<or> head_freelen s + tail_freelen s < req \<or>
      req \<le> 2 * (head_freelen s + tail_freelen s - req) div 3)"

lemma serial_bytes_extend:
  assumes "serial_inv s" "n \<le> head_freelen s"
  shows "serial_inv (s\<lparr>used_ptr := used_ptr s - int n, used_len := used_len s + n\<rparr>)"
    and "drop n (serial_bytes (s\<lparr>used_ptr := used_ptr s - int n, used_len := used_len s + n\<rparr>)) =
           serial_bytes s"
proof -
  show "serial_inv (s\<lparr>used_ptr := used_ptr s - int n, used_len := used_len s + n\<rparr>)"
    using assms by (auto simp: serial_inv_iff head_freelen_def)
  have "nat (used_ptr s - int n) + n = nat (used_ptr s)"
    using assms by (auto simp: head_freelen_def)
  then show "drop n (serial_bytes (s\<lparr>used_ptr := used_ptr s - int n, used_len := used_len s + n\<rparr>)) =
           serial_bytes s"
    by (simp add: serial_bytes_def drop_rdbuf)
qed

lemma head_shift_room:
  assumes "serial_inv s" "head_freelen s < req" "req \<le> head_freelen s + tail_freelen s"
  shows "\<exists>s'. memshift (2 * (head_freelen s + tail_freelen s - req) div 3) s = Inr s' \<and>
           serial_inv s' \<and> serial_bytes s' = serial_bytes s \<and> used_len s' = used_len s \<and>
           used_ptr s' = int (2 * (head_freelen s + tail_freelen s - req) div 3)"
proof -
  have "full_data s \<noteq> []" using assms by (auto simp: serial_inv_iff serial_len_defs)
  moreover have "2 * (head_freelen s + tail_freelen s - req) div 3 + used_len s \<le> full_length s"
    using assms(1) by (auto simp: serial_inv_iff serial_len_defs)
  ultimately show ?thesis using memshift_ok[OF assms(1)] by blast
qed

lemma head_room:
  assumes "serial_inv s"
  shows "\<exists>s1. (if head_freelen s < req then
          if tail_freelen s + head_freelen s < req then reallocate m req 0 s
          else memshift (2 * (head_freelen s + tail_freelen s - req) div 3) s
        else Inr s) = Inr s1 \<and> serial_inv s1 \<and> serial_bytes s1 = serial_bytes s \<and>
        used_len s1 = used_len s \<and> (req \<le> head_freelen s1 \<longleftrightarrow> head_shift_fits req s)"
proof -
  consider (room) "req \<le> head_freelen s"
    | (grow) "head_freelen s < req" "tail_freelen s + head_freelen s < req"
    | (shift) "head_freelen s < req" "req \<le> head_freelen s + tail_freelen s"
    by linarith
  then show ?thesis
  proof cases
    case room
    then show ?thesis using assms by (auto simp: head_shift_fits_def)
  next
    case grow
    then show ?thesis
      using reallocate_ok[OF assms, of m req 0] by (auto simp: head_shift_fits_def)
  next
    case shift
    then show ?thesis
      using head_shift_room[OF assms shift] by (auto simp: head_shift_fits_def head_freelen_def)
  qed
qed

lemma head_alloc_ok:
  assumes "serial_inv s"
  shows "if head_shift_fits req s
         then \<exists>s'. head_alloc m req s = Inr (used_ptr s', s') \<and> serial_inv s' \<and>
                used_len s' = used_len s + req \<and> drop req (serial_bytes s') = serial_bytes s
         else head_alloc m req s = Inl Assert_failed"
proof -
  obtain s1 where s1: "serial_inv s1" "serial_bytes s1 = serial_bytes s" "used_len s1 = used_len s"
    "req \<le> head_freelen s1 \<longleftrightarrow> head_shift_fits req s"
    "head_alloc m req s =
       (let s2 = s1\<lparr>used_ptr := used_ptr s1 - int req, used_len := used_len s1 + req\<rparr>
        in dbg_assert (serial_is_sane s2) (Inr (used_ptr s2, s2)))"
    using head_room[OF assms, of req m] by (auto simp: head_alloc_def)
  show ?thesis
  proof (cases "head_shift_fits req s")
    case True
    with s1 serial_bytes_extend[OF s1(1), of req] show ?thesis
      by (auto simp: Let_def serial_inv_def)
  next
    case False
    with s1(4) have "used_ptr s1 - int req < 0"
      using s1(1) by (auto simp: head_freelen_def serial_inv_iff)
    with False s1(5) show ?thesis by (simp add: Let_def serial_is_sane_iff)
  qed
qed

lemma head_add_ok:
  assumes "serial_inv s" "head_shift_fits (length dat) s"
  shows "\<exists>s'. head_add m dat s = Inr s' \<and> serial_inv s' \<and> serial_bytes s' = dat @ serial_bytes s"
proof -
  obtain s1 where s1: "head_alloc m (length dat) s = Inr (used_ptr s1, s1)" "serial_inv s1"
      "used_len s1 = used_len s + length dat" "drop (length dat) (serial_bytes s1) = serial_bytes s"
    using head_alloc_ok[OF assms(1), of "length dat" m] assms(2) by auto
  let ?s = "s1\<lparr>full_data := blit (nat (used_ptr s1)) dat (full_data s1)\<rparr>"
  have fit: "nat (used_ptr s1) + length dat \<le> length (full_data s1)"
    using s1(2,3) by (auto simp: serial_inv_iff)
  then have inv: "serial_inv ?s" using s1(2) by (simp add: serial_inv_iff)
  have "serial_bytes ?s = dat @ rdbuf (nat (used_ptr s1) + length dat) (used_len s) (full_data s1)"
    using s1(3) rdbuf_blit_head[OF fit, of "used_len s"]
    by (simp add: serial_bytes_def add.commute)
  also have "rdbuf (nat (used_ptr s1) + length dat) (used_len s) (full_data s1) =
      drop (length dat) (serial_bytes s1)"
    using s1(3) by (simp add: serial_bytes_def drop_rdbuf)
  finally have "serial_bytes ?s = dat @ serial_bytes s" using s1(4) by simp
  moreover have "head_add m dat s = Inr ?s"
    using s1(1,2) fit inv by (auto simp: head_add_def memcpy_at_def serial_inv_iff serial_is_sane_iff)
  ultimately show ?thesis using inv by blast
qed

subsection \<open>Consuming and peeking\<close>

lemma serial_range_eq:
  assumes "serial_inv s" "off + len \<le> used_len s" "used_len s < 2 ^ 64"
  shows "serial_range off len s = Inr (rdbuf off len (serial_bytes s))"
  using assms by (simp add: serial_range_def serial_bytes_def rdbuf_def drop_take min_def add.commute)

lemma serial_get_ok:
  assumes "serial_inv s" "dec (serial_bytes s) = Inr (v, rest)"
    "rest = drop k (serial_bytes s)" "k \<le> used_len s"
  shows "\<exists>s'. serial_get dec s = Inr (v, s') \<and> serial_inv s' \<and> serial_bytes s' = rest \<and>
           used_ptr s' = used_ptr s + int k \<and> used_len s' = used_len s - k \<and>
           full_data s' = full_data s \<and> grow_length s' = grow_length s"
proof -
  have "used_len s - length rest = k" using assms by simp
  then show ?thesis
    using head_free_ok[OF assms(1,4)] assms(2,3) by (auto simp: serial_get_def)
qed

lemma unserial_peek_ok:
  assumes "serial_inv s" "dec (serial_bytes s) = Inr (v, rest)"
    "rest = drop k (serial_bytes s)" "k \<le> used_len s"
  shows "unserial_peek m dec s = Inr (v, s)"
proof -
  obtain s1 where s1: "serial_get dec s = Inr (v, s1)" "serial_inv s1"
      "used_ptr s1 = used_ptr s + int k" "used_len s1 = used_len s - k"
      "full_data s1 = full_data s" "grow_length s1 = grow_length s"
    using serial_get_ok[of s dec v rest k, OF assms] by blast
  have "head_freelen s1 \<ge> k" using s1(3) assms(1) by (auto simp: head_freelen_def serial_inv_iff)
  moreover have "s1\<lparr>used_ptr := used_ptr s1 - int k, used_len := used_len s1 + k\<rparr> = s"
    using s1(3-6) assms(4) by (cases s; cases s1) simp
  ultimately have "head_alloc m k s1 = Inr (used_ptr s, s)"
    using assms(1) s1(3) by (simp add: head_alloc_def Let_def serial_inv_def)
  then show ?thesis using s1(1,4) assms(4) by (simp add: unserial_peek_def Let_def)
qed

subsection \<open>Copies\<close>

lemma alloc_and_fill_ok:
  assumes "0 < n" "h \<le> n" "0 < g"
  shows "\<exists>s'. res_bind (allocate_ctor m n h g)
               (\<lambda>s. res_bind (tail_add m dat s)
                  (\<lambda>s'. dbg_assert (serial_is_sane s') (Inr s'))) = Inr s' \<and>
             serial_inv s' \<and> serial_bytes s' = dat"
proof -
  let ?s = "\<lparr>full_data = malloc_fill m n, used_ptr = int h, used_len = 0, grow_length = g\<rparr>"
  have "serial_inv ?s" "serial_bytes ?s = []"
    using assms by (simp_all add: serial_inv_iff serial_bytes_def)
  with tail_add_ok[of ?s m dat] show ?thesis
    using assms by (auto simp: allocate_ctor_ok serial_inv_def)
qed

lemma serial_ctor_ok:
  "serial_ctor = Inr \<lparr>full_data = [], used_ptr = 0, used_len = 0, grow_length = GROW_LENGTH_DFL\<rparr>"
  by (simp add: serial_ctor_def Let_def serial_is_sane_iff)

lemma internal_ctor_docopy_ok:
  "\<exists>s. internal_ctor_docopy m dat = Inr s \<and> serial_inv s \<and> serial_bytes s = dat"
  using alloc_and_fill_ok[of "length dat" 0 GROW_LENGTH_DFL m dat]
  by (auto simp: internal_ctor_docopy_def serial_ctor_ok GROW_LENGTH_DFL_def serial_inv_iff
      serial_bytes_def)

lemma serial_copy_ok:
  assumes "serial_inv other"
  shows "\<exists>s. serial_copy m other = Inr s \<and> serial_inv s \<and> serial_bytes s = serial_bytes other"
proof (cases "serial_is_null other")
  case True
  then have "serial_bytes other = []" using assms by (simp add: serial_is_null_def serial_bytes_def)
  then show ?thesis
    using True
    by (simp add: serial_copy_def serial_ctor_ok GROW_LENGTH_DFL_def serial_inv_iff serial_bytes_def)
next
  case False
  then have "0 < full_length other" "head_freelen other \<le> full_length other" "0 < grow_length other"
    using assms by (auto simp: serial_is_null_def serial_inv_iff serial_len_defs)
  from alloc_and_fill_ok[OF this] show ?thesis using False by (simp add: serial_copy_def)
qed

lemma serial_assign_ok:
  assumes "serial_inv other"
  shows "if full_data other = [] then serial_assign m other = Inl Assert_failed
         else \<exists>s. serial_assign m other = Inr s \<and> serial_inv s \<and>
                serial_bytes s = serial_bytes other"
  using assms alloc_and_fill_ok[of "full_length other" "head_freelen other" "grow_length other" m
      "serial_bytes other"]
  by (auto simp: serial_assign_def serial_inv_iff serial_len_defs allocate_ctor_def)

subsection \<open>Properties\<close>

text \<open>C24. Whatever the reallocations and memory shifts that happen inside, a sequence of
  \<open>tail_add\<close>, \<open>head_free\<close> and \<open>tail_free\<close> on a sane buffer acts on its bytes exactly as the
  sequence of list operations of the specification: it stops on an assertion when the
  specification has no result, and otherwise returns a sane buffer with the specified bytes.\<close>
theorem serial_run_refines_bytes:
  assumes "serial_inv s"
  shows "case spec_run xs (serial_bytes s) of
           None \<Rightarrow> buf_run m xs s = Inl Assert_failed
         | Some bs \<Rightarrow> \<exists>s'. buf_run m xs s = Inr s' \<and> serial_inv s' \<and> serial_bytes s' = bs"
  using assms by (rule buf_run_refines)

theorem serial_run_refines_bytes_witness:
  "case spec_run [Tail_add [1, 2, 3], Head_free 1, Tail_add [4], Tail_free 1] [] of
     None \<Rightarrow> False
   | Some bs \<Rightarrow> bs = [2, 3] \<and>
       (\<exists>s'. buf_run (\<lambda>_. 0) [Tail_add [1, 2, 3], Head_free 1, Tail_add [4], Tail_free 1]
          \<lparr>full_data = [], used_ptr = 0, used_len = 0, grow_length = 256\<rparr> = Inr s' \<and>
          serial_inv s' \<and> serial_bytes s' = [2, 3])"
  using serial_run_refines_bytes[of "\<lparr>full_data = [], used_ptr = 0, used_len = 0, grow_length = 256\<rparr>"
      "\<lambda>_. 0" "[Tail_add [1, 2, 3], Head_free 1, Tail_add [4], Tail_free 1]"]
  by (simp add: serial_inv_iff serial_bytes_def)

text \<open>\<open>head_add\<close> puts the data in front of the bytes, except in one case: when the head has
  too little room, the whole zone has enough, and two thirds of what would remain is less than
  the request, the memory shift puts the start of the data before the zone and the sanity
  assertion fails.\<close>
lemma head_add_prepends_or_leaves_zone:
  assumes "serial_inv s"
  shows "if head_shift_fits (length dat) s
         then \<exists>s'. head_add m dat s = Inr s' \<and> serial_inv s' \<and>
                serial_bytes s' = dat @ serial_bytes s
         else head_add m dat s = Inl Assert_failed"
  using head_add_ok[OF assms, of dat m] head_alloc_ok[OF assms, of "length dat" m]
  by (auto simp: head_add_def)

text \<open>\<open>unserial_peek\<close> returns the decoded value and leaves the buffer exactly as it was, for
  every decoder that reads a prefix of the bytes.\<close>
lemma unserial_peek_restores:
  assumes "serial_inv s" "dec (serial_bytes s) = Inr (v, drop k (serial_bytes s))"
    "k \<le> used_len s"
  shows "unserial_peek m dec s = Inr (v, s)"
  using assms(1,2) refl assms(3) by (rule unserial_peek_ok)

text \<open>The constructors from bytes and from another buffer produce a sane buffer with the
  same bytes; \<open>operator=\<close> does so as well, except from a buffer that has no allocated zone (a
  default constructed one), where the assertion on the length in \<open>allocate_ctor\<close> fails.\<close>
lemma serial_copies_keep_bytes:
  assumes "serial_inv other"
  shows "(\<exists>s. serial_copy m other = Inr s \<and> serial_inv s \<and> serial_bytes s = serial_bytes other) \<and>
         (\<exists>s. internal_ctor_docopy m (serial_bytes other) = Inr s \<and> serial_inv s \<and>
              serial_bytes s = serial_bytes other) \<and>
         (if full_data other = [] then serial_assign m other = Inl Assert_failed
          else \<exists>s. serial_assign m other = Inr s \<and> serial_inv s \<and>
                 serial_bytes s = serial_bytes other)"
  using serial_copy_ok[OF assms] internal_ctor_docopy_ok serial_assign_ok[OF assms] by blast

end
