(* ===== verification/SerialCodec.thy ===== *)
theory SerialCodec
  imports Serial
begin

text \<open>
  Serialization of the basic types: the inline \<open>operator <<\<close> and \<open>operator >>\<close> of
  \<open>neoip_serial.hpp\<close>, those of \<open>datum_t\<close>, and the byte swaps of \<open>neoip_endian.hpp\<close>.

  \<open>operator <<\<close> appends to a \<open>serial_t\<close>, \<open>operator >>\<close> frees at its head; by the refinement of
  theory \<open>Serial\<close> it is enough to model them on the bytes.  A writer is a function to the
  bytes it appends, a reader takes the bytes of the buffer and returns the value with the
  bytes that remain, or the exception.  The host is little endian (the \<open>_LITTLE_ENDIAN\<close>
  branch of \<open>neoip_endian.hpp\<close>): a word in memory is its bytes from the lowest.
\<close>

type_synonym 'a reader = "bytes \<Rightarrow> ('a \<times> bytes) res"

subsection \<open>Words in memory and byte swaps\<close>

definition le_bytes :: "nat \<Rightarrow> 'a::len word \<Rightarrow> bytes" where
  "le_bytes n w = map (\<lambda>i. ucast (drop_bit (8 * i) w)) [0..<n]"

primrec le_word :: "bytes \<Rightarrow> 'a::len word" where
  "le_word [] = 0"
| "le_word (b # bs) = ucast b OR push_bit 8 (le_word bs)"

definition NEOIP_BSWAP16 :: "16 word \<Rightarrow> 16 word" where
  "NEOIP_BSWAP16 x = (drop_bit 8 x OR push_bit 8 x)"

definition NEOIP_BSWAP32 :: "32 word \<Rightarrow> 32 word" where
  "NEOIP_BSWAP32 x =
     (drop_bit 24 x OR (drop_bit 8 x AND 0xff00) OR (push_bit 8 x AND 0xff0000) OR push_bit 24 x)"

definition NEOIP_BSWAP64 :: "64 word \<Rightarrow> 64 word" where
  "NEOIP_BSWAP64 x =
     (drop_bit 56 x OR (drop_bit 40 x AND 0xff00) OR (drop_bit 24 x AND 0xff0000) OR
      (drop_bit 8 x AND 0xff000000) OR (push_bit 8 x AND push_bit 32 0xff) OR
      (push_bit 24 x AND push_bit 40 0xff) OR (push_bit 40 x AND push_bit 48 0xff) OR
      push_bit 56 x)"

subsection \<open>Writers and readers\<close>

definition put_bool :: "bool \<Rightarrow> bytes" where
  "put_bool v = [if v then 1 else 0]"

definition get_bool :: "bool reader" where
  "get_bool bs =
     (if length bs < 1 then Inl (Except ''bool Payload Too Short'')
      else Inr (hd bs \<noteq> 0, drop 1 bs))"

definition put_uint8 :: "byte \<Rightarrow> bytes" where
  "put_uint8 v = [v]"

definition get_uint8 :: "byte reader" where
  "get_uint8 bs =
     (if length bs < 1 then Inl (Except ''uint8_t Payload Too Short'')
      else Inr (hd bs, drop 1 bs))"

definition put_uint16 :: "16 word \<Rightarrow> bytes" where
  "put_uint16 v = le_bytes 2 (NEOIP_BSWAP16 v)"

definition get_uint16 :: "16 word reader" where
  "get_uint16 bs =
     (if length bs < 2 then Inl (Except ''uint16_t Payload Too Short'')
      else Inr (NEOIP_BSWAP16 (le_word (take 2 bs)), drop 2 bs))"

definition put_uint32 :: "32 word \<Rightarrow> bytes" where
  "put_uint32 v = le_bytes 4 (NEOIP_BSWAP32 v)"

definition get_uint32 :: "32 word reader" where
  "get_uint32 bs =
     (if length bs < 4 then Inl (Except ''uint32_t Payload Too Short'')
      else Inr (NEOIP_BSWAP32 (le_word (take 4 bs)), drop 4 bs))"

definition put_uint64 :: "64 word \<Rightarrow> bytes" where
  "put_uint64 v = le_bytes 8 (NEOIP_BSWAP64 v)"

definition get_uint64 :: "64 word reader" where
  "get_uint64 bs =
     (if length bs < 8 then Inl (Except ''uint64_t Payload Too Short'')
      else Inr (NEOIP_BSWAP64 (le_word (take 8 bs)), drop 8 bs))"

text \<open>A \<open>float\<close> and a \<open>double\<close> travel as the integer with the same memory image; the model
  takes the image itself, 32 and 64 bits.\<close>

definition put_float :: "32 word \<Rightarrow> bytes" where
  "put_float img = put_uint32 img"

definition get_float :: "32 word reader" where
  "get_float bs = res_bind (get_uint32 bs) (\<lambda>(img, rest). Inr (img, rest))"

definition put_double :: "64 word \<Rightarrow> bytes" where
  "put_double img = put_uint64 img"

definition get_double :: "64 word reader" where
  "get_double bs = res_bind (get_uint64 bs) (\<lambda>(img, rest). Inr (img, rest))"

text \<open>The length of a string or datum is cast to \<open>uint32_t\<close>.  A \<open>std::string\<close> is its bytes.\<close>

definition put_string :: "bytes \<Rightarrow> bytes" where
  "put_string v = put_uint32 (word_of_nat (length v)) @ v"

definition get_string :: "bytes reader" where
  "get_string bs =
     res_bind (get_uint32 bs)
       (\<lambda>(len, rest). if length rest < unat len then Inl (Except ''std::string Payload Too Short'')
                      else Inr (take (unat len) rest, drop (unat len) rest))"

definition put_datum :: "datum_t \<Rightarrow> bytes" where
  "put_datum d = put_uint32 (word_of_nat (datum_length d)) @ datum_data d"

definition get_datum :: "datum_t reader" where
  "get_datum bs =
     res_bind (get_uint32 bs)
       (\<lambda>(len, rest). if length rest < unat len then Inl (Except ''datum_t Payload Too Short'')
                      else res_bind (datum_ctor (take (unat len) rest) FLAG_DFL)
                             (\<lambda>d. Inr (d, drop (unat len) rest)))"

subsection \<open>The contract of a serialized type\<close>

text \<open>\<open>ok\<close> says which values are written faithfully (all of them for the fixed size types).  A
  reader gives back the value and what followed it, reads a prefix of its input, and does not
  look at what follows the value.\<close>

locale serial_codec =
  fixes put :: "'a \<Rightarrow> bytes"
    and get :: "'a reader"
    and ok :: "'a \<Rightarrow> bool"
  assumes get_put: "ok v \<Longrightarrow> get (put v @ rest) = Inr (v, rest)"
    and get_prefix: "get bs = Inr (v, rest) \<Longrightarrow> \<exists>p. bs = p @ rest"
begin

lemma put_prefix_free:
  assumes "ok v" "ok w" "put v @ xs = put w @ ys"
  shows "v = w \<and> xs = ys"
proof -
  have "(Inr (v, xs) :: ('a \<times> bytes) res) = Inr (w, ys)"
    by (rule trans[OF get_put[OF assms(1), symmetric]]) (simp only: assms(3) get_put[OF assms(2)])
  then show ?thesis by simp
qed

lemma put_inj: "ok v \<Longrightarrow> ok w \<Longrightarrow> put v = put w \<Longrightarrow> v = w"
  using put_prefix_free[of v w "[]" "[]"] by simp

lemma get_put_exact: "ok v \<Longrightarrow> get (put v) = Inr (v, [])"
  using get_put[of v "[]"] by simp

fun get_list :: "nat \<Rightarrow> 'a list reader" where
  "get_list 0 bs = Inr ([], bs)"
| "get_list (Suc n) bs =
     res_bind (get bs) (\<lambda>(v, rest). res_bind (get_list n rest) (\<lambda>(vs, rest'). Inr (v # vs, rest')))"

lemma get_list_put:
  "\<forall>v\<in>set vs. ok v \<Longrightarrow> get_list (length vs) (concat (map put vs) @ rest) = Inr (vs, rest)"
  by (induction vs) (simp_all add: get_put)

lemma get_length_le: "get bs = Inr (v, rest) \<Longrightarrow> length rest \<le> length bs"
  using get_prefix by fastforce

end

text \<open>A buffer and a type that follows the contract: writing a value at the tail of an empty
  buffer and reading gives the value back and leaves the buffer empty.\<close>

locale serial_channel = byte_buffer + serial_codec
begin

lemma write_then_read:
  assumes "inv b" "bytes_of b = []" "ok v"
  shows "\<exists>b1 b2. add_tail (put v) b = Inr b1 \<and> get (bytes_of b1) = Inr (v, []) \<and>
           drop_head (length (bytes_of b1)) b1 = Inr b2 \<and> inv b2 \<and> bytes_of b2 = []"
proof -
  obtain b1 where b1: "add_tail (put v) b = Inr b1" "inv b1" "bytes_of b1 = put v"
    using add_tail_law[OF assms(1), of "put v"] assms(2) by auto
  moreover from drop_head_law[OF b1(2), of "length (bytes_of b1)"] obtain b2 where
    "drop_head (length (bytes_of b1)) b1 = Inr b2" "inv b2" "bytes_of b2 = []" by auto
  ultimately show ?thesis using get_put_exact[OF assms(3)] by auto
qed

end

subsection \<open>Bytes of a word\<close>

lemma length_le_bytes [simp]: "length (le_bytes n w) = n"
  by (simp add: le_bytes_def)

lemma bit_le_word:
  "bit (le_word bs :: 'a::len word) i \<longleftrightarrow>
     i < LENGTH('a) \<and> i div 8 < length bs \<and> bit (bs ! (i div 8)) (i mod 8)"
proof (induction bs arbitrary: i)
  case Nil
  then show ?case by simp
next
  case (Cons b bs)
  show ?case
  proof (cases "i < 8")
    case True
    then show ?thesis by (auto simp: bit_or_iff bit_push_bit_iff bit_ucast_iff)
  next
    case False
    then obtain j where j: "i = 8 + j" by (metis le_Suc_ex not_less)
    have "\<not> bit b i" using False bit_imp_le_length[of b i] by auto
    moreover have "(8 + j) div 8 = Suc (j div 8)" "(8 + j) mod 8 = j mod 8" by simp_all
    ultimately show ?thesis
      using Cons.IH[of j] j by (auto simp: bit_or_iff bit_push_bit_iff bit_ucast_iff)
  qed
qed

lemma bit_le_bytes_nth:
  "j < n \<Longrightarrow> k < 8 \<Longrightarrow> bit (le_bytes n w ! j) k \<longleftrightarrow> bit w (8 * j + k)"
  by (simp add: le_bytes_def bit_ucast_iff bit_drop_bit_eq)

lemma le_word_le_bytes:
  assumes "LENGTH('a) \<le> 8 * n"
  shows "le_word (le_bytes n w) = (w :: 'a::len word)"
proof (rule bit_word_eqI)
  fix i assume "i < LENGTH('a)"
  moreover from this assms have "i div 8 < n" by linarith
  ultimately show "bit (le_word (le_bytes n w) :: 'a word) i = bit w i"
    by (simp add: bit_le_word bit_le_bytes_nth)
qed

lemma le_bytes_le_word:
  assumes "LENGTH('a) = 8 * length bs"
  shows "le_bytes (length bs) (le_word bs :: 'a::len word) = bs"
proof (rule nth_equalityI)
  fix j assume j: "j < length (le_bytes (length bs) (le_word bs :: 'a word))"
  show "le_bytes (length bs) (le_word bs :: 'a word) ! j = bs ! j"
  proof (rule bit_word_eqI)
    fix k assume "k < LENGTH(8)"
    then have "k < 8" "8 * j + k < 8 * length bs" using j by simp_all
    then show "bit (le_bytes (length bs) (le_word bs :: 'a word) ! j) k = bit (bs ! j) k"
      using j assms by (simp add: bit_le_word bit_le_bytes_nth)
  qed
qed simp

lemma byte_masks:
    "(0xff00 :: 32 word) = push_bit 8 (mask 8)" "(0xff0000 :: 32 word) = push_bit 16 (mask 8)"
    "(0xff :: 64 word) = mask 8"
    "(0xff00 :: 64 word) = push_bit 8 (mask 8)" "(0xff0000 :: 64 word) = push_bit 16 (mask 8)"
    "(0xff000000 :: 64 word) = push_bit 24 (mask 8)"
    by (simp_all add: mask_eq_exp_minus_1 push_bit_eq_mult)

lemma bit_beyond: "LENGTH('a) \<le> i \<Longrightarrow> \<not> bit (x :: 'a::len word) i"
  using bit_imp_le_length not_le by blast

lemma bit_push_bit_word:
  "bit (push_bit k x :: 'a::len word) i \<longleftrightarrow> k \<le> i \<and> i < LENGTH('a) \<and> bit x (i - k)"
  using bit_imp_le_length[of "push_bit k x" i] by (auto simp: bit_push_bit_iff)

lemma bit_byte_mask:
  "bit (push_bit k 0xff :: 64 word) i \<longleftrightarrow> k \<le> i \<and> i < k + 8 \<and> i < 64"
  "bit (0xff00 :: 32 word) i \<longleftrightarrow> 8 \<le> i \<and> i < 16"
  "bit (0xff0000 :: 32 word) i \<longleftrightarrow> 16 \<le> i \<and> i < 24"
  "bit (0xff00 :: 64 word) i \<longleftrightarrow> 8 \<le> i \<and> i < 16"
  "bit (0xff0000 :: 64 word) i \<longleftrightarrow> 16 \<le> i \<and> i < 24"
  "bit (0xff000000 :: 64 word) i \<longleftrightarrow> 24 \<le> i \<and> i < 32"
  unfolding byte_masks by (auto simp: bit_push_bit_iff bit_mask_iff)

text \<open>The swaps reverse the bytes: bit \<open>k\<close> of byte \<open>j\<close> comes from byte \<open>n - 1 - j\<close>.\<close>

lemma bit_BSWAP16:
  "i < 16 \<Longrightarrow> bit (NEOIP_BSWAP16 x) i \<longleftrightarrow> (if i < 8 then bit x (i + 8) else bit x (i - 8))"
  unfolding NEOIP_BSWAP16_def bit_or_iff bit_drop_bit_eq bit_push_bit_word
  using bit_beyond[of "8 + i" x] by (simp add: add.commute not_less)

lemma bit_BSWAP32:
  "i < 32 \<Longrightarrow> bit (NEOIP_BSWAP32 x) i \<longleftrightarrow>
     (if i < 8 then bit x (i + 24) else if i < 16 then bit x (i + 8)
      else if i < 24 then bit x (i - 8) else bit x (i - 24))"
  unfolding NEOIP_BSWAP32_def bit_or_iff bit_and_iff bit_byte_mask
  unfolding bit_drop_bit_eq bit_push_bit_word
  using bit_beyond[of "24+i" x]
  by (simp add: add.commute not_less)

lemma bit_BSWAP64:
  "i < 64 \<Longrightarrow> bit (NEOIP_BSWAP64 x) i \<longleftrightarrow>
     (if i < 8 then bit x (i + 56) else if i < 16 then bit x (i + 40)
      else if i < 24 then bit x (i + 24) else if i < 32 then bit x (i + 8)
      else if i < 40 then bit x (i - 8) else if i < 48 then bit x (i - 24)
      else if i < 56 then bit x (i - 40) else bit x (i - 56))"
  unfolding NEOIP_BSWAP64_def bit_or_iff bit_and_iff bit_byte_mask
  unfolding bit_drop_bit_eq bit_push_bit_word
  using bit_beyond[of "56+i" x]
  by (simp add: add.commute not_less)

lemma BSWAP_involution [simp]:
  "NEOIP_BSWAP16 (NEOIP_BSWAP16 a) = a"
  "NEOIP_BSWAP32 (NEOIP_BSWAP32 b) = b"
  "NEOIP_BSWAP64 (NEOIP_BSWAP64 c) = c"
  by (rule bit_word_eqI, force simp: bit_BSWAP16 bit_BSWAP32 bit_BSWAP64)+

text \<open>On the wire an integer is its bytes from the highest.\<close>

lemma put_uint_big_endian:
  "put_uint16 a = map (\<lambda>j. ucast (drop_bit (8 * (1 - j)) a)) [0..<2]"
  "put_uint32 b = map (\<lambda>j. ucast (drop_bit (8 * (3 - j)) b)) [0..<4]"
  "put_uint64 c = map (\<lambda>j. ucast (drop_bit (8 * (7 - j)) c)) [0..<8]"
proof -
  have byte_eq16: "bit (NEOIP_BSWAP16 a) (8 * j + k) = bit a (8 * (1 - j) + k)"
    if "j < 2" "k < 8" for j k
  proof -
    from that(1) have "j = 0 \<or> j = 1" by linarith
    then show ?thesis using that(2) by (auto simp: bit_BSWAP16 add.commute)
  qed
  have byte_eq32: "bit (NEOIP_BSWAP32 b) (8 * j + k) = bit b (8 * (3 - j) + k)"
    if "j < 4" "k < 8" for j k
  proof -
    from that(1) have "j = 0 \<or> j = 1 \<or> j = 2 \<or> j = 3" by linarith
    then show ?thesis using that(2) by (auto simp: bit_BSWAP32 add.commute)
  qed
  have byte_eq64: "bit (NEOIP_BSWAP64 c) (8 * j + k) = bit c (8 * (7 - j) + k)"
    if "j < 8" "k < 8" for j k
  proof -
    from that(1) have "j = 0 \<or> j = 1 \<or> j = 2 \<or> j = 3 \<or> j = 4 \<or> j = 5 \<or> j = 6 \<or> j = 7"
      by linarith
    then show ?thesis using that(2) by (elim disjE) (simp_all add: bit_BSWAP64 add.commute)
  qed
  show "put_uint16 a = map (\<lambda>j. ucast (drop_bit (8 * (1 - j)) a)) [0..<2]"
    "put_uint32 b = map (\<lambda>j. ucast (drop_bit (8 * (3 - j)) b)) [0..<4]"
    "put_uint64 c = map (\<lambda>j. ucast (drop_bit (8 * (7 - j)) c)) [0..<8]"
    unfolding put_uint16_def put_uint32_def put_uint64_def le_bytes_def
    by (rule map_cong[OF refl], rule bit_word_eqI, simp add: bit_ucast_iff bit_drop_bit_eq byte_eq16 byte_eq32 byte_eq64)+
qed

subsection \<open>The basic types follow the contract\<close>

lemma length_put_uint [simp]:
  "length (put_uint16 a) = 2" "length (put_uint32 b) = 4" "length (put_uint64 c) = 8"
  by (simp_all add: put_uint16_def put_uint32_def put_uint64_def)

lemma append_take_drop_ex: "\<exists>p. xs = p @ drop n xs"
  by (metis append_take_drop_id)

interpretation bool_codec: serial_codec put_bool get_bool "\<lambda>_. True"
  by unfold_locales
    (auto simp: put_bool_def get_bool_def append_take_drop_ex[of _ "Suc 0"] split: if_splits)

interpretation uint8_codec: serial_codec put_uint8 get_uint8 "\<lambda>_. True"
  by unfold_locales
    (auto simp: put_uint8_def get_uint8_def append_take_drop_ex[of _ "Suc 0"] split: if_splits)

interpretation uint16_codec: serial_codec put_uint16 get_uint16 "\<lambda>_. True"
  by unfold_locales
    (auto simp: put_uint16_def get_uint16_def le_word_le_bytes append_take_drop_ex split: if_splits)

interpretation uint32_codec: serial_codec put_uint32 get_uint32 "\<lambda>_. True"
  by unfold_locales
    (auto simp: put_uint32_def get_uint32_def le_word_le_bytes append_take_drop_ex split: if_splits)

interpretation uint64_codec: serial_codec put_uint64 get_uint64 "\<lambda>_. True"
  by unfold_locales
    (auto simp: put_uint64_def get_uint64_def le_word_le_bytes append_take_drop_ex split: if_splits)

interpretation float_codec: serial_codec put_float get_float "\<lambda>_. True"
  using uint32_codec.get_put uint32_codec.get_prefix
  by unfold_locales (auto simp: put_float_def get_float_def res_bind_eq_Inr_iff)

interpretation double_codec: serial_codec put_double get_double "\<lambda>_. True"
  using uint64_codec.get_put uint64_codec.get_prefix
  by unfold_locales (auto simp: put_double_def get_double_def res_bind_eq_Inr_iff)

lemmas basic_get_put [simp, wire_simps] =
  bool_codec.get_put[OF TrueI] uint8_codec.get_put[OF TrueI] uint16_codec.get_put[OF TrueI]
  uint32_codec.get_put[OF TrueI] uint64_codec.get_put[OF TrueI] float_codec.get_put[OF TrueI]
  double_codec.get_put[OF TrueI]

lemma unat_of_nat_32: "unat (word_of_nat n :: 32 word) = n mod 2 ^ 32"
  by (simp add: unsigned_of_nat take_bit_eq_mod)

lemma get_string_put_string:
  "get_string (put_string v @ rest) =
     Inr (take (length v mod 2 ^ 32) v, drop (length v mod 2 ^ 32) v @ rest)"
proof -
  have "length v mod 2 ^ 32 \<le> length v" by (rule mod_less_eq_dividend)
  then show ?thesis by (simp add: get_string_def put_string_def unat_of_nat_32)
qed

lemma length_prefixed_prefix:
  assumes "res_bind (get_uint32 bs)
     (\<lambda>(len, rest). if length rest < unat len then Inl e else
        res_bind (f (take (unat len) rest)) (\<lambda>v. Inr (v, drop (unat len) rest))) = Inr (v, rest)"
  shows "\<exists>p. bs = p @ rest"
proof -
  from assms obtain len r where r: "get_uint32 bs = Inr (len, r)" "rest = drop (unat len) r"
    by (auto simp: res_bind_eq_Inr_iff split: if_splits)
  then show ?thesis
    by (metis uint32_codec.get_prefix append_take_drop_id append_assoc)
qed

interpretation string_codec: serial_codec put_string get_string "\<lambda>v. length v < 2 ^ 32"
proof unfold_locales
  fix bs v rest
  assume "get_string bs = Inr (v, rest)"
  then show "\<exists>p. bs = p @ rest"
    by (intro length_prefixed_prefix[of bs "Except ''std::string Payload Too Short''" Inr v])
      (simp add: get_string_def cong: if_cong)
qed (simp add: get_string_put_string)

interpretation datum_codec: serial_codec put_datum get_datum
  "\<lambda>d. datum_length d < 2 ^ 32 \<and> datum_flag d = FLAG_DFL"
proof unfold_locales
  fix v :: datum_t and rest
  assume v: "datum_length v < 2 ^ 32 \<and> datum_flag v = FLAG_DFL"
  then have "unat (word_of_nat (datum_length v) :: 32 word) = length (datum_data v)"
    by (simp add: unat_of_nat_32 datum_length_def)
  then show "get_datum (put_datum v @ rest) = Inr (v, rest)"
    using v by (simp add: get_datum_def put_datum_def datum_ctor_def FLAG_DFL_def is_nocopy_def
        flag_fully_include_def NOCOPY_def)
next
  fix bs v rest
  assume "get_datum bs = Inr (v, rest)"
  then show "\<exists>p. bs = p @ rest"
    unfolding get_datum_def by (rule length_prefixed_prefix)
qed

text \<open>The buffer of theory \<open>Serial\<close> with the strings of this theory is a channel.\<close>

interpretation string_channel: serial_channel serial_bytes serial_inv "tail_add m" head_free
  put_string get_string "\<lambda>v. length v < 2 ^ 32" for m
  by unfold_locales

interpretation uint64_channel: serial_channel serial_bytes serial_inv "tail_add m" head_free
  put_uint64 get_uint64 "\<lambda>_. True" for m
  by unfold_locales

subsection \<open>Properties\<close>

text \<open>Every value of a basic type is read back as it was written, with what followed it.\<close>
lemma basic_types_roundtrip:
  "get_bool (put_bool b @ rest) = Inr (b, rest) \<and>
   get_uint8 (put_uint8 w8 @ rest) = Inr (w8, rest) \<and>
   get_uint16 (put_uint16 w16 @ rest) = Inr (w16, rest) \<and>
   get_uint32 (put_uint32 w32 @ rest) = Inr (w32, rest) \<and>
   get_uint64 (put_uint64 w64 @ rest) = Inr (w64, rest) \<and>
   get_float (put_float w32 @ rest) = Inr (w32, rest) \<and>
   get_double (put_double w64 @ rest) = Inr (w64, rest)"
  by simp

text \<open>The wire format of the integers is big endian: byte \<open>j\<close> of an \<open>n\<close> byte integer is its
  byte \<open>n - 1 - j\<close> counted from the lowest.\<close>
lemma integers_are_big_endian:
  "put_uint16 a = map (\<lambda>j. ucast (drop_bit (8 * (1 - j)) a)) [0..<2] \<and>
   put_uint32 b = map (\<lambda>j. ucast (drop_bit (8 * (3 - j)) b)) [0..<4] \<and>
   put_uint64 c = map (\<lambda>j. ucast (drop_bit (8 * (7 - j)) c)) [0..<8]"
  using put_uint_big_endian by blast

text \<open>A string is written with its length modulo \<open>2 ^ 32\<close>: reading gives back that many of
  its bytes (all of them below 4 GiB) and leaves the others in front of what followed.\<close>
lemma string_roundtrip_mod_length:
  "get_string (put_string v @ rest) =
     Inr (take (length v mod 2 ^ 32) v, drop (length v mod 2 ^ 32) v @ rest)"
  by (rule get_string_put_string)

text \<open>A string shorter than 4 GiB written into an empty sane \<open>serial_t\<close> with \<open>tail_add\<close> is
  what the reader finds in it, and freeing what was read leaves a sane empty buffer.\<close>
lemma string_through_serial:
  assumes "serial_inv s" "serial_bytes s = []" "length v < 2 ^ 32"
  shows "\<exists>s1 s2. tail_add m (put_string v) s = Inr s1 \<and>
           get_string (serial_bytes s1) = Inr (v, []) \<and>
           head_free (length (serial_bytes s1)) s1 = Inr s2 \<and>
           serial_inv s2 \<and> serial_bytes s2 = []"
  using assms by (rule string_channel.write_then_read)

end
