(* ===== verification/Slotpool.thy ===== *)
theory Slotpool
  imports Prelude
begin

text \<open>
  Slot identifiers: \<open>neoip_base/tools/slotpool\<close> and \<open>neoip_base/tools/object_slotid\<close>.  A pool
  hands out 32 bit slot numbers for pointers, like process identifiers; the value 0 (\<open>NONE\<close>)
  is meant never to be handed out.  Every object of the event loop code takes such a number
  at construction, and callbacks use it to learn whether the object still exists.

  Pointers are addresses (\<open>nat\<close>, \<open>NULL\<close> is 0), \<open>std::map\<close> is a partial function.
\<close>

type_synonym slot_id_t = "32 word"

definition SLOT_NONE :: slot_id_t where "SLOT_NONE = 0"

record slotpool_t =
  next_slot :: slot_id_t
  slot_db :: "slot_id_t \<rightharpoonup> nat"

definition slotpool_ctor :: "slotpool_t res" where
  "slotpool_ctor =
     (let offset = 1 :: 32 word
      in dbg_assert (offset > SLOT_NONE \<and> offset < - 1)
           (Inr \<lparr>next_slot = SLOT_NONE + offset, slot_db = Map.empty\<rparr>))"

definition slot_exist :: "slot_id_t \<Rightarrow> slotpool_t \<Rightarrow> bool" where
  "slot_exist slot p = (case slot_db p slot of None \<Rightarrow> False | Some _ \<Rightarrow> True)"

definition slot_find :: "slot_id_t \<Rightarrow> slotpool_t \<Rightarrow> nat" where
  "slot_find slot p = (case slot_db p slot of None \<Rightarrow> 0 | Some ptr \<Rightarrow> ptr)"

text \<open>The scan of \<open>allocate\<close>: it stops at a free slot, or at \<open>NONE\<close> after the counter wrapped.\<close>

lemma word_succ_cases: "(n :: 32 word) \<noteq> 0 \<Longrightarrow> n + 1 = 0 \<or> unat (n + 1) = unat n + 1"
  by (metis add.commute unatSuc word_not_simps(1) Suc_eq_plus1)

function slot_scan :: "(slot_id_t \<rightharpoonup> nat) \<Rightarrow> slot_id_t \<Rightarrow> slot_id_t" where
  "slot_scan db n = (if db n \<noteq> None \<and> n \<noteq> SLOT_NONE then slot_scan db (n + 1) else n)"
  by auto
termination
proof (relation "measure (\<lambda>(db, n). if n = 0 then 0 else 2 ^ 32 - unat n)")
  fix db :: "slot_id_t \<rightharpoonup> nat" and n :: slot_id_t
  assume "db n \<noteq> None \<and> n \<noteq> SLOT_NONE"
  moreover have "unat n < 2 ^ 32" using unsigned_less[of n] by simp
  ultimately show "((db, n + 1), db, n) \<in> measure (\<lambda>(db, n). if n = 0 then 0 else 2 ^ 32 - unat n)"
    using word_succ_cases[of n] by (auto simp: SLOT_NONE_def)
qed simp

declare slot_scan.simps [simp del]

definition slot_allocate :: "nat \<Rightarrow> slotpool_t \<Rightarrow> (slot_id_t \<times> slotpool_t) res" where
  "slot_allocate ptr p =
     (let n = slot_scan (slot_db p) (next_slot p)
      in dbg_assert (slot_db p n = None)
           (let nxt = (if n + 1 = SLOT_NONE then n + 1 + 1 else n + 1)
            in Inr (n, \<lparr>next_slot = nxt, slot_db = (slot_db p)(n \<mapsto> ptr)\<rparr>)))"

definition slot_release :: "slot_id_t \<Rightarrow> slotpool_t \<Rightarrow> slotpool_t res" where
  "slot_release slot p =
     dbg_assert (slot_exist slot p) (Inr (p\<lparr>slot_db := (slot_db p)(slot := None)\<rparr>))"

subsection \<open>Objects with a slot identifier\<close>

text \<open>The global pool is created by the first constructor.  \<open>this\<close> is the address of the
  object.\<close>

type_synonym global_slotpool = "slotpool_t option"

definition object_slotid_ctor :: "nat \<Rightarrow> global_slotpool \<Rightarrow> (slot_id_t \<times> global_slotpool) res" where
  "object_slotid_ctor this g =
     res_bind (case g of None \<Rightarrow> slotpool_ctor | Some p \<Rightarrow> Inr p)
       (\<lambda>p. res_bind (slot_allocate this p) (\<lambda>(slot, p'). Inr (slot, Some p')))"

definition object_slotid_dtor :: "slot_id_t \<Rightarrow> global_slotpool \<Rightarrow> global_slotpool res" where
  "object_slotid_dtor slot g =
     (case g of None \<Rightarrow> Inl Assert_failed
      | Some p \<Rightarrow> res_bind (slot_release slot p) (\<lambda>p'. Inr (Some p')))"

definition object_slotid_assign ::
  "bool \<Rightarrow> nat \<Rightarrow> slot_id_t \<Rightarrow> global_slotpool \<Rightarrow> (slot_id_t \<times> global_slotpool) res" where
  "object_slotid_assign same this slot g =
     (if same then Inr (slot, g)
      else res_bind (object_slotid_dtor slot g) (object_slotid_ctor this))"

definition object_slotid_exist :: "slot_id_t \<Rightarrow> global_slotpool \<Rightarrow> bool" where
  "object_slotid_exist slot g =
     (case g of None \<Rightarrow> False | Some p \<Rightarrow> slot_find slot p \<noteq> 0)"

definition object_slotid_tokeep :: "slot_id_t \<Rightarrow> global_slotpool \<Rightarrow> bool" where
  "object_slotid_tokeep slot g = object_slotid_exist slot g"

subsection \<open>Histories of a pool\<close>

datatype slot_op = Allocate nat | Release slot_id_t

fun slot_run :: "slot_op list \<Rightarrow> slotpool_t \<Rightarrow> (slot_id_t list \<times> slotpool_t) res" where
  "slot_run [] p = Inr ([], p)"
| "slot_run (Allocate ptr # ops) p =
     res_bind (slot_allocate ptr p)
       (\<lambda>(n, p'). res_bind (slot_run ops p') (\<lambda>(ids, p''). Inr (n # ids, p'')))"
| "slot_run (Release n # ops) p = res_bind (slot_release n p) (slot_run ops)"

subsection \<open>The scan\<close>

lemma slot_scan_result:
  "slot_scan db n = SLOT_NONE \<or> db (slot_scan db n) = None"
  by (induction db n rule: slot_scan.induct) (simp add: slot_scan.simps)

lemma slot_scan_ge:
  "n \<noteq> 0 \<Longrightarrow> slot_scan db n \<noteq> 0 \<Longrightarrow> unat n \<le> unat (slot_scan db n)"
proof (induction db n rule: slot_scan.induct)
  case (1 db n)
  show ?case
  proof (cases "db n \<noteq> None \<and> n \<noteq> SLOT_NONE")
    case True
    then have eq: "slot_scan db n = slot_scan db (n + 1)" by (subst slot_scan.simps) simp
    have "n + 1 \<noteq> 0"
    proof
      assume "n + 1 = 0"
      then have "slot_scan db (n + 1) = 0" by (subst slot_scan.simps) (simp add: SLOT_NONE_def)
      with eq 1(3) show False by simp
    qed
    moreover from this have "unat (n + 1) = unat n + 1" using word_succ_cases[of n] 1(2) by simp
    ultimately show ?thesis using "1.IH"[OF True] 1(3) eq by simp
  next
    case False
    then show ?thesis by (subst slot_scan.simps) auto
  qed
qed

lemma slot_scan_skips:
  "n \<noteq> 0 \<Longrightarrow> unat n \<le> k \<Longrightarrow> k < 2 ^ 32 \<Longrightarrow>
   slot_scan db n = 0 \<or> k < unat (slot_scan db n) \<Longrightarrow> db (word_of_nat k) \<noteq> None"
proof (induction db n rule: slot_scan.induct)
  case (1 db n)
  have used: "db n \<noteq> None \<and> n \<noteq> SLOT_NONE"
  proof (rule ccontr)
    assume "\<not> ?thesis"
    then have "slot_scan db n = n" by (subst slot_scan.simps) auto
    with 1(2,3,5) show False by simp
  qed
  then have eq: "slot_scan db n = slot_scan db (n + 1)" by (subst slot_scan.simps) simp
  show ?case
  proof (cases "k = unat n")
    case True
    then show ?thesis using used by simp
  next
    case False
    with 1(3) have "unat n < k" by simp
    moreover have "n + 1 \<noteq> 0"
    proof
      assume "n + 1 = 0"
      then have "n = - 1" by (simp add: eq_neg_iff_add_eq_0)
      then have "unat n = 2 ^ 32 - 1" by (simp add: unsigned_minus_1_eq_mask mask_eq_exp_minus_1)
      with \<open>unat n < k\<close> 1(4) show False by simp
    qed
    moreover from this have "unat (n + 1) = unat n + 1" using word_succ_cases[of n] 1(2) by simp
    ultimately show ?thesis using "1.IH"[OF used] 1(4,5) eq by simp
  qed
qed


subsection \<open>Allocation\<close>

text \<open>\<open>pool_exhausted p\<close>: every slot from \<open>next_slot\<close> to the last one is in use.\<close>

definition pool_exhausted :: "slotpool_t \<Rightarrow> bool" where
  "pool_exhausted p = (slot_scan (slot_db p) (next_slot p) = 0)"

lemma pool_exhausted_iff:
  assumes "next_slot p \<noteq> 0"
  shows "pool_exhausted p \<longleftrightarrow>
    (\<forall>k. unat (next_slot p) \<le> k \<and> k < 2 ^ 32 \<longrightarrow> slot_db p (word_of_nat k) \<noteq> None)"
proof
  assume "pool_exhausted p"
  then show "\<forall>k. unat (next_slot p) \<le> k \<and> k < 2 ^ 32 \<longrightarrow> slot_db p (word_of_nat k) \<noteq> None"
    using slot_scan_skips[OF assms, of _ "slot_db p"] unfolding pool_exhausted_def by blast
next
  assume all: "\<forall>k. unat (next_slot p) \<le> k \<and> k < 2 ^ 32 \<longrightarrow> slot_db p (word_of_nat k) \<noteq> None"
  show "pool_exhausted p"
  proof (rule ccontr)
    let ?n = "slot_scan (slot_db p) (next_slot p)"
    assume "\<not> pool_exhausted p"
    then have n: "?n \<noteq> 0" by (simp add: pool_exhausted_def)
    then have "slot_db p ?n = None" "unat (next_slot p) \<le> unat ?n"
      using slot_scan_result[of "slot_db p" "next_slot p"] slot_scan_ge[OF assms n]
      by (auto simp: SLOT_NONE_def)
    moreover have "unat ?n < 2 ^ 32" using unsigned_less[of ?n] by simp
    ultimately show False using all[rule_format, of "unat ?n"] by simp
  qed
qed

lemma slot_allocate_cases:
  assumes "next_slot p \<noteq> 0"
  shows "if pool_exhausted p
         then slot_allocate ptr p =
                (if slot_db p 0 = None
                 then Inr (0, \<lparr>next_slot = 1, slot_db = (slot_db p)(0 \<mapsto> ptr)\<rparr>)
                 else Inl Assert_failed)
         else \<exists>n p'. slot_allocate ptr p = Inr (n, p') \<and> n \<noteq> 0 \<and> slot_db p n = None \<and>
                unat (next_slot p) \<le> unat n \<and> slot_db p' = (slot_db p)(n \<mapsto> ptr) \<and>
                next_slot p' \<noteq> 0"
proof -
  let ?n = "slot_scan (slot_db p) (next_slot p)"
  have "pool_exhausted p \<Longrightarrow> ?n = 0" by (simp add: pool_exhausted_def)
  moreover have "\<not> pool_exhausted p \<Longrightarrow> ?n \<noteq> 0 \<and> slot_db p ?n = None \<and> unat (next_slot p) \<le> unat ?n"
    using slot_scan_result[of "slot_db p" "next_slot p"] slot_scan_ge[OF assms, of "slot_db p"]
    by (auto simp: pool_exhausted_def SLOT_NONE_def)
  ultimately show ?thesis
    by (auto simp: slot_allocate_def Let_def SLOT_NONE_def)
qed

subsection \<open>Fresh pools count\<close>

text \<open>Until the counter wraps, every slot in use is below \<open>next_slot\<close>.\<close>

definition slots_below :: "nat \<Rightarrow> slotpool_t \<Rightarrow> bool" where
  "slots_below k p =
     (unat (next_slot p) = k \<and> 0 < k \<and> (\<forall>n. slot_db p n \<noteq> None \<longrightarrow> unat n < k))"

lemma slot_allocate_next:
  assumes "slots_below k p" "slot_allocate ptr p = Inr (n, p')"
  shows "n = word_of_nat k" and "Suc k < 2 ^ 32 \<Longrightarrow> slots_below (Suc k) p'"
proof -
  have k: "next_slot p = word_of_nat k" "k < 2 ^ 32"
    using assms(1) unsigned_less[of "next_slot p"] by (auto simp: slots_below_def)
  then have "slot_db p (next_slot p) = None"
    using assms(1) by (metis less_irrefl slots_below_def)
  then have "slot_scan (slot_db p) (next_slot p) = next_slot p"
    by (subst slot_scan.simps) simp
  with assms(2) have n: "n = next_slot p" "slot_db p' = (slot_db p)(n \<mapsto> ptr)"
    "next_slot p' = (if n + 1 = 0 then n + 1 + 1 else n + 1)"
    by (auto simp: slot_allocate_def Let_def dbg_assert_eq_Inr_iff SLOT_NONE_def)
  then show "n = word_of_nat k" using k by simp
  assume "Suc k < 2 ^ 32"
  moreover have "n + 1 = word_of_nat (Suc k)" using n(1) k by (simp add: add.commute)
  ultimately have suc: "unat (n + 1) = Suc k"
    by (simp only: unsigned_of_nat) (simp add: take_bit_nat_eq_self)
  then show "slots_below (Suc k) p'"
    using n assms(1) k by (auto simp: slots_below_def less_Suc_eq)
qed

lemma slot_release_below:
  "slots_below k p \<Longrightarrow> slot_release n p = Inr p' \<Longrightarrow> slots_below k p'"
  by (auto simp: slot_release_def slots_below_def dbg_assert_eq_Inr_iff split: if_splits)

lemma slot_run_counts:
  "slots_below k p \<Longrightarrow> slot_run ops p = Inr (ids, p') \<Longrightarrow> k + length ids \<le> 2 ^ 32 \<Longrightarrow>
   ids = map word_of_nat [k..<k + length ids]"
proof (induction ops p arbitrary: k ids p' rule: slot_run.induct)
  case (1 p)
  then show ?case by simp
next
  case (2 ptr ops p)
  then obtain n p1 ids' where a: "slot_allocate ptr p = Inr (n, p1)" "slot_run ops p1 = Inr (ids', p')"
    "ids = n # ids'"
    by (auto simp: res_bind_eq_Inr_iff)
  note nxt = slot_allocate_next[OF 2(2) a(1)]
  show ?case
  proof (cases "ids' = []")
    case True
    then show ?thesis using a(3) nxt(1) by simp
  next
    case False
    then have "Suc k < 2 ^ 32" using 2(4) a(3) by (cases ids') auto
    from 2(1)[OF nxt(2)[OF this] a(2)]
    have "ids' = map word_of_nat [Suc k..<Suc k + length ids']" using 2(4) a(3) by simp
    moreover have "[k..<k + length ids] = k # [Suc k..<Suc k + length ids']"
      using a(3) by (simp add: upt_conv_Cons del: upt_Suc)
    ultimately show ?thesis using a(3) nxt(1) by (simp del: upt_Suc)
  qed
next
  case (3 n ops p)
  then obtain p1 where "slot_release n p = Inr p1" "slot_run ops p1 = Inr (ids, p')"
    by (auto simp: res_bind_eq_Inr_iff)
  with 3 slot_release_below show ?case by blast
qed

lemma slotpool_ctor_eq: "slotpool_ctor = Inr \<lparr>next_slot = 1, slot_db = Map.empty\<rparr>"
proof -
  have "(1 :: 32 word) < - 1"
    by (simp add: word_less_nat_alt unsigned_minus_1_eq_mask mask_eq_exp_minus_1)
  then show ?thesis by (simp add: slotpool_ctor_def Let_def SLOT_NONE_def)
qed

lemma slots_below_fresh: "slots_below 1 \<lparr>next_slot = 1, slot_db = Map.empty\<rparr>"
  by (simp add: slots_below_def)

subsection \<open>Properties\<close>

text \<open>Allocation from a pool whose \<open>next_slot\<close> is not 0 (which holds after construction and
  is kept): when some slot from \<open>next_slot\<close> on is free, a slot that is free, not 0 and not
  before \<open>next_slot\<close> is bound to the pointer and nothing else changes.  When all of them are in
  use the scan wraps to 0 and stops there: slot 0, which is meant never to be allocated, is
  handed out, and a further allocation fails its assertion while slot 0 is in use.\<close>
lemma slot_allocate_spec:
  assumes "next_slot p \<noteq> 0"
  shows "if (\<forall>k. unat (next_slot p) \<le> k \<and> k < 2 ^ 32 \<longrightarrow> slot_db p (word_of_nat k) \<noteq> None)
         then slot_allocate ptr p =
                (if slot_db p 0 = None
                 then Inr (0, \<lparr>next_slot = 1, slot_db = (slot_db p)(0 \<mapsto> ptr)\<rparr>)
                 else Inl Assert_failed)
         else \<exists>n p'. slot_allocate ptr p = Inr (n, p') \<and> n \<noteq> 0 \<and> slot_db p n = None \<and>
                unat (next_slot p) \<le> unat n \<and> slot_db p' = (slot_db p)(n \<mapsto> ptr) \<and>
                next_slot p' \<noteq> 0"
  using slot_allocate_cases[OF assms] unfolding pool_exhausted_iff[OF assms] .

lemma all_above_max:
  "(\<forall>k. unat (- 1 :: 32 word) \<le> k \<and> k < 2 ^ 32 \<longrightarrow> P k) \<longleftrightarrow> P (2 ^ 32 - 1)"
proof -
  have "unat (- 1 :: 32 word) = 2 ^ 32 - 1"
    by (simp add: unsigned_minus_1_eq_mask mask_eq_exp_minus_1)
  moreover have "\<And>k :: nat. 2 ^ 32 - 1 \<le> k \<and> k < 2 ^ 32 \<longleftrightarrow> k = 2 ^ 32 - 1" by auto
  ultimately show ?thesis by metis
qed

text \<open>In a fresh pool, however allocations and releases are interleaved, the \<open>k\<close>-th slot
  allocated is \<open>k\<close>, for the first \<open>2 ^ 32 - 1\<close> allocations: no slot number is used twice.\<close>
lemma fresh_pool_never_reuses:
  assumes "res_bind slotpool_ctor (slot_run ops) = Inr (ids, p)" "length ids < 2 ^ 32"
  shows "ids = map word_of_nat [1..<Suc (length ids)]"
  using slot_run_counts[OF slots_below_fresh, of ops ids p] assms by (simp add: slotpool_ctor_eq)

text \<open>An object that took a slot from a pool with room exists until its destructor releases
  the slot, and neither operation changes whether the objects with other slots exist.\<close>
lemma object_slotid_lifetime:
  assumes "this \<noteq> 0" "next_slot p \<noteq> 0" "\<not> pool_exhausted p"
  shows "\<exists>slot p'. object_slotid_ctor this (Some p) = Inr (slot, Some p') \<and>
           \<not> slot_exist slot p \<and>
           object_slotid_tokeep slot (Some p') \<and>
           (\<forall>other. other \<noteq> slot \<longrightarrow>
              object_slotid_tokeep other (Some p') = object_slotid_tokeep other (Some p)) \<and>
           (\<exists>p''. object_slotid_dtor slot (Some p') = Inr (Some p'') \<and>
              \<not> object_slotid_tokeep slot (Some p'') \<and>
              (\<forall>other. other \<noteq> slot \<longrightarrow>
                 object_slotid_tokeep other (Some p'') = object_slotid_tokeep other (Some p)))"
proof -
  obtain n p' where "slot_allocate this p = Inr (n, p')" "slot_db p n = None"
    "slot_db p' = (slot_db p)(n \<mapsto> this)"
    using slot_allocate_cases[OF assms(2), of this] assms(3) by auto
  then show ?thesis
    using assms(1)
    by (simp add: object_slotid_ctor_def object_slotid_tokeep_def object_slotid_exist_def
        object_slotid_dtor_def slot_find_def slot_release_def slot_exist_def)
qed

end
