(* ===== verification/Bitfield.thy ===== *)
theory Bitfield
  imports SerialCodec Complex_Main
begin

text \<open>
  Bit fields and bit counters: \<open>neoip_base/tools/bitfield\<close> and \<open>neoip_base/tools/bitcount\<close>.  The
  BitTorrent code keeps the pieces a peer owns in a \<open>bitfield_t\<close> and counts how many peers own
  each piece in a \<open>bitcount_t\<close>.

  \<open>std::vector<bool>\<close> is a \<open>bool list\<close>, the counters are 64 bit words.  The loops of the code are
  kept as loops over the indices; the lemmas show what they compute.  \<open>size_t\<close> has 64 bits.
\<close>

type_synonym bitfield_t = "bool list"
type_synonym bitcount_t = "64 word list"

subsection \<open>Operations of \<open>bitfield_t\<close>\<close>

definition bitfield_ctor :: "nat \<Rightarrow> bitfield_t" where
  "bitfield_ctor nb_bit = replicate nb_bit False"

definition bf_is_null :: "bitfield_t \<Rightarrow> bool" where
  "bf_is_null b = (b = [])"

definition bf_get :: "nat \<Rightarrow> bitfield_t \<Rightarrow> bool res" where
  "bf_get idx b = dbg_assert (\<not> bf_is_null b) (dbg_assert (idx < length b) (Inr (b ! idx)))"

definition bf_set :: "nat \<Rightarrow> bool \<Rightarrow> bitfield_t \<Rightarrow> bitfield_t res" where
  "bf_set idx v b = dbg_assert (\<not> bf_is_null b) (dbg_assert (idx < length b) (Inr (b[idx := v])))"

definition bf_clear :: "nat \<Rightarrow> bitfield_t \<Rightarrow> bitfield_t res" where
  "bf_clear idx b = bf_set idx False b"

definition bf_assign :: "nat \<Rightarrow> bool \<Rightarrow> bitfield_t \<Rightarrow> bitfield_t" where
  "bf_assign nb_bit v b = replicate nb_bit v"

text \<open>Loops that return from the middle: the recursion goes over the remaining indices.\<close>

fun all_set_from :: "nat list \<Rightarrow> bitfield_t \<Rightarrow> bool" where
  "all_set_from [] b = True"
| "all_set_from (i # is) b = (if \<not> b ! i then False else all_set_from is b)"

fun any_set_from :: "nat list \<Rightarrow> bitfield_t \<Rightarrow> bool" where
  "any_set_from [] b = False"
| "any_set_from (i # is) b = (if b ! i then True else any_set_from is b)"

fun contain_from :: "nat list \<Rightarrow> bitfield_t \<Rightarrow> bitfield_t \<Rightarrow> bool" where
  "contain_from [] b other = True"
| "contain_from (i # is) b other =
     (if other ! i \<and> \<not> b ! i then False else contain_from is b other)"

definition bf_is_all_set :: "bitfield_t \<Rightarrow> bool res" where
  "bf_is_all_set b = dbg_assert (\<not> bf_is_null b) (Inr (all_set_from [0..<length b] b))"

definition bf_is_any_set :: "bitfield_t \<Rightarrow> bool res" where
  "bf_is_any_set b = dbg_assert (\<not> bf_is_null b) (Inr (any_set_from [0..<length b] b))"

definition bf_is_none_set :: "bitfield_t \<Rightarrow> bool res" where
  "bf_is_none_set b = res_bind (bf_is_any_set b) (\<lambda>r. Inr (\<not> r))"

definition bf_nb_set :: "bitfield_t \<Rightarrow> nat res" where
  "bf_nb_set b =
     dbg_assert (\<not> bf_is_null b)
       (Inr (for_range (length b) (\<lambda>i n. if b ! i then n + 1 else n) 0))"

definition bf_fully_contain :: "bitfield_t \<Rightarrow> bitfield_t \<Rightarrow> bool res" where
  "bf_fully_contain b other =
     dbg_assert (length b = length other) (Inr (contain_from [0..<length other] b other))"

function bf_next_set :: "nat \<Rightarrow> bitfield_t \<Rightarrow> nat" where
  "bf_next_set idx b = (if idx < length b \<and> \<not> b ! idx then bf_next_set (idx + 1) b else idx)"
  by auto
termination by (relation "measure (\<lambda>(idx, b). length b - idx)") auto

function bf_next_unset :: "nat \<Rightarrow> bitfield_t \<Rightarrow> nat" where
  "bf_next_unset idx b = (if idx < length b \<and> b ! idx then bf_next_unset (idx + 1) b else idx)"
  by auto
termination by (relation "measure (\<lambda>(idx, b). length b - idx)") auto

declare bf_next_set.simps [simp del] bf_next_unset.simps [simp del]

definition bf_to_datum_size :: "bitfield_t \<Rightarrow> nat" where
  "bf_to_datum_size b = ceil_div (length b) 8"

definition bit_mask80 :: "nat \<Rightarrow> byte" where
  "bit_mask80 i = drop_bit (i mod 8) 0x80"

definition bf_to_bytes :: "bitfield_t \<Rightarrow> bytes" where
  "bf_to_bytes b =
     for_range (length b)
       (\<lambda>i p. if b ! i then p[i div 8 := p ! (i div 8) OR bit_mask80 i] else p)
       (replicate (bf_to_datum_size b) 0)"

definition bf_to_datum :: "bitfield_t \<Rightarrow> datum_t res" where
  "bf_to_datum b = datum_ctor (bf_to_bytes b) FLAG_DFL"

definition bf_of_bytes :: "nat \<Rightarrow> bytes \<Rightarrow> bitfield_t" where
  "bf_of_bytes nb_bit p =
     for_range nb_bit
       (\<lambda>i b. if p ! (i div 8) AND bit_mask80 i \<noteq> 0 then b[i := True] else b)
       (bitfield_ctor nb_bit)"

definition bf_from_datum :: "datum_t \<Rightarrow> nat \<Rightarrow> bitfield_t" where
  "bf_from_datum d nb_bit =
     (if datum_length d \<noteq> bf_to_datum_size (bitfield_ctor nb_bit) then bitfield_ctor 0
      else bf_of_bytes nb_bit (datum_data d))"

definition bf_or :: "bitfield_t \<Rightarrow> bitfield_t \<Rightarrow> bitfield_t res" where
  "bf_or b other =
     dbg_assert (length b = length other)
       (Inr (for_range (length other) (\<lambda>i ys. if other ! i then ys[i := True] else ys) b))"

definition bf_and :: "bitfield_t \<Rightarrow> bitfield_t \<Rightarrow> bitfield_t res" where
  "bf_and b other =
     dbg_assert (length b = length other)
       (Inr (for_range (length other) (\<lambda>i ys. if \<not> other ! i then ys[i := False] else ys) b))"

definition bf_xor :: "bitfield_t \<Rightarrow> bitfield_t \<Rightarrow> bitfield_t res" where
  "bf_xor b other =
     dbg_assert (length b = length other)
       (Inr (for_range (length other) (\<lambda>i ys. if other ! i then ys[i := \<not> ys ! i] else ys) b))"

definition bf_not :: "bitfield_t \<Rightarrow> bitfield_t" where
  "bf_not b =
     for_range (length b) (\<lambda>i ys. ys[i := \<not> b ! i]) (bitfield_ctor (length b))"

definition bf_compare :: "bitfield_t \<Rightarrow> bitfield_t \<Rightarrow> int res" where
  "bf_compare b other = dbg_assert (length b = length other) (Inr (vec_cmp b other))"

definition bool_char :: "bool \<Rightarrow> char" where
  "bool_char v = (if v then CHR ''1'' else CHR ''0'')"

definition bf_to_canonical_string :: "bitfield_t \<Rightarrow> string" where
  "bf_to_canonical_string b = (if bf_is_null b then ''null'' else map bool_char b)"

definition bf_to_string :: "bitfield_t \<Rightarrow> string" where
  "bf_to_string b = (if bf_is_null b then ''null'' else ''['' @ map bool_char b @ '']'')"

text \<open>Serialization: the number of bits (a \<open>size_t\<close>, written as a 64 bit integer), then the
  bytes.  Building the vector for the announced number of bits comes first; \<open>vec_max\<close> is the
  largest number of bits the allocation grants.\<close>

definition put_bitfield :: "bitfield_t \<Rightarrow> bytes" where
  "put_bitfield b = put_uint64 (word_of_nat (length b)) @ bf_to_bytes b"

definition get_bitfield :: "nat \<Rightarrow> bitfield_t reader" where
  "get_bitfield vec_max bs =
     res_bind (get_uint64 bs)
       (\<lambda>(n, rest).
          let nb_bit = unat n; nb_byte = ceil_div nb_bit 8
          in if vec_max < nb_bit then Inl (Except ''std::length_error'')
             else if length rest < nb_byte then Inl (Except ''bitfield_t too short'')
             else Inr (bf_of_bytes nb_bit (take nb_byte rest), drop nb_byte rest))"

text \<open>The raw form used by the BitTorrent messages carries no size.\<close>

definition put_bitfield_raw :: "bitfield_t \<Rightarrow> bytes" where
  "put_bitfield_raw b = bf_to_bytes b"

definition get_bitfield_raw :: "nat \<Rightarrow> bitfield_t reader" where
  "get_bitfield_raw nb_bit bs =
     dbg_assert (nb_bit \<noteq> 2 ^ 64 - 1)
       (let nb_byte = ceil_div nb_bit 8
        in if length bs < nb_byte then Inl (Except ''bitfield_t too short'')
           else Inr (for_range nb_bit
                       (\<lambda>i b. b[i := (take nb_byte bs) ! (i div 8) AND bit_mask80 i \<noteq> 0])
                       (bitfield_ctor nb_bit),
                     drop nb_byte bs))"

subsection \<open>Operations of \<open>bitcount_t\<close>\<close>

definition bitcount_ctor :: "nat \<Rightarrow> bitcount_t" where
  "bitcount_ctor n = replicate n 0"

definition bc_get :: "nat \<Rightarrow> bitcount_t \<Rightarrow> 64 word res" where
  "bc_get idx c = dbg_assert (c \<noteq> []) (dbg_assert (idx < length c) (Inr (c ! idx)))"

text \<open>Indexing a vector out of range is undefined.\<close>

definition bc_inc1 :: "nat \<Rightarrow> bitcount_t \<Rightarrow> bitcount_t res" where
  "bc_inc1 idx c = (if length c \<le> idx then Inl Out_of_bounds else Inr (c[idx := c ! idx + 1]))"

definition bc_dec1 :: "nat \<Rightarrow> bitcount_t \<Rightarrow> bitcount_t res" where
  "bc_dec1 idx c =
     (if length c \<le> idx then Inl Out_of_bounds
      else dbg_assert (c ! idx > 0) (Inr (c[idx := c ! idx - 1])))"

definition bc_inc :: "bitfield_t \<Rightarrow> bitcount_t \<Rightarrow> bitcount_t res" where
  "bc_inc b c =
     dbg_assert (length c = length b)
       (Inr (for_range (length c) (\<lambda>i ys. if b ! i then ys[i := ys ! i + 1] else ys) c))"

definition bc_dec :: "bitfield_t \<Rightarrow> bitcount_t \<Rightarrow> bitcount_t res" where
  "bc_dec b c =
     dbg_assert (length c = length b)
       (for_range_res (length c)
          (\<lambda>i ys. if b ! i then dbg_assert (ys ! i > 0) (Inr (ys[i := ys ! i - 1])) else Inr ys) c)"

definition bc_add :: "bitcount_t \<Rightarrow> bitcount_t \<Rightarrow> bitcount_t res" where
  "bc_add other c =
     dbg_assert (length c = length other)
       (Inr (for_range (length c) (\<lambda>i ys. ys[i := ys ! i + other ! i]) c))"

definition bc_sub :: "bitcount_t \<Rightarrow> bitcount_t \<Rightarrow> bitcount_t res" where
  "bc_sub other c =
     dbg_assert (length c = length other)
       (for_range_res (length c)
          (\<lambda>i ys. dbg_assert (ys ! i \<ge> other ! i) (Inr (ys[i := ys ! i - other ! i]))) c)"

definition bc_compare :: "bitcount_t \<Rightarrow> bitcount_t \<Rightarrow> int res" where
  "bc_compare c other = dbg_assert (length c = length other) (Inr (vec_cmp c other))"

text \<open>\<open>coverage_factor\<close> returns a \<open>double\<close>; the model computes the exact rational.\<close>

definition bc_coverage_factor :: "bitcount_t \<Rightarrow> rat" where
  "bc_coverage_factor c =
     (let min_count = for_range (length c) (\<lambda>i m. min m (c ! i)) (- 1);
          nb_more = for_range (length c) (\<lambda>i n. if c ! i > min_count then n + 1 else n) (0 :: nat)
      in of_nat (unat min_count) + of_nat nb_more / of_nat (length c))"

definition bc_to_string :: "bitcount_t \<Rightarrow> string" where
  "bc_to_string c =
     (if c = [] then ''null''
      else ''['' @ for_range (length c)
                     (\<lambda>i s. s @ (if i \<noteq> 0 then '', '' else []) @ show_nat (unat (c ! i))) [] @ '']'')"

subsection \<open>What the loops compute\<close>

lemma all_set_from_iff: "all_set_from is b \<longleftrightarrow> (\<forall>i\<in>set is. b ! i)"
  by (induction "is" b rule: all_set_from.induct) auto

lemma any_set_from_iff: "any_set_from is b \<longleftrightarrow> (\<exists>i\<in>set is. b ! i)"
  by (induction "is" b rule: any_set_from.induct) auto

lemma contain_from_iff: "contain_from is b other \<longleftrightarrow> (\<forall>i\<in>set is. other ! i \<longrightarrow> b ! i)"
  by (induction "is" b other rule: contain_from.induct) auto

lemma for_range_count:
  "for_range n (\<lambda>i k. if P i then k + 1 else k) (0 :: nat) = card {i. i < n \<and> P i}"
proof (induction n)
  case 0
  then show ?case by simp
next
  case (Suc n)
  have "{i. i < Suc n \<and> P i} = (if P n then insert n {i. i < n \<and> P i} else {i. i < n \<and> P i})"
    by (auto simp: less_Suc_eq)
  then show ?case using Suc by simp
qed

lemma bf_next_set_spec:
  "idx \<le> bf_next_set idx b"
  "bf_next_set idx b < length b \<Longrightarrow> b ! bf_next_set idx b"
  "idx \<le> j \<Longrightarrow> j < bf_next_set idx b \<Longrightarrow> \<not> b ! j"
  "bf_next_set idx b \<le> max idx (length b)"
proof (induction idx b rule: bf_next_set.induct)
  case (1 idx b)
  {
    case 1
    then show ?case using "1.IH"(1) by (subst bf_next_set.simps) (auto simp: Suc_le_eq)
  next
    case 2
    then show ?case using "1.IH"(2) by (subst bf_next_set.simps, subst (asm) bf_next_set.simps) (auto split: if_splits)
  next
    case 3
    then show ?case using "1.IH"(3)
      by (cases "j = idx") (subst (asm) bf_next_set.simps, auto split: if_splits)+
  next
    case 4
    then show ?case using "1.IH"(4) by (subst bf_next_set.simps) (auto split: if_splits)
  }
qed

lemma bf_next_unset_eq: "bf_next_unset idx b = bf_next_set idx (map Not b)"
  by (induction idx b rule: bf_next_unset.induct)
    (subst bf_next_unset.simps, subst bf_next_set.simps, auto)

lemma bf_binop_eq:
  assumes "length b = length other"
  shows "bf_or b other = Inr (map2 (\<or>) b other)"
    and "bf_and b other = Inr (map2 (\<and>) b other)"
    and "bf_xor b other = Inr (map2 (\<noteq>) b other)"
  using assms
  by (auto simp: bf_or_def bf_and_def bf_xor_def
      for_range_update[of _ _ "\<lambda>i. other ! i" "\<lambda>_ _. True"]
      for_range_update[of _ _ "\<lambda>i. \<not> other ! i" "\<lambda>_ _. False"]
      for_range_update[of _ _ "\<lambda>i. other ! i" "\<lambda>_ v. \<not> v"]
      intro!: nth_equalityI)

lemma bf_or_absorb_iff:
  assumes "length b = length other"
  shows "map2 (\<or>) b other = b \<longleftrightarrow> (\<forall>i<length other. other ! i \<longrightarrow> b ! i)"
  using assms by (simp add: list_eq_iff_nth_eq) blast

lemma bf_not_eq: "bf_not b = map Not b"
  using for_range_update[of "length b" "bitfield_ctor (length b)" "\<lambda>_. True" "\<lambda>i _. \<not> b ! i"]
  by (auto simp: bf_not_def bitfield_ctor_def intro!: nth_equalityI)

subsection \<open>Bits and bytes\<close>

lemma bit_mask80_iff: "bit (bit_mask80 i) k \<longleftrightarrow> k = 7 - i mod 8"
proof -
  have e: "(0x80 :: byte) = push_bit 7 1" by (simp add: push_bit_eq_mult)
  have "i mod 8 < 8" by simp
  then show ?thesis
    unfolding bit_mask80_def e bit_drop_bit_eq bit_push_bit_word bit_1_iff by auto
qed

lemma and_bit_mask80: "p AND bit_mask80 i \<noteq> 0 \<longleftrightarrow> bit p (7 - i mod 8)"
proof -
  have "p AND bit_mask80 i = 0 \<longleftrightarrow> (\<forall>k. \<not> bit (p AND bit_mask80 i) k)"
    using bit_imp_le_length[of "p AND bit_mask80 i"] by (auto simp: bit_eq_iff)
  then show ?thesis by (simp add: bit_and_iff bit_mask80_iff)
qed

lemma bf_to_bytes_loop:
  assumes "n \<le> length b"
  defines "p \<equiv> for_range n (\<lambda>i p. if b ! i then p[i div 8 := p ! (i div 8) OR bit_mask80 i] else p)
                 (replicate (bf_to_datum_size b) 0)"
  shows "length p = bf_to_datum_size b \<and>
    (\<forall>i < 8 * bf_to_datum_size b. bit (p ! (i div 8)) (7 - i mod 8) = (i < n \<and> b ! i))"
  using assms(1) unfolding p_def
proof (induction n)
  case 0
  have "i div 8 < k" if "i < 8 * k" for i k :: nat using that by linarith
  then show ?case by simp
next
  case (Suc n)
  let ?f = "\<lambda>i p. if b ! i then p[i div 8 := p ! (i div 8) OR bit_mask80 i] else p"
  let ?p = "for_range n ?f (replicate (bf_to_datum_size b) 0)"
  from Suc have IH: "length ?p = bf_to_datum_size b"
    "\<forall>i < 8 * bf_to_datum_size b. bit (?p ! (i div 8)) (7 - i mod 8) = (i < n \<and> b ! i)"
    by simp_all
  have "n < 8 * bf_to_datum_size b"
    using Suc(2) ceil_div_bounds(1)[of 8 "length b"] by (simp add: bf_to_datum_size_def)
  then have n: "n div 8 < length ?p" using IH(1) by simp
  have "bit (?f n ?p ! (i div 8)) (7 - i mod 8) = (i < Suc n \<and> b ! i)"
    if "i < 8 * bf_to_datum_size b" for i
  proof (cases "i div 8 = n div 8")
    case True
    have "7 - i mod 8 = 7 - n mod 8 \<longleftrightarrow> i mod 8 = n mod 8"
      using pos_mod_bound[of 8 i] by (auto simp: less_Suc_eq_le)
    then have "7 - i mod 8 = 7 - n mod 8 \<longleftrightarrow> i = n" using True by (metis div_mod_decomp)
    then show ?thesis
      using IH(2)[rule_format, OF that] n True by (auto simp: bit_or_iff bit_mask80_iff less_Suc_eq)
  next
    case False
    then have "i \<noteq> n" by auto
    then show ?thesis
      using IH(2)[rule_format, OF that] n False by (auto simp: less_Suc_eq)
  qed
  then show ?case using IH(1) by simp
qed

lemma length_bf_to_bytes [simp]: "length (bf_to_bytes b) = bf_to_datum_size b"
  using bf_to_bytes_loop[of "length b" b] by (simp add: bf_to_bytes_def)

lemma bf_of_bytes_eq:
  "bf_of_bytes n p = map (\<lambda>i. bit (p ! (i div 8)) (7 - i mod 8)) [0..<n]"
  using for_range_update[of n "bitfield_ctor n" "\<lambda>i. p ! (i div 8) AND bit_mask80 i \<noteq> 0" "\<lambda>_ _. True"]
  by (auto simp: bf_of_bytes_def bitfield_ctor_def and_bit_mask80 intro!: nth_equalityI)

lemma raw_loop_eq:
  "for_range n (\<lambda>i b. b[i := p ! (i div 8) AND bit_mask80 i \<noteq> 0]) (bitfield_ctor n) = bf_of_bytes n p"
  using for_range_update[of n "bitfield_ctor n" "\<lambda>_. True" "\<lambda>i _. p ! (i div 8) AND bit_mask80 i \<noteq> 0"]
  by (auto simp: bf_of_bytes_eq bitfield_ctor_def and_bit_mask80 intro!: nth_equalityI)

lemma bf_of_bytes_to_bytes: "bf_of_bytes (length b) (bf_to_bytes b) = b"
proof (rule nth_equalityI)
  fix i assume i: "i < length (bf_of_bytes (length b) (bf_to_bytes b))"
  then have "i < 8 * bf_to_datum_size b"
    using ceil_div_bounds(1)[of 8 "length b"] by (simp add: bf_of_bytes_eq bf_to_datum_size_def)
  with i show "bf_of_bytes (length b) (bf_to_bytes b) ! i = b ! i"
    using bf_to_bytes_loop[of "length b" b] by (simp add: bf_of_bytes_eq bf_to_bytes_def)
qed (simp add: bf_of_bytes_eq)

lemma unat_of_nat_64: "n < 2 ^ 64 \<Longrightarrow> unat (word_of_nat n :: 64 word) = n"
  by (simp add: unsigned_of_nat take_bit_nat_eq_self)

interpretation bitfield_codec: serial_codec put_bitfield "get_bitfield vec_max"
  "\<lambda>b. length b \<le> vec_max \<and> length b < 2 ^ 64" for vec_max
proof unfold_locales
  fix b :: bitfield_t and rest
  assume b: "length b \<le> vec_max \<and> length b < 2 ^ 64"
  then have "length (bf_to_bytes b) = ceil_div (length b) 8" by (simp add: bf_to_datum_size_def)
  with b show "get_bitfield vec_max (put_bitfield b @ rest) = Inr (b, rest)"
    by (simp add: get_bitfield_def put_bitfield_def Let_def unat_of_nat_64 bf_of_bytes_to_bytes)
next
  fix bs v rest
  assume "get_bitfield vec_max bs = Inr (v, rest)"
  then obtain n r where "get_uint64 bs = Inr (n, r)" "rest = drop (ceil_div (unat n) 8) r"
    by (auto simp: get_bitfield_def Let_def res_bind_eq_Inr_iff split: if_splits)
  then show "\<exists>p. bs = p @ rest"
    by (metis uint64_codec.get_prefix append_take_drop_id append_assoc)
qed

lemma get_bitfield_raw_put:
  assumes "length b \<noteq> 2 ^ 64 - 1"
  shows "get_bitfield_raw (length b) (put_bitfield_raw b @ rest) = Inr (b, rest)"
proof -
  have "length (bf_to_bytes b) = ceil_div (length b) 8" by (simp add: bf_to_datum_size_def)
  with assms show ?thesis
    unfolding get_bitfield_raw_def put_bitfield_raw_def raw_loop_eq Let_def
    by (simp add: bf_of_bytes_to_bytes)
qed

subsection \<open>Counters\<close>

lemma bc_inc_eq:
  "length c = length b \<Longrightarrow>
   bc_inc b c = Inr (map (\<lambda>i. if b ! i then c ! i + 1 else c ! i) [0..<length c])"
  using for_range_update[of "length c" c "\<lambda>i. b ! i" "\<lambda>_ v. v + 1"]
  by (auto simp: bc_inc_def intro!: nth_equalityI)

lemma bc_dec_eq:
  "length c = length b \<Longrightarrow>
   bc_dec b c = dbg_assert (\<forall>i<length c. b ! i \<longrightarrow> c ! i > 0)
     (Inr (map (\<lambda>i. if b ! i then c ! i - 1 else c ! i) [0..<length c]))"
  using for_range_res_update[of "length c" c "\<lambda>i. b ! i" "\<lambda>_ v. v > 0" "\<lambda>_ v. v - 1"]
  by (auto simp: bc_dec_def dbg_assert_def intro!: nth_equalityI)

lemma bc_add_sub_eq:
  assumes "length c = length other"
  shows "bc_add other c = Inr (map (\<lambda>i. c ! i + other ! i) [0..<length c])"
    and "bc_sub other c = dbg_assert (\<forall>i<length c. other ! i \<le> c ! i)
           (Inr (map (\<lambda>i. c ! i - other ! i) [0..<length c]))"
  using for_range_update[of "length c" c "\<lambda>_. True" "\<lambda>i v. v + other ! i"]
    for_range_res_update[of "length c" c "\<lambda>_. True" "\<lambda>i v. v \<ge> other ! i" "\<lambda>i v. v - other ! i"]
    assms
  by (auto simp: bc_add_def bc_sub_def dbg_assert_def intro!: nth_equalityI)

definition count_peers :: "bitfield_t list \<Rightarrow> nat \<Rightarrow> bitcount_t res" where
  "count_peers peers n = for_each_res peers bc_inc (bitcount_ctor n)"

lemma count_peers_step:
  assumes "\<forall>b\<in>set peers. length b = n" "length c = n"
  shows "\<exists>c'. for_each_res peers bc_inc c = Inr c' \<and> length c' = n \<and>
           (\<forall>i<n. c' ! i = c ! i + word_of_nat (length (filter (\<lambda>b. b ! i) peers)))"
  using assms
proof (induction peers arbitrary: c)
  case Nil
  then show ?case by simp
next
  case (Cons b peers)
  let ?c = "map (\<lambda>i. if b ! i then c ! i + 1 else c ! i) [0..<length c]"
  have "length ?c = n" "bc_inc b c = Inr ?c" using Cons.prems by (simp_all add: bc_inc_eq)
  moreover from Cons.IH[OF _ this(1)] Cons.prems obtain c' where
    "for_each_res peers bc_inc ?c = Inr c'" "length c' = n"
    "\<forall>i<n. c' ! i = ?c ! i + word_of_nat (length (filter (\<lambda>b. b ! i) peers))" by auto
  ultimately show ?case using Cons.prems by (simp add: algebra_simps)
qed

lemma count_peers_eq:
  assumes "\<forall>b\<in>set peers. length b = n"
  shows "\<exists>c. count_peers peers n = Inr c \<and> length c = n \<and>
           (\<forall>i<n. c ! i = word_of_nat (length (filter (\<lambda>b. b ! i) peers)))"
  using count_peers_step[OF assms, of "bitcount_ctor n"]
  by (simp add: count_peers_def bitcount_ctor_def)

lemma min_loop_spec:
  "0 < n \<Longrightarrow> for_range n (\<lambda>i m. min m (c ! i)) (- 1 :: 64 word) = Min ((!) c ` {..<n})"
proof (induction n)
  case 0
  then show ?case by simp
next
  case (Suc n)
  show ?case
  proof (cases "n = 0")
    case True
    then show ?thesis using word_order.extremum[of "c ! 0"] by (simp add: lessThan_Suc min_absorb2)
  next
    case False
    then have "Min (insert (c ! n) ((!) c ` {..<n})) = min (c ! n) (Min ((!) c ` {..<n}))"
      by (intro Min_insert) auto
    with Suc False show ?thesis by (simp add: lessThan_Suc min.commute)
  qed
qed

lemma bc_coverage_ge_1_iff:
  assumes "c \<noteq> []"
  shows "bc_coverage_factor c \<ge> 1 \<longleftrightarrow> (\<forall>i<length c. c ! i \<noteq> 0)"
proof -
  let ?n = "length c"
  let ?A = "(!) c ` {..<?n}"
  let ?m = "Min ?A"
  have n: "0 < ?n" using assms by simp
  have fin: "finite ?A" "?A \<noteq> {}" using n by auto
  let ?more = "card {i. i < ?n \<and> ?m < c ! i}"
  have "?m \<in> ?A" using fin by (rule Min_in)
  then obtain k where k: "k < ?n" "c ! k = ?m" by auto
  have "{i. i < ?n \<and> ?m < c ! i} \<subseteq> {..<?n} - {k}" using k by auto
  then have "?more \<le> card ({..<?n} - {k})" by (intro card_mono) auto
  also have "\<dots> < ?n" using k(1) n by simp
  finally have frac: "(of_nat ?more :: rat) / of_nat ?n < 1" using n by simp
  have frac0: "0 \<le> (of_nat ?more :: rat) / of_nat ?n" by simp
  have cov: "bc_coverage_factor c = of_nat (unat ?m) + of_nat ?more / of_nat ?n"
    using min_loop_spec[OF n, of c] by (simp add: bc_coverage_factor_def Let_def for_range_count)
  have "?m \<noteq> 0 \<longleftrightarrow> (\<forall>i<?n. c ! i \<noteq> 0)"
  proof
    assume m: "?m \<noteq> 0"
    have "?m \<le> c ! i" if "i < ?n" for i using fin that by (intro Min_le) auto
    with m show "\<forall>i<?n. c ! i \<noteq> 0" by (metis word_le_0_iff)
  qed (use k in auto)
  moreover have "w \<noteq> 0 \<longleftrightarrow> 1 \<le> unat w" for w :: "64 word"
    using unat_eq_zero[of w] by linarith
  moreover have "bc_coverage_factor c \<ge> 1 \<longleftrightarrow> 1 \<le> unat ?m"
  proof
    assume "1 \<le> unat ?m"
    from of_nat_mono[OF this, where 'a = rat] have "(1 :: rat) \<le> of_nat (unat ?m)" by (simp only: of_nat_1)
    then show "bc_coverage_factor c \<ge> 1" using cov frac0 by linarith
  next
    assume "bc_coverage_factor c \<ge> 1"
    with cov frac have "(0 :: rat) < of_nat (unat ?m)" by linarith
    then have "0 < unat ?m" by (simp only: of_nat_0_less_iff)
    then show "1 \<le> unat ?m" by linarith
  qed
  ultimately show ?thesis by blast
qed

subsection \<open>Properties\<close>

text \<open>A bit field is recovered from its datum, from its wire form with the size in front,
  and from its raw form when the size is known (the raw reader refuses the size \<open>2 ^ 64 - 1\<close>,
  its marker for a writer).\<close>
lemma bitfield_roundtrip:
  assumes "length b \<le> vec_max" "length b < 2 ^ 64 - 1"
  shows "res_bind (bf_to_datum b) (\<lambda>d. Inr (bf_from_datum d (length b))) = Inr b \<and>
         get_bitfield vec_max (put_bitfield b @ rest) = Inr (b, rest) \<and>
         get_bitfield_raw (length b) (put_bitfield_raw b @ rest) = Inr (b, rest)"
proof (intro conjI)
  show "res_bind (bf_to_datum b) (\<lambda>d. Inr (bf_from_datum d (length b))) = Inr b"
    by (simp add: bf_to_datum_def datum_ctor_def FLAG_DFL_def is_nocopy_def flag_fully_include_def
        NOCOPY_def bf_from_datum_def datum_length_def bitfield_ctor_def bf_of_bytes_to_bytes
        bf_to_datum_size_def)
  show "get_bitfield vec_max (put_bitfield b @ rest) = Inr (b, rest)"
    using assms by (intro bitfield_codec.get_put) simp
  show "get_bitfield_raw (length b) (put_bitfield_raw b @ rest) = Inr (b, rest)"
    using assms by (intro get_bitfield_raw_put) simp
qed

text \<open>On fields of the same size the loops of \<open>|=\<close>, \<open>&=\<close>, \<open>^=\<close> and \<open>~\<close> compute the bitwise
  operations, and \<open>fully_contain\<close> holds exactly when or-ing the other field in changes nothing.\<close>
lemma bitfield_boolean_operations:
  assumes "length b = length other"
  shows "bf_or b other = Inr (map2 (\<or>) b other) \<and>
         bf_and b other = Inr (map2 (\<and>) b other) \<and>
         bf_xor b other = Inr (map2 (\<noteq>) b other) \<and>
         bf_not b = map Not b \<and>
         (bf_fully_contain b other = Inr True \<longleftrightarrow> bf_or b other = Inr b)"
  using assms
  by (simp add: bf_binop_eq bf_not_eq bf_fully_contain_def contain_from_iff bf_or_absorb_iff
      atLeast_upt[symmetric] Ball_def)

text \<open>\<open>next_set\<close> returns the first set index from \<open>idx\<close> on, or an index past the end (the
  size when the search started inside the field); \<open>next_unset\<close> does the same for the complement.\<close>
lemma bitfield_next_set_is_first:
  "idx \<le> bf_next_set idx b \<and>
   (bf_next_set idx b = max idx (length b) \<or> bf_next_set idx b < length b \<and> b ! bf_next_set idx b) \<and>
   {j. idx \<le> j \<and> j < bf_next_set idx b \<and> b ! j} = {} \<and>
   bf_next_unset idx b = bf_next_set idx (bf_not b)"
proof (intro conjI)
  show "bf_next_set idx b = max idx (length b) \<or> bf_next_set idx b < length b \<and> b ! bf_next_set idx b"
    using bf_next_set_spec(1,2,4)[of idx b] by (auto simp: max_def split: if_splits)
  show "{j. idx \<le> j \<and> j < bf_next_set idx b \<and> b ! j} = {}" using bf_next_set_spec(3) by blast
qed (simp_all add: bf_next_set_spec(1) bf_next_unset_eq bf_not_eq)

text \<open>After the fields of all the peers were counted, counter \<open>i\<close> is the number of peers
  that have bit \<open>i\<close> (below \<open>2 ^ 64\<close> peers), and removing a counted peer with \<open>dec\<close> succeeds
  and gives the counters without it.\<close>
lemma bitcount_counts_peers:
  assumes "\<forall>b\<in>set (peer # peers). length b = n" "length (peer # peers) < 2 ^ 64"
  shows "\<exists>c. count_peers (peer # peers) n = Inr c \<and>
           (\<forall>i<n. unat (c ! i) = length (filter (\<lambda>b. b ! i) (peer # peers))) \<and>
           bc_dec peer c = count_peers peers n"
proof -
  obtain c where c: "count_peers (peer # peers) n = Inr c" "length c = n"
    "\<forall>i<n. c ! i = word_of_nat (length (filter (\<lambda>b. b ! i) (peer # peers)))"
    using count_peers_eq[OF assms(1)] by blast
  obtain d where d: "count_peers peers n = Inr d" "length d = n"
    "\<forall>i<n. d ! i = word_of_nat (length (filter (\<lambda>b. b ! i) peers))"
    using count_peers_eq[of peers n] assms(1) by auto
  have lt: "length (filter (\<lambda>b. b ! i) (peer # peers)) < 2 ^ 64" for i
    using assms(2) length_filter_le le_less_trans by blast
  then have unat: "\<forall>i<n. unat (c ! i) = length (filter (\<lambda>b. b ! i) (peer # peers))"
    using c(3) unat_of_nat_64 by metis
  have pos: "\<forall>i<n. peer ! i \<longrightarrow> c ! i > 0"
    using unat by (auto simp: word_gt_0 simp flip: unat_eq_zero)
  have "map (\<lambda>i. if peer ! i then c ! i - 1 else c ! i) [0..<n] = d"
    using c d by (auto intro!: nth_equalityI)
  then have "bc_dec peer c = Inr d"
    using c(2) pos assms(1) by (simp add: bc_dec_eq)
  then show ?thesis using c(1) unat d(1) by auto
qed

text \<open>The coverage factor is at least 1 exactly when every bit was counted at least once.\<close>
lemma bitcount_coverage_full:
  assumes "c \<noteq> []"
  shows "bc_coverage_factor c \<ge> 1 \<longleftrightarrow> (\<forall>i<length c. c ! i \<noteq> 0)"
  using assms by (rule bc_coverage_ge_1_iff)

end
