(* ===== verification/Interval.thy ===== *)
theory Interval
  imports SerialCodec
begin

text \<open>
  Sets of integers as sorted lists of disjoint ranges: \<open>neoip_base/tools/interval\<close>.  The file
  and BitTorrent code keeps which bytes of a file are present in an \<open>interval_t<file_size_t>\<close>;
  the same template serves for addresses.  The model is the instance at \<open>uint64_t\<close>: values are
  64 bit words, so that \<open>max_val + 1\<close> wraps.
\<close>

record interval_item_t =
  min_val :: "64 word"
  max_val :: "64 word"

type_synonym interval_t = "interval_item_t list"

subsection \<open>Operations of \<open>interval_item_t\<close>\<close>

definition item_ctor :: "64 word \<Rightarrow> 64 word \<Rightarrow> interval_item_t res" where
  "item_ctor mn mx = dbg_assert (mn \<le> mx) (Inr \<lparr>min_val = mn, max_val = mx\<rparr>)"

definition item_ctor1 :: "64 word \<Rightarrow> interval_item_t" where
  "item_ctor1 v = \<lparr>min_val = v, max_val = v\<rparr>"

definition item_set_min :: "64 word \<Rightarrow> interval_item_t \<Rightarrow> interval_item_t res" where
  "item_set_min v i = (let i' = i\<lparr>min_val := v\<rparr> in dbg_assert (min_val i' \<le> max_val i') (Inr i'))"

definition item_set_max :: "64 word \<Rightarrow> interval_item_t \<Rightarrow> interval_item_t res" where
  "item_set_max v i = (let i' = i\<lparr>max_val := v\<rparr> in dbg_assert (min_val i' \<le> max_val i') (Inr i'))"

definition item_length :: "interval_item_t \<Rightarrow> 64 word" where
  "item_length i = max_val i - min_val i + 1"

definition item_eq :: "interval_item_t \<Rightarrow> interval_item_t \<Rightarrow> bool" where
  "item_eq i j = (if min_val i \<noteq> min_val j then False else if max_val i \<noteq> max_val j then False else True)"

definition item_is_distinct :: "interval_item_t \<Rightarrow> interval_item_t \<Rightarrow> bool" where
  "item_is_distinct i j =
     (if max_val i < min_val j then True else if min_val i > max_val j then True else False)"

definition item_fully_include :: "interval_item_t \<Rightarrow> interval_item_t \<Rightarrow> bool" where
  "item_fully_include i j = (if max_val j \<le> max_val i \<and> min_val j \<ge> min_val i then True else False)"

definition item_is_contiguous :: "interval_item_t \<Rightarrow> interval_item_t \<Rightarrow> bool" where
  "item_is_contiguous i j =
     (if max_val i + 1 = min_val j then True else if min_val i = max_val j + 1 then True else False)"

definition item_unify :: "interval_item_t \<Rightarrow> interval_item_t \<Rightarrow> interval_item_t res" where
  "item_unify i j =
     dbg_assert (\<not> item_is_distinct i j \<or> item_is_contiguous i j)
       (Inr \<lparr>min_val = (if min_val i > min_val j then min_val j else min_val i),
             max_val = (if max_val i < max_val j then max_val j else max_val i)\<rparr>)"

definition put_item :: "interval_item_t \<Rightarrow> bytes" where
  "put_item i = put_uint64 (min_val i) @ put_uint64 (max_val i)"

definition get_item :: "interval_item_t reader" where
  "get_item bs =
     res_bind (get_uint64 bs) (\<lambda>(mn, r1). res_bind (get_uint64 r1)
       (\<lambda>(mx, r2). res_bind (item_ctor mn mx) (\<lambda>i. Inr (i, r2))))"

subsection \<open>Operations of \<open>interval_t\<close>\<close>

fun interval_is_sane :: "interval_t \<Rightarrow> bool" where
  "interval_is_sane [] = True"
| "interval_is_sane [cur] = (if min_val cur > max_val cur then False else True)"
| "interval_is_sane (prev # cur # is) =
     (if min_val prev > max_val prev then False
      else if max_val prev \<ge> min_val cur then False
      else if max_val prev + 1 \<ge> min_val cur then False
      else interval_is_sane (cur # is))"

fun interval_total_length :: "interval_t \<Rightarrow> 64 word" where
  "interval_total_length [] = 0"
| "interval_total_length (i # is) = item_length i + interval_total_length is"

fun interval_cmp_items :: "interval_t \<Rightarrow> interval_t \<Rightarrow> int res" where
  "interval_cmp_items (i # is) (j # js) =
     (if item_eq i j then interval_cmp_items is js
      else if min_val i < min_val j then Inr (-1)
      else if min_val i > min_val j then Inr 1
      else if max_val i < max_val j then Inr (-1)
      else if max_val i > max_val j then Inr 1
      else Inl Assert_failed)"
| "interval_cmp_items _ _ = Inr 0"

definition interval_compare :: "interval_t \<Rightarrow> interval_t \<Rightarrow> int res" where
  "interval_compare a b =
     dbg_assert (interval_is_sane a \<and> interval_is_sane b)
       (if length a < length b then Inr (-1)
        else if length a > length b then Inr 1
        else interval_cmp_items a b)"

fun interval_is_distinct_item :: "interval_t \<Rightarrow> interval_item_t \<Rightarrow> bool" where
  "interval_is_distinct_item [] item = True"
| "interval_is_distinct_item (i # is) item =
     (if min_val i > max_val item then True
      else if \<not> item_is_distinct i item then False
      else interval_is_distinct_item is item)"

fun interval_is_distinct :: "interval_t \<Rightarrow> interval_t \<Rightarrow> bool" where
  "interval_is_distinct db [] = True"
| "interval_is_distinct db (i # is) =
     (if \<not> interval_is_distinct_item db i then False else interval_is_distinct db is)"

fun interval_fully_include_item :: "interval_t \<Rightarrow> interval_item_t \<Rightarrow> bool" where
  "interval_fully_include_item [] item = False"
| "interval_fully_include_item (i # is) item =
     (if min_val i > max_val item then False
      else if item_fully_include i item then True
      else interval_fully_include_item is item)"

fun interval_fully_include :: "interval_t \<Rightarrow> interval_t \<Rightarrow> bool" where
  "interval_fully_include db [] = True"
| "interval_fully_include db (i # is) =
     (if \<not> interval_fully_include_item db i then False else interval_fully_include db is)"

definition interval_contain :: "interval_t \<Rightarrow> 64 word \<Rightarrow> bool" where
  "interval_contain db x = interval_fully_include_item db (item_ctor1 x)"

fun get_item_containing :: "interval_t \<Rightarrow> 64 word \<Rightarrow> interval_item_t option" where
  "get_item_containing [] x = None"
| "get_item_containing (i # is) x =
     (if x < min_val i then None
      else if x > max_val i then get_item_containing is x
      else Some i)"

text \<open>\<open>operator +=\<close> with an item, in the three passes of the code: skip what lies before the
  item, absorb what touches it, insert the result.\<close>

fun add_skip :: "interval_item_t \<Rightarrow> interval_t \<Rightarrow> interval_t \<times> interval_t" where
  "add_skip base [] = ([], [])"
| "add_skip base (i # is) =
     (if min_val base > max_val i \<and> \<not> item_is_contiguous base i
      then (let (p, r) = add_skip base is in (i # p, r))
      else ([], i # is))"

fun add_absorb :: "interval_item_t \<Rightarrow> interval_t \<Rightarrow> (interval_item_t \<times> interval_t) res" where
  "add_absorb base [] = Inr (base, [])"
| "add_absorb base (i # is) =
     (if max_val base \<ge> min_val i \<or> item_is_contiguous base i
      then res_bind (item_unify base i) (\<lambda>b. add_absorb b is)
      else Inr (base, i # is))"

definition interval_add_item :: "interval_item_t \<Rightarrow> interval_t \<Rightarrow> interval_t res" where
  "interval_add_item item db =
     (let (p, r) = add_skip item db
      in res_bind (add_absorb item r)
           (\<lambda>(base, r'). let db' = p @ base # r' in dbg_assert (interval_is_sane db') (Inr db')))"

text \<open>\<open>operator -=\<close> with an item: skip, then cut the item out of every range it meets.\<close>

fun sub_skip :: "interval_item_t \<Rightarrow> interval_t \<Rightarrow> interval_t \<times> interval_t" where
  "sub_skip base [] = ([], [])"
| "sub_skip base (i # is) =
     (if min_val base > max_val i then (let (p, r) = sub_skip base is in (i # p, r))
      else ([], i # is))"

fun sub_cut :: "interval_item_t \<Rightarrow> interval_t \<Rightarrow> interval_t res" where
  "sub_cut base [] = Inr []"
| "sub_cut base (temp # is) =
     (if max_val base \<ge> min_val temp
      then dbg_assert (\<not> item_is_distinct temp base)
        (res_bind (if min_val temp < min_val base
                   then res_bind (item_ctor (min_val temp) (min_val base - 1)) (\<lambda>i. Inr [i])
                   else Inr [])
          (\<lambda>lo. res_bind (if max_val base < max_val temp
                   then res_bind (item_ctor (max_val base + 1) (max_val temp)) (\<lambda>i. Inr [i])
                   else Inr [])
            (\<lambda>hi. res_bind (sub_cut base is) (\<lambda>rest. Inr (lo @ hi @ rest)))))
      else Inr (temp # is))"

definition interval_sub_item :: "interval_item_t \<Rightarrow> interval_t \<Rightarrow> interval_t res" where
  "interval_sub_item item db =
     (let (p, r) = sub_skip item db
      in res_bind (sub_cut item r)
           (\<lambda>r'. let db' = p @ r' in dbg_assert (interval_is_sane db') (Inr db')))"

definition interval_add :: "interval_t \<Rightarrow> interval_t \<Rightarrow> interval_t res" where
  "interval_add other db =
     res_bind (for_each_res other interval_add_item db)
       (\<lambda>db'. dbg_assert (interval_is_sane db') (Inr db'))"

definition interval_sub :: "interval_t \<Rightarrow> interval_t \<Rightarrow> interval_t res" where
  "interval_sub other db =
     res_bind (for_each_res other interval_sub_item db)
       (\<lambda>db'. dbg_assert (interval_is_sane db') (Inr db'))"

definition item_to_string :: "interval_item_t \<Rightarrow> string" where
  "item_to_string i =
     ''['' @ show_nat (unat (min_val i)) @ '', '' @ show_nat (unat (max_val i)) @ '']''"

definition interval_to_string :: "interval_t \<Rightarrow> string" where
  "interval_to_string db = ''['' @ concat (map item_to_string db) @ '']''"

definition interval_bytes :: "interval_t \<Rightarrow> bytes" where
  "interval_bytes db = put_uint32 (word_of_nat (length db)) @ concat (map put_item db)"

definition put_interval :: "interval_t \<Rightarrow> bytes res" where
  "put_interval db = dbg_assert (interval_is_sane db) (Inr (interval_bytes db))"

fun get_items_into :: "nat \<Rightarrow> interval_t \<Rightarrow> interval_t reader" where
  "get_items_into 0 db bs = Inr (db, bs)"
| "get_items_into (Suc n) db bs =
     res_bind (get_item bs)
       (\<lambda>(i, rest). res_bind (interval_add_item i db) (\<lambda>db'. get_items_into n db' rest))"

definition get_interval :: "interval_t reader" where
  "get_interval bs = res_bind (get_uint32 bs) (\<lambda>(n, rest). get_items_into (unat n) [] rest)"

subsection \<open>Ranges as sets\<close>

definition item_elems :: "interval_item_t \<Rightarrow> 64 word set" where
  "item_elems i = {min_val i..max_val i}"

definition interval_elems :: "interval_t \<Rightarrow> 64 word set" where
  "interval_elems db = (\<Union>i\<in>set db. item_elems i)"

abbreviation item_ok :: "interval_item_t \<Rightarrow> bool" where
  "item_ok i \<equiv> min_val i \<le> max_val i"

text \<open>\<open>gap i j\<close>: \<open>j\<close> lies after \<open>i\<close> with at least one value between them.\<close>

definition gap :: "interval_item_t \<Rightarrow> interval_item_t \<Rightarrow> bool" where
  "gap i j = (item_ok i \<and> item_ok j \<and> unat (max_val i) + 1 < unat (min_val j))"

lemma unat_suc: "(w :: 64 word) \<noteq> - 1 \<Longrightarrow> unat (w + 1) = unat w + 1"
  by (metis Suc_eq_plus1 add.commute add_eq_0_iff unatSuc add_cancel_right_left)

lemma unat_pred: "(w :: 64 word) \<noteq> 0 \<Longrightarrow> unat (w - 1) = unat w - 1"
  by (simp add: unat_minus_one)

lemma less_imp_not_max: "(a :: 64 word) < b \<Longrightarrow> a \<noteq> - 1"
  by (metis word_order.extremum_strict)

lemmas word_unat = word_less_nat_alt word_le_nat_alt

lemma gap_transp: "gap i j \<Longrightarrow> gap j k \<Longrightarrow> gap i k"
  by (auto simp: gap_def word_unat)

lemma interval_is_sane_iff:
  "interval_is_sane db \<longleftrightarrow> (\<forall>i\<in>set db. item_ok i) \<and> sorted_wrt gap db"
proof (induction db rule: induct_list012)
  case (3 prev cur "is")
  have adj: "max_val prev < min_val cur \<and> max_val prev + 1 < min_val cur \<longleftrightarrow>
      unat (max_val prev) + 1 < unat (min_val cur)"
  proof (cases "max_val prev < min_val cur")
    case True
    then show ?thesis using unat_suc[OF less_imp_not_max[OF True]] by (auto simp: word_unat)
  next
    case False
    then show ?thesis by (auto simp: word_unat)
  qed
  have s1: "sorted_wrt gap (prev # cur # is) \<longleftrightarrow> gap prev cur \<and> sorted_wrt gap (cur # is)"
    using gap_transp by auto
  have s2: "interval_is_sane (prev # cur # is) \<longleftrightarrow>
      item_ok prev \<and> (max_val prev < min_val cur \<and> max_val prev + 1 < min_val cur) \<and>
      interval_is_sane (cur # is)"
    by (simp add: not_less not_le)
  show ?case
    unfolding s2 adj 3(2) s1 gap_def[of prev cur] by auto
next
  case (2 x)
  then show ?case by (simp add: word_unat not_less)
qed simp

lemma gap_less: "gap i j \<Longrightarrow> x \<in> item_elems i \<Longrightarrow> y \<in> item_elems j \<Longrightarrow> x < y"
  by (auto simp: gap_def item_elems_def word_unat)

lemma interval_elems_simps [simp]:
  "interval_elems [] = {}"
  "interval_elems (i # is) = item_elems i \<union> interval_elems is"
  "interval_elems (is @ js) = interval_elems is \<union> interval_elems js"
  by (auto simp: interval_elems_def)

subsection \<open>Adding an item\<close>

text \<open>Away from the largest value, contiguity is what it says.\<close>

lemma contiguous_iff:
  assumes "max_val i \<noteq> - 1" "max_val j \<noteq> - 1"
  shows "item_is_contiguous i j \<longleftrightarrow>
    unat (max_val i) + 1 = unat (min_val j) \<or> unat (min_val i) = unat (max_val j) + 1"
proof -
  have "max_val i + 1 = min_val j \<longleftrightarrow> unat (max_val i) + 1 = unat (min_val j)"
    using unat_suc[OF assms(1)] by (metis unsigned_word_eqI)
  moreover have "min_val i = max_val j + 1 \<longleftrightarrow> unat (min_val i) = unat (max_val j) + 1"
    using unat_suc[OF assms(2)] by (metis unsigned_word_eqI)
  ultimately show ?thesis by (auto simp: item_is_contiguous_def)
qed

lemma distinct_iff: "item_is_distinct i j \<longleftrightarrow> max_val i < min_val j \<or> max_val j < min_val i"
  by (auto simp: item_is_distinct_def)

lemma item_elems_unat:
  "x \<in> item_elems i \<longleftrightarrow> unat (min_val i) \<le> unat x \<and> unat x \<le> unat (max_val i)"
  by (auto simp: item_elems_def word_le_nat_alt)

lemma unify_elems:
  assumes "item_ok i" "item_ok j"
    "unat (min_val i) \<le> unat (max_val j) + 1" "unat (min_val j) \<le> unat (max_val i) + 1"
  shows "item_elems \<lparr>min_val = (if min_val i > min_val j then min_val j else min_val i),
             max_val = (if max_val i < max_val j then max_val j else max_val i)\<rparr> =
         item_elems i \<union> item_elems j"
  using assms by (auto simp: set_eq_iff item_elems_unat word_unat)

lemma add_skip_split:
  "add_skip base db = (p, r) \<Longrightarrow>
     db = p @ r \<and> (\<forall>i\<in>set p. min_val base > max_val i \<and> \<not> item_is_contiguous base i) \<and>
     (r = [] \<or> \<not> (min_val base > max_val (hd r) \<and> \<not> item_is_contiguous base (hd r)))"
proof (induction base db arbitrary: p r rule: add_skip.induct)
  case (2 base i "is")
  then show ?case
    by (cases "min_val base > max_val i \<and> \<not> item_is_contiguous base i")
      (auto split: prod.splits)
qed simp

text \<open>The absorbing pass: \<open>base\<close> reaches at least to the first range that remains to be
  looked at.\<close>

lemma add_absorb_ok:
  assumes "item_ok base" "max_val base \<noteq> - 1"
    "\<forall>i\<in>set r. item_ok i \<and> max_val i \<noteq> - 1" "sorted_wrt gap r"
    "r = [] \<or> unat (min_val base) \<le> unat (max_val (hd r)) + 1"
  shows "\<exists>b r'. add_absorb base r = Inr (b, r') \<and> item_ok b \<and>
    (\<exists>q. r = q @ r') \<and> (r' = [] \<or> gap b (hd r')) \<and>
    item_elems b \<union> interval_elems r' = item_elems base \<union> interval_elems r \<and>
    (\<forall>l. l < unat (min_val base) \<and> (\<forall>i\<in>set r. l < unat (min_val i)) \<longrightarrow> l < unat (min_val b))"
  using assms
proof (induction r arbitrary: base)
  case Nil
  then show ?case by simp
next
  case (Cons i r)
  have i: "item_ok i" "max_val i \<noteq> - 1" using Cons.prems by auto
  note cont = contiguous_iff[OF Cons.prems(2) i(2)]
  show ?case
  proof (cases "max_val base \<ge> min_val i \<or> item_is_contiguous base i")
    case True
    let ?b = "\<lparr>min_val = (if min_val base > min_val i then min_val i else min_val base),
             max_val = (if max_val base < max_val i then max_val i else max_val base)\<rparr>"
    have near: "unat (min_val i) \<le> unat (max_val base) + 1"
      using True Cons.prems(1) i(1) unfolding cont by (auto simp: word_le_nat_alt)
    have far: "unat (min_val base) \<le> unat (max_val i) + 1" using Cons.prems(5) by simp
    have "\<not> item_is_distinct base i \<or> item_is_contiguous base i"
      unfolding cont distinct_iff using near far by (auto simp: word_less_nat_alt)
    then have u: "item_unify base i = Inr ?b" by (simp add: item_unify_def)
    have b: "item_ok ?b" "max_val ?b \<noteq> - 1" using Cons.prems(1,2) i by auto
    have "r = [] \<or> unat (min_val ?b) \<le> unat (max_val (hd r)) + 1"
      using Cons.prems(1,4) i(1) by (cases r) (auto simp: gap_def word_unat)
    with Cons.IH[OF b] Cons.prems(3,4) obtain c r' where
      c: "add_absorb ?b r = Inr (c, r')" "item_ok c" "\<exists>q. r = q @ r'" "r' = [] \<or> gap c (hd r')"
        "item_elems c \<union> interval_elems r' = item_elems ?b \<union> interval_elems r"
        "\<forall>l. l < unat (min_val ?b) \<and> (\<forall>i\<in>set r. l < unat (min_val i)) \<longrightarrow> l < unat (min_val c)"
      by auto
    have "item_elems ?b = item_elems base \<union> item_elems i"
      by (rule unify_elems[OF Cons.prems(1) i(1) far near])
    then have "item_elems c \<union> interval_elems r' = item_elems base \<union> interval_elems (i # r)"
      using c(5) by auto
    moreover have "\<exists>q. i # r = q @ r'" using c(3) by (metis append_Cons)
    moreover have "add_absorb base (i # r) = Inr (c, r')" using True u c(1) by simp
    moreover have "\<forall>l. l < unat (min_val base) \<and> (\<forall>j\<in>set (i # r). l < unat (min_val j)) \<longrightarrow>
        l < unat (min_val c)"
      using c(6) by simp
    ultimately show ?thesis using c(2,4) by blast
  next
    case False
    then have "gap base i"
      using Cons.prems(1,5) i(1) unfolding cont gap_def by (auto simp: word_unat)
    then show ?thesis using False Cons.prems(1) by auto
  qed
qed

lemma interval_add_item_ok:
  assumes "interval_is_sane db" "item_ok item" "max_val item \<noteq> - 1" "- 1 \<notin> interval_elems db"
  shows "\<exists>db'. interval_add_item item db = Inr db' \<and> interval_is_sane db' \<and>
           interval_elems db' = item_elems item \<union> interval_elems db"
proof -
  obtain p r where pr: "add_skip item db = (p, r)" by fastforce
  note split = add_skip_split[OF pr]
  have ok: "\<forall>i\<in>set db. item_ok i \<and> max_val i \<noteq> - 1" "sorted_wrt gap db"
    using assms(1,4) by (auto simp: interval_is_sane_iff interval_elems_def item_elems_def)
  have r: "\<forall>i\<in>set r. item_ok i \<and> max_val i \<noteq> - 1" "sorted_wrt gap r" "sorted_wrt gap p"
    "\<forall>i\<in>set p. \<forall>j\<in>set r. gap i j" "\<forall>i\<in>set p. item_ok i \<and> max_val i \<noteq> - 1"
    using ok split by (auto simp: sorted_wrt_append)
  have before: "unat (max_val i) + 1 < unat (min_val item)" if "i \<in> set p" for i
    using split that r(5) contiguous_iff[OF assms(3), of i] by (fastforce simp: word_unat)
  have "r = [] \<or> unat (min_val item) \<le> unat (max_val (hd r)) + 1"
    using split r(1) contiguous_iff[OF assms(3), of "hd r"] assms(2)
    by (cases r) (auto simp: word_unat)
  from add_absorb_ok[OF assms(2,3) r(1,2) this] obtain b r' q where
    b: "add_absorb item r = Inr (b, r')" "item_ok b" "r = q @ r'" "r' = [] \<or> gap b (hd r')"
      "item_elems b \<union> interval_elems r' = item_elems item \<union> interval_elems r"
      "\<forall>l. l < unat (min_val item) \<and> (\<forall>i\<in>set r. l < unat (min_val i)) \<longrightarrow> l < unat (min_val b)"
    by blast
  have "gap i b" if "i \<in> set p" for i
  proof -
    have "unat (max_val i) + 1 < unat (min_val b)"
      using b(6)[rule_format, of "unat (max_val i) + 1"] before[OF that] r(4) that
      by (auto simp: gap_def)
    then show ?thesis using b(2) r(5) that by (simp add: gap_def)
  qed
  moreover have "gap b j" if "j \<in> set r'" for j
    using b(3,4) r(2) that gap_transp by (cases r') (auto simp: sorted_wrt_append)
  ultimately have "interval_is_sane (p @ b # r')"
    using r b(2,3) by (auto simp: interval_is_sane_iff sorted_wrt_append)
  then show ?thesis
    using pr b(1,5) split by (auto simp: interval_add_item_def)
qed

subsection \<open>Removing an item\<close>

lemma sub_skip_split:
  "sub_skip base db = (p, r) \<Longrightarrow>
     db = p @ r \<and> (\<forall>i\<in>set p. min_val base > max_val i) \<and>
     (r = [] \<or> min_val base \<le> max_val (hd r))"
proof (induction base db arbitrary: p r rule: sub_skip.induct)
  case (2 base i "is")
  then show ?case
    by (cases "min_val base > max_val i") (auto split: prod.splits simp: not_less)
qed simp

definition cut_low :: "interval_item_t \<Rightarrow> interval_item_t \<Rightarrow> interval_t" where
  "cut_low base t = (if min_val t < min_val base then [\<lparr>min_val = min_val t, max_val = min_val base - 1\<rparr>] else [])"

definition cut_high :: "interval_item_t \<Rightarrow> interval_item_t \<Rightarrow> interval_t" where
  "cut_high base t = (if max_val base < max_val t then [\<lparr>min_val = max_val base + 1, max_val = max_val t\<rparr>] else [])"

lemma unat_pred_less: "(a :: 64 word) < b \<Longrightarrow> unat (b - 1) = unat b - 1 \<and> 0 < unat b"
proof -
  assume "a < b"
  then have "b \<noteq> 0" by auto
  then show ?thesis using unat_pred[of b] by (simp add: unat_gt_0)
qed

lemma unat_suc_less: "(a :: 64 word) < b \<Longrightarrow> unat (a + 1) = unat a + 1"
  using unat_suc less_imp_not_max by blast

lemma cut_ctor:
  assumes "item_ok base" "item_ok t"
  shows "(if min_val t < min_val base
            then res_bind (item_ctor (min_val t) (min_val base - 1)) (\<lambda>i. Inr [i]) else Inr []) =
         Inr (cut_low base t)"
    and "(if max_val base < max_val t
            then res_bind (item_ctor (max_val base + 1) (max_val t)) (\<lambda>i. Inr [i]) else Inr []) =
         Inr (cut_high base t)"
  using unat_pred_less[of "min_val t" "min_val base"] unat_suc_less[of "max_val base" "max_val t"]
  by (auto simp: cut_low_def cut_high_def item_ctor_def word_unat)

lemma cut_elems:
  assumes "item_ok base" "item_ok t" "min_val base \<le> max_val t" "min_val t \<le> max_val base"
  shows "interval_elems (cut_low base t @ cut_high base t) = item_elems t - item_elems base"
  using assms unat_pred_less[of "min_val t" "min_val base"]
    unat_suc_less[of "max_val base" "max_val t"]
  by (auto simp: cut_low_def cut_high_def set_eq_iff item_elems_unat word_unat)

lemma cut_sane:
  assumes "item_ok base" "item_ok t" "min_val base \<le> max_val t" "min_val t \<le> max_val base"
  shows "sorted_wrt gap (cut_low base t @ cut_high base t)"
    and "\<forall>i\<in>set (cut_low base t @ cut_high base t). item_ok i"
    and "gap s t \<Longrightarrow> i \<in> set (cut_low base t @ cut_high base t) \<Longrightarrow> gap s i"
    and "gap t s \<Longrightarrow> i \<in> set (cut_low base t @ cut_high base t) \<Longrightarrow> gap i s"
  using assms unat_pred_less[of "min_val t" "min_val base"]
    unat_suc_less[of "max_val base" "max_val t"]
  by (auto simp: cut_low_def cut_high_def gap_def word_unat split: if_splits)

lemma sub_cut_ok:
  assumes "item_ok base" "\<forall>i\<in>set r. item_ok i" "sorted_wrt gap r"
    "r = [] \<or> min_val base \<le> max_val (hd r)"
  shows "\<exists>r'. sub_cut base r = Inr r' \<and> (\<forall>i\<in>set r'. item_ok i) \<and> sorted_wrt gap r' \<and>
    interval_elems r' = interval_elems r - item_elems base \<and>
    (\<forall>s. (\<forall>i\<in>set r. gap s i) \<longrightarrow> (\<forall>i\<in>set r'. gap s i))"
  using assms
proof (induction r)
  case Nil
  then show ?case by simp
next
  case (Cons t r)
  have t: "item_ok t" and hd: "min_val base \<le> max_val t" using Cons.prems by auto
  show ?case
  proof (cases "max_val base \<ge> min_val t")
    case True
    have "r = [] \<or> min_val base \<le> max_val (hd r)"
      using Cons.prems(2,3) hd by (cases r) (auto simp: gap_def word_unat)
    then obtain r' where r': "sub_cut base r = Inr r'" "\<forall>i\<in>set r'. item_ok i" "sorted_wrt gap r'"
        "interval_elems r' = interval_elems r - item_elems base"
        "\<forall>s. (\<forall>i\<in>set r. gap s i) \<longrightarrow> (\<forall>i\<in>set r'. gap s i)"
      using Cons by auto
    let ?c = "cut_low base t @ cut_high base t"
    have "\<not> item_is_distinct t base" using True hd by (simp add: distinct_iff not_less)
    then have eq: "sub_cut base (t # r) = Inr (?c @ r')"
      using True r'(1) cut_ctor[OF Cons.prems(1) t] by simp
    have "gap i j" if "i \<in> set ?c" "j \<in> set r'" for i j
    proof -
      have "\<forall>k\<in>set r. gap i k"
        using that(1) cut_sane(4)[OF Cons.prems(1) t hd True] Cons.prems(3) by auto
      then show ?thesis using r'(5) that(2) by blast
    qed
    then have "sorted_wrt gap (?c @ r')"
      using r'(3) cut_sane(1)[OF Cons.prems(1) t hd True] unfolding sorted_wrt_append by blast
    moreover have "\<forall>i\<in>set (?c @ r'). item_ok i"
      using r'(2) cut_sane(2)[OF Cons.prems(1) t hd True] by auto
    moreover have "interval_elems (?c @ r') = interval_elems (t # r) - item_elems base"
      using r'(4) cut_elems[OF Cons.prems(1) t hd True] by auto
    moreover have "\<forall>s. (\<forall>i\<in>set (t # r). gap s i) \<longrightarrow> (\<forall>i\<in>set (?c @ r'). gap s i)"
    proof (intro allI impI ballI)
      fix s i
      assume s: "\<forall>i\<in>set (t # r). gap s i" and "i \<in> set (?c @ r')"
      then consider "i \<in> set ?c" | "i \<in> set r'" unfolding set_append by blast
      then show "gap s i"
      proof cases
        case 1
        moreover have "gap s t" using s by simp
        ultimately show ?thesis using cut_sane(3)[OF Cons.prems(1) t hd True] by blast
      next
        case 2
        moreover have "\<forall>i\<in>set r. gap s i" using s by simp
        ultimately show ?thesis using r'(5) by blast
      qed
    qed
    ultimately show ?thesis using eq by blast
  next
    case False
    have "\<forall>i\<in>set (t # r). max_val base < min_val i"
      using False Cons.prems(3) t by (auto simp: gap_def word_unat)
    then have "interval_elems (t # r) \<inter> item_elems base = {}"
      by (fastforce simp: interval_elems_def item_elems_def)
    then show ?thesis using False Cons.prems by auto
  qed
qed

lemma interval_sub_item_ok:
  assumes "interval_is_sane db" "item_ok item"
  shows "\<exists>db'. interval_sub_item item db = Inr db' \<and> interval_is_sane db' \<and>
           interval_elems db' = interval_elems db - item_elems item"
proof -
  obtain p r where pr: "sub_skip item db = (p, r)" by fastforce
  note split = sub_skip_split[OF pr]
  have ok: "\<forall>i\<in>set db. item_ok i" "sorted_wrt gap db" using assms(1) by (auto simp: interval_is_sane_iff)
  have "\<forall>i\<in>set r. item_ok i" "sorted_wrt gap r" "r = [] \<or> min_val item \<le> max_val (hd r)"
    using ok split by (auto simp: sorted_wrt_append)
  from sub_cut_ok[OF assms(2) this] obtain r' where
    r': "sub_cut item r = Inr r'" "\<forall>i\<in>set r'. item_ok i" "sorted_wrt gap r'"
      "interval_elems r' = interval_elems r - item_elems item"
      "\<forall>s. (\<forall>i\<in>set r. gap s i) \<longrightarrow> (\<forall>i\<in>set r'. gap s i)" by blast
  have "interval_elems p \<inter> item_elems item = {}"
    using split by (fastforce simp: interval_elems_def item_elems_def)
  moreover have "interval_is_sane (p @ r')"
    using ok split r' by (auto simp: interval_is_sane_iff sorted_wrt_append)
  ultimately show ?thesis
    using pr r'(1,4) split by (auto simp: interval_sub_item_def)
qed

subsection \<open>Queries\<close>

lemma is_distinct_item_iff:
  assumes "interval_is_sane db" "item_ok item"
  shows "interval_is_distinct_item db item \<longleftrightarrow> interval_elems db \<inter> item_elems item = {}"
proof -
  have "sorted_wrt gap db" "\<forall>i\<in>set db. item_ok i" using assms(1) by (auto simp: interval_is_sane_iff)
  then show ?thesis
  proof (induction db)
    case (Cons i db)
    have later: "\<forall>j\<in>set (i # db). max_val item < min_val j" if "max_val item < min_val i"
      using Cons.prems that by (auto simp: gap_def word_unat)
    show ?case
    proof (cases "max_val item < min_val i")
      case True
      then show ?thesis using later[OF True] by (fastforce simp: interval_elems_def item_elems_def)
    next
      case False
      have "item_is_distinct i item \<longleftrightarrow> item_elems i \<inter> item_elems item = {}"
        using assms(2) Cons.prems(2)
        by (auto simp: distinct_iff item_elems_def Int_atLeastAtMost)
      then show ?thesis using False Cons by auto
    qed
  qed simp
qed

lemma fully_include_item_iff:
  assumes "interval_is_sane db" "item_ok item"
  shows "interval_fully_include_item db item \<longleftrightarrow> (\<exists>i\<in>set db. item_elems item \<subseteq> item_elems i)"
proof -
  have "sorted_wrt gap db" "\<forall>i\<in>set db. item_ok i" using assms(1) by (auto simp: interval_is_sane_iff)
  then show ?thesis
  proof (induction db)
    case (Cons i db)
    have inc: "item_fully_include j item \<longleftrightarrow> item_elems item \<subseteq> item_elems j" for j
      using assms(2) by (auto simp: item_fully_include_def item_elems_def)
    have later: "\<forall>j\<in>set (i # db). max_val item < min_val j" if "max_val item < min_val i"
      using Cons.prems that by (auto simp: gap_def word_unat)
    have out: "\<not> item_elems item \<subseteq> item_elems j" if "max_val item < min_val j" for j
      using that assms(2) by (auto simp: item_elems_def)
    show ?case
    proof (cases "max_val item < min_val i")
      case True
      then show ?thesis using later[OF True] out by auto
    next
      case False
      then show ?thesis using Cons inc by auto
    qed
  qed simp
qed

text \<open>In a sane interval a range that is covered is covered by one item: the value after the
  end of an item is missing.\<close>

lemma after_item_missing:
  assumes "interval_is_sane db" "i \<in> set db" "max_val i \<noteq> - 1"
  shows "max_val i + 1 \<notin> interval_elems db"
proof
  assume "max_val i + 1 \<in> interval_elems db"
  then obtain j where j: "j \<in> set db" "unat (min_val j) \<le> unat (max_val i) + 1"
      "unat (max_val i) + 1 \<le> unat (max_val j)"
    using unat_suc[OF assms(3)] by (auto simp: interval_elems_def item_elems_unat)
  have sane: "sorted_wrt gap db" "\<forall>i\<in>set db. item_ok i" using assms(1) by (auto simp: interval_is_sane_iff)
  have "i = j \<or> gap i j \<or> gap j i"
    using sane(1) assms(2) j(1) by (metis in_set_conv_nth linorder_neqE_nat sorted_wrt_iff_nth_less)
  then show False using j sane(2) assms(2) by (auto simp: gap_def word_unat)
qed

lemma covered_by_one_item:
  assumes "interval_is_sane db" "item_ok item" "item_elems item \<subseteq> interval_elems db"
  shows "\<exists>i\<in>set db. item_elems item \<subseteq> item_elems i"
proof -
  have "min_val item \<in> interval_elems db" using assms(2,3) by (auto simp: item_elems_def)
  then obtain i where i: "i \<in> set db" "min_val i \<le> min_val item" "min_val item \<le> max_val i"
    by (auto simp: interval_elems_def item_elems_def)
  have "max_val item \<le> max_val i"
  proof (rule ccontr)
    assume "\<not> max_val item \<le> max_val i"
    then have lt: "max_val i < max_val item" by simp
    then have "max_val i \<noteq> - 1" by (rule less_imp_not_max)
    moreover have "max_val i + 1 \<in> item_elems item"
      using i(3) lt unat_suc_less[OF lt] by (auto simp: item_elems_unat word_unat)
    ultimately show False using after_item_missing[OF assms(1) i(1)] assms(3) by blast
  qed
  then show ?thesis using i by (auto simp: item_elems_def)
qed

lemma fully_include_item_subset:
  assumes "interval_is_sane db" "item_ok item"
  shows "interval_fully_include_item db item \<longleftrightarrow> item_elems item \<subseteq> interval_elems db"
  using fully_include_item_iff[OF assms] covered_by_one_item[OF assms]
  by (auto simp: interval_elems_def)

subsection \<open>A sane interval is the only one with its elements\<close>

lemma item_elems_inj: "item_ok i \<Longrightarrow> item_ok j \<Longrightarrow> item_elems i = item_elems j \<Longrightarrow> i = j"
  by (cases i; cases j) (auto simp: item_elems_def Icc_eq_Icc)

lemma sane_items_subset:
  assumes "interval_is_sane a" "interval_is_sane b" "interval_elems a = interval_elems b"
  shows "set a \<subseteq> set b"
proof
  fix i assume i: "i \<in> set a"
  have ok: "\<forall>i\<in>set a. item_ok i" "\<forall>i\<in>set b. item_ok i" and sorted: "sorted_wrt gap a"
    using assms(1,2) by (auto simp: interval_is_sane_iff)
  have "item_elems i \<subseteq> interval_elems b" using i assms(3) by (auto simp: interval_elems_def)
  then obtain j where j: "j \<in> set b" "item_elems i \<subseteq> item_elems j"
    using covered_by_one_item[OF assms(2)] ok(1) i by blast
  have "item_elems j \<subseteq> interval_elems a" using j assms(3) by (auto simp: interval_elems_def)
  then obtain k where k: "k \<in> set a" "item_elems j \<subseteq> item_elems k"
    using covered_by_one_item[OF assms(1)] ok(2) j by blast
  have "i = k \<or> gap i k \<or> gap k i"
    using sorted i k(1) by (metis in_set_conv_nth linorder_neqE_nat sorted_wrt_iff_nth_less)
  moreover have "min_val i \<in> item_elems i \<inter> item_elems k"
    using i j k ok by (auto simp: item_elems_def)
  ultimately have "i = k" using gap_less by (meson IntD1 IntD2 less_irrefl)
  then have "item_elems i = item_elems j" using j(2) k(2) by blast
  then show "i \<in> set b" using item_elems_inj ok i j(1) by blast
qed

lemma sane_elems_inj:
  assumes "interval_is_sane a" "interval_is_sane b" "interval_elems a = interval_elems b"
  shows "a = b"
proof -
  have eq: "set a = set b"
    using sane_items_subset[OF assms] sane_items_subset[OF assms(2,1)] assms(3) by blast
  have "sorted_wrt gap a" "sorted_wrt gap b" using assms(1,2) by (auto simp: interval_is_sane_iff)
  moreover have "gap x y \<Longrightarrow> \<not> gap y x" for x y by (auto simp: gap_def word_unat)
  ultimately show ?thesis
    using eq
  proof (induction a arbitrary: b)
    case (Cons x a)
    then obtain y b' where b: "b = y # b'" by (cases b) auto
    have "x = y"
    proof (rule ccontr)
      assume "x \<noteq> y"
      then have "y \<in> set a" "x \<in> set b'" using Cons.prems(4) b by auto
      then show False using Cons.prems(1,2,3) b by auto
    qed
    moreover have "x \<notin> set a" "x \<notin> set b'"
      using Cons.prems(1,2,3) b \<open>x = y\<close> by (auto simp: gap_def)
    ultimately have "set a = set b'" using Cons.prems(4) b by auto
    then show ?case using Cons b \<open>x = y\<close> by auto
  qed simp
qed

subsection \<open>Whole intervals\<close>

text \<open>What \<open>operator +=\<close> and \<open>operator -=\<close> on whole intervals need of those on items.\<close>

locale element_store =
  fixes elems :: "'d \<Rightarrow> 'a set"
    and inv :: "'d \<Rightarrow> bool"
    and item_dom :: "'i \<Rightarrow> bool"
    and item_els :: "'i \<Rightarrow> 'a set"
    and add :: "'i \<Rightarrow> 'd \<Rightarrow> 'd res"
    and sub :: "'i \<Rightarrow> 'd \<Rightarrow> 'd res"
  assumes add_law: "inv d \<Longrightarrow> item_dom i \<Longrightarrow>
      \<exists>d'. add i d = Inr d' \<and> inv d' \<and> elems d' = item_els i \<union> elems d"
    and sub_law: "inv d \<Longrightarrow> item_dom i \<Longrightarrow>
      \<exists>d'. sub i d = Inr d' \<and> inv d' \<and> elems d' = elems d - item_els i"
begin

lemma add_all_law:
  "inv d \<Longrightarrow> \<forall>i\<in>set is. item_dom i \<Longrightarrow>
     \<exists>d'. for_each_res is add d = Inr d' \<and> inv d' \<and> elems d' = (\<Union>i\<in>set is. item_els i) \<union> elems d"
proof (induction "is" arbitrary: d)
  case (Cons i "is")
  then obtain d1 where "add i d = Inr d1" "inv d1" "elems d1 = item_els i \<union> elems d"
    using add_law[of d i] by auto
  with Cons.IH[of d1] Cons.prems show ?case by auto
qed simp

lemma sub_all_law:
  "inv d \<Longrightarrow> \<forall>i\<in>set is. item_dom i \<Longrightarrow>
     \<exists>d'. for_each_res is sub d = Inr d' \<and> inv d' \<and> elems d' = elems d - (\<Union>i\<in>set is. item_els i)"
proof (induction "is" arbitrary: d)
  case (Cons i "is")
  then obtain d1 where "sub i d = Inr d1" "inv d1" "elems d1 = elems d - item_els i"
    using sub_law[of d i] by auto
  with Cons.IH[of d1] Cons.prems show ?case by auto
qed simp

end

definition interval_inv :: "interval_t \<Rightarrow> bool" where
  "interval_inv db = (interval_is_sane db \<and> - 1 \<notin> interval_elems db)"

definition item_inv :: "interval_item_t \<Rightarrow> bool" where
  "item_inv i = (item_ok i \<and> max_val i \<noteq> - 1)"

lemma item_inv_not_max: "item_inv i \<Longrightarrow> - 1 \<notin> item_elems i"
  by (auto simp: item_inv_def item_elems_def word_order.extremum_unique)

interpretation interval_store: element_store interval_elems interval_inv item_inv item_elems
  interval_add_item interval_sub_item
proof unfold_locales
  fix d i
  assume "interval_inv d" "item_inv i"
  then show "\<exists>d'. interval_add_item i d = Inr d' \<and> interval_inv d' \<and>
      interval_elems d' = item_elems i \<union> interval_elems d"
    using interval_add_item_ok[of d i] item_inv_not_max[of i]
    by (auto simp: interval_inv_def item_inv_def)
next
  fix d i
  assume "interval_inv d" "item_inv i"
  then show "\<exists>d'. interval_sub_item i d = Inr d' \<and> interval_inv d' \<and>
      interval_elems d' = interval_elems d - item_elems i"
    using interval_sub_item_ok[of d i] by (auto simp: interval_inv_def item_inv_def)
qed

lemma interval_inv_items: "interval_inv db \<Longrightarrow> \<forall>i\<in>set db. item_inv i"
  by (auto simp: interval_inv_def item_inv_def interval_is_sane_iff interval_elems_def item_elems_def)

subsection \<open>Sizes\<close>

lemma card_item_elems:
  assumes "item_ok i"
  shows "card (item_elems i) = unat (max_val i) - unat (min_val i) + 1"
proof -
  have "unat ` item_elems i = {unat (min_val i)..unat (max_val i)}"
  proof
    show "{unat (min_val i)..unat (max_val i)} \<subseteq> unat ` item_elems i"
    proof
      fix n assume n: "n \<in> {unat (min_val i)..unat (max_val i)}"
      moreover have "unat (max_val i) < 2 ^ 64" using unsigned_less[of "max_val i"] by simp
      ultimately have "unat (word_of_nat n :: 64 word) = n"
        by (simp add: unsigned_of_nat take_bit_nat_eq_self)
      with n show "n \<in> unat ` item_elems i"
        by (intro image_eqI[of _ _ "word_of_nat n"]) (simp_all add: item_elems_unat)
    qed
  qed (auto simp: item_elems_unat)
  moreover have "inj_on unat (item_elems i)" by (rule inj_onI) (rule unsigned_word_eqI)
  ultimately have "card (item_elems i) = card {unat (min_val i)..unat (max_val i)}"
    using card_image by fastforce
  then show ?thesis using assms by (simp add: word_le_nat_alt Suc_diff_le)
qed

lemma item_length_card:
  assumes "item_ok i"
  shows "item_length i = word_of_nat (card (item_elems i))"
proof -
  have "word_of_nat (unat (max_val i) - unat (min_val i)) = max_val i - min_val i"
    using assms by (simp add: of_nat_diff word_le_nat_alt)
  then show ?thesis using assms by (simp add: item_length_def card_item_elems)
qed

lemma total_length_card:
  "interval_is_sane db \<Longrightarrow> interval_total_length db = word_of_nat (card (interval_elems db))"
proof (induction db)
  case (Cons i db)
  then have sane: "interval_is_sane db" "item_ok i" "\<forall>j\<in>set db. gap i j"
    by (auto simp: interval_is_sane_iff)
  then have "item_elems i \<inter> interval_elems db = {}"
    using gap_less by (fastforce simp: interval_elems_def)
  moreover have "finite (item_elems i)" "finite (interval_elems db)" by auto
  ultimately show ?case
    using Cons.IH[OF sane(1)] item_length_card[OF sane(2)] by (simp add: card_Un_disjoint)
qed simp

lemma cmp_items_eq_0_iff:
  "length a = length b \<Longrightarrow>
     (\<exists>c. interval_cmp_items a b = Inr c \<and> (c = 0 \<longleftrightarrow> a = b))"
proof (induction a b rule: list_induct2)
  case (Cons x xs y ys)
  have "item_eq x y \<longleftrightarrow> x = y" by (cases x; cases y) (auto simp: item_eq_def)
  then show ?case using Cons by (auto simp: item_eq_def neq_iff)
qed simp

subsection \<open>The wire form\<close>

lemma get_item_put: "item_ok i \<Longrightarrow> get_item (put_item i @ rest) = Inr (i, rest)"
  by (cases i) (simp add: get_item_def put_item_def item_ctor_def)

lemma interval_add_last:
  assumes "interval_inv (db @ [i])"
  shows "interval_add_item i db = Inr (db @ [i])"
proof -
  have "interval_inv db" "item_inv i"
    using assms interval_inv_items[OF assms]
    by (auto simp: interval_inv_def interval_is_sane_iff sorted_wrt_append)
  from interval_store.add_law[OF this] obtain d' where
    d': "interval_add_item i db = Inr d'" "interval_inv d'"
      "interval_elems d' = item_elems i \<union> interval_elems db" by blast
  moreover have "d' = db @ [i]"
    using d' assms by (intro sane_elems_inj) (auto simp: interval_inv_def)
  ultimately show ?thesis by simp
qed

lemma interval_inv_prefix: "interval_inv (a @ b) \<Longrightarrow> interval_inv a"
  by (auto simp: interval_inv_def interval_is_sane_iff sorted_wrt_append)

lemma get_items_into_put:
  "interval_inv (db @ is) \<Longrightarrow>
   get_items_into (length is) db (concat (map put_item is) @ rest) = Inr (db @ is, rest)"
proof (induction "is" arbitrary: db)
  case (Cons i "is")
  have "interval_inv (db @ [i])" using interval_inv_prefix[of "db @ [i]" "is"] Cons.prems by simp
  moreover have "item_ok i" using interval_inv_items[OF Cons.prems] by (simp add: item_inv_def)
  ultimately show ?case
    using Cons.IH[of "db @ [i]"] Cons.prems by (simp add: get_item_put interval_add_last)
qed simp

interpretation interval_codec: serial_codec interval_bytes get_interval
  "\<lambda>db. interval_inv db \<and> length db < 2 ^ 32"
proof unfold_locales
  fix db rest
  assume db: "interval_inv db \<and> length db < 2 ^ 32"
  then show "get_interval (interval_bytes db @ rest) = Inr (db, rest)"
    using get_items_into_put[of "[]" db rest]
    by (simp add: get_interval_def interval_bytes_def unat_of_nat_32)
next
  fix bs db rest
  have item: "get_item bs = Inr (i, r) \<Longrightarrow> \<exists>p. bs = p @ r" for bs i r
    by (auto simp: get_item_def res_bind_eq_Inr_iff dest!: uint64_codec.get_prefix)
  have items: "get_items_into n d bs = Inr (d', r) \<Longrightarrow> \<exists>p. bs = p @ r" for n d bs d' r
  proof (induction n d bs rule: get_items_into.induct)
    case (2 n d bs)
    then obtain i r1 d1 where "get_item bs = Inr (i, r1)" "get_items_into n d1 r1 = Inr (d', r)"
      by (auto simp: res_bind_eq_Inr_iff)
    with item 2 show ?case by (metis append_assoc)
  qed simp
  assume "get_interval bs = Inr (db, rest)"
  then show "\<exists>p. bs = p @ rest"
    using items by (auto simp: get_interval_def res_bind_eq_Inr_iff dest!: uint32_codec.get_prefix)
      (metis append_assoc)
qed

subsection \<open>Properties\<close>

text \<open>C23. Adding an interval to a sane one succeeds and computes the union of the two sets, as a
  sane interval, when neither contains the largest 64 bit value.\<close>
theorem interval_add_is_union:
  assumes "interval_inv db" "interval_inv other"
  shows "\<exists>db'. interval_add other db = Inr db' \<and> interval_inv db' \<and>
           interval_elems db' = interval_elems other \<union> interval_elems db"
proof -
  obtain db' where "for_each_res other interval_add_item db = Inr db'" "interval_inv db'"
    "interval_elems db' = interval_elems other \<union> interval_elems db"
    using interval_store.add_all_law[OF assms(1) interval_inv_items[OF assms(2)]]
    by (auto simp: interval_elems_def)
  then show ?thesis by (simp add: interval_add_def interval_inv_def)
qed

lemma interval_inv_small:
  "interval_inv [\<lparr>min_val = 1, max_val = 3\<rparr>, \<lparr>min_val = 7, max_val = 9\<rparr>]"
  "interval_inv [\<lparr>min_val = 4, max_val = 5\<rparr>]"
  by (simp_all add: interval_inv_def item_elems_def word_order.extremum_unique)

theorem interval_add_is_union_witness:
  "\<exists>db'. interval_add [\<lparr>min_val = 4, max_val = 5\<rparr>]
       [\<lparr>min_val = 1, max_val = 3\<rparr>, \<lparr>min_val = 7, max_val = 9\<rparr>] = Inr db' \<and>
     interval_elems db' = {4..5} \<union> ({1..3} \<union> {7..9})"
  using interval_add_is_union[OF interval_inv_small] by (auto simp: item_elems_def)

text \<open>At the largest value the test for contiguity wraps: adding the range that holds only
  \<open>2 ^ 64 - 1\<close> to the range that holds only 0 gives the range of all values.\<close>
lemma interval_add_wraps:
  "interval_add_item \<lparr>min_val = - 1, max_val = - 1\<rparr> [\<lparr>min_val = 0, max_val = 0\<rparr>] =
     Inr [\<lparr>min_val = 0, max_val = - 1\<rparr>]"
  by (simp add: interval_add_item_def item_is_contiguous_def item_unify_def word_gt_0)

text \<open>Removing an interval from a sane one succeeds and computes the difference of the two
  sets as a sane interval; for a single item no restriction on its values is needed.\<close>
lemma interval_sub_is_difference:
  assumes "interval_is_sane db" "item_ok item"
  shows "\<exists>db'. interval_sub_item item db = Inr db' \<and> interval_is_sane db' \<and>
           interval_elems db' = interval_elems db - item_elems item"
  using assms by (rule interval_sub_item_ok)

text \<open>On a sane interval the queries, which stop at the first range past the argument, answer
  the questions about the sets: disjointness, inclusion (also of a range that could only be
  covered by several items together), membership, and the item around a value.\<close>
lemma interval_queries_exact:
  assumes "interval_is_sane db" "item_ok item"
  shows "(interval_is_distinct_item db item \<longleftrightarrow> interval_elems db \<inter> item_elems item = {}) \<and>
         (interval_fully_include_item db item \<longleftrightarrow> item_elems item \<subseteq> interval_elems db) \<and>
         (interval_contain db x \<longleftrightarrow> x \<in> interval_elems db)"
  using is_distinct_item_iff[OF assms] fully_include_item_subset[OF assms]
    fully_include_item_subset[OF assms(1), of "item_ctor1 x"]
  by (simp add: interval_contain_def item_ctor1_def item_elems_def)

text \<open>Sane intervals are canonical: \<open>compare\<close> on two of them never fails and is 0 exactly
  when they have the same elements; \<open>total_length\<close> is the number of elements modulo \<open>2 ^ 64\<close>.\<close>
lemma interval_canonical:
  assumes "interval_is_sane a" "interval_is_sane b"
  shows "(\<exists>c. interval_compare a b = Inr c \<and>
            (c = 0 \<longleftrightarrow> interval_elems a = interval_elems b)) \<and>
         interval_total_length a = word_of_nat (card (interval_elems a))"
proof
  have "interval_elems a = interval_elems b \<longleftrightarrow> a = b" using sane_elems_inj[OF assms] by auto
  then show "\<exists>c. interval_compare a b = Inr c \<and>
           (c = 0 \<longleftrightarrow> interval_elems a = interval_elems b)"
    using assms cmp_items_eq_0_iff[of a b]
    by (auto simp: interval_compare_def linorder_neq_iff)
  show "interval_total_length a = word_of_nat (card (interval_elems a))"
    by (rule total_length_card[OF assms(1)])
qed

text \<open>A sane interval without the largest value and with fewer than \<open>2 ^ 32\<close> items is read
  back from its wire form, which inserts the items one by one.\<close>
lemma interval_roundtrip:
  assumes "interval_inv db" "length db < 2 ^ 32"
  shows "res_bind (put_interval db) (\<lambda>bs. get_interval (bs @ rest)) = Inr (db, rest)"
  using interval_codec.get_put[of db rest] assms by (simp add: put_interval_def interval_inv_def)

end
