(* ===== verification/Pktfrag.thy ===== *)
theory Pktfrag
  imports SerialCodec
begin

text \<open>
  Fragmentation and reassembly of datagrams: \<open>neoip_proto/pktfrag\<close>.  The sender cuts a datagram
  larger than the MTU into fragments that carry a sequence number, their offset and a bit that
  says whether more follow; the receiver keeps the fragments of each incomplete datagram in a
  \<open>pending_dgram_t\<close> and returns the datagram once nothing is missing.

  Packets are byte lists.  A pending datagram is linked in the database by its constructor and
  unlinked by its destructor; it is modelled by its entry in the database.  The expiration
  timer is an operation, \<open>pending_dgram_expire_cb\<close>.
\<close>

subsection \<open>State\<close>

definition NEOIP_PKTTYPE_OFFSET_PKTFRAG :: byte where "NEOIP_PKTTYPE_OFFSET_PKTFRAG = 48"
definition PKT_FRAGMENT :: byte where "PKT_FRAGMENT = NEOIP_PKTTYPE_OFFSET_PKTFRAG + 1"

datatype pktfrag_err_t = PF_OK | PF_BOGUS_PKT | PF_FRAGMENT_TOO_LARGE

record pending_dgram_t =
  full_dgram_len :: nat
  fragment_db :: "(32 word \<times> bytes) list"

record pktfrag_t =
  next_xmit_seqnb :: "32 word"
  outter_mtu :: nat
  pool_max_size :: nat
  pool_cur_size :: nat
  pending_dgram_db :: "(32 word \<times> pending_dgram_t) list"

record pktfrag_fraglist_t =
  frag_db :: "bytes list"
  frag_seqnb :: "32 word"

definition OUTTER_MTU_DFL :: nat where "OUTTER_MTU_DFL = 1400"
definition POOL_MAX_SIZE_DFL :: nat where "POOL_MAX_SIZE_DFL = 30 * 1024"

definition pktfrag_ctor :: pktfrag_t where
  "pktfrag_ctor =
     \<lparr>next_xmit_seqnb = 0, outter_mtu = OUTTER_MTU_DFL, pool_max_size = POOL_MAX_SIZE_DFL,
      pool_cur_size = 0, pending_dgram_db = []\<rparr>"

definition set_outter_mtu :: "nat \<Rightarrow> pktfrag_t \<Rightarrow> pktfrag_err_t \<times> pktfrag_t" where
  "set_outter_mtu new_mtu st = (PF_OK, st\<lparr>outter_mtu := new_mtu\<rparr>)"

definition set_from_profile :: "nat \<Rightarrow> nat \<Rightarrow> pktfrag_t \<Rightarrow> pktfrag_err_t \<times> pktfrag_t" where
  "set_from_profile mtu pool_max st = (PF_OK, st\<lparr>outter_mtu := mtu, pool_max_size := pool_max\<rparr>)"

subsection \<open>Fragmentation\<close>

definition fraglist_add :: "bytes \<Rightarrow> pktfrag_fraglist_t \<Rightarrow> pktfrag_fraglist_t" where
  "fraglist_add frag l = l\<lparr>frag_db := frag_db l @ [frag]\<rparr>"

definition fraglist_set_seqnb :: "32 word \<Rightarrow> pktfrag_fraglist_t \<Rightarrow> pktfrag_fraglist_t" where
  "fraglist_set_seqnb seqnb l = l\<lparr>frag_seqnb := seqnb\<rparr>"

definition fragment_hd :: "32 word \<Rightarrow> 32 word \<Rightarrow> byte \<Rightarrow> bytes" where
  "fragment_hd seqnb off mb =
     put_uint8 PKT_FRAGMENT @ put_uint32 seqnb @ put_uint32 off @ put_uint8 mb"

definition cpu_fragment_hd_len :: "pktfrag_t \<Rightarrow> nat" where
  "cpu_fragment_hd_len st = length (fragment_hd (next_xmit_seqnb st) 0 0)"

text \<open>\<open>int frag_base_len = payl_mtu\<close> and back to \<open>size_t\<close>: the value passes through a 32 bit
  signed integer.\<close>

definition through_int :: "nat \<Rightarrow> nat" where
  "through_int n = (let b = n mod 2 ^ 32 in if b < 2 ^ 31 then b else b + 2 ^ 64 - 2 ^ 32)"

text \<open>The loop over the fragments; \<open>None\<close> is a loop that does not end.  \<open>head_consume\<close> asserts
  that the bytes are there.\<close>

partial_function (option) frag_loop ::
  "nat \<Rightarrow> nat \<Rightarrow> 32 word \<Rightarrow> 32 word \<Rightarrow> bytes \<Rightarrow> pktfrag_fraglist_t \<Rightarrow> pktfrag_fraglist_t res option" where
  "frag_loop payl_mtu base_len seqnb off pkt l =
     (if pkt = [] then Some (Inr l)
      else let mb = length pkt > payl_mtu;
               len = (if mb then base_len else length pkt)
           in if length pkt < len then Some (Inl Assert_failed)
              else frag_loop payl_mtu base_len seqnb (off + word_of_nat len) (drop len pkt)
                     (fraglist_add (fragment_hd seqnb off (if mb then 1 else 0) @ take len pkt) l))"

definition pkt_from_upper_seqnb :: "bytes \<Rightarrow> 32 word \<Rightarrow> pktfrag_t \<Rightarrow> pktfrag_fraglist_t res" where
  "pkt_from_upper_seqnb pkt seqnb st =
     (let payl_mtu = size_sub (outter_mtu st) (cpu_fragment_hd_len st);
          base_len = through_int payl_mtu
      in dbg_assert (length pkt > outter_mtu st)
           (case frag_loop payl_mtu base_len seqnb 0 pkt \<lparr>frag_db = [], frag_seqnb = 0\<rparr> of
              None \<Rightarrow> Inl Diverges
            | Some r \<Rightarrow> res_bind r (\<lambda>l. Inr (fraglist_set_seqnb seqnb l))))"

definition pkt_from_upper :: "bytes \<Rightarrow> pktfrag_t \<Rightarrow> (pktfrag_fraglist_t \<times> pktfrag_t) res" where
  "pkt_from_upper pkt st =
     (let st' = st\<lparr>next_xmit_seqnb := next_xmit_seqnb st + 1\<rparr>
      in res_bind (pkt_from_upper_seqnb pkt (next_xmit_seqnb st') st') (\<lambda>l. Inr (l, st')))"

subsection \<open>Pending datagrams\<close>

definition pending_dgram_ctor :: pending_dgram_t where
  "pending_dgram_ctor = \<lparr>full_dgram_len = 0, fragment_db = []\<rparr>"

definition pending_dgram_dolink :: "32 word \<Rightarrow> pending_dgram_t \<Rightarrow> pktfrag_t \<Rightarrow> pktfrag_t res" where
  "pending_dgram_dolink seqnb p st =
     dbg_assert (map_of (pending_dgram_db st) seqnb = None)
       (Inr (st\<lparr>pending_dgram_db := stdmap_insert seqnb p (pending_dgram_db st)\<rparr>))"

definition pending_dgram_unlink :: "32 word \<Rightarrow> pktfrag_t \<Rightarrow> pktfrag_t res" where
  "pending_dgram_unlink seqnb st =
     dbg_assert (map_of (pending_dgram_db st) seqnb \<noteq> None)
       (Inr (st\<lparr>pending_dgram_db := stdmap_erase seqnb (pending_dgram_db st)\<rparr>))"

partial_function (option) complete_loop :: "(32 word \<times> bytes) list \<Rightarrow> nat \<Rightarrow> nat \<Rightarrow> bool option" where
  "complete_loop db full off =
     (if off < full
      then (case map_of db (word_of_nat off) of
              None \<Rightarrow> Some False
            | Some frag \<Rightarrow> complete_loop db full (off + length frag))
      else Some True)"

definition pending_is_complete :: "pending_dgram_t \<Rightarrow> bool res" where
  "pending_is_complete p =
     (if full_dgram_len p = 0 then Inr False
      else case complete_loop (fragment_db p) (full_dgram_len p) 0 of
             None \<Rightarrow> Inl Diverges
           | Some b \<Rightarrow> Inr b)"

definition pending_add_fragment ::
  "32 word \<Rightarrow> bool \<Rightarrow> bytes \<Rightarrow> pending_dgram_t \<Rightarrow> (bool \<times> pending_dgram_t) res" where
  "pending_add_fragment off mb frag p =
     res_bind (pending_is_complete p)
       (\<lambda>c. dbg_assert (\<not> c)
         (if map_of (fragment_db p) off \<noteq> None then Inr (False, p)
          else let p' = p\<lparr>fragment_db := stdmap_insert off frag (fragment_db p)\<rparr>;
                   p'' = (if \<not> mb then p'\<lparr>full_dgram_len := unat off + length frag\<rparr> else p')
               in res_bind (pending_is_complete p'') (\<lambda>c'. Inr (c', p''))))"

definition get_complete_dgram :: "pending_dgram_t \<Rightarrow> bytes res" where
  "get_complete_dgram p =
     res_bind (pending_is_complete p)
       (\<lambda>c. dbg_assert c (Inr (concat (map snd (fragment_db p)))))"

definition pending_dgram_expire_cb :: "32 word \<Rightarrow> pktfrag_t \<Rightarrow> pktfrag_t res" where
  "pending_dgram_expire_cb seqnb st = pending_dgram_unlink seqnb st"

subsection \<open>Reassembly\<close>

definition pool_size_is_limited :: "pktfrag_t \<Rightarrow> bool" where
  "pool_size_is_limited st = (pool_max_size st \<noteq> 0)"

text \<open>Deleting a pending datagram does not change \<open>pool_cur_size\<close>.\<close>

fun drain_db :: "(32 word \<times> pending_dgram_t) list \<Rightarrow> nat \<Rightarrow> nat \<Rightarrow> nat \<Rightarrow>
    (32 word \<times> pending_dgram_t) list res" where
  "drain_db [] cur mx needed = (if cur \<noteq> 0 \<and> size_sub mx cur < needed then Inl Assert_failed else Inr [])"
| "drain_db (p # db) cur mx needed =
     (if cur \<noteq> 0 \<and> size_sub mx cur < needed then drain_db db cur mx needed else Inr (p # db))"

definition pool_drain :: "nat \<Rightarrow> pktfrag_t \<Rightarrow> pktfrag_t res" where
  "pool_drain needed st =
     res_bind (drain_db (pending_dgram_db st) (pool_cur_size st) (pool_max_size st) needed)
       (\<lambda>db. Inr (st\<lparr>pending_dgram_db := db\<rparr>))"

text \<open>\<open>recv_pkt_fragment\<close> after the header was read.\<close>

definition recv_fragment ::
  "32 word \<Rightarrow> 32 word \<Rightarrow> byte \<Rightarrow> bytes \<Rightarrow> pktfrag_t \<Rightarrow> (pktfrag_err_t \<times> bytes \<times> pktfrag_t) res" where
  "recv_fragment seqnb off more_bit pkt st =
     res_bind (if pool_size_is_limited st then pool_drain (length pkt) st else Inr st)
       (\<lambda>st1. if pool_size_is_limited st \<and> size_sub (pool_max_size st1) (pool_cur_size st1) < length pkt
          then Inr (PF_FRAGMENT_TOO_LARGE, pkt, st1)
          else res_bind
            (case map_of (pending_dgram_db st1) seqnb of
               None \<Rightarrow> pending_dgram_dolink seqnb pending_dgram_ctor st1
             | Some p \<Rightarrow> Inr st1)
            (\<lambda>st2. case map_of (pending_dgram_db st2) seqnb of
               None \<Rightarrow> Inl Out_of_bounds
             | Some p \<Rightarrow>
               res_bind (pending_add_fragment off (more_bit \<noteq> 0) pkt p)
                 (\<lambda>(complete, p').
                    let st3 = st2\<lparr>pending_dgram_db := stdmap_replace seqnb p' (pending_dgram_db st2)\<rparr>
                    in if complete
                       then res_bind (get_complete_dgram p')
                              (\<lambda>full. res_bind (pending_dgram_unlink seqnb st3)
                                 (\<lambda>st4. Inr (PF_OK, full, st4)))
                       else Inr (PF_OK, [], st3))))"

definition recv_pkt_fragment ::
  "bytes \<Rightarrow> pktfrag_t \<Rightarrow> (pktfrag_err_t \<times> bytes \<times> pktfrag_t) res" where
  "recv_pkt_fragment pkt st =
     (case res_bind (get_uint32 pkt) (\<lambda>(seqnb, r1). res_bind (get_uint32 r1)
             (\<lambda>(off, r2). res_bind (get_uint8 r2) (\<lambda>(mb, r3). Inr (seqnb, off, mb, r3)))) of
        Inl e \<Rightarrow> Inr (PF_BOGUS_PKT, pkt, st)
      | Inr (seqnb, off, mb, payload) \<Rightarrow> recv_fragment seqnb off mb payload st)"

definition pkt_from_lower ::
  "bytes \<Rightarrow> pktfrag_t \<Rightarrow> (pktfrag_err_t \<times> bytes \<times> pktfrag_t) res" where
  "pkt_from_lower pkt st =
     (case get_uint8 pkt of
        Inl e \<Rightarrow> Inr (PF_BOGUS_PKT, pkt, st)
      | Inr (pkttype, rest) \<Rightarrow>
          if pkttype = PKT_FRAGMENT then recv_pkt_fragment rest st
          else Inr (PF_BOGUS_PKT, rest, st))"

text \<open>A history of received packets, with the packets handed up (the non-empty outputs of
  successful calls).\<close>

fun recv_all :: "bytes list \<Rightarrow> pktfrag_t \<Rightarrow> (bytes list \<times> pktfrag_t) res" where
  "recv_all [] st = Inr ([], st)"
| "recv_all (x # xs) st =
     res_bind (pkt_from_lower x st)
       (\<lambda>(err, out, st'). res_bind (recv_all xs st')
          (\<lambda>(outs, st''). Inr ((if err = PF_OK \<and> out \<noteq> [] then [out] else []) @ outs, st'')))"

text \<open>A sender that fragments some datagrams one after the other.\<close>

fun frag_all :: "bytes list \<Rightarrow> pktfrag_t \<Rightarrow> (pktfrag_fraglist_t list \<times> pktfrag_t) res" where
  "frag_all [] st = Inr ([], st)"
| "frag_all (pkt # pkts) st =
     res_bind (pkt_from_upper pkt st)
       (\<lambda>(l, st'). res_bind (frag_all pkts st') (\<lambda>(ls, st''). Inr (l # ls, st'')))"

text \<open>The specification of reassembly: \<open>G i\<close> are the fragments of datagram \<open>i\<close> that arrived since it was
  last complete, \<open>F i\<close> are all of them; the datagram is handed up when none is missing.\<close>

fun reasm :: "(nat \<Rightarrow> 'f set) \<Rightarrow> (nat \<Rightarrow> bytes) \<Rightarrow> (nat \<Rightarrow> 'f set) \<Rightarrow> (nat \<times> 'f) list \<Rightarrow> bytes list" where
  "reasm F dg G [] = []"
| "reasm F dg G ((i, x) # xs) =
     (if insert x (G i) = F i then dg i # reasm F dg (G(i := {})) xs
      else reasm F dg (G(i := insert x (G i))) xs)"

subsection \<open>What the sender produces\<close>

text \<open>The fragments of a datagram as offset, more bit and data.\<close>

function entries :: "nat \<Rightarrow> nat \<Rightarrow> bytes \<Rightarrow> (nat \<times> bool \<times> bytes) list" where
  "entries payl off pkt =
     (if pkt = [] \<or> payl = 0 then []
      else (off, length pkt > payl, take payl pkt) # entries payl (off + payl) (drop payl pkt))"
  by auto
termination by (relation "measure (\<lambda>(payl, off, pkt). length pkt)") auto

declare entries.simps [simp del]

definition entry_pkt :: "32 word \<Rightarrow> nat \<times> bool \<times> bytes \<Rightarrow> bytes" where
  "entry_pkt seqnb e =
     (case e of (off, mb, d) \<Rightarrow> fragment_hd seqnb (word_of_nat off) (if mb then 1 else 0) @ d)"

lemma entries_Nil [simp]: "entries payl off [] = []"
  by (subst entries.simps) simp

lemma frag_loop_Nil [simp]: "frag_loop payl base seqnb off [] l = Some (Inr l)"
  by (subst frag_loop.simps) simp

lemma frag_loop_entries:
  assumes "0 < payl"
  shows "frag_loop payl payl seqnb (word_of_nat off) pkt l =
    Some (Inr (l\<lparr>frag_db := frag_db l @ map (entry_pkt seqnb) (entries payl off pkt)\<rparr>))"
  using assms
proof (induction payl off pkt arbitrary: l rule: entries.induct)
  case (1 payl off pkt)
  show ?case
  proof (cases "pkt = []")
    case True
    then show ?thesis by simp
  next
    case False
    show ?thesis
    proof (cases "length pkt > payl")
      case True
      then show ?thesis
        using False 1 by (subst frag_loop.simps, subst entries.simps)
          (simp add: Let_def fraglist_add_def entry_pkt_def)
    next
      case small: False
      then have "take payl pkt = pkt" "drop payl pkt = []" by simp_all
      then show ?thesis
        using False small 1(2)
        by (subst frag_loop.simps, subst entries.simps)
          (simp add: Let_def fraglist_add_def entry_pkt_def)
    qed
  qed
qed

lemma fragment_hd_length: "length (fragment_hd a b c) = 10"
  by (simp add: fragment_hd_def put_uint8_def)

lemma pkt_from_upper_seqnb_eq:
  assumes "10 < outter_mtu st" "outter_mtu st < 2 ^ 31" "outter_mtu st < length pkt"
  shows "pkt_from_upper_seqnb pkt seqnb st =
    Inr \<lparr>frag_db = map (entry_pkt seqnb) (entries (outter_mtu st - 10) 0 pkt), frag_seqnb = seqnb\<rparr>"
proof -
  have hd: "cpu_fragment_hd_len st = 10" by (simp add: cpu_fragment_hd_len_def fragment_hd_length)
  have payl: "size_sub (outter_mtu st) 10 = outter_mtu st - 10" using assms by simp
  have "through_int (outter_mtu st - 10) = outter_mtu st - 10"
    using assms by (simp add: through_int_def Let_def)
  moreover have "0 < outter_mtu st - 10" using assms by simp
  from frag_loop_entries[OF this, of seqnb 0 pkt "\<lparr>frag_db = [], frag_seqnb = 0\<rparr>"]
  have "frag_loop (outter_mtu st - 10) (outter_mtu st - 10) seqnb 0 pkt \<lparr>frag_db = [], frag_seqnb = 0\<rparr> =
    Some (Inr \<lparr>frag_db = map (entry_pkt seqnb) (entries (outter_mtu st - 10) 0 pkt), frag_seqnb = 0\<rparr>)"
    by simp
  ultimately show ?thesis
    using assms(3) by (simp add: pkt_from_upper_seqnb_def Let_def hd payl fraglist_set_seqnb_def)
qed

subsection \<open>Shape of the fragments\<close>

lemma entries_concat: "0 < payl \<Longrightarrow> concat (map (\<lambda>(o', m, d). d) (entries payl off pkt)) = pkt"
proof (induction payl off pkt rule: entries.induct)
  case (1 payl off pkt)
  then show ?case by (cases "pkt = []") (simp, subst entries.simps, simp)
qed

lemma entries_bounds:
  "0 < payl \<Longrightarrow> (o', m, d) \<in> set (entries payl off pkt) \<Longrightarrow>
     d \<noteq> [] \<and> length d \<le> payl \<and> off \<le> o' \<and> o' + length d \<le> off + length pkt \<and>
     (m \<longleftrightarrow> o' + length d < off + length pkt) \<and> d = take payl (drop (o' - off) pkt)"
proof (induction payl off pkt rule: entries.induct)
  case (1 payl off pkt)
  have ne: "pkt \<noteq> []" using 1(3) by auto
  from 1(3) ne 1(2) consider "o' = off" "m = (length pkt > payl)" "d = take payl pkt"
    | "(o', m, d) \<in> set (entries payl (off + payl) (drop payl pkt))"
    by (subst (asm) entries.simps) auto
  then show ?case
  proof cases
    case 1
    then show ?thesis using ne \<open>0 < payl\<close> by (auto simp: min_def)
  next
    case 2
    then have "drop payl pkt \<noteq> []" by auto
    then have "payl < length pkt" by simp
    with 2 "1.IH"[OF _ \<open>0 < payl\<close>] ne \<open>0 < payl\<close> show ?thesis
      by (auto simp: add.commute)
  qed
qed

lemma entries_sorted: "0 < payl \<Longrightarrow> sorted_wrt (<) (map fst (entries payl off pkt))"
proof (induction payl off pkt rule: entries.induct)
  case (1 payl off pkt)
  have "off < fst e" if "e \<in> set (entries payl (off + payl) (drop payl pkt))" for e
    using entries_bounds[of payl "fst e" "fst (snd e)" "snd (snd e)" "off + payl" "drop payl pkt"]
      that 1(2) by simp
  then show ?case
    using 1 by (cases "pkt = []") (simp, subst entries.simps, simp)
qed

text \<open>Fragment \<open>i\<close> starts at \<open>i * payl\<close>; the last one is the one without more bit.\<close>

lemma entries_closed:
  "0 < payl \<Longrightarrow> length (entries payl off pkt) = (length pkt + payl - 1) div payl \<and>
     (\<forall>i<length (entries payl off pkt). entries payl off pkt ! i =
        (off + i * payl, Suc i < length (entries payl off pkt), take payl (drop (i * payl) pkt)))"
proof (induction payl off pkt rule: entries.induct)
  case (1 payl off pkt)
  show ?case
  proof (cases "pkt = []")
    case True
    then show ?thesis using 1(2) by simp
  next
    case False
    let ?es = "entries payl (off + payl) (drop payl pkt)"
    have es: "entries payl off pkt = (off, length pkt > payl, take payl pkt) # ?es"
      using False 1(2) by (subst entries.simps) simp
    have IH: "length ?es = (length (drop payl pkt) + payl - 1) div payl"
      "\<forall>i<length ?es. ?es ! i =
        (off + payl + i * payl, Suc i < length ?es, take payl (drop (i * payl) (drop payl pkt)))"
      using 1 False by simp_all
    have len: "length (entries payl off pkt) = (length pkt + payl - 1) div payl"
    proof (cases "length pkt > payl")
      case True
      then have "length pkt + payl - 1 = length (drop payl pkt) + payl - 1 + payl" by simp
      then have "(length pkt + payl - 1) div payl = (length (drop payl pkt) + payl - 1) div payl + 1"
        using 1(2) by (simp only: div_add_self2)
      then show ?thesis using IH(1) es by (simp del: length_drop)
    next
      case small: False
      then have "drop payl pkt = []" by simp
      moreover have "(length pkt + payl - 1) div payl = 1"
        using small False 1(2) by (intro div_nat_eqI; cases pkt) auto
      ultimately show ?thesis using es by simp
    qed
    have more: "length pkt > payl \<longleftrightarrow> 0 < length ?es"
    proof (cases "drop payl pkt = []")
      case True
      then show ?thesis by simp
    next
      case False
      then have "?es \<noteq> []" using entries_concat[OF 1(2), of "off + payl" "drop payl pkt"] by fastforce
      then show ?thesis using False by simp
    qed
    have "entries payl off pkt ! i =
        (off + i * payl, Suc i < length (entries payl off pkt), take payl (drop (i * payl) pkt))"
      if "i < length (entries payl off pkt)" for i
      using that IH(2) es more by (cases i) (simp_all add: add.commute)
    then show ?thesis using len by blast
  qed
qed

text \<open>The offset and data of the fragments, as the receiver stores them.\<close>

definition stored :: "nat \<times> bool \<times> bytes \<Rightarrow> 32 word \<times> bytes" where
  "stored e = (word_of_nat (fst e), snd (snd e))"

lemma unat_off: "n < 2 ^ 32 \<Longrightarrow> unat (word_of_nat n :: 32 word) = n"
  by (simp add: unat_of_nat_32)

lemma stored_ok:
  assumes "0 < payl" "length pkt < 2 ^ 32"
  shows "stdmap_ok (map stored (entries payl 0 pkt))"
proof -
  have lt: "fst e < 2 ^ 32" if "e \<in> set (entries payl 0 pkt)" for e
    using entries_bounds[of payl "fst e" "fst (snd e)" "snd (snd e)" 0 pkt] that assms by auto
  have "sorted_wrt (<) (map fst (entries payl 0 pkt))" by (rule entries_sorted[OF assms(1)])
  then have "sorted_wrt (\<lambda>a b. fst a < fst b) (entries payl 0 pkt)" by (simp add: sorted_wrt_map)
  then have "sorted_wrt (\<lambda>a b. fst (stored a) < fst (stored b)) (entries payl 0 pkt)"
    by (rule sorted_wrt_mono_rel[rotated])
      (auto simp: stored_def word_less_nat_alt unat_off dest!: lt)
  then show ?thesis by (simp add: stdmap_ok_def sorted_wrt_map o_def)
qed

text \<open>Whether everything has arrived: the scan of \<open>is_complete\<close> follows the fragments in order
  and stops at the first one that is missing.\<close>

lemma complete_loop_honest:
  assumes "0 < payl" "length pkt < 2 ^ 32" "stdmap_ok db"
    "set db \<subseteq> stored ` set (entries payl 0 pkt)" "off + length rest = length pkt"
    "set (entries payl off rest) \<subseteq> set (entries payl 0 pkt)"
  shows "complete_loop db (length pkt) off =
    Some (stored ` set (entries payl off rest) \<subseteq> set db)"
  using assms
proof (induction payl off rest rule: entries.induct)
  case (1 payl off rest)
  show ?case
  proof (cases "rest = []")
    case True
    then show ?thesis using 1(6) by (subst complete_loop.simps) simp
  next
    case False
    let ?e = "(off, length rest > payl, take payl rest)"
    have es: "entries payl off rest = ?e # entries payl (off + payl) (drop payl rest)"
      using False 1(2) by (subst entries.simps) simp
    have off: "off < length pkt" using False 1(6) by (cases rest) auto
    have e_in: "?e \<in> set (entries payl 0 pkt)" using 1(7) es by auto
    have key: "e = ?e" if "e \<in> set (entries payl 0 pkt)" "fst (stored e) = word_of_nat off" for e
    proof -
      have "fst e < 2 ^ 32"
        using entries_bounds[of payl "fst e" "fst (snd e)" "snd (snd e)" 0 pkt] that(1) 1(2,3) by auto
      then have "fst e = off"
        using that(2) unat_off[of "fst e"] unat_off[of off] off 1(3) by (auto simp: stored_def)
      then show ?thesis
        using entries_sorted[OF 1(2), of 0 pkt] e_in that(1)
        by (metis eq_key_imp_eq_value fst_conv prod.collapse strict_sorted_iff)
    qed
    show ?thesis
    proof (cases "stored ?e \<in> set db")
      case True
      then have "map_of db (word_of_nat off) = Some (take payl rest)"
        using stdmap_ok_distinct[OF 1(4)] by (simp add: stored_def)
      then have step: "complete_loop db (length pkt) off =
          complete_loop db (length pkt) (off + length (take payl rest))"
        using off by (subst complete_loop.simps) simp
      show ?thesis
      proof (cases "length rest > payl")
        case more: True
        then have "complete_loop db (length pkt) (off + payl) =
            Some (stored ` set (entries payl (off + payl) (drop payl rest)) \<subseteq> set db)"
          using 1 es False by (intro "1.IH") auto
        then show ?thesis using step more True es by simp
      next
        case last: False
        then have "off + length (take payl rest) = length pkt" "drop payl rest = []"
          using 1(6) by simp_all
        then show ?thesis using step True es by (simp add: complete_loop.simps)
      qed
    next
      case False
      have "map_of db (word_of_nat off) = None"
      proof (rule ccontr)
        assume "map_of db (word_of_nat off) \<noteq> None"
        then obtain d where d: "(word_of_nat off, d) \<in> set db" by (meson map_of_SomeD not_Some_eq)
        with 1(5) obtain e where e: "e \<in> set (entries payl 0 pkt)" "stored e = (word_of_nat off, d)"
          by auto
        with key[OF e(1)] have "stored ?e = (word_of_nat off, d)" by simp
        with d False show False by simp
      qed
      then have "complete_loop db (length pkt) off = Some False"
        using off by (subst complete_loop.simps) simp
      then show ?thesis using False es by auto
    qed
  qed
qed

subsection \<open>A pending datagram that holds some of the fragments\<close>

definition pending_holds ::
  "nat \<Rightarrow> bytes \<Rightarrow> (nat \<times> bool \<times> bytes) set \<Rightarrow> pending_dgram_t \<Rightarrow> bool" where
  "pending_holds payl pkt G p =
     (stdmap_ok (fragment_db p) \<and> G \<subseteq> set (entries payl 0 pkt) \<and>
      set (fragment_db p) = stored ` G \<and>
      full_dgram_len p = (if \<exists>e\<in>G. \<not> fst (snd e) then length pkt else 0))"

lemma stored_inj:
  assumes "0 < payl" "length pkt < 2 ^ 32"
  shows "inj_on (\<lambda>e. fst (stored e)) (set (entries payl 0 pkt))"
  using stdmap_ok_distinct[OF stored_ok[OF assms]] by (simp add: distinct_map o_def)

lemma last_entry:
  assumes "0 < payl" "pkt \<noteq> []"
  shows "\<exists>e\<in>set (entries payl off pkt). \<not> fst (snd e)"
  using assms
proof (induction payl off pkt rule: entries.induct)
  case (1 payl off pkt)
  show ?case
  proof (cases "length pkt > payl")
    case True
    then show ?thesis using 1 by (subst entries.simps) auto
  next
    case False
    then show ?thesis using 1(2,3) by (subst entries.simps) auto
  qed
qed

lemma pending_holds_complete:
  assumes "0 < payl" "length pkt < 2 ^ 32" "pkt \<noteq> []" "pending_holds payl pkt G p"
  shows "pending_is_complete p = Inr (G = set (entries payl 0 pkt))"
proof (cases "\<exists>e\<in>G. \<not> fst (snd e)")
  case True
  let ?E = "set (entries payl 0 pkt)"
  have p: "stdmap_ok (fragment_db p)" "G \<subseteq> ?E" "set (fragment_db p) = stored ` G"
    "full_dgram_len p = length pkt"
    using assms(4) True by (auto simp: pending_holds_def)
  have "inj_on stored ?E"
    using stored_inj[OF assms(1,2)] unfolding inj_on_def by metis
  then have "stored ` ?E \<subseteq> stored ` G \<longleftrightarrow> G = ?E"
    using p(2) by (metis image_mono inj_on_image_eq_iff order_refl subset_antisym)
  moreover have "complete_loop (fragment_db p) (length pkt) 0 = Some (stored ` ?E \<subseteq> stored ` G)"
    using complete_loop_honest[OF assms(1,2) p(1), of 0 pkt] p(2,3) by auto
  ultimately show ?thesis using p(4) assms(3) by (simp add: pending_is_complete_def)
next
  case False
  then have "G \<noteq> set (entries payl 0 pkt)" using last_entry[OF assms(1,3), of 0] by auto
  moreover have "full_dgram_len p = 0" using assms(4) False by (simp add: pending_holds_def)
  ultimately show ?thesis by (simp add: pending_is_complete_def)
qed

lemma pending_add_honest:
  assumes "0 < payl" "length pkt < 2 ^ 32" "pkt \<noteq> []" "pending_holds payl pkt G p"
    "G \<noteq> set (entries payl 0 pkt)" "e \<in> set (entries payl 0 pkt)"
  shows "\<exists>p'. pending_add_fragment (word_of_nat (fst e)) (fst (snd e)) (snd (snd e)) p =
           Inr (insert e G = set (entries payl 0 pkt), p') \<and> pending_holds payl pkt (insert e G) p'"
proof -
  let ?E = "set (entries payl 0 pkt)"
  have p: "stdmap_ok (fragment_db p)" "G \<subseteq> ?E" "set (fragment_db p) = stored ` G"
    using assms(4) by (auto simp: pending_holds_def)
  have inc: "pending_is_complete p = Inr False"
    using pending_holds_complete[OF assms(1-4)] assms(5) by simp
  have present: "map_of (fragment_db p) (word_of_nat (fst e)) \<noteq> None \<longleftrightarrow> e \<in> G"
  proof -
    have "map_of (fragment_db p) (word_of_nat (fst e)) \<noteq> None \<longleftrightarrow>
        fst (stored e) \<in> (\<lambda>x. fst (stored x)) ` G"
      using p(3) by (simp add: map_of_eq_None_iff image_image stored_def)
    also have "\<dots> \<longleftrightarrow> e \<in> G"
      using inj_on_image_mem_iff[OF stored_inj[OF assms(1,2)] assms(6) p(2)] .
    finally show ?thesis .
  qed
  show ?thesis
  proof (cases "e \<in> G")
    case True
    then show ?thesis
      using inc present assms(4,5) by (auto simp: pending_add_fragment_def insert_absorb)
  next
    case False
    have e: "unat (word_of_nat (fst e) :: 32 word) + length (snd (snd e)) = length pkt" if "\<not> fst (snd e)"
    proof -
      have "(fst e, fst (snd e), snd (snd e)) \<in> ?E" using assms(6) by simp
      from entries_bounds[OF assms(1) this] that
      have "fst e + length (snd (snd e)) = length pkt" by (metis add_0 le_neq_implies_less)
      moreover from this assms(2) have "fst e < 2 ^ 32" by linarith
      ultimately show ?thesis by (simp only: unat_off)
    qed
    let ?p1 = "p\<lparr>fragment_db := stdmap_insert (word_of_nat (fst e)) (snd (snd e)) (fragment_db p)\<rparr>"
    let ?p2 = "if \<not> fst (snd e) then ?p1\<lparr>full_dgram_len := unat (word_of_nat (fst e) :: 32 word) +
        length (snd (snd e))\<rparr> else ?p1"
    have "word_of_nat (fst e) \<notin> fst ` set (fragment_db p)"
      using False present by (simp add: map_of_eq_None_iff)
    then have "set (fragment_db ?p2) = stored ` insert e G" "stdmap_ok (fragment_db ?p2)"
      using p by (auto simp: set_stdmap_insert stored_def)
    moreover have "full_dgram_len ?p2 = (if \<exists>x\<in>insert e G. \<not> fst (snd x) then length pkt else 0)"
      using e assms(4) by (auto simp: pending_holds_def)
    ultimately have holds: "pending_holds payl pkt (insert e G) ?p2"
      using p(2) assms(6) unfolding pending_holds_def by blast
    have "pending_add_fragment (word_of_nat (fst e)) (fst (snd e)) (snd (snd e)) p =
        Inr (insert e G = ?E, ?p2)"
      using inc present False pending_holds_complete[OF assms(1-3) holds]
      by (simp add: pending_add_fragment_def Let_def)
    then show ?thesis using holds by blast
  qed
qed

lemma get_complete_honest:
  assumes "0 < payl" "length pkt < 2 ^ 32" "pkt \<noteq> []"
    "pending_holds payl pkt (set (entries payl 0 pkt)) p"
  shows "get_complete_dgram p = Inr pkt"
proof -
  have "fragment_db p = map stored (entries payl 0 pkt)"
    using assms(4) by (intro stdmap_eqI stored_ok[OF assms(1,2)]) (auto simp: pending_holds_def)
  moreover have "map (\<lambda>e. snd (stored e)) (entries payl 0 pkt) = map (\<lambda>(o', m, d). d) (entries payl 0 pkt)"
    by (simp add: stored_def split_beta)
  ultimately have "map snd (fragment_db p) = map (\<lambda>(o', m, d). d) (entries payl 0 pkt)"
    by (simp only: map_map o_def)
  then have "concat (map snd (fragment_db p)) = pkt" using entries_concat[OF assms(1)] by simp
  then show ?thesis
    using pending_holds_complete[OF assms] by (simp add: get_complete_dgram_def)
qed

subsection \<open>The receiver\<close>

text \<open>\<open>receiving st0 seqnb payl pkt G st\<close>: the receiver \<open>st\<close> is \<open>st0\<close> with the fragments \<open>G\<close> of the
  datagram \<open>pkt\<close> pending under \<open>seqnb\<close>.\<close>

definition receiving ::
  "pktfrag_t \<Rightarrow> 32 word \<Rightarrow> nat \<Rightarrow> bytes \<Rightarrow> (nat \<times> bool \<times> bytes) set \<Rightarrow> pktfrag_t \<Rightarrow> bool" where
  "receiving st0 seqnb payl pkt G st =
     (stdmap_ok (pending_dgram_db st) \<and>
      st\<lparr>pending_dgram_db := stdmap_erase seqnb (pending_dgram_db st)\<rparr> = st0 \<and>
      (case map_of (pending_dgram_db st) seqnb of
         None \<Rightarrow> G = {}
       | Some p \<Rightarrow> pending_holds payl pkt G p))"

definition pool_accepts :: "nat \<Rightarrow> pktfrag_t \<Rightarrow> bool" where
  "pool_accepts payl st =
     (pool_cur_size st = 0 \<and> (pool_max_size st = 0 \<or> payl \<le> pool_max_size st \<and> pool_max_size st < 2 ^ 64))"

lemma drain_db_empty_pool: "drain_db db 0 mx n = Inr db"
  by (cases db) simp_all

lemma pkt_from_lower_entry:
  "pkt_from_lower (entry_pkt seqnb (off, m, d)) st =
     recv_fragment seqnb (word_of_nat off) (if m then 1 else 0) d st"
  by (simp add: pkt_from_lower_def recv_pkt_fragment_def entry_pkt_def fragment_hd_def)

lemma pending_holds_empty: "pending_holds payl pkt {} pending_dgram_ctor"
  by (simp add: pending_holds_def pending_dgram_ctor_def)

lemma stdmap_erase_replace [simp]: "stdmap_erase k (stdmap_replace k v m) = stdmap_erase k m"
  by (induction k v m rule: stdmap_replace.induct) (auto simp: stdmap_erase_def)

text \<open>Room in the pool, and the pending datagram found or created.\<close>

lemma receiving_prepare:
  assumes "receiving st0 seqnb payl pkt G st"
  shows "\<exists>st2 p. (case map_of (pending_dgram_db st) seqnb of
               None \<Rightarrow> pending_dgram_dolink seqnb pending_dgram_ctor st
             | Some p \<Rightarrow> Inr st) = Inr st2 \<and>
           map_of (pending_dgram_db st2) seqnb = Some p \<and> pending_holds payl pkt G p \<and>
           stdmap_ok (pending_dgram_db st2) \<and>
           st2\<lparr>pending_dgram_db := stdmap_erase seqnb (pending_dgram_db st2)\<rparr> = st0"
proof (cases "map_of (pending_dgram_db st) seqnb")
  case None
  let ?st = "st\<lparr>pending_dgram_db := stdmap_insert seqnb pending_dgram_ctor (pending_dgram_db st)\<rparr>"
  have r: "stdmap_ok (pending_dgram_db st)" "G = {}"
    "st\<lparr>pending_dgram_db := stdmap_erase seqnb (pending_dgram_db st)\<rparr> = st0"
    using assms None by (simp_all add: receiving_def)
  have k: "seqnb \<notin> fst ` set (pending_dgram_db st)" using None by (simp add: map_of_eq_None_iff)
  have "stdmap_erase seqnb (pending_dgram_db st) = pending_dgram_db st"
    using k by (auto simp: stdmap_erase_def filter_id_conv)
  then have "?st\<lparr>pending_dgram_db := stdmap_erase seqnb (pending_dgram_db ?st)\<rparr> = st0"
    using r(1,3) k by (simp add: stdmap_erase_insert)
  moreover have "map_of (pending_dgram_db ?st) seqnb = Some pending_dgram_ctor"
    using r(1) k by (simp add: map_of_stdmap_insert)
  ultimately show ?thesis
    using None r pending_holds_empty by (simp add: pending_dgram_dolink_def)
next
  case (Some p)
  then show ?thesis using assms by (simp add: receiving_def)
qed

lemma recv_entry:
  assumes "0 < payl" "length pkt < 2 ^ 32" "pkt \<noteq> []" "pool_accepts payl st0"
    "receiving st0 seqnb payl pkt G st"
    "G \<noteq> set (entries payl 0 pkt)" "e \<in> set (entries payl 0 pkt)"
  shows "if insert e G = set (entries payl 0 pkt)
         then pkt_from_lower (entry_pkt seqnb e) st = Inr (PF_OK, pkt, st0)
         else \<exists>st'. pkt_from_lower (entry_pkt seqnb e) st = Inr (PF_OK, [], st') \<and>
                receiving st0 seqnb payl pkt (insert e G) st'"
proof -
  obtain off m d where e: "e = (off, m, d)" by (cases e)
  have d: "length d \<le> payl" using entries_bounds[OF assms(1)] assms(7) e by blast
  have pool: "pool_cur_size st = 0" "pool_max_size st = 0 \<or> length d \<le> pool_max_size st \<and> pool_max_size st < 2 ^ 64"
    using assms(4,5) d by (auto simp: pool_accepts_def receiving_def)
  obtain st2 p where prep:
    "(case map_of (pending_dgram_db st) seqnb of
               None \<Rightarrow> pending_dgram_dolink seqnb pending_dgram_ctor st
             | Some p \<Rightarrow> Inr st) = Inr st2"
    "map_of (pending_dgram_db st2) seqnb = Some p" "pending_holds payl pkt G p"
    "stdmap_ok (pending_dgram_db st2)"
    "st2\<lparr>pending_dgram_db := stdmap_erase seqnb (pending_dgram_db st2)\<rparr> = st0"
    using receiving_prepare[OF assms(5)] by blast
  define C where "C = (insert e G = set (entries payl 0 pkt))"
  obtain p' where p': "pending_add_fragment (word_of_nat off) m d p = Inr (C, p')"
      "pending_holds payl pkt (insert e G) p'"
    using pending_add_honest[OF assms(1-3) prep(3) assms(6,7)] e by (auto simp: C_def)
  have mb: "((if m then 1 else 0) \<noteq> (0 :: byte)) = m" by simp
  let ?st3 = "st2\<lparr>pending_dgram_db := stdmap_replace seqnb p' (pending_dgram_db st2)\<rparr>"
  have in_db: "seqnb \<in> fst ` set (pending_dgram_db st2)" using prep(2) by (force dest: map_of_SomeD)
  have lookup: "map_of (pending_dgram_db ?st3) seqnb = Some p'"
    using in_db by (simp add: map_of_stdmap_replace)
  have start: "recv_fragment seqnb (word_of_nat off) (if m then 1 else 0) d st =
      (if C then res_bind (get_complete_dgram p')
              (\<lambda>full. res_bind (pending_dgram_unlink seqnb ?st3) (\<lambda>st4. Inr (PF_OK, full, st4)))
       else Inr (PF_OK, [], ?st3))"
  proof -
    have "(if pool_size_is_limited st then pool_drain (length d) st else Inr st) = Inr st"
      using pool(1) by (simp add: pool_drain_def drain_db_empty_pool)
    moreover have "\<not> (pool_size_is_limited st \<and> size_sub (pool_max_size st) (pool_cur_size st) < length d)"
      using pool by (auto simp: pool_size_is_limited_def)
    ultimately show ?thesis
      using prep(1,2) p'(1) unfolding recv_fragment_def mb by (auto simp: Let_def)
  qed
  show ?thesis
  proof (cases C)
    case True
    then have "get_complete_dgram p' = Inr pkt" using get_complete_honest[OF assms(1-3)] p'(2) by (simp add: C_def)
    then show ?thesis
      using True start lookup prep(5) e
      by (simp add: pkt_from_lower_entry pending_dgram_unlink_def C_def)
  next
    case False
    have "receiving st0 seqnb payl pkt (insert e G) ?st3"
      using lookup p'(2) prep(4,5) by (simp add: receiving_def)
    then show ?thesis using False start e by (simp add: pkt_from_lower_entry C_def)
  qed
qed

lemma recv_all_partial:
  assumes "0 < payl" "length pkt < 2 ^ 32" "pkt \<noteq> []" "pool_accepts payl st0"
    "receiving st0 seqnb payl pkt G st" "set es \<subseteq> set (entries payl 0 pkt)"
    "G \<union> set es \<noteq> set (entries payl 0 pkt)" "G \<subseteq> set (entries payl 0 pkt)"
  shows "\<exists>st'. recv_all (map (entry_pkt seqnb) es) st = Inr ([], st') \<and>
           receiving st0 seqnb payl pkt (G \<union> set es) st'"
  using assms(5-8)
proof (induction es arbitrary: G st)
  case Nil
  then show ?case by simp
next
  case (Cons e es)
  have "G \<noteq> set (entries payl 0 pkt)" "insert e G \<noteq> set (entries payl 0 pkt)"
    using Cons.prems by auto
  then obtain st1 where st1: "pkt_from_lower (entry_pkt seqnb e) st = Inr (PF_OK, [], st1)"
    "receiving st0 seqnb payl pkt (insert e G) st1"
    using recv_entry[OF assms(1-4) Cons.prems(1), of e] Cons.prems(2) by auto
  with Cons.IH[OF st1(2)] Cons.prems show ?case by auto
qed

lemma recv_all_append:
  "recv_all (xs @ ys) st =
     res_bind (recv_all xs st)
       (\<lambda>(o1, st1). res_bind (recv_all ys st1) (\<lambda>(o2, st2). Inr (o1 @ o2, st2)))"
  by (induction xs arbitrary: st) (auto simp: res_bind_def split: sum.splits)

lemma entry_pkt_length: "length (entry_pkt seqnb (o', m, d)) = 10 + length d"
  by (simp add: entry_pkt_def fragment_hd_length)

lemma entry_pkt_payload: "drop 10 (entry_pkt seqnb e) = snd (snd e)"
  by (cases e) (simp add: entry_pkt_def fragment_hd_length)

lemma entry_pkt_offset:
  "fst (projr (get_uint32 (drop 5 (entry_pkt seqnb e)))) = fst (stored e)"
  by (cases e) (simp add: entry_pkt_def fragment_hd_def put_uint8_def stored_def)

subsection \<open>Several datagrams at a time\<close>

text \<open>\<open>G i\<close> are the fragments of datagram \<open>i\<close> that the receiver holds under the number \<open>sq i\<close>.\<close>

definition holds_all ::
  "nat \<Rightarrow> (nat \<Rightarrow> 32 word) \<Rightarrow> bytes list \<Rightarrow> (nat \<Rightarrow> (nat \<times> bool \<times> bytes) set) \<Rightarrow> pktfrag_t \<Rightarrow> bool" where
  "holds_all payl sq pkts G st \<longleftrightarrow>
     stdmap_ok (pending_dgram_db st) \<and> pool_accepts payl st \<and>
     (\<forall>i<length pkts. G i \<noteq> set (entries payl 0 (pkts ! i)) \<and>
        (case map_of (pending_dgram_db st) (sq i) of
           None \<Rightarrow> G i = {}
         | Some p \<Rightarrow> pending_holds payl (pkts ! i) (G i) p))"

lemma entries_not_empty: "0 < payl \<Longrightarrow> pkt \<noteq> [] \<Longrightarrow> set (entries payl 0 pkt) \<noteq> {}"
  using last_entry[of payl pkt 0] by auto

lemma recv_one_of_many:
  assumes "0 < payl" "\<forall>p\<in>set pkts. p \<noteq> [] \<and> length p < 2 ^ 32" "inj_on sq {..<length pkts}"
    "holds_all payl sq pkts G st" "i < length pkts" "e \<in> set (entries payl 0 (pkts ! i))"
  shows "\<exists>st'. pkt_from_lower (entry_pkt (sq i) e) st =
      Inr (PF_OK, if insert e (G i) = set (entries payl 0 (pkts ! i)) then pkts ! i else [], st') \<and>
    holds_all payl sq pkts
      (G(i := if insert e (G i) = set (entries payl 0 (pkts ! i)) then {} else insert e (G i))) st'"
proof -
  let ?pkt = "pkts ! i" and ?E = "set (entries payl 0 (pkts ! i))"
  let ?st0 = "st\<lparr>pending_dgram_db := stdmap_erase (sq i) (pending_dgram_db st)\<rparr>"
  have pkt: "length ?pkt < 2 ^ 32" "?pkt \<noteq> []" using assms(2,5) by auto
  have H: "stdmap_ok (pending_dgram_db st)" "pool_accepts payl st"
    "\<And>j. j < length pkts \<Longrightarrow> G j \<noteq> set (entries payl 0 (pkts ! j))"
    "\<And>j. j < length pkts \<Longrightarrow> case map_of (pending_dgram_db st) (sq j) of
        None \<Rightarrow> G j = {} | Some p \<Rightarrow> pending_holds payl (pkts ! j) (G j) p"
    using assms(4) by (auto simp: holds_all_def)
  have other: "sq j \<noteq> sq i" if "j < length pkts" "j \<noteq> i" for j
    using inj_onD[OF assms(3), of j i] that assms(5) by auto
  have rec: "receiving ?st0 (sq i) payl ?pkt (G i) st" using H(1) H(4)[OF assms(5)] by (simp add: receiving_def)
  have pool0: "pool_accepts payl ?st0" using H(2) by (simp add: pool_accepts_def)
  note step = recv_entry[OF assms(1) pkt pool0 rec H(3)[OF assms(5)] assms(6)]
  show ?thesis
  proof (cases "insert e (G i) = ?E")
    case True
    have "holds_all payl sq pkts (G(i := {})) ?st0"
      unfolding holds_all_def
    proof (intro conjI allI impI)
      fix j assume j: "j < length pkts"
      show "(G(i := {})) j \<noteq> set (entries payl 0 (pkts ! j))"
        using H(3)[OF j] entries_not_empty[OF assms(1) pkt(2)] by auto
      show "case map_of (pending_dgram_db ?st0) (sq j) of
          None \<Rightarrow> (G(i := {})) j = {}
        | Some p \<Rightarrow> pending_holds payl (pkts ! j) ((G(i := {})) j) p"
        using H(4)[OF j] other[OF j]
        by (cases "j = i") (simp_all add: map_of_stdmap_erase split: option.splits)
    qed (use H(1) pool0 in simp_all)
    then show ?thesis using step True by simp
  next
    case False
    then obtain st' where st': "pkt_from_lower (entry_pkt (sq i) e) st = Inr (PF_OK, [], st')"
      "receiving ?st0 (sq i) payl ?pkt (insert e (G i)) st'" using step by auto
    have r: "stdmap_ok (pending_dgram_db st')"
      "st'\<lparr>pending_dgram_db := stdmap_erase (sq i) (pending_dgram_db st')\<rparr> = ?st0"
      "case map_of (pending_dgram_db st') (sq i) of None \<Rightarrow> insert e (G i) = {}
         | Some p \<Rightarrow> pending_holds payl ?pkt (insert e (G i)) p"
      using st'(2) by (simp_all add: receiving_def)
    have db: "map_of (pending_dgram_db st') (sq j) = map_of (pending_dgram_db st) (sq j)"
      if "j < length pkts" "j \<noteq> i" for j
    proof -
      have "stdmap_erase (sq i) (pending_dgram_db st') = stdmap_erase (sq i) (pending_dgram_db st)"
        using arg_cong[OF r(2), of pending_dgram_db] by simp
      then show ?thesis using map_of_stdmap_erase[of "sq i"] other[OF that] by (metis fun_upd_other)
    qed
    have pool: "pool_accepts payl st'"
      using pool0 arg_cong[OF r(2), of pool_cur_size] arg_cong[OF r(2), of pool_max_size]
      by (simp add: pool_accepts_def)
    have "holds_all payl sq pkts (G(i := insert e (G i))) st'"
      unfolding holds_all_def
    proof (intro conjI allI impI)
      fix j assume j: "j < length pkts"
      show "(G(i := insert e (G i))) j \<noteq> set (entries payl 0 (pkts ! j))"
        using H(3)[OF j] False by simp
      show "case map_of (pending_dgram_db st') (sq j) of
          None \<Rightarrow> (G(i := insert e (G i))) j = {}
        | Some p \<Rightarrow> pending_holds payl (pkts ! j) ((G(i := insert e (G i))) j) p"
      proof (cases "j = i")
        case True
        then show ?thesis using r(3) by (simp split: option.splits)
      next
        case False
        then show ?thesis using H(4)[OF j] db[OF j False] by (simp split: option.splits)
      qed
    qed (use r(1) pool in simp_all)
    then show ?thesis using st'(1) False by auto
  qed
qed

lemma recv_many:
  assumes "0 < payl" "\<forall>p\<in>set pkts. p \<noteq> [] \<and> length p < 2 ^ 32" "inj_on sq {..<length pkts}"
    "holds_all payl sq pkts G st"
    "\<forall>(i, e)\<in>set es. i < length pkts \<and> e \<in> F i"
    "\<forall>i<length pkts. F i = set (entries payl 0 (pkts ! i))"
  shows "\<exists>st'. recv_all (map (\<lambda>(i, e). entry_pkt (sq i) e) es) st =
    Inr (reasm F ((!) pkts) G es, st')"
  using assms(4,5)
proof (induction es arbitrary: G st)
  case (Cons x es)
  obtain i e where x: "x = (i, e)" by (cases x)
  have i: "i < length pkts" "e \<in> set (entries payl 0 (pkts ! i))" using Cons.prems(2) x assms(6) by auto
  have ne: "pkts ! i \<noteq> []" using assms(2) i(1) by auto
  define C where "C \<longleftrightarrow> insert e (G i) = set (entries payl 0 (pkts ! i))"
  let ?G = "G(i := if C then {} else insert e (G i))"
  obtain st1 where st1: "pkt_from_lower (entry_pkt (sq i) e) st = Inr (PF_OK, if C then pkts ! i else [], st1)"
    "holds_all payl sq pkts ?G st1"
    using recv_one_of_many[OF assms(1-3) Cons.prems(1) i, folded C_def] by blast
  have "\<forall>(i, e)\<in>set es. i < length pkts \<and> e \<in> F i" using Cons.prems(2) by simp
  then obtain st' where "recv_all (map (\<lambda>(i, e). entry_pkt (sq i) e) es) st1 = Inr (reasm F ((!) pkts) ?G es, st')"
    using Cons.IH[OF st1(2)] by blast
  moreover have "insert e (G i) = F i \<longleftrightarrow> C" using assms(6) i(1) by (simp add: C_def)
  ultimately show ?case using st1(1) ne by (simp add: x)
qed simp

text \<open>The specification does not depend on how fragments are named, and hands up a datagram whose
  fragments have all arrived.\<close>

lemma reasm_image:
  assumes "\<forall>(i, e)\<in>set es. e \<in> F i" "\<forall>i. inj_on (g i) (F i)" "\<forall>i. G i \<subseteq> F i"
  shows "reasm (\<lambda>i. g i ` F i) dg (\<lambda>i. g i ` G i) (map (\<lambda>(i, e). (i, g i e)) es) = reasm F dg G es"
  using assms
proof (induction es arbitrary: G)
  case (Cons x es)
  obtain i e where x: "x = (i, e)" by (cases x)
  have "insert e (G i) \<subseteq> F i" using Cons.prems(1,3) x by auto
  then have eq: "insert (g i e) (g i ` G i) = g i ` F i \<longleftrightarrow> insert e (G i) = F i"
    using Cons.prems(2) by (metis image_insert inj_on_image_eq_iff order_refl)
  have upd: "(\<lambda>j. g j ` G j)(i := g i ` A) = (\<lambda>j. g j ` (G(i := A)) j)" for A
    by (rule ext) simp
  have IH: "reasm (\<lambda>i. g i ` F i) dg (\<lambda>j. g j ` (G(i := A)) j) (map (\<lambda>(i, e). (i, g i e)) es) =
      reasm F dg (G(i := A)) es" if "A \<subseteq> F i" for A
  proof -
    have "\<forall>j. (G(i := A)) j \<subseteq> F j" using Cons.prems(3) that by simp
    moreover have "\<forall>(i, e)\<in>set es. e \<in> F i" using Cons.prems(1) by simp
    ultimately show ?thesis using Cons.IH[of "G(i := A)"] Cons.prems(2) by blast
  qed
  show ?case
    using eq upd[of "{}"] upd[of "insert e (G i)"] IH[of "{}"] IH[OF \<open>insert e (G i) \<subseteq> F i\<close>] x
    by simp
qed simp

lemma reasm_complete:
  assumes "F i \<subseteq> G i \<union> {x. (i, x) \<in> set xs}" "G i \<subseteq> F i" "G i \<noteq> F i"
    "\<forall>x. (i, x) \<in> set xs \<longrightarrow> x \<in> F i"
  shows "dg i \<in> set (reasm F dg G xs)"
  using assms
proof (induction xs arbitrary: G)
  case (Cons y ys)
  obtain j x where y: "y = (j, x)" by (cases y)
  show ?case
  proof (cases "j = i \<and> insert x (G i) = F i")
    case True
    then show ?thesis using y by simp
  next
    case False
    define G' where "G' = G(j := if insert x (G j) = F j then {} else insert x (G j))"
    have "dg i \<in> set (reasm F dg G' ys)"
    proof (rule Cons.IH)
      show "F i \<subseteq> G' i \<union> {x. (i, x) \<in> set ys}" using Cons.prems(1) False y by (auto simp: G'_def)
      show "G' i \<subseteq> F i" using Cons.prems(2,4) False y by (auto simp: G'_def)
      show "G' i \<noteq> F i" using Cons.prems(3) False by (auto simp: G'_def)
      show "\<forall>x. (i, x) \<in> set ys \<longrightarrow> x \<in> F i" using Cons.prems(4) by simp
    qed
    moreover have "set (reasm F dg G' ys) \<subseteq> set (reasm F dg G (y # ys))"
      using y by (auto simp: G'_def)
    ultimately show ?thesis by blast
  qed
qed simp

lemma entry_pkt_inj:
  assumes "0 < payl" "length pkt < 2 ^ 32"
  shows "inj_on (entry_pkt seqnb) (set (entries payl 0 pkt))"
proof (rule inj_onI)
  fix a b assume ab: "a \<in> set (entries payl 0 pkt)" "b \<in> set (entries payl 0 pkt)"
    "entry_pkt seqnb a = entry_pkt seqnb b"
  then have "fst (stored a) = fst (stored b)" by (metis entry_pkt_offset)
  with stored_inj[OF assms] ab show "a = b" by (auto dest: inj_onD)
qed

lemma frag_all_entries:
  assumes "10 < outter_mtu st" "outter_mtu st < 2 ^ 31" "\<forall>p\<in>set pkts. outter_mtu st < length p"
  shows "\<exists>st'. frag_all pkts st = Inr (map (\<lambda>i.
      \<lparr>frag_db = map (entry_pkt (next_xmit_seqnb st + 1 + of_nat i)) (entries (outter_mtu st - 10) 0 (pkts ! i)),
       frag_seqnb = next_xmit_seqnb st + 1 + of_nat i\<rparr>) [0..<length pkts], st')"
  using assms
proof (induction pkts arbitrary: st)
  case (Cons p ps)
  let ?st = "st\<lparr>next_xmit_seqnb := next_xmit_seqnb st + 1\<rparr>"
  have "pkt_from_upper p st = Inr (\<lparr>frag_db = map (entry_pkt (next_xmit_seqnb st + 1))
      (entries (outter_mtu st - 10) 0 p), frag_seqnb = next_xmit_seqnb st + 1\<rparr>, ?st)"
    using pkt_from_upper_seqnb_eq[of ?st p "next_xmit_seqnb st + 1"] Cons.prems
    by (simp add: pkt_from_upper_def Let_def)
  moreover obtain st' where "frag_all ps ?st = Inr (map (\<lambda>i.
      \<lparr>frag_db = map (entry_pkt (next_xmit_seqnb st + 1 + 1 + of_nat i)) (entries (outter_mtu st - 10) 0 (ps ! i)),
       frag_seqnb = next_xmit_seqnb st + 1 + 1 + of_nat i\<rparr>) [0..<length ps], st')"
    using Cons.IH[of ?st] Cons.prems by auto
  ultimately show ?case
    by (simp add: upt_conv_Cons map_Suc_upt[symmetric] comp_def ac_simps del: upt_Suc)
qed simp

subsection \<open>Loops that do not end\<close>

text \<open>An empty fragment at the offset the scan has reached does not move it forward.\<close>

lemma complete_loop_stuck:
  assumes "map_of db (word_of_nat off) = Some []" "off < full"
  shows "complete_loop db full off = None"
proof -
  have "complete_loop db' full' off' = Some b \<Longrightarrow>
      \<not> (map_of db' (word_of_nat off') = Some [] \<and> off' < full')" for db' full' off' b
  proof (induction rule: complete_loop.raw_induct[rotated, consumes 1])
    case (1 f db full off b)
    then show ?case by (auto split: if_splits option.splits)
  qed
  with assms show ?thesis by (cases "complete_loop db full off") auto
qed

text \<open>The offsets that the scan gets to when the datagram is long enough.\<close>

inductive scan_reaches :: "(32 word \<times> bytes) list \<Rightarrow> nat \<Rightarrow> bool" for db where
  scan_start: "scan_reaches db 0"
| scan_next: "scan_reaches db off \<Longrightarrow> map_of db (word_of_nat off) = Some d \<Longrightarrow> scan_reaches db (off + length d)"

lemma scan_reaches_mono:
  assumes "scan_reaches db off" "\<And>k d. map_of db k = Some d \<Longrightarrow> map_of db' k = Some d"
  shows "scan_reaches db' off"
  using assms(1) by (induction) (auto intro: scan_reaches.intros assms(2))

lemma complete_loop_reaches:
  "scan_reaches db off \<Longrightarrow> off \<le> full \<Longrightarrow> complete_loop db full 0 = complete_loop db full off"
proof (induction rule: scan_reaches.induct)
  case (scan_next off d)
  then have IH: "complete_loop db full 0 = complete_loop db full off" by simp
  show ?case
  proof (cases "off < full")
    case True
    then show ?thesis using IH scan_next(2) by (subst (asm) (2) complete_loop.simps) simp
  next
    case False
    then have "off + length d = off" using scan_next(4) by linarith
    then show ?thesis using IH by simp
  qed
qed simp

text \<open>The first packet stores the empty fragment, the second one fixes the length and starts the scan.\<close>

lemma add_empty_fragment:
  assumes "full_dgram_len p = 0" "map_of (fragment_db p) o1 = None" "mb"
  shows "pending_add_fragment o1 mb [] p = Inr (False, p\<lparr>fragment_db := stdmap_insert o1 [] (fragment_db p)\<rparr>)"
  using assms by (simp add: pending_add_fragment_def pending_is_complete_def Let_def)

lemma add_last_fragment:
  assumes "full_dgram_len p = 0" "stdmap_ok (fragment_db p)" "scan_reaches (fragment_db p) (unat o1)"
    "map_of (fragment_db p) o1 = Some []" "map_of (fragment_db p) o2 = None" "o1 < o2"
  shows "pending_add_fragment o2 False d p = Inl Diverges"
proof -
  let ?db = "stdmap_insert o2 d (fragment_db p)"
  have o2: "o2 \<notin> fst ` set (fragment_db p)" using assms(5) by (simp add: map_of_eq_None_iff)
  have ext: "map_of ?db k = (if k = o2 then Some d else map_of (fragment_db p) k)" for k
    using assms(2) o2 by (simp add: map_of_stdmap_insert)
  have "scan_reaches ?db (unat o1)"
    by (rule scan_reaches_mono[OF assms(3)]) (use ext assms(5) in auto)
  moreover have "unat o1 < unat o2 + length d" using assms(6) by (simp add: word_less_nat_alt)
  moreover have "map_of ?db (word_of_nat (unat o1)) = Some []" using ext[of o1] assms(4,6) by (simp add: less_imp_neq)
  ultimately have "complete_loop ?db (unat o2 + length d) 0 = None"
    using complete_loop_reaches complete_loop_stuck by (metis less_imp_le)
  moreover have "0 < unat o2 + length d" using assms(6) by (simp add: word_less_nat_alt)
  ultimately show ?thesis
    using assms(1,5) by (simp add: pending_add_fragment_def pending_is_complete_def Let_def)
qed

lemma recv_empty_then_last:
  assumes "pool_accepts (length d) st" "stdmap_ok (pending_dgram_db st)"
    "p = (case map_of (pending_dgram_db st) seqnb of None \<Rightarrow> pending_dgram_ctor | Some q \<Rightarrow> q)"
    "full_dgram_len p = 0" "stdmap_ok (fragment_db p)"
    "scan_reaches (fragment_db p) (unat o1)" "map_of (fragment_db p) o1 = None"
    "map_of (fragment_db p) o2 = None" "o1 < o2" "mb \<noteq> 0"
  shows "recv_all [fragment_hd seqnb o1 mb, fragment_hd seqnb o2 0 @ d] st = Inl Diverges"
proof -
  let ?p = "p\<lparr>fragment_db := stdmap_insert o1 [] (fragment_db p)\<rparr>"
  have o1: "o1 \<notin> fst ` set (fragment_db p)" using assms(7) by (simp add: map_of_eq_None_iff)
  have ext: "map_of (fragment_db ?p) k = (if k = o1 then Some [] else map_of (fragment_db p) k)" for k
    using assms(5) o1 by (simp add: map_of_stdmap_insert)
  have "scan_reaches (fragment_db ?p) (unat o1)"
    by (rule scan_reaches_mono[OF assms(6)]) (use ext assms(7) in auto)
  then have last: "pending_add_fragment o2 False d ?p = Inl Diverges"
    using assms(4,5,8,9) ext o1 by (intro add_last_fragment[of _ o1]) auto
  have room: "(if pool_size_is_limited st' then pool_drain n st' else Inr st') = Inr st'"
    "\<not> (pool_size_is_limited st' \<and> size_sub (pool_max_size st') (pool_cur_size st') < length d)"
    "\<not> (pool_size_is_limited st' \<and> size_sub (pool_max_size st') (pool_cur_size st') < length [])"
    if "pool_cur_size st' = pool_cur_size st" "pool_max_size st' = pool_max_size st" for st' n
    using assms(1) that by (auto simp: pool_accepts_def pool_size_is_limited_def pool_drain_def drain_db_empty_pool)
  obtain st2 where st2: "(case map_of (pending_dgram_db st) seqnb of
      None \<Rightarrow> pending_dgram_dolink seqnb pending_dgram_ctor st | Some p \<Rightarrow> Inr st) = Inr st2"
    "map_of (pending_dgram_db st2) seqnb = Some p"
    "pool_cur_size st2 = pool_cur_size st" "pool_max_size st2 = pool_max_size st"
    using assms(2,3) by (cases "map_of (pending_dgram_db st) seqnb")
      (auto simp: pending_dgram_dolink_def map_of_stdmap_insert map_of_eq_None_iff)
  let ?st3 = "st2\<lparr>pending_dgram_db := stdmap_replace seqnb ?p (pending_dgram_db st2)\<rparr>"
  have first: "recv_fragment seqnb o1 mb [] st = Inr (PF_OK, [], ?st3)"
    using room(1,3)[of st] st2 add_empty_fragment[OF assms(4,7), of "mb \<noteq> 0"] assms(10)
    by (simp add: recv_fragment_def Let_def)
  have "seqnb \<in> fst ` set (pending_dgram_db st2)" using st2(2) by (force dest: map_of_SomeD)
  then have "map_of (pending_dgram_db ?st3) seqnb = Some ?p" by (simp add: map_of_stdmap_replace)
  then have second: "recv_fragment seqnb o2 0 d ?st3 = Inl Diverges"
    using room(1,2)[of ?st3] st2(3,4) last by (simp add: recv_fragment_def)
  have "pkt_from_lower (fragment_hd seqnb off b @ x) s = recv_fragment seqnb off b x s" for off b x s
    by (simp add: pkt_from_lower_def recv_pkt_fragment_def fragment_hd_def)
  from this[of o1 mb "[]"] this[of o2 0 d] show ?thesis using first second by simp
qed

text \<open>With an MTU of exactly the header length no byte fits into a fragment.\<close>

lemma frag_loop_stuck:
  assumes "pkt \<noteq> []"
  shows "frag_loop 0 0 seqnb off pkt l = None"
proof -
  have "frag_loop p b s off' pkt' l' = Some r \<Longrightarrow> \<not> (p = 0 \<and> b = 0 \<and> pkt' \<noteq> [])" for p b s off' pkt' l' r
  proof (induction rule: frag_loop.raw_induct[rotated, consumes 1])
    case (1 f p b s off pkt l r)
    show ?case
    proof (rule notI, elim conjE)
      assume "p = 0" "b = 0" "pkt \<noteq> []"
      with 1(2) have "f 0 0 s off pkt (fraglist_add (fragment_hd s off 1) l) = Some r"
        by (simp add: Let_def)
      with 1(1) \<open>pkt \<noteq> []\<close> show False by blast
    qed
  qed
  then have "frag_loop 0 0 seqnb off pkt l \<noteq> Some r" for r using assms by blast
  then show ?thesis by (metis not_Some_eq)
qed

subsection \<open>Properties\<close>

text \<open>C17. Fragmentation of a datagram larger than the MTU (which leaves room for the header)
  returns: with a payload of 10 bytes less than the MTU, fragment \<open>i\<close> is the packet type, the new sequence
  number, the offset \<open>i * payload\<close>, 0 in the last fragment and 1 in the others, and the bytes of the
  datagram from that offset, as many as the payload or all that are left; every fragment has a payload
  and is at most the MTU, and the payloads in order are the datagram.\<close>
theorem fragments_cover_datagram:
  assumes "10 < outter_mtu st" "outter_mtu st < 2 ^ 31" "outter_mtu st < length pkt"
    "payl = outter_mtu st - 10" "seqnb = next_xmit_seqnb st + 1"
  shows "\<exists>l. pkt_from_upper pkt st = Inr (l, st\<lparr>next_xmit_seqnb := seqnb\<rparr>) \<and> frag_seqnb l = seqnb \<and>
           length (frag_db l) = (length pkt + payl - 1) div payl \<and>
           (\<forall>i<length (frag_db l). frag_db l ! i =
              put_uint8 PKT_FRAGMENT @ put_uint32 seqnb @ put_uint32 (of_nat (i * payl)) @
              put_uint8 (if Suc i = length (frag_db l) then 0 else 1) @ take payl (drop (i * payl) pkt)) \<and>
           (\<forall>f\<in>set (frag_db l). 10 < length f \<and> length f \<le> outter_mtu st) \<and>
           concat (map (drop 10) (frag_db l)) = pkt"
proof -
  let ?es = "entries payl 0 pkt"
  let ?l = "\<lparr>frag_db = map (entry_pkt seqnb) ?es, frag_seqnb = seqnb\<rparr>"
  have payl: "0 < payl" using assms(1,4) by simp
  have "pkt_from_upper pkt st = Inr (?l, st\<lparr>next_xmit_seqnb := seqnb\<rparr>)"
    using pkt_from_upper_seqnb_eq[of "st\<lparr>next_xmit_seqnb := seqnb\<rparr>" pkt seqnb] assms
    by (simp add: pkt_from_upper_def Let_def)
  moreover have "10 < length f \<and> length f \<le> outter_mtu st" if "f \<in> set (frag_db ?l)" for f
  proof -
    from that obtain o' m d where "f = entry_pkt seqnb (o', m, d)" "(o', m, d) \<in> set ?es" by auto
    with entries_bounds[OF payl this(2)] assms(1,4) show ?thesis by (auto simp: entry_pkt_length)
  qed
  moreover have "concat (map (drop 10) (frag_db ?l)) = pkt"
    using entries_concat[OF payl, of 0 pkt] unfolding case_prod_unfold
    by (simp add: entry_pkt_payload o_def)
  moreover have "length (frag_db ?l) = (length pkt + payl - 1) div payl"
    using entries_closed[OF payl, of 0 pkt] by simp
  moreover have "frag_db ?l ! i =
      put_uint8 PKT_FRAGMENT @ put_uint32 seqnb @ put_uint32 (of_nat (i * payl)) @
      put_uint8 (if Suc i = length (frag_db ?l) then 0 else 1) @ take payl (drop (i * payl) pkt)"
    if "i < length (frag_db ?l)" for i
  proof -
    have i: "i < length ?es" using that by simp
    then have "?es ! i = (i * payl, Suc i < length ?es, take payl (drop (i * payl) pkt))"
      using entries_closed[OF payl, of 0 pkt] by simp
    moreover have "Suc i < length ?es \<longleftrightarrow> Suc i \<noteq> length ?es" using i by linarith
    ultimately show ?thesis using i by (simp add: entry_pkt_def fragment_hd_def)
  qed
  ultimately show ?thesis by (intro exI[of _ ?l]) simp
qed

theorem fragments_cover_datagram_witness:
  "\<exists>l. pkt_from_upper (replicate 20 7) (pktfrag_ctor\<lparr>outter_mtu := 15\<rparr>) =
       Inr (l, pktfrag_ctor\<lparr>outter_mtu := 15, next_xmit_seqnb := 1\<rparr>) \<and>
     length (frag_db l) = 4 \<and> concat (map (drop 10) (frag_db l)) = replicate 20 7"
  using fragments_cover_datagram[of "pktfrag_ctor\<lparr>outter_mtu := 15\<rparr>" "replicate 20 7" 5 1]
  by (auto simp: pktfrag_ctor_def)

text \<open>C12. A sender fragments some datagrams (each larger than the MTU and shorter than 2^32 bytes, at most
  2^32 of them), and the receiver gets their fragments interleaved, in any order, lost and repeated:
  \<open>xs\<close> is any list of fragments with the number of their datagram.  What is handed up is exactly what
  the specification says, which hands up a datagram when the last missing one of its fragments arrives
  and then forgets them; in particular every datagram whose fragments are all in the list is handed up.
  The receiver may hold other pending datagrams, and fragments of the payload size fit into its pool.\<close>
theorem reassembly_any_order:
  assumes "10 < outter_mtu xst" "outter_mtu xst < 2 ^ 31"
    "\<forall>p\<in>set pkts. outter_mtu xst < length p \<and> length p < 2 ^ 32" "length pkts \<le> 2 ^ 32"
    "pool_accepts (outter_mtu xst - 10) rst" "stdmap_ok (pending_dgram_db rst)"
    "\<forall>i<length pkts. map_of (pending_dgram_db rst) (next_xmit_seqnb xst + 1 + of_nat i) = None"
  shows "\<exists>ls xst'. frag_all pkts xst = Inr (ls, xst') \<and>
    (\<forall>xs. (\<forall>(i, x)\<in>set xs. i < length pkts \<and> x \<in> set (frag_db (ls ! i))) \<longrightarrow>
       (\<exists>outs rst'. recv_all (map snd xs) rst = Inr (outs, rst') \<and>
          outs = reasm (\<lambda>i. if i < length pkts then set (frag_db (ls ! i)) else {}) ((!) pkts) (\<lambda>i. {}) xs \<and>
          (\<forall>i<length pkts. set (frag_db (ls ! i)) \<subseteq> {x. (i, x) \<in> set xs} \<longrightarrow> pkts ! i \<in> set outs)))"
proof -
  let ?payl = "outter_mtu xst - 10" and ?sq = "\<lambda>i. next_xmit_seqnb xst + 1 + of_nat i :: 32 word"
  let ?E = "\<lambda>i. if i < length pkts then set (entries ?payl 0 (pkts ! i)) else {}"
  have payl: "0 < ?payl" using assms(1) by simp
  have ne: "\<forall>p\<in>set pkts. p \<noteq> [] \<and> length p < 2 ^ 32" using assms(3) by auto
  obtain ls xst' where ls: "frag_all pkts xst = Inr (ls, xst')"
    "ls = map (\<lambda>i. \<lparr>frag_db = map (entry_pkt (?sq i)) (entries ?payl 0 (pkts ! i)), frag_seqnb = ?sq i\<rparr>)
       [0..<length pkts]"
    using frag_all_entries[OF assms(1,2), of pkts] assms(3) by blast
  define F where "F = (\<lambda>i. if i < length pkts then set (frag_db (ls ! i)) else {})"
  have F: "F = (\<lambda>i. entry_pkt (?sq i) ` ?E i)"
    by (rule ext) (simp add: F_def ls(2))
  have inj: "\<forall>i. inj_on (entry_pkt (?sq i)) (?E i)"
    using entry_pkt_inj[OF payl] ne by simp
  have sq: "inj_on ?sq {..<length pkts}"
  proof (rule inj_onI)
    fix i j assume ij: "i \<in> {..<length pkts}" "j \<in> {..<length pkts}" "?sq i = ?sq j"
    then have "(of_nat i :: 32 word) = of_nat j" by simp
    then have "unat (of_nat i :: 32 word) = unat (of_nat j :: 32 word)" by simp
    then show "i = j" using ij(1,2) assms(4) by (simp add: unat_off)
  qed
  have H: "holds_all ?payl ?sq pkts (\<lambda>i. {}) rst"
    using assms(5-7) entries_not_empty[OF payl] ne by (auto simp: holds_all_def)
  have "\<exists>rst'. recv_all (map snd xs) rst = Inr (reasm F ((!) pkts) (\<lambda>i. {}) xs, rst')"
    and "i < length pkts \<Longrightarrow> F i \<subseteq> {x. (i, x) \<in> set xs} \<Longrightarrow> pkts ! i \<in> set (reasm F ((!) pkts) (\<lambda>i. {}) xs)"
    if h: "\<forall>(i, x)\<in>set xs. i < length pkts \<and> x \<in> set (frag_db (ls ! i))" for xs i
  proof -
    have "set xs \<subseteq> (\<lambda>(i, e). (i, entry_pkt (?sq i) e)) ` {(i, e). i < length pkts \<and> e \<in> ?E i}"
    proof
      fix y assume "y \<in> set xs"
      moreover obtain i x where y: "y = (i, x)" by (cases y)
      ultimately have i: "i < length pkts" "x \<in> set (frag_db (ls ! i))" using h by auto
      then have "x \<in> entry_pkt (?sq i) ` set (entries ?payl 0 (pkts ! i))" by (simp add: ls(2))
      then obtain e where "x = entry_pkt (?sq i) e" "e \<in> set (entries ?payl 0 (pkts ! i))" by (rule imageE)
      then show "y \<in> (\<lambda>(i, e). (i, entry_pkt (?sq i) e)) ` {(i, e). i < length pkts \<and> e \<in> ?E i}"
        using i(1) y by (intro image_eqI[of _ _ "(i, e)"]) simp_all
    qed
    then obtain es where es: "xs = map (\<lambda>(i, e). (i, entry_pkt (?sq i) e)) es"
      "set es \<subseteq> {(i, e). i < length pkts \<and> e \<in> ?E i}" by (elim list_of_image)
    have ok: "\<forall>(i, e)\<in>set es. i < length pkts \<and> e \<in> ?E i" using es(2) by blast
    have "reasm F ((!) pkts) (\<lambda>i. {}) xs = reasm ?E ((!) pkts) (\<lambda>i. {}) es"
      using reasm_image[of es ?E "\<lambda>i. entry_pkt (?sq i)" "\<lambda>i. {}" "(!) pkts"] ok inj es(1) F by auto
    moreover have "map snd xs = map (\<lambda>(i, e). entry_pkt (?sq i) e) es" using es(1) by (simp add: comp_def case_prod_beta)
    ultimately show "\<exists>rst'. recv_all (map snd xs) rst = Inr (reasm F ((!) pkts) (\<lambda>i. {}) xs, rst')"
      using recv_many[OF payl ne sq H ok] by simp
    assume i: "i < length pkts" "F i \<subseteq> {x. (i, x) \<in> set xs}"
    have "?E i \<noteq> {}" using entries_not_empty[OF payl] ne i(1) by simp
    then have "F i \<noteq> {}" unfolding F by simp
    moreover have "\<forall>x. (i, x) \<in> set xs \<longrightarrow> x \<in> F i" using h i(1) by (auto simp: F_def)
    ultimately show "pkts ! i \<in> set (reasm F ((!) pkts) (\<lambda>i. {}) xs)"
      using i(2) by (intro reasm_complete[of F i "\<lambda>i. {}" xs "(!) pkts"]) auto
  qed
  then show ?thesis
    using ls(1) unfolding F_def by (intro exI[of _ ls] exI[of _ xst']) auto
qed

theorem reassembly_any_order_witness:
  "\<exists>ls xst'. frag_all [[7, 8, 9, 1, 2, 3, 4, 5, 6, 7, 8, 9, 0], replicate 14 5] (pktfrag_ctor\<lparr>outter_mtu := 12\<rparr>) =
       Inr (ls, xst') \<and>
     (\<exists>outs rst'. recv_all (map snd (map (Pair (1::nat)) (frag_db (ls ! 1)) @ map (Pair 0) (frag_db (ls ! 0)))) pktfrag_ctor =
          Inr (outs, rst') \<and> replicate 14 5 \<in> set outs)"
proof -
  let ?pkts = "[[7, 8, 9, 1, 2, 3, 4, 5, 6, 7, 8, 9, 0], replicate 14 (5 :: byte)]"
  let ?x = "pktfrag_ctor\<lparr>outter_mtu := 12\<rparr>"
  have h: "10 < outter_mtu ?x" "outter_mtu ?x < 2 ^ 31"
    "\<forall>p\<in>set ?pkts. outter_mtu ?x < length p \<and> length p < 2 ^ 32" "length ?pkts \<le> 2 ^ 32"
    "pool_accepts (outter_mtu ?x - 10) pktfrag_ctor" "stdmap_ok (pending_dgram_db pktfrag_ctor)"
    "\<forall>i<length ?pkts. map_of (pending_dgram_db pktfrag_ctor) (next_xmit_seqnb ?x + 1 + of_nat i) = None"
    by (simp_all add: pool_accepts_def pktfrag_ctor_def POOL_MAX_SIZE_DFL_def)
  obtain ls xst' where ls: "frag_all ?pkts ?x = Inr (ls, xst')"
    and r: "\<forall>xs. (\<forall>(i, x)\<in>set xs. i < length ?pkts \<and> x \<in> set (frag_db (ls ! i))) \<longrightarrow>
       (\<exists>outs rst'. recv_all (map snd xs) pktfrag_ctor = Inr (outs, rst') \<and>
          outs = reasm (\<lambda>i. if i < length ?pkts then set (frag_db (ls ! i)) else {}) ((!) ?pkts) (\<lambda>i. {}) xs \<and>
          (\<forall>i<length ?pkts. set (frag_db (ls ! i)) \<subseteq> {x. (i, x) \<in> set xs} \<longrightarrow> ?pkts ! i \<in> set outs))"
    using reassembly_any_order[OF h] by blast
  let ?xs = "map (Pair (1::nat)) (frag_db (ls ! 1)) @ map (Pair 0) (frag_db (ls ! 0))"
  have "\<forall>(i, x)\<in>set ?xs. i < length ?pkts \<and> x \<in> set (frag_db (ls ! i))" by auto
  from r[THEN spec, of ?xs, THEN mp, OF this] obtain outs rst' where
    o: "recv_all (map snd ?xs) pktfrag_ctor = Inr (outs, rst')"
    "\<forall>i<length ?pkts. set (frag_db (ls ! i)) \<subseteq> {x. (i, x) \<in> set ?xs} \<longrightarrow> ?pkts ! i \<in> set outs"
    by (elim exE conjE) (erule (1) that)
  have "set (frag_db (ls ! 1)) \<subseteq> {x. (1, x) \<in> set ?xs}" by (rule subsetI) (simp add: image_iff)
  then have "?pkts ! 1 \<in> set outs" using o(2)[THEN spec, of 1, THEN mp, THEN mp] by simp
  then have "replicate 14 5 \<in> set outs" by simp
  then show ?thesis using ls o(1) by blast
qed

text \<open>C32. Two ways to make the code loop for ever.  A datagram is pending or new at the receiver, the scan
  of \<open>is_complete\<close> over its fragments gets to the offset \<open>o1\<close>, where none is stored: any fragment without
  payload at that offset, followed by the last fragment of the datagram at a later offset, makes the
  scan stay there.  And sending any datagram does not return when the MTU is exactly the length of the
  header.\<close>
theorem pktfrag_can_loop:
  assumes "pool_accepts (length d) st" "stdmap_ok (pending_dgram_db st)"
    "p = (case map_of (pending_dgram_db st) seqnb of None \<Rightarrow> pending_dgram_ctor | Some q \<Rightarrow> q)"
    "full_dgram_len p = 0" "stdmap_ok (fragment_db p)"
    "scan_reaches (fragment_db p) (unat o1)" "map_of (fragment_db p) o1 = None"
    "map_of (fragment_db p) o2 = None" "o1 < o2" "mb \<noteq> 0"
    "outter_mtu xst = 10" "10 < length pkt"
  shows "recv_all [fragment_hd seqnb o1 mb, fragment_hd seqnb o2 0 @ d] st = Inl Diverges \<and>
    pkt_from_upper pkt xst = Inl Diverges"
proof
  show "recv_all [fragment_hd seqnb o1 mb, fragment_hd seqnb o2 0 @ d] st = Inl Diverges"
    using recv_empty_then_last[OF assms(1-10)] by simp
  have "cpu_fragment_hd_len st' = 10" for st' by (simp add: cpu_fragment_hd_len_def fragment_hd_length)
  then show "pkt_from_upper pkt xst = Inl Diverges"
    using frag_loop_stuck[of pkt] assms(11,12) 
    by (cases "pkt = []") (auto simp: pkt_from_upper_def pkt_from_upper_seqnb_def through_int_def Let_def)
qed

theorem pktfrag_can_loop_witness:
  "recv_all [fragment_hd 5 0 1, fragment_hd 5 3 0 @ [1]] pktfrag_ctor = Inl Diverges \<and>
   pkt_from_upper (replicate 11 0) (pktfrag_ctor\<lparr>outter_mtu := 10\<rparr>) = Inl Diverges"
  by (rule pktfrag_can_loop[of _ _ pending_dgram_ctor])
    (simp_all add: pool_accepts_def pktfrag_ctor_def POOL_MAX_SIZE_DFL_def pending_dgram_ctor_def scan_start)

end
