(* ===== verification/Wai.thy ===== *)
theory Wai
  imports SerialCodec
begin

text \<open>
  Wrap around integers: \<open>wai_t\<close> of \<open>neoip_wai.hpp\<close>, an unsigned integer compared by the sign of
  the difference, and the ordered maps that the datagram layers key by \<open>wai32_t\<close>.  The template
  is modelled at every word length; \<open>wai8_t\<close> to \<open>wai64_t\<close> are its instances.

  The comparison is an order only for values that lie within half of the space after a common
  base.  \<open>wai_dist b x\<close> is how far \<open>x\<close> lies after \<open>b\<close>, and the lemmas of this theory turn each
  comparison of values near \<open>b\<close> into the comparison of their distances.
\<close>

subsection \<open>Operations\<close>

definition wai_cmp :: "'a::len word \<Rightarrow> 'a word \<Rightarrow> int" where
  "wai_cmp x y = sint (x - y)"

definition wai_eq :: "'a::len word \<Rightarrow> 'a word \<Rightarrow> bool" where
  "wai_eq x y = (wai_cmp x y = 0)"

definition wai_lt :: "'a::len word \<Rightarrow> 'a word \<Rightarrow> bool" where
  "wai_lt x y = (wai_cmp x y < 0)"

definition wai_le :: "'a::len word \<Rightarrow> 'a word \<Rightarrow> bool" where
  "wai_le x y = (wai_cmp x y \<le> 0)"

definition wai_gt :: "'a::len word \<Rightarrow> 'a word \<Rightarrow> bool" where
  "wai_gt x y = (wai_cmp x y > 0)"

definition wai_ge :: "'a::len word \<Rightarrow> 'a word \<Rightarrow> bool" where
  "wai_ge x y = (wai_cmp x y \<ge> 0)"

definition wai_add :: "'a::len word \<Rightarrow> 'a word \<Rightarrow> 'a word" where
  "wai_add x y = x + y"

definition wai_sub :: "'a::len word \<Rightarrow> 'a word \<Rightarrow> 'a word" where
  "wai_sub x y = word_of_int (sint (x - y))"

definition wai_incr :: "'a::len word \<Rightarrow> 'a word" where
  "wai_incr x = wai_add x 1"

definition wai_decr :: "'a::len word \<Rightarrow> 'a word" where
  "wai_decr x = wai_sub x 1"

definition wai_get_max_diff :: "'a::len itself \<Rightarrow> int" where
  "wai_get_max_diff t = (2 ^ (LENGTH('a) - 1) - 1) - 1"

definition wai_to_string :: "'a::len word \<Rightarrow> string" where
  "wai_to_string x = show_nat (unat x)"

definition put_wai32 :: "32 word \<Rightarrow> bytes" where
  "put_wai32 x = put_uint32 x"

definition get_wai32 :: "32 word reader" where
  "get_wai32 = get_uint32"

subsection \<open>The comparison near a base\<close>

definition wai_dist :: "'a::len word \<Rightarrow> 'a word \<Rightarrow> nat" where
  "wai_dist b x = unat (x - b)"

definition wai_near :: "'a::len word \<Rightarrow> 'a word \<Rightarrow> bool" where
  "wai_near b x = (wai_dist b x < 2 ^ (LENGTH('a) - 1))"

lemma unat_half_int: "unat (u :: 'a::len word) < 2 ^ k \<Longrightarrow> int (unat u) < 2 ^ k"
  by (metis of_nat_less_iff of_nat_numeral of_nat_power)

lemma sint_small:
  fixes u :: "'a::len word"
  assumes "unat u < 2 ^ (LENGTH('a) - 1)"
  shows "sint u = int (unat u)"
proof -
  have "- (2 ^ (LENGTH('a) - 1)) \<le> int (unat u)" by (rule order_trans[of _ 0]) simp_all
  then show ?thesis
    using unat_half_int[OF assms] by (simp only: sint_uint One_nat_def [symmetric] signed_take_bit_int_eq_self uint_nat)
qed

lemma sint_diff_small:
  fixes u v :: "'a::len word"
  assumes "unat u < 2 ^ (LENGTH('a) - 1)" "unat v < 2 ^ (LENGTH('a) - 1)"
  shows "sint (u - v) = int (unat u) - int (unat v)"
proof -
  note half = unat_half_int[OF assms(1)] unat_half_int[OF assms(2)]
  have "- (2 ^ (LENGTH('a) - 1)) \<le> int (unat u) - int (unat v)"
    "int (unat u) - int (unat v) < 2 ^ (LENGTH('a) - 1)"
    using half of_nat_0_le_iff[of "unat u"] of_nat_0_le_iff[of "unat v"] by linarith+
  then show ?thesis
    using assms by (simp add: sint_word_ariths(2) sint_small signed_take_bit_int_eq_self)
qed

lemma wai_cmp_near:
  fixes x y :: "'a::len word"
  assumes "wai_near b x" "wai_near b y"
  shows "wai_cmp x y = int (wai_dist b x) - int (wai_dist b y)"
proof -
  have "x - y = (x - b) - (y - b)" by simp
  then show ?thesis
    using assms sint_diff_small[of "x - b" "y - b"]
    by (simp add: wai_cmp_def wai_near_def wai_dist_def)
qed

lemma wai_dist_eq_iff [simp]: "wai_dist b x = wai_dist b y \<longleftrightarrow> x = y"
  by (metis wai_dist_def unsigned_word_eqI diff_add_cancel)

lemma wai_dist_self [simp]: "wai_dist b b = 0"
  by (simp add: wai_dist_def)

lemma wai_near_self [simp]: "wai_near b b"
  by (simp add: wai_near_def)

lemma wai_order_near:
  assumes "wai_near b x" "wai_near b y"
  shows "wai_lt x y \<longleftrightarrow> wai_dist b x < wai_dist b y"
    and "wai_le x y \<longleftrightarrow> wai_dist b x \<le> wai_dist b y"
    and "wai_gt x y \<longleftrightarrow> wai_dist b y < wai_dist b x"
    and "wai_ge x y \<longleftrightarrow> wai_dist b y \<le> wai_dist b x"
  using wai_cmp_near[OF assms]
  by (auto simp: wai_lt_def wai_le_def wai_gt_def wai_ge_def)

lemma wai_eq_iff [simp]: "wai_eq x y \<longleftrightarrow> x = y"
  by (metis wai_eq_def wai_cmp_def diff_eq_diff_eq diff_self eq_iff_diff_eq_0 sint_0 signed_word_eqI)

lemma wai_dist_add:
  fixes b x :: "'a::len word"
  assumes "d \<le> wai_dist b x"
  shows "wai_dist (b + of_nat d) x = wai_dist b x - d"
proof -
  have d: "d < 2 ^ LENGTH('a)"
    using assms unsigned_less[of "x - b", where 'a = nat] unfolding wai_dist_def by linarith
  then have u: "unat (of_nat d :: 'a word) = d" by (simp add: unat_of_nat take_bit_nat_eq_self)
  have eq: "x - (b + of_nat d) = (x - b) - of_nat d" by simp
  have "of_nat d \<le> x - b" using assms u by (simp add: word_le_nat_alt wai_dist_def)
  then show ?thesis using u unfolding wai_dist_def eq by (simp only: unat_sub)
qed

lemma wai_dist_incr: "wai_dist b x \<noteq> 0 \<Longrightarrow> wai_dist (wai_incr b) x = wai_dist b x - 1"
  using wai_dist_add[of 1 b x] by (simp add: wai_incr_def wai_add_def)

lemma wai_sub_eq [simp]: "wai_sub x y = x - y"
  by (simp add: wai_sub_def)

text \<open>A value before the base by at most half of the space compares as smaller.\<close>

lemma wai_lt_before:
  fixes b x :: "'a::len word"
  assumes "0 < wai_dist x b" "wai_near x b"
  shows "wai_lt x b" "\<not> wai_gt x b" "\<not> wai_ge x b" "x \<noteq> b"
  using wai_cmp_near[of x x b] assms
  by (auto simp: wai_lt_def wai_gt_def wai_ge_def)

subsection \<open>Ordered maps keyed by wrap around integers\<close>

text \<open>\<open>std::map<wai32_t, T>\<close> keeps its pairs in the order of \<open>operator <\<close>: \<open>find\<close> goes to the first
  key that is not less, and accepts it when it is not greater; \<open>insert\<close> puts the pair there unless
  an equivalent key is present.\<close>

fun wmap_find :: "'k::len word \<Rightarrow> ('k word \<times> 'v) list \<Rightarrow> 'v option" where
  "wmap_find k [] = None"
| "wmap_find k ((k', v) # m) =
     (if wai_lt k' k then wmap_find k m else if wai_lt k k' then None else Some v)"

fun wmap_insert :: "'k::len word \<Rightarrow> 'v \<Rightarrow> ('k word \<times> 'v) list \<Rightarrow> ('k word \<times> 'v) list" where
  "wmap_insert k v [] = [(k, v)]"
| "wmap_insert k v ((k', v') # m) =
     (if wai_lt k' k then (k', v') # wmap_insert k v m
      else if wai_lt k k' then (k, v) # (k', v') # m else (k', v') # m)"

fun wmap_erase :: "'k::len word \<Rightarrow> ('k word \<times> 'v) list \<Rightarrow> ('k word \<times> 'v) list" where
  "wmap_erase k [] = []"
| "wmap_erase k ((k', v') # m) =
     (if wai_lt k' k then (k', v') # wmap_erase k m
      else if wai_lt k k' then (k', v') # m else m)"

text \<open>The program numbers its packets 0, 1, 2, \dots and keeps the low 32 bits.  \<open>wai_map m\<close> is the map
  that the program holds when \<open>m\<close> is the one keyed by the full numbers; as long as the numbers in
  use differ by less than half of the space, the operations agree with those of an ordinary ordered
  map on the full numbers, also when the sequence numbers wrap around.\<close>

definition wai_map :: "(nat \<times> 'v) list \<Rightarrow> ('k::len word \<times> 'v) list" where
  "wai_map m = map (\<lambda>(i, v). (of_nat i, v)) m"

definition wai_close :: "'k::len itself \<Rightarrow> nat \<Rightarrow> nat \<Rightarrow> bool" where
  "wai_close t i j = (\<bar>int i - int j\<bar> < 2 ^ (LENGTH('k) - 1))"

lemma wai_map_simps [simp]:
  "wai_map [] = []" "wai_map ((i, v) # m) = (of_nat i, v) # wai_map m"
  "length (wai_map m) = length m" "wai_map m = [] \<longleftrightarrow> m = []"
  by (simp_all add: wai_map_def)

lemma wai_cmp_of_nat:
  assumes "wai_close TYPE('k::len) i j"
  shows "wai_cmp (of_nat i :: 'k word) (of_nat j) = int i - int j"
proof -
  have "(of_nat i - of_nat j :: 'k word) = word_of_int (int i - int j)" by simp
  moreover have "sint (word_of_int k :: 'k word) = signed_take_bit (LENGTH('k) - 1) k" for k
    by (simp add: sint_sbintrunc')
  moreover have "signed_take_bit (LENGTH('k) - 1) (int i - int j) = int i - int j"
    using assms by (intro signed_take_bit_int_eq_self) (auto simp: wai_close_def)
  ultimately show ?thesis by (simp only: wai_cmp_def)
qed

lemma wai_cmp_self [simp]: "wai_cmp x x = 0"
  by (simp add: wai_cmp_def)

lemma wai_lt_irrefl [simp]: "\<not> wai_lt x x"
  by (simp add: wai_lt_def)

lemma wai_order_of_nat:
  assumes "wai_close TYPE('k::len) i j"
  shows "wai_lt (of_nat i :: 'k word) (of_nat j) \<longleftrightarrow> i < j"
    and "wai_gt (of_nat i :: 'k word) (of_nat j) \<longleftrightarrow> j < i"
    and "wai_ge (of_nat i :: 'k word) (of_nat j) \<longleftrightarrow> j \<le> i"
    and "(of_nat i :: 'k word) = of_nat j \<longleftrightarrow> i = j"
  using wai_cmp_of_nat[OF assms] wai_eq_iff[of "of_nat i :: 'k word" "of_nat j"]
  by (auto simp: wai_lt_def wai_gt_def wai_ge_def wai_eq_def)

lemma wai_close_sym: "wai_close t i j = wai_close t j i"
  by (simp add: wai_close_def abs_minus_commute)

lemma wai_map_find:
  fixes k :: nat
  assumes "stdmap_ok m" "\<forall>p\<in>set m. wai_close TYPE('k::len) (fst p) k"
  shows "wmap_find (of_nat k :: 'k word) (wai_map m) = map_of m k"
  using assms
proof (induction m)
  case (Cons p m)
  obtain i v where p: "p = (i, v)" by (cases p)
  have close: "wai_close TYPE('k) i k" "wai_close TYPE('k) k i"
    using Cons.prems(2) p wai_close_sym by auto
  have "map_of m k = None" if "k \<le> i" using Cons.prems(1) p that by (force simp: map_of_eq_None_iff)
  then show ?case
    using Cons p by (auto simp: wai_order_of_nat(1)[OF close(1)] wai_order_of_nat(1)[OF close(2)])
qed simp

lemma wai_map_insert:
  assumes "\<forall>p\<in>set m. wai_close TYPE('k::len) (fst p) k"
  shows "wmap_insert (of_nat k :: 'k word) v (wai_map m) = wai_map (stdmap_insert k v m)"
  using assms
proof (induction m)
  case (Cons p m)
  obtain i v where p: "p = (i, v)" by (cases p)
  have close: "wai_close TYPE('k) i k" "wai_close TYPE('k) k i"
    using Cons.prems p wai_close_sym by auto
  then show ?case
    using Cons p by (auto simp: wai_order_of_nat(1)[OF close(1)] wai_order_of_nat(1)[OF close(2)])
qed simp

lemma wai_map_erase:
  assumes "stdmap_ok m" "\<forall>p\<in>set m. wai_close TYPE('k::len) (fst p) k"
  shows "wmap_erase (of_nat k :: 'k word) (wai_map m) = wai_map (stdmap_erase k m)"
  using assms
proof (induction m)
  case (Cons p m)
  obtain i v where p: "p = (i, v)" by (cases p)
  have close: "wai_close TYPE('k) i k" "wai_close TYPE('k) k i"
    using Cons.prems p wai_close_sym by auto
  have "stdmap_erase k m = m" if "k \<le> i"
    using Cons.prems(1) p that by (force simp: stdmap_erase_def filter_id_conv)
  then show ?case
    using Cons p by (auto simp: wai_order_of_nat(1)[OF close(1)] wai_order_of_nat(1)[OF close(2)]
        stdmap_erase_def)
qed (simp add: stdmap_erase_def)

text \<open>A lookup never returns another key, whatever the keys are: two different numbers compare as less
  in at least one direction.\<close>

lemma wai_lt_total:
  fixes x y :: "'k::len word"
  shows "\<not> wai_lt x y \<Longrightarrow> \<not> wai_lt y x \<Longrightarrow> x = y"
proof -
  assume "\<not> wai_lt x y" "\<not> wai_lt y x"
  then have ge: "0 \<le> sint (x - y)" "0 \<le> sint (y - x)" by (auto simp: wai_lt_def wai_cmp_def)
  have "y - x = - (x - y)" by simp
  then have "sint (y - x) = signed_take_bit (LENGTH('k) - 1) (- sint (x - y))"
    by (metis sint_word_ariths(4))
  moreover have "sint (x - y) < 2 ^ (LENGTH('k) - 1)" by (metis One_nat_def sint_lt)
  ultimately have "sint (y - x) = - sint (x - y)"
    using ge(1) by (simp add: signed_take_bit_int_eq_self)
  then have "sint (x - y) = 0" using ge by simp
  then show "x = y" using wai_eq_iff[of x y] unfolding wai_eq_def wai_cmp_def by blast
qed

lemma wmap_find_SomeD: "wmap_find k m = Some v \<Longrightarrow> (k, v) \<in> set m"
  by (induction k m rule: wmap_find.induct) (auto split: if_splits dest: wai_lt_total)

text \<open>C36. Wrap around integers compare as the numbers they stand for, as long as these differ by less
  than half of the space: every comparison operator, and the successor and difference follow.\<close>
theorem wai_compares_numbers:
  assumes "wai_close TYPE('k::len) i j"
  shows "let x = (of_nat i :: 'k word); y = of_nat j in
    (wai_eq x y \<longleftrightarrow> i = j) \<and> (wai_lt x y \<longleftrightarrow> i < j) \<and> (wai_le x y \<longleftrightarrow> i \<le> j) \<and>
    (wai_gt x y \<longleftrightarrow> j < i) \<and> (wai_ge x y \<longleftrightarrow> j \<le> i) \<and>
    wai_incr x = of_nat (Suc i) \<and> (j \<le> i \<longrightarrow> wai_sub x y = of_nat (i - j))"
  using wai_cmp_of_nat[OF assms]
  by (auto simp: Let_def wai_eq_def wai_lt_def wai_le_def wai_gt_def wai_ge_def wai_incr_def wai_add_def)

theorem wai_compares_numbers_witness:
  "wai_close TYPE(32) (2 ^ 32 + 5) (2 ^ 32 - 1) \<and>
   wai_gt (of_nat (2 ^ 32 + 5) :: 32 word) (of_nat (2 ^ 32 - 1))"
proof -
  have close: "wai_close TYPE(32) (2 ^ 32 + 5) (2 ^ 32 - 1)" by (simp add: wai_close_def)
  have "(2 ^ 32 - 1 :: nat) < 2 ^ 32 + 5" by simp
  then show ?thesis using wai_compares_numbers[OF close] close unfolding Let_def by blast
qed

end
