(* ===== verification/Slidwin.thy ===== *)
theory Slidwin
  imports Wai
begin

text \<open>
  The sliding window \<open>slidwin_t<T_ELEM, T_INDEX>\<close> of \<open>neoip_slidwin.hpp\<close>: a rotating buffer that
  holds a value for each of \<open>win_size\<close> consecutive indices and moves forward when a later index
  is set.  The program instantiates \<open>T_INDEX\<close> by \<open>uint32_t\<close> and by \<open>wai32_t\<close>; both are a 32 bit
  word with the same arithmetic and differ in their comparison operators only, so that the
  operations take the three-way comparison of the index type as an argument.

  The locale \<open>slidwin_index\<close> states what the window needs of the comparison, and proves the
  behaviour of the window once.  It is interpreted for both index types.
\<close>

subsection \<open>State and operations\<close>

record 'e slidwin_t =
  index_begin :: "32 word"
  dfl_value :: 'e
  win_size :: nat
  win_offset :: "32 word"
  window :: "'e list"

definition uint32_cmp :: "32 word \<Rightarrow> 32 word \<Rightarrow> int" where
  "uint32_cmp x y = cmp3 x y"

definition slid_fill :: "'e \<Rightarrow> 'e slidwin_t \<Rightarrow> 'e slidwin_t" where
  "slid_fill v w = w\<lparr>window := for_range (win_size w) (\<lambda>i xs. xs[i := v]) (window w)\<rparr>"

definition slidwin_ctor :: "nat \<Rightarrow> 'e \<Rightarrow> 32 word \<Rightarrow> (nat \<Rightarrow> 'e) \<Rightarrow> 'e slidwin_t" where
  "slidwin_ctor n d b init =
     slid_fill d \<lparr>index_begin = b, dfl_value = d, win_size = n, win_offset = 0,
                  window = map init [0..<n]\<rparr>"

definition get_index_first :: "'e slidwin_t \<Rightarrow> 32 word" where
  "get_index_first w = index_begin w"

definition get_index_last :: "'e slidwin_t \<Rightarrow> 32 word" where
  "get_index_last w = index_begin w + of_nat (size_sub (win_size w) 1)"

definition cpu_idx :: "'e slidwin_t \<Rightarrow> 32 word \<Rightarrow> nat" where
  "cpu_idx w i = unat (win_offset w + (i - index_begin w)) mod win_size w"

definition slid_exist :: "(32 word \<Rightarrow> 32 word \<Rightarrow> int) \<Rightarrow> 32 word \<Rightarrow> 'e slidwin_t \<Rightarrow> bool" where
  "slid_exist cmp i w =
     (if cmp i (get_index_first w) < 0 then False
      else if cmp i (get_index_last w) > 0 then False
      else True)"

text \<open>An empty window has no cell to read or write: the access is out of bounds (the code divides
  by the size 0).\<close>

definition slid_get :: "(32 word \<Rightarrow> 32 word \<Rightarrow> int) \<Rightarrow> 32 word \<Rightarrow> 'e slidwin_t \<Rightarrow> 'e res" where
  "slid_get cmp i w =
     dbg_assert (slid_exist cmp i w)
       (if cpu_idx w i < length (window w) then Inr (window w ! cpu_idx w i)
        else Inl Out_of_bounds)"

text \<open>\<open>for(T_INDEX i = i0; cond(i); i++) body(i)\<close>; \<open>None\<close> when the loop does not end.\<close>

partial_function (option) idx_loop ::
  "(32 word \<Rightarrow> bool) \<Rightarrow> (32 word \<Rightarrow> 's \<Rightarrow> 's) \<Rightarrow> 32 word \<Rightarrow> 's \<Rightarrow> 's option" where
  "idx_loop cond body i s = (if cond i then idx_loop cond body (i + 1) (body i s) else Some s)"

definition slide_if_needed ::
  "(32 word \<Rightarrow> 32 word \<Rightarrow> int) \<Rightarrow> 32 word \<Rightarrow> 'e slidwin_t \<Rightarrow> 'e slidwin_t res" where
  "slide_if_needed cmp dst w =
     dbg_assert (cmp dst (index_begin w) \<ge> 0)
       (if cmp dst (get_index_last w) \<le> 0 then Inr w
        else
          let new_index_begin = dst - of_nat (size_sub (win_size w) 1);
              slide_len = dst - get_index_last w
          in if cmp slide_len (of_nat (win_size w)) \<ge> 0 then
               (case idx_loop (\<lambda>i. cmp i (get_index_last w) \<le> 0) (\<lambda>i u. u) (index_begin w) () of
                  None \<Rightarrow> Inl Diverges
                | Some u \<Rightarrow> Inr (slid_fill (dfl_value w) (w\<lparr>index_begin := new_index_begin\<rparr>)))
             else
               (case idx_loop (\<lambda>i. cmp i new_index_begin < 0)
                       (\<lambda>i xs. xs[cpu_idx w i := dfl_value w]) (index_begin w) (window w) of
                  None \<Rightarrow> Inl Diverges
                | Some xs \<Rightarrow>
                    Inr (w\<lparr>window := xs,
                           win_offset := of_nat (unat (win_offset w + slide_len) mod win_size w),
                           index_begin := new_index_begin\<rparr>)))"

definition slid_set ::
  "(32 word \<Rightarrow> 32 word \<Rightarrow> int) \<Rightarrow> 32 word \<Rightarrow> 'e \<Rightarrow> 'e slidwin_t \<Rightarrow> 'e slidwin_t res" where
  "slid_set cmp i v w =
     res_bind (slide_if_needed cmp i w) (\<lambda>w.
       dbg_assert (slid_exist cmp i w)
         (if cpu_idx w i < length (window w) then Inr (w\<lparr>window := (window w)[cpu_idx w i := v]\<rparr>)
          else Inl Out_of_bounds))"

definition slid_get_default ::
  "(32 word \<Rightarrow> 32 word \<Rightarrow> int) \<Rightarrow> 32 word \<Rightarrow> 'e \<Rightarrow> 'e slidwin_t \<Rightarrow> 'e res" where
  "slid_get_default cmp i d w = (if slid_exist cmp i w = False then Inr d else slid_get cmp i w)"

subsection \<open>Rotating cells\<close>

definition slidwin_ok :: "'e slidwin_t \<Rightarrow> bool" where
  "slidwin_ok w = (0 < win_size w \<and> win_size w < 2 ^ 31 \<and> length (window w) = win_size w \<and>
                   unat (win_offset w) < win_size w)"

lemma unat_of_nat_win: "n < 2 ^ 32 \<Longrightarrow> unat (of_nat n :: 32 word) = n"
  by (simp add: unat_of_nat take_bit_nat_eq_self)

lemma get_index_last_eq:
  "slidwin_ok w \<Longrightarrow> get_index_last w = index_begin w + of_nat (win_size w - 1)"
  by (simp add: get_index_last_def slidwin_ok_def)

lemma wai_dist_plus: "d < 2 ^ 32 \<Longrightarrow> wai_dist b (b + of_nat d :: 32 word) = d"
  by (simp add: wai_dist_def unat_of_nat_win)

lemma wai_dist_decomp: "b + of_nat (wai_dist b i) = (i :: 32 word)"
  by (simp add: wai_dist_def)

lemma cpu_idx_eq:
  assumes "slidwin_ok w" "wai_dist (index_begin w) i < win_size w"
  shows "cpu_idx w i = (unat (win_offset w) + wai_dist (index_begin w) i) mod win_size w"
proof -
  have "unat (win_offset w) + wai_dist (index_begin w) i < 2 ^ 32"
    using assms by (simp add: slidwin_ok_def)
  then have "unat (win_offset w + (i - index_begin w)) =
               unat (win_offset w) + wai_dist (index_begin w) i"
    by (simp add: wai_dist_def unat_word_ariths(1))
  then show ?thesis by (simp add: cpu_idx_def)
qed

lemma cell_inj:
  assumes "j < n" "k < n" "(a + j) mod n = (a + k) mod (n :: nat)"
  shows "j = k"
proof -
  obtain p q where "a + j + n * p = a + k + n * q"
    using assms(3) by (auto simp: nat_mod_eq_iff)
  then have "(j + n * p) mod n = (k + n * q) mod n" by simp
  then show ?thesis using assms(1,2) by simp
qed

lemma idx_loop_run:
  assumes "\<And>k. k < n \<Longrightarrow> cond (b + of_nat k)" "\<not> cond (b + of_nat n)"
  shows "idx_loop cond body b s = Some (fold (\<lambda>k. body (b + of_nat k)) [0..<n] s)"
proof -
  have "idx_loop cond body (b + of_nat m) t = Some (fold (\<lambda>k. body (b + of_nat k)) [m..<n] t)"
    if "m \<le> n" for m t
    using that
  proof (induction "n - m" arbitrary: m t)
    case 0
    then show ?case using assms(2) by (simp add: idx_loop.simps[of cond body])
  next
    case (Suc d)
    then have "idx_loop cond body (b + of_nat (Suc m)) (body (b + of_nat m) t) =
                 Some (fold (\<lambda>k. body (b + of_nat k)) [Suc m..<n] (body (b + of_nat m) t))"
      by (intro Suc(1)) simp_all
    moreover have "m < n" using Suc by simp
    moreover have "b + of_nat m + 1 = b + of_nat (Suc m)" by simp
    ultimately show ?case
      using assms(1)[of m]
      by (simp only: idx_loop.simps[of cond body "b + of_nat m"] upt_rec[of m] fold_simps if_True)
  qed
  from this[of 0] show ?thesis by simp
qed

lemma fold_update_cells:
  assumes "\<And>k. k < s \<Longrightarrow> f k < length xs"
  shows "fold (\<lambda>k xs. xs[f k := v]) [0..<s] xs =
           map (\<lambda>c. if c \<in> f ` {..<s} then v else xs ! c) [0..<length xs]"
  using assms
proof (induction s)
  case 0
  then show ?case by (simp add: map_nth)
next
  case (Suc s)
  then show ?case by (auto simp: nth_list_update lessThan_Suc intro!: nth_equalityI)
qed

lemma slid_fill_eq:
  "length (window w) = win_size w \<Longrightarrow> slid_fill v w = w\<lparr>window := replicate (win_size w) v\<rparr>"
  using for_range_update[of "win_size w" "window w" "\<lambda>i. True" "\<lambda>i x. v"]
  by (auto simp: slid_fill_def intro!: nth_equalityI arg_cong[of _ _ "\<lambda>x. w\<lparr>window := x\<rparr>"])

text \<open>Wiping the first \<open>s\<close> cells and rotating by \<open>s\<close> drops \<open>s\<close> values and appends defaults.\<close>

lemma rotate_cells:
  assumes "s < n" "length xs = n" "a < n" "k < n"
    "ys = fold (\<lambda>k xs. xs[(a + k) mod n := v]) [0..<s] xs"
  shows "ys ! (((a + s) mod n + k) mod n) = (if k + s < n then xs ! ((a + (k + s)) mod n) else v)"
proof -
  let ?c = "((a + s) mod n + k) mod n"
  have c: "?c = (a + (k + s)) mod n" by (metis mod_add_left_eq add.assoc add.commute)
  have cn: "?c < n" using assms(1) by simp
  have ys: "ys ! ?c = (if ?c \<in> (\<lambda>k. (a + k) mod n) ` {..<s} then v else xs ! ?c)"
    using fold_update_cells[of s "\<lambda>k. (a + k) mod n" xs v] assms cn by simp
  show ?thesis
  proof (cases "k + s < n")
    case True
    have "?c \<noteq> (a + j) mod n" if "j < s" for j
      using cell_inj[of j n "k + s" a] True that c by auto
    then show ?thesis using True ys c by auto
  next
    case False
    have "?c = (a + (k + s - n)) mod n"
      using False c by (metis add_diff_inverse_nat add.assoc add.commute mod_add_self1)
    moreover have "k + s - n < s" using assms(1,4) False by simp
    ultimately have "?c \<in> (\<lambda>k. (a + k) mod n) ` {..<s}" by blast
    then show ?thesis using False ys by simp
  qed
qed

subsection \<open>What the window needs of the index type\<close>

text \<open>\<open>ahead b x\<close>: \<open>x\<close> is not before \<open>b\<close> and comparable with it.  Between indices ahead of \<open>b\<close> the
  comparison is that of the distances from \<open>b\<close>.\<close>

locale slidwin_index =
  fixes cmp :: "32 word \<Rightarrow> 32 word \<Rightarrow> int"
    and ahead :: "32 word \<Rightarrow> 32 word \<Rightarrow> bool"
  assumes ahead_refl: "ahead b b"
    and ahead_cmp: "ahead b x \<Longrightarrow> ahead b y \<Longrightarrow>
          sgn (cmp x y) = sgn (int (wai_dist b x) - int (wai_dist b y))"
    and ahead_down: "ahead b x \<Longrightarrow> d \<le> wai_dist b x \<Longrightarrow> ahead b (b + of_nat d)"
    and ahead_shift: "ahead b x \<Longrightarrow> d \<le> wai_dist b x \<Longrightarrow> ahead (b + of_nat d) x"
    and ahead_zero: "ahead b x \<Longrightarrow> ahead 0 (x - b)"
begin

lemma ahead_order:
  assumes "ahead b x" "ahead b y"
  shows "cmp x y < 0 \<longleftrightarrow> wai_dist b x < wai_dist b y"
    and "cmp x y \<le> 0 \<longleftrightarrow> wai_dist b x \<le> wai_dist b y"
    and "cmp x y > 0 \<longleftrightarrow> wai_dist b y < wai_dist b x"
    and "cmp x y \<ge> 0 \<longleftrightarrow> wai_dist b y \<le> wai_dist b x"
proof -
  have "cmp x y < 0 \<longleftrightarrow> int (wai_dist b x) - int (wai_dist b y) < 0"
    by (metis ahead_cmp[OF assms] sgn_less)
  moreover have "cmp x y > 0 \<longleftrightarrow> int (wai_dist b x) - int (wai_dist b y) > 0"
    by (metis ahead_cmp[OF assms] sgn_greater)
  ultimately show "cmp x y < 0 \<longleftrightarrow> wai_dist b x < wai_dist b y"
    and "cmp x y \<le> 0 \<longleftrightarrow> wai_dist b x \<le> wai_dist b y"
    and "cmp x y > 0 \<longleftrightarrow> wai_dist b y < wai_dist b x"
    and "cmp x y \<ge> 0 \<longleftrightarrow> wai_dist b y \<le> wai_dist b x"
    by linarith+
qed

definition window_ok :: "'e slidwin_t \<Rightarrow> bool" where
  "window_ok w = (slidwin_ok w \<and> ahead (index_begin w) (get_index_last w))"

lemma last_dist: "slidwin_ok w \<Longrightarrow> wai_dist (index_begin w) (get_index_last w) = win_size w - 1"
  unfolding get_index_last_eq by (rule wai_dist_plus) (auto simp: slidwin_ok_def)

lemma exist_iff:
  assumes "window_ok w" "ahead (index_begin w) i"
  shows "slid_exist cmp i w \<longleftrightarrow> wai_dist (index_begin w) i < win_size w"
proof -
  have "cmp i (index_begin w) \<ge> 0" using ahead_order(4)[OF assms(2) ahead_refl] by simp
  moreover have "cmp i (get_index_last w) > 0 \<longleftrightarrow> win_size w - 1 < wai_dist (index_begin w) i"
    using ahead_order(3)[OF assms(2), of "get_index_last w"] assms(1) last_dist[of w]
    by (simp add: window_ok_def)
  ultimately show ?thesis
    using assms(1) by (auto simp: slid_exist_def get_index_first_def window_ok_def slidwin_ok_def)
qed

lemma get_inside:
  assumes "window_ok w" "wai_dist (index_begin w) i < win_size w"
  shows "slid_get cmp i w =
    Inr (window w ! ((unat (win_offset w) + wai_dist (index_begin w) i) mod win_size w))"
proof -
  have "ahead (index_begin w) i"
    using ahead_down[of "index_begin w" "get_index_last w" "wai_dist (index_begin w) i"]
      last_dist[of w] assms by (simp add: window_ok_def wai_dist_decomp)
  then show ?thesis
    using assms exist_iff[OF assms(1)] cpu_idx_eq[of w i]
    by (simp add: slid_get_def window_ok_def slidwin_ok_def)
qed

lemma slide_inside:
  assumes "window_ok w" "ahead (index_begin w) i" "wai_dist (index_begin w) i < win_size w"
  shows "slide_if_needed cmp i w = Inr w"
proof -
  have "cmp i (index_begin w) \<ge> 0" using ahead_order(4)[OF assms(2) ahead_refl] by simp
  moreover have "cmp i (get_index_last w) \<le> 0"
    using ahead_order(2)[OF assms(2), of "get_index_last w"] assms last_dist[of w]
    by (simp add: window_ok_def)
  ultimately show ?thesis by (simp add: slide_if_needed_def)
qed

text \<open>The facts about an index beyond the window.\<close>

lemma beyond:
  fixes w :: "'e slidwin_t"
  assumes "window_ok w" "ahead (index_begin w) i" "win_size w \<le> wai_dist (index_begin w) i"
  defines "s \<equiv> wai_dist (index_begin w) i - (win_size w - 1)"
  shows "0 < s" "i - of_nat (win_size w - 1) = index_begin w + of_nat s"
    "i - get_index_last w = of_nat s" "s < 2 ^ 32"
    "cmp i (index_begin w) \<ge> 0" "cmp i (get_index_last w) > 0"
    "cmp (of_nat s) (of_nat (win_size w)) \<ge> 0 \<longleftrightarrow> win_size w \<le> s"
    "\<And>k. k \<le> s \<Longrightarrow> ahead (index_begin w) (index_begin w + of_nat k)"
proof -
  let ?b = "index_begin w" and ?n = "win_size w"
  have ok: "slidwin_ok w" "ahead ?b (get_index_last w)" using assms(1) by (auto simp: window_ok_def)
  have n: "0 < ?n" "?n < 2 ^ 31" using ok(1) by (auto simp: slidwin_ok_def)
  show "0 < s" using assms(3) n by (simp add: s_def)
  have D: "wai_dist ?b i < 2 ^ 32" using unsigned_less[of "i - ?b"] by (simp add: wai_dist_def)
  then show s32: "s < 2 ^ 32" unfolding s_def by linarith
  have "i = ?b + of_nat (s + (?n - 1))"
    using wai_dist_decomp[of ?b i] assms(3) unfolding s_def by simp
  then show i: "i - of_nat (?n - 1) = ?b + of_nat s" by simp
  then show len: "i - get_index_last w = of_nat s"
    by (simp add: get_index_last_eq[OF ok(1)] algebra_simps)
  show "cmp i ?b \<ge> 0" using ahead_order(4)[OF assms(2) ahead_refl] by simp
  show "cmp i (get_index_last w) > 0"
    using ahead_order(3)[OF assms(2) ok(2)] last_dist[OF ok(1)] assms(3) n by simp
  have "ahead (get_index_last w) i"
    using ahead_shift[OF assms(2), of "?n - 1"] assms(3) by (simp only: get_index_last_eq[OF ok(1)])
  then have "ahead 0 (of_nat s)" using ahead_zero[of "get_index_last w" i] len by simp
  moreover have "ahead 0 (of_nat ?n)"
    using ahead_zero[OF ahead_down[OF assms(2,3)]] by simp
  moreover have "wai_dist 0 (of_nat s :: 32 word) = s" "wai_dist 0 (of_nat ?n :: 32 word) = ?n"
    using wai_dist_plus[of s 0] wai_dist_plus[of ?n 0] s32 n by simp_all
  ultimately show "cmp (of_nat s) (of_nat ?n) \<ge> 0 \<longleftrightarrow> ?n \<le> s"
    using ahead_order(4)[of 0 "of_nat s" "of_nat ?n"] by simp
  show "ahead ?b (?b + of_nat k)" if "k \<le> s" for k
    using ahead_down[OF assms(2), of k] that unfolding s_def by simp
qed

lemma slide_wiped:
  assumes "window_ok w" "ahead (index_begin w) i" "win_size w \<le> wai_dist (index_begin w) i"
    "s = wai_dist (index_begin w) i - (win_size w - 1)" "win_size w \<le> s"
  shows "slide_if_needed cmp i w =
    Inr (w\<lparr>index_begin := index_begin w + of_nat s, window := replicate (win_size w) (dfl_value w)\<rparr>)"
proof -
  note far = beyond[OF assms(1-3), folded assms(4)]
  let ?b = "index_begin w" and ?n = "win_size w"
  have ok: "slidwin_ok w" "ahead ?b (get_index_last w)" using assms(1) by (auto simp: window_ok_def)
  have n: "0 < ?n" "?n < 2 ^ 31" "length (window w) = ?n" using ok(1) by (auto simp: slidwin_ok_def)
  have le: "cmp (?b + of_nat k) (get_index_last w) \<le> 0 \<longleftrightarrow> k < ?n" if "k \<le> ?n" for k
    using ahead_order(2)[OF far(8) ok(2), of k] that assms(5) last_dist[OF ok(1)] n
      wai_dist_plus[of k ?b] by auto
  have "idx_loop (\<lambda>i. cmp i (get_index_last w) \<le> 0) (\<lambda>i u. u) ?b () = Some ()"
    by (subst idx_loop_run[of ?n]) (use le in auto)
  moreover have "\<not> cmp i (get_index_last w) \<le> 0" using far(6) by simp
  moreover have "size_sub ?n 1 = ?n - 1" using n by simp
  ultimately show ?thesis
    using far(2,3,5,7) assms(5) n
    by (simp del: of_nat_diff add: slide_if_needed_def slid_fill_eq Let_def)
qed

lemma slide_partial:
  assumes "window_ok w" "ahead (index_begin w) i" "win_size w \<le> wai_dist (index_begin w) i"
    "s = wai_dist (index_begin w) i - (win_size w - 1)" "s < win_size w"
  shows "slide_if_needed cmp i w =
    Inr (w\<lparr>window := fold (\<lambda>k xs. xs[(unat (win_offset w) + k) mod win_size w := dfl_value w])
                         [0..<s] (window w),
           win_offset := of_nat ((unat (win_offset w) + s) mod win_size w),
           index_begin := index_begin w + of_nat s\<rparr>)"
proof -
  note far = beyond[OF assms(1-3), folded assms(4)]
  let ?b = "index_begin w" and ?n = "win_size w" and ?o = "unat (win_offset w)"
  have ok: "slidwin_ok w" using assms(1) by (auto simp: window_ok_def)
  have n: "0 < ?n" "?n < 2 ^ 31" "?o < ?n" using ok(1) by (auto simp: slidwin_ok_def)
  have lt: "cmp (?b + of_nat k) (?b + of_nat s) < 0 \<longleftrightarrow> k < s" if "k \<le> s" for k
    using ahead_order(1)[OF far(8) far(8), of k s] that far(4) wai_dist_plus[of _ ?b] by simp
  have "idx_loop (\<lambda>i. cmp i (?b + of_nat s) < 0) (\<lambda>i xs. xs[cpu_idx w i := dfl_value w]) ?b (window w)
      = Some (fold (\<lambda>k xs. xs[cpu_idx w (?b + of_nat k) := dfl_value w]) [0..<s] (window w))"
    by (rule idx_loop_run) (use lt in auto)
  also have "fold (\<lambda>k xs. xs[cpu_idx w (?b + of_nat k) := dfl_value w]) [0..<s] (window w) =
      fold (\<lambda>k xs. xs[(?o + k) mod ?n := dfl_value w]) [0..<s] (window w)"
  proof (rule fold_cong)
    fix k assume "k \<in> set [0..<s]"
    then have "wai_dist ?b (?b + of_nat k) = k" "k < ?n"
      using far(4) assms(5) wai_dist_plus[of k ?b] by auto
    then show "(\<lambda>xs. xs[cpu_idx w (?b + of_nat k) := dfl_value w]) =
               (\<lambda>xs. xs[(?o + k) mod ?n := dfl_value w])"
      using cpu_idx_eq[OF ok, of "?b + of_nat k"] by simp
  qed simp_all
  finally have loop: "idx_loop (\<lambda>i. cmp i (?b + of_nat s) < 0)
      (\<lambda>i xs. xs[cpu_idx w i := dfl_value w]) ?b (window w) =
    Some (fold (\<lambda>k xs. xs[(?o + k) mod ?n := dfl_value w]) [0..<s] (window w))" .
  have "?o + s < 2 ^ 32" using n assms(5) by simp
  then have "unat (win_offset w + of_nat s) = ?o + s"
    using far(4) by (simp add: unat_word_ariths(1) unat_of_nat_win)
  moreover have "\<not> cmp i (get_index_last w) \<le> 0" using far(6) by simp
  moreover have "size_sub ?n 1 = ?n - 1" using n by simp
  ultimately show ?thesis
    using far(2,3,5,7) assms(5) loop
    by (simp del: of_nat_diff add: slide_if_needed_def Let_def)
qed

definition values_at :: "'e slidwin_t \<Rightarrow> nat \<Rightarrow> 'e" where
  "values_at w k = window w ! ((unat (win_offset w) + k) mod win_size w)"

lemma get_values_at:
  "window_ok w \<Longrightarrow> wai_dist (index_begin w) i < win_size w \<Longrightarrow>
   slid_get cmp i w = Inr (values_at w (wai_dist (index_begin w) i))"
  by (simp add: get_inside values_at_def)

text \<open>After sliding, the window begins where the new index is its last one; what stayed inside keeps
  its value and the rest has the default value.\<close>

lemma slide_spec:
  assumes "window_ok w" "ahead (index_begin w) i"
    "s = wai_dist (index_begin w) i - (win_size w - 1)"
  obtains w' where "slide_if_needed cmp i w = Inr w'" "window_ok w'" "win_size w' = win_size w"
    "dfl_value w' = dfl_value w" "index_begin w' = index_begin w + of_nat s"
    "\<And>k. k < win_size w \<Longrightarrow>
       values_at w' k = (if k + s < win_size w then values_at w (k + s) else dfl_value w)"
proof (cases "win_size w \<le> wai_dist (index_begin w) i")
  case False
  then have "s = 0" "slide_if_needed cmp i w = Inr w"
    using assms slide_inside[OF assms(1,2)] by auto
  then show ?thesis using that[of w] assms(1) by simp
next
  case True
  let ?b = "index_begin w" and ?n = "win_size w" and ?o = "unat (win_offset w)"
  have ok: "slidwin_ok w" using assms(1) by (auto simp: window_ok_def)
  have n: "0 < ?n" "?n < 2 ^ 31" "?o < ?n" "length (window w) = ?n"
    using ok(1) by (auto simp: slidwin_ok_def)
  note far = beyond[OF assms(1,2) True, folded assms(3)]
  have moved: "window_ok w'" if "slidwin_ok w'" "win_size w' = ?n" "index_begin w' = ?b + of_nat s"
    for w' :: "'e slidwin_t"
  proof -
    have "ahead (?b + of_nat s) i"
      by (rule ahead_shift[OF assms(2)]) (use assms(3) in simp)
    moreover have "get_index_last w' = i"
      using far(2) that(2,3) by (simp only: get_index_last_eq[OF that(1)] flip: far(2)) simp
    ultimately show ?thesis using that by (simp add: window_ok_def)
  qed
  show ?thesis
  proof (cases "?n \<le> s")
    case wiped: True
    show ?thesis
      by (rule that[OF slide_wiped[OF assms(1,2) True assms(3) wiped] moved])
        (use ok wiped n in \<open>auto simp: slidwin_ok_def values_at_def\<close>)
  next
    case False
    then have s: "s < ?n" by simp
    have len: "length (fold (\<lambda>k xs. xs[f k := v]) ks ys) = length ys"
      for f and v :: 'e and ks :: "nat list" and ys
      by (induction ks arbitrary: ys) simp_all
    have "(?o + s) mod ?n < 2 ^ 32" using n by (simp add: order.strict_trans[OF mod_less_divisor])
    then have off: "unat (of_nat ((?o + s) mod ?n) :: 32 word) = (?o + s) mod ?n"
      by (rule unat_of_nat_win)
    show ?thesis
      by (rule that[OF slide_partial[OF assms(1,2) True assms(3) s] moved])
        (use ok n off in \<open>auto simp: slidwin_ok_def len values_at_def rotate_cells[OF s]\<close>)
  qed
qed

lemma set_spec:
  assumes "window_ok w" "ahead (index_begin w) i"
    "s = wai_dist (index_begin w) i - (win_size w - 1)"
  obtains w' where "slid_set cmp i v w = Inr w'" "window_ok w'" "win_size w' = win_size w"
    "dfl_value w' = dfl_value w" "index_begin w' = index_begin w + of_nat s"
    "\<And>k. k < win_size w \<Longrightarrow>
       values_at w' k =
         (if k + s = wai_dist (index_begin w) i then v
          else if k + s < win_size w then values_at w (k + s) else dfl_value w)"
proof -
  obtain u where u: "slide_if_needed cmp i w = Inr u" "window_ok u" "win_size u = win_size w"
    "dfl_value u = dfl_value w" "index_begin u = index_begin w + of_nat s"
    "\<And>k. k < win_size w \<Longrightarrow>
       values_at u k = (if k + s < win_size w then values_at w (k + s) else dfl_value w)"
    using slide_spec[OF assms] by blast
  let ?n = "win_size w" and ?d = "wai_dist (index_begin w) i" and ?o = "unat (win_offset u)"
  have ok: "slidwin_ok u" using u(2) by (simp add: window_ok_def)
  have n: "0 < ?n" "length (window u) = ?n" using ok u(3) by (auto simp: slidwin_ok_def)
  have sd: "s \<le> ?d" using assms(3) by simp
  have dist: "wai_dist (index_begin u) i = ?d - s" by (simp add: u(5) wai_dist_add[OF sd])
  have lt: "?d - s < ?n" using assms(3) n by simp
  have "ahead (index_begin u) i" unfolding u(5) by (rule ahead_shift[OF assms(2) sd])
  then have ex: "slid_exist cmp i u" using exist_iff[OF u(2)] dist lt u(3) by simp
  have idx: "cpu_idx u i = (?o + (?d - s)) mod ?n" using cpu_idx_eq[OF ok] dist lt u(3) by simp
  let ?w = "u\<lparr>window := (window u)[cpu_idx u i := v]\<rparr>"
  have "slid_set cmp i v w = Inr ?w" using u(1) ex idx n by (simp add: slid_set_def)
  moreover have "window_ok ?w"
  proof -
    have "get_index_last ?w = get_index_last u" by (simp add: get_index_last_def)
    then show ?thesis using u(2) by (simp add: window_ok_def slidwin_ok_def)
  qed
  moreover have "values_at ?w k = (if k + s = ?d then v
      else if k + s < ?n then values_at w (k + s) else dfl_value w)" if "k < ?n" for k
  proof (cases "k = ?d - s")
    case True
    then show ?thesis using idx n u(3) sd by (simp add: values_at_def)
  next
    case False
    then have "(?o + k) mod ?n \<noteq> (?o + (?d - s)) mod ?n" using cell_inj[OF that lt] by blast
    then show ?thesis using False u(3,6) that idx sd by (auto simp: values_at_def)
  qed
  ultimately show ?thesis using that[of ?w] u by simp
qed

lemma ctor_ok:
  assumes "0 < n" "n < 2 ^ 31" "ahead b (b + of_nat (n - 1))"
  shows "window_ok (slidwin_ctor n d b init)" "k < n \<Longrightarrow> values_at (slidwin_ctor n d b init) k = d"
    "index_begin (slidwin_ctor n d b init) = b" "win_size (slidwin_ctor n d b init) = n"
    "dfl_value (slidwin_ctor n d b init) = d"
  using assms
  by (simp_all del: of_nat_diff add: slidwin_ctor_def slid_fill_eq window_ok_def slidwin_ok_def values_at_def
      get_index_last_def)

lemma get_default_ahead:
  assumes "window_ok w" "ahead (index_begin w) i"
  shows "slid_get_default cmp i d w =
    Inr (if wai_dist (index_begin w) i < win_size w
         then values_at w (wai_dist (index_begin w) i) else d)"
  using exist_iff[OF assms] get_values_at[OF assms(1)] by (simp add: slid_get_default_def)

text \<open>An index before the window is refused by the assertion of \<open>set\<close>.\<close>

lemma set_before: "cmp i (index_begin w) < 0 \<Longrightarrow> slid_set cmp i v w = Inl Assert_failed"
  by (simp add: slid_set_def slide_if_needed_def)

end

subsection \<open>The two index types\<close>

interpretation u32: slidwin_index uint32_cmp "\<lambda>b x. b \<le> x"
proof
  have dist: "wai_dist b x = unat x - unat b" if "b \<le> x" for b x :: "32 word"
    using that by (simp add: wai_dist_def unat_sub)
  show "sgn (uint32_cmp x y) = sgn (int (wai_dist b x) - int (wai_dist b y))"
    if "b \<le> x" "b \<le> y" for b x y
  proof -
    have le: "unat b \<le> unat x" "unat b \<le> unat y" using that by (simp_all add: word_le_nat_alt)
    show ?thesis
      by (rule linorder_cases[of x y])
        (use le in \<open>auto simp: dist[OF that(1)] dist[OF that(2)] uint32_cmp_def cmp3_def
          sgn_if dest: word_less_alt[THEN iffD1]\<close>)
  qed
  have room: "unat b + d < 2 ^ 32" "d < 2 ^ 32" "unat b + d \<le> unat x"
    if "b \<le> x" "d \<le> wai_dist b x" for b x :: "32 word" and d
  proof -
    have "d \<le> unat x - unat b" "unat b \<le> unat x"
      using that dist by (simp_all add: word_le_nat_alt)
    moreover have "unat x < 2 ^ 32" using unsigned_less[of x] by simp
    ultimately show "unat b + d < 2 ^ 32" "d < 2 ^ 32" "unat b + d \<le> unat x" by linarith+
  qed
  show "b \<le> b + of_nat d" "b + of_nat d \<le> x"
    if "b \<le> x" "d \<le> wai_dist b x" for b x :: "32 word" and d
    using room[OF that] by (simp_all add: word_le_nat_alt unat_word_ariths(1) unat_of_nat_win)
qed simp_all

interpretation w32: slidwin_index wai_cmp wai_near
proof
  show "sgn (wai_cmp x y) = sgn (int (wai_dist b x) - int (wai_dist b y))"
    if "wai_near b x" "wai_near b y" for b x y :: "32 word"
    using wai_cmp_near[OF that] by simp
  show "wai_near b (b + of_nat d)" if "wai_near b x" "d \<le> wai_dist b x" for b x :: "32 word" and d
    using that wai_dist_plus[of d b] by (simp add: wai_near_def)
  show "wai_near (b + of_nat d) x" if "wai_near b x" "d \<le> wai_dist b x" for b x :: "32 word" and d
    using that by (simp add: wai_near_def wai_dist_add)
  show "wai_near 0 (x - b)" if "wai_near b x" for b x :: "32 word"
    using that by (simp add: wai_near_def wai_dist_def)
qed simp_all

subsection \<open>The window as a function of the index\<close>

text \<open>\<open>slid_view w i\<close> is the value that the window holds for index \<open>i\<close>, the default value for an
  index outside of it.\<close>

definition slid_view :: "'e slidwin_t \<Rightarrow> 32 word \<Rightarrow> 'e" where
  "slid_view w i =
     (if wai_dist (index_begin w) i < win_size w then window w ! cpu_idx w i else dfl_value w)"

lemma slid_view_inside:
  "slidwin_ok w \<Longrightarrow> wai_dist (index_begin w) i < win_size w \<Longrightarrow>
   slid_view w i = w32.values_at w (wai_dist (index_begin w) i)"
  by (simp add: slid_view_def w32.values_at_def cpu_idx_eq)

text \<open>A sliding window indexed by wrap around integers: setting an index that is at most half of
  the space ahead of the begin succeeds; the window then ends at that index if it ended before it;
  the new value is read back, every other index still inside keeps its value, and indices that came
  into the window read as the default value.\<close>
lemma slidwin_set_get:
  assumes "slidwin_ok w" "wai_near (index_begin w) i"
  shows "\<exists>w'. slid_set wai_cmp i v w = Inr w' \<and> slidwin_ok w' \<and> win_size w' = win_size w \<and>
           get_index_last w' =
             (if wai_dist (index_begin w) i < win_size w then get_index_last w else i) \<and>
           slid_get wai_cmp i w' = Inr v \<and>
           (\<forall>j. j \<noteq> i \<longrightarrow> wai_dist (index_begin w') j < win_size w \<longrightarrow>
                slid_get wai_cmp j w' = Inr (slid_view w j))"
proof -
  let ?n = "win_size w" and ?b = "index_begin w"
  define d s where "d = wai_dist ?b i" and "s = d - (?n - 1)"
  have n: "0 < ?n" "?n < 2 ^ 31" using assms(1) by (auto simp: slidwin_ok_def)
  have wok: "w32.window_ok w"
    using assms(1) n w32.last_dist[OF assms(1)] by (simp add: w32.window_ok_def wai_near_def)
  obtain w' where w': "slid_set wai_cmp i v w = Inr w'" "w32.window_ok w'" "win_size w' = ?n"
    "dfl_value w' = dfl_value w" "index_begin w' = ?b + of_nat s"
    "\<And>k. k < ?n \<Longrightarrow> w32.values_at w' k =
       (if k + s = d then v else if k + s < ?n then w32.values_at w (k + s) else dfl_value w)"
    using w32.set_spec[OF wok assms(2), of s v] unfolding d_def s_def by blast
  have ok': "slidwin_ok w'" using w'(2) by (simp add: w32.window_ok_def)
  have sd: "s \<le> d" by (simp add: s_def)
  have D: "wai_dist (index_begin w') i = d - s"
    unfolding w'(5) d_def by (rule wai_dist_add) (use sd in \<open>simp add: d_def\<close>)
  have "d - s < ?n" using n by (simp add: s_def)
  then have 1: "slid_get wai_cmp i w' = Inr v"
    using w32.get_values_at[OF w'(2), of i] w'(3,6) D sd by simp
  have 2: "slid_get wai_cmp j w' = Inr (slid_view w j)"
    if j: "j \<noteq> i" "wai_dist (index_begin w') j < ?n" for j
  proof -
    let ?k = "wai_dist (index_begin w') j"
    have s31: "s < 2 ^ 31" using assms(2) sd unfolding d_def wai_near_def by simp
    then have "?k + s < 2 ^ 32" using j(2) n by simp
    moreover have "j = ?b + of_nat (?k + s)"
      using wai_dist_decomp[of "index_begin w'" j] unfolding w'(5) by (simp add: ac_simps)
    ultimately have dj: "wai_dist ?b j = ?k + s" by (metis wai_dist_plus)
    then have "?k + s \<noteq> d" using j(1) by (metis d_def wai_dist_eq_iff)
    then show ?thesis
      using w32.get_values_at[OF w'(2), of j] w'(3,6) j(2) dj slid_view_inside[OF assms(1), of j]
      by (auto simp: slid_view_def)
  qed
  have 3: "get_index_last w' = (if d < ?n then get_index_last w else i)"
  proof (cases "d < ?n")
    case True
    then show ?thesis using w'(3,5) by (simp add: s_def get_index_last_def)
  next
    case False
    have "get_index_last w' = ?b + of_nat (s + (?n - 1))"
      by (simp only: get_index_last_eq[OF ok'] w'(3,5) of_nat_add ac_simps)
    then show ?thesis using False n wai_dist_decomp[of ?b i] by (simp add: s_def d_def)
  qed
  show ?thesis using w'(1,3) ok' 1 2 3 unfolding d_def by blast
qed

end
