(* ===== verification/Skey.thy ===== *)
theory Skey
  imports SerialCodec
begin

text \<open>
  Symmetric keys: the padding, initialisation vectors, enciphering and deciphering of
  \<open>skey_ciph_t\<close> (\<open>neoip_skey_ciph.cpp\<close>, \<open>neoip_skey_ciph_iv.cpp\<close>) and the output of
  \<open>skey_auth_t\<close> (\<open>neoip_skey_auth.cpp\<close>), once the key is set.  The ciphers and digests are those
  of libgcrypt: the record \<open>gcrypt_t\<close> holds the functions that the code calls, under the key that
  was set, and \<open>gcrypt_laws\<close> states what its documentation promises.
\<close>

subsection \<open>Parameters: libgcrypt\<close>

text \<open>\<open>gcry_encrypt iv x\<close> is \<open>gcry_cipher_encrypt\<close> after the vector or counter \<open>iv\<close> was set, \<open>None\<close> for an
  error code; \<open>gcry_ecb_encrypt\<close> is the same with the second handle that \<open>skey_ciph_iv_t\<close> opens in ECB
  mode.  In the mode \<open>STREAM\<close> the handle also keeps its position in the key stream from one call to the
  next, which these functions do not show: no law is stated for that mode.\<close>

record gcrypt_t =
  gcry_block_len :: nat
  gcry_encrypt :: "bytes \<Rightarrow> bytes \<Rightarrow> bytes option"
  gcry_decrypt :: "bytes \<Rightarrow> bytes \<Rightarrow> bytes option"
  gcry_ecb_encrypt :: "bytes \<Rightarrow> bytes option"
  gcry_md :: "bytes \<Rightarrow> bytes"

subsection \<open>State and operations\<close>

datatype skey_ciph_mode_t = ECB | CTR | CBC | STREAM

record skey_t =
  ciph_mode :: skey_ciph_mode_t
  auth_output_len :: nat
  gcry :: gcrypt_t

definition require_padding :: "skey_t \<Rightarrow> bool" where
  "require_padding k = (case ciph_mode k of CTR \<Rightarrow> False | STREAM \<Rightarrow> False | ECB \<Rightarrow> True | CBC \<Rightarrow> True)"

definition require_iv :: "skey_t \<Rightarrow> bool" where
  "require_iv k = (case ciph_mode k of ECB \<Rightarrow> False | STREAM \<Rightarrow> False | CTR \<Rightarrow> True | CBC \<Rightarrow> True)"

definition get_block_len :: "skey_t \<Rightarrow> nat" where
  "get_block_len k = gcry_block_len (gcry k)"

text \<open>What the documentation of libgcrypt promises.  The block length is between 1 and 254.  In the modes
  ECB and CBC the length must be a multiple of the block length and any other length is an error; the
  vector or counter has the block length.  On valid arguments encryption succeeds, keeps the length, and
  decryption under the same vector undoes it.  The digest has at least the output length.\<close>

definition gcry_len_ok :: "skey_t \<Rightarrow> nat \<Rightarrow> bool" where
  "gcry_len_ok k n = (case ciph_mode k of ECB \<Rightarrow> get_block_len k dvd n | CBC \<Rightarrow> get_block_len k dvd n
     | CTR \<Rightarrow> True | STREAM \<Rightarrow> True)"

definition iv_len_ok :: "skey_t \<Rightarrow> bytes \<Rightarrow> bool" where
  "iv_len_ok k iv = (require_iv k \<longrightarrow> length iv = get_block_len k)"

definition gcrypt_laws :: "skey_t \<Rightarrow> bool" where
  "gcrypt_laws k \<longleftrightarrow>
     0 < get_block_len k \<and> get_block_len k < 255 \<and>
     (ciph_mode k \<noteq> STREAM \<longrightarrow>
        (\<forall>iv x. iv_len_ok k iv \<longrightarrow>
           (if gcry_len_ok k (length x)
            then \<exists>c. gcry_encrypt (gcry k) iv x = Some c \<and> length c = length x \<and>
                   gcry_decrypt (gcry k) iv c = Some x
            else gcry_encrypt (gcry k) iv x = None \<and> gcry_decrypt (gcry k) iv x = None))) \<and>
     (require_iv k \<longrightarrow> (\<forall>x. length x = get_block_len k \<longrightarrow>
        (\<exists>c. gcry_ecb_encrypt (gcry k) x = Some c \<and> length c = length x))) \<and>
     (\<forall>x. auth_output_len k \<le> length (gcry_md (gcry k) x))"

definition padding_cpu_len :: "skey_t \<Rightarrow> nat \<Rightarrow> nat res" where
  "padding_cpu_len k plaintxt_len =
     (if require_padding k = False then Inr 0
      else let padding_len = get_block_len k - plaintxt_len mod get_block_len k
           in dbg_assert (padding_len < 255) (Inr padding_len))"

definition padding_build :: "skey_t \<Rightarrow> nat \<Rightarrow> bytes \<Rightarrow> bytes res" where
  "padding_build k src_len dst =
     res_bind (padding_cpu_len k src_len) (\<lambda>padding_len.
       if require_padding k = False then Inr dst
       else for_each_res [src_len..<src_len + padding_len]
              (\<lambda>i d. if i < length d then Inr (d[i := of_nat padding_len]) else Inl Out_of_bounds) dst)"

definition padding_parse :: "skey_t \<Rightarrow> bytes \<Rightarrow> int res" where
  "padding_parse k src =
     (if require_padding k = False then Inr 0
      else dbg_assert (0 < length src)
        (let padding_len = unat (src ! (length src - 1)) in
         if length src < padding_len then Inr (-1)
         else if list_all (\<lambda>i. src ! (length src - 1 - i) = of_nat padding_len) [1..<padding_len]
         then Inr (int padding_len) else Inr (-1)))"

definition get_ciphertxt_len :: "skey_t \<Rightarrow> nat \<Rightarrow> nat res" where
  "get_ciphertxt_len k plaintxt_len =
     res_bind (padding_cpu_len k plaintxt_len) (\<lambda>p. Inr (plaintxt_len + p))"

definition set_iv_data :: "skey_t \<Rightarrow> bytes \<Rightarrow> bytes res" where
  "set_iv_data k src =
     (if require_iv k = False then Inr []
      else dbg_assert (length src \<le> get_block_len k)
        (if length src = get_block_len k then Inr src
         else (case gcry_ecb_encrypt (gcry k) (blit 0 src (replicate (get_block_len k) 0)) of
                 None \<Rightarrow> Inl Assert_failed
               | Some iv \<Rightarrow> Inr iv)))"

text \<open>\<open>set_iv\<close> gives libgcrypt the bytes at the vector, as many as the block length.\<close>

definition set_iv :: "skey_t \<Rightarrow> bytes \<Rightarrow> bytes res" where
  "set_iv k iv =
     (if require_iv k = False then Inr []
      else if length iv < get_block_len k then Inl Out_of_bounds
      else Inr (take (get_block_len k) iv))"

definition encipher :: "skey_t \<Rightarrow> bytes \<Rightarrow> bytes \<Rightarrow> bytes \<Rightarrow> bytes res" where
  "encipher k iv src dst =
     res_bind (get_ciphertxt_len k (length src)) (\<lambda>ciphertxt_len.
       dbg_assert (length dst = ciphertxt_len)
         (dbg_assert (length dst \<ge> length src)
           (res_bind (padding_build k (length src) (blit 0 src dst)) (\<lambda>dst.
            res_bind (set_iv k iv) (\<lambda>iv.
              case gcry_encrypt (gcry k) iv dst of None \<Rightarrow> Inl Assert_failed | Some c \<Rightarrow> Inr c)))))"

text \<open>\<open>decipher\<close> returns the length of the plain text as a signed size, and leaves the plain text with
  its padding in the destination.\<close>

definition decipher :: "skey_t \<Rightarrow> bytes \<Rightarrow> bytes \<Rightarrow> bytes \<Rightarrow> (int \<times> bytes) res" where
  "decipher k iv src dst =
     dbg_assert (length dst \<ge> length src)
       (res_bind (set_iv k iv) (\<lambda>iv.
          case gcry_decrypt (gcry k) iv src of
            None \<Rightarrow> Inr (-1, blit 0 src dst)
          | Some plain \<Rightarrow>
              res_bind (padding_parse k plain) (\<lambda>padding_len.
                if padding_len = -1 then Inr (-1, blit 0 plain dst)
                else Inr (int (length src) - padding_len, blit 0 plain dst))))"

definition auth_output :: "skey_t \<Rightarrow> bytes \<Rightarrow> bytes res" where
  "auth_output k data =
     (let md = gcry_md (gcry k) data in
      if auth_output_len k \<le> length md then Inr (take (auth_output_len k) md) else Inl Out_of_bounds)"

subsection \<open>Padding\<close>

definition pkcs5 :: "skey_t \<Rightarrow> bytes \<Rightarrow> bytes" where
  "pkcs5 k src =
     (if require_padding k
      then (let p = get_block_len k - length src mod get_block_len k in src @ replicate p (of_nat p))
      else src)"

lemma padding_cpu_len_ok:
  assumes "gcrypt_laws k"
  shows "padding_cpu_len k len = Inr (length (pkcs5 k (replicate len 0)) - len)"
    and "get_ciphertxt_len k (length src) = Inr (length (pkcs5 k src))"
proof -
  have "get_block_len k - x < 255" for x
    using assms by (simp add: gcrypt_laws_def less_imp_diff_less)
  then show "padding_cpu_len k len = Inr (length (pkcs5 k (replicate len 0)) - len)"
    "get_ciphertxt_len k (length src) = Inr (length (pkcs5 k src))"
    by (simp_all add: padding_cpu_len_def get_ciphertxt_len_def pkcs5_def Let_def)
qed

lemma fill_cells:
  "n + p \<le> length d \<Longrightarrow>
   for_each_res [n..<n + p] (\<lambda>i d. if i < length d then Inr (d[i := v]) else Inl Out_of_bounds) d =
     Inr (take n d @ replicate p v @ drop (n + p) d)"
proof (induction p)
  case (Suc p)
  let ?d = "take n d @ replicate p v @ drop (n + p) d"
  have d: "n + p < length ?d" using Suc.prems by simp
  have "?d[n + p := v] = take n d @ replicate (Suc p) v @ drop (n + Suc p) d"
    using Suc.prems by (simp add: list_update_append replicate_append_same[symmetric] Cons_nth_drop_Suc[symmetric]
        del: replicate_Suc) (simp add: replicate_append_same)
  then show ?case using Suc d by (simp add: for_each_res_append)
qed simp

lemma padding_build_ok:
  assumes "gcrypt_laws k" "length dst = length (pkcs5 k src)"
  shows "padding_build k (length src) (blit 0 src dst) = Inr (pkcs5 k src)"
proof (cases "require_padding k")
  case True
  let ?p = "get_block_len k - length src mod get_block_len k"
  have "padding_cpu_len k (length src) = Inr ?p"
    using padding_cpu_len_ok(1)[OF assms(1), of "length src"] True by (simp add: pkcs5_def Let_def)
  moreover have "length dst = length src + ?p" using assms(2) True by (simp add: pkcs5_def Let_def)
  ultimately show ?thesis
    using fill_cells[of "length src" ?p "blit 0 src dst"] True
    by (simp add: padding_build_def pkcs5_def Let_def blit_def)
next
  case False
  then show ?thesis
    using assms(2) by (simp add: padding_build_def padding_cpu_len_def pkcs5_def blit_def)
qed

lemma padding_parse_ok:
  assumes "gcrypt_laws k"
  shows "padding_parse k (pkcs5 k src) = Inr (int (length (pkcs5 k src)) - int (length src))"
proof (cases "require_padding k")
  case True
  define p where "p = get_block_len k - length src mod get_block_len k"
  have "0 < get_block_len k" "get_block_len k < 255"
    using assms by (auto simp: gcrypt_laws_def)
  then have p: "0 < p" "p < 255" by (simp_all add: p_def less_imp_diff_less)
  have eq: "pkcs5 k src = src @ replicate p (of_nat p)" using True by (simp add: pkcs5_def p_def Let_def)
  have u: "unat (of_nat p :: byte) = p" using p by (simp add: unsigned_of_nat take_bit_eq_mod)
  have nth: "pkcs5 k src ! (length src + p - 1 - i) = of_nat p" if "i < p" for i
    using that p unfolding eq by (auto simp: nth_append)
  show ?thesis
    using p u nth[of 0] nth True eq by (simp add: padding_parse_def Let_def list_all_iff)
qed (simp add: padding_parse_def pkcs5_def)

lemma pkcs5_length:
  assumes "gcrypt_laws k"
  shows "gcry_len_ok k (length (pkcs5 k src))"
    and "require_padding k \<Longrightarrow> length src < length (pkcs5 k src) \<and> get_block_len k dvd length (pkcs5 k src)"
proof -
  let ?b = "get_block_len k"
  have b: "0 < ?b" using assms by (simp add: gcrypt_laws_def)
  have "length src + (?b - length src mod ?b) = ?b * (length src div ?b) + ?b"
    using b mult_div_mod_eq[of ?b "length src"] mod_less_divisor[of ?b "length src"] by linarith
  then have "?b dvd length src + (?b - length src mod ?b)" by simp
  moreover have "length src mod ?b < ?b" using b by simp
  ultimately show *: "require_padding k \<Longrightarrow>
      length src < length (pkcs5 k src) \<and> ?b dvd length (pkcs5 k src)"
    by (simp add: pkcs5_def Let_def)
  show "gcry_len_ok k (length (pkcs5 k src))"
    using * by (auto simp: gcry_len_ok_def require_padding_def split: skey_ciph_mode_t.splits)
qed

text \<open>The cipher text of whole blocks.\<close>

definition cipher_of :: "skey_t \<Rightarrow> bytes \<Rightarrow> bytes \<Rightarrow> bytes" where
  "cipher_of k iv x = the (gcry_encrypt (gcry k) iv x)"

lemma cipher_of_ok:
  assumes "gcrypt_laws k" "ciph_mode k \<noteq> STREAM" "iv_len_ok k iv" "gcry_len_ok k (length x)"
  shows "gcry_encrypt (gcry k) iv x = Some (cipher_of k iv x)" "length (cipher_of k iv x) = length x"
    "gcry_decrypt (gcry k) iv (cipher_of k iv x) = Some x"
proof -
  obtain c where "gcry_encrypt (gcry k) iv x = Some c" "length c = length x"
    "gcry_decrypt (gcry k) iv c = Some x"
    using assms unfolding gcrypt_laws_def by (metis (no_types, lifting))
  then show "gcry_encrypt (gcry k) iv x = Some (cipher_of k iv x)" "length (cipher_of k iv x) = length x"
    "gcry_decrypt (gcry k) iv (cipher_of k iv x) = Some x"
    by (simp_all add: cipher_of_def)
qed

definition iv_used :: "skey_t \<Rightarrow> bytes \<Rightarrow> bytes" where
  "iv_used k iv = (if require_iv k then iv else [])"

lemma set_iv_ok:
  "iv_len_ok k iv \<Longrightarrow> set_iv k iv = Inr (iv_used k iv)"
  "iv_len_ok k iv \<Longrightarrow> iv_len_ok k (iv_used k iv)"
  by (auto simp: set_iv_def iv_len_ok_def iv_used_def)

lemma set_iv_data_len:
  assumes "gcrypt_laws k" "set_iv_data k src = Inr iv"
  shows "iv_len_ok k iv"
proof (cases "require_iv k \<and> length src \<noteq> get_block_len k")
  case True
  then have le: "length src \<le> get_block_len k" using assms(2) by (auto simp: set_iv_data_def dbg_assert_def split: if_splits)
  let ?x = "blit 0 src (replicate (get_block_len k) 0)"
  have "length ?x = get_block_len k" using le by simp
  then obtain c where "gcry_ecb_encrypt (gcry k) ?x = Some c" "length c = get_block_len k"
    using assms(1) True by (auto simp: gcrypt_laws_def)
  then show ?thesis using assms(2) True le by (simp add: set_iv_data_def iv_len_ok_def)
next
  case False
  then show ?thesis
    using assms(2) by (auto simp: set_iv_data_def iv_len_ok_def dbg_assert_def split: if_splits)
qed

lemma encipher_ok:
  assumes "gcrypt_laws k" "ciph_mode k \<noteq> STREAM" "iv_len_ok k iv" "length dst = length (pkcs5 k src)"
  shows "encipher k iv src dst = Inr (cipher_of k (iv_used k iv) (pkcs5 k src))"
  using assms(4) padding_cpu_len_ok(2)[OF assms(1)] padding_build_ok[OF assms(1,4)] set_iv_ok[OF assms(3)]
    cipher_of_ok(1)[OF assms(1,2) set_iv_ok(2)[OF assms(3)] pkcs5_length(1)[OF assms(1)], of src]
  by (simp add: encipher_def pkcs5_def Let_def)

lemma decipher_ok:
  assumes "gcrypt_laws k" "ciph_mode k \<noteq> STREAM" "iv_len_ok k iv"
    "c = cipher_of k (iv_used k iv) (pkcs5 k src)" "length c \<le> length dst"
  shows "decipher k iv c dst = Inr (int (length src), blit 0 (pkcs5 k src) dst)"
proof -
  note c = cipher_of_ok(2,3)[OF assms(1,2) set_iv_ok(2)[OF assms(3)] pkcs5_length(1)[OF assms(1)], of src,
      folded assms(4)]
  have "length src \<le> length (pkcs5 k src)" by (simp add: pkcs5_def Let_def)
  then show ?thesis
    using assms(5) padding_parse_ok[OF assms(1), of src] set_iv_ok(1)[OF assms(3)] c
    by (simp add: decipher_def)
qed

text \<open>A concrete key for the witnesses: the cipher adds 1 to each byte, the digest is constant.\<close>

definition toy_cipher :: "skey_ciph_mode_t \<Rightarrow> byte \<Rightarrow> bytes \<Rightarrow> bytes option" where
  "toy_cipher mode b x =
     (if mode \<in> {ECB, CBC} \<and> length x mod 8 \<noteq> 0 then None else Some (map (\<lambda>c. c + b) x))"

definition toy_skey :: "skey_ciph_mode_t \<Rightarrow> skey_t" where
  "toy_skey mode =
     \<lparr>ciph_mode = mode, auth_output_len = 2,
      gcry = \<lparr>gcry_block_len = 8, gcry_encrypt = (\<lambda>iv. toy_cipher mode 1),
              gcry_decrypt = (\<lambda>iv. toy_cipher mode (-1)), gcry_ecb_encrypt = Some,
              gcry_md = (\<lambda>x. [7, 8, 9])\<rparr>\<rparr>"

lemma toy_skey_laws: "gcrypt_laws (toy_skey mode)"
  by (auto simp: gcrypt_laws_def toy_skey_def get_block_len_def gcry_len_ok_def toy_cipher_def comp_def
      dvd_eq_mod_eq_0 split: skey_ciph_mode_t.splits)

text \<open>C25. What \<open>encipher\<close> writes into a buffer of the announced length, under the vector that
  \<open>set_iv_data\<close> made, \<open>decipher\<close> turns back into the plain text and its length, in the modes ECB, CTR and
  CBC; in the padded modes ECB and CBC the cipher text is a whole number of blocks and longer than the
  plain text.  (In the mode STREAM the handle of libgcrypt has a state and nothing is claimed.)\<close>
theorem cipher_roundtrip:
  assumes "gcrypt_laws k" "ciph_mode k \<noteq> STREAM" "set_iv_data k data = Inr iv"
  shows "\<exists>len c. get_ciphertxt_len k (length src) = Inr len \<and>
           (\<forall>dst. length dst = len \<longrightarrow> encipher k iv src dst = Inr c) \<and> length c = len \<and>
           (\<forall>dst. len \<le> length dst \<longrightarrow>
              (\<exists>out. decipher k iv c dst = Inr (int (length src), out) \<and> take (length src) out = src)) \<and>
           (require_padding k \<longrightarrow> length src < len \<and> get_block_len k dvd len)"
proof -
  let ?c = "cipher_of k (iv_used k iv) (pkcs5 k src)"
  note iv = set_iv_data_len[OF assms(1,3)]
  have len: "length ?c = length (pkcs5 k src)"
    using cipher_of_ok(2)[OF assms(1,2) set_iv_ok(2)[OF iv] pkcs5_length(1)[OF assms(1)]] .
  have "take (length src) (blit 0 (pkcs5 k src) dst) = src" for dst
    by (simp add: blit_def pkcs5_def Let_def)
  then show ?thesis
    using padding_cpu_len_ok(2)[OF assms(1), of src] encipher_ok[OF assms(1,2) iv, of _ src]
      decipher_ok[OF assms(1,2) iv refl, of src] len pkcs5_length(2)[OF assms(1), of src]
    by (intro exI[of _ "length (pkcs5 k src)"] exI[of _ ?c]) auto
qed

theorem cipher_roundtrip_witness:
  "gcrypt_laws (toy_skey CBC) \<and>
   (\<exists>iv len c. set_iv_data (toy_skey CBC) [1, 2, 3, 4] = Inr iv \<and>
      get_ciphertxt_len (toy_skey CBC) (length [1, 2, 3 :: byte]) = Inr len \<and>
      (\<exists>out. decipher (toy_skey CBC) iv c (replicate len 0) = Inr (3, out) \<and> take 3 out = [1, 2, 3]) \<and>
      8 dvd len)"
proof -
  have k: "require_padding (toy_skey CBC)" "get_block_len (toy_skey CBC) = 8" "ciph_mode (toy_skey CBC) \<noteq> STREAM"
    by (simp_all add: toy_skey_def require_padding_def get_block_len_def)
  obtain iv where iv: "set_iv_data (toy_skey CBC) [1, 2, 3, 4] = Inr iv"
    by (simp add: set_iv_data_def toy_skey_def require_iv_def get_block_len_def)
  obtain len c where lc: "get_ciphertxt_len (toy_skey CBC) (length [1, 2, 3 :: byte]) = Inr len"
    "\<forall>dst. len \<le> length dst \<longrightarrow> (\<exists>out. decipher (toy_skey CBC) iv c dst =
       Inr (int (length [1, 2, 3 :: byte]), out) \<and> take (length [1, 2, 3 :: byte]) out = [1, 2, 3])"
    "8 dvd len"
    using cipher_roundtrip[OF toy_skey_laws k(3) iv, of "[1, 2, 3]"] k(1,2) by metis
  obtain out where "decipher (toy_skey CBC) iv c (replicate len 0) = Inr (3, out)"
    "take 3 out = [1, 2, 3]"
    using lc(2)[rule_format, of "replicate len 0"] by (auto simp: numeral_3_eq_3)
  then show ?thesis using lc(1,3) toy_skey_laws iv by blast
qed

end
