(* ===== verification/Scnx.thy ===== *)
theory Scnx
  imports Slidwin Skey
begin

text \<open>
  The full phase of a secure connection: sending (\<open>neoip_scnx_full_xmit.cpp\<close>) and receiving
  (\<open>neoip_scnx_full_recv.cpp\<close>) of secured packets.  A packet is the sequence number, the cipher
  text and the authentication of both; the receiver checks the authentication, refuses sequence
  numbers that it has already seen with a sliding window of 32 flags, and deciphers.

  The specification \<open>areplay_step\<close> keeps the set of all sequence numbers accepted so far and the
  first one that is still looked at; the receiver is proved to implement it.
\<close>

subsection \<open>State and operations\<close>

datatype scnx_err_t =
    SCNX_OK | SCNX_ERROR | SCNX_BOGUS_PKT | BAD_NONCE | BAD_COOKIE | ACL_REFUSED | BAD_SIGNATURE
  | BAD_POP | BAD_ITOR_STATE | BAD_AUXNEGO | CIPH_NEGO_FAILED | AUTH_NEGO_FAILED
  | BAD_FULL_CIPH | BAD_FULL_AUTH | REPLAYED_PKT

record scnx_full_xmit_t =
  xmit_skey :: skey_t
  xmit_seqnb :: "32 word"

record scnx_full_recv_t =
  recv_skey :: skey_t
  areplay_window :: "bool slidwin_t"

definition AREPLAY_WIN_SIZE_DFL :: nat where "AREPLAY_WIN_SIZE_DFL = 32"

text \<open>The constructors, once the keys are derived.\<close>

definition scnx_xmit_ctor :: "skey_t \<Rightarrow> scnx_full_xmit_t" where
  "scnx_xmit_ctor k = \<lparr>xmit_skey = k, xmit_seqnb = 0\<rparr>"

definition scnx_recv_ctor :: "skey_t \<Rightarrow> scnx_full_recv_t" where
  "scnx_recv_ctor k =
     \<lparr>recv_skey = k, areplay_window = slidwin_ctor AREPLAY_WIN_SIZE_DFL False 0 (\<lambda>i. False)\<rparr>"

definition scnx_xmit_get_mtu_overhead :: "scnx_full_xmit_t \<Rightarrow> nat res" where
  "scnx_xmit_get_mtu_overhead st =
     res_bind (get_ciphertxt_len (xmit_skey st) 1) (\<lambda>len.
       Inr (length (put_uint32 (xmit_seqnb st)) + auth_output_len (xmit_skey st) + (len - 1)))"

definition scnx_xmit_pkt_from_upper ::
  "bytes \<Rightarrow> scnx_full_xmit_t \<Rightarrow> (bytes \<times> scnx_full_xmit_t) res" where
  "scnx_xmit_pkt_from_upper pkt st =
     (let k = xmit_skey st; seqnb = xmit_seqnb st in
      res_bind (set_iv_data k (le_bytes 4 seqnb)) (\<lambda>iv.
      res_bind (get_ciphertxt_len k (length pkt)) (\<lambda>ciphertxt_len.
      res_bind (encipher k iv pkt (replicate ciphertxt_len 0)) (\<lambda>ciphertxt.
        let body = put_uint32 seqnb @ ciphertxt in
        res_bind (auth_output k body) (\<lambda>mac.
          Inr (body @ mac, st\<lparr>xmit_seqnb := seqnb + 1\<rparr>))))))"

text \<open>\<open>pkt = pkt_t(ptr, len)\<close>: construction from the data, then the assignment of \<open>serial_t\<close>.  The
  constructor of \<open>pkt_t\<close> takes the length as an \<open>int\<close> and hands it on as a \<open>size_t\<close>.  \<open>avail n\<close> says that
  \<open>malloc(n)\<close> succeeds: when it does not, the assertion on its result fails.\<close>

definition pkt_ctor_len :: "64 word \<Rightarrow> nat" where
  "pkt_ctor_len len = unat (scast (ucast len :: 32 word) :: 64 word)"

definition pkt_assign_data :: "(nat \<Rightarrow> bool) \<Rightarrow> bytes \<Rightarrow> 64 word \<Rightarrow> bytes res" where
  "pkt_assign_data avail src len =
     (let n = pkt_ctor_len len in
      dbg_assert (n = 0 \<or> avail n)
        (if length src < n then Inl Out_of_bounds
         else res_bind (internal_ctor_docopy (\<lambda>i. 0) (take n src)) (\<lambda>t.
                res_bind (serial_assign (\<lambda>i. 0) t) (\<lambda>s. Inr (serial_bytes s)))))"

text \<open>The deciphered length is kept in a \<open>size_t\<close>, so that the test \<open>plaintxt_len < 0\<close> never holds:
  the value -1 becomes the largest length.\<close>

definition scnx_recv_decipher ::
  "(nat \<Rightarrow> bool) \<Rightarrow> 32 word \<Rightarrow> bytes \<Rightarrow> scnx_full_recv_t \<Rightarrow>
     (scnx_err_t \<times> bytes \<times> scnx_full_recv_t) res" where
  "scnx_recv_decipher avail seqnb pkt st =
     res_bind (set_iv_data (recv_skey st) (le_bytes 4 seqnb)) (\<lambda>iv.
     res_bind (decipher (recv_skey st) iv pkt (replicate (length pkt) 0)) (\<lambda>(len, plaintxt).
       let plaintxt_len = of_int len in
       if plaintxt_len < (0 :: 64 word) then Inr (BAD_FULL_CIPH, pkt, st)
       else res_bind (pkt_assign_data avail plaintxt plaintxt_len) (\<lambda>pkt.
              Inr (SCNX_OK, pkt, st))))"

text \<open>\<open>tail_peek\<close> of a packet that is shorter than the authentication is inside the \<open>try\<close> block, but its
  own check is an assertion, which fails before any exception is thrown.\<close>

definition scnx_recv_pkt_from_lower ::
  "(nat \<Rightarrow> bool) \<Rightarrow> bytes \<Rightarrow> scnx_full_recv_t \<Rightarrow>
     (scnx_err_t \<times> bytes \<times> scnx_full_recv_t) res" where
  "scnx_recv_pkt_from_lower avail pkt st =
     (let k = recv_skey st; w = areplay_window st in
      dbg_assert (auth_output_len k \<le> length pkt)
       (let remote_mac = drop (length pkt - auth_output_len k) pkt;
            body = take (length pkt - auth_output_len k) pkt
        in res_bind (auth_output k body) (\<lambda>generated_mac.
           if remote_mac \<noteq> generated_mac then Inr (BAD_FULL_AUTH, pkt, st)
           else case get_uint32 body of
             Inl e \<Rightarrow> Inr (SCNX_BOGUS_PKT, body, st)
           | Inr (seqnb, rest) \<Rightarrow>
               if uint32_cmp seqnb (get_index_first w) < 0 then Inr (REPLAYED_PKT, rest, st)
               else res_bind (slid_get_default uint32_cmp seqnb False w) (\<lambda>seen.
                 if seen then Inr (REPLAYED_PKT, rest, st)
                 else res_bind (slid_set uint32_cmp seqnb True w) (\<lambda>w'.
                   scnx_recv_decipher avail seqnb rest (st\<lparr>areplay_window := w'\<rparr>))))))"

text \<open>What the receiver hands up for a list of packets that reach it.\<close>

fun scnx_recv_run ::
  "(nat \<Rightarrow> bool) \<Rightarrow> bytes list \<Rightarrow> scnx_full_recv_t \<Rightarrow> (bytes option list \<times> scnx_full_recv_t) res" where
  "scnx_recv_run avail [] st = Inr ([], st)"
| "scnx_recv_run avail (p # ps) st =
     res_bind (scnx_recv_pkt_from_lower avail p st) (\<lambda>(err, pkt, st').
       res_bind (scnx_recv_run avail ps st') (\<lambda>(outs, st'').
         Inr ((if err = SCNX_OK then Some pkt else None) # outs, st'')))"

fun scnx_xmit_run :: "bytes list \<Rightarrow> scnx_full_xmit_t \<Rightarrow> (bytes list \<times> scnx_full_xmit_t) res" where
  "scnx_xmit_run [] st = Inr ([], st)"
| "scnx_xmit_run (p # ps) st =
     res_bind (scnx_xmit_pkt_from_upper p st) (\<lambda>(pkt, st').
       res_bind (scnx_xmit_run ps st') (\<lambda>(pkts, st''). Inr (pkt # pkts, st'')))"

subsection \<open>Specification of the replay check\<close>

text \<open>State: the first sequence number of the window and all numbers accepted so far.\<close>

type_synonym areplay_t = "nat \<times> nat set"

definition areplay_accepts :: "areplay_t \<Rightarrow> nat \<Rightarrow> bool" where
  "areplay_accepts a n = (fst a \<le> n \<and> n \<notin> snd a)"

definition areplay_step :: "areplay_t \<Rightarrow> nat \<Rightarrow> areplay_t" where
  "areplay_step a n = (if areplay_accepts a n then (max (fst a) (n - 31), insert n (snd a)) else a)"

fun areplay_run :: "areplay_t \<Rightarrow> nat list \<Rightarrow> bool list" where
  "areplay_run a [] = []"
| "areplay_run a (n # ns) = areplay_accepts a n # areplay_run (areplay_step a n) ns"

definition areplay_rel :: "bool slidwin_t \<Rightarrow> areplay_t \<Rightarrow> bool" where
  "areplay_rel w a \<longleftrightarrow>
     u32.window_ok w \<and> win_size w = 32 \<and> dfl_value w = False \<and>
     fst a = unat (index_begin w) \<and> (\<forall>n\<in>snd a. n < fst a + 32) \<and>
     (\<forall>i<32. u32.values_at w i \<longleftrightarrow> fst a + i \<in> snd a)"

subsection \<open>The window implements the specification\<close>

lemma u32_dist: "b \<le> x \<Longrightarrow> wai_dist b x = unat x - unat (b :: 32 word)"
  by (simp add: wai_dist_def unat_sub)

lemma areplay_rel_ctor: "areplay_rel (areplay_window (scnx_recv_ctor k)) (0, {})"
  using u32.ctor_ok[where n = 32 and b = 0 and d = False and init = "\<lambda>i. False"]
  by (simp add: areplay_rel_def scnx_recv_ctor_def AREPLAY_WIN_SIZE_DFL_def)

lemma areplay_reject:
  assumes "areplay_rel w a"
  shows "uint32_cmp n (get_index_first w) < 0 \<longleftrightarrow> unat n < fst a"
    and "fst a \<le> unat n \<Longrightarrow> slid_get_default uint32_cmp n False w = Inr (unat n \<in> snd a)"
proof -
  have rel: "u32.window_ok w" "win_size w = 32" "fst a = unat (index_begin w)"
    "\<forall>m\<in>snd a. m < fst a + 32" "\<forall>i<32. u32.values_at w i \<longleftrightarrow> fst a + i \<in> snd a"
    using assms by (auto simp: areplay_rel_def)
  show "uint32_cmp n (get_index_first w) < 0 \<longleftrightarrow> unat n < fst a"
    using rel(3) by (simp add: uint32_cmp_def get_index_first_def word_less_nat_alt)
  assume le: "fst a \<le> unat n"
  then have b: "index_begin w \<le> n" using rel(3) by (simp add: word_le_nat_alt)
  have d: "wai_dist (index_begin w) n = unat n - fst a" using u32_dist[OF b] rel(3) by simp
  show "slid_get_default uint32_cmp n False w = Inr (unat n \<in> snd a)"
    using u32.get_default_ahead[OF rel(1) b, of False] d rel le by fastforce
qed

lemma areplay_set:
  assumes "areplay_rel w a" "areplay_accepts a (unat n)"
  obtains w' where "slid_set uint32_cmp n True w = Inr w'" "areplay_rel w' (areplay_step a (unat n))"
proof -
  have rel: "u32.window_ok w" "win_size w = 32" "dfl_value w = False" "fst a = unat (index_begin w)"
    "\<forall>m\<in>snd a. m < fst a + 32" "\<forall>i<32. u32.values_at w i \<longleftrightarrow> fst a + i \<in> snd a"
    using assms(1) by (auto simp: areplay_rel_def)
  have acc: "fst a \<le> unat n" "unat n \<notin> snd a" using assms(2) by (auto simp: areplay_accepts_def)
  have b: "index_begin w \<le> n" using acc(1) rel(4) by (simp add: word_le_nat_alt)
  have d: "wai_dist (index_begin w) n = unat n - fst a" using u32_dist[OF b] rel(4) by simp
  define s where "s = unat n - fst a - 31"
  have "s = wai_dist (index_begin w) n - (win_size w - 1)" using d rel(2) by (simp add: s_def)
  then obtain w' where w': "slid_set uint32_cmp n True w = Inr w'" "u32.window_ok w'"
    "win_size w' = 32" "dfl_value w' = False" "index_begin w' = index_begin w + of_nat s"
    "\<And>k. k < 32 \<Longrightarrow> u32.values_at w' k =
       (if k + s = unat n - fst a then True
        else if k + s < 32 then u32.values_at w (k + s) else False)"
    using u32.set_spec[OF rel(1) b, of s True] rel(2,3) d by metis
  have n32: "unat n < 2 ^ 32" using unsigned_less[of n] by simp
  have "fst a + s \<le> unat n" using acc(1) by (simp add: s_def)
  then have "fst a + s < 2 ^ 32" "s < 2 ^ 32" using n32 by linarith+
  then have b': "unat (index_begin w') = fst a + s"
    using rel(4) w'(5) by (simp add: unat_word_ariths(1) unat_of_nat_win)
  have mx: "max (fst a) (unat n - 31) = fst a + s" unfolding s_def by linarith
  have vals: "u32.values_at w' i \<longleftrightarrow> fst a + s + i \<in> insert (unat n) (snd a)" if "i < 32" for i
    using w'(6)[OF that] rel(5,6) acc(1) by (force simp: ac_simps)
  have "areplay_rel w' (areplay_step a (unat n))"
    using assms(2) w'(2-4) b' vals rel(5) mx
    by (auto simp: areplay_rel_def areplay_step_def s_def)
  then show ?thesis using that w'(1) by blast
qed

lemma scast_of_int_arg: "n < 2 ^ 31 \<Longrightarrow> (scast (of_nat n :: 32 word) :: 64 word) = of_nat n"
  by (simp add: scast_eq signed_of_nat signed_take_bit_int_eq_self)

lemma pkt_ctor_len_small: "n < 2 ^ 31 \<Longrightarrow> pkt_ctor_len (of_nat n) = n"
  by (simp add: pkt_ctor_len_def unsigned_of_nat take_bit_nat_eq_self scast_of_int_arg)

lemma pkt_ctor_len_minus_1: "pkt_ctor_len (-1) = 2 ^ 64 - 1"
proof -
  have "(ucast (-1 :: 64 word) :: 32 word) = -1" "(scast (-1 :: 32 word) :: 64 word) = -1"
    by (rule bit_word_eqI, simp add: bit_simps)+
  then show ?thesis by (simp add: pkt_ctor_len_def unsigned_minus_1_eq_mask mask_eq_exp_minus_1)
qed

lemma pkt_assign_data_eq:
  assumes "n < 2 ^ 31" "n \<le> length src" "avail n"
  shows "pkt_assign_data avail src (of_nat n) = (if n = 0 then Inl Assert_failed else Inr (take n src))"
proof -
  obtain t where t: "internal_ctor_docopy (\<lambda>i. 0) (take n src) = Inr t" "serial_inv t"
    "serial_bytes t = take n src"
    using internal_ctor_docopy_ok by blast
  have "full_data t = [] \<longleftrightarrow> n = 0"
  proof (cases "n = 0")
    case True
    then show ?thesis using t(1) by (auto simp: internal_ctor_docopy_def serial_ctor_ok)
  next
    case False
    then have "serial_bytes t \<noteq> []" using t(3) assms(2) by auto
    then show ?thesis using False by (auto simp: serial_bytes_def)
  qed
  then show ?thesis
    using serial_assign_ok[OF t(2), of "\<lambda>i. 0"] t assms pkt_ctor_len_small[OF assms(1)]
    by (auto simp: pkt_assign_data_def split: if_splits)
qed

subsection \<open>Arbitrary packets\<close>

definition pkt_seqnb :: "bytes \<Rightarrow> 32 word" where
  "pkt_seqnb p = NEOIP_BSWAP32 (le_word (take 4 p))"

lemma scnx_recv_decipher_ok:
  "scnx_recv_decipher avail n p st = Inr (err, out, st') \<Longrightarrow> err = SCNX_OK \<and> st' = st"
  by (auto simp: scnx_recv_decipher_def res_bind_eq_Inr_iff Let_def split: if_splits)

text \<open>One packet: it is refused and the window stays, or the specification accepts its number.\<close>

lemma scnx_recv_step:
  assumes "areplay_rel (areplay_window st) a" "scnx_recv_pkt_from_lower avail p st = Inr (err, out, st')"
  shows "if err = SCNX_OK
         then areplay_accepts a (unat (pkt_seqnb p)) \<and>
              areplay_rel (areplay_window st') (areplay_step a (unat (pkt_seqnb p)))
         else st' = st"
proof -
  let ?k = "recv_skey st" and ?w = "areplay_window st"
  let ?body = "take (length p - auth_output_len ?k) p"
  show ?thesis
  proof (cases "get_uint32 ?body")
    case (Inl e)
    then show ?thesis
      using assms(2)
      by (auto simp: scnx_recv_pkt_from_lower_def Let_def res_bind_eq_Inr_iff dbg_assert_eq_Inr_iff split: if_splits)
  next
    case (Inr r)
    obtain n rest where r: "r = (n, rest)" by (cases r)
    have body: "4 \<le> length ?body" "n = pkt_seqnb p"
      using Inr r by (auto simp: get_uint32_def pkt_seqnb_def min_def split: if_splits)
    show ?thesis
    proof (cases "areplay_accepts a (unat n)")
      case True
      obtain w' where w': "slid_set uint32_cmp n True ?w = Inr w'"
        "areplay_rel w' (areplay_step a (unat n))" using areplay_set[OF assms(1) True] .
      show ?thesis
        using assms(2) Inr r body(2) True w' areplay_reject[OF assms(1), of n]
          scnx_recv_decipher_ok[of avail n rest "st\<lparr>areplay_window := w'\<rparr>" err out st']
        by (auto simp: scnx_recv_pkt_from_lower_def Let_def res_bind_eq_Inr_iff dbg_assert_eq_Inr_iff areplay_accepts_def
            split: if_splits)
    next
      case False
      show ?thesis
        using assms(2) Inr r False areplay_reject[OF assms(1), of n]
        by (auto simp: scnx_recv_pkt_from_lower_def Let_def res_bind_eq_Inr_iff dbg_assert_eq_Inr_iff areplay_accepts_def
            split: if_splits)
    qed
  qed
qed

lemma scnx_recv_run_fresh:
  assumes "areplay_rel (areplay_window st) a" "scnx_recv_run avail ps st = Inr (outs, st')"
  shows "length outs = length ps \<and>
    (\<forall>j<length ps. outs ! j \<noteq> None \<longrightarrow> unat (pkt_seqnb (ps ! j)) \<notin> snd a \<and>
       (\<forall>i<j. outs ! i \<noteq> None \<longrightarrow> pkt_seqnb (ps ! i) \<noteq> pkt_seqnb (ps ! j)))"
  using assms
proof (induction ps arbitrary: st a outs)
  case (Cons p ps)
  obtain err out st1 outs1 where run: "scnx_recv_pkt_from_lower avail p st = Inr (err, out, st1)"
    "scnx_recv_run avail ps st1 = Inr (outs1, st')"
    "outs = (if err = SCNX_OK then Some out else None) # outs1"
    using Cons.prems(2) by (auto simp: res_bind_eq_Inr_iff)
  define a1 where "a1 = (if err = SCNX_OK then areplay_step a (unat (pkt_seqnb p)) else a)"
  have step: "areplay_rel (areplay_window st1) a1"
    "err = SCNX_OK \<Longrightarrow> areplay_accepts a (unat (pkt_seqnb p))"
    using scnx_recv_step[OF Cons.prems(1) run(1)] Cons.prems(1) by (auto simp: a1_def split: if_splits)
  note IH = Cons.IH[OF step(1) run(2)]
  have sub: "snd a \<subseteq> snd a1" "err = SCNX_OK \<Longrightarrow> unat (pkt_seqnb p) \<in> snd a1"
    using step(2) by (auto simp: a1_def areplay_step_def)
  have new: "err = SCNX_OK \<Longrightarrow> unat (pkt_seqnb p) \<notin> snd a"
    using step(2) by (auto simp: areplay_accepts_def)
  show ?case
    unfolding run(3) using IH sub new by (auto simp: All_less_Suc2 split: if_splits)
qed simp

subsection \<open>Packets of the peer\<close>

definition iv_fits :: "skey_t \<Rightarrow> bool" where
  "iv_fits k = (require_iv k \<longrightarrow> 4 \<le> get_block_len k)"

definition seqnb_iv :: "skey_t \<Rightarrow> 32 word \<Rightarrow> bytes" where
  "seqnb_iv k n = (case set_iv_data k (le_bytes 4 n) of Inl e \<Rightarrow> [] | Inr iv \<Rightarrow> iv)"

definition secured :: "skey_t \<Rightarrow> 32 word \<Rightarrow> bytes \<Rightarrow> bytes" where
  "secured k n pkt =
     (let body = put_uint32 n @ cipher_of k (seqnb_iv k n) (pkcs5 k pkt)
      in body @ take (auth_output_len k) (gcry_md (gcry k) body))"

text \<open>The hypotheses on the key: the laws of libgcrypt for a mode other than STREAM, and a block that can
  hold a sequence number.\<close>

definition key_ok :: "skey_t \<Rightarrow> bool" where
  "key_ok k \<longleftrightarrow> gcrypt_laws k \<and> ciph_mode k \<noteq> STREAM \<and> iv_fits k"

lemma key_okD [dest]:
  "key_ok k \<Longrightarrow> gcrypt_laws k" "key_ok k \<Longrightarrow> ciph_mode k \<noteq> STREAM" "key_ok k \<Longrightarrow> iv_fits k"
  by (simp_all add: key_ok_def)

lemma set_iv_data_ok:
  assumes "key_ok k"
  shows "set_iv_data k (le_bytes 4 n) = Inr (seqnb_iv k n)"
proof -
  let ?x = "blit 0 (le_bytes 4 n) (replicate (get_block_len k) 0)"
  have "\<exists>c. gcry_ecb_encrypt (gcry k) ?x = Some c" if "require_iv k" "length ?x = get_block_len k"
    using that assms unfolding key_ok_def gcrypt_laws_def by blast
  then have "\<exists>iv. set_iv_data k (le_bytes 4 n) = Inr iv"
    using assms by (auto simp: set_iv_data_def key_ok_def iv_fits_def)
  then show ?thesis by (auto simp: seqnb_iv_def)
qed

lemma seqnb_iv_len: "key_ok k \<Longrightarrow> iv_len_ok k (seqnb_iv k n)"
  using set_iv_data_len[OF key_okD(1) set_iv_data_ok] .

lemma iv_used_seqnb: "iv_used k (seqnb_iv k n) = seqnb_iv k n"
  by (simp add: iv_used_def seqnb_iv_def set_iv_data_def)

lemma auth_output_ok:
  "key_ok k \<Longrightarrow>
   auth_output k d = Inr (take (auth_output_len k) (gcry_md (gcry k) d))"
  by (simp add: auth_output_def key_ok_def gcrypt_laws_def)

lemma scnx_xmit_ok:
  assumes "key_ok k" "xmit_skey st = k"
  shows "scnx_xmit_pkt_from_upper pkt st =
    Inr (secured k (xmit_seqnb st) pkt, st\<lparr>xmit_seqnb := xmit_seqnb st + 1\<rparr>)"
  using assms(2) set_iv_data_ok[OF assms(1)] padding_cpu_len_ok(2)[OF key_okD(1)[OF assms(1)]]
    encipher_ok[OF key_okD(1,2)[OF assms(1)] seqnb_iv_len[OF assms(1)], of "replicate _ _"]
    auth_output_ok[OF assms(1)] iv_used_seqnb
  by (simp add: scnx_xmit_pkt_from_upper_def secured_def Let_def)

lemma scnx_xmit_run_ok:
  assumes "key_ok k" "xmit_skey st = k"
  shows "\<exists>st'. scnx_xmit_run ps st =
    Inr (map (\<lambda>i. secured k (xmit_seqnb st + of_nat i) (ps ! i)) [0..<length ps], st')"
  using assms(2)
proof (induction ps arbitrary: st)
  case (Cons p ps)
  let ?st = "st\<lparr>xmit_seqnb := xmit_seqnb st + 1\<rparr>"
  obtain st' where "scnx_xmit_run ps ?st =
      Inr (map (\<lambda>i. secured k (xmit_seqnb st + 1 + of_nat i) (ps ! i)) [0..<length ps], st')"
    using Cons.IH[of ?st] Cons.prems by auto
  moreover have "map (\<lambda>i. secured k (xmit_seqnb st + of_nat i) ((p # ps) ! i)) [0..<length (p # ps)] =
      secured k (xmit_seqnb st) p #
      map (\<lambda>i. secured k (xmit_seqnb st + 1 + of_nat i) (ps ! i)) [0..<length ps]"
    by (simp add: upt_conv_Cons map_Suc_upt[symmetric] comp_def ac_simps del: upt_Suc)
  ultimately show ?case using scnx_xmit_ok[OF assms(1) Cons.prems] by simp
qed simp

text \<open>A packet with the authentication of the shared key, whatever its cipher text.\<close>

definition authentic :: "skey_t \<Rightarrow> 32 word \<Rightarrow> bytes \<Rightarrow> bytes" where
  "authentic k n c =
     (put_uint32 n @ c) @ take (auth_output_len k) (gcry_md (gcry k) (put_uint32 n @ c))"

lemma secured_authentic:
  "secured k n pkt = authentic k n (cipher_of k (seqnb_iv k n) (pkcs5 k pkt))"
  by (simp add: secured_def authentic_def Let_def)

lemma scnx_recv_authentic:
  assumes "key_ok k" "recv_skey st = k"
    "areplay_rel (areplay_window st) a"
  shows "scnx_recv_pkt_from_lower avail (authentic k n c) st =
     (if unat n < fst a then Inr (REPLAYED_PKT, c, st)
      else if unat n \<in> snd a then Inr (REPLAYED_PKT, c, st)
      else res_bind (slid_set uint32_cmp n True (areplay_window st)) (\<lambda>w'.
             scnx_recv_decipher avail n c (st\<lparr>areplay_window := w'\<rparr>)))"
proof -
  have "length (take (auth_output_len k) (gcry_md (gcry k) d)) = auth_output_len k" for d
    using assms(1) by (simp add: key_ok_def gcrypt_laws_def)
  then show ?thesis
    using assms(2) auth_output_ok[OF assms(1)] areplay_reject[OF assms(3), of n]
    by (simp add: scnx_recv_pkt_from_lower_def authentic_def Let_def)
qed

lemma scnx_decipher_secured:
  assumes "key_ok k" "recv_skey st = k" "length pkt < 2 ^ 31" "avail (length pkt)"
  shows "scnx_recv_decipher avail n (cipher_of k (seqnb_iv k n) (pkcs5 k pkt)) st =
    (if pkt = [] then Inl Assert_failed else Inr (SCNX_OK, pkt, st))"
proof -
  let ?c = "cipher_of k (seqnb_iv k n) (pkcs5 k pkt)"
  note k = key_okD(1,2)[OF assms(1)]
  have clen: "length ?c = length (pkcs5 k pkt)"
    using cipher_of_ok(2)[OF k seqnb_iv_len[OF assms(1)] pkcs5_length(1)[OF k(1)]] .
  have p: "length pkt \<le> length (pkcs5 k pkt)" "take (length pkt) (pkcs5 k pkt) = pkt"
    by (simp_all add: pkcs5_def Let_def)
  have "decipher k (seqnb_iv k n) ?c (replicate (length ?c) 0) =
      Inr (int (length pkt), blit 0 (pkcs5 k pkt) (replicate (length ?c) 0))"
    using decipher_ok[OF k seqnb_iv_len[OF assms(1)] refl] by (simp add: iv_used_seqnb)
  then show ?thesis
    using assms(2) set_iv_data_ok[OF assms(1)] clen p
      pkt_assign_data_eq[OF assms(3), of "blit 0 (pkcs5 k pkt) (replicate (length ?c) 0)" avail] assms(4)
    by (simp add: scnx_recv_decipher_def blit_def)
qed

lemma scnx_recv_secured:
  assumes "key_ok k" "recv_skey st = k" "areplay_rel (areplay_window st) a"
    "pkt \<noteq> []" "length pkt < 2 ^ 31" "avail (length pkt)"
  shows "\<exists>out st'. scnx_recv_pkt_from_lower avail (secured k n pkt) st =
           Inr (if areplay_accepts a (unat n) then SCNX_OK else REPLAYED_PKT, out, st') \<and>
         recv_skey st' = k \<and> areplay_rel (areplay_window st') (areplay_step a (unat n)) \<and>
         (areplay_accepts a (unat n) \<longrightarrow> out = pkt)"
proof -
  let ?c = "cipher_of k (seqnb_iv k n) (pkcs5 k pkt)"
  note rej = scnx_recv_authentic[OF assms(1-3), of avail n ?c, folded secured_authentic]
  show ?thesis
  proof (cases "areplay_accepts a (unat n)")
    case True
    obtain w' where w': "slid_set uint32_cmp n True (areplay_window st) = Inr w'"
      "areplay_rel w' (areplay_step a (unat n))" using areplay_set[OF assms(3) True] .
    have "scnx_recv_decipher avail n ?c (st\<lparr>areplay_window := w'\<rparr>) =
        Inr (SCNX_OK, pkt, st\<lparr>areplay_window := w'\<rparr>)"
      using scnx_decipher_secured[where avail = avail, OF assms(1) _ assms(5,6), of "st\<lparr>areplay_window := w'\<rparr>" n] assms(2,4)
      by simp
    then show ?thesis using rej w' True assms(2) by (simp add: areplay_accepts_def)
  next
    case False
    then show ?thesis using rej assms(2,3) by (auto simp: areplay_accepts_def areplay_step_def)
  qed
qed

lemma areplay_run_complete:
  "j < length ns \<Longrightarrow> fst a \<le> ns ! j \<Longrightarrow> ns ! j \<notin> snd a \<Longrightarrow>
   \<forall>i<j. ns ! i \<noteq> ns ! j \<and> ns ! i \<le> ns ! j + 31 \<Longrightarrow> areplay_run a ns ! j"
proof (induction ns arbitrary: a j)
  case (Cons n ns)
  show ?case
  proof (cases j)
    case 0
    then show ?thesis using Cons.prems by (simp add: areplay_accepts_def)
  next
    case (Suc j')
    have "n \<noteq> ns ! j'" "n \<le> ns ! j' + 31" using Cons.prems(4) Suc by force+
    then have "areplay_run (areplay_step a n) ns ! j'"
      using Cons.prems Suc by (intro Cons.IH) (auto simp: areplay_step_def)
    then show ?thesis by (simp add: Suc)
  qed
qed simp

lemma scnx_recv_run_secured:
  assumes "key_ok k"
    "\<forall>p\<in>set pkts. p \<noteq> [] \<and> length p < 2 ^ 31 \<and> avail (length p)" "length pkts \<le> 2 ^ 32" "set idxs \<subseteq> {..<length pkts}"
    "recv_skey st = k" "areplay_rel (areplay_window st) a"
  shows "\<exists>st'. scnx_recv_run avail (map (\<lambda>i. secured k (of_nat i) (pkts ! i)) idxs) st =
    Inr (map2 (\<lambda>i acc. if acc then Some (pkts ! i) else None) idxs (areplay_run a idxs), st')"
  using assms(4-6)
proof (induction idxs arbitrary: st a)
  case (Cons i idxs)
  have i: "i < length pkts" "pkts ! i \<noteq> []" "length (pkts ! i) < 2 ^ 31" "avail (length (pkts ! i))"
    using Cons.prems assms(2) by auto
  then have u: "unat (of_nat i :: 32 word) = i" using assms(3) by (simp add: unat_of_nat_32)
  obtain out st1 where st1: "scnx_recv_pkt_from_lower avail (secured k (of_nat i) (pkts ! i)) st =
      Inr (if areplay_accepts a i then SCNX_OK else REPLAYED_PKT, out, st1)"
    "recv_skey st1 = k" "areplay_rel (areplay_window st1) (areplay_step a i)"
    "areplay_accepts a i \<longrightarrow> out = pkts ! i"
    using scnx_recv_secured[where avail = avail, OF assms(1) Cons.prems(2,3) i(2-4), of "of_nat i"] unfolding u by blast
  obtain st' where "scnx_recv_run avail (map (\<lambda>i. secured k (of_nat i) (pkts ! i)) idxs) st1 =
      Inr (map2 (\<lambda>i acc. if acc then Some (pkts ! i) else None) idxs
             (areplay_run (areplay_step a i) idxs), st')"
    using Cons.IH[OF _ st1(2,3)] Cons.prems(1) by auto
  then show ?case using st1(1,4) by simp
qed simp

lemma length_areplay_run [simp]: "length (areplay_run a ns) = length ns"
  by (induction ns arbitrary: a) simp_all

subsection \<open>Properties\<close>

text \<open>C13. Replay protection against any traffic: whatever packets reach a receiver, forged, repeated
  or reordered, as long as it runs (no assertion failed and no read left a buffer), two packets that it
  accepts never carry the same sequence number.\<close>
theorem scnx_no_replay:
  assumes "scnx_recv_run avail ps (scnx_recv_ctor k) = Inr (outs, st')"
    "i < j" "j < length ps" "outs ! i \<noteq> None" "outs ! j \<noteq> None"
  shows "pkt_seqnb (ps ! i) \<noteq> pkt_seqnb (ps ! j)"
  using scnx_recv_run_fresh[OF areplay_rel_ctor assms(1)] assms(2-5) by blast


text \<open>C33. Three packets break the receiver.  A packet from anyone that is shorter than the authentication
  fails the assertion of \<open>tail_peek\<close>; an empty datagram of a peer that holds the key fails an assertion
  of \<open>allocate_ctor\<close>; and an authenticated packet whose padding is invalid is not refused: the length -1
  is used as 2^64 - 1 bytes, where the allocation fails or, if it could succeed, the copy reads beyond
  the plain text.\<close>
theorem scnx_recv_faults:
  assumes "key_ok k" "avail 0" "length p < auth_output_len k"
    "gcry_len_ok k (length x)" "length x < 2 ^ 64 - 1" "padding_parse k x = Inr (-1)"
  shows "scnx_recv_pkt_from_lower avail p (scnx_recv_ctor k) = Inl Assert_failed \<and>
    scnx_recv_pkt_from_lower avail (secured k 0 []) (scnx_recv_ctor k) = Inl Assert_failed \<and>
    scnx_recv_pkt_from_lower avail (authentic k 0 (cipher_of k (seqnb_iv k 0) x)) (scnx_recv_ctor k) =
      Inl (if avail (2 ^ 64 - 1) then Out_of_bounds else Assert_failed)"
proof -
  let ?st = "scnx_recv_ctor k"
  have k: "recv_skey ?st = k" by (simp add: scnx_recv_ctor_def)
  obtain w' where w': "slid_set uint32_cmp 0 True (areplay_window ?st) = Inr w'"
    using areplay_set[OF areplay_rel_ctor, of 0 k] by (auto simp: areplay_accepts_def)
  let ?st' = "?st\<lparr>areplay_window := w'\<rparr>" and ?c = "cipher_of k (seqnb_iv k 0) x"
  have pass: "scnx_recv_pkt_from_lower avail (authentic k 0 c) ?st = scnx_recv_decipher avail 0 c ?st'" for c
    using scnx_recv_authentic[OF assms(1) k areplay_rel_ctor, of avail 0 c] w' by simp
  note c = cipher_of_ok[OF key_okD(1,2)[OF assms(1)] seqnb_iv_len[OF assms(1)] assms(4), of 0]
  have "decipher k (seqnb_iv k 0) ?c (replicate (length ?c) 0) = Inr (-1, x)"
    using c assms(6) set_iv_ok(1)[OF seqnb_iv_len[OF assms(1)]]
    by (simp add: decipher_def iv_used_seqnb blit_def)
  then have "scnx_recv_decipher avail 0 ?c ?st' = Inl (if avail (2 ^ 64 - 1) then Out_of_bounds else Assert_failed)"
    using k set_iv_data_ok[OF assms(1)] assms(5) pkt_ctor_len_minus_1
    by (simp add: scnx_recv_decipher_def pkt_assign_data_def)
  moreover have "scnx_recv_decipher avail 0 (cipher_of k (seqnb_iv k 0) (pkcs5 k [])) ?st' = Inl Assert_failed"
    using scnx_decipher_secured[OF assms(1), of ?st' "[]" avail 0] k assms(2) by simp
  moreover have "scnx_recv_pkt_from_lower avail p ?st = Inl Assert_failed"
    using assms(3) k by (simp add: scnx_recv_pkt_from_lower_def)
  ultimately show ?thesis by (simp add: pass secured_authentic)
qed

lemma toy_key_ok: "m \<noteq> STREAM \<Longrightarrow> key_ok (toy_skey m)" "auth_output_len (toy_skey m) = 2"
  using toy_skey_laws[of m] by (simp_all add: key_ok_def iv_fits_def toy_skey_def get_block_len_def)

lemma two_packets:
  "\<forall>p\<in>set [[1], [2, 3 :: byte]]. p \<noteq> [] \<and> length p < 2 ^ 31 \<and> length p < 2 ^ 40"
  "length [[1], [2, 3 :: byte]] \<le> 2 ^ 32"
  by auto

theorem scnx_no_replay_witness:
  "\<exists>outs st. scnx_recv_run (\<lambda>n. n < 2 ^ 40) [secured (toy_skey CTR) 0 [1], secured (toy_skey CTR) 1 [2, 3]]
      (scnx_recv_ctor (toy_skey CTR)) = Inr (outs, st) \<and> outs ! 0 \<noteq> None \<and> outs ! 1 \<noteq> None \<and>
    pkt_seqnb (secured (toy_skey CTR) 0 [1]) \<noteq> pkt_seqnb (secured (toy_skey CTR) 1 [2, 3])"
proof -
  let ?ps = "[secured (toy_skey CTR) 0 [1], secured (toy_skey CTR) 1 [2, 3]]"
  have k: "recv_skey (scnx_recv_ctor (toy_skey CTR)) = toy_skey CTR" by (simp add: scnx_recv_ctor_def)
  have ctr: "CTR \<noteq> STREAM" by simp
  have idx: "set [0, 1] \<subseteq> {..<length [[1], [2, 3 :: byte]]}" by auto
  have eqs: "map (\<lambda>i. secured (toy_skey CTR) (of_nat i) ([[1], [2, 3]] ! i)) [0, 1] = ?ps"
    "map2 (\<lambda>i acc. if acc then Some ([[1], [2, 3 :: byte]] ! i) else None) [0, 1]
       (areplay_run (0, {}) [0, 1]) = [Some [1], Some [2, 3]]"
    by (simp_all add: areplay_accepts_def areplay_step_def)
  obtain st where run: "scnx_recv_run (\<lambda>n. n < 2 ^ 40) ?ps (scnx_recv_ctor (toy_skey CTR)) =
      Inr ([Some [1], Some [2, 3]], st)"
    using scnx_recv_run_secured[where avail = "\<lambda>n. n < 2 ^ 40",
        OF toy_key_ok(1)[OF ctr] two_packets idx k areplay_rel_ctor]
    unfolding eqs by (elim exE) (rule that)
  have "pkt_seqnb (?ps ! 0) \<noteq> pkt_seqnb (?ps ! 1)" by (rule scnx_no_replay[OF run]) simp_all
  then show ?thesis
    using run by (intro exI[of _ "[Some [1], Some [2, 3]]"] exI[of _ st]) (simp del: scnx_recv_run.simps)
qed


theorem scnx_recv_faults_witness:
  "scnx_recv_pkt_from_lower (\<lambda>n. n < 2 ^ 40) [5] (scnx_recv_ctor (toy_skey CBC)) = Inl Assert_failed \<and>
   scnx_recv_pkt_from_lower (\<lambda>n. n < 2 ^ 40) (authentic (toy_skey CBC) 0 (cipher_of (toy_skey CBC)
      (seqnb_iv (toy_skey CBC) 0) [0, 0, 0, 0, 0, 0, 0, 9])) (scnx_recv_ctor (toy_skey CBC)) =
   Inl Assert_failed"
proof -
  have "padding_parse (toy_skey CBC) [0, 0, 0, 0, 0, 0, 0, 9] = Inr (-1)"
    by (simp add: padding_parse_def toy_skey_def require_padding_def)
  moreover have "gcry_len_ok (toy_skey CBC) (length [0, 0, 0, 0, 0, 0, 0, 9 :: byte])"
    by (simp add: gcry_len_ok_def toy_skey_def get_block_len_def eval_nat_numeral)
  ultimately show ?thesis
    using scnx_recv_faults[of "toy_skey CBC" "\<lambda>n. n < 2 ^ 40" "[5]" "[0, 0, 0, 0, 0, 0, 0, 9]"] toy_key_ok
    by simp
qed

end
