(* ===== verification/Delay.thy ===== *)
theory Delay
  imports SerialCodec
begin

text \<open>
  Time: \<open>delay_t\<close> (\<open>neoip_delay.cpp\<close>), milliseconds in 64 bits with two special values, the
  exponential back-off \<open>timer_expboff_t\<close> that paces retransmissions (\<open>neoip_timer_expboff.cpp\<close>),
  and \<open>zerotimer_t\<close> (\<open>neoip_zerotimer.cpp\<close>), which postpones callbacks to the next turn of the event
  loop.  The operations of \<open>delay_t\<close> on \<open>double\<close> are not modelled.
\<close>

subsection \<open>Delays\<close>

type_synonym delay_t = "64 word"

definition INFINITE_VAL :: delay_t where "INFINITE_VAL = 0xFFFFFFFFFFFFFFE"
definition NONE_VAL :: delay_t where "NONE_VAL = 0xFFFFFFFFFFFFFFF"

definition delay_is_null :: "delay_t \<Rightarrow> bool" where
  "delay_is_null d = (d = NONE_VAL)"

definition delay_is_infinite :: "delay_t \<Rightarrow> bool" where
  "delay_is_infinite d = (d = INFINITE_VAL)"

definition delay_add :: "delay_t \<Rightarrow> delay_t \<Rightarrow> delay_t res" where
  "delay_add a b =
     dbg_assert (\<not> delay_is_null a \<and> \<not> delay_is_null b)
       (if delay_is_infinite a \<or> delay_is_infinite b then Inr INFINITE_VAL else Inr (a + b))"

definition delay_sub :: "delay_t \<Rightarrow> delay_t \<Rightarrow> delay_t res" where
  "delay_sub a b =
     dbg_assert (\<not> delay_is_null a \<and> \<not> delay_is_null b)
       (if delay_is_infinite a \<or> delay_is_infinite b then Inr INFINITE_VAL else Inr (a - b))"

definition delay_mul :: "delay_t \<Rightarrow> delay_t \<Rightarrow> delay_t res" where
  "delay_mul a b =
     dbg_assert (\<not> delay_is_null a \<and> \<not> delay_is_null b)
       (if delay_is_infinite a \<or> delay_is_infinite b then Inr INFINITE_VAL else Inr (a * b))"

text \<open>A division by a delay of 0 stops the process.\<close>

definition delay_div :: "delay_t \<Rightarrow> delay_t \<Rightarrow> delay_t res" where
  "delay_div a b =
     dbg_assert (\<not> delay_is_null a \<and> \<not> delay_is_null b)
       (if delay_is_infinite a \<or> delay_is_infinite b then Inr INFINITE_VAL
        else if b = 0 then Inl (Except ''division by zero'') else Inr (a div b))"

definition delay_mod :: "delay_t \<Rightarrow> delay_t \<Rightarrow> delay_t res" where
  "delay_mod a b =
     dbg_assert (\<not> delay_is_null a \<and> \<not> delay_is_null b)
       (if delay_is_infinite a \<or> delay_is_infinite b then Inr INFINITE_VAL
        else if b = 0 then Inl (Except ''division by zero'') else Inr (a mod b))"

definition delay_compare :: "delay_t \<Rightarrow> delay_t \<Rightarrow> int" where
  "delay_compare a b = (if a < b then -1 else if a > b then 1 else 0)"

definition from_msec :: "64 word \<Rightarrow> delay_t" where "from_msec ms = ms"
definition from_sec :: "64 word \<Rightarrow> delay_t" where "from_sec sec = from_msec (sec * 1000)"
definition from_min :: "64 word \<Rightarrow> delay_t" where "from_min mn = from_sec (mn * 60)"

definition to_sec_32bit :: "delay_t \<Rightarrow> 32 word" where
  "to_sec_32bit d = ucast ((d + 500) div 1000)"

text \<open>The macro \<open>DELAY_T_CPUBASE\<close> prints the number of whole units and keeps the rest.\<close>

definition delay_cpubase :: "nat \<Rightarrow> string \<Rightarrow> string \<times> nat \<Rightarrow> string \<times> nat" where
  "delay_cpubase base str = (\<lambda>(oss, nb_ms).
     if nb_ms \<ge> base then (oss @ show_nat (nb_ms div base) @ str, nb_ms - nb_ms div base * base)
     else (oss, nb_ms))"

definition delay_to_string :: "delay_t \<Rightarrow> string" where
  "delay_to_string d =
     (if delay_is_null d then ''null''
      else if delay_is_infinite d then ''infinite''
      else if d = 0 then ''0s''
      else fst (delay_cpubase 1 ''ms''
               (delay_cpubase 1000 ''s''
               (delay_cpubase (60 * 1000) ''m''
               (delay_cpubase (60 * 60 * 1000) ''h''
               (delay_cpubase (24 * 60 * 60 * 1000) ''d''
               (delay_cpubase (30 * 24 * 60 * 60 * 1000) ''month'' ([], unat d))))))))"

definition put_delay :: "delay_t \<Rightarrow> bytes" where
  "put_delay d = put_uint64 d"

definition get_delay :: "delay_t reader" where
  "get_delay = get_uint64"

subsection \<open>Exponential back-off\<close>

record timer_expboff_t =
  delay_min :: delay_t
  delay_max :: delay_t
  delay_current :: delay_t

definition timer_expboff_ctor :: "delay_t \<Rightarrow> delay_t \<Rightarrow> timer_expboff_t" where
  "timer_expboff_ctor mn mx = \<lparr>delay_min = mn, delay_max = mx, delay_current = mn\<rparr>"

definition expboff_first :: "timer_expboff_t \<Rightarrow> delay_t \<times> timer_expboff_t" where
  "expboff_first t = (delay_min t, t\<lparr>delay_current := delay_min t\<rparr>)"

definition expboff_next :: "timer_expboff_t \<Rightarrow> (delay_t \<times> timer_expboff_t) res" where
  "expboff_next t =
     res_bind (delay_add (delay_current t) (delay_current t)) (\<lambda>d.
       let d' = (if d > delay_max t then delay_max t else d) in
       Inr (d', t\<lparr>delay_current := d'\<rparr>))"

fun expboff_delays :: "nat \<Rightarrow> timer_expboff_t \<Rightarrow> delay_t list res" where
  "expboff_delays 0 t = Inr []"
| "expboff_delays (Suc n) t =
     res_bind (expboff_next t) (\<lambda>(d, t'). res_bind (expboff_delays n t') (\<lambda>ds. Inr (d # ds)))"

subsection \<open>Zero timers\<close>

text \<open>The queue of postponed callbacks; \<open>'c\<close> stands for the pairs of callback and user pointer.\<close>

record 'c zerotimer_t =
  zero_timeout_running :: bool
  cbuserptr_list :: "'c list"

definition zerotimer_ctor :: "'c zerotimer_t" where
  "zerotimer_ctor = \<lparr>zero_timeout_running = False, cbuserptr_list = []\<rparr>"

definition zerotimer_contain :: "'c \<Rightarrow> 'c zerotimer_t \<Rightarrow> bool" where
  "zerotimer_contain c z = list_ex (\<lambda>e. e = c) (cbuserptr_list z)"

definition zerotimer_append :: "'c \<Rightarrow> 'c zerotimer_t \<Rightarrow> 'c zerotimer_t" where
  "zerotimer_append c z =
     (let z = (if \<not> zero_timeout_running z then z\<lparr>zero_timeout_running := True\<rparr> else z)
      in z\<lparr>cbuserptr_list := cbuserptr_list z @ [c]\<rparr>)"

definition zerotimer_remove :: "'c \<Rightarrow> 'c zerotimer_t \<Rightarrow> 'c zerotimer_t" where
  "zerotimer_remove c z =
     (let z = z\<lparr>cbuserptr_list := removeAll c (cbuserptr_list z)\<rparr> in
      if length (cbuserptr_list z) = 0 \<and> zero_timeout_running z
      then z\<lparr>zero_timeout_running := False\<rparr> else z)"

text \<open>Expiry: the list is copied and cleared and the timeout stopped before the callbacks run, in the
  order of insertion, until one answers that its object is gone.  A callback may change the world,
  which contains the zero timer: \<open>get_z\<close> and \<open>set_z\<close> reach it.\<close>

fun zerotimer_notify :: "('c \<Rightarrow> 'w \<Rightarrow> (bool \<times> 'w) res) \<Rightarrow> 'c list \<Rightarrow> 'w \<Rightarrow> (bool \<times> 'w) res" where
  "zerotimer_notify cb [] w = Inr (True, w)"
| "zerotimer_notify cb (c # cs) w =
     res_bind (cb c w) (\<lambda>(tokeep, w'). if \<not> tokeep then Inr (False, w') else zerotimer_notify cb cs w')"

definition zerotimer_expire ::
  "('w \<Rightarrow> 'c zerotimer_t) \<Rightarrow> ('c zerotimer_t \<Rightarrow> 'w \<Rightarrow> 'w) \<Rightarrow> ('c \<Rightarrow> 'w \<Rightarrow> (bool \<times> 'w) res) \<Rightarrow> 'w \<Rightarrow>
     (bool \<times> 'w) res" where
  "zerotimer_expire get_z set_z cb w =
     (let tmp_list = cbuserptr_list (get_z w);
          w = set_z \<lparr>zero_timeout_running = False, cbuserptr_list = []\<rparr> w
      in zerotimer_notify cb tmp_list w)"

subsection \<open>Lemmas\<close>

definition zerotimer_ok :: "'c zerotimer_t \<Rightarrow> bool" where
  "zerotimer_ok z = (zero_timeout_running z \<longleftrightarrow> cbuserptr_list z \<noteq> [])"

lemma zerotimer_ok_ops:
  "zerotimer_ok zerotimer_ctor"
  "zerotimer_ok z \<Longrightarrow> zerotimer_ok (zerotimer_append c z)"
  "zerotimer_ok z \<Longrightarrow> zerotimer_ok (zerotimer_remove c z)"
  by (auto simp: zerotimer_ok_def zerotimer_ctor_def zerotimer_append_def zerotimer_remove_def Let_def)

lemma zerotimer_append_list [simp]:
  "cbuserptr_list (zerotimer_append c z) = cbuserptr_list z @ [c]"
  by (simp add: zerotimer_append_def Let_def)

definition expboff_safe :: "timer_expboff_t \<Rightarrow> bool" where
  "expboff_safe t =
     (delay_current t \<le> delay_max t \<and> 2 * unat (delay_max t) < unat INFINITE_VAL)"

lemma expboff_next_ok:
  assumes "expboff_safe t"
  shows "\<exists>d. expboff_next t = Inr (d, t\<lparr>delay_current := d\<rparr>) \<and>
           unat d = min (2 * unat (delay_current t)) (unat (delay_max t)) \<and>
           expboff_safe (t\<lparr>delay_current := d\<rparr>)"
proof -
  let ?c = "delay_current t" and ?m = "delay_max t"
  have c: "unat ?c \<le> unat ?m" "2 * unat ?m < 2 ^ 60 - 2"
    using assms by (auto simp: expboff_safe_def word_le_nat_alt INFINITE_VAL_def)
  have "?c \<noteq> NONE_VAL" "?c \<noteq> INFINITE_VAL"
    using c by (auto simp: NONE_VAL_def INFINITE_VAL_def)
  moreover have dbl: "unat (?c + ?c) = 2 * unat ?c" using c by (simp add: unat_word_ariths(2))
  ultimately show ?thesis
    using c by (auto simp: expboff_next_def delay_add_def delay_is_null_def delay_is_infinite_def Let_def
        word_less_nat_alt expboff_safe_def word_le_nat_alt INFINITE_VAL_def)
qed

lemma expboff_delays_ok:
  "expboff_safe t \<Longrightarrow> \<exists>ds. expboff_delays n t = Inr ds \<and>
     map unat ds = map (\<lambda>k. min (2 ^ Suc k * unat (delay_current t)) (unat (delay_max t))) [0..<n]"
proof (induction n arbitrary: t)
  case (Suc n)
  obtain d where d: "expboff_next t = Inr (d, t\<lparr>delay_current := d\<rparr>)"
    "unat d = min (2 * unat (delay_current t)) (unat (delay_max t))"
    "expboff_safe (t\<lparr>delay_current := d\<rparr>)" using expboff_next_ok[OF Suc.prems] by blast
  obtain ds where ds: "expboff_delays n (t\<lparr>delay_current := d\<rparr>) = Inr ds"
    "map unat ds = map (\<lambda>k. min (2 ^ Suc k * unat d) (unat (delay_max t))) [0..<n]"
    using Suc.IH[OF d(3)] by auto
  have "min (2 ^ Suc k * unat d) (unat (delay_max t)) =
        min (2 ^ Suc (Suc k) * unat (delay_current t)) (unat (delay_max t))" for k
  proof -
    have "2 ^ Suc k * unat d =
        min (2 ^ Suc (Suc k) * unat (delay_current t)) (2 ^ Suc k * unat (delay_max t))"
      unfolding d(2) by (simp add: nat_mult_min_right ac_simps)
    moreover have "unat (delay_max t) \<le> 2 ^ Suc k * unat (delay_max t)" by simp
    ultimately show ?thesis by linarith
  qed
  then show ?case
    using d ds by (simp add: upt_conv_Cons map_Suc_upt[symmetric] comp_def del: upt_Suc power_Suc)
qed simp

subsection \<open>Properties\<close>

text \<open>Retransmission delays grow by doubling from the smallest to the largest one and stay there:
  after the first delay, the k-th next one is the first times 2 to the k, capped.\<close>
lemma expboff_doubles_and_caps:
  assumes "mn \<le> mx" "2 * unat mx < unat INFINITE_VAL"
  shows "\<exists>ds. fst (expboff_first (timer_expboff_ctor mn mx)) = mn \<and>
           expboff_delays n (snd (expboff_first (timer_expboff_ctor mn mx))) = Inr ds \<and>
           map unat ds = map (\<lambda>k. min (2 ^ Suc k * unat mn) (unat mx)) [0..<n]"
  using expboff_delays_ok[of "snd (expboff_first (timer_expboff_ctor mn mx))" n] assms
  by (simp add: expboff_first_def timer_expboff_ctor_def expboff_safe_def)

end
