(* ===== verification/Rdgram.thy ===== *)
theory Rdgram
  imports Wai Delay Serial
begin

text \<open>
  Reliable datagrams: \<open>rdgram_t\<close> (\<open>neoip_rdgram.cpp\<close>).  Outgoing packets get a sequence number and are
  kept until the peer acknowledges them; a timer per packet retransmits it with an exponential
  back-off.  Incoming data packets are offered to the user of the layer, who decides whether they
  are acknowledged.  Events for the user (packets for the lower layer, changes of the right to send)
  go through zero timers.

  The user is represented by two functions: \<open>cb\<close> answers an event with whether the object is kept, and
  \<open>should_ack\<close> answers the question about a received packet.  The operations return the events that
  they notify.  Lengths are natural numbers where the code adds them up; subtractions of lengths wrap
  as those of \<open>size_t\<close>.
\<close>

subsection \<open>State\<close>

definition NEOIP_PKTTYPE_OFFSET_RDGRAM :: byte where "NEOIP_PKTTYPE_OFFSET_RDGRAM = 64"
definition DATA_PKT :: byte where "DATA_PKT = NEOIP_PKTTYPE_OFFSET_RDGRAM + 1"
definition ACK_PKT :: byte where "ACK_PKT = NEOIP_PKTTYPE_OFFSET_RDGRAM + 2"

datatype rdgram_err_t = RD_OK | RD_BOGUS_PKT | SENDBUF_FULL

datatype rdgram_event_t = RD_NONE | RD_PKT_TO_LOWER bytes | RD_MAYSEND_ON | RD_MAYSEND_OFF

record sendbuf_pkt_t =
  sb_seqnb :: "32 word"
  sb_pkt :: bytes
  rxmit_timeout :: delay_t
  rxmit_timer_policy :: timer_expboff_t

record rdgram_t =
  sendbuf_pkt_db :: "(32 word \<times> sendbuf_pkt_t) list"
  rd_next_xmit_seqnb :: "32 word"
  sendbuf_used_len :: nat
  sendbuf_max_len :: nat
  maysend_threshold :: nat
  rd_callback :: bool
  seqnb2ack_list :: "32 word list"
  zerotimer_seqnb2ack :: "unit zerotimer_t"
  zerotimer_maysend :: "unit zerotimer_t"

definition FIRST_SEQNB :: "32 word" where "FIRST_SEQNB = 0"

definition rdgram_ctor :: rdgram_t where
  "rdgram_ctor =
     \<lparr>sendbuf_pkt_db = [], rd_next_xmit_seqnb = FIRST_SEQNB, sendbuf_used_len = 0,
      sendbuf_max_len = 0, maysend_threshold = 0, rd_callback = False, seqnb2ack_list = [],
      zerotimer_seqnb2ack = zerotimer_ctor, zerotimer_maysend = zerotimer_ctor\<rparr>"

definition rd_set_callback :: "bool \<Rightarrow> rdgram_t \<Rightarrow> rdgram_err_t \<times> rdgram_t" where
  "rd_set_callback c st = (RD_OK, st\<lparr>rd_callback := c\<rparr>)"

definition rd_start :: "rdgram_t \<Rightarrow> rdgram_err_t res" where
  "rd_start st = dbg_assert (rd_callback st) (Inr RD_OK)"

definition rd_start_with :: "bool \<Rightarrow> rdgram_t \<Rightarrow> (rdgram_err_t \<times> rdgram_t) res" where
  "rd_start_with c st =
     (let (err, st) = rd_set_callback c st in
      if err \<noteq> RD_OK then Inr (err, st) else res_bind (rd_start st) (\<lambda>err. Inr (err, st)))"

definition rd_header :: "32 word \<Rightarrow> bytes" where
  "rd_header seqnb = put_uint8 DATA_PKT @ put_wai32 seqnb"

definition rd_get_mtu_overhead :: "rdgram_t \<Rightarrow> nat" where
  "rd_get_mtu_overhead st = length (rd_header (rd_next_xmit_seqnb st))"

subsection \<open>Send buffer\<close>

definition sendbuf_is_limited :: "rdgram_t \<Rightarrow> bool" where
  "sendbuf_is_limited st = (if sendbuf_max_len st = 0 then False else True)"

definition maysend_is_set :: "rdgram_t \<Rightarrow> bool" where
  "maysend_is_set st =
     (if maysend_threshold st = 0 then False
      else if sendbuf_is_limited st = False then False else True)"

definition sendbuf_get_free_len :: "rdgram_t \<Rightarrow> nat" where
  "sendbuf_get_free_len st =
     (if \<not> sendbuf_is_limited st then 2 ^ 64 - 1
      else size_sub (sendbuf_max_len st) (sendbuf_used_len st))"

definition maysend_notify :: "rdgram_t \<Rightarrow> rdgram_t" where
  "maysend_notify st = st\<lparr>zerotimer_maysend := zerotimer_append () (zerotimer_maysend st)\<rparr>"

definition maysend_set_threshold :: "nat \<Rightarrow> rdgram_t \<Rightarrow> rdgram_err_t \<times> rdgram_t" where
  "maysend_set_threshold len st =
     (let st = st\<lparr>maysend_threshold := len\<rparr> in
      if \<not> maysend_is_set st then (RD_OK, st)
      else if sendbuf_get_free_len st < maysend_threshold st then (RD_OK, maysend_notify st)
      else (RD_OK, maysend_notify st))"

definition sendbuf_add_pkt :: "nat \<Rightarrow> rdgram_t \<Rightarrow> rdgram_t res" where
  "sendbuf_add_pkt pkt_len st =
     (let st = st\<lparr>sendbuf_used_len := sendbuf_used_len st + pkt_len\<rparr> in
      dbg_assert (sendbuf_is_limited st \<longrightarrow> sendbuf_used_len st \<le> sendbuf_max_len st)
       (if \<not> maysend_is_set st then Inr st
        else dbg_assert (sendbuf_is_limited st)
          (let free_len = sendbuf_get_free_len st in
           if free_len < maysend_threshold st \<and> free_len + pkt_len \<ge> maysend_threshold st
           then Inr (maysend_notify st) else Inr st)))"

definition sendbuf_del_pkt :: "nat \<Rightarrow> rdgram_t \<Rightarrow> rdgram_t res" where
  "sendbuf_del_pkt pkt_len st =
     dbg_assert (sendbuf_used_len st \<ge> pkt_len)
      (let st = st\<lparr>sendbuf_used_len := sendbuf_used_len st - pkt_len\<rparr> in
       if \<not> maysend_is_set st then Inr st
       else dbg_assert (sendbuf_is_limited st)
         (let free_len = sendbuf_get_free_len st in
          if free_len \<ge> maysend_threshold st \<and> size_sub free_len pkt_len < maysend_threshold st
          then Inr (maysend_notify st) else Inr st))"

definition sendbuf_set_max_len :: "nat \<Rightarrow> rdgram_t \<Rightarrow> (rdgram_err_t \<times> rdgram_t) res" where
  "sendbuf_set_max_len len st =
     dbg_assert (len \<ge> sendbuf_used_len st) (Inr (RD_OK, st\<lparr>sendbuf_max_len := len\<rparr>))"

definition find_sendbuf_pkt :: "32 word \<Rightarrow> rdgram_t \<Rightarrow> sendbuf_pkt_t option" where
  "find_sendbuf_pkt seqnb st = wmap_find seqnb (sendbuf_pkt_db st)"

text \<open>Construction and destruction of a \<open>sendbuf_pkt_t\<close> enter it into the data base and remove it.\<close>

definition sendbuf_pkt_ctor :: "bytes \<Rightarrow> 32 word \<Rightarrow> rdgram_t \<Rightarrow> rdgram_t res" where
  "sendbuf_pkt_ctor opkt seqnb st =
     (let (delay, policy) = expboff_first (timer_expboff_ctor (from_msec 500) (from_msec 2000));
          p = \<lparr>sb_seqnb = seqnb, sb_pkt = opkt, rxmit_timeout = delay, rxmit_timer_policy = policy\<rparr>
      in dbg_assert (wmap_find seqnb (sendbuf_pkt_db st) = None)
           (sendbuf_add_pkt (length opkt)
              (st\<lparr>sendbuf_pkt_db := wmap_insert seqnb p (sendbuf_pkt_db st)\<rparr>)))"

definition sendbuf_pkt_dtor :: "sendbuf_pkt_t \<Rightarrow> rdgram_t \<Rightarrow> rdgram_t res" where
  "sendbuf_pkt_dtor p st =
     res_bind (sendbuf_del_pkt (length (sb_pkt p)) st) (\<lambda>st.
       Inr (st\<lparr>sendbuf_pkt_db := wmap_erase (sb_seqnb p) (sendbuf_pkt_db st)\<rparr>))"

text \<open>\<open>stop\<close> and the destructor delete the first packet until there is none; each round removes one, so
  that as many rounds as there are packets are enough.\<close>

fun rd_stop_loop :: "nat \<Rightarrow> rdgram_t \<Rightarrow> rdgram_t res" where
  "rd_stop_loop n st =
     (case sendbuf_pkt_db st of
        [] \<Rightarrow> Inr st
      | (k, p) # m \<Rightarrow>
          (case n of 0 \<Rightarrow> Inl Diverges | Suc n' \<Rightarrow> res_bind (sendbuf_pkt_dtor p st) (rd_stop_loop n')))"

definition rd_stop :: "rdgram_t \<Rightarrow> rdgram_t res" where
  "rd_stop st = rd_stop_loop (length (sendbuf_pkt_db st)) st"

subsection \<open>Timers\<close>

definition zerotimer_maysend_process ::
  "(rdgram_event_t \<Rightarrow> bool) \<Rightarrow> rdgram_t \<Rightarrow> rdgram_event_t list \<times> bool" where
  "zerotimer_maysend_process cb st =
     (if \<not> maysend_is_set st then ([], True)
      else let ev = (if sendbuf_get_free_len st < maysend_threshold st
                     then RD_MAYSEND_OFF else RD_MAYSEND_ON)
           in ([ev], cb ev))"

definition build_ack :: "32 word \<Rightarrow> bytes" where
  "build_ack seqnb = put_uint8 ACK_PKT @ put_wai32 seqnb"

fun seqnb2ack_loop ::
  "(rdgram_event_t \<Rightarrow> bool) \<Rightarrow> 32 word list \<Rightarrow> rdgram_event_t list \<times> bool \<times> 32 word list" where
  "seqnb2ack_loop cb [] = ([], True, [])"
| "seqnb2ack_loop cb (seqnb # l) =
     (let ev = RD_PKT_TO_LOWER (build_ack seqnb) in
      if \<not> cb ev then ([ev], False, l)
      else let (evs, tokeep, l') = seqnb2ack_loop cb l in (ev # evs, tokeep, l'))"

definition zerotimer_seqnb2ack_process ::
  "(rdgram_event_t \<Rightarrow> bool) \<Rightarrow> rdgram_t \<Rightarrow> rdgram_event_t list \<times> bool \<times> rdgram_t" where
  "zerotimer_seqnb2ack_process cb st =
     (let (evs, tokeep, l) = seqnb2ack_loop cb (seqnb2ack_list st)
      in (evs, tokeep, st\<lparr>seqnb2ack_list := l\<rparr>))"

text \<open>The expiry of one of the two zero timers, through \<open>zerotimer_t\<close> and the dispatch of
  \<open>neoip_zerotimer_expire_cb\<close>; the world of the timer is the object with the events notified so far.\<close>

datatype rd_zerotimer = ZT_MAYSEND | ZT_SEQNB2ACK

definition rd_zerotimer_expire_cb ::
  "(rdgram_event_t \<Rightarrow> bool) \<Rightarrow> rd_zerotimer \<Rightarrow> unit \<Rightarrow> rdgram_event_t list \<times> rdgram_t \<Rightarrow>
     (bool \<times> rdgram_event_t list \<times> rdgram_t) res" where
  "rd_zerotimer_expire_cb cb z u = (\<lambda>(evs, st).
     case z of
       ZT_MAYSEND \<Rightarrow>
         (let (evs', tokeep) = zerotimer_maysend_process cb st in Inr (tokeep, evs @ evs', st))
     | ZT_SEQNB2ACK \<Rightarrow>
         (let (evs', tokeep, st') = zerotimer_seqnb2ack_process cb st in Inr (tokeep, evs @ evs', st')))"

definition rd_zerotimer_expire ::
  "(rdgram_event_t \<Rightarrow> bool) \<Rightarrow> rd_zerotimer \<Rightarrow> rdgram_t \<Rightarrow> (bool \<times> rdgram_event_t list \<times> rdgram_t) res" where
  "rd_zerotimer_expire cb z st =
     (case z of
        ZT_MAYSEND \<Rightarrow>
          zerotimer_expire (\<lambda>w. zerotimer_maysend (snd w))
            (\<lambda>t w. (fst w, (snd w)\<lparr>zerotimer_maysend := t\<rparr>)) (rd_zerotimer_expire_cb cb z) ([], st)
      | ZT_SEQNB2ACK \<Rightarrow>
          zerotimer_expire (\<lambda>w. zerotimer_seqnb2ack (snd w))
            (\<lambda>t w. (fst w, (snd w)\<lparr>zerotimer_seqnb2ack := t\<rparr>)) (rd_zerotimer_expire_cb cb z) ([], st))"

text \<open>The retransmission timer of a packet.\<close>

definition rd_timeout_expire_cb ::
  "(rdgram_event_t \<Rightarrow> bool) \<Rightarrow> sendbuf_pkt_t \<Rightarrow> (bool \<times> rdgram_event_t \<times> sendbuf_pkt_t) res" where
  "rd_timeout_expire_cb cb p =
     (let ev = RD_PKT_TO_LOWER (sb_pkt p) in
      if \<not> cb ev then Inr (False, ev, p)
      else res_bind (expboff_next (rxmit_timer_policy p)) (\<lambda>(delay, policy).
             Inr (True, ev, p\<lparr>rxmit_timer_policy := policy, rxmit_timeout := delay\<rparr>)))"

subsection \<open>Packets\<close>

text \<open>The header is put in front of the buffer of the packet by \<open>head_add\<close>, which can fail an assertion
  (\<open>head_add_prepends_or_leaves_zone\<close>); \<open>mem\<close> is the contents of the memory that it may allocate.
  \<open>rd_queue_pkt\<close> is the rest of the operation, on the bytes of the packet with its header.\<close>

definition rd_queue_pkt :: "bytes \<Rightarrow> rdgram_t \<Rightarrow> (rdgram_err_t \<times> bytes \<times> rdgram_t) res" where
  "rd_queue_pkt pkt st =
     (if sendbuf_is_limited st \<and> sendbuf_used_len st + length pkt > sendbuf_max_len st
      then Inr (SENDBUF_FULL, pkt, st)
      else res_bind (sendbuf_pkt_ctor pkt (rd_next_xmit_seqnb st) st) (\<lambda>st.
             Inr (RD_OK, pkt, st\<lparr>rd_next_xmit_seqnb := wai_incr (rd_next_xmit_seqnb st)\<rparr>)))"

definition rd_pkt_from_upper ::
  "(nat \<Rightarrow> byte) \<Rightarrow> serial_t \<Rightarrow> rdgram_t \<Rightarrow> (rdgram_err_t \<times> bytes \<times> rdgram_t) res" where
  "rd_pkt_from_upper mem pkt st =
     res_bind (head_add mem (rd_header (rd_next_xmit_seqnb st)) pkt) (\<lambda>pkt.
       rd_queue_pkt (serial_bytes pkt) st)"

text \<open>The received sequence number is \<open>Some\<close> exactly where the code sets \<open>seqnb_out\<close>.\<close>

definition recv_data_pkt ::
  "(bytes \<Rightarrow> 32 word \<Rightarrow> bool) \<Rightarrow> bytes \<Rightarrow> rdgram_t \<Rightarrow>
     rdgram_err_t \<times> bytes \<times> 32 word option \<times> rdgram_t" where
  "recv_data_pkt should_ack pkt st =
     (case get_wai32 pkt of
        Inl e \<Rightarrow> (RD_BOGUS_PKT, pkt, None, st)
      | Inr (seqnb, pkt) \<Rightarrow>
          if \<not> should_ack pkt seqnb then (RD_OK, [], None, st)
          else
            let st = st\<lparr>seqnb2ack_list := seqnb2ack_list st @ [seqnb]\<rparr>;
                st = (if length (cbuserptr_list (zerotimer_seqnb2ack st)) = 0
                      then st\<lparr>zerotimer_seqnb2ack := zerotimer_append () (zerotimer_seqnb2ack st)\<rparr>
                      else st)
            in (RD_OK, pkt, Some seqnb, st))"

definition recv_ack_pkt :: "bytes \<Rightarrow> rdgram_t \<Rightarrow> (rdgram_err_t \<times> bytes \<times> rdgram_t) res" where
  "recv_ack_pkt pkt st =
     (case get_wai32 pkt of
        Inl e \<Rightarrow> Inr (RD_BOGUS_PKT, pkt, st)
      | Inr (seqnb, rest) \<Rightarrow>
          (case find_sendbuf_pkt seqnb st of
             None \<Rightarrow> Inr (RD_OK, [], st)
           | Some p \<Rightarrow> res_bind (sendbuf_pkt_dtor p st) (\<lambda>st. Inr (RD_OK, [], st))))"

definition rd_pkt_from_lower ::
  "(bytes \<Rightarrow> 32 word \<Rightarrow> bool) \<Rightarrow> bytes \<Rightarrow> rdgram_t \<Rightarrow>
     (rdgram_err_t \<times> bytes \<times> 32 word option \<times> rdgram_t) res" where
  "rd_pkt_from_lower should_ack pkt st =
     (case get_uint8 pkt of
        Inl e \<Rightarrow> Inr (RD_BOGUS_PKT, pkt, None, st)
      | Inr (pkttype, pkt) \<Rightarrow>
          if pkttype = DATA_PKT then Inr (recv_data_pkt should_ack pkt st)
          else if pkttype = ACK_PKT
          then res_bind (recv_ack_pkt pkt st) (\<lambda>(err, pkt, st). Inr (err, pkt, None, st))
          else Inr (RD_BOGUS_PKT, pkt, None, st))"

declare rd_stop_loop.simps [simp del]

subsection \<open>Histories\<close>

text \<open>The calls and timer expiries that a user of the layer sees, with the events; the user keeps the
  object.  A packet accepted from the upper layer is sent by the caller: it counts as an event.  The
  history also keeps the accepted payloads.\<close>

datatype rd_op =
    Op_upper "nat \<Rightarrow> byte" serial_t | Op_lower bytes | Op_zerotimer rd_zerotimer | Op_rxmit "32 word"
  | Op_threshold nat

definition rd_rxmit :: "32 word \<Rightarrow> rdgram_t \<Rightarrow> (rdgram_event_t list \<times> rdgram_t) res" where
  "rd_rxmit seqnb st =
     (case find_sendbuf_pkt seqnb st of
        None \<Rightarrow> Inr ([], st)
      | Some p \<Rightarrow> res_bind (rd_timeout_expire_cb (\<lambda>ev. True) p) (\<lambda>(tokeep, ev, p').
          Inr ([ev], st\<lparr>sendbuf_pkt_db :=
            map (\<lambda>(k, q). if k = seqnb then (k, p') else (k, q)) (sendbuf_pkt_db st)\<rparr>)))"

fun rd_step ::
  "(bytes \<Rightarrow> 32 word \<Rightarrow> bool) \<Rightarrow> rd_op \<Rightarrow> rdgram_t \<times> bytes list \<Rightarrow>
     (rdgram_event_t list \<times> rdgram_t \<times> bytes list) res" where
  "rd_step sa (Op_upper mem pkt) (st, log) =
     res_bind (rd_pkt_from_upper mem pkt st) (\<lambda>(err, pkt', st').
       Inr (if err = RD_OK then ([RD_PKT_TO_LOWER pkt'], st', log @ [serial_bytes pkt]) else ([], st', log)))"
| "rd_step sa (Op_lower pkt) (st, log) =
     res_bind (rd_pkt_from_lower sa pkt st) (\<lambda>(err, pkt', seqnb, st'). Inr ([], st', log))"
| "rd_step sa (Op_zerotimer z) (st, log) =
     res_bind (rd_zerotimer_expire (\<lambda>ev. True) z st) (\<lambda>(tokeep, evs, st'). Inr (evs, st', log))"
| "rd_step sa (Op_rxmit seqnb) (st, log) =
     res_bind (rd_rxmit seqnb st) (\<lambda>(evs, st'). Inr (evs, st', log))"
| "rd_step sa (Op_threshold n) (st, log) = Inr ([], snd (maysend_set_threshold n st), log)"

fun rd_run ::
  "(bytes \<Rightarrow> 32 word \<Rightarrow> bool) \<Rightarrow> rd_op list \<Rightarrow> rdgram_t \<times> bytes list \<Rightarrow>
     (rdgram_event_t list \<times> rdgram_t \<times> bytes list) res" where
  "rd_run sa [] s = Inr ([], s)"
| "rd_run sa (op # ops) s =
     res_bind (rd_step sa op s) (\<lambda>(evs, s').
       res_bind (rd_run sa ops s') (\<lambda>(evs', s''). Inr (evs @ evs', s'')))"

subsection \<open>What the send buffer holds\<close>

text \<open>\<open>m\<close> maps the number of each pending packet to its entry; the numbers are those of the accepted
  payloads in order.\<close>

definition data_pkt :: "nat \<Rightarrow> bytes \<Rightarrow> bytes" where
  "data_pkt i payload = rd_header (of_nat i) @ payload"

definition pending_len :: "(nat \<times> sendbuf_pkt_t) list \<Rightarrow> nat" where
  "pending_len m = sum_list (map (\<lambda>p. length (sb_pkt (snd p))) m)"

definition rd_rel :: "nat \<Rightarrow> rdgram_t \<Rightarrow> bytes list \<Rightarrow> (nat \<times> sendbuf_pkt_t) list \<Rightarrow> bool" where
  "rd_rel mx st log m \<longleftrightarrow>
     sendbuf_max_len st = mx \<and> sendbuf_pkt_db st = wai_map m \<and> stdmap_ok m \<and> rd_next_xmit_seqnb st = of_nat (length log) \<and>
     (\<forall>(i, p)\<in>set m. i < length log \<and> length log < i + 2 ^ 31 \<and> sb_seqnb p = of_nat i \<and>
        sb_pkt p = data_pkt i (log ! i) \<and> expboff_safe (rxmit_timer_policy p)) \<and>
     sendbuf_used_len st = pending_len m \<and>
     (sendbuf_is_limited st \<longrightarrow> sendbuf_used_len st \<le> sendbuf_max_len st)"

lemma pending_len_insert:
  "stdmap_ok m \<Longrightarrow> i \<notin> fst ` set m \<Longrightarrow>
   pending_len (stdmap_insert i p m) = length (sb_pkt p) + pending_len m"
  by (induction i p m rule: stdmap_insert.induct) (auto simp: pending_len_def)

lemma pending_len_erase:
  "stdmap_ok m \<Longrightarrow> (i, p) \<in> set m \<Longrightarrow>
   pending_len m = length (sb_pkt p) + pending_len (stdmap_erase i m)"
proof (induction m)
  case (Cons q m)
  show ?case
  proof (cases "q = (i, p)")
    case True
    then have "stdmap_erase i m = m"
      using Cons.prems(1) by (force simp: stdmap_erase_def filter_id_conv)
    then show ?thesis using True by (simp add: pending_len_def stdmap_erase_def)
  next
    case False
    then have "(i, p) \<in> set m" "fst q \<noteq> i" using Cons.prems by force+
    then show ?thesis using Cons by (simp add: pending_len_def stdmap_erase_def)
  qed
qed simp

lemma rd_rel_close:
  "rd_rel mx st log m \<Longrightarrow> length log \<le> k \<Longrightarrow> k \<le> length log \<Longrightarrow>
   \<forall>p\<in>set m. wai_close TYPE(32) (fst p) k"
  by (fastforce simp: rd_rel_def wai_close_def)

lemma rd_rel_close_pending:
  assumes "rd_rel mx st log m" "i \<in> fst ` set m"
  shows "\<forall>p\<in>set m. wai_close TYPE(32) (fst p) i"
proof
  fix p assume "p \<in> set m"
  moreover have "\<forall>p\<in>set m. fst p < length log \<and> length log < fst p + 2 ^ 31"
    using assms(1) by (auto simp: rd_rel_def)
  ultimately have "fst p < length log" "length log < fst p + 2 ^ 31" "i < length log"
    "length log < i + 2 ^ 31" using assms(2) by auto
  then show "wai_close TYPE(32) (fst p) i" by (simp add: wai_close_def)
qed

lemma rd_rel_find:
  assumes "rd_rel mx st log m" "i \<in> fst ` set m"
  shows "\<exists>p. find_sendbuf_pkt (of_nat i) st = Some p \<and> sb_pkt p = data_pkt i (log ! i)"
proof -
  note rel = assms(1)[unfolded rd_rel_def]
  obtain p where p: "(i, p) \<in> set m" using assms(2) by auto
  have "find_sendbuf_pkt (of_nat i) st = map_of m i"
    using rel wai_map_find[OF _ rd_rel_close_pending[OF assms]] by (simp add: find_sendbuf_pkt_def)
  then show ?thesis using p rel map_of_is_SomeI[OF stdmap_ok_distinct p] by auto
qed

lemma maysend_notify_or_not:
  "x = Inr st \<or> x = Inr (maysend_notify st) \<Longrightarrow> \<exists>z. x = Inr (st\<lparr>zerotimer_maysend := z\<rparr>)"
proof (elim disjE)
  assume "x = Inr st"
  then show ?thesis by (intro exI[of _ "zerotimer_maysend st"]) simp
qed (auto simp: maysend_notify_def)

lemma maysend_is_set_limited: "maysend_is_set st \<Longrightarrow> sendbuf_is_limited st"
  by (simp add: maysend_is_set_def split: if_splits)

lemma sendbuf_add_pkt_ok:
  assumes "sendbuf_is_limited st \<longrightarrow> sendbuf_used_len st + n \<le> sendbuf_max_len st"
  shows "\<exists>z. sendbuf_add_pkt n st =
    Inr (st\<lparr>sendbuf_used_len := sendbuf_used_len st + n, zerotimer_maysend := z\<rparr>)"
  using assms maysend_is_set_limited[of "st\<lparr>sendbuf_used_len := sendbuf_used_len st + n\<rparr>"]
  by (intro maysend_notify_or_not) (auto simp: sendbuf_add_pkt_def Let_def sendbuf_is_limited_def)

lemma sendbuf_del_pkt_ok:
  assumes "n \<le> sendbuf_used_len st"
  shows "\<exists>z. sendbuf_del_pkt n st =
    Inr (st\<lparr>sendbuf_used_len := sendbuf_used_len st - n, zerotimer_maysend := z\<rparr>)"
  using assms maysend_is_set_limited[of "st\<lparr>sendbuf_used_len := sendbuf_used_len st - n\<rparr>"]
  by (intro maysend_notify_or_not) (auto simp: sendbuf_del_pkt_def Let_def)

lemma rd_policy_safe:
  "expboff_safe (snd (expboff_first (timer_expboff_ctor (from_msec 500) (from_msec 2000))))"
  by (simp add: expboff_safe_def expboff_first_def timer_expboff_ctor_def from_msec_def INFINITE_VAL_def)

text \<open>A packet from the upper layer is refused and nothing changes, or it becomes the next number.\<close>

lemma rd_queue_step:
  assumes "rd_rel mx st log m" "\<forall>i\<in>fst ` set m. Suc (length log) < i + 2 ^ 31"
  shows "rd_queue_pkt (data_pkt (length log) pkt) st = Inr (SENDBUF_FULL, data_pkt (length log) pkt, st) \<or>
    (\<exists>p st'. rd_queue_pkt (data_pkt (length log) pkt) st = Inr (RD_OK, data_pkt (length log) pkt, st') \<and>
       rd_rel mx st' (log @ [pkt]) (stdmap_insert (length log) p m) \<and>
       seqnb2ack_list st' = seqnb2ack_list st)"
proof -
  note rel = assms(1)[unfolded rd_rel_def]
  let ?n = "length log" and ?pkt = "data_pkt (length log) pkt"
  show ?thesis
  proof (cases "sendbuf_is_limited st \<and> sendbuf_used_len st + length ?pkt > sendbuf_max_len st")
    case True
    then show ?thesis by (simp add: rd_queue_pkt_def)
  next
    case False
    let ?f = "expboff_first (timer_expboff_ctor (from_msec 500) (from_msec 2000))"
    define p where "p = \<lparr>sb_seqnb = of_nat ?n, sb_pkt = ?pkt, rxmit_timeout = fst ?f,
      rxmit_timer_policy = snd ?f\<rparr>"
    let ?m = "stdmap_insert ?n p m"
    have close: "\<forall>q\<in>set m. wai_close TYPE(32) (fst q) ?n" using rd_rel_close[OF assms(1)] by simp
    have new: "?n \<notin> fst ` set m" using rel by fastforce
    have none: "wmap_find (of_nat ?n) (sendbuf_pkt_db st) = None"
      using rel new by (simp add: wai_map_find[OF _ close] map_of_eq_None_iff)
    have db: "wmap_insert (of_nat ?n) p (sendbuf_pkt_db st) = wai_map ?m"
      using rel by (simp add: wai_map_insert[OF close])
    obtain z where z: "sendbuf_add_pkt (length ?pkt) (st\<lparr>sendbuf_pkt_db := wai_map ?m\<rparr>) =
       Inr (st\<lparr>sendbuf_pkt_db := wai_map ?m, sendbuf_used_len := sendbuf_used_len st + length ?pkt,
               zerotimer_maysend := z\<rparr>)"
      using sendbuf_add_pkt_ok[of "st\<lparr>sendbuf_pkt_db := wai_map ?m\<rparr>" "length ?pkt"] False
      by (auto simp: sendbuf_is_limited_def)
    let ?st = "st\<lparr>sendbuf_pkt_db := wai_map ?m, sendbuf_used_len := sendbuf_used_len st + length ?pkt,
               zerotimer_maysend := z, rd_next_xmit_seqnb := of_nat (Suc ?n)\<rparr>"
    have "rd_queue_pkt ?pkt st = Inr (RD_OK, ?pkt, ?st)"
      using False none db z rel
      by (simp add: rd_queue_pkt_def sendbuf_pkt_ctor_def p_def Let_def case_prod_beta
          wai_incr_def wai_add_def add.commute)
    moreover have "rd_rel mx ?st (log @ [pkt]) ?m"
      using rel new assms(2) rd_policy_safe False pending_len_insert[of m ?n p]
      by (fastforce simp: rd_rel_def set_stdmap_insert p_def nth_append sendbuf_is_limited_def)
    ultimately show ?thesis by auto
  qed
qed

text \<open>The header has 5 bytes: the operation fails exactly when \<open>head_add\<close> of 5 bytes does.\<close>

lemma rd_header_length [simp]: "length (rd_header s) = 5"
  by (simp add: rd_header_def put_uint8_def put_wai32_def put_uint32_def)

lemma rd_pkt_from_upper_cases:
  assumes "serial_inv pkt"
  shows "rd_pkt_from_upper mem pkt st =
    (if head_shift_fits 5 pkt then rd_queue_pkt (rd_header (rd_next_xmit_seqnb st) @ serial_bytes pkt) st
     else Inl Assert_failed)"
  using head_add_prepends_or_leaves_zone[OF assms, of "rd_header (rd_next_xmit_seqnb st)" mem]
  by (auto simp: rd_pkt_from_upper_def)

lemma rd_upper_step:
  assumes "rd_rel mx st log m" "\<forall>i\<in>fst ` set m. Suc (length log) < i + 2 ^ 31"
    "serial_inv pkt" "head_shift_fits 5 pkt"
  shows "rd_pkt_from_upper mem pkt st = Inr (SENDBUF_FULL, data_pkt (length log) (serial_bytes pkt), st) \<or>
    (\<exists>p st'. rd_pkt_from_upper mem pkt st = Inr (RD_OK, data_pkt (length log) (serial_bytes pkt), st') \<and>
       rd_rel mx st' (log @ [serial_bytes pkt]) (stdmap_insert (length log) p m) \<and>
       seqnb2ack_list st' = seqnb2ack_list st)"
proof -
  have "rd_header (rd_next_xmit_seqnb st) @ serial_bytes pkt = data_pkt (length log) (serial_bytes pkt)"
    using assms(1) by (simp add: data_pkt_def rd_rel_def)
  then have "rd_pkt_from_upper mem pkt st = rd_queue_pkt (data_pkt (length log) (serial_bytes pkt)) st"
    using rd_pkt_from_upper_cases[OF assms(3)] assms(4) by simp
  then show ?thesis using rd_queue_step[OF assms(1,2), of "serial_bytes pkt"] by simp
qed

lemma get_uint32_inverse: "get_uint32 bs = Inr (v, rest) \<Longrightarrow> bs = put_uint32 v @ rest"
proof -
  assume a: "get_uint32 bs = Inr (v, rest)"
  then have len: "4 \<le> length bs" and v: "v = NEOIP_BSWAP32 (le_word (take 4 bs))"
    and rest: "rest = drop 4 bs"
    by (auto simp: get_uint32_def split: if_splits)
  have "le_bytes (length (take 4 bs)) (le_word (take 4 bs) :: 32 word) = take 4 bs"
    by (rule le_bytes_le_word) (use len in simp)
  moreover have "length (take 4 bs) = 4" using len by simp
  ultimately have "le_bytes 4 (le_word (take 4 bs) :: 32 word) = take 4 bs" by metis
  then show ?thesis using v rest by (simp add: put_uint32_def)
qed

lemma get_uint8_inverse: "get_uint8 bs = Inr (v, rest) \<Longrightarrow> bs = put_uint8 v @ rest"
  by (cases bs) (auto simp: get_uint8_def put_uint8_def split: if_splits)

lemma rd_dtor_step:
  assumes "rd_rel mx st log m" "(i, p) \<in> set m"
  shows "\<exists>st'. sendbuf_pkt_dtor p st = Inr st' \<and> rd_rel mx st' log (stdmap_erase i m) \<and>
    seqnb2ack_list st' = seqnb2ack_list st"
proof -
  note rel = assms(1)[unfolded rd_rel_def]
  have close: "\<forall>q\<in>set m. wai_close TYPE(32) (fst q) i"
    by (rule rd_rel_close_pending[OF assms(1)]) (use assms(2) in force)
  have len: "pending_len m = length (sb_pkt p) + pending_len (stdmap_erase i m)"
    using pending_len_erase[OF _ assms(2)] rel by simp
  obtain z where z: "sendbuf_del_pkt (length (sb_pkt p)) st =
     Inr (st\<lparr>sendbuf_used_len := pending_len (stdmap_erase i m), zerotimer_maysend := z\<rparr>)"
    using sendbuf_del_pkt_ok[of "length (sb_pkt p)" st] rel len by auto
  have "sb_seqnb p = of_nat i" using rel assms(2) by fastforce
  then have db: "wmap_erase (sb_seqnb p) (sendbuf_pkt_db st) = wai_map (stdmap_erase i m)"
    using rel by (simp add: wai_map_erase[OF _ close])
  let ?st = "st\<lparr>sendbuf_used_len := pending_len (stdmap_erase i m), zerotimer_maysend := z,
               sendbuf_pkt_db := wai_map (stdmap_erase i m)\<rparr>"
  have "sendbuf_pkt_dtor p st = Inr ?st" using z db by (simp add: sendbuf_pkt_dtor_def)
  moreover have "rd_rel mx ?st log (stdmap_erase i m)"
    using rel len by (fastforce simp: rd_rel_def set_stdmap_erase sendbuf_is_limited_def)
  ultimately show ?thesis by simp
qed

lemma rd_rel_frame:
  "rd_rel mx st log m \<Longrightarrow>
   rd_rel mx (st\<lparr>seqnb2ack_list := l, zerotimer_seqnb2ack := z, zerotimer_maysend := y\<rparr>) log m"
  "rd_rel mx st log m \<Longrightarrow> rd_rel mx (st\<lparr>seqnb2ack_list := l, zerotimer_seqnb2ack := z\<rparr>) log m"
  "rd_rel mx st log m \<Longrightarrow> rd_rel mx (st\<lparr>seqnb2ack_list := l\<rparr>) log m"
  "rd_rel mx st log m \<Longrightarrow> rd_rel mx (st\<lparr>zerotimer_seqnb2ack := z, seqnb2ack_list := l\<rparr>) log m"
  "rd_rel mx st log m \<Longrightarrow> rd_rel mx (st\<lparr>zerotimer_seqnb2ack := z\<rparr>) log m"
  "rd_rel mx st log m \<Longrightarrow> rd_rel mx (st\<lparr>zerotimer_maysend := y\<rparr>) log m"
  "rd_rel mx st log m \<Longrightarrow> rd_rel mx (st\<lparr>maysend_threshold := n\<rparr>) log m"
  by (auto simp: rd_rel_def sendbuf_is_limited_def)

text \<open>A packet from the lower layer removes at most the packet that it acknowledges.\<close>

lemma rd_lower_step:
  assumes "rd_rel mx st log m"
  shows "\<exists>err out seqnb st' m'. rd_pkt_from_lower sa pkt st = Inr (err, out, seqnb, st') \<and>
    rd_rel mx st' log m' \<and>
    (m' = m \<or> (\<exists>i rest. m' = stdmap_erase i m \<and> pkt = build_ack (of_nat i) @ rest))"
proof (cases "get_uint8 pkt")
  case (Inl e)
  then show ?thesis using assms by (auto simp: rd_pkt_from_lower_def)
next
  case (Inr r)
  obtain t pkt' where r: "get_uint8 pkt = Inr (t, pkt')" using Inr by (cases r) auto
  show ?thesis
  proof (cases "t = ACK_PKT")
    case True
    have t: "t \<noteq> DATA_PKT" using True by (simp add: ACK_PKT_def DATA_PKT_def NEOIP_PKTTYPE_OFFSET_RDGRAM_def)
    show ?thesis
    proof (cases "\<exists>w rest p. get_wai32 pkt' = Inr (w, rest) \<and> find_sendbuf_pkt w st = Some p")
      case False
      then show ?thesis
        using r True t assms
        by (auto simp: rd_pkt_from_lower_def recv_ack_pkt_def split: sum.splits option.splits)
    next
      case hit: True
      then obtain w rest p where w: "get_wai32 pkt' = Inr (w, rest)" "find_sendbuf_pkt w st = Some p"
        by blast
      have "(w, p) \<in> set (wai_map m)"
        using wmap_find_SomeD[of w "sendbuf_pkt_db st" p] w(2) assms
        by (simp add: find_sendbuf_pkt_def rd_rel_def)
      then obtain i where i: "w = of_nat i" "(i, p) \<in> set m" by (auto simp: wai_map_def)
      obtain st' where st': "sendbuf_pkt_dtor p st = Inr st'" "rd_rel mx st' log (stdmap_erase i m)"
        using rd_dtor_step[OF assms i(2)] by blast
      have "pkt = build_ack (of_nat i) @ rest"
        using get_uint8_inverse[OF r] get_uint32_inverse[of pkt' w rest] w(1) True i(1)
        by (simp add: build_ack_def get_wai32_def put_wai32_def)
      then show ?thesis
        using r True t w st' by (fastforce simp: rd_pkt_from_lower_def recv_ack_pkt_def)
    qed
  next
    case False
    then have "\<exists>err out seqnb st'. rd_pkt_from_lower sa pkt st = Inr (err, out, seqnb, st') \<and>
        rd_rel mx st' log m"
      using r assms
      by (cases "get_wai32 pkt'")
        (auto simp: rd_pkt_from_lower_def recv_data_pkt_def Let_def rd_rel_frame)
    then show ?thesis by blast
  qed
qed

lemma seqnb2ack_loop_all:
  "seqnb2ack_loop (\<lambda>ev. True) l = (map (\<lambda>s. RD_PKT_TO_LOWER (build_ack s)) l, True, [])"
  by (induction l) simp_all

lemma zerotimer_notify_rd:
  "zerotimer_notify (rd_zerotimer_expire_cb (\<lambda>ev. True) z) us (evs, st) =
     Inr (True, evs @ (case z of
        ZT_MAYSEND \<Rightarrow> concat (replicate (length us) (fst (zerotimer_maysend_process (\<lambda>ev. True) st)))
      | ZT_SEQNB2ACK \<Rightarrow>
          if us = [] then [] else map (\<lambda>s. RD_PKT_TO_LOWER (build_ack s)) (seqnb2ack_list st)),
      if z = ZT_SEQNB2ACK \<and> us \<noteq> [] then st\<lparr>seqnb2ack_list := []\<rparr> else st)"
proof (induction us arbitrary: evs st)
  case (Cons u us)
  have "snd (zerotimer_maysend_process (\<lambda>ev. True) st)"
    by (simp add: zerotimer_maysend_process_def Let_def)
  then show ?case
    using Cons by (cases z)
      (auto simp: rd_zerotimer_expire_cb_def zerotimer_seqnb2ack_process_def seqnb2ack_loop_all
        case_prod_beta Let_def)
qed (cases z; simp)

text \<open>A zero timer hands the pending acknowledgements to the lower layer, or the right to send to the
  user, and does not touch the send buffer.\<close>

lemma rd_zerotimer_step:
  assumes "rd_rel mx st log m"
  shows "\<exists>evs st'. rd_zerotimer_expire (\<lambda>ev. True) z st = Inr (True, evs, st') \<and> rd_rel mx st' log m \<and>
    (\<forall>p. RD_PKT_TO_LOWER p \<in> set evs \<longrightarrow> (\<exists>s\<in>set (seqnb2ack_list st). p = build_ack s))"
  using assms
  by (cases z)
    (auto simp: rd_zerotimer_expire_def zerotimer_expire_def zerotimer_notify_rd Let_def
      zerotimer_maysend_process_def rd_rel_frame split: if_splits)

lemma wai_map_replace:
  assumes "stdmap_ok m" "(i, p) \<in> set m" "\<forall>q\<in>set m. wai_close TYPE(32) (fst q) i"
  shows "map (\<lambda>(k, q). if k = of_nat i then (k, p') else (k, q)) (wai_map m) =
    (wai_map (stdmap_replace i p' m) :: (32 word \<times> _) list)"
  using assms
proof (induction m)
  case (Cons q m)
  obtain j v where q: "q = (j, v)" by (cases q)
  have eq: "(of_nat j :: 32 word) = of_nat i \<longleftrightarrow> j = i"
    using Cons.prems(3) q wai_order_of_nat(4) by fastforce
  show ?case
  proof (cases "j = i")
    case True
    have "map (\<lambda>(k, q). if k = (of_nat i :: 32 word) then (k, p') else (k, q)) (wai_map m) = wai_map m"
    proof (rule map_idI)
      fix x assume "x \<in> set (wai_map m :: (32 word \<times> _) list)"
      then obtain k y where x: "x = (of_nat k, y)" "(k, y) \<in> set m" by (auto simp: wai_map_def)
      then have "wai_close TYPE(32) k i" "i < k" using Cons.prems(1,3) q True by fastforce+
      then have "(of_nat k :: 32 word) \<noteq> of_nat i" using wai_order_of_nat(4)[of k i] by auto
      then show "(case x of (k, q) \<Rightarrow> if k = of_nat i then (k, p') else (k, q)) = x" using x by simp
    qed
    then show ?thesis using q True by simp
  next
    case False
    then show ?thesis using Cons q eq by simp
  qed
qed simp

lemma rd_rxmit_step:
  assumes "rd_rel mx st log m"
  shows "\<exists>evs st' m'. rd_rxmit w st = Inr (evs, st') \<and> rd_rel mx st' log m' \<and> map fst m' = map fst m \<and>
    seqnb2ack_list st' = seqnb2ack_list st \<and>
    (evs = [] \<or> (\<exists>i\<in>fst ` set m. w = of_nat i \<and> evs = [RD_PKT_TO_LOWER (data_pkt i (log ! i))]))"
proof (cases "find_sendbuf_pkt w st")
  case None
  then show ?thesis using assms by (auto simp: rd_rxmit_def)
next
  case (Some p)
  note rel = assms[unfolded rd_rel_def]
  have "(w, p) \<in> set (wai_map m)"
    using wmap_find_SomeD[of w "sendbuf_pkt_db st" p] Some rel by (simp add: find_sendbuf_pkt_def)
  then obtain i where i: "w = of_nat i" "(i, p) \<in> set m" by (auto simp: wai_map_def)
  have safe: "expboff_safe (rxmit_timer_policy p)" and pkt: "sb_pkt p = data_pkt i (log ! i)"
    using rel i(2) by fastforce+
  obtain d where d: "expboff_next (rxmit_timer_policy p) =
      Inr (d, (rxmit_timer_policy p)\<lparr>delay_current := d\<rparr>)"
    "expboff_safe ((rxmit_timer_policy p)\<lparr>delay_current := d\<rparr>)" using expboff_next_ok[OF safe] by blast
  define p' where "p' = p\<lparr>rxmit_timer_policy := (rxmit_timer_policy p)\<lparr>delay_current := d\<rparr>,
    rxmit_timeout := d\<rparr>"
  let ?m = "stdmap_replace i p' m"
  have close: "\<forall>q\<in>set m. wai_close TYPE(32) (fst q) i"
    by (rule rd_rel_close_pending[OF assms]) (use i(2) in force)
  have run: "rd_rxmit w st = Inr ([RD_PKT_TO_LOWER (sb_pkt p)], st\<lparr>sendbuf_pkt_db := wai_map ?m\<rparr>)"
    using Some d i wai_map_replace[OF _ i(2) close, of p'] rel
    by (simp add: rd_rxmit_def rd_timeout_expire_cb_def flip: p'_def)
  have len: "stdmap_ok n \<Longrightarrow> (i, p) \<in> set n \<Longrightarrow> pending_len (stdmap_replace i p' n) = pending_len n" for n
    using pkt by (induction n) (auto simp: pending_len_def p'_def)
  have sub: "set (stdmap_replace i p' n) \<subseteq> insert (i, p') (set n)" for n
    by (induction n) (auto split: if_splits)
  have "rd_rel mx (st\<lparr>sendbuf_pkt_db := wai_map ?m\<rparr>) log ?m"
    using rel len[of m] sub[of m] i(2) d(2)
    by (fastforce simp: rd_rel_def p'_def sendbuf_is_limited_def)
  then show ?thesis using run pkt i by force
qed

subsection \<open>Properties\<close>

definition op_is_upper :: "rd_op \<Rightarrow> bool" where
  "op_is_upper op = (case op of Op_upper mem p \<Rightarrow> True | _ \<Rightarrow> False)"

text \<open>The packets of the user are well formed buffers; \<open>op_fits\<close> says that the header can be put in front
  of the buffer.\<close>

definition op_sane :: "rd_op \<Rightarrow> bool" where
  "op_sane op = (case op of Op_upper mem p \<Rightarrow> serial_inv p | _ \<Rightarrow> True)"

definition op_fits :: "rd_op \<Rightarrow> bool" where
  "op_fits op = (case op of Op_upper mem p \<Rightarrow> head_shift_fits 5 p | _ \<Rightarrow> True)"

definition acked_in :: "rd_op list \<Rightarrow> nat \<Rightarrow> bool" where
  "acked_in ops i = (\<exists>rest. Op_lower (build_ack (of_nat i) @ rest) \<in> set ops)"

text \<open>Every operation returns and keeps the relation; only an acknowledgement removes a packet.\<close>

lemma rd_step_ok:
  assumes "rd_rel mx st log m" "op_is_upper op \<longrightarrow> Suc (length log) < 2 ^ 31" "op_sane op" "op_fits op"
  shows "\<exists>evs st' log' m'. rd_step sa op (st, log) = Inr (evs, st', log') \<and> rd_rel mx st' log' m' \<and>
    (log' = log \<or> op_is_upper op \<and> (\<exists>pkt. log' = log @ [pkt])) \<and>
    (\<forall>i<length log'. i \<in> fst ` set m' \<or> (i < length log \<and> i \<notin> fst ` set m) \<or> acked_in [op] i) \<and>
    (\<forall>p. RD_PKT_TO_LOWER p \<in> set evs \<longrightarrow>
       (\<exists>i<length log'. p = data_pkt i (log' ! i)) \<or> (\<exists>s. p = build_ack s))"
proof (cases op)
  case (Op_upper mem pkt)
  have fit: "serial_inv pkt" "head_shift_fits 5 pkt"
    using assms(3,4) Op_upper by (simp_all add: op_sane_def op_fits_def)
  have "\<forall>i\<in>fst ` set m. Suc (length log) < i + 2 ^ 31"
    using assms(2) Op_upper by (auto simp: op_is_upper_def)
  from rd_upper_step[OF assms(1) this fit, of mem] show ?thesis
  proof (elim disjE exE conjE)
    assume "rd_pkt_from_upper mem pkt st = Inr (SENDBUF_FULL, data_pkt (length log) (serial_bytes pkt), st)"
    then show ?thesis using Op_upper assms(1) by auto
  next
    fix p st' assume up: "rd_pkt_from_upper mem pkt st = Inr (RD_OK, data_pkt (length log) (serial_bytes pkt), st')"
      "rd_rel mx st' (log @ [serial_bytes pkt]) (stdmap_insert (length log) p m)"
    have "fst ` set (stdmap_insert (length log) p m) = insert (length log) (fst ` set m)"
      using assms(1) by (auto simp: rd_rel_def set_stdmap_insert)
    then show ?thesis
      using Op_upper up
      by (intro exI[of _ "[RD_PKT_TO_LOWER (data_pkt (length log) (serial_bytes pkt))]"] exI[of _ st']
          exI[of _ "log @ [serial_bytes pkt]"] exI[of _ "stdmap_insert (length log) p m"])
        (auto simp: op_is_upper_def nth_append less_Suc_eq)
  qed
next
  case (Op_lower pkt)
  obtain err out sq st' m' where low: "rd_pkt_from_lower sa pkt st = Inr (err, out, sq, st')"
    "rd_rel mx st' log m'"
    "m' = m \<or> (\<exists>i rest. m' = stdmap_erase i m \<and> pkt = build_ack (of_nat i) @ rest)"
    using rd_lower_step[OF assms(1), of sa pkt] by blast
  have "i \<in> fst ` set m' \<or> i \<notin> fst ` set m \<or> acked_in [op] i" for i
    using low(3) Op_lower by (force simp: set_stdmap_erase acked_in_def)
  then show ?thesis using Op_lower low by fastforce
next
  case (Op_zerotimer z)
  then show ?thesis using rd_zerotimer_step[OF assms(1), of z] by fastforce
next
  case (Op_rxmit w)
  obtain evs st' m' where rx: "rd_rxmit w st = Inr (evs, st')" "rd_rel mx st' log m'"
    "map fst m' = map fst m"
    "evs = [] \<or> (\<exists>i\<in>fst ` set m. w = of_nat i \<and> evs = [RD_PKT_TO_LOWER (data_pkt i (log ! i))])"
    using rd_rxmit_step[OF assms(1), of w] by blast
  have "fst ` set m' = fst ` set m" using rx(3) by (metis set_map)
  moreover have "\<forall>i\<in>fst ` set m. i < length log" using assms(1) by (auto simp: rd_rel_def)
  ultimately show ?thesis using rx Op_rxmit by fastforce
next
  case (Op_threshold n)
  have "rd_rel mx (snd (maysend_set_threshold n st)) log m"
    using assms(1) by (simp add: maysend_set_threshold_def maysend_notify_def Let_def rd_rel_frame)
  then show ?thesis using Op_threshold by fastforce
qed

lemma acked_in_Cons: "acked_in (op # ops) i \<longleftrightarrow> acked_in [op] i \<or> acked_in ops i"
  by (auto simp: acked_in_def)

lemma rd_run_ok:
  assumes "rd_rel mx st log m" "length log + length (filter op_is_upper ops) < 2 ^ 31"
    "\<forall>op\<in>set ops. op_sane op \<and> op_fits op"
  shows "\<exists>evs st' log' m'. rd_run sa ops (st, log) = Inr (evs, st', log') \<and> rd_rel mx st' log' m' \<and>
    (\<exists>ext. log' = log @ ext) \<and>
    (\<forall>i<length log'. i \<in> fst ` set m' \<or> (i < length log \<and> i \<notin> fst ` set m) \<or> acked_in ops i) \<and>
    (\<forall>p. RD_PKT_TO_LOWER p \<in> set evs \<longrightarrow>
       (\<exists>i<length log'. p = data_pkt i (log' ! i)) \<or> (\<exists>s. p = build_ack s))"
  using assms
proof (induction ops arbitrary: st log m)
  case Nil
  then show ?case by auto
next
  case (Cons op ops)
  obtain evs1 st1 log1 m1 where s: "rd_step sa op (st, log) = Inr (evs1, st1, log1)" "rd_rel mx st1 log1 m1"
    "log1 = log \<or> op_is_upper op \<and> (\<exists>pkt. log1 = log @ [pkt])"
    "\<forall>i<length log1. i \<in> fst ` set m1 \<or> (i < length log \<and> i \<notin> fst ` set m) \<or> acked_in [op] i"
    "\<forall>p. RD_PKT_TO_LOWER p \<in> set evs1 \<longrightarrow>
       (\<exists>i<length log1. p = data_pkt i (log1 ! i)) \<or> (\<exists>s. p = build_ack s)"
    using rd_step_ok[OF Cons.prems(1), of op sa] Cons.prems(2,3) by fastforce
  have "length log1 + length (filter op_is_upper ops) < 2 ^ 31" using s(3) Cons.prems(2) by (auto split: if_splits)
  then obtain evs2 st2 log2 m2 ext where r: "rd_run sa ops (st1, log1) = Inr (evs2, st2, log2)"
    "rd_rel mx st2 log2 m2" "log2 = log1 @ ext"
    "\<forall>i<length log2. i \<in> fst ` set m2 \<or> (i < length log1 \<and> i \<notin> fst ` set m1) \<or> acked_in ops i"
    "\<forall>p. RD_PKT_TO_LOWER p \<in> set evs2 \<longrightarrow>
       (\<exists>i<length log2. p = data_pkt i (log2 ! i)) \<or> (\<exists>s. p = build_ack s)"
    using Cons.IH[OF s(2)] Cons.prems(3) by auto
  have "\<exists>i<length log2. p = data_pkt i (log2 ! i)" if "i < length log1" "p = data_pkt i (log1 ! i)" for p i
    using that r(3) by (auto simp: nth_append intro!: exI[of _ i])
  then have ev: "\<forall>p. RD_PKT_TO_LOWER p \<in> set (evs1 @ evs2) \<longrightarrow>
       (\<exists>i<length log2. p = data_pkt i (log2 ! i)) \<or> (\<exists>s. p = build_ack s)"
    using s(5) r(5) by (auto 0 3)
  have "\<forall>i<length log2. i \<in> fst ` set m2 \<or> (i < length log \<and> i \<notin> fst ` set m) \<or> acked_in (op # ops) i"
    using s(4) r(4) acked_in_Cons by blast
  moreover have "\<exists>e. log2 = log @ e" using s(3) r(3) by auto
  ultimately show ?case using s(1) r(1,2) ev by auto
qed

text \<open>A history with a packet that has no room for the header fails there, since nothing fails before.\<close>

lemma rd_run_unfit:
  assumes "rd_rel mx st log m" "length log + length (filter op_is_upper ops) < 2 ^ 31"
    "\<forall>op\<in>set ops. op_sane op" "\<exists>op\<in>set ops. \<not> op_fits op"
  shows "rd_run sa ops (st, log) = Inl Assert_failed"
  using assms
proof (induction ops arbitrary: st log m)
  case (Cons op ops)
  show ?case
  proof (cases "op_fits op")
    case True
    obtain evs1 st1 log1 m1 where s: "rd_step sa op (st, log) = Inr (evs1, st1, log1)" "rd_rel mx st1 log1 m1"
      "log1 = log \<or> op_is_upper op \<and> (\<exists>pkt. log1 = log @ [pkt])"
      using rd_step_ok[OF Cons.prems(1), of op sa] Cons.prems(2,3) True by fastforce
    have "length log1 + length (filter op_is_upper ops) < 2 ^ 31" using s(3) Cons.prems(2) by (auto split: if_splits)
    then show ?thesis using Cons.IH[OF s(2)] Cons.prems(3,4) True s(1) by simp
  next
    case False
    then obtain mem pkt where "op = Op_upper mem pkt" "\<not> head_shift_fits 5 pkt"
      by (auto simp: op_fits_def split: rd_op.splits)
    then show ?thesis
      using rd_pkt_from_upper_cases[of pkt mem st] Cons.prems(3) by (simp add: op_sane_def)
  qed
qed simp

lemma rd_rel_ctor: "rd_rel n (rdgram_ctor\<lparr>sendbuf_max_len := n, rd_callback := c\<rparr>) [] []"
  by (simp add: rd_rel_def rdgram_ctor_def FIRST_SEQNB_def pending_len_def)

text \<open>C15. Reliability of the sender, in any history of calls with well formed buffers, received packets
  (whatever their contents) and timer expiries, with fewer than 2^31 packets from the user.  When
  every buffer of the user has room for the header in the sense of \<open>op_fits\<close>, no operation fails; every
  accepted packet that is no longer in the send buffer was acknowledged by number; the used length is
  the exact size of the pending packets and within the limit; and every data packet handed to the
  lower layer, first transmission or retransmission, carries the number and the payload of an accepted
  packet.  When some buffer has no such room, the sanity assertion of \<open>head_alloc\<close> fails.\<close>
theorem rdgram_keeps_unacked:
  assumes "length (filter op_is_upper ops) < 2 ^ 31" "\<forall>op\<in>set ops. op_sane op"
  shows "if \<forall>op\<in>set ops. op_fits op
    then \<exists>evs st log.
      rd_run sa ops (rdgram_ctor\<lparr>sendbuf_max_len := n, rd_callback := True\<rparr>, []) = Inr (evs, st, log) \<and>
      (\<forall>i<length log. acked_in ops i \<or>
         (\<exists>p. find_sendbuf_pkt (of_nat i) st = Some p \<and> sb_pkt p = data_pkt i (log ! i))) \<and>
      sendbuf_used_len st = sum_list (map (\<lambda>p. length (sb_pkt (snd p))) (sendbuf_pkt_db st)) \<and>
      (n \<noteq> 0 \<longrightarrow> sendbuf_used_len st \<le> n) \<and>
      (\<forall>p. RD_PKT_TO_LOWER p \<in> set evs \<longrightarrow>
         (\<exists>i<length log. p = data_pkt i (log ! i)) \<or> (\<exists>s. p = build_ack s))
    else rd_run sa ops (rdgram_ctor\<lparr>sendbuf_max_len := n, rd_callback := True\<rparr>, []) = Inl Assert_failed"
proof (cases "\<forall>op\<in>set ops. op_fits op")
  case True
  obtain evs st log m where r: "rd_run sa ops
      (rdgram_ctor\<lparr>sendbuf_max_len := n, rd_callback := True\<rparr>, []) = Inr (evs, st, log)"
    "rd_rel n st log m" "\<forall>i<length log. i \<in> fst ` set m \<or> acked_in ops i"
    "\<forall>p. RD_PKT_TO_LOWER p \<in> set evs \<longrightarrow>
       (\<exists>i<length log. p = data_pkt i (log ! i)) \<or> (\<exists>s. p = build_ack s)"
    using rd_run_ok[OF rd_rel_ctor[of n True], of ops sa] assms True by auto
  note rel = r(2)[unfolded rd_rel_def]
  have "\<exists>p. find_sendbuf_pkt (of_nat i) st = Some p \<and> sb_pkt p = data_pkt i (log ! i)"
    if "i \<in> fst ` set m" for i using rd_rel_find[OF r(2) that] .
  moreover have "sum_list (map (\<lambda>p. length (sb_pkt (snd p))) (sendbuf_pkt_db st)) = pending_len m"
    using rel by (simp add: wai_map_def pending_len_def comp_def case_prod_beta)
  moreover have "n \<noteq> 0 \<longrightarrow> sendbuf_used_len st \<le> n"
    using rel by (auto simp: sendbuf_is_limited_def split: if_splits)
  moreover have "sendbuf_used_len st = pending_len m" using rel by blast
  ultimately show ?thesis using r(1,3,4) True by (simp only: if_True) metis
next
  case False
  then show ?thesis using rd_run_unfit[OF rd_rel_ctor[of n True], of ops sa] assms by auto
qed

text \<open>A buffer that holds exactly its bytes, as the constructor from bytes without copy makes it.\<close>

definition exact_buffer :: "bytes \<Rightarrow> serial_t" where
  "exact_buffer bs = \<lparr>full_data = bs, used_ptr = 0, used_len = length bs, grow_length = GROW_LENGTH_DFL\<rparr>"

lemma exact_buffer [simp]:
  "serial_inv (exact_buffer bs)" "serial_bytes (exact_buffer bs) = bs" "head_shift_fits 5 (exact_buffer bs)"
  by (simp_all add: exact_buffer_def serial_inv_iff serial_bytes_def rdbuf_def head_shift_fits_def
      head_freelen_def tail_freelen_def full_length_def GROW_LENGTH_DFL_def)

theorem rdgram_keeps_unacked_witness:
  "\<exists>evs st log. rd_run (\<lambda>p s. True)
      [Op_upper (\<lambda>_. 0) (exact_buffer [1, 2]), Op_upper (\<lambda>_. 0) (exact_buffer [3]),
       Op_lower (build_ack 0), Op_rxmit 1]
      (rdgram_ctor\<lparr>sendbuf_max_len := 100, rd_callback := True\<rparr>, []) = Inr (evs, st, log) \<and>
    sendbuf_used_len st \<le> 100"
  using rdgram_keeps_unacked[of "[Op_upper (\<lambda>_. 0) (exact_buffer [1, 2]), Op_upper (\<lambda>_. 0) (exact_buffer [3]),
      Op_lower (build_ack 0), Op_rxmit 1]" "\<lambda>p s. True" 100]
  by (auto simp: op_is_upper_def op_sane_def op_fits_def simp del: rd_run.simps)

text \<open>The loop of \<open>stop\<close> ends.\<close>

lemma rd_stop_loop_ok:
  "rd_rel mx st log m \<Longrightarrow> length m \<le> n \<Longrightarrow> \<exists>st'. rd_stop_loop n st = Inr st' \<and> rd_rel mx st' log []"
proof (induction n arbitrary: st m)
  case 0
  then show ?case by (auto simp: rd_stop_loop.simps rd_rel_def)
next
  case (Suc n)
  have db: "sendbuf_pkt_db st = wai_map m" using Suc.prems(1) by (simp add: rd_rel_def)
  show ?case
  proof (cases m)
    case Nil
    then show ?thesis using db Suc.prems(1) by (simp add: rd_stop_loop.simps)
  next
    case (Cons q m')
    obtain i p where q: "q = (i, p)" by (cases q)
    obtain st' where st': "sendbuf_pkt_dtor p st = Inr st'" "rd_rel mx st' log (stdmap_erase i m)"
      using rd_dtor_step[OF Suc.prems(1), of i p] Cons q by auto
    have "length (stdmap_erase i m) \<le> n"
      using Suc.prems(2) Cons q by (simp add: stdmap_erase_def le_trans[OF length_filter_le])
    then show ?thesis
      using Suc.IH[OF st'(2)] st'(1) db Cons q by (simp add: rd_stop_loop.simps[of "Suc n"])
  qed
qed

text \<open>C35. \<open>stop\<close> ends after any history: it destroys every pending packet with its timer and leaves an
  empty send buffer whose used length is 0.\<close>
theorem rdgram_stop_empties:
  assumes "length (filter op_is_upper ops) < 2 ^ 31" "\<forall>op\<in>set ops. op_sane op"
    "rd_run sa ops (rdgram_ctor\<lparr>sendbuf_max_len := n, rd_callback := True\<rparr>, []) = Inr (evs, st, log)"
  shows "\<exists>st'. rd_stop st = Inr st' \<and> sendbuf_pkt_db st' = [] \<and> sendbuf_used_len st' = 0 \<and>
    rd_next_xmit_seqnb st' = rd_next_xmit_seqnb st"
proof -
  obtain m where rel: "rd_rel n st log m"
    using rd_run_ok[OF rd_rel_ctor[of n True], of ops sa] rd_run_unfit[OF rd_rel_ctor[of n True], of ops sa]
      assms by (cases "\<forall>op\<in>set ops. op_fits op") auto
  have "length m \<le> length (sendbuf_pkt_db st)" using rel by (simp add: rd_rel_def wai_map_def)
  then obtain st' where "rd_stop st = Inr st'" "rd_rel n st' log []"
    using rd_stop_loop_ok[OF rel] unfolding rd_stop_def by blast
  then show ?thesis using rel by (auto simp: rd_rel_def pending_len_def)
qed

theorem rdgram_stop_empties_witness:
  "\<exists>evs st log st'. rd_run (\<lambda>p s. True) [Op_upper (\<lambda>_. 0) (exact_buffer [1, 2]), Op_upper (\<lambda>_. 0) (exact_buffer [3])]
      (rdgram_ctor\<lparr>sendbuf_max_len := 100, rd_callback := True\<rparr>, []) = Inr (evs, st, log) \<and>
    rd_stop st = Inr st' \<and> sendbuf_pkt_db st' = []"
proof -
  have b: "length (filter op_is_upper [Op_upper (\<lambda>_. 0) (exact_buffer [1, 2]), Op_upper (\<lambda>_. 0) (exact_buffer [3])]) < 2 ^ 31"
    and s: "\<forall>op\<in>set [Op_upper (\<lambda>_. 0) (exact_buffer [1, 2]), Op_upper (\<lambda>_. 0) (exact_buffer [3])]. op_sane op"
    and f: "\<forall>op\<in>set [Op_upper (\<lambda>_. 0) (exact_buffer [1, 2]), Op_upper (\<lambda>_. 0) (exact_buffer [3])]. op_sane op \<and> op_fits op"
    by (simp_all add: op_is_upper_def op_sane_def op_fits_def)
  obtain evs st log where "rd_run (\<lambda>p s. True) [Op_upper (\<lambda>_. 0) (exact_buffer [1, 2]), Op_upper (\<lambda>_. 0) (exact_buffer [3])]
      (rdgram_ctor\<lparr>sendbuf_max_len := 100, rd_callback := True\<rparr>, []) = Inr (evs, st, log)"
    using rd_run_ok[OF rd_rel_ctor[of 100 True], of "[Op_upper (\<lambda>_. 0) (exact_buffer [1, 2]), Op_upper (\<lambda>_. 0) (exact_buffer [3])]"] b f by fastforce
  then show ?thesis using rdgram_stop_empties[OF b s] by blast
qed

end
