(* ===== verification/Ordgram.thy ===== *)
theory Ordgram
  imports Rdgram
begin

text \<open>
  Ordered datagrams: \<open>ordgram_t\<close> (\<open>neoip_ordgram.cpp\<close>) on top of \<open>rdgram_t\<close>.  The receiver hands packets
  up in the order of their sequence numbers: the expected one is handed up as it arrives, later
  ones are stored in the receive buffer and handed up from a zero timer when the gap is filled.

  As in theory \<open>Rdgram\<close>, \<open>cb\<close> answers events with whether the object is kept, and the operations return
  the events.
\<close>

subsection \<open>State\<close>

datatype ordgram_event_t =
    OG_NONE | OG_PKT_TO_LOWER bytes | OG_PKT_TO_UPPER bytes | OG_MAYSEND_ON | OG_MAYSEND_OFF

record recvbuf_pkt_t =
  rb_seqnb :: "32 word"
  rb_pkt :: bytes

record ordgram_t =
  og_rdgram :: rdgram_t
  recvbuf_pkt_db :: "(32 word \<times> recvbuf_pkt_t) list"
  recvbuf_max_len :: nat
  recvbuf_used_len :: nat
  next_seqnb_to_deliver :: "32 word"
  og_callback :: bool
  zerotimer_deliver :: "unit zerotimer_t"

definition RECVBUF_MAX_LEN_DFL :: nat where "RECVBUF_MAX_LEN_DFL = 30 * 1024"

definition ordgram_ctor :: ordgram_t where
  "ordgram_ctor =
     \<lparr>og_rdgram = rdgram_ctor, recvbuf_pkt_db = [], recvbuf_max_len = RECVBUF_MAX_LEN_DFL,
      recvbuf_used_len = 0, next_seqnb_to_deliver = FIRST_SEQNB, og_callback = False,
      zerotimer_deliver = zerotimer_ctor\<rparr>"

definition og_set_callback :: "bool \<Rightarrow> ordgram_t \<Rightarrow> rdgram_err_t \<times> ordgram_t" where
  "og_set_callback c st = (RD_OK, st\<lparr>og_callback := c\<rparr>)"

definition og_start :: "ordgram_t \<Rightarrow> (rdgram_err_t \<times> ordgram_t) res" where
  "og_start st =
     dbg_assert (og_callback st)
       (res_bind (rd_start_with True (og_rdgram st)) (\<lambda>(err, rd).
          if err \<noteq> RD_OK then Inr (err, st\<lparr>og_rdgram := rd\<rparr>) else Inr (RD_OK, st\<lparr>og_rdgram := rd\<rparr>)))"

definition og_start_with :: "bool \<Rightarrow> ordgram_t \<Rightarrow> (rdgram_err_t \<times> ordgram_t) res" where
  "og_start_with c st =
     (let (err, st) = og_set_callback c st in
      if err \<noteq> RD_OK then Inr (err, st) else og_start st)"

subsection \<open>Callbacks\<close>

text \<open>Events of the lower layer are passed on.\<close>

definition og_rdgram_event_cb ::
  "(ordgram_event_t \<Rightarrow> bool) \<Rightarrow> rdgram_event_t \<Rightarrow> (ordgram_event_t \<times> bool) res" where
  "og_rdgram_event_cb cb ev =
     (case ev of
        RD_MAYSEND_OFF \<Rightarrow> Inr (OG_MAYSEND_OFF, cb OG_MAYSEND_OFF)
      | RD_MAYSEND_ON \<Rightarrow> Inr (OG_MAYSEND_ON, cb OG_MAYSEND_ON)
      | RD_PKT_TO_LOWER pkt \<Rightarrow> Inr (OG_PKT_TO_LOWER pkt, cb (OG_PKT_TO_LOWER pkt))
      | RD_NONE \<Rightarrow> Inl Assert_failed)"

definition should_acked_pkt_cb :: "ordgram_t \<Rightarrow> bytes \<Rightarrow> 32 word \<Rightarrow> bool" where
  "should_acked_pkt_cb st pkt seqnb =
     (if wai_lt seqnb (next_seqnb_to_deliver st) then True
      else if wmap_find seqnb (recvbuf_pkt_db st) \<noteq> None then True
      else if recvbuf_used_len st + length pkt > recvbuf_max_len st then False
      else True)"

text \<open>The zero timer first drops the packets that were delivered in the meantime, without correcting the
  used length, then delivers as long as the next packet is there.\<close>

fun drop_obsolete :: "32 word \<Rightarrow> (32 word \<times> recvbuf_pkt_t) list \<Rightarrow> (32 word \<times> recvbuf_pkt_t) list" where
  "drop_obsolete n [] = []"
| "drop_obsolete n ((k, p) # m) = (if wai_ge (rb_seqnb p) n then (k, p) # m else drop_obsolete n m)"

lemma wmap_erase_shorter: "wmap_find k m = Some v \<Longrightarrow> length (wmap_erase k m) < length m"
  by (induction k m rule: wmap_find.induct) (auto split: if_splits)

function deliver_loop ::
  "(ordgram_event_t \<Rightarrow> bool) \<Rightarrow> ordgram_t \<Rightarrow> ordgram_event_t list \<times> bool \<times> ordgram_t" where
  "deliver_loop cb st =
     (if recvbuf_pkt_db st = [] then ([], True, st)
      else case wmap_find (next_seqnb_to_deliver st) (recvbuf_pkt_db st) of
        None \<Rightarrow> ([], True, st)
      | Some p \<Rightarrow>
          let st = st\<lparr>recvbuf_used_len := size_sub (recvbuf_used_len st) (length (rb_pkt p))\<rparr>;
              ev = OG_PKT_TO_UPPER (rb_pkt p)
          in if \<not> cb ev then ([ev], False, st)
             else
               let (evs, tokeep, st') = deliver_loop cb
                     (st\<lparr>recvbuf_pkt_db := wmap_erase (next_seqnb_to_deliver st) (recvbuf_pkt_db st),
                         next_seqnb_to_deliver := wai_incr (next_seqnb_to_deliver st)\<rparr>)
               in (ev # evs, tokeep, st'))"
  by pat_completeness auto
termination
  by (relation "measure (\<lambda>(cb, st). length (recvbuf_pkt_db st))") (auto simp: wmap_erase_shorter)

declare deliver_loop.simps [simp del]

definition og_zerotimer_expire_cb ::
  "(ordgram_event_t \<Rightarrow> bool) \<Rightarrow> ordgram_t \<Rightarrow> ordgram_event_t list \<times> bool \<times> ordgram_t" where
  "og_zerotimer_expire_cb cb st =
     deliver_loop cb (st\<lparr>recvbuf_pkt_db :=
       drop_obsolete (next_seqnb_to_deliver st) (recvbuf_pkt_db st)\<rparr>)"

definition og_zerotimer_expire ::
  "(ordgram_event_t \<Rightarrow> bool) \<Rightarrow> ordgram_t \<Rightarrow> (bool \<times> ordgram_event_t list \<times> ordgram_t) res" where
  "og_zerotimer_expire cb st =
     zerotimer_expire (\<lambda>w. zerotimer_deliver (snd w))
       (\<lambda>t w. (fst w, (snd w)\<lparr>zerotimer_deliver := t\<rparr>))
       (\<lambda>u w. let (evs, tokeep, st') = og_zerotimer_expire_cb cb (snd w)
              in Inr (tokeep, fst w @ evs, st')) ([], st)"

subsection \<open>Packets\<close>

definition og_pkt_from_upper ::
  "(nat \<Rightarrow> byte) \<Rightarrow> serial_t \<Rightarrow> ordgram_t \<Rightarrow> (rdgram_err_t \<times> bytes \<times> ordgram_t) res" where
  "og_pkt_from_upper mem pkt st =
     res_bind (rd_pkt_from_upper mem pkt (og_rdgram st)) (\<lambda>(err, pkt, rd).
       Inr (err, pkt, st\<lparr>og_rdgram := rd\<rparr>))"

definition og_pkt_from_lower_outoforder :: "bytes \<Rightarrow> 32 word \<Rightarrow> ordgram_t \<Rightarrow> (bytes \<times> ordgram_t) res" where
  "og_pkt_from_lower_outoforder pkt seqnb st =
     dbg_assert (\<not> wai_eq seqnb (next_seqnb_to_deliver st))
      (if wai_lt seqnb (next_seqnb_to_deliver st) then Inr ([], st)
       else if wmap_find seqnb (recvbuf_pkt_db st) \<noteq> None then Inr ([], st)
       else dbg_assert (recvbuf_used_len st + length pkt \<le> recvbuf_max_len st)
         (Inr ([], st\<lparr>recvbuf_used_len := recvbuf_used_len st + length pkt,
                     recvbuf_pkt_db := wmap_insert seqnb \<lparr>rb_seqnb = seqnb, rb_pkt = pkt\<rparr>
                                         (recvbuf_pkt_db st)\<rparr>)))"

definition og_pkt_from_lower :: "bytes \<Rightarrow> ordgram_t \<Rightarrow> (rdgram_err_t \<times> bytes \<times> ordgram_t) res" where
  "og_pkt_from_lower pkt st =
     res_bind (rd_pkt_from_lower (should_acked_pkt_cb st) pkt (og_rdgram st)) (\<lambda>(err, pkt, sq, rd).
       let st = st\<lparr>og_rdgram := rd\<rparr>; seqnb = (case sq of None \<Rightarrow> 0 | Some s \<Rightarrow> s) in
       if err \<noteq> RD_OK then Inr (err, pkt, st)
       else if pkt = [] then Inr (err, pkt, st)
       else if wai_lt seqnb (next_seqnb_to_deliver st) then Inr (RD_OK, [], st)
       else if wai_gt seqnb (next_seqnb_to_deliver st)
       then res_bind (og_pkt_from_lower_outoforder pkt seqnb st) (\<lambda>(pkt, st). Inr (RD_OK, pkt, st))
       else
         let st = st\<lparr>next_seqnb_to_deliver := wai_incr (next_seqnb_to_deliver st)\<rparr>;
             st = (if recvbuf_pkt_db st \<noteq> []
                   then st\<lparr>zerotimer_deliver := zerotimer_append () (zerotimer_deliver st)\<rparr> else st)
         in Inr (RD_OK, pkt, st))"

subsection \<open>The receive buffer and the packets of the peer\<close>

text \<open>\<open>log\<close> are the payloads of the peer by number, \<open>n\<close> the number of packets handed up, \<open>m\<close> the receive
  buffer by number.\<close>

definition stored_len :: "(nat \<times> recvbuf_pkt_t) list \<Rightarrow> nat" where
  "stored_len m = sum_list (map (\<lambda>p. length (rb_pkt (snd p))) m)"

definition og_rel :: "ordgram_t \<Rightarrow> bytes list \<Rightarrow> nat \<Rightarrow> (nat \<times> recvbuf_pkt_t) list \<Rightarrow> bool" where
  "og_rel st log n m \<longleftrightarrow>
     recvbuf_pkt_db st = wai_map m \<and> stdmap_ok m \<and> next_seqnb_to_deliver st = of_nat n \<and>
     n \<le> length log \<and>
     (\<forall>(i, p)\<in>set m. i < length log \<and> rb_seqnb p = of_nat i \<and> rb_pkt p = log ! i) \<and>
     stored_len m \<le> recvbuf_used_len st \<and> recvbuf_used_len st \<le> recvbuf_max_len st \<and>
     recvbuf_max_len st < 2 ^ 64"

lemma og_rel_ctor: "og_rel ordgram_ctor log 0 []"
  by (simp add: og_rel_def ordgram_ctor_def FIRST_SEQNB_def stored_len_def RECVBUF_MAX_LEN_DFL_def)

lemma og_close:
  "length log \<le> 2 ^ 31 - 1 \<Longrightarrow> i \<le> length log \<Longrightarrow> j \<le> length log \<Longrightarrow> wai_close TYPE(32) i j"
  by (simp add: wai_close_def)

lemma og_rel_close:
  assumes "og_rel st log n m" "length log \<le> 2 ^ 31 - 1" "i \<le> length log"
  shows "\<forall>p\<in>set m. wai_close TYPE(32) (fst p) i"
  using assms og_close by (fastforce simp: og_rel_def)

lemma og_find:
  assumes "og_rel st log n m" "length log \<le> 2 ^ 31 - 1" "i \<le> length log"
  shows "wmap_find (of_nat i) (recvbuf_pkt_db st) = map_of m i"
  using assms(1) wai_map_find[OF _ og_rel_close[OF assms]] by (simp add: og_rel_def)

lemma og_rel_find:
  assumes "og_rel st log n m" "length log \<le> 2 ^ 31 - 1" "i \<in> fst ` set m"
  shows "\<exists>p. wmap_find (of_nat i) (recvbuf_pkt_db st) = Some p \<and> rb_pkt p = log ! i"
proof -
  note rel = assms(1)[unfolded og_rel_def]
  obtain p where p: "(i, p) \<in> set m" using assms(3) by auto
  then have "map_of m i = Some p" using rel stdmap_ok_distinct by (intro map_of_is_SomeI) auto
  moreover have "i \<le> length log" using rel p by fastforce
  ultimately show ?thesis using og_find[OF assms(1,2), of i] rel p by auto
qed

lemma drop_obsolete_eq:
  assumes "stdmap_ok m" "\<forall>(i, p)\<in>set m. rb_seqnb p = of_nat i \<and> wai_close TYPE(32) i n"
  shows "drop_obsolete (of_nat n) (wai_map m) = wai_map (filter (\<lambda>q. n \<le> fst q) m)"
  using assms
proof (induction m)
  case (Cons q m)
  obtain i p where q: "q = (i, p)" by (cases q)
  have ge: "wai_ge (rb_seqnb p) (of_nat n) \<longleftrightarrow> n \<le> i"
    using Cons.prems(2) q wai_order_of_nat(3)[of i n] by auto
  have "filter (\<lambda>q. n \<le> fst q) m = m" if "n \<le> i"
    using Cons.prems(1) q that by (force simp: filter_id_conv)
  then show ?case using Cons q ge by auto
qed simp

lemma stored_len_erase:
  "stdmap_ok m \<Longrightarrow> (i, p) \<in> set m \<Longrightarrow>
   stored_len m = length (rb_pkt p) + stored_len (stdmap_erase i m)"
proof (induction m)
  case (Cons q m)
  show ?case
  proof (cases "q = (i, p)")
    case True
    then have "stdmap_erase i m = m"
      using Cons.prems(1) by (force simp: stdmap_erase_def filter_id_conv)
    then show ?thesis using True by (simp add: stored_len_def stdmap_erase_def)
  next
    case False
    then have "(i, p) \<in> set m" "fst q \<noteq> i" using Cons.prems by force+
    then show ?thesis using Cons by (simp add: stored_len_def stdmap_erase_def)
  qed
qed simp

lemma stored_len_filter: "stored_len (filter P m) \<le> stored_len m"
  by (induction m) (auto simp: stored_len_def)

lemma stored_len_insert:
  "stdmap_ok m \<Longrightarrow> i \<notin> fst ` set m \<Longrightarrow>
   stored_len (stdmap_insert i p m) = length (rb_pkt p) + stored_len m"
  by (induction i p m rule: stdmap_insert.induct) (auto simp: stored_len_def)

lemma stdmap_ok_filter: "stdmap_ok m \<Longrightarrow> stdmap_ok (filter P m)"
  by (induction m) auto

text \<open>The delivery loop hands up the consecutive packets that the buffer holds.\<close>

lemma deliver_loop_ok:
  assumes "og_rel st log n m" "length log \<le> 2 ^ 31 - 1" "\<forall>q\<in>set m. n \<le> fst q"
  shows "\<exists>n' st'. n \<le> n' \<and>
    deliver_loop (\<lambda>ev. True) st =
      (map OG_PKT_TO_UPPER (drop n (take n' log)), True, st') \<and>
    og_rel st' log n' (filter (\<lambda>q. n' \<le> fst q) m) \<and> og_rdgram st' = og_rdgram st \<and>
    n' \<notin> fst ` set m \<and> {n..<n'} \<subseteq> fst ` set m"
  using assms
proof (induction "length m" arbitrary: st n m rule: less_induct)
  case less
  note rel = less.prems(1)[unfolded og_rel_def]
  have fnd: "wmap_find (next_seqnb_to_deliver st) (recvbuf_pkt_db st) = map_of m n"
    using og_find[OF less.prems(1,2), of n] rel by simp
  have all: "filter (\<lambda>q. n \<le> fst q) m = m" using less.prems(3) by (simp add: filter_id_conv)
  show ?case
  proof (cases "map_of m n")
    case None
    then have "deliver_loop (\<lambda>ev. True) st = ([], True, st)"
      using fnd by (simp add: deliver_loop.simps[of _ st])
    moreover have "n \<notin> fst ` set m" using None by (simp add: map_of_eq_None_iff)
    ultimately show ?thesis using less.prems(1) all by (intro exI[of _ n] exI[of _ st]) auto
  next
    case (Some p)
    have p: "(n, p) \<in> set m" using Some by (rule map_of_SomeD)
    have n: "n < length log" "rb_pkt p = log ! n" using rel p by fastforce+
    let ?m = "stdmap_erase n m"
    let ?st = "st\<lparr>recvbuf_used_len := recvbuf_used_len st - length (rb_pkt p),
                 recvbuf_pkt_db := wai_map ?m, next_seqnb_to_deliver := of_nat (Suc n)\<rparr>"
    have len: "stored_len m = length (rb_pkt p) + stored_len ?m" using stored_len_erase[OF _ p] rel by simp
    have er: "wmap_erase (of_nat n) (recvbuf_pkt_db st) = wai_map ?m"
      using wai_map_erase[OF _ og_rel_close[OF less.prems(1,2), of n]] rel by simp
    have sub: "size_sub (recvbuf_used_len st) (length (rb_pkt p)) =
        recvbuf_used_len st - length (rb_pkt p)"
      by (rule size_sub_le) (use rel len in linarith)+
    have db: "recvbuf_pkt_db st \<noteq> []" using p rel by auto
    have step: "deliver_loop (\<lambda>ev. True) st =
        (let (evs, tokeep, st') = deliver_loop (\<lambda>ev. True) ?st
         in (OG_PKT_TO_UPPER (log ! n) # evs, tokeep, st'))"
      using fnd Some db er sub rel n
      by (subst deliver_loop.simps) (simp add: Let_def wai_incr_def wai_add_def add.commute)
    have "og_rel ?st log (Suc n) ?m"
      using rel len n by (fastforce simp: og_rel_def set_stdmap_erase)
    moreover have "length ?m < length m" "\<forall>q\<in>set ?m. Suc n \<le> fst q"
      using p less.prems(3) by (auto simp: stdmap_erase_def length_filter_less le_neq_implies_less)
    ultimately obtain n' st' where IH: "Suc n \<le> n'" "deliver_loop (\<lambda>ev. True) ?st =
        (map OG_PKT_TO_UPPER (drop (Suc n) (take n' log)), True, st')"
      "og_rel st' log n' (filter (\<lambda>q. n' \<le> fst q) ?m)" "og_rdgram st' = og_rdgram ?st"
      "n' \<notin> fst ` set ?m" "{Suc n..<n'} \<subseteq> fst ` set ?m"
      using less.hyps[of ?m ?st "Suc n"] less.prems(2) by blast
    have "filter (\<lambda>q. n' \<le> fst q) ?m = filter (\<lambda>q. n' \<le> fst q) m"
      unfolding stdmap_erase_def filter_filter by (rule filter_cong) (use IH(1) in auto)
    moreover have "drop n (take n' log) = log ! n # drop (Suc n) (take n' log)"
      using IH(1) n(1) by (subst Cons_nth_drop_Suc[symmetric]) auto
    moreover have "fst ` set m = insert n (fst ` set ?m)" using p by (force simp: set_stdmap_erase)
    moreover have "{n..<n'} = insert n {Suc n..<n'}" using IH(1) by auto
    ultimately show ?thesis
      using step IH by (intro exI[of _ n'] exI[of _ st']) auto
  qed
qed

lemma og_drop_obsolete:
  assumes "og_rel st log n m" "length log \<le> 2 ^ 31 - 1"
  shows "drop_obsolete (next_seqnb_to_deliver st) (recvbuf_pkt_db st) =
    wai_map (filter (\<lambda>q. n \<le> fst q) m)"
proof -
  note rel = assms(1)[unfolded og_rel_def]
  have "\<forall>(i, p)\<in>set m. rb_seqnb p = of_nat i \<and> wai_close TYPE(32) i n"
    using rel og_rel_close[OF assms, of n] by fastforce
  then show ?thesis using drop_obsolete_eq[of m n] rel by simp
qed

lemma og_rel_drop:
  assumes "og_rel st log n m"
  shows "og_rel (st\<lparr>recvbuf_pkt_db := wai_map (filter (\<lambda>q. n \<le> fst q) m)\<rparr>) log n
    (filter (\<lambda>q. n \<le> fst q) m)"
proof -
  note rel = assms[unfolded og_rel_def]
  have "stored_len (filter (\<lambda>q. n \<le> fst q) m) \<le> recvbuf_used_len st"
    "stdmap_ok (filter (\<lambda>q. n \<le> fst q) m)"
    using rel stored_len_filter[of "\<lambda>q. n \<le> fst q" m] stdmap_ok_filter[of m "\<lambda>q. n \<le> fst q"]
    by (blast intro: order_trans)+
  then show ?thesis using rel by (simp add: og_rel_def)
qed

text \<open>The zero timer.\<close>

lemma og_deliver_step:
  assumes "og_rel st log n m" "length log \<le> 2 ^ 31 - 1"
  shows "\<exists>n' st'. n \<le> n' \<and>
    og_zerotimer_expire_cb (\<lambda>ev. True) st =
      (map OG_PKT_TO_UPPER (drop n (take n' log)), True, st') \<and>
    og_rel st' log n' (filter (\<lambda>q. n' \<le> fst q) m) \<and> og_rdgram st' = og_rdgram st \<and>
    n' \<notin> fst ` set m"
proof -
  let ?m = "filter (\<lambda>q. n \<le> fst q) m"
  let ?st = "st\<lparr>recvbuf_pkt_db := wai_map ?m\<rparr>"
  have cb: "og_zerotimer_expire_cb (\<lambda>ev. True) st = deliver_loop (\<lambda>ev. True) ?st"
    using og_drop_obsolete[OF assms] by (simp add: og_zerotimer_expire_cb_def)
  have inv: "og_rel ?st log n ?m" by (rule og_rel_drop[OF assms(1)])
  have ge: "\<forall>q\<in>set ?m. n \<le> fst q" by simp
  obtain n' st' where d: "n \<le> n'" "deliver_loop (\<lambda>ev. True) ?st =
      (map OG_PKT_TO_UPPER (drop n (take n' log)), True, st')"
    "og_rel st' log n' (filter (\<lambda>q. n' \<le> fst q) ?m)" "og_rdgram st' = og_rdgram ?st" "n' \<notin> fst ` set ?m"
    using deliver_loop_ok[OF inv assms(2) ge] by blast
  have "filter (\<lambda>q. n' \<le> fst q) ?m = filter (\<lambda>q. n' \<le> fst q) m"
    unfolding filter_filter by (rule filter_cong) (use d(1) in auto)
  moreover have "n' \<notin> fst ` set m" using d(1,5) by auto
  ultimately show ?thesis using d cb by (intro exI[of _ n'] exI[of _ st']) auto
qed

lemma rd_lower_data:
  "rd_pkt_from_lower sa (data_pkt i payload) rd = Inr (recv_data_pkt sa (put_wai32 (of_nat i) @ payload) rd)"
  by (simp add: rd_pkt_from_lower_def data_pkt_def rd_header_def)

text \<open>The effect of \<open>recv_data_pkt\<close> on the acknowledgements to send.\<close>

definition rd_ack_scheduled :: "32 word \<Rightarrow> rdgram_t \<Rightarrow> rdgram_t" where
  "rd_ack_scheduled seqnb rd =
     (let rd = rd\<lparr>seqnb2ack_list := seqnb2ack_list rd @ [seqnb]\<rparr> in
      if length (cbuserptr_list (zerotimer_seqnb2ack rd)) = 0
      then rd\<lparr>zerotimer_seqnb2ack := zerotimer_append () (zerotimer_seqnb2ack rd)\<rparr> else rd)"

lemma seqnb2ack_scheduled [simp]:
  "seqnb2ack_list (rd_ack_scheduled s rd) = seqnb2ack_list rd @ [s]"
  by (simp add: rd_ack_scheduled_def Let_def)

lemma recv_data_eq:
  "recv_data_pkt sa (put_wai32 s @ payload) rd =
     (if sa payload s then (RD_OK, payload, Some s, rd_ack_scheduled s rd) else (RD_OK, [], None, rd))"
  by (simp add: recv_data_pkt_def rd_ack_scheduled_def get_wai32_def put_wai32_def Let_def)

text \<open>A data packet of the peer: it is refused (and not acknowledged), or acknowledged and swallowed
  because it was handed up before, is stored already or has no payload, or stored, or handed up.\<close>

datatype og_fate = Refused | Swallowed | Stored | Delivered

definition og_fate :: "ordgram_t \<Rightarrow> bytes list \<Rightarrow> nat \<Rightarrow> (nat \<times> recvbuf_pkt_t) list \<Rightarrow> nat \<Rightarrow> og_fate" where
  "og_fate st log n m i =
     (if \<not> i < n \<and> i \<notin> fst ` set m \<and> recvbuf_max_len st < recvbuf_used_len st + length (log ! i)
      then Refused
      else if log ! i = [] \<or> i < n \<or> n < i \<and> i \<in> fst ` set m then Swallowed
      else if n < i then Stored else Delivered)"

text \<open>When the buffer holds the next packet, the zero timer is scheduled.\<close>

definition og_awake :: "ordgram_t \<Rightarrow> nat \<Rightarrow> (nat \<times> recvbuf_pkt_t) list \<Rightarrow> bool" where
  "og_awake st n m = (n \<in> fst ` set m \<longrightarrow> cbuserptr_list (zerotimer_deliver st) \<noteq> [])"

lemma og_lower_step:
  assumes "og_rel st log n m" "length log \<le> 2 ^ 31 - 1" "i < length log"
  defines "fate \<equiv> og_fate st log n m i"
  shows "\<exists>st'. og_pkt_from_lower (data_pkt i (log ! i)) st =
      Inr (RD_OK, if fate = Delivered then log ! i else [], st') \<and>
    og_rel st' log (if fate = Delivered then Suc n else n)
      (if fate = Stored then stdmap_insert i \<lparr>rb_seqnb = of_nat i, rb_pkt = log ! i\<rparr> m else m) \<and>
    og_rdgram st' =
      (if fate = Refused then og_rdgram st else rd_ack_scheduled (of_nat i) (og_rdgram st)) \<and>
    recvbuf_max_len st' = recvbuf_max_len st \<and> recvbuf_used_len st \<le> recvbuf_used_len st' \<and>
    (og_awake st n m \<longrightarrow> og_awake st' (if fate = Delivered then Suc n else n)
      (if fate = Stored then stdmap_insert i \<lparr>rb_seqnb = of_nat i, rb_pkt = log ! i\<rparr> m else m))"
proof -
  note rel = assms(1)[unfolded og_rel_def]
  let ?p = "\<lparr>rb_seqnb = of_nat i, rb_pkt = log ! i\<rparr>" and ?rd = "rd_ack_scheduled (of_nat i) (og_rdgram st)"
  have close: "wai_close TYPE(32) i n" using og_close[OF assms(2)] assms(3) rel by simp
  note ord = wai_order_of_nat[OF close]
  have fnd: "wmap_find (of_nat i) (recvbuf_pkt_db st) = map_of m i"
    using og_find[OF assms(1,2), of i] assms(3) by simp
  have none: "map_of m i = None \<longleftrightarrow> i \<notin> fst ` set m" by (simp add: map_of_eq_None_iff)
  have sa: "should_acked_pkt_cb st (log ! i) (of_nat i) \<longleftrightarrow> fate \<noteq> Refused"
    using rel ord fnd none by (auto simp: should_acked_pkt_cb_def fate_def og_fate_def)
  have low: "rd_pkt_from_lower (should_acked_pkt_cb st) (data_pkt i (log ! i)) (og_rdgram st) =
     Inr (if fate \<noteq> Refused then (RD_OK, log ! i, Some (of_nat i), ?rd)
          else (RD_OK, [], None, og_rdgram st))"
    by (simp add: rd_lower_data recv_data_eq sa)
  consider (ref) "fate = Refused" | (swal) "fate = Swallowed" | (stor) "fate = Stored"
    | (del) "fate = Delivered" by (cases fate) auto
  then show ?thesis
  proof cases
    case ref
    then have "og_pkt_from_lower (data_pkt i (log ! i)) st = Inr (RD_OK, [], st)"
      using low by (simp add: og_pkt_from_lower_def Let_def)
    then show ?thesis using ref assms(1) by simp
  next
    case swal
    then have "log ! i = [] \<or> i < n \<or> n < i \<and> i \<in> fst ` set m"
      by (auto simp: fate_def og_fate_def split: if_splits)
    then have "og_pkt_from_lower (data_pkt i (log ! i)) st = Inr (RD_OK, [], st\<lparr>og_rdgram := ?rd\<rparr>)"
      using low swal ord rel fnd none
      by (auto simp: og_pkt_from_lower_def Let_def og_pkt_from_lower_outoforder_def)
    then show ?thesis using swal rel by (simp add: og_rel_def og_awake_def)
  next
    case stor
    then have i: "log ! i \<noteq> []" "n < i" "i \<notin> fst ` set m"
      "recvbuf_used_len st + length (log ! i) \<le> recvbuf_max_len st"
      by (auto simp: fate_def og_fate_def split: if_splits)
    have ins: "wmap_insert (of_nat i) ?p (recvbuf_pkt_db st) = wai_map (stdmap_insert i ?p m)"
      using wai_map_insert[OF og_rel_close[OF assms(1,2), of i]] assms(3) rel by simp
    let ?st = "st\<lparr>og_rdgram := ?rd, recvbuf_used_len := recvbuf_used_len st + length (log ! i),
                 recvbuf_pkt_db := wai_map (stdmap_insert i ?p m)\<rparr>"
    have run: "og_pkt_from_lower (data_pkt i (log ! i)) st = Inr (RD_OK, [], ?st)"
      using low stor i ord rel fnd none ins
      by (simp add: og_pkt_from_lower_def Let_def og_pkt_from_lower_outoforder_def)
    have "stored_len (stdmap_insert i ?p m) = length (log ! i) + stored_len m"
      using stored_len_insert[of m i ?p] rel i(3) by simp
    then have "og_rel ?st log n (stdmap_insert i ?p m)"
      using rel i assms(3) by (auto simp: og_rel_def set_stdmap_insert)
    moreover have "fst ` set (stdmap_insert i ?p m) = insert i (fst ` set m)"
      using rel i(3) by (auto simp: set_stdmap_insert)
    ultimately show ?thesis using run stor i(2) by (intro exI[of _ ?st]) (simp add: og_awake_def)
  next
    case del
    then have i: "log ! i \<noteq> []" "i = n" by (auto simp: fate_def og_fate_def split: if_splits)
    let ?st = "st\<lparr>og_rdgram := ?rd, next_seqnb_to_deliver := of_nat (Suc n)\<rparr>"
    let ?st' = "if recvbuf_pkt_db st \<noteq> []
      then ?st\<lparr>zerotimer_deliver := zerotimer_append () (zerotimer_deliver st)\<rparr> else ?st"
    have run: "og_pkt_from_lower (data_pkt i (log ! i)) st = Inr (RD_OK, log ! i, ?st')"
      using low del i ord rel
      by (simp add: og_pkt_from_lower_def Let_def wai_incr_def wai_add_def add.commute)
    have "og_rel ?st' log (Suc n) m" using rel i assms(3) by (auto simp: og_rel_def)
    moreover have "og_awake ?st' (Suc n) m" using rel by (cases "m = []") (auto simp: og_awake_def)
    ultimately show ?thesis using run del by (intro exI[of _ ?st']) simp
  qed
qed

lemma drop_take_append:
  assumes "n \<le> a" "a \<le> b" "a \<le> length xs"
  shows "drop n (take a xs) @ drop a (take b xs) = drop n (take b xs)"
proof -
  have "take b xs = take a xs @ drop a (take b xs)"
    using assms(2) by (metis append_take_drop_id min.absorb1 take_take)
  then have "drop n (take b xs) = drop n (take a xs @ drop a (take b xs))" by simp
  then show ?thesis using assms by simp
qed

lemma og_expire_step:
  assumes "og_rel st log n m" "length log \<le> 2 ^ 31 - 1" "og_awake st n m"
  shows "\<exists>n' m' st'. n \<le> n' \<and>
    og_zerotimer_expire (\<lambda>ev. True) st =
      Inr (True, map OG_PKT_TO_UPPER (drop n (take n' log)), st') \<and>
    og_rel st' log n' m' \<and> og_rdgram st' = og_rdgram st \<and> n' \<notin> fst ` set m' \<and>
    (\<forall>i\<in>fst ` set m. i < n' \<or> i \<in> fst ` set m')"
proof -
  let ?cb = "\<lambda>u w. let (evs, tokeep, st') = og_zerotimer_expire_cb (\<lambda>ev. True) (snd w)
              in Inr (tokeep, fst w @ evs, st')"
  have notify: "\<exists>n' m' st'. n \<le> n' \<and>
      zerotimer_notify ?cb us (evs, s) =
        Inr (True, evs @ map OG_PKT_TO_UPPER (drop n (take n' log)), st') \<and>
      og_rel st' log n' m' \<and> og_rdgram st' = og_rdgram s \<and> n' \<notin> fst ` set m' \<and>
      (\<forall>i\<in>fst ` set m. i < n' \<or> i \<in> fst ` set m')"
    if "og_rel s log n m" "us \<noteq> [] \<or> n \<notin> fst ` set m" for us evs s n m
    using that
  proof (induction us arbitrary: evs s n m)
    case Nil
    then show ?case by (intro exI[of _ n] exI[of _ m] exI[of _ s]) auto
  next
    case (Cons u us)
    obtain n1 s1 where s1: "n \<le> n1" "og_zerotimer_expire_cb (\<lambda>ev. True) s =
        (map OG_PKT_TO_UPPER (drop n (take n1 log)), True, s1)"
      "og_rel s1 log n1 (filter (\<lambda>q. n1 \<le> fst q) m)" "og_rdgram s1 = og_rdgram s"
      "n1 \<notin> fst ` set m"
      using og_deliver_step[OF Cons.prems(1) assms(2)] by blast
    let ?m1 = "filter (\<lambda>q. n1 \<le> fst q) m"
    have "n1 \<notin> fst ` set ?m1" using s1(5) by auto
    then obtain n' m' st' where r: "n1 \<le> n'"
      "zerotimer_notify ?cb us (evs @ map OG_PKT_TO_UPPER (drop n (take n1 log)), s1) =
        Inr (True, (evs @ map OG_PKT_TO_UPPER (drop n (take n1 log))) @
          map OG_PKT_TO_UPPER (drop n1 (take n' log)), st')"
      "og_rel st' log n' m'" "og_rdgram st' = og_rdgram s1" "n' \<notin> fst ` set m'"
      "\<forall>i\<in>fst ` set ?m1. i < n' \<or> i \<in> fst ` set m'"
      using Cons.IH[OF s1(3)] by blast
    have n1: "n1 \<le> length log" using s1(3) by (simp add: og_rel_def)
    have "drop n (take n1 log) @ drop n1 (take n' log) = drop n (take n' log)"
      by (rule drop_take_append[OF s1(1) r(1) n1])
    moreover have "i < n' \<or> i \<in> fst ` set m'" if i: "i \<in> fst ` set m" for i
    proof (cases "n1 \<le> i")
      case True
      then have "i \<in> fst ` set ?m1" using i by auto
      then show ?thesis using r(6) by blast
    qed (use r(1) in simp)
    ultimately show ?case
      using s1 r
      by (intro exI[of _ n'] exI[of _ m'] exI[of _ st']) (auto simp flip: map_append)
  qed
  have "og_rel (st\<lparr>zerotimer_deliver := z\<rparr>) log n m" for z using assms(1) by (simp add: og_rel_def)
  then show ?thesis
    using notify[of "st\<lparr>zerotimer_deliver := \<lparr>zero_timeout_running = False, cbuserptr_list = []\<rparr>\<rparr>" n m
        "cbuserptr_list (zerotimer_deliver st)" "[]"] assms(3)
    by (auto simp: og_zerotimer_expire_def zerotimer_expire_def og_awake_def)
qed

subsection \<open>Histories of the receiver\<close>

datatype og_op = Og_lower bytes | Og_timer

fun upper_pkts :: "ordgram_event_t list \<Rightarrow> bytes list" where
  "upper_pkts [] = []"
| "upper_pkts (OG_PKT_TO_UPPER p # evs) = p # upper_pkts evs"
| "upper_pkts (_ # evs) = upper_pkts evs"

text \<open>What the upper layer gets: the packet left by the filter when it is not swallowed, and the packets of
  the delivery events.\<close>

fun og_step :: "og_op \<Rightarrow> ordgram_t \<Rightarrow> (bytes list \<times> ordgram_t) res" where
  "og_step (Og_lower pkt) st =
     res_bind (og_pkt_from_lower pkt st) (\<lambda>(err, out, st').
       Inr (if err = RD_OK \<and> out \<noteq> [] then [out] else [], st'))"
| "og_step Og_timer st =
     res_bind (og_zerotimer_expire (\<lambda>ev. True) st) (\<lambda>(tokeep, evs, st'). Inr (upper_pkts evs, st'))"

fun og_run :: "og_op list \<Rightarrow> ordgram_t \<Rightarrow> (bytes list \<times> ordgram_t) res" where
  "og_run [] st = Inr ([], st)"
| "og_run (op # ops) st =
     res_bind (og_step op st) (\<lambda>(outs, st').
       res_bind (og_run ops st') (\<lambda>(outs', st''). Inr (outs @ outs', st'')))"

lemma upper_pkts_map [simp]: "upper_pkts (map OG_PKT_TO_UPPER ps) = ps"
  by (induction ps) simp_all

definition peer_op :: "bytes list \<Rightarrow> og_op \<Rightarrow> bool" where
  "peer_op log op = (op = Og_timer \<or> (\<exists>i<length log. op = Og_lower (data_pkt i (log ! i))))"

text \<open>The acknowledgements: each is for a packet that is handed up, stored, or empty.\<close>

definition acks_safe :: "ordgram_t \<Rightarrow> bytes list \<Rightarrow> nat \<Rightarrow> (nat \<times> recvbuf_pkt_t) list \<Rightarrow> bool" where
  "acks_safe st log n m \<longleftrightarrow>
     (\<forall>s\<in>set (seqnb2ack_list (og_rdgram st)). \<exists>i<length log. s = of_nat i \<and>
        (log ! i = [] \<or> i < n \<or> i \<in> fst ` set m))"

lemma og_step_ok:
  assumes "og_rel st log n m" "length log \<le> 2 ^ 31 - 1" "og_awake st n m" "acks_safe st log n m"
    "peer_op log op"
  shows "\<exists>st' n' m'. og_step op st = Inr (drop n (take n' log), st') \<and> n \<le> n' \<and>
    og_rel st' log n' m' \<and> og_awake st' n' m' \<and> acks_safe st' log n' m' \<and>
    (\<forall>i\<in>fst ` set m. i < n' \<or> i \<in> fst ` set m')"
proof (cases op)
  case Og_timer
  obtain n' m' st' where e: "n \<le> n'" "og_zerotimer_expire (\<lambda>ev. True) st =
      Inr (True, map OG_PKT_TO_UPPER (drop n (take n' log)), st')"
    "og_rel st' log n' m'" "og_rdgram st' = og_rdgram st" "n' \<notin> fst ` set m'"
    "\<forall>i\<in>fst ` set m. i < n' \<or> i \<in> fst ` set m'"
    using og_expire_step[OF assms(1-3)] by blast
  have "acks_safe st' log n' m'" using assms(4) e(1,4,6) unfolding acks_safe_def by fastforce
  then show ?thesis using Og_timer e by (intro exI[of _ st'] exI[of _ n'] exI[of _ m'])
    (simp add: og_awake_def)
next
  case (Og_lower pkt)
  then obtain i where i: "i < length log" "pkt = data_pkt i (log ! i)"
    using assms(5) by (auto simp: peer_op_def)
  define fate where "fate = og_fate st log n m i"
  let ?n = "if fate = Delivered then Suc n else n"
  let ?m = "if fate = Stored then stdmap_insert i \<lparr>rb_seqnb = of_nat i, rb_pkt = log ! i\<rparr> m else m"
  obtain st' where s: "og_pkt_from_lower pkt st = Inr (RD_OK, if fate = Delivered then log ! i else [], st')"
    "og_rel st' log ?n ?m" "og_awake st' ?n ?m"
    "og_rdgram st' = (if fate = Refused then og_rdgram st else rd_ack_scheduled (of_nat i) (og_rdgram st))"
    using og_lower_step[OF assms(1,2) i(1)] assms(3) i(2) unfolding fate_def by blast
  have ok: "stdmap_ok m" using assms(1) by (simp add: og_rel_def)
  have keys: "fst ` set m \<subseteq> fst ` set ?m" "fate = Stored \<Longrightarrow> i \<in> fst ` set ?m"
    using ok by (auto simp: set_stdmap_insert)
  have got: "log ! i = [] \<or> i < ?n \<or> i \<in> fst ` set ?m" if "fate \<noteq> Refused"
    using keys(2) that by (auto simp: fate_def og_fate_def split: if_splits)
  have "acks_safe st' log ?n ?m"
    unfolding acks_safe_def
  proof
    fix sq assume "sq \<in> set (seqnb2ack_list (og_rdgram st'))"
    then consider "sq \<in> set (seqnb2ack_list (og_rdgram st))" | "fate \<noteq> Refused" "sq = of_nat i"
      using s(4) by (auto split: if_splits)
    then show "\<exists>i<length log. sq = of_nat i \<and> (log ! i = [] \<or> i < ?n \<or> i \<in> fst ` set ?m)"
    proof cases
      case 1
      then obtain j where j: "j < length log" "sq = of_nat j" "log ! j = [] \<or> j < n \<or> j \<in> fst ` set m"
        using assms(4) unfolding acks_safe_def by blast
      have "n \<le> ?n" by simp
      then have "log ! j = [] \<or> j < ?n \<or> j \<in> fst ` set ?m"
        using j(3) keys(1) by (blast intro: order_less_le_trans)
      then show ?thesis using j(1,2) by blast
    next
      case 2
      then show ?thesis using got i(1) by blast
    qed
  qed
  moreover have out: "(if fate = Delivered \<and> log ! i \<noteq> [] then [log ! i] else []) = drop n (take ?n log)"
  proof (cases "fate = Delivered")
    case True
    then have "i = n" "log ! i \<noteq> []" by (auto simp: fate_def og_fate_def split: if_splits)
    then show ?thesis using True i(1) by (simp add: take_Suc_conv_app_nth)
  qed simp
  moreover have "og_step op st = Inr (if fate = Delivered \<and> log ! i \<noteq> [] then [log ! i] else [], st')"
    using Og_lower s(1) by simp
  moreover have "\<forall>j\<in>fst ` set m. j < ?n \<or> j \<in> fst ` set ?m" using keys(1) by blast
  moreover have "n \<le> ?n" by simp
  ultimately show ?thesis
    using s(2,3) unfolding out by (intro exI[of _ st'] exI[of _ ?n] exI[of _ ?m] conjI)
qed

lemma og_run_ok:
  assumes "og_rel st log n m" "length log \<le> 2 ^ 31 - 1" "og_awake st n m" "acks_safe st log n m"
    "\<forall>op\<in>set ops. peer_op log op"
  shows "\<exists>st' n' m'. og_run ops st = Inr (drop n (take n' log), st') \<and> n \<le> n' \<and>
    og_rel st' log n' m' \<and> og_awake st' n' m' \<and> acks_safe st' log n' m' \<and>
    (\<forall>i\<in>fst ` set m. i < n' \<or> i \<in> fst ` set m')"
  using assms(1,3-)
proof (induction ops arbitrary: st n m)
  case Nil
  then show ?case by (intro exI[of _ st] exI[of _ n] exI[of _ m]) simp
next
  case (Cons op ops)
  obtain st1 n1 m1 where s: "og_step op st = Inr (drop n (take n1 log), st1)" "n \<le> n1"
    "og_rel st1 log n1 m1" "og_awake st1 n1 m1" "acks_safe st1 log n1 m1"
    "\<forall>i\<in>fst ` set m. i < n1 \<or> i \<in> fst ` set m1"
    using og_step_ok[OF Cons.prems(1) assms(2) Cons.prems(2,3), of op] Cons.prems(4) by auto
  obtain st' n' m' where r: "og_run ops st1 = Inr (drop n1 (take n' log), st')" "n1 \<le> n'"
    "og_rel st' log n' m'" "og_awake st' n' m'" "acks_safe st' log n' m'"
    "\<forall>i\<in>fst ` set m1. i < n' \<or> i \<in> fst ` set m'"
    using Cons.IH[OF s(3-5)] Cons.prems(4) by auto
  have "n1 \<le> length log" using s(3) by (simp add: og_rel_def)
  then have "og_run (op # ops) st = Inr (drop n (take n' log), st')"
    using s(1) r(1) drop_take_append[OF s(2) r(2)] by simp
  then show ?case using s(2,6) r(2-) by (intro exI[of _ st'] exI[of _ n'] exI[of _ m']) force
qed

lemma og_ctor_start: "og_awake ordgram_ctor 0 []" "acks_safe ordgram_ctor log 0 []"
  by (simp_all add: og_awake_def acks_safe_def ordgram_ctor_def rdgram_ctor_def)

text \<open>A packet without payload, or one that does not fit while the buffer is not drained, blocks the
  sequence: it is neither handed up nor stored.\<close>

definition og_blocked :: "ordgram_t \<Rightarrow> bytes list \<Rightarrow> nat \<Rightarrow> (nat \<times> recvbuf_pkt_t) list \<Rightarrow> bool" where
  "og_blocked st log n m \<longleftrightarrow> n < length log \<and> n \<notin> fst ` set m \<and>
     (log ! n = [] \<or> recvbuf_max_len st < recvbuf_used_len st + length (log ! n))"

subsection \<open>Properties\<close>


lemma deliver_blocked:
  assumes "og_rel st log n m" "length log \<le> 2 ^ 31 - 1" "n \<notin> fst ` set m"
  shows "og_zerotimer_expire_cb (\<lambda>ev. True) st =
      ([], True, st\<lparr>recvbuf_pkt_db := wai_map (filter (\<lambda>q. n \<le> fst q) m)\<rparr>) \<and>
    og_rel (st\<lparr>recvbuf_pkt_db := wai_map (filter (\<lambda>q. n \<le> fst q) m)\<rparr>) log n
      (filter (\<lambda>q. n \<le> fst q) m)"
proof -
  note rel = assms(1)[unfolded og_rel_def]
  let ?m = "filter (\<lambda>q. n \<le> fst q) m" let ?st = "st\<lparr>recvbuf_pkt_db := wai_map ?m\<rparr>"
  have inv: "og_rel ?st log n ?m" by (rule og_rel_drop[OF assms(1)])
  have "map_of ?m n = None" using assms(3) by (auto simp: map_of_eq_None_iff)
  then have "deliver_loop (\<lambda>ev. True) ?st = ([], True, ?st)"
    using og_find[OF inv assms(2), of n] rel by (simp add: deliver_loop.simps[of _ ?st])
  then show ?thesis using inv og_drop_obsolete[OF assms(1,2)] by (simp add: og_zerotimer_expire_cb_def)
qed

lemma og_blocked_expire:
  assumes "og_rel st log n m" "length log \<le> 2 ^ 31 - 1" "og_blocked st log n m"
  shows "\<exists>st' m'. og_zerotimer_expire (\<lambda>ev. True) st = Inr (True, [], st') \<and> og_rel st' log n m' \<and>
    og_blocked st' log n m'"
proof -
  let ?cb = "\<lambda>u w. let (evs, tokeep, st') = og_zerotimer_expire_cb (\<lambda>ev. True) (snd w)
              in Inr (tokeep, fst w @ evs, st')"
  have notify: "\<exists>st' m'. zerotimer_notify ?cb us ([], s) = Inr (True, [], st') \<and> og_rel st' log n m' \<and>
      og_blocked st' log n m'"
    if "og_rel s log n m" "og_blocked s log n m" for us s m
    using that
  proof (induction us arbitrary: s m)
    case (Cons u us)
    let ?m = "filter (\<lambda>q. n \<le> fst q) m" let ?s = "s\<lparr>recvbuf_pkt_db := wai_map ?m\<rparr>"
    have "n \<notin> fst ` set m" using Cons.prems(2) by (simp add: og_blocked_def)
    note d = deliver_blocked[OF Cons.prems(1) assms(2) this]
    have "og_blocked ?s log n ?m" using Cons.prems(2) by (auto simp: og_blocked_def)
    then show ?case using Cons.IH[of ?s ?m] d by simp
  qed auto
  let ?st = "st\<lparr>zerotimer_deliver := \<lparr>zero_timeout_running = False, cbuserptr_list = []\<rparr>\<rparr>"
  have "og_rel ?st log n m" "og_blocked ?st log n m"
    using assms(1,3) by (simp_all add: og_rel_def og_blocked_def)
  from notify[OF this, of "cbuserptr_list (zerotimer_deliver st)"] show ?thesis
    by (simp add: og_zerotimer_expire_def zerotimer_expire_def Let_def)
qed

lemma og_blocked_step:
  assumes "og_rel st log n m" "length log \<le> 2 ^ 31 - 1" "peer_op log op" "og_blocked st log n m"
  shows "\<exists>st' m'. og_step op st = Inr ([], st') \<and> og_rel st' log n m' \<and> og_blocked st' log n m'"
proof (cases op)
  case Og_timer
  then show ?thesis using og_blocked_expire[OF assms(1,2,4)] by force
next
  case (Og_lower pkt)
  then obtain i where i: "i < length log" "pkt = data_pkt i (log ! i)"
    using assms(3) by (auto simp: peer_op_def)
  define fate where "fate = og_fate st log n m i"
  let ?m = "if fate = Stored then stdmap_insert i \<lparr>rb_seqnb = of_nat i, rb_pkt = log ! i\<rparr> m else m"
  have nd: "fate \<noteq> Delivered" "fate = Stored \<Longrightarrow> i \<noteq> n"
    using assms(4) by (auto simp: fate_def og_fate_def og_blocked_def split: if_splits)
  obtain st' where s: "og_pkt_from_lower pkt st = Inr (RD_OK, [], st')" "og_rel st' log n ?m"
    "recvbuf_max_len st' = recvbuf_max_len st" "recvbuf_used_len st \<le> recvbuf_used_len st'"
    using og_lower_step[OF assms(1,2) i(1), folded fate_def] nd(1) i(2) by auto
  have "stdmap_ok m" using assms(1) by (simp add: og_rel_def)
  then have "og_blocked st' log n ?m"
    using assms(4) s(3,4) nd(2) by (auto simp: og_blocked_def set_stdmap_insert)
  then show ?thesis using s(1,2) Og_lower by auto
qed

lemma og_blocked_run:
  "og_rel st log n m \<Longrightarrow> og_blocked st log n m \<Longrightarrow> length log \<le> 2 ^ 31 - 1 \<Longrightarrow>
   \<forall>op\<in>set ops. peer_op log op \<Longrightarrow> \<exists>st'. og_run ops st = Inr ([], st')"
proof (induction ops arbitrary: st m)
  case (Cons op ops)
  obtain st1 m1 where s: "og_step op st = Inr ([], st1)" "og_rel st1 log n m1" "og_blocked st1 log n m1"
    using og_blocked_step[OF Cons.prems(1,3) _ Cons.prems(2), of op] Cons.prems(4) by auto
  then show ?case using Cons.IH[OF s(2,3)] Cons.prems(3,4) by auto
qed simp

lemma og_run_append:
  "og_run (xs @ ys) st = res_bind (og_run xs st) (\<lambda>(outs, st').
     res_bind (og_run ys st') (\<lambda>(outs', st''). Inr (outs @ outs', st'')))"
  by (induction xs arbitrary: st) (auto simp: res_bind_def split: sum.splits prod.splits)

text \<open>C31. Two ways in which the layer stops for ever: the next packet of the sequence has no payload (it
  is acknowledged, but dropped), or it does not fit into a receive buffer that is filled by later
  packets (it is refused each time, and only its delivery would make room).  Whatever arrives
  afterwards, the upper layer gets nothing more.\<close>
theorem ordgram_stalls:
  assumes "length log \<le> 2 ^ 31 - 1" "\<forall>op\<in>set (pre @ ops). peer_op log op"
    "og_run pre ordgram_ctor = Inr (outs, st)" "length outs < length log"
    "wmap_find (next_seqnb_to_deliver st) (recvbuf_pkt_db st) = None"
    "log ! length outs = [] \<or>
     recvbuf_max_len st < recvbuf_used_len st + length (log ! length outs)"
  shows "\<exists>st'. og_run (pre @ ops) ordgram_ctor = Inr (outs, st')"
proof -
  obtain n m where r: "outs = take n log" "og_rel st log n m"
    using og_run_ok[OF og_rel_ctor assms(1) og_ctor_start, of pre] assms(2,3) by auto
  have n: "length outs = n" "next_seqnb_to_deliver st = of_nat n" using r by (auto simp: og_rel_def)
  have "n \<notin> fst ` set m"
    using og_find[OF r(2) assms(1), of n] assms(4,5) n by (simp add: map_of_eq_None_iff)
  then have "og_blocked st log n m" using assms(4,6) n by (auto simp: og_blocked_def)
  then obtain st' where "og_run ops st = Inr ([], st')"
    using og_blocked_run[OF r(2) _ assms(1)] assms(2) by auto
  then show ?thesis using assms(3) by (simp add: og_run_append)
qed


theorem ordgram_stalls_witness:
  "\<exists>st'. og_run ([] @ [Og_lower (data_pkt 0 []), Og_lower (data_pkt 1 [2]), Og_timer]) ordgram_ctor =
     Inr ([], st')"
proof (rule ordgram_stalls[of "[[], [2]]"])
  show "\<forall>op\<in>set ([] @ [Og_lower (data_pkt 0 []), Og_lower (data_pkt 1 [2]), Og_timer]).
      peer_op [[], [2]] op"
    by (auto simp: peer_op_def intro: exI[of _ 0] exI[of _ 1])
  show "og_run [] ordgram_ctor = Inr ([], ordgram_ctor)" by simp
qed (simp_all add: ordgram_ctor_def)

end
