(* ===== verification/Reliable.thy ===== *)
theory Reliable
  imports Ordgram
begin

text \<open>
  Two \<open>ordgram_t\<close> objects that talk to each other over a network that may lose, repeat and reorder
  packets.  An end point is the object with what its user sees (the payloads that were accepted and
  those that were handed up) and the packets that it has put on the network.  The network is the set of all
  packets ever sent: a packet may be received any number of times, in any order, or never.
\<close>

subsection \<open>End points and links\<close>

record endpoint =
  ep_og :: ordgram_t
  ep_sent :: "bytes list"
  ep_got :: "bytes list"
  ep_net :: "bytes set"

datatype ep_op =
    Ep_upper "nat \<Rightarrow> byte" serial_t | Ep_lower bytes | Ep_deliver | Ep_zerotimer rd_zerotimer
  | Ep_rxmit "32 word" | Ep_threshold nat

definition lower_pkts :: "rdgram_event_t list \<Rightarrow> bytes set" where
  "lower_pkts evs = {p. RD_PKT_TO_LOWER p \<in> set evs}"

fun ep_exec :: "ep_op \<Rightarrow> endpoint \<Rightarrow> endpoint res" where
  "ep_exec (Ep_upper mem pkt) e =
     res_bind (og_pkt_from_upper mem pkt (ep_og e)) (\<lambda>(err, out, st).
       Inr (if err = RD_OK
            then e\<lparr>ep_og := st, ep_sent := ep_sent e @ [serial_bytes pkt], ep_net := insert out (ep_net e)\<rparr>
            else e\<lparr>ep_og := st\<rparr>))"
| "ep_exec (Ep_lower pkt) e =
     res_bind (og_step (Og_lower pkt) (ep_og e)) (\<lambda>(outs, st).
       Inr (e\<lparr>ep_og := st, ep_got := ep_got e @ outs\<rparr>))"
| "ep_exec Ep_deliver e =
     res_bind (og_step Og_timer (ep_og e)) (\<lambda>(outs, st).
       Inr (e\<lparr>ep_og := st, ep_got := ep_got e @ outs\<rparr>))"
| "ep_exec (Ep_zerotimer z) e =
     res_bind (rd_zerotimer_expire (\<lambda>ev. True) z (og_rdgram (ep_og e))) (\<lambda>(tokeep, evs, rd).
       Inr (e\<lparr>ep_og := (ep_og e)\<lparr>og_rdgram := rd\<rparr>, ep_net := ep_net e \<union> lower_pkts evs\<rparr>))"
| "ep_exec (Ep_rxmit seqnb) e =
     res_bind (rd_rxmit seqnb (og_rdgram (ep_og e))) (\<lambda>(evs, rd).
       Inr (e\<lparr>ep_og := (ep_og e)\<lparr>og_rdgram := rd\<rparr>, ep_net := ep_net e \<union> lower_pkts evs\<rparr>))"
| "ep_exec (Ep_threshold n) e =
     Inr (e\<lparr>ep_og := (ep_og e)\<lparr>og_rdgram := snd (maysend_set_threshold n (og_rdgram (ep_og e)))\<rparr>\<rparr>)"

text \<open>Only what the peer has sent can be received, and the user hands down well formed buffers.
  \<open>ep_fits\<close> says that the header can be put in front of the buffer.\<close>

fun ep_allowed :: "endpoint \<Rightarrow> ep_op \<Rightarrow> bool" where
  "ep_allowed peer (Ep_lower pkt) = (pkt \<in> ep_net peer)"
| "ep_allowed peer (Ep_upper mem pkt) = serial_inv pkt"
| "ep_allowed peer op = True"

fun ep_fits :: "ep_op \<Rightarrow> bool" where
  "ep_fits (Ep_upper mem pkt) = head_shift_fits 5 pkt"
| "ep_fits op = True"

type_synonym link = "endpoint \<times> endpoint"

inductive link_step :: "link \<Rightarrow> link \<Rightarrow> bool" where
  step_left: "ep_allowed b op \<Longrightarrow> ep_exec op a = Inr a' \<Longrightarrow> link_step (a, b) (a', b)"
| step_right: "ep_allowed a op \<Longrightarrow> ep_exec op b = Inr b' \<Longrightarrow> link_step (a, b) (a, b')"

abbreviation link_steps :: "link \<Rightarrow> link \<Rightarrow> bool" where "link_steps \<equiv> link_step\<^sup>*\<^sup>*"

text \<open>An end point after \<open>start\<close> with a limit of the send buffer.\<close>

definition ep_init :: "nat \<Rightarrow> endpoint" where
  "ep_init mx =
     \<lparr>ep_og = ordgram_ctor\<lparr>og_callback := True,
                og_rdgram := rdgram_ctor\<lparr>sendbuf_max_len := mx, rd_callback := True\<rparr>\<rparr>,
      ep_sent = [], ep_got = [], ep_net = {}\<rparr>"

lemma ep_init_started:
  "og_start_with True ordgram_ctor = Inr (RD_OK, ep_og (ep_init 0))"
  by (simp add: og_start_with_def og_set_callback_def og_start_def rd_start_with_def rd_set_callback_def
      rd_start_def ep_init_def ordgram_ctor_def rdgram_ctor_def)

subsection \<open>Data packets and acknowledgements\<close>

lemma data_not_ack: "data_pkt i p \<noteq> build_ack s @ rest"
  by (simp add: data_pkt_def rd_header_def build_ack_def put_uint8_def DATA_PKT_def ACK_PKT_def
      NEOIP_PKTTYPE_OFFSET_RDGRAM_def)

lemma data_not_ack' [simp]: "data_pkt i p \<noteq> build_ack s" "build_ack s \<noteq> data_pkt i p"
  using data_not_ack[of i p s "[]"] by auto

lemma put_wai32_inject: "put_wai32 s @ r = put_wai32 t @ r' \<longleftrightarrow> s = t \<and> r = r'"
proof
  assume "put_wai32 s @ r = put_wai32 t @ r'"
  then have "get_wai32 (put_wai32 s @ r) = get_wai32 (put_wai32 t @ r')" by simp
  then show "s = t \<and> r = r'" by (simp add: get_wai32_def put_wai32_def)
qed simp

lemma build_ack_inject: "build_ack s = build_ack t @ rest \<longleftrightarrow> s = t \<and> rest = []"
  using put_wai32_inject[of s "[]" t rest] by (auto simp: build_ack_def put_uint8_def)

lemma of_nat_small_inject:
  assumes "i < 2 ^ 31" "j < 2 ^ 31" "(of_nat i :: 32 word) = of_nat j"
  shows "i = j"
proof -
  have "unat (of_nat i :: 32 word) = unat (of_nat j :: 32 word)" using assms(3) by simp
  then show ?thesis using assms(1,2) by (simp add: unat_of_nat take_bit_nat_def)
qed

text \<open>What each operation leaves alone.\<close>

lemma sendbuf_add_acks:
  "sendbuf_add_pkt n st = Inr st' \<Longrightarrow> seqnb2ack_list st' = seqnb2ack_list st"
  by (auto simp: sendbuf_add_pkt_def maysend_notify_def Let_def dbg_assert_def split: if_splits)

lemma rd_upper_acks:
  "rd_pkt_from_upper mem pkt st = Inr (err, out, st') \<Longrightarrow> seqnb2ack_list st' = seqnb2ack_list st"
  by (auto simp: rd_pkt_from_upper_def rd_queue_pkt_def sendbuf_pkt_ctor_def Let_def dbg_assert_def res_bind_def
      split: if_splits sum.splits prod.splits dest!: sendbuf_add_acks)

lemma rd_rxmit_acks:
  "rd_rxmit w st = Inr (evs, st') \<Longrightarrow> seqnb2ack_list st' = seqnb2ack_list st"
  by (auto simp: rd_rxmit_def res_bind_def split: option.splits sum.splits prod.splits)

lemma threshold_acks:
  "seqnb2ack_list (snd (maysend_set_threshold n st)) = seqnb2ack_list st"
  by (simp add: maysend_set_threshold_def maysend_notify_def Let_def)

lemma rd_zerotimer_acks:
  "rd_zerotimer_expire (\<lambda>ev. True) z st = Inr (tokeep, evs, st') \<Longrightarrow>
   set (seqnb2ack_list st') \<subseteq> set (seqnb2ack_list st)"
  by (cases z) (auto simp: rd_zerotimer_expire_def zerotimer_expire_def zerotimer_notify_rd Let_def
      split: if_splits)

lemma og_lower_rdgram:
  "og_pkt_from_lower pkt st = Inr (err, out, st') \<Longrightarrow>
   \<exists>e o' sq. rd_pkt_from_lower (should_acked_pkt_cb st) pkt (og_rdgram st) = Inr (e, o', sq, og_rdgram st')"
  by (auto simp: og_pkt_from_lower_def og_pkt_from_lower_outoforder_def Let_def res_bind_def
      dbg_assert_def split: sum.splits prod.splits if_splits)

lemma rd_lower_ack:
  "rd_pkt_from_lower sa (build_ack s) rd =
     (case find_sendbuf_pkt s rd of
        None \<Rightarrow> Inr (RD_OK, [], None, rd)
      | Some p \<Rightarrow> res_bind (sendbuf_pkt_dtor p rd) (\<lambda>rd. Inr (RD_OK, [], None, rd)))"
proof -
  have "get_wai32 (put_wai32 s) = Inr (s, [])"
    by (simp add: get_wai32_def put_wai32_def uint32_codec.get_put_exact)
  then show ?thesis
    by (auto simp: rd_pkt_from_lower_def build_ack_def recv_ack_pkt_def ACK_PKT_def DATA_PKT_def
        NEOIP_PKTTYPE_OFFSET_RDGRAM_def res_bind_def split: option.splits sum.splits)
qed

lemma og_lower_ack:
  assumes "rd_rel mx (og_rdgram st) log m"
  shows "\<exists>rd. og_pkt_from_lower (build_ack s) st = Inr (RD_OK, [], st\<lparr>og_rdgram := rd\<rparr>) \<and>
    seqnb2ack_list rd = seqnb2ack_list (og_rdgram st)"
proof (cases "find_sendbuf_pkt s (og_rdgram st)")
  case None
  then have "og_pkt_from_lower (build_ack s) st = Inr (RD_OK, [], st\<lparr>og_rdgram := og_rdgram st\<rparr>)"
    by (simp add: og_pkt_from_lower_def rd_lower_ack Let_def)
  then show ?thesis by blast
next
  case (Some p)
  then have "(s, p) \<in> set (wai_map m)"
    using wmap_find_SomeD[of s "sendbuf_pkt_db (og_rdgram st)" p] assms
    by (simp add: find_sendbuf_pkt_def rd_rel_def)
  then obtain i where "(i, p) \<in> set m" by (auto simp: wai_map_def)
  then obtain rd where rd: "sendbuf_pkt_dtor p (og_rdgram st) = Inr rd"
    "seqnb2ack_list rd = seqnb2ack_list (og_rdgram st)" using rd_dtor_step[OF assms] by blast
  have "og_pkt_from_lower (build_ack s) st = Inr (RD_OK, [], st\<lparr>og_rdgram := rd\<rparr>)"
    using Some rd
    by (simp add: og_pkt_from_lower_def rd_lower_ack Let_def)
  then show ?thesis using rd(2) by blast
qed


subsection \<open>One direction of a link\<close>

definition received :: "bytes list \<Rightarrow> nat \<Rightarrow> (nat \<times> recvbuf_pkt_t) list \<Rightarrow> nat \<Rightarrow> bool" where
  "received log n mr i \<longleftrightarrow> log ! i = [] \<or> i < n \<or> i \<in> fst ` set mr"

text \<open>\<open>a\<close> sends to \<open>b\<close>: \<open>m\<close> are the pending packets of \<open>a\<close>, \<open>mr\<close> the stored ones of \<open>b\<close>, which has handed up
  \<open>n\<close> packets.  Every accepted packet is pending or was received, and only received packets are
  acknowledged.\<close>

definition dir_inv ::
  "nat \<Rightarrow> endpoint \<Rightarrow> endpoint \<Rightarrow> nat \<Rightarrow> (nat \<times> sendbuf_pkt_t) list \<Rightarrow> (nat \<times> recvbuf_pkt_t) list \<Rightarrow> bool" where
  "dir_inv mx a b n m mr \<longleftrightarrow>
     rd_rel mx (og_rdgram (ep_og a)) (ep_sent a) m \<and>
     og_rel (ep_og b) (ep_sent a) n mr \<and> og_awake (ep_og b) n mr \<and> acks_safe (ep_og b) (ep_sent a) n mr \<and>
     ep_got b = take n (ep_sent a) \<and>
     (\<forall>p\<in>ep_net a. (\<exists>i<length (ep_sent a). p = data_pkt i (ep_sent a ! i)) \<or> (\<exists>s. p = build_ack s)) \<and>
     (\<forall>s. build_ack s \<in> ep_net b \<longrightarrow>
        (\<exists>i<length (ep_sent a). s = of_nat i \<and> received (ep_sent a) n mr i)) \<and>
     (\<forall>i<length (ep_sent a). i \<in> fst ` set m \<or> received (ep_sent a) n mr i)"

lemma dir_inv_init: "dir_inv mx (ep_init mx) (ep_init my) 0 [] []"
  using rd_rel_ctor[of mx True] og_rel_ctor[of "[]"] og_ctor_start(1) og_ctor_start(2)[of "[]"]
  by (simp add: dir_inv_def ep_init_def og_rel_def og_awake_def acks_safe_def rdgram_ctor_def)

lemma received_mono:
  assumes "received log n mr i" "n \<le> n'" "\<forall>i\<in>fst ` set mr. i < n' \<or> i \<in> fst ` set mr'"
  shows "received log n' mr' i"
  using assms unfolding received_def by (blast intro: order_less_le_trans)

lemma acks_safe_received:
  "acks_safe st log n m \<longleftrightarrow>
     (\<forall>s\<in>set (seqnb2ack_list (og_rdgram st)). \<exists>i<length log. s = of_nat i \<and> received log n m i)"
  by (simp add: acks_safe_def received_def)

text \<open>What the receiver knows of the log does not change when the sender accepts one more packet.\<close>

lemma og_rel_snoc: "og_rel st log n m \<Longrightarrow> og_rel st (log @ [p]) n m"
  by (force simp: og_rel_def nth_append)

lemma received_snoc: "i < length log \<Longrightarrow> received (log @ [p]) n m i = received log n m i"
  by (simp add: received_def nth_append)

lemma some_received_snoc:
  assumes "\<exists>i<length log. (s :: 32 word) = of_nat i \<and> received log n m i"
  shows "\<exists>i<length (log @ [p]). s = of_nat i \<and> received (log @ [p]) n m i"
proof -
  obtain i where "i < length log" "s = of_nat i" "received log n m i" using assms by blast
  then show ?thesis by (intro exI[of _ i]) (simp add: received_snoc)
qed

lemma acks_safe_snoc: "acks_safe st log n m \<Longrightarrow> acks_safe st (log @ [p]) n m"
  unfolding acks_safe_received using some_received_snoc by blast

lemma og_rel_rdgram [simp]: "og_rel (st\<lparr>og_rdgram := rd\<rparr>) log n m = og_rel st log n m"
  and og_awake_rdgram [simp]: "og_awake (st\<lparr>og_rdgram := rd\<rparr>) n m = og_awake st n m"
  by (simp_all add: og_rel_def og_awake_def)

subsection \<open>The sending side\<close>

lemma sender_upper:
  assumes inv: "dir_inv mx a b n m mr" and ex: "ep_exec (Ep_upper mem pkt) a = Inr a'"
    and sane: "serial_inv pkt"
    and len: "length (ep_sent a') < 2 ^ 31"
  shows "\<exists>m'. dir_inv mx a' b n m' mr"
proof -
  note I = inv[unfolded dir_inv_def]
  obtain err out rd where up: "rd_pkt_from_upper mem pkt (og_rdgram (ep_og a)) = Inr (err, out, rd)"
    using ex by (auto simp: og_pkt_from_upper_def res_bind_def split: sum.splits)
  have fit: "head_shift_fits 5 pkt"
    using up rd_pkt_from_upper_cases[OF sane, of mem] by (auto split: if_splits)
  have a': "a' = (if err = RD_OK
      then a\<lparr>ep_og := (ep_og a)\<lparr>og_rdgram := rd\<rparr>, ep_sent := ep_sent a @ [serial_bytes pkt], ep_net := insert out (ep_net a)\<rparr>
      else a\<lparr>ep_og := (ep_og a)\<lparr>og_rdgram := rd\<rparr>\<rparr>)"
    using ex up by (auto simp: og_pkt_from_upper_def)
  have rel: "rd_rel mx (og_rdgram (ep_og a)) (ep_sent a) m" using I by blast
  show ?thesis
  proof (cases "err = RD_OK")
    case False
    have "rd_rel mx rd (ep_sent a) m"
      using False up fit rd_pkt_from_upper_cases[OF sane, of mem]
      by (auto simp: rd_queue_pkt_def res_bind_def rel split: if_splits sum.splits)
    then show ?thesis using I False a' by (auto simp: dir_inv_def)
  next
    case True
    have "\<forall>i\<in>fst ` set m. Suc (length (ep_sent a)) < i + 2 ^ 31" using len a' True by simp
    then obtain p where p: "out = data_pkt (length (ep_sent a)) (serial_bytes pkt)"
      "rd_rel mx rd (ep_sent a @ [serial_bytes pkt]) (stdmap_insert (length (ep_sent a)) p m)"
      using rd_upper_step[OF rel _ sane fit, of mem] up True by auto
    have keys: "fst ` set (stdmap_insert (length (ep_sent a)) p m) = insert (length (ep_sent a)) (fst ` set m)"
      using rel by (auto simp: rd_rel_def set_stdmap_insert)
    have le: "n \<le> length (ep_sent a)" using I by (simp add: og_rel_def)
    have "dir_inv mx a' b n (stdmap_insert (length (ep_sent a)) p m) mr"
      unfolding dir_inv_def
    proof (intro conjI)
      show "\<forall>i<length (ep_sent a'). i \<in> fst ` set (stdmap_insert (length (ep_sent a)) p m) \<or>
          received (ep_sent a') n mr i"
        using I a' True keys by (auto simp: less_Suc_eq received_snoc)
      show "\<forall>s. build_ack s \<in> ep_net b \<longrightarrow>
          (\<exists>i<length (ep_sent a'). s = of_nat i \<and> received (ep_sent a') n mr i)"
        using I a' True some_received_snoc[of "ep_sent a"] by auto
      show "\<forall>q\<in>ep_net a'. (\<exists>i<length (ep_sent a'). q = data_pkt i (ep_sent a' ! i)) \<or> (\<exists>s. q = build_ack s)"
        using I a' True p(1) by (fastforce simp: nth_append)
    qed (use I a' True p le in \<open>auto simp: og_rel_snoc acks_safe_snoc\<close>)
    then show ?thesis by blast
  qed
qed

text \<open>The other operations of the sender keep the log; they only have to keep the pending packets that
  were not received, and to send nothing new.\<close>

lemma sender_frame:
  assumes "dir_inv mx a b n m mr" "ep_sent a' = ep_sent a"
    "rd_rel mx (og_rdgram (ep_og a')) (ep_sent a) m'"
    "\<forall>i<length (ep_sent a). i \<in> fst ` set m \<longrightarrow> i \<in> fst ` set m' \<or> received (ep_sent a) n mr i"
    "\<forall>p\<in>ep_net a'. p \<in> ep_net a \<or> (\<exists>i<length (ep_sent a). p = data_pkt i (ep_sent a ! i)) \<or>
       (\<exists>s. p = build_ack s)"
  shows "dir_inv mx a' b n m' mr"
  using assms unfolding dir_inv_def by (intro conjI) (simp_all, blast+)

lemma sender_lower:
  assumes inv: "dir_inv mx a b n m mr" and al: "pkt \<in> ep_net b"
    and peer: "\<forall>p\<in>ep_net b. (\<exists>i x. p = data_pkt i x) \<or> (\<exists>s. p = build_ack s)"
    and ex: "ep_exec (Ep_lower pkt) a = Inr a'" and len: "length (ep_sent a) < 2 ^ 31"
  shows "\<exists>m'. dir_inv mx a' b n m' mr"
proof -
  note I = inv[unfolded dir_inv_def]
  have rel: "rd_rel mx (og_rdgram (ep_og a)) (ep_sent a) m" using I by blast
  obtain err out st where low: "og_pkt_from_lower pkt (ep_og a) = Inr (err, out, st)"
    "ep_sent a' = ep_sent a" "ep_net a' = ep_net a" "ep_og a' = st"
    using ex by (auto simp: res_bind_def split: sum.splits)
  obtain m' where m': "rd_rel mx (og_rdgram st) (ep_sent a) m'"
    "m' = m \<or> (\<exists>i rest. m' = stdmap_erase i m \<and> pkt = build_ack (of_nat i) @ rest)"
  proof -
    obtain e o' sq where "rd_pkt_from_lower (should_acked_pkt_cb (ep_og a)) pkt (og_rdgram (ep_og a)) =
      Inr (e, o', sq, og_rdgram st)" using og_lower_rdgram[OF low(1)] by blast
    then show ?thesis
      using that rd_lower_step[OF rel, of "should_acked_pkt_cb (ep_og a)" pkt] by (elim exE conjE) simp
  qed
  have "received (ep_sent a) n mr j" if j: "j \<in> fst ` set m" "j \<notin> fst ` set m'" for j
  proof -
    have "j < length (ep_sent a)" using j(1) rel by (auto simp: rd_rel_def)
    obtain i rest where i: "m' = stdmap_erase i m" "pkt = build_ack (of_nat i) @ rest" using m'(2) j by auto
    have "j = i" using j i(1) by (force simp: set_stdmap_erase)
    obtain s where "pkt = build_ack s" using peer al data_not_ack i(2) by metis
    then have "pkt = build_ack (of_nat i)" using i(2) build_ack_inject by metis
    then obtain k where "k < length (ep_sent a)" "(of_nat i :: 32 word) = of_nat k" "received (ep_sent a) n mr k"
      using I al by blast
    then show ?thesis
      using of_nat_small_inject[of i k] \<open>j = i\<close> \<open>j < length (ep_sent a)\<close> len by simp
  qed
  then have "dir_inv mx a' b n m' mr" using low m'(1) by (intro sender_frame[OF inv]) auto
  then show ?thesis by blast
qed

lemma og_step_timer_rdgram:
  assumes "og_rel st log n m" "length log < 2 ^ 31" "og_awake st n m" "og_step Og_timer st = Inr (outs, st')"
  shows "og_rdgram st' = og_rdgram st"
  using og_expire_step[OF assms(1) _ assms(3)] assms(2,4) by fastforce

lemma sender_ok:
  assumes inv: "dir_inv mx a b n m mr" and inv': "dir_inv my b a n2 m2 mr2"
    and "ep_allowed b op" "ep_exec op a = Inr a'"
    "length (ep_sent a') < 2 ^ 31" "length (ep_sent b) < 2 ^ 31"
  shows "\<exists>m'. dir_inv mx a' b n m' mr"
proof (cases op)
  case (Ep_upper mem pkt)
  then show ?thesis using sender_upper[OF inv, of mem pkt a'] assms(3-5) by simp
next
  case (Ep_lower pkt)
  then have "ep_sent a' = ep_sent a" using assms(4) by (auto simp: res_bind_def split: sum.splits)
  then show ?thesis
    using sender_lower[OF inv, of pkt a'] assms(3-5) inv' Ep_lower unfolding dir_inv_def by fastforce
next
  case Ep_deliver
  then obtain outs st where st: "og_step Og_timer (ep_og a) = Inr (outs, st)"
    "a' = a\<lparr>ep_og := st, ep_got := ep_got a @ outs\<rparr>"
    using assms(4) by (auto simp: res_bind_def split: sum.splits)
  then have "og_rdgram st = og_rdgram (ep_og a)"
    using og_step_timer_rdgram[OF _ assms(6)] inv' unfolding dir_inv_def by blast
  then have "dir_inv mx a' b n m mr" using inv st by (intro sender_frame[OF inv]) (auto simp: dir_inv_def)
  then show ?thesis by blast
next
  case (Ep_zerotimer z)
  have rel: "rd_rel mx (og_rdgram (ep_og a)) (ep_sent a) m" using inv by (simp add: dir_inv_def)
  obtain evs rd where z: "rd_zerotimer_expire (\<lambda>ev. True) z (og_rdgram (ep_og a)) = Inr (True, evs, rd)"
    "rd_rel mx rd (ep_sent a) m" "\<forall>p. RD_PKT_TO_LOWER p \<in> set evs \<longrightarrow> (\<exists>s. p = build_ack s)"
    using rd_zerotimer_step[OF rel, of z] by blast
  then have "dir_inv mx a' b n m mr"
    using assms(4) Ep_zerotimer by (intro sender_frame[OF inv]) (auto simp: lower_pkts_def)
  then show ?thesis by blast
next
  case (Ep_rxmit w)
  have rel: "rd_rel mx (og_rdgram (ep_og a)) (ep_sent a) m" using inv by (simp add: dir_inv_def)
  obtain evs rd m' where r: "rd_rxmit w (og_rdgram (ep_og a)) = Inr (evs, rd)" "rd_rel mx rd (ep_sent a) m'"
    "map fst m' = map fst m"
    "evs = [] \<or> (\<exists>i\<in>fst ` set m. w = of_nat i \<and> evs = [RD_PKT_TO_LOWER (data_pkt i (ep_sent a ! i))])"
    using rd_rxmit_step[OF rel, of w] by blast
  have "fst ` set m' = fst ` set m" using r(3) by (metis set_map)
  moreover have "\<forall>i\<in>fst ` set m. i < length (ep_sent a)" using rel by (auto simp: rd_rel_def)
  ultimately have "dir_inv mx a' b n m' mr"
    using assms(4) Ep_rxmit r by (intro sender_frame[OF inv]) (auto simp: lower_pkts_def)
  then show ?thesis by blast
next
  case (Ep_threshold k)
  have "rd_rel mx (snd (maysend_set_threshold k (og_rdgram (ep_og a)))) (ep_sent a) m"
    using inv by (simp add: dir_inv_def maysend_set_threshold_def maysend_notify_def Let_def rd_rel_frame)
  then have "dir_inv mx a' b n m mr"
    using assms(4) Ep_threshold by (intro sender_frame[OF inv]) auto
  then show ?thesis by blast
qed

subsection \<open>The receiving side\<close>

text \<open>The operations of \<open>b\<close> that receive nothing: the acknowledgements that it sends are those it owed.\<close>

lemma receiver_frame:
  assumes "dir_inv mx a b n m mr" "ep_got b' = ep_got b" "ep_og b' = (ep_og b)\<lparr>og_rdgram := rd\<rparr>"
    "set (seqnb2ack_list rd) \<subseteq> set (seqnb2ack_list (og_rdgram (ep_og b)))"
    "\<forall>s. build_ack s \<in> ep_net b' \<longrightarrow>
       build_ack s \<in> ep_net b \<or> s \<in> set (seqnb2ack_list (og_rdgram (ep_og b)))"
  shows "dir_inv mx a b' n m mr"
  using assms unfolding dir_inv_def acks_safe_received by (intro conjI) (simp_all, blast+)

lemma build_ack_inject' [simp]: "build_ack s = build_ack t \<longleftrightarrow> s = t"
  using build_ack_inject[of s t "[]"] by simp

lemma receiver_step:
  assumes inv: "dir_inv mx a b n m mr" and len: "length (ep_sent a) < 2 ^ 31"
    and op: "peer_op (ep_sent a) op" and st: "og_step op (ep_og b) = Inr (outs, st)"
  shows "\<exists>n' mr'. dir_inv mx a (b\<lparr>ep_og := st, ep_got := ep_got b @ outs\<rparr>) n' m mr' \<and> n \<le> n'"
proof -
  note I = inv[unfolded dir_inv_def]
  have le: "length (ep_sent a) \<le> 2 ^ 31 - 1" using len by simp
  obtain n' mr' where s: "outs = drop n (take n' (ep_sent a))" "n \<le> n'"
    "og_rel st (ep_sent a) n' mr'" "og_awake st n' mr'" "acks_safe st (ep_sent a) n' mr'"
    "\<forall>i\<in>fst ` set mr. i < n' \<or> i \<in> fst ` set mr'"
    using og_step_ok[OF _ le _ _ op, of "ep_og b" n mr] I st by auto
  have got: "take n (ep_sent a) @ outs = take n' (ep_sent a)"
    using s(1,2) by (metis append_take_drop_id min.absorb1 take_take)
  have mono: "received (ep_sent a) n mr i \<Longrightarrow> received (ep_sent a) n' mr' i" for i
    using received_mono[OF _ s(2,6)] .
  have "dir_inv mx a (b\<lparr>ep_og := st, ep_got := ep_got b @ outs\<rparr>) n' m mr'"
    using I s(3-5) got mono unfolding dir_inv_def by (intro conjI) (simp_all, blast+)
  then show ?thesis using s(2) by blast
qed

lemma receiver_ok:
  assumes inv: "dir_inv mx a b n m mr" and inv': "dir_inv my b a n2 m2 mr2"
    and "ep_allowed a op" "ep_exec op b = Inr b'" and len: "length (ep_sent a) < 2 ^ 31"
  shows "\<exists>n' mr'. dir_inv mx a b' n' m mr' \<and> n \<le> n'"
proof -
  note I = inv[unfolded dir_inv_def]
  have rel: "rd_rel my (og_rdgram (ep_og b)) (ep_sent b) m2" using inv' by (simp add: dir_inv_def)
  have same: ?thesis if "dir_inv mx a b' n m mr" using that by blast
  show ?thesis
  proof (cases op)
    case (Ep_upper mem pkt)
    then obtain err out rd where up: "rd_pkt_from_upper mem pkt (og_rdgram (ep_og b)) = Inr (err, out, rd)"
      using assms(4) by (auto simp: og_pkt_from_upper_def res_bind_def split: sum.splits)
    then have "seqnb2ack_list rd = seqnb2ack_list (og_rdgram (ep_og b))" by (rule rd_upper_acks)
    moreover have "\<exists>i x. out = data_pkt i x"
      using up rel rd_pkt_from_upper_cases[of pkt mem] Ep_upper assms(3)
      by (auto simp: rd_queue_pkt_def rd_rel_def data_pkt_def res_bind_def split: if_splits sum.splits)
    ultimately show ?thesis
      using Ep_upper up assms(4) by (intro same receiver_frame[OF inv, of _ rd])
        (auto simp: og_pkt_from_upper_def split: if_splits)
  next
    case (Ep_lower pkt)
    then consider i where "i < length (ep_sent a)" "pkt = data_pkt i (ep_sent a ! i)" | s where "pkt = build_ack s"
      using assms(3) I by force
    then show ?thesis
    proof cases
      case 1
      then have "peer_op (ep_sent a) (Og_lower pkt)" by (auto simp: peer_op_def)
      then show ?thesis
        using receiver_step[OF inv len] Ep_lower assms(4)
        by (fastforce simp: res_bind_def simp del: og_step.simps split: sum.splits)
    next
      case 2
      then obtain rd where "og_pkt_from_lower pkt (ep_og b) = Inr (RD_OK, [], (ep_og b)\<lparr>og_rdgram := rd\<rparr>)"
        "seqnb2ack_list rd = seqnb2ack_list (og_rdgram (ep_og b))" using og_lower_ack[OF rel] by blast
      then show ?thesis
        using Ep_lower assms(4) by (intro same receiver_frame[OF inv, of _ rd]) auto
    qed
  next
    case Ep_deliver
    have "peer_op (ep_sent a) Og_timer" by (simp add: peer_op_def)
    then show ?thesis
      using receiver_step[OF inv len] Ep_deliver assms(4)
      by (fastforce simp: res_bind_def simp del: og_step.simps split: sum.splits)
  next
    case (Ep_zerotimer z)
    obtain evs rd where z: "rd_zerotimer_expire (\<lambda>ev. True) z (og_rdgram (ep_og b)) = Inr (True, evs, rd)"
      "\<forall>p. RD_PKT_TO_LOWER p \<in> set evs \<longrightarrow>
         (\<exists>s\<in>set (seqnb2ack_list (og_rdgram (ep_og b))). p = build_ack s)"
      using rd_zerotimer_step[OF rel, of z] by blast
    then show ?thesis
      using Ep_zerotimer assms(4) rd_zerotimer_acks[OF z(1)]
      by (intro same receiver_frame[OF inv, of _ rd]) (auto simp: lower_pkts_def)
  next
    case (Ep_rxmit w)
    obtain evs rd where r: "rd_rxmit w (og_rdgram (ep_og b)) = Inr (evs, rd)"
      "evs = [] \<or> (\<exists>i\<in>fst ` set m2. w = of_nat i \<and> evs = [RD_PKT_TO_LOWER (data_pkt i (ep_sent b ! i))])"
      using rd_rxmit_step[OF rel, of w] by blast
    then show ?thesis
      using Ep_rxmit assms(4) rd_rxmit_acks[OF r(1)]
      by (intro same receiver_frame[OF inv, of _ rd]) (auto simp: lower_pkts_def)
  next
    case (Ep_threshold k)
    then show ?thesis
      using assms(4) by (intro same receiver_frame[OF inv]) (auto simp: threshold_acks)
  qed
qed

subsection \<open>Links\<close>

fun link_inv :: "nat \<Rightarrow> nat \<Rightarrow> link \<Rightarrow> bool" where
  "link_inv mx my (a, b) =
     ((\<exists>n m mr. dir_inv mx a b n m mr) \<and> (\<exists>n m mr. dir_inv my b a n m mr))"

fun link_bounded :: "link \<Rightarrow> bool" where
  "link_bounded (a, b) = (length (ep_sent a) < 2 ^ 31 \<and> length (ep_sent b) < 2 ^ 31)"

lemma ep_exec_sent_grows:
  "ep_exec op a = Inr a' \<Longrightarrow> length (ep_sent a) \<le> length (ep_sent a')"
  by (cases op) (auto simp: res_bind_def simp del: og_step.simps split: sum.splits if_splits)

lemma link_step_bounded: "link_step l l' \<Longrightarrow> link_bounded l' \<Longrightarrow> link_bounded l"
  by (cases rule: link_step.cases) (auto dest: ep_exec_sent_grows)

lemma link_inv_step:
  assumes "link_step l l'" "link_inv mx my l" "link_bounded l'"
  shows "link_inv mx my l'"
  using assms(1)
proof cases
  case (step_left b op a a')
  have len: "length (ep_sent a) < 2 ^ 31" "length (ep_sent b) < 2 ^ 31"
    using link_step_bounded[OF assms(1,3)] step_left by simp_all
  obtain n m mr n2 m2 mr2 where I: "dir_inv mx a b n m mr" "dir_inv my b a n2 m2 mr2"
    using assms(2) step_left by auto
  show ?thesis
    using sender_ok[OF I step_left(3,4)] receiver_ok[OF I(2,1) step_left(3,4)] len assms(3) step_left(2)
    by auto
next
  case (step_right a op b b')
  have len: "length (ep_sent a) < 2 ^ 31" "length (ep_sent b) < 2 ^ 31"
    using link_step_bounded[OF assms(1,3)] step_right by simp_all
  obtain n m mr n2 m2 mr2 where I: "dir_inv mx a b n m mr" "dir_inv my b a n2 m2 mr2"
    using assms(2) step_right by auto
  show ?thesis
    using sender_ok[OF I(2,1) step_right(3,4)] receiver_ok[OF I step_right(3,4)] len assms(3) step_right(2)
    by auto
qed

lemma link_inv_reachable:
  assumes "link_steps (ep_init mx, ep_init my) l" "link_bounded l"
  shows "link_inv mx my l"
  using assms
proof (induction rule: rtranclp_induct)
  case base
  then show ?case unfolding link_inv.simps using dir_inv_init by blast
next
  case (step l l')
  then show ?case using link_inv_step link_step_bounded by blast
qed

text \<open>An operation fails exactly when the user hands down a buffer without room for the header.\<close>

lemma ep_exec_unfit:
  "ep_allowed peer op \<Longrightarrow> \<not> ep_fits op \<Longrightarrow> ep_exec op a = Inl Assert_failed"
  by (cases op) (simp_all add: og_pkt_from_upper_def rd_pkt_from_upper_cases)

lemma ep_exec_total:
  assumes "dir_inv mx a b n m mr" "dir_inv my b a n2 m2 mr2" "ep_allowed b op"
    "Suc (length (ep_sent a)) < 2 ^ 31" "length (ep_sent b) < 2 ^ 31" "ep_fits op"
  shows "\<exists>a'. ep_exec op a = Inr a'"
proof -
  have rel: "rd_rel mx (og_rdgram (ep_og a)) (ep_sent a) m" using assms(1) by (simp add: dir_inv_def)
  have le: "length (ep_sent b) \<le> 2 ^ 31 - 1" using assms(5) by simp
  have recv: "\<exists>outs st. og_step o' (ep_og a) = Inr (outs, st)" if "peer_op (ep_sent b) o'" for o'
    using og_step_ok[OF _ le _ _ that, of "ep_og a" n2 mr2] assms(2) unfolding dir_inv_def by blast
  show ?thesis
  proof (cases op)
    case (Ep_upper mem pkt)
    have "\<forall>i\<in>fst ` set m. Suc (length (ep_sent a)) < i + 2 ^ 31" using assms(4) by simp
    then show ?thesis
      using rd_upper_step[OF rel _, of pkt mem] Ep_upper assms(3,6) by (auto simp: og_pkt_from_upper_def)
  next
    case (Ep_lower pkt)
    then consider i where "i < length (ep_sent b)" "pkt = data_pkt i (ep_sent b ! i)" | s where "pkt = build_ack s"
      using assms(2,3) unfolding dir_inv_def by force
    then show ?thesis
    proof cases
      case 1
      then have "peer_op (ep_sent b) (Og_lower pkt)" by (auto simp: peer_op_def)
      then obtain outs st where "og_step (Og_lower pkt) (ep_og a) = Inr (outs, st)" using recv by blast
      then show ?thesis using Ep_lower by (simp del: og_step.simps)
    next
      case 2
      then obtain rd where "og_pkt_from_lower pkt (ep_og a) = Inr (RD_OK, [], (ep_og a)\<lparr>og_rdgram := rd\<rparr>)"
        using og_lower_ack[OF rel] by blast
      then show ?thesis using Ep_lower by simp
    qed
  next
    case Ep_deliver
    then show ?thesis using recv[of Og_timer] by (auto simp: peer_op_def simp del: og_step.simps)
  next
    case (Ep_zerotimer z)
    then show ?thesis using rd_zerotimer_step[OF rel, of z] by auto
  next
    case (Ep_rxmit w)
    then show ?thesis using rd_rxmit_step[OF rel, of w] by auto
  qed simp
qed

text \<open>All packets on the network may get lost.\<close>

lemma dir_inv_lose: "dir_inv mx a b n m mr \<Longrightarrow> dir_inv mx (a\<lparr>ep_net := {}\<rparr>) (b\<lparr>ep_net := {}\<rparr>) n m mr"
  by (simp add: dir_inv_def)

text \<open>A stored packet that is next in order is handed up by the timer, which is scheduled.\<close>

lemma deliver_progress:
  assumes "dir_inv mx a b n m mr" "length (ep_sent a) < 2 ^ 31" "n \<in> fst ` set mr"
  shows "\<exists>b'. ep_exec Ep_deliver b = Inr b' \<and> length (ep_got b) < length (ep_got b')"
proof -
  note I = assms(1)[unfolded dir_inv_def]
  have le: "length (ep_sent a) \<le> 2 ^ 31 - 1" using assms(2) by simp
  obtain n' mr' st where e: "n \<le> n'" "og_zerotimer_expire (\<lambda>ev. True) (ep_og b) =
      Inr (True, map OG_PKT_TO_UPPER (drop n (take n' (ep_sent a))), st)"
    "og_rel st (ep_sent a) n' mr'" "n' \<notin> fst ` set mr'" "\<forall>i\<in>fst ` set mr. i < n' \<or> i \<in> fst ` set mr'"
    using og_expire_step[OF _ le, of "ep_og b" n mr] I by blast
  have "n < n'" using e(1,4,5) assms(3) by (metis le_neq_implies_less)
  moreover have "n' \<le> length (ep_sent a)" using e(3) by (simp add: og_rel_def)
  ultimately show ?thesis using e(2) by simp
qed

text \<open>A pending packet that is next in order is handed up when it is retransmitted and fits.\<close>

lemma rxmit_progress:
  assumes "dir_inv mx a b n m mr" "length (ep_sent a) < 2 ^ 31" "n < length (ep_sent a)" "n \<in> fst ` set m"
    "n \<notin> fst ` set mr" "ep_sent a ! n \<noteq> []"
    "recvbuf_used_len (ep_og b) + length (ep_sent a ! n) \<le> recvbuf_max_len (ep_og b)"
  shows "\<exists>a' b'. ep_exec (Ep_rxmit (of_nat n)) a = Inr a' \<and> data_pkt n (ep_sent a ! n) \<in> ep_net a' \<and>
    ep_exec (Ep_lower (data_pkt n (ep_sent a ! n))) b = Inr b' \<and> length (ep_got b) < length (ep_got b')"
proof -
  note I = assms(1)[unfolded dir_inv_def]
  have rel: "rd_rel mx (og_rdgram (ep_og a)) (ep_sent a) m" using I by blast
  have le: "length (ep_sent a) \<le> 2 ^ 31 - 1" using assms(2) by simp
  obtain p where p: "find_sendbuf_pkt (of_nat n) (og_rdgram (ep_og a)) = Some p"
    "sb_pkt p = data_pkt n (ep_sent a ! n)" using rd_rel_find[OF rel assms(4)] by blast
  obtain evs rd where r: "rd_rxmit (of_nat n) (og_rdgram (ep_og a)) = Inr (evs, rd)"
    using rd_rxmit_step[OF rel] by blast
  then have "evs = [RD_PKT_TO_LOWER (sb_pkt p)]"
    using p(1) by (auto simp: rd_rxmit_def rd_timeout_expire_cb_def res_bind_def split: sum.splits)
  then have rx: "\<exists>a'. ep_exec (Ep_rxmit (of_nat n)) a = Inr a' \<and> data_pkt n (ep_sent a ! n) \<in> ep_net a'"
    using r p(2) by (simp add: lower_pkts_def)
  have "og_fate (ep_og b) (ep_sent a) n mr n = Delivered" using assms(5-7) by (simp add: og_fate_def)
  then obtain st where "og_pkt_from_lower (data_pkt n (ep_sent a ! n)) (ep_og b) = Inr (RD_OK, ep_sent a ! n, st)"
    using og_lower_step[OF _ le assms(3), of "ep_og b" n mr] I by auto
  then show ?thesis using rx assms(6) by auto
qed

subsection \<open>Properties\<close>

text \<open>What a direction promises: the user of \<open>b\<close> has got a prefix of the accepted payloads, and a payload
  that is not handed up yet is kept with its number by the sender or by the receiver.\<close>

definition direction_ok :: "endpoint \<Rightarrow> endpoint \<Rightarrow> bool" where
  "direction_ok a b \<longleftrightarrow>
     ep_got b = take (length (ep_got b)) (ep_sent a) \<and>
     (\<forall>i<length (ep_sent a). length (ep_got b) \<le> i \<and> ep_sent a ! i \<noteq> [] \<longrightarrow>
        (\<exists>p. find_sendbuf_pkt (of_nat i) (og_rdgram (ep_og a)) = Some p \<and> sb_pkt p = data_pkt i (ep_sent a ! i)) \<or>
        (\<exists>p. wmap_find (of_nat i) (recvbuf_pkt_db (ep_og b)) = Some p \<and> rb_pkt p = ep_sent a ! i))"

lemma direction_okI:
  assumes "dir_inv mx a b n m mr" "length (ep_sent a) < 2 ^ 31"
  shows "direction_ok a b"
proof -
  note I = assms(1)[unfolded dir_inv_def]
  have le: "length (ep_sent a) \<le> 2 ^ 31 - 1" using assms(2) by simp
  have rel: "rd_rel mx (og_rdgram (ep_og a)) (ep_sent a) m" "og_rel (ep_og b) (ep_sent a) n mr"
    using I by blast+
  have n: "length (ep_got b) = n" using I by (simp add: og_rel_def)
  show ?thesis
    unfolding direction_ok_def n
  proof (intro conjI allI impI)
    show "ep_got b = take n (ep_sent a)" using I by blast
  next
    fix i assume i: "i < length (ep_sent a)" "n \<le> i \<and> ep_sent a ! i \<noteq> []"
    then have "i \<in> fst ` set m \<or> i \<in> fst ` set mr" using I by (auto simp: received_def)
    then show "(\<exists>p. find_sendbuf_pkt (of_nat i) (og_rdgram (ep_og a)) = Some p \<and>
          sb_pkt p = data_pkt i (ep_sent a ! i)) \<or>
        (\<exists>p. wmap_find (of_nat i) (recvbuf_pkt_db (ep_og b)) = Some p \<and> rb_pkt p = ep_sent a ! i)"
      using rd_rel_find[OF rel(1)] og_rel_find[OF rel(2) le] by blast
  qed
qed

text \<open>C1. Two started objects exchange packets in both directions over a network that loses, repeats and
  reorders packets, with fewer than 2^31 accepted payloads each way.  In every reachable state the user
  of each side has got a prefix of the payloads that the other side accepted, in order and once each,
  and every accepted payload that is not empty and not handed up yet is kept, with its number and its
  bytes, in the send buffer of the one or in the receive buffer of the other.  (An accepted empty
  payload is acknowledged and never handed up, which \<open>ordgram_stalls\<close> shows: nothing is claimed of it.)\<close>
theorem link_reliable_and_ordered:
  assumes "link_steps (ep_init mx, ep_init my) (a, b)" "link_bounded (a, b)"
  shows "direction_ok a b \<and> direction_ok b a"
  using link_inv_reachable[OF assms] assms(2) by (auto intro: direction_okI)

text \<open>C26. In every reachable state with fewer than 2^31 - 1 accepted payloads each way, whatever call,
  timer expiry or packet of the peer comes next, the code returns; the only exception is a packet of
  the user whose buffer has no room for the header in the sense of \<open>ep_fits\<close>: there the assertion of
  \<open>head_alloc\<close> fails.\<close>
theorem link_never_fails:
  assumes "link_steps (ep_init mx, ep_init my) (a, b)" "length (ep_sent a) < 2 ^ 31 - 1"
    "length (ep_sent b) < 2 ^ 31 - 1"
  shows "(ep_allowed b op \<longrightarrow>
      (if ep_fits op then \<exists>a'. ep_exec op a = Inr a' else ep_exec op a = Inl Assert_failed)) \<and>
    (ep_allowed a op \<longrightarrow>
      (if ep_fits op then \<exists>b'. ep_exec op b = Inr b' else ep_exec op b = Inl Assert_failed))"
proof -
  have "link_inv mx my (a, b)" using link_inv_reachable[OF assms(1)] assms(2,3) by simp
  then obtain n m mr n2 m2 mr2 where I: "dir_inv mx a b n m mr" "dir_inv my b a n2 m2 mr2" by auto
  show ?thesis
    using ep_exec_total[OF I, of op] ep_exec_total[OF I(2,1), of op] ep_exec_unfit assms(2,3) by simp
qed

text \<open>C10. Progress: in every reachable state with fewer than 2^31 accepted payloads each way, even when
  all packets on the network are lost, the next payload can still be handed up in one step (the timer
  of the receiver) or in two (a retransmission by the sender and its reception), provided that it is not
  empty and fits into the receive buffer.\<close>
theorem link_progress:
  assumes "link_steps (ep_init mx, ep_init my) (a, b)" "link_bounded (a, b)"
    "length (ep_got b) < length (ep_sent a)" "ep_sent a ! length (ep_got b) \<noteq> []"
    "recvbuf_used_len (ep_og b) + length (ep_sent a ! length (ep_got b)) \<le> recvbuf_max_len (ep_og b)"
  shows "\<exists>a' b'. (link_step (a\<lparr>ep_net := {}\<rparr>, b\<lparr>ep_net := {}\<rparr>) (a', b') \<or>
      (\<exists>l. link_step (a\<lparr>ep_net := {}\<rparr>, b\<lparr>ep_net := {}\<rparr>) l \<and> link_step l (a', b'))) \<and>
    length (ep_got b) < length (ep_got b')"
proof -
  let ?a = "a\<lparr>ep_net := {}\<rparr>" and ?b = "b\<lparr>ep_net := {}\<rparr>"
  obtain n m mr where I: "dir_inv mx ?a ?b n m mr"
    using link_inv_reachable[OF assms(1,2)] dir_inv_lose by fastforce
  note J = I[unfolded dir_inv_def]
  have n: "length (ep_got b) = n" using J by (simp add: og_rel_def)
  show ?thesis
  proof (cases "n \<in> fst ` set mr")
    case True
    then obtain b' where b': "ep_exec Ep_deliver ?b = Inr b'" "length (ep_got b) < length (ep_got b')"
      using deliver_progress[OF I] assms(2) by auto
    have "link_step (?a, ?b) (?a, b')" by (rule step_right[OF _ b'(1)]) simp
    then show ?thesis using b'(2) by blast
  next
    case False
    have "n < length (ep_sent a)" "ep_sent a ! n \<noteq> []" using assms(3,4) unfolding n by simp_all
    then have "n \<in> fst ` set m" using J False by (auto simp: received_def)
    then obtain a' b' where s: "ep_exec (Ep_rxmit (of_nat n)) ?a = Inr a'"
      "data_pkt n (ep_sent a ! n) \<in> ep_net a'" "ep_exec (Ep_lower (data_pkt n (ep_sent a ! n))) ?b = Inr b'"
      "length (ep_got b) < length (ep_got b')"
      using rxmit_progress[OF I _ _ _ False] assms(2-5) n by auto
    have "link_step (?a, ?b) (a', ?b)" by (rule step_left[OF _ s(1)]) simp
    moreover have "link_step (a', ?b) (a', b')" by (rule step_right[OF _ s(3)]) (simp add: s(2))
    ultimately show ?thesis using s(4) by blast
  qed
qed

text \<open>A link on which one packet was sent, for the instances below.\<close>

lemma link_one_packet:
  "\<exists>a. link_steps (ep_init 0, ep_init 0) (a, ep_init 0) \<and> ep_sent a = [[7]]"
proof -
  let ?p = "exact_buffer [7]"
  obtain st out where st: "og_pkt_from_upper (\<lambda>_. 0) ?p (ep_og (ep_init 0)) = Inr (RD_OK, out, st)"
    by (simp add: og_pkt_from_upper_def ep_init_def rd_pkt_from_upper_cases rd_queue_pkt_def sendbuf_pkt_ctor_def
        sendbuf_add_pkt_def maysend_is_set_def sendbuf_is_limited_def Let_def case_prod_beta rdgram_ctor_def)
  have "link_step (ep_init 0, ep_init 0)
      ((ep_init 0)\<lparr>ep_og := st, ep_sent := [[7]], ep_net := {out}\<rparr>, ep_init 0)"
    using st by (intro step_left[of _ "Ep_upper (\<lambda>_. 0) ?p"]) (simp_all add: ep_init_def)
  then show ?thesis by (intro exI[of _ "(ep_init 0)\<lparr>ep_og := st, ep_sent := [[7]], ep_net := {out}\<rparr>"]) auto
qed

theorem link_reliable_and_ordered_witness:
  "\<exists>a. link_steps (ep_init 0, ep_init 0) (a, ep_init 0) \<and> ep_sent a = [[7]] \<and>
     direction_ok a (ep_init 0) \<and> direction_ok (ep_init 0) a"
proof -
  obtain a where a: "link_steps (ep_init 0, ep_init 0) (a, ep_init 0)" "ep_sent a = [[7]]"
    using link_one_packet by blast
  have "link_bounded (a, ep_init 0)" using a(2) by (simp add: ep_init_def)
  then show ?thesis using link_reliable_and_ordered[OF a(1)] a by blast
qed

theorem link_never_fails_witness:
  "\<exists>a a'. link_steps (ep_init 0, ep_init 0) (a, ep_init 0) \<and> ep_sent a = [[7]] \<and>
     ep_exec (Ep_zerotimer ZT_SEQNB2ACK) a = Inr a'"
proof -
  obtain a where a: "link_steps (ep_init 0, ep_init 0) (a, ep_init 0)" "ep_sent a = [[7]]"
    using link_one_packet by blast
  have "ep_allowed (ep_init 0) (Ep_zerotimer ZT_SEQNB2ACK)" by simp
  then show ?thesis
    using link_never_fails[OF a(1), of "Ep_zerotimer ZT_SEQNB2ACK"] a by (auto simp: ep_init_def simp del: ep_exec.simps)
qed

theorem link_progress_witness:
  "\<exists>a a' b'. ep_sent a = [[7]] \<and>
     (link_step (a\<lparr>ep_net := {}\<rparr>, (ep_init 0)\<lparr>ep_net := {}\<rparr>) (a', b') \<or>
      (\<exists>l. link_step (a\<lparr>ep_net := {}\<rparr>, (ep_init 0)\<lparr>ep_net := {}\<rparr>) l \<and> link_step l (a', b'))) \<and>
     ep_got b' \<noteq> []"
proof -
  obtain a where a: "link_steps (ep_init 0, ep_init 0) (a, ep_init 0)" "ep_sent a = [[7]]"
    using link_one_packet by blast
  have "link_bounded (a, ep_init 0)" "ep_got (ep_init 0) = []"
    "recvbuf_used_len (ep_og (ep_init 0)) = 0" "recvbuf_max_len (ep_og (ep_init 0)) = 30720"
    using a(2) by (simp_all add: ep_init_def ordgram_ctor_def RECVBUF_MAX_LEN_DFL_def)
  then obtain a' b' where p: "link_step (a\<lparr>ep_net := {}\<rparr>, (ep_init 0)\<lparr>ep_net := {}\<rparr>) (a', b') \<or>
      (\<exists>l. link_step (a\<lparr>ep_net := {}\<rparr>, (ep_init 0)\<lparr>ep_net := {}\<rparr>) l \<and> link_step l (a', b'))"
    "length (ep_got (ep_init 0)) < length (ep_got b')"
    using link_progress[OF a(1)] a(2) by auto
  have "ep_got b' \<noteq> []" using p(2) by auto
  then show ?thesis using p(1) a(2) by blast
qed

end
