(* ===== verification/GenId.thy ===== *)
theory GenId
  imports SerialCodec
begin

text \<open>
  Generic identifiers: the template \<open>gen_id_t\<close> (\<open>neoip_netutils/gen_id/neoip_gen_id.hpp\<close>), from which the
  identifiers of the distributed hash table are made.  An identifier is an array of \<open>NB_BYTE\<close> bytes;
  here it is its bytes, and \<open>NB_BYTE\<close> is the length (an argument of the operations that build an
  identifier).  The digest that derives an identifier from other data is computed by libgcrypt
  and appears as the parameter \<open>hash\<close>.

  The bytes are read as a number, the most significant byte first; the lemmas relate each
  operation to the operation on numbers that it stands for.
\<close>

unbundle bit_operations_syntax

subsection \<open>Operations\<close>

definition gen_id_ctor :: "nat \<Rightarrow> bytes" where
  "gen_id_ctor n = replicate n 0"

definition gen_id_build_any :: "nat \<Rightarrow> bytes" where
  "gen_id_build_any n = replicate n 0xff"

definition gen_id_is_null :: "bytes \<Rightarrow> bool" where
  "gen_id_is_null a = (a = gen_id_ctor (length a))"

definition gen_id_is_any :: "bytes \<Rightarrow> bool" where
  "gen_id_is_any a = (a = gen_id_build_any (length a))"

definition gen_id_is_fully_qualified :: "bytes \<Rightarrow> bool" where
  "gen_id_is_fully_qualified a = (\<not> gen_id_is_null a \<and> \<not> gen_id_is_any a)"

definition gen_id_of_datum :: "(bytes \<Rightarrow> bytes) \<Rightarrow> nat \<Rightarrow> bytes \<Rightarrow> bytes res" where
  "gen_id_of_datum hash n d =
     (if length d = n then Inr d else dbg_assert (length (hash d) = n) (Inr (hash d)))"

definition gen_id_xor :: "bytes \<Rightarrow> bytes \<Rightarrow> bytes" where
  "gen_id_xor a b = map2 (XOR) a b"

definition gen_id_and :: "bytes \<Rightarrow> bytes \<Rightarrow> bytes" where
  "gen_id_and a b = map2 (AND) a b"

text \<open>The two loops of \<open>bit_get_highest_set\<close>: the first byte that is not null, and its highest bit.\<close>

fun skip_null_bytes :: "bytes \<Rightarrow> nat" where
  "skip_null_bytes [] = 0"
| "skip_null_bytes (x # xs) = (if x = 0 then Suc (skip_null_bytes xs) else 0)"

fun highest_bit :: "byte \<Rightarrow> nat \<Rightarrow> nat" where
  "highest_bit x 0 = 0"
| "highest_bit x (Suc j) = (if bit x (Suc j) then Suc j else highest_bit x j)"

definition bit_get_highest_set :: "bytes \<Rightarrow> nat" where
  "bit_get_highest_set a =
     (let i = skip_null_bytes a in
      if i = length a then 0 else (length a - 1 - i) * 8 + highest_bit (a ! i) 7)"

definition bit_clear_n_highest :: "nat \<Rightarrow> bytes \<Rightarrow> bytes res" where
  "bit_clear_n_highest n_bit a =
     dbg_assert (n_bit \<le> length a * 8)
      (let n = n_bit div 8; tmp = replicate n 0 @ drop n a in
       if n < length a then Inr (tmp[n := tmp ! n AND drop_bit (n_bit mod 8) 0xff])
       else Inl Out_of_bounds)"

definition gen_id_shift_right :: "bytes \<Rightarrow> nat \<Rightarrow> bytes" where
  "gen_id_shift_right a nb_bit =
     (let byte_off = nb_bit div 8; bit_off = nb_bit mod 8 in
      map (\<lambda>i. let left_val = (if i < byte_off + 1 then 0 else a ! (i - byte_off - 1));
                   right_val = (if i < byte_off then 0 else a ! (i - byte_off))
               in push_bit (8 - bit_off) left_val OR drop_bit bit_off right_val) [0..<length a])"

definition gen_id_compare :: "bytes \<Rightarrow> bytes \<Rightarrow> int" where
  "gen_id_compare a b =
     (if gen_id_is_null a \<and> \<not> gen_id_is_null b then -1
      else if \<not> gen_id_is_null a \<and> gen_id_is_null b then 1
      else if gen_id_is_null a \<and> gen_id_is_null b then 0
      else vec_cmp a b)"

subsection \<open>Strings\<close>

definition gen_id_hex_digit :: "nat \<Rightarrow> char" where
  "gen_id_hex_digit d = (if d < 10 then char_of (48 + d) else char_of (87 + d))"

definition to_canonical_string :: "bytes \<Rightarrow> string" where
  "to_canonical_string a = concat (map (\<lambda>x. [gen_id_hex_digit (unat x div 16), gen_id_hex_digit (unat x mod 16)]) a)"

text \<open>The value of a digit as the code computes it: \<open>char\<close> is signed, \<open>tolower\<close> maps the upper case
  letters, and a character that is no digit gives some number.\<close>

definition hex_val :: "char \<Rightarrow> int" where
  "hex_val c =
     (let v = int (of_char c); v = (if v \<ge> 128 then v - 256 else v);
          v = (if 65 \<le> v \<and> v \<le> 90 then v + 32 else v)
      in v - (if v \<ge> 97 then 97 - 10 else 48))"

fun hex_bytes :: "string \<Rightarrow> bytes" where
  "hex_bytes (h # l # s) = word_of_int (hex_val h * 16 + hex_val l) # hex_bytes s"
| "hex_bytes s = []"

definition from_canonical_string :: "nat \<Rightarrow> string \<Rightarrow> bytes" where
  "from_canonical_string n s = (if length s \<noteq> n * 2 then gen_id_ctor n else hex_bytes s)"

definition gen_id_of_string :: "(bytes \<Rightarrow> bytes) \<Rightarrow> nat \<Rightarrow> string \<Rightarrow> bytes res" where
  "gen_id_of_string hash n s =
     (if length s = n * 2 + 2 \<and> take 2 s = ''0x'' then Inr (hex_bytes (drop 2 s))
      else if s \<noteq> []
      then let h = hash (map of_char s) in dbg_assert (length h = n) (Inr h)
      else Inr (gen_id_ctor n))"

definition gen_id_to_string :: "bytes \<Rightarrow> string" where
  "gen_id_to_string a = (if gen_id_is_null a then ''null'' else ''0x'' @ to_canonical_string a)"

subsection \<open>Wire format\<close>

definition put_gen_id :: "bytes \<Rightarrow> bytes" where
  "put_gen_id a = a"

definition get_gen_id :: "nat \<Rightarrow> bytes reader" where
  "get_gen_id n bs =
     (if length bs < n then Inl (Except ''gen_id_t Payload Too Short'')
      else Inr (take n bs, drop n bs))"

subsection \<open>Identifiers as numbers\<close>

fun gen_id_val :: "bytes \<Rightarrow> nat" where
  "gen_id_val [] = 0"
| "gen_id_val (x # xs) = unat x * 2 ^ (8 * length xs) + gen_id_val xs"

lemma unat_byte_less: "unat (x :: byte) < 256"
  using unsigned_less[of x, where ?'a = nat] by simp

lemma gen_id_val_less: "gen_id_val a < 2 ^ (8 * length a)"
proof (induction a)
  case (Cons x a)
  have "Suc (unat x) * 2 ^ (8 * length a) \<le> 256 * 2 ^ (8 * length a)"
    using unat_byte_less[of x] by (intro mult_right_mono) auto
  moreover have "(2::nat) ^ (8 * length (x # a)) = 256 * 2 ^ (8 * length a)" by (simp add: power_add)
  ultimately show ?case using Cons unfolding gen_id_val.simps mult_Suc by linarith
qed simp

lemma bit_shifted_add:
  assumes "a < 2 ^ m"
  shows "bit (x * 2 ^ m + a :: nat) i \<longleftrightarrow> (if i < m then bit a i else bit x (i - m))"
proof -
  have a: "\<not> bit a i" if "m \<le> i" for i
    using assms that by (metis bit_take_bit_iff not_le take_bit_nat_eq_self)
  have "x * 2 ^ m + a = push_bit m x + a" by (simp add: push_bit_eq_mult)
  also have "\<dots> = push_bit m x OR a"
    by (rule disjunctive_add_eq_or) (auto simp: bit_eq_iff bit_simps a)
  finally show ?thesis using a by (auto simp: bit_simps)
qed

lemma gen_id_val_xor:
  "length a = length b \<Longrightarrow> gen_id_val (gen_id_xor a b) = gen_id_val a XOR gen_id_val b"
proof (induction a b rule: list_induct2)
  case (Cons x a y b)
  let ?m = "8 * length a"
  have l: "length (gen_id_xor a b) = length a" using Cons by (simp add: gen_id_xor_def)
  have less: "gen_id_val (gen_id_xor a b) < 2 ^ ?m" using gen_id_val_less[of "gen_id_xor a b"] l by simp
  show ?case
  proof (rule bit_eqI)
    fix i
    show "bit (gen_id_val (gen_id_xor (x # a) (y # b))) i =
        bit (gen_id_val (x # a) XOR gen_id_val (y # b)) i"
      using bit_shifted_add[OF less, of "unat (x XOR y)" i] bit_shifted_add[OF gen_id_val_less, of "unat x" a i]
        bit_shifted_add[OF gen_id_val_less, of "unat y" b i] Cons l
      by (auto simp: gen_id_xor_def bit_xor_iff unsigned_xor_eq)
  qed
qed (simp add: gen_id_xor_def)

lemma gen_id_val_null: "gen_id_val (replicate n 0) = 0"
  by (induction n) simp_all

text \<open>Lexicographic order of the bytes is the order of the numbers.\<close>

lemma gen_id_val_vec_less:
  "length a = length b \<Longrightarrow> vec_less a b \<longleftrightarrow> gen_id_val a < gen_id_val b"
proof (induction a b rule: list_induct2)
  case (Cons x a y b)
  have lt: "unat x * 2 ^ (8 * length a) + gen_id_val a < unat y * 2 ^ (8 * length a) + gen_id_val b"
    if "x < y" "length a = length b" for x y :: byte and a b
  proof -
    have "Suc (unat x) * 2 ^ (8 * length a) \<le> unat y * 2 ^ (8 * length a)"
      using that(1) by (intro mult_right_mono) (auto simp: word_less_nat_alt)
    then show ?thesis using gen_id_val_less[of a] unfolding mult_Suc by linarith
  qed
  show ?case
  proof (cases x y rule: linorder_cases)
    case less
    then show ?thesis using lt[of x y a b] Cons.hyps by simp
  next
    case equal
    then show ?thesis using Cons by simp
  next
    case greater
    then show ?thesis using lt[of y x b a] Cons.hyps by (auto simp: not_less_iff_gr_or_eq)
  qed
qed simp

lemma gen_id_val_inject: "length a = length b \<Longrightarrow> gen_id_val a = gen_id_val b \<longleftrightarrow> a = b"
  using gen_id_val_vec_less[of a b] gen_id_val_vec_less[of b a] vec_less_linear[of a b] by auto

lemma gen_id_is_null_val: "gen_id_is_null a \<longleftrightarrow> gen_id_val a = 0"
  using gen_id_val_inject[of a "replicate (length a) 0"]
  by (auto simp: gen_id_is_null_def gen_id_ctor_def gen_id_val_null)

lemma gen_id_compare_val:
  assumes "length a = length b"
  shows "gen_id_compare a b =
    (if gen_id_val a < gen_id_val b then -1 else if gen_id_val b < gen_id_val a then 1 else 0)"
  using gen_id_val_vec_less[OF assms] gen_id_val_vec_less[OF assms[symmetric]]
  by (auto simp: gen_id_compare_def vec_cmp_def gen_id_is_null_val)

text \<open>The highest bit.\<close>

lemma highest_bit_spec:
  "x \<noteq> 0 \<Longrightarrow> \<forall>i>j. \<not> bit x i \<Longrightarrow> bit x (highest_bit x j) \<and> (\<forall>i>highest_bit x j. \<not> bit x i)"
proof (induction j)
  case 0
  have "bit x 0"
  proof (rule ccontr)
    assume n: "\<not> bit x 0"
    have "\<not> bit x i" for i using n 0 by (cases i) auto
    then have "x = 0" by (intro bit_eqI) simp
    then show False using 0 by simp
  qed
  then show ?case using 0 by simp
next
  case (Suc j)
  show ?case
  proof (cases "bit x (Suc j)")
    case False
    have "\<not> bit x i" if "j < i" for i using False Suc.prems(2) that by (cases "i = Suc j") auto
    then show ?thesis using Suc.IH Suc.prems(1) False by simp
  qed (use Suc.prems in simp)
qed

lemma bit_bounds_nat:
  fixes v :: nat
  assumes "bit v h" "\<forall>i>h. \<not> bit v i"
  shows "2 ^ h \<le> v" "v < 2 ^ Suc h"
proof -
  show "2 ^ h \<le> v" using assms(1) by (metis bit_take_bit_iff less_irrefl not_le take_bit_nat_eq_self)
  have "take_bit (Suc h) v = v"
  proof (rule bit_eqI)
    fix i show "bit (take_bit (Suc h) v) i = bit v i"
      using assms(2) by (cases "i \<le> h") (auto simp: bit_take_bit_iff)
  qed
  then show "v < 2 ^ Suc h" by (metis take_bit_nat_less_exp)
qed

lemma highest_bit_byte:
  assumes "x \<noteq> 0"
  shows "2 ^ highest_bit x 7 \<le> unat x" "unat x < 2 ^ Suc (highest_bit x 7)"
proof -
  have "\<forall>i>7. \<not> bit x i"
  proof (intro allI impI)
    fix i :: nat assume "7 < i"
    then show "\<not> bit x i" using bit_imp_le_length[of x i] by auto
  qed
  then have "bit (unat x) (highest_bit x 7)" "\<forall>i>highest_bit x 7. \<not> bit (unat x) i"
    using highest_bit_spec[OF assms, of 7] by (auto simp: bit_unsigned_iff)
  then show "2 ^ highest_bit x 7 \<le> unat x" "unat x < 2 ^ Suc (highest_bit x 7)"
    using bit_bounds_nat by blast+
qed

lemma skip_null_bytes_le: "skip_null_bytes a \<le> length a"
  by (induction a) auto

lemma bit_get_highest_set_Cons:
  "bit_get_highest_set (x # a) =
     (if x = 0 then bit_get_highest_set a else length a * 8 + highest_bit x 7)"
  using skip_null_bytes_le[of a] by (auto simp: bit_get_highest_set_def Let_def)

lemma bit_get_highest_set_val:
  "gen_id_val a \<noteq> 0 \<Longrightarrow>
   2 ^ bit_get_highest_set a \<le> gen_id_val a \<and> gen_id_val a < 2 ^ Suc (bit_get_highest_set a)"
proof (induction a)
  case (Cons x a)
  show ?case
  proof (cases "x = 0")
    case True
    then show ?thesis using Cons by (simp add: bit_get_highest_set_Cons)
  next
    case False
    let ?h = "highest_bit x 7" and ?m = "8 * length a"
    have "2 ^ ?h * 2 ^ ?m \<le> unat x * 2 ^ ?m"
      using highest_bit_byte(1)[OF False] by (rule mult_right_mono) simp
    moreover have "Suc (unat x) * 2 ^ ?m \<le> 2 ^ Suc ?h * 2 ^ ?m"
      using highest_bit_byte(2)[OF False] by (intro mult_right_mono) auto
    moreover have "(2::nat) ^ bit_get_highest_set (x # a) = 2 ^ ?h * 2 ^ ?m"
      using False by (simp add: bit_get_highest_set_Cons power_add mult.commute)
    ultimately show ?thesis
      using gen_id_val_less[of a] unfolding gen_id_val.simps mult_Suc power_Suc by linarith
  qed
qed simp

lemma bit_get_highest_set_null: "gen_id_val a = 0 \<Longrightarrow> bit_get_highest_set a = 0"
proof (induction a)
  case (Cons x a)
  then have "x = 0" "gen_id_val a = 0" by (simp_all add: unat_eq_0)
  then show ?case using Cons.IH by (simp add: bit_get_highest_set_Cons)
qed (simp add: bit_get_highest_set_def)

text \<open>Identifiers with the same top digits have the same highest bit.\<close>

lemma bit_get_highest_set_eqI:
  assumes "2 ^ h \<le> gen_id_val a" "gen_id_val a < 2 ^ Suc h"
  shows "bit_get_highest_set a = h"
proof -
  have "gen_id_val a \<noteq> 0" using assms(1) by (metis le_zero_eq power_not_zero zero_neq_numeral)
  note b = bit_get_highest_set_val[OF this]
  have "(2::nat) ^ h < 2 ^ Suc (bit_get_highest_set a)" "(2::nat) ^ bit_get_highest_set a < 2 ^ Suc h"
    using b assms by linarith+
  then have "h < Suc (bit_get_highest_set a)" "bit_get_highest_set a < Suc h"
    using power_less_imp_less_exp by (metis one_less_numeral_iff semiring_norm(76))+
  then show ?thesis by simp
qed

text \<open>Clearing the highest bits takes the remainder.\<close>

lemma gen_id_val_append: "gen_id_val (a @ b) = gen_id_val a * 2 ^ (8 * length b) + gen_id_val b"
  by (induction a) (simp_all add: algebra_simps power_add)

lemma unat_and_low:
  assumes "k \<le> 8"
  shows "unat (x AND drop_bit k 0xff :: byte) = unat x mod 2 ^ (8 - k)"
proof -
  have "x AND drop_bit k 0xff = take_bit (8 - k) x"
  proof (rule bit_eqI)
    fix i
    have m: "(0xff :: byte) = - 1" by simp
    show "bit (x AND drop_bit k 0xff) i = bit (take_bit (8 - k) x) i"
      using bit_imp_le_length[of x i] unfolding m by (auto simp: bit_simps)
  qed
  moreover have "unat (take_bit (8 - k) x) = take_bit (8 - k) (unat x)" by (rule unsigned_take_bit_eq)
  ultimately show ?thesis by (simp only: take_bit_eq_mod[of "8 - k" "unat x"])
qed

lemma bit_clear_n_highest_val:
  assumes "k < 8 * length a"
  shows "\<exists>c. bit_clear_n_highest k a = Inr c \<and> length c = length a \<and>
    gen_id_val c = gen_id_val a mod 2 ^ (8 * length a - k)"
proof -
  define n r where "n = k div 8" and "r = k mod 8"
  have k: "k = 8 * n + r" "r < 8" by (simp_all add: n_def r_def)
  have n: "n < length a" using assms k by simp
  obtain p x q where a: "a = p @ x # q" "length p = n"
    using n by (metis id_take_nth_drop length_take less_imp_le min.absorb2)
  let ?y = "x AND drop_bit r 0xff" let ?c = "replicate n 0 @ ?y # q"
  have c: "bit_clear_n_highest k a = Inr ?c"
    using assms n a by (simp add: bit_clear_n_highest_def Let_def n_def[symmetric] r_def[symmetric]
        nth_append list_update_append)
  have e: "8 * length a - k = 8 * length q + (8 - r)" using a k by simp
  have y: "unat ?y = unat x mod 2 ^ (8 - r)" by (rule unat_and_low) (use k in simp)
  have "gen_id_val a mod 2 ^ (8 * length q + (8 - r)) = gen_id_val (x # q) mod 2 ^ (8 * length q + (8 - r))"
  proof -
    have "8 * length (x # q) = (8 * length q + (8 - r)) + r" using k by simp
    then have "gen_id_val p * 2 ^ (8 * length (x # q)) = 2 ^ (8 * length q + (8 - r)) * (gen_id_val p * 2 ^ r)"
      by (simp only: power_add) (simp add: algebra_simps)
    then show ?thesis unfolding a(1) gen_id_val_append by (simp only: mod_mult_self4)
  qed
  also have "\<dots> = (unat x mod 2 ^ (8 - r)) * 2 ^ (8 * length q) + gen_id_val q"
    using gen_id_val_less[of q] by (simp add: power_add mod_mult2_eq)
  also have "\<dots> = gen_id_val ?c" using y by (simp add: gen_id_val_append gen_id_val_null)
  finally show ?thesis using c e a by auto
qed

text \<open>Bit \<open>j\<close> of the number is in byte \<open>j div 8\<close> from the end; shifting divides.\<close>

lemma bit_gen_id_val:
  "bit (gen_id_val a) j \<longleftrightarrow> j div 8 < length a \<and> bit (a ! (length a - 1 - j div 8)) (j mod 8)"
proof (induction a)
  case (Cons x a)
  have b: "bit (gen_id_val (x # a)) j = (if j < 8 * length a then bit (gen_id_val a) j
      else bit x (j - 8 * length a))"
    using bit_shifted_add[OF gen_id_val_less, of "unat x" a j] by (simp add: bit_unsigned_iff)
  show ?case
  proof (cases "j < 8 * length a")
    case True
    then have "j div 8 < length a" by (simp add: less_mult_imp_div_less mult.commute)
    moreover from this have "(x # a) ! (length (x # a) - 1 - j div 8) = a ! (length a - 1 - j div 8)"
      by (simp add: nth_Cons')
    ultimately show ?thesis using b True Cons by (simp del: gen_id_val.simps nth_Cons_pos)
  next
    case False
    have "bit x (j - 8 * length a) \<longleftrightarrow> j div 8 < Suc (length a) \<and> bit x (j mod 8)"
    proof (cases "j < 8 * Suc (length a)")
      case True
      then have "j div 8 = length a" using False by simp
      then show ?thesis by (metis lessI minus_mod_eq_mult_div mod_eq_self_iff_div_eq_0 modulo_nat_def mult.commute)
    next
      case far: False
      then have "8 \<le> j - 8 * length a" "\<not> j div 8 < Suc (length a)" by simp_all
      then show ?thesis using bit_imp_le_length[of x "j - 8 * length a"] by auto
    qed
    moreover have "j div 8 < Suc (length a) \<Longrightarrow> length a - j div 8 = 0" using False by simp
    ultimately show ?thesis using b False by auto
  qed
qed simp

lemma gen_id_shift_right_val: "gen_id_val (gen_id_shift_right a k) = gen_id_val a div 2 ^ k"
proof -
  define B r where "B = k div 8" and "r = k mod 8"
  have k: "k = 8 * B + r" "r < 8" by (simp_all add: B_def r_def)
  let ?s = "gen_id_shift_right a k" let ?n = "length a"
  have len: "length ?s = ?n" by (simp add: gen_id_shift_right_def Let_def)
  have "bit (gen_id_val ?s) j = bit (drop_bit k (gen_id_val a)) j" for j
  proof -
    define J c where "J = j div 8" and "c = j mod 8"
    have j: "j = 8 * J + c" "c < 8" by (simp_all add: J_def c_def)
    let ?i = "?n - 1 - J"
    have jk: "(j + k) div 8 = J + B + (if c + r < 8 then 0 else 1)"
      "(j + k) mod 8 = (if c + r < 8 then c + r else c + r - 8)"
    proof -
      define X y where "X = J + B" and "y = c + r"
      have e: "j + k = y + 8 * X" using j(1) k(1) by (simp add: X_def y_def)
      have "y < 16" using j(2) k(2) by (simp add: y_def)
      then have "y div 8 = (if y < 8 then 0 else 1)" "y mod 8 = (if y < 8 then y else y - 8)"
        by (simp_all add: le_div_geq le_mod_geq)
      then show "(j + k) div 8 = J + B + (if c + r < 8 then 0 else 1)"
        "(j + k) mod 8 = (if c + r < 8 then c + r else c + r - 8)"
        unfolding e X_def[symmetric] y_def[symmetric] div_mult_self2 mod_mult_self2 by simp_all
    qed
    show ?thesis
    proof (cases "J < ?n")
      case False
      then have "\<not> (j + k) div 8 < ?n" unfolding jk(1) by simp
      then show ?thesis using False len J_def by (simp add: bit_gen_id_val bit_drop_bit_eq add.commute)
    next
      case True
      have bs: "bit (?s ! ?i) c \<longleftrightarrow>
          (if c + r < 8 then \<not> ?i < B \<and> bit (a ! (?i - B)) (c + r)
           else \<not> ?i < B + 1 \<and> bit (a ! (?i - B - 1)) (c + r - 8))"
        using True j(2) k(2)
        by (auto simp: gen_id_shift_right_def Let_def B_def[symmetric] r_def[symmetric] bit_simps
            add.commute[of r c] dest: bit_imp_le_length)
      have e: "\<not> ?i < B \<longleftrightarrow> J + B < ?n" "\<not> ?i < B + 1 \<longleftrightarrow> J + B + 1 < ?n"
        "?i - B = ?n - 1 - (J + B)" "?i - B - 1 = ?n - 1 - (J + B + 1)" using True by linarith+
      have "bit (gen_id_val ?s) j \<longleftrightarrow> bit (?s ! ?i) c"
        using True len by (simp add: bit_gen_id_val J_def c_def)
      also have "\<dots> \<longleftrightarrow> (j + k) div 8 < ?n \<and> bit (a ! (?n - 1 - (j + k) div 8)) ((j + k) mod 8)"
        using bs e unfolding jk by (cases "c + r < 8") simp_all
      finally show ?thesis by (simp add: bit_drop_bit_eq bit_gen_id_val add.commute)
    qed
  qed
  then have "gen_id_val ?s = drop_bit k (gen_id_val a)" by (intro bit_eqI)
  then show ?thesis by (simp add: drop_bit_eq_div)
qed

subsection \<open>Strings and wire format\<close>

lemma hex_val_digit: "d < 16 \<Longrightarrow> hex_val (gen_id_hex_digit d) = int d"
  by (auto simp: hex_val_def gen_id_hex_digit_def Let_def of_char_of)

lemma hex_bytes_canonical: "hex_bytes (to_canonical_string a) = a"
proof (induction a)
  case (Cons x a)
  have "hex_val (gen_id_hex_digit (unat x div 16)) * 16 + hex_val (gen_id_hex_digit (unat x mod 16)) = int (unat x)"
  proof -
    have "int (unat x div 16) * 16 + int (unat x mod 16) = int (unat x)"
      by (metis div_mult_mod_eq of_nat_add of_nat_mult of_nat_numeral)
    then show ?thesis using unat_byte_less[of x] by (simp add: hex_val_digit)
  qed
  then show ?case using Cons by (simp add: to_canonical_string_def)
qed (simp add: to_canonical_string_def)

lemma length_to_canonical_string [simp]: "length (to_canonical_string a) = length a * 2"
  by (induction a) (simp_all add: to_canonical_string_def)

interpretation gen_id_codec: serial_codec put_gen_id "get_gen_id n" "\<lambda>a. length a = n" for n
  by unfold_locales (auto simp: put_gen_id_def get_gen_id_def append_take_drop_ex split: if_splits)

subsection \<open>Properties\<close>

text \<open>C37. An identifier is a big endian number: comparison is the order of the numbers, \<open>^\<close> is the
  exclusive or, \<open>>>\<close> divides by a power of two, \<open>bit_get_highest_set\<close> is the position of the highest
  bit (0 for null), \<open>bit_clear_n_highest\<close> is the remainder, except that clearing all of the bits accesses
  the byte after the array.\<close>
theorem gen_id_is_big_endian_number:
  assumes "length a = length b"
  shows "gen_id_compare a b = cmp3 (gen_id_val a) (gen_id_val b) \<and>
    (gen_id_val a = gen_id_val b \<longrightarrow> a = b) \<and>
    gen_id_val (gen_id_xor a b) = gen_id_val a XOR gen_id_val b \<and>
    gen_id_val (gen_id_shift_right a k) = gen_id_val a div 2 ^ k \<and>
    (if gen_id_val a = 0 then bit_get_highest_set a = 0
     else 2 ^ bit_get_highest_set a \<le> gen_id_val a \<and> gen_id_val a < 2 ^ Suc (bit_get_highest_set a)) \<and>
    (k < 8 * length a \<longrightarrow> (\<exists>c. bit_clear_n_highest k a = Inr c \<and> length c = length a \<and>
       gen_id_val c = gen_id_val a mod 2 ^ (8 * length a - k))) \<and>
    bit_clear_n_highest (8 * length a) a = Inl Out_of_bounds"
  using gen_id_compare_val[OF assms] gen_id_val_inject[OF assms] gen_id_val_xor[OF assms]
    gen_id_shift_right_val[of a k] bit_get_highest_set_val[of a] bit_get_highest_set_null[of a]
    bit_clear_n_highest_val[of k a]
  by (auto simp: cmp3_def bit_clear_n_highest_def Let_def)

theorem gen_id_is_big_endian_number_witness:
  "gen_id_compare [1, 2] [1, 3] = cmp3 (gen_id_val [1, 2]) (gen_id_val [1, 3]) \<and>
   gen_id_val (gen_id_xor [1, 2] [1, 3]) = 258 XOR 259"
  using gen_id_is_big_endian_number[of "[1, 2]" "[1, 3]" 0] by simp

text \<open>An identifier is read back from its canonical string, from its display string and from its wire form.\<close>
lemma gen_id_strings_roundtrip:
  "from_canonical_string (length a) (to_canonical_string a) = a \<and>
   gen_id_of_string hash (length a) (''0x'' @ to_canonical_string a) = Inr a \<and>
   get_gen_id (length a) (put_gen_id a @ rest) = Inr (a, rest)"
  by (simp add: from_canonical_string_def gen_id_of_string_def hex_bytes_canonical gen_id_codec.get_put)

end
