(* ===== verification/Inet.thy ===== *)
theory Inet
  imports SerialCodec
begin

text \<open>
  Internet addresses (\<open>neoip_inet/base/address\<close>): \<open>ip_addr_t\<close>, networks \<open>ip_netaddr_t\<close> and addresses with
  a port \<open>ipport_addr_t\<close>: arithmetic, comparison, the classes of addresses, the host addresses of
  a network, \<open>sockaddr_in\<close> and the wire format.

  An \<open>ip_addr_t\<close> has version 0 (null) or 4: no operation sets another version, so the assertions
  \<open>is_v4()\<close> fail exactly on a null address.  The conversions from and to strings go through the C
  library and are not modelled; the string constants of the code appear as the numbers they denote.
\<close>

unbundle bit_operations_syntax

subsection \<open>Addresses\<close>

datatype ip_addr_t = Ip_null | Ip_v4 "32 word"

definition ip_is_null :: "ip_addr_t \<Rightarrow> bool" where
  "ip_is_null a = (a = Ip_null)"

fun get_version :: "ip_addr_t \<Rightarrow> nat" where
  "get_version Ip_null = 0"
| "get_version (Ip_v4 x) = 4"

fun get_v4_addr :: "ip_addr_t \<Rightarrow> 32 word res" where
  "get_v4_addr Ip_null = Inl Assert_failed"
| "get_v4_addr (Ip_v4 x) = Inr x"

definition ip_add :: "ip_addr_t \<Rightarrow> 32 word \<Rightarrow> ip_addr_t res" where
  "ip_add a v = res_bind (get_v4_addr a) (\<lambda>x. Inr (Ip_v4 (x + v)))"

definition ip_sub :: "ip_addr_t \<Rightarrow> 32 word \<Rightarrow> ip_addr_t res" where
  "ip_sub a v = res_bind (get_v4_addr a) (\<lambda>x. Inr (Ip_v4 (x - v)))"

fun ip_compare :: "ip_addr_t \<Rightarrow> ip_addr_t \<Rightarrow> int" where
  "ip_compare Ip_null (Ip_v4 y) = -1"
| "ip_compare (Ip_v4 x) Ip_null = 1"
| "ip_compare Ip_null Ip_null = 0"
| "ip_compare (Ip_v4 x) (Ip_v4 y) = (if x < y then -1 else if x > y then 1 else 0)"

subsection \<open>Networks\<close>

record ip_netaddr_t =
  base_addr :: ip_addr_t
  prefix_len :: byte

definition get_netmask :: "ip_netaddr_t \<Rightarrow> ip_addr_t res" where
  "get_netmask net =
     dbg_assert (\<not> ip_is_null (base_addr net))
       (if 1 \<le> prefix_len net \<and> prefix_len net \<le> 32
        then Inr (Ip_v4 (push_bit (32 - unat (prefix_len net)) 0xffffffff))
        else Inl Undefined_shift)"

definition get_any_addr :: "ip_netaddr_t \<Rightarrow> ip_addr_t res" where
  "get_any_addr net =
     res_bind (get_v4_addr (base_addr net)) (\<lambda>b.
     res_bind (get_netmask net) (\<lambda>m. res_bind (get_v4_addr m) (\<lambda>m. Inr (Ip_v4 (b AND m)))))"

definition get_bcast_addr :: "ip_netaddr_t \<Rightarrow> ip_addr_t res" where
  "get_bcast_addr net =
     res_bind (get_v4_addr (base_addr net)) (\<lambda>b.
     res_bind (get_netmask net) (\<lambda>m. res_bind (get_v4_addr m) (\<lambda>m. Inr (Ip_v4 (b OR NOT m)))))"

definition net_contain :: "ip_netaddr_t \<Rightarrow> ip_addr_t \<Rightarrow> bool res" where
  "net_contain net a =
     (if get_version (base_addr net) \<noteq> get_version a then Inr False
      else res_bind (get_any_addr net) (\<lambda>any.
             if \<not> ip_compare any a \<le> 0 then Inr False
             else res_bind (get_bcast_addr net) (\<lambda>bcast. Inr (ip_compare a bcast \<le> 0))))"

definition get_first_addr :: "ip_netaddr_t \<Rightarrow> ip_addr_t res" where
  "get_first_addr net =
     res_bind (get_any_addr net) (\<lambda>any.
     res_bind (if ip_compare (base_addr net) any = 0 then ip_add (base_addr net) 1 else Inr (base_addr net))
       (\<lambda>first. res_if (net_contain net first) (Inr first) (Inr (base_addr net))))"

definition get_last_addr :: "ip_netaddr_t \<Rightarrow> ip_addr_t res" where
  "get_last_addr net =
     res_bind (get_bcast_addr net) (\<lambda>bcast. res_bind (ip_sub bcast 1) (\<lambda>last.
       res_if (net_contain net last) (Inr last) (get_bcast_addr net)))"

definition get_next_addr :: "ip_netaddr_t \<Rightarrow> ip_addr_t \<Rightarrow> ip_addr_t res" where
  "get_next_addr net cur =
     (if ip_is_null cur then get_first_addr net
      else res_bind (get_last_addr net) (\<lambda>last.
        if ip_compare cur last = 0 then get_first_addr net else ip_add cur 1))"

definition netaddr_compare :: "ip_netaddr_t \<Rightarrow> ip_netaddr_t \<Rightarrow> int" where
  "netaddr_compare a b =
     (if ip_is_null (base_addr a) \<and> \<not> ip_is_null (base_addr b) then -1
      else if \<not> ip_is_null (base_addr a) \<and> ip_is_null (base_addr b) then 1
      else if ip_is_null (base_addr a) \<and> ip_is_null (base_addr b) then 0
      else if prefix_len a < prefix_len b then -1
      else if prefix_len a > prefix_len b then 1
      else if ip_compare (base_addr a) (base_addr b) < 0 then -1
      else if ip_compare (base_addr a) (base_addr b) > 0 then 1
      else 0)"

subsection \<open>Classes of addresses\<close>

definition ip_netaddr_ctor :: "32 word \<Rightarrow> byte \<Rightarrow> ip_netaddr_t" where
  "ip_netaddr_ctor v p = \<lparr>base_addr = Ip_v4 v, prefix_len = p\<rparr>"

definition is_localhost :: "ip_addr_t \<Rightarrow> bool res" where
  "is_localhost a =
     (if ip_is_null a then Inr False
      else res_if (net_contain (ip_netaddr_ctor 0x7f000000 8) a) (Inr True) (Inr False))"

definition is_linklocal :: "ip_addr_t \<Rightarrow> bool res" where
  "is_linklocal a =
     (if ip_is_null a then Inr False
      else res_if (net_contain (ip_netaddr_ctor 0xa9fe0000 16) a) (Inr True) (Inr False))"

definition is_private :: "ip_addr_t \<Rightarrow> bool res" where
  "is_private a =
     (if ip_is_null a then Inr False
      else res_if (net_contain (ip_netaddr_ctor 0x0a000000 8) a) (Inr True)
          (res_if (net_contain (ip_netaddr_ctor 0xac100000 12) a) (Inr True)
          (res_if (net_contain (ip_netaddr_ctor 0xc0a80000 16) a) (Inr True) (Inr False))))"

definition is_any :: "ip_addr_t \<Rightarrow> bool res" where
  "is_any a =
     (if ip_is_null a then Inr False
      else if ip_compare a (Ip_v4 0) \<noteq> 0 then Inr False else Inr True)"

definition is_multicast :: "ip_addr_t \<Rightarrow> bool res" where
  "is_multicast a =
     (if ip_is_null a then Inr False
      else res_if (net_contain (ip_netaddr_ctor 0xe0000000 4) a) (Inr True) (Inr False))"

definition is_broadcast :: "ip_addr_t \<Rightarrow> bool res" where
  "is_broadcast a =
     (if ip_is_null a then Inr False
      else if ip_compare a (Ip_v4 0xffffffff) \<noteq> 0 then Inr False else Inr True)"

definition ip_is_fully_qualified :: "ip_addr_t \<Rightarrow> bool res" where
  "ip_is_fully_qualified a =
     (if ip_is_null a then Inr False
      else res_if (is_any a) (Inr False)
          (res_if (is_multicast a) (Inr False)
          (res_if (is_broadcast a) (Inr False) (Inr True))))"

definition is_public :: "ip_addr_t \<Rightarrow> bool res" where
  "is_public a =
     (if ip_is_null a then Inr False
      else res_if (ip_is_fully_qualified a)
          (res_if (is_private a) (Inr False)
          (res_if (is_localhost a) (Inr False)
          (res_if (is_linklocal a) (Inr False) (Inr True)))) (Inr False))"

subsection \<open>Addresses with a port\<close>

record ipport_addr_t =
  m_ipaddr :: ip_addr_t
  m_port :: "16 word"

definition ipport_is_null :: "ipport_addr_t \<Rightarrow> bool" where
  "ipport_is_null a = ip_is_null (m_ipaddr a)"

definition ipport_is_fully_qualified :: "ipport_addr_t \<Rightarrow> bool res" where
  "ipport_is_fully_qualified a =
     res_if (ip_is_fully_qualified (m_ipaddr a)) (Inr (m_port a \<noteq> 0)) (Inr False)"

definition ipport_compare :: "ipport_addr_t \<Rightarrow> ipport_addr_t \<Rightarrow> int" where
  "ipport_compare a b =
     (if ipport_is_null a \<and> \<not> ipport_is_null b then -1
      else if \<not> ipport_is_null a \<and> ipport_is_null b then 1
      else if ipport_is_null a \<and> ipport_is_null b then 0
      else if ip_compare (m_ipaddr a) (m_ipaddr b) < 0 then -1
      else if ip_compare (m_ipaddr a) (m_ipaddr b) > 0 then 1
      else if m_port a < m_port b then -1
      else if m_port a > m_port b then 1
      else 0)"

record sockaddr_in =
  sin_addr :: "32 word"
  sin_port :: "16 word"

definition to_sockaddr_in :: "ipport_addr_t \<Rightarrow> sockaddr_in res" where
  "to_sockaddr_in a =
     res_bind (get_v4_addr (m_ipaddr a)) (\<lambda>x.
       Inr \<lparr>sin_addr = NEOIP_BSWAP32 x, sin_port = NEOIP_BSWAP16 (m_port a)\<rparr>)"

definition of_sockaddr_in :: "sockaddr_in \<Rightarrow> ipport_addr_t" where
  "of_sockaddr_in s =
     \<lparr>m_ipaddr = Ip_v4 (NEOIP_BSWAP32 (sin_addr s)), m_port = NEOIP_BSWAP16 (sin_port s)\<rparr>"

subsection \<open>Wire format\<close>

fun put_ip_addr :: "ip_addr_t \<Rightarrow> bytes" where
  "put_ip_addr Ip_null = put_uint8 0"
| "put_ip_addr (Ip_v4 x) = put_uint8 4 @ put_uint32 x"

definition get_ip_addr :: "ip_addr_t reader" where
  "get_ip_addr bs =
     (if length bs < 1 then Inl (Except ''ip_addr_t Payload Too Short'')
      else res_bind (get_uint8 bs) (\<lambda>(version, bs).
        if version = 0 then Inr (Ip_null, bs)
        else if version \<noteq> 4
        then Inl (Except ''ip_addr_t tried to unserialized a unknown version'')
        else if length bs < 4 then Inl (Except ''ip_addr_t Payload Too Short'')
        else res_bind (get_uint32 bs) (\<lambda>(v4_addr, bs). Inr (Ip_v4 v4_addr, bs))))"

definition put_ipport_addr :: "ipport_addr_t \<Rightarrow> bytes" where
  "put_ipport_addr a = put_ip_addr (m_ipaddr a) @ put_uint16 (m_port a)"

definition get_ipport_addr :: "ipport_addr_t reader" where
  "get_ipport_addr bs =
     res_bind (get_ip_addr bs) (\<lambda>(ip, bs). res_bind (get_uint16 bs) (\<lambda>(port, bs).
       Inr (\<lparr>m_ipaddr = ip, m_port = port\<rparr>, bs)))"

definition put_ip_netaddr :: "ip_netaddr_t \<Rightarrow> bytes" where
  "put_ip_netaddr n = put_uint8 (prefix_len n) @ put_ip_addr (base_addr n)"

definition get_ip_netaddr :: "ip_netaddr_t reader" where
  "get_ip_netaddr bs =
     res_bind (get_uint8 bs) (\<lambda>(p, bs). res_bind (get_ip_addr bs) (\<lambda>(ip, bs).
       Inr (\<lparr>base_addr = ip, prefix_len = p\<rparr>, bs)))"

lemma ip_compare_v4:
  "ip_compare (Ip_v4 x) (Ip_v4 y) \<le> 0 \<longleftrightarrow> x \<le> y"
  "ip_compare (Ip_v4 x) (Ip_v4 y) = 0 \<longleftrightarrow> x = y"
  "ip_compare (Ip_v4 x) (Ip_v4 y) < 0 \<longleftrightarrow> x < y"
  "0 < ip_compare (Ip_v4 x) (Ip_v4 y) \<longleftrightarrow> y < x"
  by (auto simp: not_less intro: order_antisym)

declare ip_compare.simps(4) [simp del]
declare ip_compare_v4 [simp]

subsection \<open>A network is the set of the addresses with its prefix\<close>

lemma unat_drop_bit_div: "unat (drop_bit k x) = unat x div 2 ^ k"
  by (rule trans[OF unat_drop_bit_eq drop_bit_eq_div])

lemma unat_push_bit_mult: "unat (push_bit k (x :: 32 word)) = (unat x * 2 ^ k) mod 2 ^ 32"
  using unsigned_push_bit_eq[of k x, where ?'a = nat] push_bit_eq_mult[of k "unat x"]
  by (simp only: take_bit_eq_mod) simp

lemma and_high_mask_unat:
  fixes b :: "32 word"
  shows "unat (b AND push_bit k (- 1)) = unat b div 2 ^ k * 2 ^ k"
proof -
  have "b AND push_bit k (- 1) = push_bit k (drop_bit k b)"
    by (rule bit_eqI) (auto simp: bit_simps)
  moreover have "unat b div 2 ^ k * 2 ^ k < 2 ^ 32"
    by (rule le_less_trans[OF div_times_less_eq_dividend]) (use unsigned_less[of b] in simp)
  moreover have "unat (push_bit k (drop_bit k b)) = (unat b div 2 ^ k * 2 ^ k) mod 2 ^ 32"
    by (simp only: unat_push_bit_mult unat_drop_bit_div)
  ultimately show ?thesis by simp
qed

lemma or_low_mask_unat:
  fixes b :: "32 word"
  assumes "k < 32"
  shows "unat (b OR NOT (push_bit k (- 1))) = unat b div 2 ^ k * 2 ^ k + (2 ^ k - 1)"
proof -
  let ?h = "b AND push_bit k (- 1)"
  have "b OR NOT (push_bit k (- 1)) = ?h OR mask k" by (rule bit_eqI) (auto simp: bit_simps)
  also have "\<dots> = ?h + mask k"
    by (rule disjunctive_add_eq_or[symmetric]) (auto simp: bit_eq_iff bit_simps)
  finally have eq: "b OR NOT (push_bit k (- 1)) = ?h + mask k" .
  have m: "unat (mask k :: 32 word) = 2 ^ k - 1"
  proof -
    have "unat (mask k :: 32 word) = take_bit k (mask 32)"
      using unsigned_take_bit_eq[of k "- 1 :: 32 word", where ?'a = nat]
        unsigned_minus_1_eq_mask[where ?'a = nat and ?'b = 32] by (simp only: take_bit_minus_one_eq_mask) simp
    also have "\<dots> = mask k" by (rule bit_eqI) (use assms in \<open>auto simp: bit_simps\<close>)
    finally show ?thesis by (simp add: mask_eq_exp_minus_1)
  qed
  have "unat b div 2 ^ k * 2 ^ k + (2 ^ k - 1) < 2 ^ 32"
  proof -
    have "unat b div 2 ^ k < 2 ^ (32 - k)"
      using unsigned_less[of b, where ?'a = nat] assms by (simp add: less_mult_imp_div_less flip: power_add)
    then have "Suc (unat b div 2 ^ k) * 2 ^ k \<le> 2 ^ (32 - k) * 2 ^ k" by (intro mult_right_mono) auto
    then show ?thesis using assms by (simp flip: power_add)
  qed
  then show ?thesis using m and_high_mask_unat[of b k] unfolding eq by (simp add: unat_word_ariths)
qed

lemma div_eq_iff_range:
  fixes x y :: nat
  assumes "0 < d"
  shows "y div d * d \<le> x \<and> x \<le> y div d * d + (d - 1) \<longleftrightarrow> x div d = y div d"
proof
  assume a: "y div d * d \<le> x \<and> x \<le> y div d * d + (d - 1)"
  then have "y div d \<le> x div d" using assms by (simp add: less_eq_div_iff_mult_less_eq)
  moreover have "x < Suc (y div d) * d" using a assms unfolding mult_Suc by linarith
  then have "x div d < Suc (y div d)" by (rule less_mult_imp_div_less)
  ultimately show "x div d = y div d" by simp
next
  assume "x div d = y div d"
  then have "x = y div d * d + x mod d" by (metis div_mult_mod_eq)
  then show "y div d * d \<le> x \<and> x \<le> y div d * d + (d - 1)"
    using mod_less_divisor[OF assms, of x] by linarith
qed

lemma net_contain_prefix:
  assumes "1 \<le> p" "p \<le> 32"
  shows "net_contain (ip_netaddr_ctor v p) (Ip_v4 x) =
    Inr (drop_bit (32 - unat p) x = drop_bit (32 - unat p) v)"
proof -
  let ?k = "32 - unat p"
  have p: "1 \<le> unat p" "unat p \<le> 32" using assms by (simp_all add: word_le_nat_alt)
  then have k: "?k < 32" by simp
  have m: "(0xffffffff :: 32 word) = - 1" by simp
  have "x \<ge> (v AND push_bit ?k (- 1)) \<and> x \<le> (v OR NOT (push_bit ?k (- 1))) \<longleftrightarrow>
      unat x div 2 ^ ?k = unat v div 2 ^ ?k"
    using div_eq_iff_range[of "2 ^ ?k" "unat v" "unat x"] and_high_mask_unat[of v ?k] or_low_mask_unat[OF k, of v]
    by (simp add: word_le_nat_alt)
  also have "\<dots> \<longleftrightarrow> drop_bit ?k x = drop_bit ?k v"
    by (simp only: word_unat_eq_iff unat_drop_bit_div)
  finally have eq: "(v AND push_bit ?k (- 1) \<le> x \<and> x \<le> v OR NOT (push_bit ?k (- 1))) =
      (drop_bit ?k x = drop_bit ?k v)" .
  have nm: "get_netmask (ip_netaddr_ctor v p) = Inr (Ip_v4 (push_bit ?k (- 1)))"
    unfolding get_netmask_def ip_netaddr_ctor_def m using assms by (simp add: ip_is_null_def)
  define lo hi where "lo = v AND push_bit ?k (- 1)" and "hi = v OR NOT (push_bit ?k (- 1))"
  have "get_any_addr (ip_netaddr_ctor v p) = Inr (Ip_v4 lo)" "get_bcast_addr (ip_netaddr_ctor v p) = Inr (Ip_v4 hi)"
    using nm by (simp_all add: get_any_addr_def get_bcast_addr_def ip_netaddr_ctor_def lo_def hi_def)
  then have "net_contain (ip_netaddr_ctor v p) (Ip_v4 x) = Inr (lo \<le> x \<and> x \<le> hi)"
    by (auto simp: net_contain_def) (simp_all add: ip_netaddr_ctor_def)
  then show ?thesis using eq by (simp only: lo_def hi_def)
qed

subsection \<open>Classes\<close>

lemma ip_class_v4:
  "is_localhost (Ip_v4 x) = Inr (drop_bit 24 x = 127)"
  "is_linklocal (Ip_v4 x) = Inr (drop_bit 16 x = 0xa9fe)"
  "is_private (Ip_v4 x) = Inr (drop_bit 24 x = 10 \<or> drop_bit 20 x = 0xac1 \<or> drop_bit 16 x = 0xc0a8)"
  "is_any (Ip_v4 x) = Inr (x = 0)"
  "is_multicast (Ip_v4 x) = Inr (drop_bit 28 x = 14)"
  "is_broadcast (Ip_v4 x) = Inr (x = 0xffffffff)"
  by (auto simp: is_localhost_def is_linklocal_def is_private_def is_any_def is_multicast_def
      is_broadcast_def ip_is_null_def net_contain_prefix)

lemma ip_fully_qualified_v4:
  "ip_is_fully_qualified (Ip_v4 x) = Inr (x \<noteq> 0 \<and> drop_bit 28 x \<noteq> 14 \<and> x \<noteq> 0xffffffff)"
  by (auto simp: ip_is_fully_qualified_def ip_is_null_def ip_class_v4)

lemma ip_is_fully_qualified_ok: "\<exists>b. ip_is_fully_qualified a = Inr b"
  by (cases a) (auto simp: ip_fully_qualified_v4 ip_is_fully_qualified_def[of Ip_null] ip_is_null_def)

lemma ipport_is_fully_qualified_ok: "\<exists>b. ipport_is_fully_qualified a = Inr b"
  using ip_is_fully_qualified_ok[of "m_ipaddr a"] by (auto simp: ipport_is_fully_qualified_def)

lemma is_public_v4:
  "is_public (Ip_v4 x) = Inr (x \<noteq> 0 \<and> drop_bit 28 x \<noteq> 14 \<and> x \<noteq> 0xffffffff \<and>
     \<not> (drop_bit 24 x = 10 \<or> drop_bit 20 x = 0xac1 \<or> drop_bit 16 x = 0xc0a8) \<and>
     drop_bit 24 x \<noteq> 127 \<and> drop_bit 16 x \<noteq> 0xa9fe)"
  by (auto simp: is_public_def ip_is_null_def ip_class_v4 ip_fully_qualified_v4)

text \<open>The prefixes of the classes are told apart by the top bytes.\<close>

lemma drop_bit_drop_bit_eq: "drop_bit (m + n) x = drop_bit n (drop_bit m (x :: 32 word))"
  by (simp add: drop_bit_drop_bit add.commute)

lemma class_prefixes:
  fixes x :: "32 word"
  shows "drop_bit 24 x = 127 \<Longrightarrow> drop_bit 28 x = 7"
    "drop_bit 24 x = 10 \<Longrightarrow> drop_bit 28 x = 0"
    "drop_bit 20 x = 0xac1 \<Longrightarrow> drop_bit 24 x = 0xac \<and> drop_bit 28 x = 0xa"
    "drop_bit 16 x = 0xc0a8 \<Longrightarrow> drop_bit 20 x = 0xc0a \<and> drop_bit 24 x = 0xc0 \<and> drop_bit 28 x = 0xc"
    "drop_bit 16 x = 0xa9fe \<Longrightarrow> drop_bit 20 x = 0xa9f \<and> drop_bit 24 x = 0xa9 \<and> drop_bit 28 x = 0xa"
  using drop_bit_drop_bit_eq[of 16 4 x] drop_bit_drop_bit_eq[of 20 4 x] drop_bit_drop_bit_eq[of 24 4 x]
  by simp_all

subsection \<open>Round trips\<close>

interpretation ip_addr_codec: serial_codec put_ip_addr get_ip_addr "\<lambda>_. True"
proof unfold_locales
  fix v :: ip_addr_t and rest
  show "get_ip_addr (put_ip_addr v @ rest) = Inr (v, rest)"
    by (cases v) (simp_all add: get_ip_addr_def put_uint8_def get_uint8_def)
next
  fix bs v rest
  assume "get_ip_addr bs = Inr (v, rest)"
  then obtain t bs' where t: "get_uint8 bs = Inr (t, bs')"
    "(rest = bs') \<or> (\<exists>x. get_uint32 bs' = Inr (x, rest))"
    by (auto simp: get_ip_addr_def res_bind_eq_Inr_iff split: if_splits)
  from t(2) have "\<exists>q. bs' = q @ rest"
  proof
    assume "rest = bs'"
    then show ?thesis by (intro exI[of _ "[]"]) simp
  next
    assume "\<exists>x. get_uint32 bs' = Inr (x, rest)"
    then show ?thesis using uint32_codec.get_prefix by blast
  qed
  then show "\<exists>p. bs = p @ rest" using uint8_codec.get_prefix[OF t(1)] by (metis append_assoc)
qed

text \<open>Two values one after the other.\<close>

locale codec_pair = fst: serial_codec put1 get1 ok1 + snd: serial_codec put2 get2 ok2
  for put1 :: "'a \<Rightarrow> bytes" and get1 ok1 and put2 :: "'b \<Rightarrow> bytes" and get2 ok2
begin

lemma pair_get_put:
  "ok1 x \<Longrightarrow> ok2 y \<Longrightarrow>
   res_bind (get1 (put1 x @ put2 y @ rest)) (\<lambda>(a, bs). res_bind (get2 bs) (\<lambda>(b, bs). Inr (f a b, bs))) =
   Inr (f x y, rest)"
  by (simp add: fst.get_put snd.get_put)

lemma pair_get_prefix:
  assumes "res_bind (get1 bs) (\<lambda>(a, bs). res_bind (get2 bs) (\<lambda>(b, bs). Inr (f a b, bs))) = Inr (v, rest)"
  shows "\<exists>p. bs = p @ rest"
proof -
  obtain a bs' b where "get1 bs = Inr (a, bs')" "get2 bs' = Inr (b, rest)"
    using assms by (auto simp: res_bind_eq_Inr_iff)
  then show ?thesis using fst.get_prefix snd.get_prefix by (metis append_assoc)
qed

end

interpretation ipport_pair: codec_pair put_ip_addr get_ip_addr "\<lambda>_. True" put_uint16 get_uint16 "\<lambda>_. True"
  by unfold_locales

interpretation ipport_codec: serial_codec put_ipport_addr get_ipport_addr "\<lambda>_. True"
  by unfold_locales
    (simp_all add: put_ipport_addr_def get_ipport_addr_def ipport_pair.pair_get_put ipport_pair.pair_get_prefix)

interpretation netaddr_pair: codec_pair put_uint8 get_uint8 "\<lambda>_. True" put_ip_addr get_ip_addr "\<lambda>_. True"
  by unfold_locales

interpretation netaddr_codec: serial_codec put_ip_netaddr get_ip_netaddr "\<lambda>_. True"
  by unfold_locales
    (simp_all add: put_ip_netaddr_def get_ip_netaddr_def ip_addr_codec.get_put netaddr_pair.pair_get_prefix)

lemma ip_classes_exclusive:
  "length (filter (\<lambda>b. b) [x = 0, drop_bit 28 x = 14, x = 0xffffffff,
      drop_bit 24 x = 10 \<or> drop_bit 20 x = 0xac1 \<or> drop_bit 16 x = 0xc0a8, drop_bit 24 x = 127,
      drop_bit 16 x = 0xa9fe, is_public (Ip_v4 x) = Inr True]) = 1"
proof -
  consider "x = 0" | "drop_bit 28 x = 14" | "x = 0xffffffff" | "drop_bit 24 x = 10" | "drop_bit 20 x = 0xac1"
    | "drop_bit 16 x = 0xc0a8" | "drop_bit 24 x = 127" | "drop_bit 16 x = 0xa9fe"
    | "x \<noteq> 0" "drop_bit 28 x \<noteq> 14" "x \<noteq> 0xffffffff" "drop_bit 24 x \<noteq> 10" "drop_bit 20 x \<noteq> 0xac1"
      "drop_bit 16 x \<noteq> 0xc0a8" "drop_bit 24 x \<noteq> 127" "drop_bit 16 x \<noteq> 0xa9fe"
    by blast
  then show ?thesis
    using class_prefixes[of x] by cases (auto simp: is_public_v4)
qed

subsection \<open>Properties\<close>

text \<open>The class predicates partition the addresses: every address that is not null is exactly one of
  any, multicast, broadcast, private, local host, link local or public, and no test fails an
  assertion.\<close>
lemma ip_classes_partition:
  "length (filter (\<lambda>f. f (Ip_v4 x) = Inr True)
     [is_any, is_multicast, is_broadcast, is_private, is_localhost, is_linklocal, is_public]) = 1 \<and>
   list_all (\<lambda>f. (\<exists>b. f (Ip_v4 x) = Inr b) \<and> f Ip_null = Inr False)
     [is_any, is_multicast, is_broadcast, is_private, is_localhost, is_linklocal, is_public]"
proof -
  have null: "f Ip_null = Inr False"
    if "f \<in> {is_any, is_multicast, is_broadcast, is_private, is_localhost, is_linklocal, is_public}" for f
    using that by (auto simp: is_any_def is_multicast_def is_broadcast_def is_private_def is_localhost_def
        is_linklocal_def is_public_def ip_is_null_def)
  have one: "length (filter (\<lambda>b. b) [x = 0, drop_bit 28 x = 14, x = 0xffffffff,
      drop_bit 24 x = 10 \<or> drop_bit 20 x = 0xac1 \<or> drop_bit 16 x = 0xc0a8, drop_bit 24 x = 127,
      drop_bit 16 x = 0xa9fe, is_public (Ip_v4 x) = Inr True]) = 1"
    by (rule ip_classes_exclusive)
  have len: "length (filter P fs) = length (filter (\<lambda>b. b) (map P fs))" for P fs
    by (induction fs) auto
  have "map (\<lambda>f. f (Ip_v4 x) = Inr True)
      [is_any, is_multicast, is_broadcast, is_private, is_localhost, is_linklocal, is_public] =
    [x = 0, drop_bit 28 x = 14, x = 0xffffffff,
      drop_bit 24 x = 10 \<or> drop_bit 20 x = 0xac1 \<or> drop_bit 16 x = 0xc0a8, drop_bit 24 x = 127,
      drop_bit 16 x = 0xa9fe, is_public (Ip_v4 x) = Inr True]"
    by (simp only: list.map ip_class_v4 sum.inject simp_thms)
  then have "length (filter (\<lambda>f. f (Ip_v4 x) = Inr True)
     [is_any, is_multicast, is_broadcast, is_private, is_localhost, is_linklocal, is_public]) = 1"
    using one by (subst len) (rule ssubst)
  then show ?thesis using null by (simp add: ip_class_v4 is_public_v4)
qed

text \<open>A network contains exactly the addresses that agree with its base address on the prefix, for
  prefix lengths from 1 to 32; with another prefix length the mask is shifted by 32 bits or more (or by a negative amount),
  which is undefined.\<close>
lemma netaddr_contains_prefix:
  "(1 \<le> p \<and> p \<le> 32 \<longrightarrow>
     net_contain \<lparr>base_addr = Ip_v4 v, prefix_len = p\<rparr> (Ip_v4 x) =
       Inr (drop_bit (32 - unat p) x = drop_bit (32 - unat p) v)) \<and>
   (\<not> (1 \<le> p \<and> p \<le> 32) \<longrightarrow>
     net_contain \<lparr>base_addr = Ip_v4 v, prefix_len = p\<rparr> (Ip_v4 x) = Inl Undefined_shift)"
  using net_contain_prefix[of p v x]
  by (auto simp: ip_netaddr_ctor_def net_contain_def get_any_addr_def get_netmask_def ip_is_null_def)

end
