(* ===== verification/KadAddr.thy ===== *)
theory KadAddr
  imports GenId Inet "HOL-Library.Multiset"
begin

text \<open>
  Addresses of the peers of the distributed hash table (\<open>neoip_kad/base/addr\<close>): \<open>kad_addr_t\<close> pairs an
  internet address with the 20 byte identifier of the peer; \<open>kad_addr_arr_t::sort_by_dist\<close> orders
  addresses by the exclusive-or distance of their identifiers.
\<close>

subsection \<open>Addresses\<close>

definition kad_id_len :: nat where "kad_id_len = 20"

record kad_addr_t =
  m_oaddr :: ipport_addr_t
  m_peerid :: bytes

definition kad_addr_is_null :: "kad_addr_t \<Rightarrow> bool" where
  "kad_addr_is_null a = (ipport_is_null (m_oaddr a) \<and> gen_id_is_null (m_peerid a))"

definition kad_addr_is_fully_qualified :: "kad_addr_t \<Rightarrow> bool res" where
  "kad_addr_is_fully_qualified a =
     res_if (ipport_is_fully_qualified (m_oaddr a)) (Inr (gen_id_is_fully_qualified (m_peerid a))) (Inr False)"

definition kad_addr_compare :: "kad_addr_t \<Rightarrow> kad_addr_t \<Rightarrow> int" where
  "kad_addr_compare a b =
     (if kad_addr_is_null a \<and> \<not> kad_addr_is_null b then -1
      else if \<not> kad_addr_is_null a \<and> kad_addr_is_null b then 1
      else if kad_addr_is_null a \<and> kad_addr_is_null b then 0
      else if gen_id_compare (m_peerid a) (m_peerid b) < 0 then -1
      else if gen_id_compare (m_peerid a) (m_peerid b) > 0 then 1
      else if ipport_compare (m_oaddr a) (m_oaddr b) < 0 then -1
      else if ipport_compare (m_oaddr a) (m_oaddr b) > 0 then 1
      else 0)"

text \<open>The filters for the scope of the asking peer: true says that the address is left out.\<close>

definition filter_fct_dstpublic :: "kad_addr_t \<Rightarrow> bool res" where
  "filter_fct_dstpublic a = res_if (is_public (m_ipaddr (m_oaddr a))) (Inr False) (Inr True)"

definition filter_fct_dstprivate :: "kad_addr_t \<Rightarrow> bool res" where
  "filter_fct_dstprivate a = res_if (is_private (m_ipaddr (m_oaddr a))) (Inr True) (Inr False)"

definition filter_fct_dstlinklocal :: "kad_addr_t \<Rightarrow> bool res" where
  "filter_fct_dstlinklocal a = res_if (is_localhost (m_ipaddr (m_oaddr a))) (Inr True) (Inr False)"

definition filter_fct_dstlocalhost :: "kad_addr_t \<Rightarrow> bool res" where
  "filter_fct_dstlocalhost a = Inr False"

definition put_kad_addr :: "kad_addr_t \<Rightarrow> bytes" where
  "put_kad_addr a = put_ipport_addr (m_oaddr a) @ put_gen_id (m_peerid a)"

definition get_kad_addr :: "kad_addr_t reader" where
  "get_kad_addr bs =
     res_bind (get_ipport_addr bs) (\<lambda>(oaddr, bs). res_bind (get_gen_id kad_id_len bs) (\<lambda>(peerid, bs).
       Inr (\<lparr>m_oaddr = oaddr, m_peerid = peerid\<rparr>, bs)))"

interpretation kad_addr_pair: codec_pair put_ipport_addr get_ipport_addr "\<lambda>_. True"
  put_gen_id "get_gen_id kad_id_len" "\<lambda>a. length a = kad_id_len"
  by unfold_locales

interpretation kad_addr_codec: serial_codec put_kad_addr get_kad_addr "\<lambda>a. length (m_peerid a) = kad_id_len"
  by unfold_locales
    (simp_all add: put_kad_addr_def get_kad_addr_def kad_addr_pair.pair_get_put kad_addr_pair.pair_get_prefix)

subsection \<open>Distance\<close>

definition kad_dist :: "bytes \<Rightarrow> bytes \<Rightarrow> nat" where
  "kad_dist a b = gen_id_val (gen_id_xor a b)"

lemma kad_dist_xor: "length a = length b \<Longrightarrow> kad_dist a b = gen_id_val a XOR gen_id_val b"
  by (simp add: kad_dist_def gen_id_val_xor)

lemma length_gen_id_xor [simp]: "length (gen_id_xor a b) = min (length a) (length b)"
  by (simp add: gen_id_xor_def)

lemma kad_dist_inject:
  assumes "length a = length c" "length b = length c" "kad_dist c a = kad_dist c b"
  shows "a = b"
proof -
  have "gen_id_val c XOR (gen_id_val c XOR gen_id_val a) = gen_id_val c XOR (gen_id_val c XOR gen_id_val b)"
    using assms by (simp add: kad_dist_xor)
  then have "gen_id_val a = gen_id_val b" by (simp flip: xor.assoc)
  then show ?thesis using assms by (simp add: gen_id_val_inject)
qed

text \<open>The highest bit of an exclusive or.\<close>

lemma nat_xor_bounds:
  assumes "2 ^ h \<le> (a::nat)" "a < 2 ^ Suc h" "b < 2 ^ h"
  shows "2 ^ h \<le> a XOR b \<and> a XOR b < 2 ^ Suc h"
proof -
  have "a div 2 ^ h = 1" using assms(1,2) by (intro div_nat_eqI) auto
  then have a: "take_bit (Suc h) a = a" "bit a h"
    using assms(2) by (simp_all add: take_bit_nat_eq_self_iff bit_iff_odd)
  have b: "take_bit h b = b" using assms(3) by (simp add: take_bit_nat_eq_self_iff)
  then have nb: "\<not> bit b h" "take_bit (Suc h) b = b"
    using assms(3) by (metis bit_take_bit_iff less_irrefl, simp add: take_bit_nat_eq_self_iff)
  have "take_bit (Suc h) (a XOR b) = a XOR b" using a nb by simp
  then have "a XOR b < 2 ^ Suc h" by (metis take_bit_nat_less_exp)
  moreover have "bit (a XOR b) h" using a nb by (simp add: bit_xor_iff)
  then have "2 ^ h \<le> a XOR b" by (metis bit_take_bit_iff less_irrefl not_le take_bit_nat_eq_self)
  ultimately show ?thesis by blast
qed

text \<open>\<open>std::sort\<close> with the comparison of distances: an order that is not decreasing, made of the same
  elements.  Addresses with different identifiers have different distances, so that the result does
  not depend on the algorithm.\<close>

definition cmp_xor_dist :: "bytes \<Rightarrow> kad_addr_t \<Rightarrow> kad_addr_t \<Rightarrow> bool" where
  "cmp_xor_dist from_id a b =
     (gen_id_compare (gen_id_xor from_id (m_peerid a)) (gen_id_xor from_id (m_peerid b)) < 0)"

fun insert_by_dist :: "bytes \<Rightarrow> kad_addr_t \<Rightarrow> kad_addr_t list \<Rightarrow> kad_addr_t list" where
  "insert_by_dist from_id a [] = [a]"
| "insert_by_dist from_id a (b # xs) =
     (if cmp_xor_dist from_id b a then b # insert_by_dist from_id a xs else a # b # xs)"

definition sort_by_dist :: "bytes \<Rightarrow> kad_addr_t list \<Rightarrow> kad_addr_t list" where
  "sort_by_dist from_id xs = foldr (insert_by_dist from_id) xs []"

lemma cmp_xor_dist_iff:
  "length (m_peerid a) = length c \<Longrightarrow> length (m_peerid b) = length c \<Longrightarrow>
   cmp_xor_dist c a b \<longleftrightarrow> kad_dist c (m_peerid a) < kad_dist c (m_peerid b)"
  by (auto simp: cmp_xor_dist_def kad_dist_def gen_id_compare_val)

lemma mset_insert_by_dist: "mset (insert_by_dist c a xs) = add_mset a (mset xs)"
  by (induction c a xs rule: insert_by_dist.induct) auto

lemma mset_sort_by_dist [simp]: "mset (sort_by_dist c xs) = mset xs"
  by (induction xs) (simp_all add: sort_by_dist_def mset_insert_by_dist)

lemma set_sort_by_dist [simp]: "set (sort_by_dist c xs) = set xs"
  by (metis mset_sort_by_dist set_mset_mset)

lemma length_sort_by_dist [simp]: "length (sort_by_dist c xs) = length xs"
  by (metis mset_sort_by_dist size_mset)

lemma sorted_insert_by_dist:
  "\<forall>x\<in>set (a # xs). length (m_peerid x) = length c \<Longrightarrow> sorted (map (\<lambda>x. kad_dist c (m_peerid x)) xs) \<Longrightarrow>
   sorted (map (\<lambda>x. kad_dist c (m_peerid x)) (insert_by_dist c a xs))"
proof (induction xs)
  case (Cons b xs)
  have s: "set (insert_by_dist c a xs) = insert a (set xs)"
    using mset_insert_by_dist[of c a xs] by (metis set_mset_add_mset_insert set_mset_mset)
  show ?case
    using Cons s cmp_xor_dist_iff[of b c a] by (auto simp: not_less)
qed simp

lemma sorted_sort_by_dist:
  assumes "\<forall>x\<in>set xs. length (m_peerid x) = length c"
  shows "sorted (map (\<lambda>x. kad_dist c (m_peerid x)) (sort_by_dist c xs))"
  using assms
proof (induction xs)
  case (Cons a xs)
  have "set (sort_by_dist c xs) = set xs" by simp
  then show ?case
    using Cons sorted_insert_by_dist[of a "sort_by_dist c xs" c] by (simp add: sort_by_dist_def)
qed (simp add: sort_by_dist_def)

end
