(* ===== verification/Kbucket.thy ===== *)
theory Kbucket
  imports KadAddr Delay
begin

text \<open>
  The routing table of the distributed hash table: \<open>kad_kbucket_t\<close> with its nested classes \<open>bucklist_t\<close> and
  \<open>bucknode_t\<close> (\<open>neoip_kad/service/kbucket\<close>).  The known peers are kept in buckets by the position of
  the highest bit of their distance to the local peer, each bucket ordered from the least to the
  most recently seen.  When a bucket is full the least recently seen node is pinged, and the new
  node waits until the ping ends.

  A \<open>bucknode_t\<close> is created for one identifier, its constructor links it in \<open>bucknode_db\<close> under that
  identifier and asserts that there was none: a pointer to a node is therefore its identifier, and the
  contents of the node are what \<open>bucknode_db\<close> holds.  A pointer to a \<open>bucklist_t\<close> is its index.  The remote
  procedure calls (ping, search) are outside of the model: whether one starts is an argument,
  its end is an operation.  Calls to \<open>remote_db->notify_new_node\<close> are recorded in \<open>kb_new_nodes\<close>.  The numbers
  drawn by \<open>build_random\<close> are an argument.
\<close>

subsection \<open>Profile\<close>

record kad_kbucket_profile_t =
  ping_rpc_timeout :: delay_t
  refreshing_findnode_timeout :: delay_t
  refresh_idle_bucklist_timeout :: delay_t
  nb_replication :: nat
  profile_kbucket_width :: nat
  delete_timedout_rpc_min_delay :: delay_t

definition kad_kbucket_profile_ctor :: kad_kbucket_profile_t where
  "kad_kbucket_profile_ctor =
     \<lparr>ping_rpc_timeout = from_sec 5, refreshing_findnode_timeout = from_sec 60,
      refresh_idle_bucklist_timeout = from_sec (60 * 60), nb_replication = 20, profile_kbucket_width = 5,
      delete_timedout_rpc_min_delay = from_sec 60\<rparr>"

subsection \<open>State\<close>

record bucknode_t =
  bn_kad_addr :: kad_addr_t
  ping_rpc :: bool
  pending_node :: "kad_addr_t option"

record bucklist_t =
  bucknode_lru :: "bytes list"
  kad_closestnode :: bool
  refresh_timeout :: delay_t

record kad_kbucket_t =
  kb_profile :: kad_kbucket_profile_t
  local_peerid :: bytes
  kbucket_width :: nat
  kbucket_height :: nat
  bucklist_db :: "bucklist_t list"
  bucknode_db :: "bytes \<rightharpoonup> bucknode_t"
  pending_node_db :: "bytes \<rightharpoonup> kad_addr_t"
  peerid_todelete_db :: "bytes list"
  peerid_todelete_zerotimer :: "unit zerotimer_t"
  kb_new_nodes :: "kad_addr_t list"

text \<open>Following a pointer to a node, and indexing \<open>bucklist_db\<close>.\<close>

definition kb_node :: "bytes \<Rightarrow> kad_kbucket_t \<Rightarrow> bucknode_t res" where
  "kb_node p st = (case bucknode_db st p of None \<Rightarrow> Inl Out_of_bounds | Some n \<Rightarrow> Inr n)"

definition bl_at :: "nat \<Rightarrow> kad_kbucket_t \<Rightarrow> bucklist_t res" where
  "bl_at x st = (if x < length (bucklist_db st) then Inr (bucklist_db st ! x) else Inl Out_of_bounds)"

definition bl_set :: "nat \<Rightarrow> bucklist_t \<Rightarrow> kad_kbucket_t \<Rightarrow> kad_kbucket_t" where
  "bl_set x bl st = st\<lparr>bucklist_db := (bucklist_db st)[x := bl]\<rparr>"

definition get_bucknode :: "bytes \<Rightarrow> kad_kbucket_t \<Rightarrow> bytes option" where
  "get_bucknode peerid st = (case bucknode_db st peerid of None \<Rightarrow> None | Some n \<Rightarrow> Some peerid)"

definition is_pending_node :: "bytes \<Rightarrow> kad_kbucket_t \<Rightarrow> bool" where
  "is_pending_node peerid st = (case pending_node_db st peerid of None \<Rightarrow> False | Some a \<Rightarrow> True)"

definition get_bucket_idx :: "bytes \<Rightarrow> kad_kbucket_t \<Rightarrow> nat" where
  "get_bucket_idx peerid st =
     bit_get_highest_set (gen_id_xor (local_peerid st) peerid) div kbucket_width st"

subsection \<open>A bucket\<close>

definition bucklist_ctor :: "kad_kbucket_profile_t \<Rightarrow> bucklist_t" where
  "bucklist_ctor profile =
     \<lparr>bucknode_lru = [], kad_closestnode = False, refresh_timeout = refresh_idle_bucklist_timeout profile\<rparr>"

definition peerid_is_present :: "bytes \<Rightarrow> bucklist_t \<Rightarrow> bool" where
  "peerid_is_present peerid bl = list_ex (\<lambda>p. p = peerid) (bucknode_lru bl)"

definition bl_insert :: "nat \<Rightarrow> bytes \<Rightarrow> kad_kbucket_t \<Rightarrow> kad_kbucket_t res" where
  "bl_insert x p st =
     res_bind (bl_at x st) (\<lambda>bl.
       dbg_assert (\<not> peerid_is_present p bl)
        (dbg_assert (get_bucket_idx p st = x)
          (let bl = bl\<lparr>bucknode_lru := bucknode_lru bl @ [p]\<rparr> in
           dbg_assert (length (bucknode_lru bl) \<le> kbucket_height st) (Inr (bl_set x bl st)))))"

definition bl_update :: "nat \<Rightarrow> bytes \<Rightarrow> kad_kbucket_t \<Rightarrow> kad_kbucket_t res" where
  "bl_update x p st =
     res_bind (bl_at x st) (\<lambda>bl.
       dbg_assert (peerid_is_present p bl)
        (dbg_assert (length (bucknode_lru bl) \<le> kbucket_height st)
         (dbg_assert (get_bucket_idx p st = x)
           (Inr (bl_set x (bl\<lparr>bucknode_lru := filter (\<lambda>q. q \<noteq> p) (bucknode_lru bl) @ [p]\<rparr>) st)))))"

definition bl_remove :: "nat \<Rightarrow> bytes \<Rightarrow> kad_kbucket_t \<Rightarrow> kad_kbucket_t res" where
  "bl_remove x p st =
     res_bind (bl_at x st) (\<lambda>bl.
       dbg_assert (peerid_is_present p bl)
         (dbg_assert (get_bucket_idx p st = x)
           (Inr (bl_set x (bl\<lparr>bucknode_lru := filter (\<lambda>q. q \<noteq> p) (bucknode_lru bl)\<rparr>) st))))"

fun first_notpinging :: "kad_kbucket_t \<Rightarrow> bytes list \<Rightarrow> bytes option res" where
  "first_notpinging st [] = Inr None"
| "first_notpinging st (p # ps) =
     res_bind (kb_node p st) (\<lambda>n. if \<not> ping_rpc n then Inr (Some p) else first_notpinging st ps)"

definition get_first_notpinging :: "nat \<Rightarrow> kad_kbucket_t \<Rightarrow> bytes option res" where
  "get_first_notpinging x st = res_bind (bl_at x st) (\<lambda>bl. first_notpinging st (bucknode_lru bl))"

definition get_node_idx :: "nat \<Rightarrow> bucklist_t \<Rightarrow> bytes res" where
  "get_node_idx idx bl = dbg_assert (idx < length (bucknode_lru bl)) (Inr (bucknode_lru bl ! idx))"

fun copy_nodes ::
  "(kad_addr_t \<Rightarrow> bool res) \<Rightarrow> kad_kbucket_t \<Rightarrow> bytes list \<Rightarrow> kad_addr_t list \<Rightarrow> kad_addr_t list res" where
  "copy_nodes flt st [] acc = Inr acc"
| "copy_nodes flt st (p # ps) acc =
     res_bind (kb_node p st) (\<lambda>n.
       res_if (flt (bn_kad_addr n)) (copy_nodes flt st ps acc)
         (copy_nodes flt st ps (acc @ [bn_kad_addr n])))"

definition bl_copy_to ::
  "(kad_addr_t \<Rightarrow> bool res) \<Rightarrow> nat \<Rightarrow> kad_kbucket_t \<Rightarrow> kad_addr_t list \<Rightarrow> kad_addr_t list res" where
  "bl_copy_to flt x st acc = res_bind (bl_at x st) (\<lambda>bl. copy_nodes flt st (bucknode_lru bl) acc)"

subsection \<open>A node\<close>

definition bucknode_ctor :: "kad_addr_t \<Rightarrow> kad_kbucket_t \<Rightarrow> kad_kbucket_t res" where
  "bucknode_ctor addr st =
     (let st = st\<lparr>kb_new_nodes := kb_new_nodes st @ [addr]\<rparr> in
      dbg_assert (bucknode_db st (m_peerid addr) = None)
        (Inr (st\<lparr>bucknode_db := (bucknode_db st)(m_peerid addr \<mapsto>
           \<lparr>bn_kad_addr = addr, ping_rpc = False, pending_node = None\<rparr>)\<rparr>)))"

definition ping_start :: "bool \<Rightarrow> kad_addr_t \<Rightarrow> bytes \<Rightarrow> kad_kbucket_t \<Rightarrow> (bool \<times> kad_kbucket_t) res" where
  "ping_start started new_node p st =
     res_bind (kb_node p st) (\<lambda>n.
       dbg_assert (\<not> ping_rpc n)
         (if \<not> started then Inr (False, st)
          else dbg_assert (pending_node_db st (m_peerid new_node) = None)
            (Inr (True, st\<lparr>bucknode_db := (bucknode_db st)(p \<mapsto>
                                n\<lparr>ping_rpc := True, pending_node := Some new_node\<rparr>),
                          pending_node_db := (pending_node_db st)(m_peerid new_node \<mapsto> new_node)\<rparr>))))"

definition ping_stop :: "bytes \<Rightarrow> kad_kbucket_t \<Rightarrow> kad_kbucket_t res" where
  "ping_stop p st =
     res_bind (kb_node p st) (\<lambda>n.
       dbg_assert (ping_rpc n)
         (case pending_node n of
            None \<Rightarrow> Inl Out_of_bounds
          | Some q \<Rightarrow>
              Inr (st\<lparr>bucknode_db := (bucknode_db st)(p \<mapsto> n\<lparr>ping_rpc := False, pending_node := None\<rparr>),
                     pending_node_db := (pending_node_db st)(m_peerid q := None)\<rparr>)))"

definition bucknode_dtor :: "bytes \<Rightarrow> kad_kbucket_t \<Rightarrow> kad_kbucket_t res" where
  "bucknode_dtor p st =
     res_bind (kb_node p st) (\<lambda>n.
       res_bind (if ping_rpc n then ping_stop p st else Inr st) (\<lambda>st.
         Inr (st\<lparr>bucknode_db := (bucknode_db st)(p := None)\<rparr>)))"

text \<open>The end of a ping: with a fatal event the node is replaced by the pending one, otherwise it is the most
  recently seen and the pending node is dropped.\<close>

definition ping_rpc_cb :: "bool \<Rightarrow> bytes \<Rightarrow> kad_kbucket_t \<Rightarrow> kad_kbucket_t res" where
  "ping_rpc_cb fatal p st =
     (if fatal
      then res_bind (kb_node p st) (\<lambda>n.
             case pending_node n of
               None \<Rightarrow> Inl Out_of_bounds
             | Some q \<Rightarrow>
                 res_bind (bucknode_ctor q st) (\<lambda>st.
                 let bucket_idx = get_bucket_idx p st in
                 res_bind (bl_remove bucket_idx p st) (\<lambda>st.
                 res_bind (bl_insert bucket_idx (m_peerid q) st) (bucknode_dtor p))))
      else res_bind (bl_update (get_bucket_idx p st) p st) (ping_stop p))"

subsection \<open>Notifications\<close>

definition notify_srckaddr :: "bool \<Rightarrow> kad_addr_t \<Rightarrow> kad_kbucket_t \<Rightarrow> kad_kbucket_t res" where
  "notify_srckaddr started kad_addr st =
     res_bind (kad_addr_is_fully_qualified kad_addr) (\<lambda>fq.
     dbg_assert fq
      (let bucket_idx = get_bucket_idx (m_peerid kad_addr) st in
       if is_pending_node (m_peerid kad_addr) st then Inr st
       else case get_bucknode (m_peerid kad_addr) st of
         Some bucknode \<Rightarrow> bl_update bucket_idx bucknode st
       | None \<Rightarrow>
           res_bind (bl_at bucket_idx st) (\<lambda>bl.
             if length (bucknode_lru bl) < kbucket_height st
             then res_bind (bucknode_ctor kad_addr st) (bl_insert bucket_idx (m_peerid kad_addr))
             else res_bind (get_first_notpinging bucket_idx st) (\<lambda>bucknode.
               case bucknode of
                 None \<Rightarrow> Inr st
               | Some p \<Rightarrow> res_bind (ping_start started kad_addr p st) (\<lambda>(started, st). Inr st)))))"

definition notify_failed_rpc ::
  "bytes \<Rightarrow> bool \<Rightarrow> bool \<Rightarrow> delay_t \<Rightarrow> kad_kbucket_t \<Rightarrow> kad_kbucket_t res" where
  "notify_failed_rpc peerid fatal timedout expire_delay st =
     dbg_assert fatal
      (if timedout \<and> delay_compare expire_delay (delete_timedout_rpc_min_delay (kb_profile st)) < 0 then Inr st
       else
         let st = st\<lparr>peerid_todelete_db := peerid_todelete_db st @ [peerid]\<rparr> in
         Inr (if cbuserptr_list (peerid_todelete_zerotimer st) = []
              then st\<lparr>peerid_todelete_zerotimer := zerotimer_append () (peerid_todelete_zerotimer st)\<rparr>
              else st))"

fun todelete_loop :: "bytes list \<Rightarrow> kad_kbucket_t \<Rightarrow> kad_kbucket_t res" where
  "todelete_loop [] st = Inr st"
| "todelete_loop (peerid # todo) st =
     (let st = st\<lparr>peerid_todelete_db := todo\<rparr>; bucket_idx = get_bucket_idx peerid st in
      res_bind (bl_at bucket_idx st) (\<lambda>bl.
        if \<not> peerid_is_present peerid bl then todelete_loop todo st
        else res_bind (bl_remove bucket_idx peerid st) (\<lambda>st.
             res_bind (bucknode_dtor peerid st) (todelete_loop todo))))"

definition kb_zerotimer_expire :: "kad_kbucket_t \<Rightarrow> (bool \<times> kad_kbucket_t) res" where
  "kb_zerotimer_expire st =
     zerotimer_expire peerid_todelete_zerotimer (\<lambda>t st. st\<lparr>peerid_todelete_zerotimer := t\<rparr>)
       (\<lambda>u st. res_bind (todelete_loop (peerid_todelete_db st) st) (\<lambda>st. Inr (True, st))) st"

subsection \<open>Construction\<close>

text \<open>\<open>listen_lview\<close> is the address on which the local peer listens; the any address is replaced by the local
  host.\<close>

definition kad_kbucket_ctor ::
  "kad_kbucket_profile_t \<Rightarrow> bytes \<Rightarrow> ipport_addr_t \<Rightarrow> kad_kbucket_t res" where
  "kad_kbucket_ctor profile peerid listen_lview =
     (let width = profile_kbucket_width profile; nbit = kad_id_len * 8 in
      if width = 0 then Inl (Except ''division by zero'')
      else dbg_assert ((nbit div width) * width = nbit)
        (let st = \<lparr>kb_profile = profile, local_peerid = peerid, kbucket_width = width,
                   kbucket_height = nb_replication profile,
                   bucklist_db = replicate (nbit div width) (bucklist_ctor profile),
                   bucknode_db = Map.empty, pending_node_db = Map.empty, peerid_todelete_db = [],
                   peerid_todelete_zerotimer = zerotimer_ctor, kb_new_nodes = []\<rparr>
         in res_bind (is_any (m_ipaddr listen_lview)) (\<lambda>any.
            let oaddr = (if any then listen_lview\<lparr>m_ipaddr := Ip_v4 0x7f000001\<rparr> else listen_lview)
            in notify_srckaddr False \<lparr>m_oaddr = oaddr, m_peerid = peerid\<rparr> st)))"

subsection \<open>Queries\<close>

text \<open>The two nested loops of \<open>get_noldest_addr\<close> over heights and buckets, with the return inside.\<close>

fun noldest_loop :: "kad_kbucket_t \<Rightarrow> nat \<Rightarrow> (nat \<times> nat) list \<Rightarrow> kad_addr_t list \<Rightarrow> kad_addr_t list res" where
  "noldest_loop st mx [] result = Inr result"
| "noldest_loop st mx ((y, x) # yxs) result =
     res_bind (bl_at x st) (\<lambda>bl.
       if length (bucknode_lru bl) \<le> y then noldest_loop st mx yxs result
       else res_bind (get_node_idx y bl) (\<lambda>p. res_bind (kb_node p st) (\<lambda>n.
              let result = result @ [bn_kad_addr n] in
              if length result = mx then Inr result else noldest_loop st mx yxs result)))"

definition get_noldest_addr :: "nat \<Rightarrow> kad_kbucket_t \<Rightarrow> kad_addr_t list res" where
  "get_noldest_addr max_nb_addr st =
     noldest_loop st max_nb_addr
       (concat (map (\<lambda>y. map (\<lambda>x. (y, x)) [0..<length (bucklist_db st)]) [0..<kbucket_height st])) []"

function nclosest_loop ::
  "(kad_addr_t \<Rightarrow> bool res) \<Rightarrow> kad_kbucket_t \<Rightarrow> nat \<Rightarrow> int \<Rightarrow> int \<Rightarrow> kad_addr_t list \<Rightarrow> kad_addr_t list res" where
  "nclosest_loop flt st mx inc_idx dec_idx tmp =
     (if \<not> length tmp < mx then Inr tmp
      else if dec_idx < 0 \<and> inc_idx \<ge> int (length (bucklist_db st)) then Inr tmp
      else res_bind (if inc_idx < int (length (bucklist_db st)) then bl_copy_to flt (nat inc_idx) st tmp else Inr tmp)
        (\<lambda>tmp. res_bind (if dec_idx \<ge> 0 then bl_copy_to flt (nat dec_idx) st tmp else Inr tmp)
          (\<lambda>tmp. nclosest_loop flt st mx
             (if inc_idx < int (length (bucklist_db st)) then inc_idx + 1 else inc_idx)
             (if dec_idx \<ge> 0 then dec_idx - 1 else dec_idx) tmp)))"
  by pat_completeness auto
termination
  by (relation "measure (\<lambda>(flt, st, mx, i, d, tmp). nat (int (length (bucklist_db st)) - i) + nat (d + 1))") auto

declare nclosest_loop.simps [simp del]

definition get_nclosest_addr ::
  "bytes \<Rightarrow> nat \<Rightarrow> (kad_addr_t \<Rightarrow> bool res) \<Rightarrow> kad_kbucket_t \<Rightarrow> kad_addr_t list res" where
  "get_nclosest_addr target_id max_nb_addr flt st =
     (let bucket_idx = int (get_bucket_idx target_id st) in
      res_bind (nclosest_loop flt st max_nb_addr bucket_idx (bucket_idx - 1) []) (\<lambda>tmp.
        Inr (take max_nb_addr (sort_by_dist target_id tmp))))"

subsection \<open>Refreshing\<close>

text \<open>The loop that draws a random identifier; \<open>None\<close> says that the numbers ran out before one fitted.\<close>

fun refresh_pick :: "kad_kbucket_t \<Rightarrow> nat \<Rightarrow> bytes list \<Rightarrow> bytes option res" where
  "refresh_pick st bucket_idx [] = Inr None"
| "refresh_pick st bucket_idx (r # rs) =
     res_bind (bit_clear_n_highest (kad_id_len * 8 - (bucket_idx + 1) * kbucket_width st) r) (\<lambda>rand_id.
       if bucket_idx \<noteq> bit_get_highest_set rand_id div kbucket_width st then refresh_pick st bucket_idx rs
       else Inr (Some rand_id))"

text \<open>The result carries the identifier that is searched for.\<close>

definition trigger_refresh_now ::
  "bytes list \<Rightarrow> bool \<Rightarrow> nat \<Rightarrow> kad_kbucket_t \<Rightarrow> (bytes option \<times> kad_kbucket_t) res" where
  "trigger_refresh_now rs started x st =
     res_bind (bl_at x st) (\<lambda>bl.
       if kad_closestnode bl then Inr (None, st)
       else res_bind (refresh_pick st x rs) (\<lambda>rand_id.
         case rand_id of
           None \<Rightarrow> Inl Diverges
         | Some rid \<Rightarrow> Inr (Some rid, bl_set x (bl\<lparr>kad_closestnode := started\<rparr>) st)))"

definition closestnode_cb :: "bool \<Rightarrow> nat \<Rightarrow> kad_kbucket_t \<Rightarrow> kad_kbucket_t res" where
  "closestnode_cb ok x st =
     res_bind (bl_at x st) (\<lambda>bl. dbg_assert ok (Inr (bl_set x (bl\<lparr>kad_closestnode := False\<rparr>) st)))"

definition notify_nsearch :: "bytes \<Rightarrow> kad_kbucket_t \<Rightarrow> kad_kbucket_t res" where
  "notify_nsearch targetid st =
     (let x = get_bucket_idx targetid st in
      res_bind (bl_at x st) (\<lambda>bl.
        Inr (bl_set x (bl\<lparr>refresh_timeout := refresh_idle_bucklist_timeout (kb_profile st)\<rparr>) st)))"

fun post_bstrap_loop ::
  "(nat \<Rightarrow> bytes list) \<Rightarrow> (nat \<Rightarrow> bool) \<Rightarrow> nat \<Rightarrow> kad_kbucket_t \<Rightarrow> kad_kbucket_t res" where
  "post_bstrap_loop rs started 0 st = Inr st"
| "post_bstrap_loop rs started (Suc i) st =
     res_bind (bl_at i st) (\<lambda>bl.
       if length (bucknode_lru bl) \<noteq> 0 then Inr st
       else res_bind (trigger_refresh_now (rs i) (started i) i st) (\<lambda>(target, st).
              post_bstrap_loop rs started i st))"

definition refresh_post_bstrap ::
  "(nat \<Rightarrow> bytes list) \<Rightarrow> (nat \<Rightarrow> bool) \<Rightarrow> kad_kbucket_t \<Rightarrow> kad_kbucket_t res" where
  "refresh_post_bstrap rs started st = post_bstrap_loop rs started (length (bucklist_db st)) st"

fun refresh_loop ::
  "(nat \<Rightarrow> bytes list) \<Rightarrow> (nat \<Rightarrow> bool) \<Rightarrow> nat list \<Rightarrow> kad_kbucket_t \<Rightarrow> kad_kbucket_t res" where
  "refresh_loop rs started [] st = Inr st"
| "refresh_loop rs started (i # is) st =
     res_bind (trigger_refresh_now (rs i) (started i) i st) (\<lambda>(target, st). refresh_loop rs started is st)"

definition refresh_all_bucklist ::
  "(nat \<Rightarrow> bytes list) \<Rightarrow> (nat \<Rightarrow> bool) \<Rightarrow> kad_kbucket_t \<Rightarrow> kad_kbucket_t res" where
  "refresh_all_bucklist rs started st = refresh_loop rs started [0..<length (bucklist_db st)] st"

subsection \<open>Invariant\<close>

text \<open>\<open>lru i\<close> is the list of bucket \<open>i\<close>.  Every node is in the bucket of its identifier and nowhere else, a bucket
  has at most \<open>kbucket_height\<close> nodes, and the pending nodes are those of the pings in progress, one
  for each, in the bucket of the pinged node and not known yet.\<close>

definition kb_lru :: "kad_kbucket_t \<Rightarrow> nat \<Rightarrow> bytes list" where
  "kb_lru st i = (if i < length (bucklist_db st) then bucknode_lru (bucklist_db st ! i) else [])"

definition kb_shape :: "kad_kbucket_t \<Rightarrow> bool" where
  "kb_shape st \<longleftrightarrow> length (local_peerid st) = kad_id_len \<and> 0 < kbucket_width st \<and>
     length (bucklist_db st) * kbucket_width st = kad_id_len * 8 \<and>
     (\<forall>p\<in>set (peerid_todelete_db st). length p = kad_id_len)"

definition kb_lists :: "(bytes \<Rightarrow> nat) \<Rightarrow> nat \<Rightarrow> (nat \<Rightarrow> bytes list) \<Rightarrow> (bytes \<rightharpoonup> bucknode_t) \<Rightarrow> bool" where
  "kb_lists idx h lru db \<longleftrightarrow>
     (\<forall>i. distinct (lru i) \<and> length (lru i) \<le> h) \<and>
     (\<forall>i p. p \<in> set (lru i) \<longleftrightarrow> p \<in> dom db \<and> idx p = i)"

definition pends :: "(bytes \<rightharpoonup> bucknode_t) \<Rightarrow> bytes \<Rightarrow> kad_addr_t \<Rightarrow> bool" where
  "pends db p q \<longleftrightarrow> (\<exists>n. db p = Some n \<and> pending_node n = Some q)"

definition kb_nodes :: "(bytes \<Rightarrow> nat) \<Rightarrow> (bytes \<rightharpoonup> bucknode_t) \<Rightarrow> (bytes \<rightharpoonup> kad_addr_t) \<Rightarrow> bool" where
  "kb_nodes idx db pend \<longleftrightarrow>
     (\<forall>p n. db p = Some n \<longrightarrow> m_peerid (bn_kad_addr n) = p \<and> length p = kad_id_len \<and>
        ping_rpc n = (pending_node n \<noteq> None)) \<and>
     (\<forall>k q. pend k = Some q \<longleftrightarrow> m_peerid q = k \<and> (\<exists>p. pends db p q)) \<and>
     (\<forall>p q. pends db p q \<longrightarrow>
        length (m_peerid q) = kad_id_len \<and> db (m_peerid q) = None \<and> idx (m_peerid q) = idx p) \<and>
     (\<forall>p p' q q'. pends db p q \<and> pends db p' q' \<and> m_peerid q = m_peerid q' \<longrightarrow> p = p')"

definition kb_inv :: "kad_kbucket_t \<Rightarrow> bool" where
  "kb_inv st \<longleftrightarrow> kb_shape st \<and>
     kb_lists (\<lambda>p. get_bucket_idx p st) (kbucket_height st) (kb_lru st) (bucknode_db st) \<and>
     kb_nodes (\<lambda>p. get_bucket_idx p st) (bucknode_db st) (pending_node_db st)"

lemma kb_bucket_idx_less:
  assumes "kb_shape st" "length p = kad_id_len"
  shows "get_bucket_idx p st < length (bucklist_db st)"
proof -
  let ?d = "gen_id_xor (local_peerid st) p"
  have len: "length ?d = 20" using assms by (simp add: kb_shape_def kad_id_len_def)
  have "bit_get_highest_set ?d < 160"
  proof (cases "gen_id_val ?d = 0")
    case False
    then have "2 ^ bit_get_highest_set ?d \<le> gen_id_val ?d" using bit_get_highest_set_val by blast
    also have "gen_id_val ?d < 2 ^ 160" using gen_id_val_less[of ?d] len by simp
    finally show ?thesis by (rule power_less_imp_less_exp[rotated]) simp
  qed (simp add: bit_get_highest_set_null)
  then show ?thesis
    using assms by (simp add: get_bucket_idx_def kb_shape_def kad_id_len_def div_less_iff_less_mult)
qed

text \<open>What the changes of the tables do to the invariant.\<close>

lemma kb_lists_touch:
  assumes "kb_lists idx h lru db" "p \<in> dom db"
  shows "kb_lists idx h (lru(idx p := filter (\<lambda>q. q \<noteq> p) (lru (idx p)) @ [p])) db"
proof -
  have p: "p \<in> set (lru (idx p))" using assms by (simp add: kb_lists_def)
  have "length (filter (\<lambda>q. q \<noteq> p) (lru (idx p))) < length (lru (idx p))"
    using p by (intro length_filter_less) auto
  moreover have "length (lru (idx p)) \<le> h" using assms by (simp add: kb_lists_def)
  ultimately have "Suc (length (filter (\<lambda>q. q \<noteq> p) (lru (idx p)))) \<le> h" by linarith
  then show ?thesis using assms p by (auto simp: kb_lists_def)
qed

lemma kb_lists_dom: "kb_lists idx h lru db \<Longrightarrow> dom db' = dom db \<Longrightarrow> kb_lists idx h lru db'"
  by (simp add: kb_lists_def)

lemma kb_lists_add:
  assumes "kb_lists idx h lru db" "db p = None" "length (lru (idx p)) < h"
  shows "kb_lists idx h (lru(idx p := lru (idx p) @ [p])) (db(p \<mapsto> n))"
  using assms by (auto simp: kb_lists_def)

lemma kb_lists_del:
  assumes "kb_lists idx h lru db"
  shows "kb_lists idx h (lru(idx p := filter (\<lambda>q. q \<noteq> p) (lru (idx p)))) (db(p := None))"
  using assms by (auto simp: kb_lists_def intro: le_trans[OF length_filter_le])

lemma pends_upd:
  "pends (db(p \<mapsto> n)) r q \<longleftrightarrow> (if r = p then pending_node n = Some q else pends db r q)"
  "pends (db(p := None)) r q \<longleftrightarrow> r \<noteq> p \<and> pends db r q"
  by (auto simp: pends_def)

lemma kb_nodesD:
  assumes "kb_nodes idx db pend"
  shows "db p = Some n \<Longrightarrow> m_peerid (bn_kad_addr n) = p \<and> length p = kad_id_len \<and> ping_rpc n = (pending_node n \<noteq> None)"
    "pend k = Some q \<longleftrightarrow> m_peerid q = k \<and> (\<exists>p. pends db p q)"
    "pends db p q \<Longrightarrow> length (m_peerid q) = kad_id_len \<and> db (m_peerid q) = None \<and> idx (m_peerid q) = idx p"
    "pends db p q \<Longrightarrow> pends db p' q' \<Longrightarrow> m_peerid q = m_peerid q' \<Longrightarrow> p = p'"
  using assms unfolding kb_nodes_def by blast+

lemma kb_nodesI:
  assumes "\<And>p n. db p = Some n \<Longrightarrow> m_peerid (bn_kad_addr n) = p \<and> length p = kad_id_len \<and> ping_rpc n = (pending_node n \<noteq> None)"
    "\<And>k q. pend k = Some q \<longleftrightarrow> m_peerid q = k \<and> (\<exists>p. pends db p q)"
    "\<And>p q. pends db p q \<Longrightarrow> length (m_peerid q) = kad_id_len \<and> db (m_peerid q) = None \<and> idx (m_peerid q) = idx p"
    "\<And>p p' q q'. pends db p q \<Longrightarrow> pends db p' q' \<Longrightarrow> m_peerid q = m_peerid q' \<Longrightarrow> p = p'"
  shows "kb_nodes idx db pend"
  unfolding kb_nodes_def
proof (intro conjI)
  show "\<forall>p n. db p = Some n \<longrightarrow> m_peerid (bn_kad_addr n) = p \<and> length p = kad_id_len \<and> ping_rpc n = (pending_node n \<noteq> None)"
    using assms(1) by blast
  show "\<forall>k q. pend k = Some q \<longleftrightarrow> m_peerid q = k \<and> (\<exists>p. pends db p q)" using assms(2) by blast
  show "\<forall>p q. pends db p q \<longrightarrow> length (m_peerid q) = kad_id_len \<and> db (m_peerid q) = None \<and> idx (m_peerid q) = idx p"
    using assms(3) by blast
  show "\<forall>p p' q q'. pends db p q \<and> pends db p' q' \<and> m_peerid q = m_peerid q' \<longrightarrow> p = p'"
    using assms(4) by blast
qed

lemma kb_nodes_add:
  assumes inv: "kb_nodes idx db pend" and new: "db p = None" "pend p = None"
    and n: "m_peerid (bn_kad_addr n) = p" "length p = kad_id_len" "ping_rpc n = False" "pending_node n = None"
  shows "kb_nodes idx (db(p \<mapsto> n)) pend"
proof (rule kb_nodesI)
  note D = kb_nodesD[OF inv]
  have old: "pends (db(p \<mapsto> n)) r q \<longleftrightarrow> pends db r q" for r q
    using n(4) new(1) by (auto simp: pends_upd) (simp add: pends_def)
  show "pend k = Some q \<longleftrightarrow> m_peerid q = k \<and> (\<exists>r. pends (db(p \<mapsto> n)) r q)" for k q
    unfolding old by (rule D(2))
  show "length (m_peerid q) = kad_id_len \<and> (db(p \<mapsto> n)) (m_peerid q) = None \<and> idx (m_peerid q) = idx r"
    if "pends (db(p \<mapsto> n)) r q" for r q
    using D(2)[of p q] D(3)[of r q] that new(2) unfolding old by auto
  show "r = r'" if "pends (db(p \<mapsto> n)) r q" "pends (db(p \<mapsto> n)) r' q'" "m_peerid q = m_peerid q'" for r r' q q'
    using D(4) that unfolding old by blast
qed (use kb_nodesD(1)[OF inv] n in \<open>auto split: if_splits\<close>)

lemma kb_nodes_ping:
  assumes inv: "kb_nodes idx db pend" and n: "db p = Some n" "ping_rpc n = False"
    and q: "db (m_peerid q) = None" "pend (m_peerid q) = None" "length (m_peerid q) = kad_id_len"
      "idx (m_peerid q) = idx p"
  shows "kb_nodes idx (db(p \<mapsto> n\<lparr>ping_rpc := True, pending_node := Some q\<rparr>)) (pend(m_peerid q \<mapsto> q))"
proof (rule kb_nodesI)
  note D = kb_nodesD[OF inv]
  let ?db = "db(p \<mapsto> n\<lparr>ping_rpc := True, pending_node := Some q\<rparr>)"
  have none: "\<not> pends db p x" for x using D(1)[OF n(1)] n by (auto simp: pends_def)
  have new: "pends ?db r x \<longleftrightarrow> r = p \<and> x = q \<or> pends db r x" for r x
    using none by (auto simp: pends_upd)
  have fresh: "m_peerid x \<noteq> m_peerid q" if "pends db r x" for r x
    using D(2)[of "m_peerid q" x] q(2) that by auto
  show "(pend(m_peerid q \<mapsto> q)) k = Some x \<longleftrightarrow> m_peerid x = k \<and> (\<exists>r. pends ?db r x)" for k x
    using D(2)[of k x] fresh unfolding new by auto
  show "length (m_peerid x) = kad_id_len \<and> ?db (m_peerid x) = None \<and> idx (m_peerid x) = idx r"
    if "pends ?db r x" for r x
    using that D(3)[of r x] q n(1) unfolding new by auto
  show "r = r'" if "pends ?db r x" "pends ?db r' x'" "m_peerid x = m_peerid x'" for r r' x x'
    using that D(4)[of r x r' x'] fresh unfolding new by metis
qed (use kb_nodesD(1)[OF inv] n in \<open>auto split: if_splits\<close>)

lemma kb_nodes_stop:
  assumes inv: "kb_nodes idx db pend" and n: "db p = Some n" "pending_node n = Some q"
  shows "kb_nodes idx (db(p \<mapsto> n\<lparr>ping_rpc := False, pending_node := None\<rparr>)) (pend(m_peerid q := None))"
proof (rule kb_nodesI)
  note D = kb_nodesD[OF inv]
  let ?db = "db(p \<mapsto> n\<lparr>ping_rpc := False, pending_node := None\<rparr>)"
  have q: "pends db p q" using n by (simp add: pends_def)
  have old: "pends ?db r x \<longleftrightarrow> r \<noteq> p \<and> pends db r x" for r x by (auto simp: pends_upd)
  have other: "m_peerid x \<noteq> m_peerid q" if "pends db r x" "r \<noteq> p" for r x using D(4)[OF that(1) q] that(2) by blast
  show "(pend(m_peerid q := None)) k = Some x \<longleftrightarrow> m_peerid x = k \<and> (\<exists>r. pends ?db r x)" for k x
  proof (cases "k = m_peerid q")
    case True
    then show ?thesis using other unfolding old by auto
  next
    case False
    have "\<not> pends db p x" if "m_peerid x = k" using n that False by (auto simp: pends_def)
    then show ?thesis using D(2)[of k x] False unfolding old fun_upd_apply by (metis (full_types))
  qed
  show "length (m_peerid x) = kad_id_len \<and> ?db (m_peerid x) = None \<and> idx (m_peerid x) = idx r"
    if "pends ?db r x" for r x
    using that D(3)[of r x] n(1) unfolding old by auto
  show "r = r'" if "pends ?db r x" "pends ?db r' x'" "m_peerid x = m_peerid x'" for r r' x x'
    using that D(4) unfolding old by blast
qed (use kb_nodesD(1)[OF inv] n in \<open>auto split: if_splits\<close>)

lemma kb_nodes_del:
  assumes inv: "kb_nodes idx db pend" and n: "\<forall>q. \<not> pends db p q"
  shows "kb_nodes idx (db(p := None)) pend"
proof (rule kb_nodesI)
  note D = kb_nodesD[OF inv]
  have old: "pends (db(p := None)) r q \<longleftrightarrow> pends db r q" for r q using n by (auto simp: pends_upd)
  show "pend k = Some q \<longleftrightarrow> m_peerid q = k \<and> (\<exists>r. pends (db(p := None)) r q)" for k q
    unfolding old by (rule D(2))
  show "length (m_peerid q) = kad_id_len \<and> (db(p := None)) (m_peerid q) = None \<and> idx (m_peerid q) = idx r"
    if "pends (db(p := None)) r q" for r q
    using D(3)[of r q] that unfolding old by auto
  show "r = r'" if "pends (db(p := None)) r q" "pends (db(p := None)) r' q'" "m_peerid q = m_peerid q'"
    for r r' q q' using D(4) that unfolding old by blast
qed (use kb_nodesD(1)[OF inv] in \<open>auto split: if_splits\<close>)

subsection \<open>Operations keep the invariant\<close>

definition lru_set :: "nat \<Rightarrow> bytes list \<Rightarrow> kad_kbucket_t \<Rightarrow> kad_kbucket_t" where
  "lru_set x l st = bl_set x ((bucklist_db st ! x)\<lparr>bucknode_lru := l\<rparr>) st"

lemma get_bucket_idx_cong:
  "local_peerid st' = local_peerid st \<Longrightarrow> kbucket_width st' = kbucket_width st \<Longrightarrow>
   get_bucket_idx p st' = get_bucket_idx p st"
  by (simp add: get_bucket_idx_def)

lemma lru_set_simps [simp]:
  "bucknode_db (lru_set x l st) = bucknode_db st" "pending_node_db (lru_set x l st) = pending_node_db st"
  "kbucket_height (lru_set x l st) = kbucket_height st" "peerid_todelete_db (lru_set x l st) = peerid_todelete_db st"
  "get_bucket_idx p (lru_set x l st) = get_bucket_idx p st" "kb_shape (lru_set x l st) = kb_shape st"
  "kb_node p (lru_set x l st) = kb_node p st"
  by (simp_all add: lru_set_def bl_set_def kb_shape_def get_bucket_idx_def kb_node_def)

lemma kb_lru_lru_set: "x < length (bucklist_db st) \<Longrightarrow> kb_lru (lru_set x l st) = (kb_lru st)(x := l)"
  by (auto simp: kb_lru_def lru_set_def bl_set_def fun_eq_iff)

lemma kb_upd_simps [simp]:
  "get_bucket_idx p (st\<lparr>bucknode_db := d\<rparr>) = get_bucket_idx p st"
  "get_bucket_idx p (st\<lparr>pending_node_db := e\<rparr>) = get_bucket_idx p st"
  "get_bucket_idx p (st\<lparr>kb_new_nodes := a\<rparr>) = get_bucket_idx p st"
  "get_bucket_idx p (st\<lparr>peerid_todelete_db := t\<rparr>) = get_bucket_idx p st"
  "get_bucket_idx p (st\<lparr>peerid_todelete_zerotimer := z\<rparr>) = get_bucket_idx p st"
  "kb_lru (st\<lparr>bucknode_db := d\<rparr>) = kb_lru st" "kb_lru (st\<lparr>pending_node_db := e\<rparr>) = kb_lru st"
  "kb_lru (st\<lparr>kb_new_nodes := a\<rparr>) = kb_lru st" "kb_lru (st\<lparr>peerid_todelete_db := t\<rparr>) = kb_lru st"
  "kb_lru (st\<lparr>peerid_todelete_zerotimer := z\<rparr>) = kb_lru st"
  "kb_shape (st\<lparr>bucknode_db := d\<rparr>) = kb_shape st" "kb_shape (st\<lparr>pending_node_db := e\<rparr>) = kb_shape st"
  "kb_shape (st\<lparr>kb_new_nodes := a\<rparr>) = kb_shape st"
  "kb_shape (st\<lparr>peerid_todelete_zerotimer := z\<rparr>) = kb_shape st"
  by (simp_all add: get_bucket_idx_def kb_lru_def kb_shape_def fun_eq_iff)

lemma bl_at_lru:
  assumes "kb_shape st" "length p = kad_id_len"
  shows "\<exists>bl. bl_at (get_bucket_idx p st) st = Inr bl \<and> bucknode_lru bl = kb_lru st (get_bucket_idx p st) \<and>
    bl = bucklist_db st ! get_bucket_idx p st"
  using kb_bucket_idx_less[OF assms] by (simp add: bl_at_def kb_lru_def)

lemma kb_inv_node:
  assumes "kb_inv st" "bucknode_db st p = Some n"
  shows "length p = kad_id_len" "m_peerid (bn_kad_addr n) = p" "ping_rpc n = (pending_node n \<noteq> None)"
    "p \<in> set (kb_lru st (get_bucket_idx p st))" "kb_node p st = Inr n"
    "length (kb_lru st (get_bucket_idx p st)) \<le> kbucket_height st"
  using assms by (auto simp: kb_inv_def kb_nodes_def kb_lists_def kb_node_def)

lemma bl_update_ok:
  assumes "kb_inv st" "bucknode_db st p = Some n"
  defines "x \<equiv> get_bucket_idx p st"
  defines "st' \<equiv> lru_set x (filter (\<lambda>q. q \<noteq> p) (kb_lru st x) @ [p]) st"
  shows "bl_update x p st = Inr st' \<and> kb_inv st'"
proof -
  note N = kb_inv_node[OF assms(1,2)]
  have shape: "kb_shape st" using assms(1) by (simp add: kb_inv_def)
  have x: "x < length (bucklist_db st)" using kb_bucket_idx_less[OF shape N(1)] by (simp add: x_def)
  have "bl_update x p st = Inr st'"
    using x N(4,6) by (simp add: bl_update_def bl_at_def peerid_is_present_def list_ex_iff kb_lru_def x_def
        st'_def lru_set_def)
  moreover have "kb_inv st'"
    using assms(1,2) kb_lists_touch[of "\<lambda>p. get_bucket_idx p st" "kbucket_height st" "kb_lru st" "bucknode_db st" p] x
    by (auto simp: kb_inv_def st'_def kb_lru_lru_set x_def)
  ultimately show ?thesis by blast
qed

lemma kb_add_ok:
  assumes "kb_inv st" "bucknode_db st (m_peerid a) = None" "pending_node_db st (m_peerid a) = None"
    "length (m_peerid a) = kad_id_len" "length (kb_lru st (get_bucket_idx (m_peerid a) st)) < kbucket_height st"
  defines "x \<equiv> get_bucket_idx (m_peerid a) st"
  shows "\<exists>st'. res_bind (bucknode_ctor a st) (bl_insert x (m_peerid a)) = Inr st' \<and> kb_inv st' \<and>
    dom (bucknode_db st') = insert (m_peerid a) (dom (bucknode_db st)) \<and>
    peerid_todelete_db st' = peerid_todelete_db st"
proof -
  let ?n = "\<lparr>bn_kad_addr = a, ping_rpc = False, pending_node = None\<rparr>"
  let ?st1 = "st\<lparr>kb_new_nodes := kb_new_nodes st @ [a], bucknode_db := (bucknode_db st)(m_peerid a \<mapsto> ?n)\<rparr>"
  let ?st' = "lru_set x (kb_lru st x @ [m_peerid a]) ?st1"
  have shape: "kb_shape st" using assms(1) by (simp add: kb_inv_def)
  have x: "x < length (bucklist_db st)" using kb_bucket_idx_less[OF shape assms(4)] by (simp add: x_def)
  have new: "m_peerid a \<notin> set (kb_lru st x)" using assms(1,2) by (auto simp: kb_inv_def kb_lists_def)
  have c: "bucknode_ctor a st = Inr ?st1" using assms(2) by (simp add: bucknode_ctor_def)
  have "bl_insert x (m_peerid a) ?st1 = Inr ?st'"
    using x new assms(5)
    by (auto simp: bl_insert_def bl_at_def peerid_is_present_def list_ex_iff kb_lru_def x_def lru_set_def Let_def)
  moreover have "kb_lists (\<lambda>p. get_bucket_idx p st) (kbucket_height st) ((kb_lru st)(x := kb_lru st x @ [m_peerid a]))
      ((bucknode_db st)(m_peerid a \<mapsto> ?n))"
    using kb_lists_add[of "\<lambda>p. get_bucket_idx p st" "kbucket_height st" "kb_lru st" "bucknode_db st" "m_peerid a"]
      assms(1,2,5) unfolding x_def kb_inv_def by blast
  moreover have "kb_nodes (\<lambda>p. get_bucket_idx p st) ((bucknode_db st)(m_peerid a \<mapsto> ?n)) (pending_node_db st)"
    using assms(1-4) by (intro kb_nodes_add) (simp_all add: kb_inv_def)
  ultimately show ?thesis
    using c x shape by (intro exI[of _ ?st']) (auto simp: kb_inv_def kb_lru_lru_set)
qed

lemma kb_ping_start_ok:
  assumes "kb_inv st" "bucknode_db st p = Some n" "ping_rpc n = False" "bucknode_db st (m_peerid a) = None"
    "pending_node_db st (m_peerid a) = None" "length (m_peerid a) = kad_id_len"
    "get_bucket_idx (m_peerid a) st = get_bucket_idx p st"
  shows "\<exists>b st'. ping_start started a p st = Inr (b, st') \<and> kb_inv st' \<and>
    dom (bucknode_db st') = dom (bucknode_db st) \<and> peerid_todelete_db st' = peerid_todelete_db st"
proof (cases started)
  case False
  then show ?thesis using assms kb_inv_node(5)[OF assms(1,2)] by (auto simp: ping_start_def)
next
  case True
  let ?db = "(bucknode_db st)(p \<mapsto> n\<lparr>ping_rpc := True, pending_node := Some a\<rparr>)"
  let ?st = "st\<lparr>bucknode_db := ?db, pending_node_db := (pending_node_db st)(m_peerid a \<mapsto> a)\<rparr>"
  have dom: "dom ?db = dom (bucknode_db st)" using assms(2) by auto
  have "ping_start started a p st = Inr (True, ?st)"
    using True assms(3,5) kb_inv_node(5)[OF assms(1,2)] by (simp add: ping_start_def)
  moreover have "kb_nodes (\<lambda>p. get_bucket_idx p st) ?db ((pending_node_db st)(m_peerid a \<mapsto> a))"
    using assms by (intro kb_nodes_ping) (simp_all add: kb_inv_def)
  moreover have "kb_lists (\<lambda>p. get_bucket_idx p st) (kbucket_height st) (kb_lru st) ?db"
    using assms(1) by (intro kb_lists_dom[OF _ dom]) (simp add: kb_inv_def)
  ultimately show ?thesis
    using assms(1) dom by (intro exI[of _ True] exI[of _ ?st]) (simp add: kb_inv_def)
qed

lemma kb_ping_stop_ok:
  assumes "kb_inv st" "bucknode_db st p = Some n" "pending_node n = Some q"
  shows "\<exists>st'. ping_stop p st = Inr st' \<and> kb_inv st' \<and> (\<forall>x. \<not> pends (bucknode_db st') p x) \<and>
    dom (bucknode_db st') = dom (bucknode_db st) \<and> kb_lru st' = kb_lru st \<and>
    bucknode_db st' p = Some (n\<lparr>ping_rpc := False, pending_node := None\<rparr>) \<and>
    pending_node_db st' (m_peerid q) = None \<and>
    local_peerid st' = local_peerid st \<and> kbucket_width st' = kbucket_width st \<and>
    kbucket_height st' = kbucket_height st \<and> peerid_todelete_db st' = peerid_todelete_db st"
proof -
  let ?n = "n\<lparr>ping_rpc := False, pending_node := None\<rparr>"
  let ?db = "(bucknode_db st)(p \<mapsto> ?n)"
  let ?st = "st\<lparr>bucknode_db := ?db, pending_node_db := (pending_node_db st)(m_peerid q := None)\<rparr>"
  have dom: "dom ?db = dom (bucknode_db st)" using assms(2) by auto
  have "ping_stop p st = Inr ?st"
    using assms(3) kb_inv_node(3,5)[OF assms(1,2)] by (simp add: ping_stop_def)
  moreover have "kb_nodes (\<lambda>p. get_bucket_idx p st) ?db ((pending_node_db st)(m_peerid q := None))"
    using assms by (intro kb_nodes_stop) (simp_all add: kb_inv_def)
  moreover have "kb_lists (\<lambda>p. get_bucket_idx p st) (kbucket_height st) (kb_lru st) ?db"
    using assms(1) by (intro kb_lists_dom[OF _ dom]) (simp add: kb_inv_def)
  moreover have "\<not> pends ?db p x" for x by (simp add: pends_def)
  ultimately show ?thesis using assms(1) dom by (intro exI[of _ ?st]) (simp add: kb_inv_def)
qed

text \<open>Removing a node from its bucket and destroying it.\<close>

definition kb_without :: "bytes \<Rightarrow> kad_kbucket_t \<Rightarrow> kad_kbucket_t" where
  "kb_without p st = lru_set (get_bucket_idx p st) (filter (\<lambda>q. q \<noteq> p) (kb_lru st (get_bucket_idx p st))) st"

lemma bl_remove_ok:
  assumes "kb_shape st" "length p = kad_id_len" "p \<in> set (kb_lru st (get_bucket_idx p st))"
  shows "bl_remove (get_bucket_idx p st) p st = Inr (kb_without p st)"
  using kb_bucket_idx_less[OF assms(1,2)] assms(3)
  by (simp add: bl_remove_def bl_at_def peerid_is_present_def list_ex_iff kb_lru_def lru_set_def kb_without_def)

lemma kb_delete_ok:
  assumes "kb_inv st" "bucknode_db st p = Some n"
  shows "\<exists>st'. bucknode_dtor p (kb_without p st) = Inr st' \<and> kb_inv st' \<and>
    dom (bucknode_db st') = dom (bucknode_db st) - {p} \<and> peerid_todelete_db st' = peerid_todelete_db st"
proof -
  have shape: "kb_shape st" using assms(1) by (simp add: kb_inv_def)
  let ?idx = "\<lambda>p. get_bucket_idx p st"
  have x: "?idx p < length (bucklist_db st)" using kb_bucket_idx_less[OF shape kb_inv_node(1)[OF assms]] .
  have lru: "kb_lru (kb_without p st) = (kb_lru st)(?idx p := filter (\<lambda>q. q \<noteq> p) (kb_lru st (?idx p)))"
    using x by (simp add: kb_without_def kb_lru_lru_set)
  have node: "kb_node p (kb_without p st) = Inr n" using kb_inv_node(5)[OF assms] by (simp add: kb_without_def)
  have L: "kb_lists ?idx (kbucket_height st) (kb_lru (kb_without p st)) ((bucknode_db st)(p := None))"
    using assms(1) unfolding lru by (intro kb_lists_del) (simp add: kb_inv_def)
  show ?thesis
  proof (cases "pending_node n")
    case None
    let ?st = "(kb_without p st)\<lparr>bucknode_db := (bucknode_db st)(p := None)\<rparr>"
    have "bucknode_dtor p (kb_without p st) = Inr ?st"
      using node None kb_inv_node(3)[OF assms] by (simp add: bucknode_dtor_def kb_without_def)
    moreover have "kb_nodes ?idx ((bucknode_db st)(p := None)) (pending_node_db st)"
      using assms(1,2) None by (intro kb_nodes_del) (simp_all add: kb_inv_def pends_def)
    ultimately show ?thesis
      using L shape by (intro exI[of _ ?st]) (simp add: kb_inv_def, simp add: kb_without_def)
  next
    case (Some q)
    let ?db = "(bucknode_db st)(p \<mapsto> n\<lparr>ping_rpc := False, pending_node := None\<rparr>)"
    let ?st = "(kb_without p st)\<lparr>pending_node_db := (pending_node_db st)(m_peerid q := None),
      bucknode_db := (bucknode_db st)(p := None)\<rparr>"
    have "bucknode_dtor p (kb_without p st) = Inr ?st"
      using node Some kb_inv_node(3)[OF assms] by (simp add: bucknode_dtor_def ping_stop_def kb_without_def)
    moreover have "kb_nodes ?idx ?db ((pending_node_db st)(m_peerid q := None))"
      using assms Some by (intro kb_nodes_stop) (simp_all add: kb_inv_def)
    then have "kb_nodes ?idx (?db(p := None)) ((pending_node_db st)(m_peerid q := None))"
      by (intro kb_nodes_del) (simp_all add: pends_def)
    ultimately show ?thesis
      using L shape by (intro exI[of _ ?st]) (simp add: kb_inv_def, simp add: kb_without_def)
  qed
qed

text \<open>A node that does not answer is replaced by the pending one.\<close>

lemma kb_replace_ok:
  assumes "kb_inv st" "bucknode_db st p = Some n" "pending_node n = Some q"
  shows "\<exists>st'. ping_rpc_cb True p st = Inr st' \<and> kb_inv st' \<and>
    dom (bucknode_db st') = insert (m_peerid q) (dom (bucknode_db st) - {p}) \<and>
    peerid_todelete_db st' = peerid_todelete_db st"
proof -
  let ?idx = "\<lambda>p. get_bucket_idx p st" let ?x = "?idx p" let ?k = "m_peerid q"
  let ?new = "\<lparr>bn_kad_addr = q, ping_rpc = False, pending_node = None\<rparr>"
  let ?db = "(bucknode_db st)(p := None)" let ?l = "filter (\<lambda>r. r \<noteq> p) (kb_lru st ?x)"
  have shape: "kb_shape st" using assms(1) by (simp add: kb_inv_def)
  note N = kb_inv_node[OF assms(1,2)]
  have pq: "pends (bucknode_db st) p q" using assms by (simp add: pends_def)
  have q: "length ?k = kad_id_len" "bucknode_db st ?k = None" "?idx ?k = ?x"
    using assms(1) kb_nodesD(3)[OF _ pq] unfolding kb_inv_def by blast+
  have ne: "p \<noteq> ?k" using q(2) assms(2) by auto
  have x: "?x < length (bucklist_db st)" using kb_bucket_idx_less[OF shape N(1)] .
  have notin: "?k \<notin> set (kb_lru st ?x)" using assms(1) q(2) by (auto simp: kb_inv_def kb_lists_def)
  have len: "length ?l < length (kb_lru st ?x)" using N(4) by (intro length_filter_less) auto
  let ?st1 = "st\<lparr>kb_new_nodes := kb_new_nodes st @ [q], bucknode_db := (bucknode_db st)(?k \<mapsto> ?new)\<rparr>"
  let ?st2 = "kb_without p ?st1" let ?st3 = "lru_set ?x (?l @ [?k]) ?st2"
  let ?st4 = "?st3\<lparr>pending_node_db := (pending_node_db st)(?k := None), bucknode_db := ?db(?k \<mapsto> ?new)\<rparr>"
  have lru2: "kb_lru ?st2 = (kb_lru st)(?x := ?l)" using x by (simp add: kb_without_def kb_lru_lru_set)
  have x2: "?x < length (bucklist_db ?st2)" using x by (simp add: kb_without_def lru_set_def bl_set_def)
  have "bl_remove ?x p ?st1 = Inr ?st2"
    using bl_remove_ok[of ?st1 p] shape N(1,4) by simp
  moreover have "bl_insert ?x ?k ?st2 = Inr ?st3"
  proof -
    have "bucknode_lru (bucklist_db ?st2 ! ?x) = ?l" using lru2 x2 by (metis fun_upd_same kb_lru_def)
    moreover have "Suc (length ?l) \<le> kbucket_height st" using len N(6) by linarith
    ultimately show ?thesis
      using x2 notin q(3) by (simp add: bl_insert_def bl_at_def peerid_is_present_def list_ex_iff Let_def lru_set_def)
        (simp add: kb_without_def)
  qed
  moreover have "bucknode_dtor p ?st3 = Inr ?st4"
  proof -
    have "kb_node p ?st3 = Inr n" using N(5) ne by (simp add: kb_without_def kb_node_def)
    then show ?thesis
      using ne assms(3) N(3) by (simp add: bucknode_dtor_def ping_stop_def kb_without_def fun_upd_twist)
  qed
  ultimately have "ping_rpc_cb True p st = Inr ?st4"
    using N(5) assms(3) q(2) by (simp add: ping_rpc_cb_def bucknode_ctor_def Let_def)
  moreover have "kb_inv ?st4"
  proof -
    have "kb_lists ?idx (kbucket_height st) ((kb_lru st)(?x := ?l)) ?db"
      using assms(1) kb_lists_del[of ?idx] by (simp add: kb_inv_def)
    from kb_lists_add[OF this, of ?k ?new] have
      "kb_lists ?idx (kbucket_height st) ((kb_lru st)(?x := ?l @ [?k])) (?db(?k \<mapsto> ?new))"
      using q ne len N(6) by simp
    moreover have "kb_nodes ?idx ((bucknode_db st)(p \<mapsto> n\<lparr>ping_rpc := False, pending_node := None\<rparr>))
        ((pending_node_db st)(?k := None))"
      using assms by (intro kb_nodes_stop) (simp_all add: kb_inv_def)
    from kb_nodes_del[OF this, of p] have "kb_nodes ?idx ?db ((pending_node_db st)(?k := None))"
      by (simp add: pends_def)
    then have "kb_nodes ?idx (?db(?k \<mapsto> ?new)) ((pending_node_db st)(?k := None))"
      using q ne by (intro kb_nodes_add) simp_all
    moreover have "kb_lru ?st3 = (kb_lru st)(?x := ?l @ [?k])" using x2 lru2 by (simp add: kb_lru_lru_set)
    ultimately show ?thesis using shape by (simp add: kb_inv_def) (simp add: kb_without_def)
  qed
  ultimately show ?thesis
    using ne by (intro exI[of _ ?st4]) (auto simp: kb_without_def)
qed

lemma kb_completed_ok:
  assumes "kb_inv st" "bucknode_db st p = Some n" "pending_node n = Some q"
  shows "\<exists>st'. ping_rpc_cb False p st = Inr st' \<and> kb_inv st' \<and>
    dom (bucknode_db st') = dom (bucknode_db st) \<and> peerid_todelete_db st' = peerid_todelete_db st"
proof -
  obtain st1 where st1: "bl_update (get_bucket_idx p st) p st = Inr st1" "kb_inv st1" "bucknode_db st1 = bucknode_db st"
    "peerid_todelete_db st1 = peerid_todelete_db st"
    using bl_update_ok[OF assms(1,2)] by fastforce
  then show ?thesis using kb_ping_stop_ok[OF st1(2), of p n q] assms by (auto simp: ping_rpc_cb_def)
qed

text \<open>A node that is seen.\<close>

lemma first_notpinging_spec:
  assumes "\<forall>p\<in>set ps. p \<in> dom (bucknode_db st)"
  shows "first_notpinging st ps = Inr None \<or>
    (\<exists>p n. p \<in> set ps \<and> first_notpinging st ps = Inr (Some p) \<and> bucknode_db st p = Some n \<and> \<not> ping_rpc n)"
  using assms by (induction ps) (auto simp: kb_node_def split: if_splits)

lemma kb_srckaddr_ok:
  assumes "kb_inv st" "kad_addr_is_fully_qualified a = Inr True" "length (m_peerid a) = kad_id_len"
  shows "\<exists>st'. notify_srckaddr started a st = Inr st' \<and> kb_inv st' \<and>
    dom (bucknode_db st) \<subseteq> dom (bucknode_db st') \<and> peerid_todelete_db st' = peerid_todelete_db st"
proof -
  let ?p = "m_peerid a" let ?x = "get_bucket_idx ?p st"
  have shape: "kb_shape st" using assms(1) by (simp add: kb_inv_def)
  obtain bl where bl: "bl_at ?x st = Inr bl" "bucknode_lru bl = kb_lru st ?x" using bl_at_lru[OF shape assms(3)] by blast
  show ?thesis
  proof (cases "pending_node_db st ?p")
    case (Some q)
    then show ?thesis using assms by (simp add: notify_srckaddr_def is_pending_node_def)
  next
    case nopend: None
    show ?thesis
    proof (cases "bucknode_db st ?p")
      case (Some n)
      then show ?thesis
        using bl_update_ok[OF assms(1) Some] assms(2) nopend
        by (auto simp: notify_srckaddr_def is_pending_node_def get_bucknode_def)
    next
      case None
      note run = notify_srckaddr_def is_pending_node_def get_bucknode_def
      show ?thesis
      proof (cases "length (kb_lru st ?x) < kbucket_height st")
        case True
        then show ?thesis
          using kb_add_ok[OF assms(1) None nopend assms(3)] assms(2) nopend None bl by (auto simp: run)
      next
        case False
        have lru: "\<forall>p\<in>set (kb_lru st ?x). p \<in> dom (bucknode_db st) \<and> get_bucket_idx p st = ?x"
          using assms(1) by (simp add: kb_inv_def kb_lists_def)
        have r: "notify_srckaddr started a st = res_bind (first_notpinging st (kb_lru st ?x)) (\<lambda>b.
            case b of None \<Rightarrow> Inr st | Some p \<Rightarrow> res_bind (ping_start started a p st) (\<lambda>(b, st). Inr st))"
          using False assms(2) nopend None bl by (simp add: run get_first_notpinging_def)
        consider "first_notpinging st (kb_lru st ?x) = Inr None" | p n where "p \<in> set (kb_lru st ?x)"
          "first_notpinging st (kb_lru st ?x) = Inr (Some p)" "bucknode_db st p = Some n" "\<not> ping_rpc n"
          using first_notpinging_spec[of "kb_lru st ?x" st] lru by blast
        then show ?thesis
        proof cases
          case 1
          then show ?thesis using r assms(1) by simp
        next
          case 2
          then show ?thesis
            using kb_ping_start_ok[OF assms(1) 2(3) _ None nopend assms(3), of started] lru r by fastforce
        qed
      qed
    qed
  qed
qed

end
