(* ===== verification/KadRec.thy ===== *)
theory KadRec
  imports KadAddr Delay
begin

text \<open>
  Records of the distributed hash table (\<open>neoip_kad/base/record\<close>): \<open>kad_rec_t\<close> is a key with a payload, a
  record identifier and a time to live; \<open>kad_recdups_t\<close> is the set of the records of one key, without two records of the
  same identifier, that travels in the store and find packets.  The random numbers of \<open>randomize_order\<close> are an
  argument; printing and xmlrpc are not modelled.
\<close>

subsection \<open>Records\<close>

record kad_rec_t =
  kr_recid :: bytes
  kr_keyid :: bytes
  kr_payload :: datum_t
  kr_ttl :: delay_t

definition is_tie_winner_against :: "kad_rec_t \<Rightarrow> kad_rec_t \<Rightarrow> bool res" where
  "is_tie_winner_against r other =
     dbg_assert (gen_id_compare (kr_recid r) (kr_recid other) = 0)
       (if delay_compare (kr_ttl r) (kr_ttl other) < 0 then Inr False else Inr True)"

definition put_kad_rec :: "kad_rec_t \<Rightarrow> bytes" where
  "put_kad_rec r = put_gen_id (kr_recid r) @ put_gen_id (kr_keyid r) @ put_datum (kr_payload r) @ put_delay (kr_ttl r)"

definition get_kad_rec :: "kad_rec_t reader" where
  "get_kad_rec bs =
     res_bind (get_gen_id kad_id_len bs) (\<lambda>(recid, bs).
     res_bind (get_gen_id kad_id_len bs) (\<lambda>(keyid, bs).
     res_bind (get_datum bs) (\<lambda>(payload, bs).
     res_bind (get_delay bs) (\<lambda>(ttl, bs).
       Inr (\<lparr>kr_recid = recid, kr_keyid = keyid, kr_payload = payload, kr_ttl = ttl\<rparr>, bs)))))"

subsection \<open>Records of one key\<close>

record recval_t =
  rv_recid :: bytes
  rv_payload :: datum_t
  rv_ttl :: delay_t

record kad_recdups_t =
  rd_keyid :: bytes
  recval_db :: "recval_t list"

definition recval_ctor :: "kad_rec_t \<Rightarrow> recval_t" where
  "recval_ctor r = \<lparr>rv_recid = kr_recid r, rv_payload = kr_payload r, rv_ttl = kr_ttl r\<rparr>"

definition kad_recdups_ctor :: kad_recdups_t where
  "kad_recdups_ctor = \<lparr>rd_keyid = gen_id_ctor kad_id_len, recval_db = []\<rparr>"

definition rec_of_recval :: "bytes \<Rightarrow> recval_t \<Rightarrow> kad_rec_t" where
  "rec_of_recval keyid v =
     \<lparr>kr_recid = rv_recid v, kr_keyid = keyid, kr_payload = rv_payload v, kr_ttl = rv_ttl v\<rparr>"

text \<open>The position of a record identifier, or the number of records for the end of the array.\<close>

fun get_by_recid :: "bytes \<Rightarrow> recval_t list \<Rightarrow> nat" where
  "get_by_recid recid [] = 0"
| "get_by_recid recid (v # vs) = (if gen_id_compare (rv_recid v) recid = 0 then 0 else Suc (get_by_recid recid vs))"

definition recdups_insert :: "kad_rec_t \<Rightarrow> kad_recdups_t \<Rightarrow> kad_recdups_t res" where
  "recdups_insert r d =
     (let d = (if gen_id_is_null (rd_keyid d) then d\<lparr>rd_keyid := kr_keyid r\<rparr> else d) in
      dbg_assert (gen_id_compare (rd_keyid d) (kr_keyid r) = 0)
        (Inr (d\<lparr>recval_db := recval_db d @ [recval_ctor r]\<rparr>)))"

definition recdups_update :: "kad_rec_t \<Rightarrow> kad_recdups_t \<Rightarrow> kad_recdups_t res" where
  "recdups_update r d =
     (let i = get_by_recid (kr_recid r) (recval_db d) in
      if i < length (recval_db d)
      then res_bind (is_tie_winner_against (rec_of_recval (rd_keyid d) (recval_db d ! i)) r) (\<lambda>wins.
             if wins then Inr d
             else recdups_insert r (d\<lparr>recval_db := take i (recval_db d) @ drop (Suc i) (recval_db d)\<rparr>))
      else recdups_insert r d)"

definition recdups_at :: "kad_recdups_t \<Rightarrow> nat \<Rightarrow> kad_rec_t res" where
  "recdups_at d i =
     dbg_assert (i < length (recval_db d)) (Inr (rec_of_recval (rd_keyid d) (recval_db d ! i)))"

fun recdups_update_loop :: "kad_recdups_t \<Rightarrow> nat list \<Rightarrow> kad_recdups_t \<Rightarrow> kad_recdups_t res" where
  "recdups_update_loop other [] d = Inr d"
| "recdups_update_loop other (i # is) d =
     res_bind (recdups_at other i) (\<lambda>r. res_bind (recdups_update r d) (recdups_update_loop other is))"

definition recdups_update_all :: "kad_recdups_t \<Rightarrow> kad_recdups_t \<Rightarrow> kad_recdups_t res" where
  "recdups_update_all other d = recdups_update_loop other [0..<length (recval_db other)] d"

text \<open>\<open>std::sort\<close> by the record identifiers, which are distinct.\<close>

fun insert_by_recid :: "recval_t \<Rightarrow> recval_t list \<Rightarrow> recval_t list" where
  "insert_by_recid v [] = [v]"
| "insert_by_recid v (w # ws) =
     (if gen_id_compare (rv_recid w) (rv_recid v) < 0 then w # insert_by_recid v ws else v # w # ws)"

definition sort_by_recid :: "kad_recdups_t \<Rightarrow> kad_recdups_t" where
  "sort_by_recid d = d\<lparr>recval_db := foldr insert_by_recid (recval_db d) []\<rparr>"

text \<open>\<open>pop_back\<close> of an empty vector is undefined.\<close>

fun pop_back_n :: "nat \<Rightarrow> 'a list \<Rightarrow> 'a list res" where
  "pop_back_n 0 xs = Inr xs"
| "pop_back_n (Suc n) xs = (if xs = [] then Inl Out_of_bounds else pop_back_n n (butlast xs))"

definition truncate_at_tail :: "nat \<Rightarrow> kad_recdups_t \<Rightarrow> kad_recdups_t res" where
  "truncate_at_tail nb_rec_to_del d =
     res_bind (pop_back_n nb_rec_to_del (recval_db d)) (\<lambda>db. Inr (d\<lparr>recval_db := db\<rparr>))"

text \<open>The draws are pairs of random indices below the number of records.\<close>

fun randomize_loop :: "(nat \<times> nat) list \<Rightarrow> recval_t list \<Rightarrow> recval_t list res" where
  "randomize_loop [] vs = Inr vs"
| "randomize_loop ((i, j) # draws) vs =
     (if i < length vs \<and> j < length vs then randomize_loop draws (vs[i := vs ! j, j := vs ! i]) else Inl Out_of_bounds)"

definition randomize_order :: "(nat \<Rightarrow> nat \<times> nat) \<Rightarrow> kad_recdups_t \<Rightarrow> kad_recdups_t res" where
  "randomize_order rand d =
     res_bind (randomize_loop (map rand [0..<length (recval_db d)]) (recval_db d)) (\<lambda>vs. Inr (d\<lparr>recval_db := vs\<rparr>))"

subsection \<open>Serialized length\<close>

definition get_serial_hd_main :: nat where
  "get_serial_hd_main = length (put_uint32 0 @ put_gen_id (gen_id_ctor kad_id_len))"

definition get_serial_hd_per_rec :: nat where
  "get_serial_hd_per_rec =
     length (put_gen_id (gen_id_ctor kad_id_len) @ put_datum \<lparr>datum_flag = FLAG_DFL, datum_data = []\<rparr> @ put_delay NONE_VAL)"

fun count_rec_in_size :: "nat \<Rightarrow> nat \<Rightarrow> recval_t list \<Rightarrow> nat" where
  "count_rec_in_size max_len cur_len [] = 0"
| "count_rec_in_size max_len cur_len (v # vs) =
     (let rec_len = get_serial_hd_per_rec + datum_length (rv_payload v) in
      if max_len \<noteq> 0 \<and> cur_len + rec_len > max_len then 0
      else Suc (count_rec_in_size max_len (cur_len + rec_len) vs))"

definition nb_serialized_rec_in_size :: "nat \<Rightarrow> kad_recdups_t \<Rightarrow> nat res" where
  "nb_serialized_rec_in_size max_len d =
     dbg_assert (max_len = 0 \<or> get_serial_hd_main \<le> max_len)
       (Inr (count_rec_in_size max_len get_serial_hd_main (recval_db d)))"

definition truncate_to_serial_len :: "nat \<Rightarrow> kad_recdups_t \<Rightarrow> (nat \<times> kad_recdups_t) res" where
  "truncate_to_serial_len max_len d =
     dbg_assert (max_len = 0 \<or> get_serial_hd_main \<le> max_len)
       (let nb_rec = count_rec_in_size max_len get_serial_hd_main (recval_db d);
            nb_to_remove = length (recval_db d) - nb_rec
        in res_bind (pop_back_n nb_to_remove (recval_db d)) (\<lambda>db. Inr (nb_to_remove, d\<lparr>recval_db := db\<rparr>)))"

subsection \<open>Wire format\<close>

definition put_recval :: "recval_t \<Rightarrow> bytes" where
  "put_recval v = put_gen_id (rv_recid v) @ put_datum (rv_payload v) @ put_delay (rv_ttl v)"

definition put_kad_recdups :: "kad_recdups_t \<Rightarrow> bytes" where
  "put_kad_recdups d =
     put_uint32 (word_of_nat (length (recval_db d))) @ put_gen_id (rd_keyid d) @ concat (map put_recval (recval_db d))"

fun get_recvals :: "nat \<Rightarrow> bytes \<Rightarrow> kad_recdups_t \<Rightarrow> kad_recdups_t reader" where
  "get_recvals 0 keyid d bs = Inr (d, bs)"
| "get_recvals (Suc n) keyid d bs =
     res_bind (get_gen_id kad_id_len bs) (\<lambda>(recid, bs).
     res_bind (get_datum bs) (\<lambda>(rec_payload, bs).
     res_bind (get_delay bs) (\<lambda>(rec_ttl, bs).
     res_bind (recdups_update
         \<lparr>kr_recid = recid, kr_keyid = keyid, kr_payload = rec_payload, kr_ttl = rec_ttl\<rparr> d) (\<lambda>d.
       get_recvals n keyid d bs))))"

definition get_kad_recdups :: "kad_recdups_t reader" where
  "get_kad_recdups bs =
     res_bind (get_uint32 bs) (\<lambda>(nb_rec, bs).
       if nb_rec = 0 then Inr (kad_recdups_ctor, bs)
       else res_bind (get_gen_id kad_id_len bs) (\<lambda>(keyid, bs). get_recvals (unat nb_rec) keyid kad_recdups_ctor bs))"

subsection \<open>Lemmas\<close>

lemma gen_id_compare_eq_0: "length a = length b \<Longrightarrow> gen_id_compare a b = 0 \<longleftrightarrow> a = b"
  using gen_id_val_inject[of a b] by (auto simp: gen_id_compare_val)

lemma delay_compare_less [simp]: "delay_compare a b < 0 \<longleftrightarrow> a < b"
  by (simp add: delay_compare_def)

interpretation delay_codec: serial_codec put_delay get_delay "\<lambda>_. True"
  by unfold_locales (simp_all add: put_delay_def get_delay_def uint64_codec.get_put uint64_codec.get_prefix)

abbreviation payload_ok :: "datum_t \<Rightarrow> bool" where
  "payload_ok d \<equiv> datum_length d < 2 ^ 32 \<and> datum_flag d = FLAG_DFL"

definition kad_rec_ok :: "kad_rec_t \<Rightarrow> bool" where
  "kad_rec_ok r \<longleftrightarrow> length (kr_recid r) = kad_id_len \<and> length (kr_keyid r) = kad_id_len \<and> payload_ok (kr_payload r)"

interpretation kad_rec_codec: serial_codec put_kad_rec get_kad_rec kad_rec_ok
proof unfold_locales
  fix r rest
  assume "kad_rec_ok r"
  then show "get_kad_rec (put_kad_rec r @ rest) = Inr (r, rest)"
    by (simp add: kad_rec_ok_def get_kad_rec_def put_kad_rec_def gen_id_codec.get_put datum_codec.get_put
        delay_codec.get_put)
next
  fix bs r rest
  assume "get_kad_rec bs = Inr (r, rest)"
  then obtain recid bs1 keyid bs2 payload bs3 ttl where
    "get_gen_id kad_id_len bs = Inr (recid, bs1)" "get_gen_id kad_id_len bs1 = Inr (keyid, bs2)"
    "get_datum bs2 = Inr (payload, bs3)" "get_delay bs3 = Inr (ttl, rest)"
    by (auto simp: get_kad_rec_def res_bind_eq_Inr_iff)
  then show "\<exists>p. bs = p @ rest"
    using gen_id_codec.get_prefix datum_codec.get_prefix delay_codec.get_prefix by (metis append_assoc)
qed

text \<open>A sane set of records: identifiers of the right length, none twice.\<close>

definition recdups_inv :: "kad_recdups_t \<Rightarrow> bool" where
  "recdups_inv d \<longleftrightarrow> length (rd_keyid d) = kad_id_len \<and>
     (\<forall>v\<in>set (recval_db d). length (rv_recid v) = kad_id_len) \<and> distinct (map rv_recid (recval_db d))"

definition recdups_map :: "kad_recdups_t \<Rightarrow> bytes \<rightharpoonup> recval_t" where
  "recdups_map d = map_of (map (\<lambda>v. (rv_recid v, v)) (recval_db d))"

lemma recdups_inv_ctor [simp]: "recdups_inv kad_recdups_ctor"
  by (simp add: recdups_inv_def kad_recdups_ctor_def gen_id_ctor_def)

lemma get_by_recid_spec:
  assumes "\<forall>v\<in>set vs. length (rv_recid v) = kad_id_len" "length recid = kad_id_len"
  shows "get_by_recid recid vs \<le> length vs"
    "get_by_recid recid vs < length vs \<Longrightarrow> rv_recid (vs ! get_by_recid recid vs) = recid"
    "get_by_recid recid vs = length vs \<Longrightarrow> recid \<notin> rv_recid ` set vs"
  using assms by (induction vs) (auto simp: gen_id_compare_eq_0 split: if_splits)

lemma recdups_map_Some:
  assumes "recdups_inv d"
  shows "recdups_map d k = Some v \<longleftrightarrow> v \<in> set (recval_db d) \<and> rv_recid v = k"
proof -
  have "distinct (map fst (map (\<lambda>v. (rv_recid v, v)) (recval_db d)))"
    using assms by (simp add: recdups_inv_def comp_def)
  then show ?thesis by (auto simp: recdups_map_def map_of_eq_Some_iff)
qed

lemma recdups_insert_ok:
  assumes "recdups_inv d" "length (kr_recid r) = kad_id_len" "length (kr_keyid r) = kad_id_len"
    "kr_recid r \<notin> rv_recid ` set (recval_db d)" "gen_id_is_null (rd_keyid d) \<or> rd_keyid d = kr_keyid r"
  shows "\<exists>d'. recdups_insert r d = Inr d' \<and> recdups_inv d' \<and> rd_keyid d' = kr_keyid r \<and>
    recval_db d' = recval_db d @ [recval_ctor r]"
  using assms by (auto simp: recdups_insert_def Let_def gen_id_compare_eq_0 recdups_inv_def recval_ctor_def)

lemma set_remove_nth:
  assumes "i < length xs" "distinct (map f xs)"
  shows "set (take i xs @ drop (Suc i) xs) = set xs - {xs ! i}" "f (xs ! i) \<notin> f ` set (take i xs @ drop (Suc i) xs)"
    "distinct (map f (take i xs @ drop (Suc i) xs))"
proof -
  have xs: "xs = take i xs @ xs ! i # drop (Suc i) xs" using assms(1) by (rule id_take_nth_drop)
  have d: "distinct (map f (take i xs @ xs ! i # drop (Suc i) xs))" using assms(2) xs by simp
  show "f (xs ! i) \<notin> f ` set (take i xs @ drop (Suc i) xs)" "distinct (map f (take i xs @ drop (Suc i) xs))"
    using d by auto
  have "set xs = insert (xs ! i) (set (take i xs @ drop (Suc i) xs))" using xs by (metis Un_insert_right list.simps(15) set_append)
  moreover have "xs ! i \<notin> set (take i xs @ drop (Suc i) xs)" using d by auto
  ultimately show "set (take i xs @ drop (Suc i) xs) = set xs - {xs ! i}" by auto
qed

lemma map_upd_eqI:
  assumes "\<And>k w. f k = Some w \<longleftrightarrow> g k = Some w \<and> k \<noteq> a"
  shows "f(a \<mapsto> x) = g(a \<mapsto> x)"
proof
  fix k
  have "f k = g k" if "k \<noteq> a"
  proof (cases "g k")
    case None
    then have "f k \<noteq> Some w" for w using assms[of k w] by simp
    then show ?thesis using None by (cases "f k") auto
  next
    case (Some w)
    then show ?thesis using assms[of k w] that by simp
  qed
  then show "(f(a \<mapsto> x)) k = (g(a \<mapsto> x)) k" by simp
qed

text \<open>An update keeps, for each record identifier, the record with the longest time to live, the older one of
  equals.\<close>

lemma recdups_update_ok:
  assumes inv: "recdups_inv d" and len: "length (kr_recid r) = kad_id_len" "length (kr_keyid r) = kad_id_len"
    and key: "gen_id_is_null (rd_keyid d) \<or> rd_keyid d = kr_keyid r"
  shows "\<exists>d'. recdups_update r d = Inr d' \<and> recdups_inv d' \<and>
    recdups_map d' = (case recdups_map d (kr_recid r) of
       None \<Rightarrow> (recdups_map d)(kr_recid r \<mapsto> recval_ctor r)
     | Some v \<Rightarrow> if rv_ttl v < kr_ttl r then (recdups_map d)(kr_recid r \<mapsto> recval_ctor r) else recdups_map d) \<and>
    (rd_keyid d' = kr_keyid r \<or> d' = d)"
proof -
  let ?vs = "recval_db d" let ?i = "get_by_recid (kr_recid r) ?vs"
  have vs: "\<forall>v\<in>set ?vs. length (rv_recid v) = kad_id_len" "distinct (map rv_recid ?vs)" using inv by (auto simp: recdups_inv_def)
  note G = get_by_recid_spec[OF vs(1) len(1)]
  have upd: "recdups_map d' = (recdups_map e)(kr_recid r \<mapsto> recval_ctor r)"
    if "recdups_inv d'" "recdups_inv e" "recval_db d' = recval_db e @ [recval_ctor r]" for d' e
  proof
    fix k
    have "recdups_map d' k = Some v \<longleftrightarrow> ((recdups_map e)(kr_recid r \<mapsto> recval_ctor r)) k = Some v" for v
      using that recdups_map_Some[OF that(1), of k v] recdups_map_Some[OF that(2), of k v]
      by (auto simp: recdups_inv_def recval_ctor_def image_iff)
    then show "recdups_map d' k = ((recdups_map e)(kr_recid r \<mapsto> recval_ctor r)) k" by (metis not_Some_eq)
  qed
  show ?thesis
  proof (cases "?i < length ?vs")
    case False
    then have i: "?i = length ?vs" using G(1) by simp
    obtain d' where d': "recdups_insert r d = Inr d'" "recdups_inv d'" "rd_keyid d' = kr_keyid r"
      "recval_db d' = ?vs @ [recval_ctor r]"
      using recdups_insert_ok[OF inv len G(3)[OF i] key] by blast
    moreover have "recdups_map d (kr_recid r) = None"
      using G(3)[OF i] recdups_map_Some[OF inv] by (metis image_eqI not_None_eq)
    ultimately show ?thesis using i upd[OF d'(2) inv d'(4)] by (intro exI[of _ d']) (simp add: recdups_update_def)
  next
    case True
    let ?v = "?vs ! ?i" let ?e = "d\<lparr>recval_db := take ?i ?vs @ drop (Suc ?i) ?vs\<rparr>"
    have v: "rv_recid ?v = kr_recid r" "recdups_map d (kr_recid r) = Some ?v"
      using G(2)[OF True] recdups_map_Some[OF inv] True by auto
    have tie: "is_tie_winner_against (rec_of_recval (rd_keyid d) ?v) r = Inr (\<not> rv_ttl ?v < kr_ttl r)"
      using v(1) by (simp add: is_tie_winner_against_def rec_of_recval_def gen_id_compare_eq_0)
    show ?thesis
    proof (cases "rv_ttl ?v < kr_ttl r")
      case False
      then show ?thesis using True tie v(2) inv by (intro exI[of _ d]) (simp add: recdups_update_def)
    next
      case less: True
      note R = set_remove_nth[OF True vs(2)]
      have e: "recdups_inv ?e" using inv R(3) by (auto simp: recdups_inv_def dest: in_set_takeD in_set_dropD)
      have "kr_recid r \<notin> rv_recid ` set (recval_db ?e)" using R(2) v(1) by simp
      then obtain d' where d': "recdups_insert r ?e = Inr d'" "recdups_inv d'" "rd_keyid d' = kr_keyid r"
        "recval_db d' = recval_db ?e @ [recval_ctor r]"
        using recdups_insert_ok[OF e len] key by auto
      have "recdups_map ?e k = Some w \<longleftrightarrow> recdups_map d k = Some w \<and> k \<noteq> kr_recid r" for k w
      proof -
        have same: "w = ?v" if "w \<in> set ?vs" "rv_recid w = kr_recid r"
        proof (rule inj_onD[of rv_recid "set ?vs"])
          show "inj_on rv_recid (set ?vs)" using vs(2) by (simp add: distinct_map)
        qed (use that v(1) nth_mem[OF True] in auto)
        have "w \<in> set (recval_db ?e) \<longleftrightarrow> w \<in> set ?vs \<and> w \<noteq> ?v" using R(1) by simp
        then have "w \<in> set (recval_db ?e) \<longleftrightarrow> w \<in> set ?vs \<and> rv_recid w \<noteq> kr_recid r" using same v(1) by blast
        then show ?thesis unfolding recdups_map_Some[OF e] recdups_map_Some[OF inv] by blast
      qed
      then have "(recdups_map ?e)(kr_recid r \<mapsto> recval_ctor r) = (recdups_map d)(kr_recid r \<mapsto> recval_ctor r)"
        by (intro map_upd_eqI) blast
      then show ?thesis
        using True tie less v(2) d' upd[OF d'(2) e d'(4)] by (intro exI[of _ d']) (simp add: recdups_update_def)
    qed
  qed
qed

text \<open>The loops on the array.\<close>

lemma pop_back_n_spec: "pop_back_n n xs = (if n \<le> length xs then Inr (take (length xs - n) xs) else Inl Out_of_bounds)"
proof (induction n arbitrary: xs)
  case (Suc n)
  then show ?case
    by (cases xs rule: rev_cases) (auto simp: Suc_diff_le)
qed simp

lemma set_insert_by_recid [simp]: "set (insert_by_recid v vs) = insert v (set vs)"
  by (induction v vs rule: insert_by_recid.induct) auto

lemma mset_insert_by_recid: "mset (insert_by_recid v vs) = add_mset v (mset vs)"
  by (induction v vs rule: insert_by_recid.induct) auto

lemma mset_sort_by_recid: "mset (recval_db (sort_by_recid d)) = mset (recval_db d)"
proof -
  have "mset (foldr insert_by_recid vs []) = mset vs" for vs by (induction vs) (simp_all add: mset_insert_by_recid)
  then show ?thesis by (simp add: sort_by_recid_def)
qed

lemma sorted_insert_by_recid:
  "\<forall>w\<in>set (v # vs). length (rv_recid w) = kad_id_len \<Longrightarrow> sorted (map (\<lambda>w. gen_id_val (rv_recid w)) vs) \<Longrightarrow>
   sorted (map (\<lambda>w. gen_id_val (rv_recid w)) (insert_by_recid v vs))"
  by (induction vs) (auto simp: gen_id_compare_val)

lemma sorted_sort_by_recid:
  assumes "recdups_inv d"
  shows "sorted (map (\<lambda>w. gen_id_val (rv_recid w)) (recval_db (sort_by_recid d)))"
proof -
  have set: "set (foldr insert_by_recid vs []) = set vs" for vs by (induction vs) simp_all
  have "sorted (map (\<lambda>w. gen_id_val (rv_recid w)) (foldr insert_by_recid vs []))"
    if "\<forall>w\<in>set vs. length (rv_recid w) = kad_id_len" for vs
    using that by (induction vs) (auto intro!: sorted_insert_by_recid simp: set)
  then show ?thesis using assms by (simp add: sort_by_recid_def recdups_inv_def)
qed

text \<open>The serialized length, and the number of records that fit.\<close>

lemma length_put_recval:
  "length (rv_recid v) = kad_id_len \<Longrightarrow> length (put_recval v) = get_serial_hd_per_rec + datum_length (rv_payload v)"
  by (simp add: put_recval_def get_serial_hd_per_rec_def put_gen_id_def put_datum_def put_delay_def gen_id_ctor_def
      datum_length_def)

lemma length_put_kad_recdups:
  assumes "recdups_inv d"
  shows "length (put_kad_recdups d) =
    get_serial_hd_main + (\<Sum>v\<leftarrow>recval_db d. get_serial_hd_per_rec + datum_length (rv_payload v))"
proof -
  have len: "sum_list (map (length \<circ> put_recval) (recval_db d)) =
      (\<Sum>v\<leftarrow>recval_db d. get_serial_hd_per_rec + datum_length (rv_payload v))"
    using assms by (intro arg_cong[where f = sum_list] map_cong) (auto simp: recdups_inv_def length_put_recval)
  show ?thesis
    using assms len by (simp add: put_kad_recdups_def get_serial_hd_main_def put_gen_id_def recdups_inv_def gen_id_ctor_def
        length_concat)
qed

lemma count_rec_in_size_spec:
  defines "len \<equiv> \<lambda>v. get_serial_hd_per_rec + datum_length (rv_payload v)"
  shows "cur \<le> mx \<Longrightarrow> mx \<noteq> 0 \<Longrightarrow> n \<le> length vs \<Longrightarrow> cur + (\<Sum>v\<leftarrow>take n vs. len v) \<le> mx \<longleftrightarrow> n \<le> count_rec_in_size mx cur vs"
    "count_rec_in_size mx cur vs \<le> length vs" "mx = 0 \<Longrightarrow> count_rec_in_size mx cur vs = length vs"
proof -
  show "cur + (\<Sum>v\<leftarrow>take n vs. len v) \<le> mx \<longleftrightarrow> n \<le> count_rec_in_size mx cur vs" if "cur \<le> mx" "mx \<noteq> 0" "n \<le> length vs"
    using that
  proof (induction mx cur vs arbitrary: n rule: count_rec_in_size.induct)
    case (2 mx cur v vs)
    show ?case
    proof (cases n)
      case 0
      then show ?thesis using 2 by simp
    next
      case (Suc m)
      show ?thesis
      proof (cases "cur + len v > mx")
        case True
        then show ?thesis using 2 Suc by (simp add: Let_def len_def)
      next
        case False
        then show ?thesis
          using 2(1)[of "len v" m] 2(2-) Suc by (simp add: Let_def len_def add.assoc)
      qed
    qed
  qed simp
  show "count_rec_in_size mx cur vs \<le> length vs"
    by (induction mx cur vs rule: count_rec_in_size.induct) (simp_all add: Let_def)
  show "count_rec_in_size mx cur vs = length vs" if "mx = 0"
    using that by (induction mx cur vs rule: count_rec_in_size.induct) (simp_all add: Let_def)
qed

text \<open>Reading the records back, one by one.\<close>

lemma recdups_update_append:
  assumes "recdups_inv d" "length (rv_recid v) = kad_id_len" "length key = kad_id_len"
    "rv_recid v \<notin> rv_recid ` set (recval_db d)" "d = kad_recdups_ctor \<or> rd_keyid d = key"
  shows "recdups_update (rec_of_recval key v) d = Inr \<lparr>rd_keyid = key, recval_db = recval_db d @ [v]\<rparr>"
proof -
  have vs: "\<forall>w\<in>set (recval_db d). length (rv_recid w) = kad_id_len" using assms(1) by (simp add: recdups_inv_def)
  have "get_by_recid (rv_recid v) (recval_db d) = length (recval_db d)"
  proof (rule ccontr)
    assume "get_by_recid (rv_recid v) (recval_db d) \<noteq> length (recval_db d)"
    then have "get_by_recid (rv_recid v) (recval_db d) < length (recval_db d)"
      using get_by_recid_spec(1)[OF vs assms(2)] by linarith
    then show False using get_by_recid_spec(2)[OF vs assms(2)] assms(4) by (metis image_eqI nth_mem)
  qed
  moreover have "recval_ctor (rec_of_recval key v) = v" by (simp add: recval_ctor_def rec_of_recval_def)
  moreover have "gen_id_is_null (gen_id_ctor kad_id_len)" by (simp add: gen_id_is_null_val gen_id_ctor_def gen_id_val_null)
  ultimately show ?thesis
    using assms(3,5) by (auto simp: recdups_update_def recdups_insert_def Let_def rec_of_recval_def gen_id_compare_eq_0
        kad_recdups_ctor_def)
qed

lemma get_recvals_put:
  assumes "recdups_inv \<lparr>rd_keyid = key, recval_db = done' @ vs\<rparr>" "\<forall>v\<in>set vs. payload_ok (rv_payload v)"
    "recval_db d = done'" "recdups_inv d" "d = kad_recdups_ctor \<or> rd_keyid d = key"
  shows "get_recvals (length vs) key d (concat (map put_recval vs) @ rest) =
    Inr (if vs = [] then d else \<lparr>rd_keyid = key, recval_db = done' @ vs\<rparr>, rest)"
  using assms
proof (induction vs arbitrary: d done')
  case (Cons v vs)
  let ?d = "\<lparr>rd_keyid = key, recval_db = done' @ [v]\<rparr>"
  have v: "length (rv_recid v) = kad_id_len" "length key = kad_id_len" "rv_recid v \<notin> rv_recid ` set (recval_db d)"
    using Cons.prems by (auto simp: recdups_inv_def)
  have inv: "recdups_inv ?d" using Cons.prems(1) by (auto simp: recdups_inv_def)
  have "get_recvals (length (v # vs)) key d (concat (map put_recval (v # vs)) @ rest) =
      get_recvals (length vs) key ?d (concat (map put_recval vs) @ rest)"
    using v Cons.prems recdups_update_append[OF Cons.prems(4) v(1,2,3) Cons.prems(5)]
    by (simp add: put_recval_def gen_id_codec.get_put datum_codec.get_put delay_codec.get_put rec_of_recval_def)
  also have "\<dots> = Inr (\<lparr>rd_keyid = key, recval_db = done' @ v # vs\<rparr>, rest)"
    using Cons.IH[of "done' @ [v]" ?d] Cons.prems inv by (cases vs) simp_all
  finally show ?case by simp
qed simp

text \<open>Updates in sequence, and the record that they leave for an identifier: the one with the longest time to
  live, the first of equals.\<close>

fun recdups_updates :: "kad_rec_t list \<Rightarrow> kad_recdups_t \<Rightarrow> kad_recdups_t res" where
  "recdups_updates [] d = Inr d"
| "recdups_updates (r # rs) d = res_bind (recdups_update r d) (recdups_updates rs)"

fun longest_ttl :: "bytes \<Rightarrow> kad_rec_t list \<Rightarrow> recval_t option \<Rightarrow> recval_t option" where
  "longest_ttl recid [] best = best"
| "longest_ttl recid (r # rs) best =
     longest_ttl recid rs
       (if kr_recid r = recid \<and> (case best of None \<Rightarrow> True | Some v \<Rightarrow> rv_ttl v < kr_ttl r)
        then Some (recval_ctor r) else best)"

lemma recdups_updates_ok:
  assumes "recdups_inv d" "\<forall>r\<in>set rs. length (kr_recid r) = kad_id_len \<and> kr_keyid r = key"
    "length key = kad_id_len" "gen_id_is_null (rd_keyid d) \<or> rd_keyid d = key"
  shows "\<exists>d'. recdups_updates rs d = Inr d' \<and> recdups_inv d' \<and>
    (\<forall>recid. recdups_map d' recid = longest_ttl recid rs (recdups_map d recid))"
  using assms
proof (induction rs arbitrary: d)
  case (Cons r rs)
  obtain d1 where d1: "recdups_update r d = Inr d1" "recdups_inv d1" "rd_keyid d1 = key \<or> d1 = d"
    "recdups_map d1 = (case recdups_map d (kr_recid r) of
       None \<Rightarrow> (recdups_map d)(kr_recid r \<mapsto> recval_ctor r)
     | Some v \<Rightarrow> if rv_ttl v < kr_ttl r then (recdups_map d)(kr_recid r \<mapsto> recval_ctor r) else recdups_map d)"
    using recdups_update_ok[of d r] Cons.prems by auto
  have step: "recdups_map d1 recid =
      (if kr_recid r = recid \<and> (case recdups_map d recid of None \<Rightarrow> True | Some v \<Rightarrow> rv_ttl v < kr_ttl r)
       then Some (recval_ctor r) else recdups_map d recid)" for recid
    unfolding d1(4) by (auto split: option.splits)
  obtain d' where "recdups_updates rs d1 = Inr d'" "recdups_inv d'"
    "\<forall>recid. recdups_map d' recid = longest_ttl recid rs (recdups_map d1 recid)"
    using Cons.IH[OF d1(2)] Cons.prems d1(3) by auto
  then show ?case using d1(1) step by (intro exI[of _ d']) simp
qed simp

lemma longest_ttl_grows:
  "best = Some w \<Longrightarrow> \<exists>v. longest_ttl recid rs best = Some v \<and> rv_ttl w \<le> rv_ttl v"
proof (induction rs arbitrary: best w)
  case (Cons r rs)
  show ?case
  proof (cases "kr_recid r = recid \<and> rv_ttl w < kr_ttl r")
    case True
    then show ?thesis
      using Cons.IH[OF refl, of "recval_ctor r"] Cons.prems by (auto simp: recval_ctor_def intro: order.trans less_imp_le)
  next
    case False
    then show ?thesis using Cons by auto
  qed
qed simp

lemma longest_ttl_max:
  "r \<in> set rs \<Longrightarrow> kr_recid r = recid \<Longrightarrow> \<exists>v. longest_ttl recid rs best = Some v \<and> kr_ttl r \<le> rv_ttl v"
proof (induction rs arbitrary: best)
  case (Cons q rs)
  show ?case
  proof (cases "r = q")
    case True
    then show ?thesis
      using Cons.prems longest_ttl_grows[OF refl, of recid rs "recval_ctor r"] longest_ttl_grows[OF refl, of recid rs]
      by (cases best) (auto simp: recval_ctor_def not_less intro: order.trans)
  next
    case False
    then show ?thesis using Cons by simp
  qed
qed simp

lemma longest_ttl_origin:
  "longest_ttl recid rs best = Some v \<Longrightarrow> best = Some v \<or> (\<exists>r\<in>set rs. kr_recid r = recid \<and> v = recval_ctor r)"
proof (induction rs arbitrary: best)
  case (Cons r rs)
  then show ?case by (fastforce split: if_splits)
qed simp

lemma recdups_get_put:
  assumes "recdups_inv d" "list_all (\<lambda>v. payload_ok (rv_payload v)) (recval_db d)" "length (recval_db d) < 2 ^ 32"
  shows "get_kad_recdups (put_kad_recdups d @ rest) =
    (if recval_db d = [] then Inr (kad_recdups_ctor, rd_keyid d @ rest) else Inr (d, rest))"
proof (cases "recval_db d = []")
  case True
  then show ?thesis by (simp add: get_kad_recdups_def put_kad_recdups_def uint32_codec.get_put put_gen_id_def)
next
  case False
  have n: "unat (word_of_nat (length (recval_db d)) :: 32 word) = length (recval_db d)"
    using assms(3) by (simp add: unat_of_nat_32)
  then have nz: "(word_of_nat (length (recval_db d)) :: 32 word) \<noteq> 0" using False by (metis length_0_conv unat_0)
  have d: "\<lparr>rd_keyid = rd_keyid d, recval_db = recval_db d\<rparr> = d" by simp
  have "get_recvals (length (recval_db d)) (rd_keyid d) kad_recdups_ctor (concat (map put_recval (recval_db d)) @ rest) =
      Inr (d, rest)"
    using get_recvals_put[of "rd_keyid d" "[]" "recval_db d" kad_recdups_ctor rest] assms False
    by (simp add: kad_recdups_ctor_def list_all_iff recdups_inv_def gen_id_ctor_def)
  then show ?thesis
    using False n nz assms(1)
    by (simp add: get_kad_recdups_def put_kad_recdups_def uint32_codec.get_put gen_id_codec.get_put recdups_inv_def)
qed

subsection \<open>Properties\<close>

text \<open>C38. The records of a key are read back from their wire form with what followed them, when there is one at least
  (and fewer than \<open>2 ^ 32\<close>).  The wire form of an empty set ends with its key, which the reader leaves in the
  packet, in front of what followed.\<close>
theorem recdups_roundtrip:
  assumes "recdups_inv d" "list_all (\<lambda>v. payload_ok (rv_payload v)) (recval_db d)" "length (recval_db d) < 2 ^ 32"
  shows "get_kad_recdups (put_kad_recdups d @ rest) =
    (if recval_db d = [] then Inr (kad_recdups_ctor, rd_keyid d @ rest) else Inr (d, rest))"
  using recdups_get_put[OF assms] .

theorem recdups_roundtrip_witness:
  "get_kad_recdups (put_kad_recdups
      \<lparr>rd_keyid = replicate 20 3, recval_db = [\<lparr>rv_recid = replicate 20 9,
         rv_payload = \<lparr>datum_flag = FLAG_DFL, datum_data = [1, 2]\<rparr>, rv_ttl = 60\<rparr>]\<rparr> @ [5]) =
     Inr (\<lparr>rd_keyid = replicate 20 3, recval_db = [\<lparr>rv_recid = replicate 20 9,
         rv_payload = \<lparr>datum_flag = FLAG_DFL, datum_data = [1, 2]\<rparr>, rv_ttl = 60\<rparr>]\<rparr>, [5]) \<and>
   get_kad_recdups (put_kad_recdups \<lparr>rd_keyid = replicate 20 3, recval_db = []\<rparr> @ [5]) =
     Inr (kad_recdups_ctor, replicate 20 3 @ [5])"
  using recdups_roundtrip[of "\<lparr>rd_keyid = replicate 20 3, recval_db = [\<lparr>rv_recid = replicate 20 9,
         rv_payload = \<lparr>datum_flag = FLAG_DFL, datum_data = [1, 2]\<rparr>, rv_ttl = 60\<rparr>]\<rparr>" "[5]"]
    recdups_roundtrip[of "\<lparr>rd_keyid = replicate 20 3, recval_db = []\<rparr>" "[5]"]
  by (simp add: recdups_inv_def kad_id_len_def datum_length_def)

text \<open>Records of one key put in an empty set in any order and number: no assertion fails, the set has one
  record for each identifier that was put, with the longest of the times to live that came with it and the payload of that
  record.\<close>
lemma recdups_keep_longest:
  assumes "length key = kad_id_len" "list_all (\<lambda>r. length (kr_recid r) = kad_id_len \<and> kr_keyid r = key) rs"
  shows "\<exists>d. recdups_updates rs kad_recdups_ctor = Inr d \<and> recdups_inv d \<and>
    (\<forall>r\<in>set rs. \<exists>v\<in>set (recval_db d). rv_recid v = kr_recid r \<and> kr_ttl r \<le> rv_ttl v) \<and>
    (\<forall>v\<in>set (recval_db d). \<exists>r\<in>set rs. v = recval_ctor r)"
proof -
  obtain d where d: "recdups_updates rs kad_recdups_ctor = Inr d" "recdups_inv d"
    "\<And>recid. recdups_map d recid = longest_ttl recid rs None"
  proof -
    have "gen_id_is_null (rd_keyid kad_recdups_ctor)" "recdups_map kad_recdups_ctor recid = None" for recid
      by (simp_all add: kad_recdups_ctor_def recdups_map_def gen_id_is_null_val gen_id_ctor_def gen_id_val_null)
    then show ?thesis using recdups_updates_ok[OF recdups_inv_ctor, of rs key] assms that by (auto simp: list_all_iff)
  qed
  have "\<exists>v\<in>set (recval_db d). rv_recid v = kr_recid r \<and> kr_ttl r \<le> rv_ttl v" if r: "r \<in> set rs" for r
  proof -
    obtain v where "longest_ttl (kr_recid r) rs None = Some v" "kr_ttl r \<le> rv_ttl v"
      using longest_ttl_max[OF r refl] by blast
    then show ?thesis using d(3)[of "kr_recid r"] recdups_map_Some[OF d(2)] by auto
  qed
  moreover have "\<exists>r\<in>set rs. v = recval_ctor r" if "v \<in> set (recval_db d)" for v
    using longest_ttl_origin[of "rv_recid v" rs None v] d(3)[of "rv_recid v"] recdups_map_Some[OF d(2), of "rv_recid v" v] that
    by auto
  ultimately show ?thesis using d(1,2) by blast
qed

text \<open>C39. \<open>truncate_to_serial_len\<close> keeps the longest prefix of the records whose wire form has at most \<open>max_len\<close>
  bytes, all of them for 0, and says how many it removed; below the length of an empty set its assertion fails.\<close>
theorem recdups_fit_in_packet:
  assumes "recdups_inv d"
  shows "(max_len = 0 \<longrightarrow> truncate_to_serial_len max_len d = Inr (0, d)) \<and>
    (max_len \<noteq> 0 \<and> max_len < get_serial_hd_main \<longrightarrow> truncate_to_serial_len max_len d = Inl Assert_failed) \<and>
    (max_len \<noteq> 0 \<and> get_serial_hd_main \<le> max_len \<longrightarrow>
      (\<exists>n\<le>length (recval_db d).
         truncate_to_serial_len max_len d = Inr (length (recval_db d) - n, d\<lparr>recval_db := take n (recval_db d)\<rparr>) \<and>
         nb_serialized_rec_in_size max_len d = Inr n \<and>
         (\<forall>k\<le>length (recval_db d).
            length (put_kad_recdups (d\<lparr>recval_db := take k (recval_db d)\<rparr>)) \<le> max_len \<longleftrightarrow> k \<le> n)))"
proof (intro conjI impI)
  let ?vs = "recval_db d" let ?n = "count_rec_in_size max_len get_serial_hd_main ?vs"
  have len: "length (put_kad_recdups (d\<lparr>recval_db := take k ?vs\<rparr>)) =
      get_serial_hd_main + (\<Sum>v\<leftarrow>take k ?vs. get_serial_hd_per_rec + datum_length (rv_payload v))" for k
  proof -
    have "recdups_inv (d\<lparr>recval_db := take k ?vs\<rparr>)"
      using assms by (auto simp: recdups_inv_def simp flip: take_map dest: in_set_takeD)
    then show ?thesis using length_put_kad_recdups by simp
  qed
  show "truncate_to_serial_len max_len d = Inr (0, d)" if "max_len = 0"
    using that by (simp add: truncate_to_serial_len_def count_rec_in_size_spec(3))
  show "truncate_to_serial_len max_len d = Inl Assert_failed" if "max_len \<noteq> 0 \<and> max_len < get_serial_hd_main"
    using that by (simp add: truncate_to_serial_len_def)
  show "\<exists>n\<le>length ?vs. truncate_to_serial_len max_len d = Inr (length ?vs - n, d\<lparr>recval_db := take n ?vs\<rparr>) \<and>
      nb_serialized_rec_in_size max_len d = Inr n \<and>
      (\<forall>k\<le>length ?vs. length (put_kad_recdups (d\<lparr>recval_db := take k ?vs\<rparr>)) \<le> max_len \<longleftrightarrow> k \<le> n)"
    if m: "max_len \<noteq> 0 \<and> get_serial_hd_main \<le> max_len"
  proof (intro exI[of _ ?n] conjI)
    have n: "?n \<le> length ?vs" using count_rec_in_size_spec(2) m by blast
    then show "?n \<le> length ?vs" .
    show "truncate_to_serial_len max_len d = Inr (length ?vs - ?n, d\<lparr>recval_db := take ?n ?vs\<rparr>)"
      using m n by (simp add: truncate_to_serial_len_def Let_def pop_back_n_spec)
    show "nb_serialized_rec_in_size max_len d = Inr ?n" using m by (simp add: nb_serialized_rec_in_size_def)
    show "\<forall>k\<le>length ?vs. length (put_kad_recdups (d\<lparr>recval_db := take k ?vs\<rparr>)) \<le> max_len \<longleftrightarrow> k \<le> ?n"
      unfolding len using count_rec_in_size_spec(1) m by blast
  qed
qed

theorem recdups_fit_in_packet_witness:
  "\<exists>n\<le>1. truncate_to_serial_len 50 \<lparr>rd_keyid = replicate 20 3, recval_db = [\<lparr>rv_recid = replicate 20 9,
         rv_payload = \<lparr>datum_flag = FLAG_DFL, datum_data = [1, 2]\<rparr>, rv_ttl = 60\<rparr>]\<rparr> =
     Inr (1 - n, \<lparr>rd_keyid = replicate 20 3, recval_db = take n [\<lparr>rv_recid = replicate 20 9,
         rv_payload = \<lparr>datum_flag = FLAG_DFL, datum_data = [1, 2]\<rparr>, rv_ttl = 60\<rparr>]\<rparr>)"
proof -
  let ?d = "\<lparr>rd_keyid = replicate 20 3, recval_db = [\<lparr>rv_recid = replicate 20 9,
         rv_payload = \<lparr>datum_flag = FLAG_DFL, datum_data = [1, 2]\<rparr>, rv_ttl = 60\<rparr>]\<rparr>"
  have "recdups_inv ?d" "get_serial_hd_main \<le> 50"
    by (simp_all add: recdups_inv_def kad_id_len_def get_serial_hd_main_def put_gen_id_def gen_id_ctor_def)
  then show ?thesis using recdups_fit_in_packet[of ?d 50] by fastforce
qed

end
