(* ===== verification/KadDb.thy ===== *)
theory KadDb
  imports KadRec
begin

text \<open>
  The database of the records that a peer stores (\<open>neoip_kad/service/db\<close>): \<open>kad_db_t\<close>, indexed by the
  identifier of the records and by the distance of their key to the local peer, with the limits of its profile.  A
  \<open>rec_t\<close> links itself in both indices when it is created and asserts that its identifier is new: a pointer to a
  \<open>rec_t\<close> is therefore its identifier, and its contents are what \<open>recid_db\<close> holds.

  The timers are the delays that are left; \<open>db_elapse\<close> lets time pass and the expiry of a timer is an operation.
  The republish delay is computed with random numbers in floating point and is an argument.  The remote
  procedure calls that replicate a record are results of the model.
\<close>

subsection \<open>Profile\<close>

record kad_db_profile_t =
  keyid_nodups_ok :: bool
  replicate_findnode_rpc_timeout :: delay_t
  replicate_store_rpc_timeout :: delay_t
  republish_store_timeout :: delay_t
  db_max_len :: nat
  rec_max_len :: nat
  rec_max_ttl :: delay_t
  rec_republish_period :: delay_t

definition build_local_db :: kad_db_profile_t where
  "build_local_db =
     \<lparr>keyid_nodups_ok = False, replicate_findnode_rpc_timeout = from_sec 60, replicate_store_rpc_timeout = from_sec 60,
      republish_store_timeout = from_sec (4 * 60), db_max_len = 0, rec_max_len = 0,
      rec_max_ttl = from_sec (24 * 60 * 60), rec_republish_period = INFINITE_VAL\<rparr>"

definition build_remote_db :: kad_db_profile_t where
  "build_remote_db =
     \<lparr>keyid_nodups_ok = False, replicate_findnode_rpc_timeout = from_sec 60, replicate_store_rpc_timeout = from_sec 60,
      republish_store_timeout = from_sec (4 * 60), db_max_len = 0, rec_max_len = 0,
      rec_max_ttl = from_sec (24 * 60 * 60), rec_republish_period = from_sec (60 * 60)\<rparr>"

subsection \<open>State\<close>

record db_rec_t =
  dr_rec :: kad_rec_t
  dr_republish :: delay_t
  dr_expire :: delay_t

record kad_db_t =
  db_profile :: kad_db_profile_t
  is_remote_db :: bool
  db_local_peerid :: bytes
  distid_db :: "(bytes \<times> bytes) list"
  recid_db :: "bytes \<rightharpoonup> db_rec_t"
  db_size :: nat

definition kad_db_ctor :: "kad_db_profile_t \<Rightarrow> bool \<Rightarrow> bytes \<Rightarrow> kad_db_t" where
  "kad_db_ctor profile remote peerid =
     \<lparr>db_profile = profile, is_remote_db = remote, db_local_peerid = peerid, distid_db = [], recid_db = Map.empty,
      db_size = 0\<rparr>"

definition get_distid :: "bytes \<Rightarrow> kad_db_t \<Rightarrow> bytes" where
  "get_distid targetid st = gen_id_xor (db_local_peerid st) targetid"

definition db_rec_at :: "bytes \<Rightarrow> kad_db_t \<Rightarrow> db_rec_t res" where
  "db_rec_at ptr st = (case recid_db st ptr of None \<Rightarrow> Inl Out_of_bounds | Some x \<Rightarrow> Inr x)"

definition rec_len :: "kad_rec_t \<Rightarrow> nat" where
  "rec_len r = datum_length (kr_payload r)"

text \<open>\<open>std::multimap\<close> as the sorted list of its elements; a new one goes behind those of the same key.\<close>

fun mm_insert :: "bytes \<Rightarrow> bytes \<Rightarrow> (bytes \<times> bytes) list \<Rightarrow> (bytes \<times> bytes) list" where
  "mm_insert k p [] = [(k, p)]"
| "mm_insert k p (e # es) = (if gen_id_compare k (fst e) < 0 then (k, p) # e # es else e # mm_insert k p es)"

fun mm_lower_bound :: "bytes \<Rightarrow> (bytes \<times> bytes) list \<Rightarrow> nat" where
  "mm_lower_bound k [] = 0"
| "mm_lower_bound k (e # es) = (if gen_id_compare (fst e) k < 0 then Suc (mm_lower_bound k es) else 0)"

fun mm_upper_bound :: "bytes \<Rightarrow> (bytes \<times> bytes) list \<Rightarrow> nat" where
  "mm_upper_bound k [] = 0"
| "mm_upper_bound k (e # es) = (if \<not> gen_id_compare k (fst e) < 0 then Suc (mm_upper_bound k es) else 0)"

subsection \<open>Linking records\<close>

definition rec_dolink :: "db_rec_t \<Rightarrow> kad_db_t \<Rightarrow> kad_db_t res" where
  "rec_dolink x st =
     (let st = st\<lparr>db_size := db_size st + rec_len (dr_rec x)\<rparr>;
          st = st\<lparr>distid_db := mm_insert (get_distid (kr_keyid (dr_rec x)) st) (kr_recid (dr_rec x)) (distid_db st)\<rparr>
      in dbg_assert (recid_db st (kr_recid (dr_rec x)) = None)
           (Inr (st\<lparr>recid_db := (recid_db st)(kr_recid (dr_rec x) \<mapsto> x)\<rparr>)))"

fun scan_ptr :: "bytes \<Rightarrow> bytes \<Rightarrow> nat \<Rightarrow> (bytes \<times> bytes) list \<Rightarrow> nat option" where
  "scan_ptr key ptr i [] = None"
| "scan_ptr key ptr i (e # es) =
     (if gen_id_compare (fst e) key \<noteq> 0 then None
      else if snd e = ptr then Some i else scan_ptr key ptr (Suc i) es)"

definition get_iter_from_ptr :: "bytes \<Rightarrow> bytes \<Rightarrow> kad_db_t \<Rightarrow> nat res" where
  "get_iter_from_ptr keyid ptr st =
     (let map_key = get_distid keyid st; i = mm_lower_bound map_key (distid_db st) in
      dbg_assert (i < length (distid_db st))
       (dbg_assert (gen_id_compare (fst (distid_db st ! i)) map_key = 0)
         (case scan_ptr map_key ptr i (drop i (distid_db st)) of None \<Rightarrow> Inl Assert_failed | Some j \<Rightarrow> Inr j)))"

definition rec_unlink :: "bytes \<Rightarrow> kad_db_t \<Rightarrow> kad_db_t res" where
  "rec_unlink ptr st =
     res_bind (db_rec_at ptr st) (\<lambda>x.
       dbg_assert (db_size st \<ge> rec_len (dr_rec x))
        (let st = st\<lparr>db_size := db_size st - rec_len (dr_rec x), recid_db := (recid_db st)(ptr := None)\<rparr> in
         res_bind (get_iter_from_ptr (kr_keyid (dr_rec x)) ptr st) (\<lambda>i.
           Inr (st\<lparr>distid_db := take i (distid_db st) @ drop (Suc i) (distid_db st)\<rparr>))))"

definition cpu_expire_delay :: "kad_rec_t \<Rightarrow> kad_db_t \<Rightarrow> delay_t" where
  "cpu_expire_delay r st = (if is_remote_db st then kr_ttl r else INFINITE_VAL)"

definition rec_ctor :: "(kad_rec_t \<Rightarrow> delay_t) \<Rightarrow> kad_rec_t \<Rightarrow> kad_db_t \<Rightarrow> kad_db_t res" where
  "rec_ctor cpu_republish_delay r st =
     rec_dolink \<lparr>dr_rec = r, dr_republish = cpu_republish_delay r, dr_expire = cpu_expire_delay r st\<rparr> st"

definition db_get_kad_rec :: "db_rec_t \<Rightarrow> kad_db_t \<Rightarrow> kad_rec_t" where
  "db_get_kad_rec x st = (if is_remote_db st then (dr_rec x)\<lparr>kr_ttl := dr_expire x\<rparr> else dr_rec x)"

subsection \<open>Operations\<close>

definition contain_recid :: "bytes \<Rightarrow> kad_db_t \<Rightarrow> bool" where
  "contain_recid recid st = (case recid_db st recid of None \<Rightarrow> False | Some x \<Rightarrow> True)"

definition contain_keyid :: "bytes \<Rightarrow> kad_db_t \<Rightarrow> bool" where
  "contain_keyid keyid st = list_ex (\<lambda>e. gen_id_compare (fst e) (get_distid keyid st) = 0) (distid_db st)"

definition may_accept :: "kad_rec_t \<Rightarrow> kad_db_t \<Rightarrow> bool" where
  "may_accept r st =
     (let profile = db_profile st in
      if keyid_nodups_ok profile \<and> contain_keyid (kr_keyid r) st then False
      else if delay_compare (kr_ttl r) (rec_max_ttl profile) > 0 then False
      else if rec_max_len profile \<noteq> 0 \<and> rec_len r > rec_max_len profile then False
      else if db_max_len profile \<noteq> 0 \<and> db_size st + rec_len r > db_max_len profile then False
      else True)"

definition may_accept_dups :: "kad_recdups_t \<Rightarrow> kad_db_t \<Rightarrow> bool" where
  "may_accept_dups d st =
     (let profile = db_profile st; recs = map (rec_of_recval (rd_keyid d)) (recval_db d);
          recdups_len = sum_list (map rec_len recs)
      in if db_max_len profile \<noteq> 0 \<and> db_size st + recdups_len > db_max_len profile then False
         else list_all (\<lambda>r. may_accept r st) recs)"

definition db_update :: "(kad_rec_t \<Rightarrow> delay_t) \<Rightarrow> kad_rec_t \<Rightarrow> kad_db_t \<Rightarrow> kad_db_t res" where
  "db_update cpu_republish_delay r st =
     dbg_assert (may_accept r st)
      (case recid_db st (kr_recid r) of
         None \<Rightarrow> rec_ctor cpu_republish_delay r st
       | Some x \<Rightarrow>
           res_bind (is_tie_winner_against (db_get_kad_rec x st) r) (\<lambda>wins.
             if wins then Inr st
             else res_bind (rec_unlink (kr_recid r) st) (rec_ctor cpu_republish_delay r)))"

fun db_update_loop :: "(kad_rec_t \<Rightarrow> delay_t) \<Rightarrow> kad_rec_t list \<Rightarrow> kad_db_t \<Rightarrow> kad_db_t res" where
  "db_update_loop cpu_republish_delay [] st = Inr st"
| "db_update_loop cpu_republish_delay (r # rs) st =
     res_bind (db_update cpu_republish_delay r st) (db_update_loop cpu_republish_delay rs)"

definition db_update_dups :: "(kad_rec_t \<Rightarrow> delay_t) \<Rightarrow> kad_recdups_t \<Rightarrow> kad_db_t \<Rightarrow> kad_db_t res" where
  "db_update_dups cpu_republish_delay d st =
     db_update_loop cpu_republish_delay (map (rec_of_recval (rd_keyid d)) (recval_db d)) st"

definition db_remove :: "bytes \<Rightarrow> kad_db_t \<Rightarrow> kad_db_t res" where
  "db_remove recid st = (case recid_db st recid of None \<Rightarrow> Inr st | Some x \<Rightarrow> rec_unlink recid st)"

text \<open>\<open>kad_store_t::store_local_db\<close>: the result says whether the records were accepted.\<close>

fun remove_loop :: "kad_rec_t list \<Rightarrow> kad_db_t \<Rightarrow> kad_db_t res" where
  "remove_loop [] st = Inr st"
| "remove_loop (r # rs) st =
     (if \<not> contain_recid (kr_recid r) st then remove_loop rs st
      else res_bind (db_remove (kr_recid r) st) (remove_loop rs))"

definition store_local_db :: "(kad_rec_t \<Rightarrow> delay_t) \<Rightarrow> kad_recdups_t \<Rightarrow> kad_db_t \<Rightarrow> (bool \<times> kad_db_t) res" where
  "store_local_db cpu_republish_delay d st =
     (if \<not> may_accept_dups d st then Inr (False, st)
      else res_bind (remove_loop (map (rec_of_recval (rd_keyid d)) (recval_db d)) st) (\<lambda>st.
        res_bind (db_update_dups cpu_republish_delay d st) (\<lambda>st. Inr (True, st))))"

fun find_loop ::
  "bytes \<Rightarrow> bytes \<Rightarrow> kad_db_t \<Rightarrow> (bytes \<times> bytes) list \<Rightarrow> kad_recdups_t \<Rightarrow> kad_recdups_t res" where
  "find_loop map_key recid_gt st [] result = Inr result"
| "find_loop map_key recid_gt st (e # es) result =
     (if gen_id_compare (fst e) map_key \<noteq> 0 then Inr result
      else res_bind (db_rec_at (snd e) st) (\<lambda>x.
        if \<not> gen_id_is_null recid_gt \<and> gen_id_compare (kr_recid (dr_rec x)) recid_gt \<le> 0
        then find_loop map_key recid_gt st es result
        else res_bind (recdups_update (db_get_kad_rec x st) result) (find_loop map_key recid_gt st es)))"

definition find_by_keyid :: "bytes \<Rightarrow> bytes \<Rightarrow> kad_db_t \<Rightarrow> kad_recdups_t res" where
  "find_by_keyid keyid recid_gt st =
     (let map_key = get_distid keyid st in
      find_loop map_key recid_gt st (drop (mm_lower_bound map_key (distid_db st)) (distid_db st)) kad_recdups_ctor)"

definition get_next_keyid :: "bytes \<Rightarrow> kad_db_t \<Rightarrow> bytes res" where
  "get_next_keyid keyid st =
     (let i = mm_upper_bound (get_distid keyid st) (distid_db st) in
      if i = length (distid_db st) then Inr (gen_id_ctor kad_id_len)
      else res_bind (db_rec_at (snd (distid_db st ! i)) st) (\<lambda>x. Inr (kr_keyid (dr_rec x))))"

text \<open>Replication: the sets of records for which a store call to the new node is started.\<close>

definition replicate_in :: "kad_rec_t \<Rightarrow> kad_addr_t \<Rightarrow> kad_recdups_t res" where
  "replicate_in r remote_addr =
     res_bind (recdups_update r kad_recdups_ctor) (\<lambda>d.
     res_bind (kad_addr_is_fully_qualified remote_addr) (\<lambda>fq. dbg_assert fq (Inr d)))"

fun replicate_loop :: "kad_addr_t \<Rightarrow> kad_db_t \<Rightarrow> (bytes \<times> bytes) list \<Rightarrow> kad_recdups_t list res" where
  "replicate_loop kad_addr st [] = Inr []"
| "replicate_loop kad_addr st (e # es) =
     res_bind (db_rec_at (snd e) st) (\<lambda>x.
     res_bind (replicate_in (db_get_kad_rec x st) kad_addr) (\<lambda>d.
     res_bind (replicate_loop kad_addr st es) (\<lambda>ds. Inr (d # ds))))"

definition db_notify_new_node :: "kad_addr_t \<Rightarrow> kad_db_t \<Rightarrow> kad_recdups_t list res" where
  "db_notify_new_node kad_addr st =
     (let node_dist = gen_id_xor (db_local_peerid st) (m_peerid kad_addr); mid_dist = gen_id_shift_right node_dist 1 in
      replicate_loop kad_addr st (drop (mm_lower_bound mid_dist (distid_db st)) (distid_db st)))"

text \<open>The timers of a record; the republication gives the record that is stored on other peers.\<close>

definition republish_timeout_cb :: "(kad_rec_t \<Rightarrow> delay_t) \<Rightarrow> bytes \<Rightarrow> kad_db_t \<Rightarrow> (kad_rec_t \<times> kad_db_t) res" where
  "republish_timeout_cb cpu_republish_delay ptr st =
     res_bind (db_rec_at ptr st) (\<lambda>x.
       Inr (dr_rec x, st\<lparr>recid_db := (recid_db st)(ptr \<mapsto> x\<lparr>dr_republish := cpu_republish_delay (dr_rec x)\<rparr>)\<rparr>))"

definition expire_timeout_cb :: "bytes \<Rightarrow> kad_db_t \<Rightarrow> kad_db_t res" where
  "expire_timeout_cb ptr st = rec_unlink ptr st"

definition delay_left :: "delay_t \<Rightarrow> delay_t \<Rightarrow> delay_t" where
  "delay_left d left = (if delay_is_infinite left then left else left - d)"

definition db_elapse :: "delay_t \<Rightarrow> kad_db_t \<Rightarrow> kad_db_t" where
  "db_elapse d st =
     st\<lparr>recid_db := (\<lambda>p. map_option
         (\<lambda>x. x\<lparr>dr_expire := delay_left d (dr_expire x), dr_republish := delay_left d (dr_republish x)\<rparr>) (recid_db st p))\<rparr>"

subsection \<open>Invariant\<close>

text \<open>Both indices hold the same records, in the order of the distances; the size is the sum of the lengths; the
  limits of the profile are kept.\<close>

definition db_index :: "kad_db_t \<Rightarrow> bool" where
  "db_index st \<longleftrightarrow> length (db_local_peerid st) = kad_id_len \<and>
     sorted (map (\<lambda>e. gen_id_val (fst e)) (distid_db st)) \<and> distinct (map snd (distid_db st)) \<and>
     (\<forall>k p. (k, p) \<in> set (distid_db st) \<longleftrightarrow>
        (\<exists>x. recid_db st p = Some x \<and> k = get_distid (kr_keyid (dr_rec x)) st)) \<and>
     (\<forall>p x. recid_db st p = Some x \<longrightarrow>
        kr_recid (dr_rec x) = p \<and> length p = kad_id_len \<and> length (kr_keyid (dr_rec x)) = kad_id_len)"

definition db_total :: "kad_db_t \<Rightarrow> nat" where
  "db_total st = (\<Sum>p\<leftarrow>map snd (distid_db st). rec_len (dr_rec (the (recid_db st p))))"

definition db_limits :: "kad_db_t \<Rightarrow> bool" where
  "db_limits st \<longleftrightarrow>
     (db_max_len (db_profile st) \<noteq> 0 \<longrightarrow> db_size st \<le> db_max_len (db_profile st)) \<and>
     (\<forall>p x. recid_db st p = Some x \<longrightarrow> kr_ttl (dr_rec x) \<le> rec_max_ttl (db_profile st) \<and>
        (rec_max_len (db_profile st) \<noteq> 0 \<longrightarrow> rec_len (dr_rec x) \<le> rec_max_len (db_profile st))) \<and>
     (keyid_nodups_ok (db_profile st) \<longrightarrow> distinct (map fst (distid_db st)))"

definition db_inv :: "kad_db_t \<Rightarrow> bool" where
  "db_inv st \<longleftrightarrow> db_index st \<and> db_size st = db_total st \<and> db_limits st"

lemma db_indexD:
  assumes "db_index st"
  shows "length (db_local_peerid st) = kad_id_len" "sorted (map (\<lambda>e. gen_id_val (fst e)) (distid_db st))"
    "distinct (map snd (distid_db st))"
    "(k, p) \<in> set (distid_db st) \<longleftrightarrow> (\<exists>x. recid_db st p = Some x \<and> k = get_distid (kr_keyid (dr_rec x)) st)"
    "recid_db st p = Some x \<Longrightarrow> kr_recid (dr_rec x) = p" "recid_db st p = Some x \<Longrightarrow> length p = kad_id_len"
    "recid_db st p = Some x \<Longrightarrow> length (kr_keyid (dr_rec x)) = kad_id_len"
  using assms by (simp_all add: db_index_def)

lemma db_indexI:
  assumes "length (db_local_peerid st) = kad_id_len" "sorted (map (\<lambda>e. gen_id_val (fst e)) (distid_db st))"
    "distinct (map snd (distid_db st))"
    "\<And>k p. (k, p) \<in> set (distid_db st) \<longleftrightarrow> (\<exists>x. recid_db st p = Some x \<and> k = get_distid (kr_keyid (dr_rec x)) st)"
    "\<And>p x. recid_db st p = Some x \<Longrightarrow>
       kr_recid (dr_rec x) = p \<and> length p = kad_id_len \<and> length (kr_keyid (dr_rec x)) = kad_id_len"
  shows "db_index st"
  unfolding db_index_def using assms by (intro conjI allI impI) blast+

lemma length_get_distid:
  "db_index st \<Longrightarrow> length key = kad_id_len \<Longrightarrow> length (get_distid key st) = kad_id_len"
  by (simp add: get_distid_def db_index_def)

lemma db_fst_len:
  assumes "db_index st" "e \<in> set (distid_db st)"
  shows "length (fst e) = kad_id_len"
proof -
  obtain x where "recid_db st (snd e) = Some x" "fst e = get_distid (kr_keyid (dr_rec x)) st"
    using assms db_indexD(4)[OF assms(1), of "fst e" "snd e"] by auto
  then show ?thesis using length_get_distid[OF assms(1)] db_indexD(7)[OF assms(1)] by simp
qed

lemma get_distid_inject:
  assumes "db_index st" "length a = kad_id_len" "length b = kad_id_len" "get_distid a st = get_distid b st"
  shows "a = b"
  using kad_dist_inject[of a "db_local_peerid st" b] assms by (simp add: kad_dist_def get_distid_def db_index_def)

text \<open>The multimap.\<close>

lemma mset_mm_insert: "mset (mm_insert k p es) = add_mset (k, p) (mset es)"
  by (induction k p es rule: mm_insert.induct) auto

lemma set_mm_insert [simp]: "set (mm_insert k p es) = insert (k, p) (set es)"
  by (metis mset_mm_insert set_mset_add_mset_insert set_mset_mset)

lemma sorted_mm_insert:
  assumes "\<forall>e\<in>set es. length (fst e) = length k" "sorted (map (\<lambda>e. gen_id_val (fst e)) es)"
  shows "sorted (map (\<lambda>e. gen_id_val (fst e)) (mm_insert k p es))"
  using assms by (induction k p es rule: mm_insert.induct) (auto simp: gen_id_compare_val)

lemma mm_lower_bound_drop:
  assumes "\<forall>e\<in>set es. length (fst e) = length k" "sorted (map (\<lambda>e. gen_id_val (fst e)) es)"
  shows "drop (mm_lower_bound k es) es = filter (\<lambda>e. gen_id_val k \<le> gen_id_val (fst e)) es \<and>
    mm_lower_bound k es \<le> length es"
  using assms
proof (induction es)
  case (Cons e es)
  show ?case
  proof (cases "gen_id_val (fst e) < gen_id_val k")
    case False
    then have "filter (\<lambda>e. gen_id_val k \<le> gen_id_val (fst e)) (e # es) = e # es"
      using Cons.prems by (intro filter_True) auto
    then show ?thesis using False Cons.prems by (simp add: gen_id_compare_val)
  qed (use Cons in \<open>simp add: gen_id_compare_val\<close>)
qed simp

lemma mm_upper_bound_drop:
  assumes "\<forall>e\<in>set es. length (fst e) = length k" "sorted (map (\<lambda>e. gen_id_val (fst e)) es)"
  shows "drop (mm_upper_bound k es) es = filter (\<lambda>e. gen_id_val k < gen_id_val (fst e)) es \<and>
    mm_upper_bound k es \<le> length es"
  using assms
proof (induction es)
  case (Cons e es)
  show ?case
  proof (cases "gen_id_val k < gen_id_val (fst e)")
    case True
    then have "filter (\<lambda>e. gen_id_val k < gen_id_val (fst e)) (e # es) = e # es"
      using Cons.prems by (intro filter_True) auto
    then show ?thesis using True Cons.prems by (simp add: gen_id_compare_val)
  qed (use Cons in \<open>simp add: gen_id_compare_val\<close>)
qed simp

lemma scan_ptr_spec:
  assumes "\<forall>e\<in>set es. length (fst e) = length key \<and> gen_id_val key \<le> gen_id_val (fst e)"
    "sorted (map (\<lambda>e. gen_id_val (fst e)) es)" "(key, ptr) \<in> set es"
  shows "\<exists>j<length es. scan_ptr key ptr i es = Some (i + j) \<and> es ! j = (key, ptr)"
  using assms
proof (induction es arbitrary: i)
  case (Cons e es)
  show ?case
  proof (cases "e = (key, ptr)")
    case True
    then show ?thesis by (auto intro!: exI[of _ 0] simp: gen_id_compare_eq_0)
  next
    case False
    then have mem: "(key, ptr) \<in> set es" using Cons.prems(3) by auto
    then have "gen_id_val (fst e) \<le> gen_id_val key" using Cons.prems(2) by fastforce
    then have k: "fst e = key" using Cons.prems(1) gen_id_val_inject[of "fst e" key] by fastforce
    then have "snd e \<noteq> ptr" using False by (metis prod.collapse)
    moreover obtain j where "j < length es" "scan_ptr key ptr (Suc i) es = Some (Suc i + j)" "es ! j = (key, ptr)"
      using Cons.IH[of "Suc i"] Cons.prems mem by auto
    ultimately show ?thesis using k by (auto intro!: exI[of _ "Suc j"] simp: gen_id_compare_eq_0)
  qed
qed simp

lemma get_iter_from_ptr_ok:
  assumes "db_index st" "recid_db st p = Some x" "distid_db st' = distid_db st" "db_local_peerid st' = db_local_peerid st"
  shows "\<exists>j<length (distid_db st). get_iter_from_ptr (kr_keyid (dr_rec x)) p st' = Inr j \<and>
    distid_db st ! j = (get_distid (kr_keyid (dr_rec x)) st, p)"
proof -
  let ?k = "get_distid (kr_keyid (dr_rec x)) st" let ?es = "distid_db st" let ?i = "mm_lower_bound ?k ?es"
  have k: "get_distid (kr_keyid (dr_rec x)) st' = ?k" using assms(4) by (simp add: get_distid_def)
  have len: "\<forall>e\<in>set ?es. length (fst e) = length ?k"
    using db_fst_len[OF assms(1)] length_get_distid[OF assms(1)] db_indexD(7)[OF assms(1,2)] by simp
  note L = mm_lower_bound_drop[OF len db_indexD(2)[OF assms(1)]]
  have mem: "(?k, p) \<in> set (drop ?i ?es)" using L db_indexD(4)[OF assms(1)] assms(2) by auto
  have all: "\<forall>e\<in>set (drop ?i ?es). length (fst e) = length ?k \<and> gen_id_val ?k \<le> gen_id_val (fst e)"
    using L len by (auto dest: in_set_dropD)
  have srt: "sorted (map (\<lambda>e. gen_id_val (fst e)) (drop ?i ?es))"
    using sorted_wrt_drop[OF db_indexD(2)[OF assms(1)], of ?i] by (simp add: drop_map)
  obtain j where j: "j < length (drop ?i ?es)" "scan_ptr ?k p ?i (drop ?i ?es) = Some (?i + j)"
    "drop ?i ?es ! j = (?k, p)"
    using scan_ptr_spec[OF all srt mem, of ?i] by blast
  have i: "?i < length ?es" using j(1) by auto
  have "gen_id_val (fst (?es ! ?i)) \<le> gen_id_val ?k"
    using srt mem i by (cases "drop ?i ?es") (auto simp: hd_drop_conv_nth[symmetric])
  moreover have "gen_id_val ?k \<le> gen_id_val (fst (?es ! ?i))"
    using all i nth_mem[of 0 "drop ?i ?es"] by simp
  ultimately have "gen_id_compare (fst (?es ! ?i)) ?k = 0" using len i by (simp add: gen_id_compare_val)
  then show ?thesis
    using i j k assms(3) by (intro exI[of _ "?i + j"]) (simp add: get_iter_from_ptr_def Let_def)
qed

lemma sum_list_remove_nth:
  fixes f :: "'a \<Rightarrow> nat"
  assumes "i < length xs"
  shows "sum_list (map f xs) = f (xs ! i) + sum_list (map f (take i xs @ drop (Suc i) xs))"
  using arg_cong[OF id_take_nth_drop[OF assms], of "\<lambda>ys. sum_list (map f ys)"] by simp

lemma db_total_cong:
  "distid_db st' = distid_db st \<Longrightarrow> (\<And>p. p \<in> snd ` set (distid_db st) \<Longrightarrow>
     rec_len (dr_rec (the (recid_db st' p))) = rec_len (dr_rec (the (recid_db st p)))) \<Longrightarrow> db_total st' = db_total st"
  by (auto simp: db_total_def intro!: arg_cong[of _ _ sum_list])

lemma rec_unlink_ok:
  assumes inv: "db_inv st" and x: "recid_db st p = Some x"
  shows "\<exists>st'. rec_unlink p st = Inr st' \<and> db_inv st' \<and> recid_db st' = (recid_db st)(p := None) \<and>
    db_profile st' = db_profile st \<and> db_local_peerid st' = db_local_peerid st \<and> is_remote_db st' = is_remote_db st \<and>
    db_size st = db_size st' + rec_len (dr_rec x) \<and> set (distid_db st') \<subseteq> set (distid_db st)"
proof -
  have idx: "db_index st" and sz: "db_size st = db_total st" and lim: "db_limits st" using inv by (simp_all add: db_inv_def)
  let ?es = "distid_db st"
  let ?st = "st\<lparr>db_size := db_size st - rec_len (dr_rec x), recid_db := (recid_db st)(p := None)\<rparr>"
  obtain j where j: "j < length ?es" "get_iter_from_ptr (kr_keyid (dr_rec x)) p ?st = Inr j"
    "?es ! j = (get_distid (kr_keyid (dr_rec x)) st, p)"
    using get_iter_from_ptr_ok[OF idx x, of ?st] by auto
  let ?del = "take j ?es @ drop (Suc j) ?es" let ?st' = "?st\<lparr>distid_db := ?del\<rparr>"
  note R = set_remove_nth[OF j(1) db_indexD(3)[OF idx]]
  have np: "p \<notin> snd ` set ?del" using R(2) j(3) by simp
  have tot: "db_total st = rec_len (dr_rec x) + db_total ?st'"
  proof -
    have "(\<Sum>e\<leftarrow>?del. rec_len (dr_rec (the (recid_db st (snd e))))) =
        (\<Sum>e\<leftarrow>?del. rec_len (dr_rec (the (((recid_db st)(p := None)) (snd e)))))"
      using np by (intro arg_cong[of _ _ sum_list] map_cong) auto
    then show ?thesis
      using sum_list_remove_nth[OF j(1), of "\<lambda>e. rec_len (dr_rec (the (recid_db st (snd e))))"] j(3) x
      by (simp add: db_total_def comp_def)
  qed
  have eq: "rec_unlink p st = Inr ?st'"
  proof -
    have "rec_len (dr_rec x) \<le> db_size st" using tot sz by linarith
    then show ?thesis using x j(2) by (simp add: rec_unlink_def db_rec_at_def Let_def)
  qed
  have srt: "sorted (map (\<lambda>e. gen_id_val (fst e)) ?del)"
    using db_indexD(2)[OF idx] arg_cong[OF id_take_nth_drop[OF j(1)], of "\<lambda>ys. sorted (map (\<lambda>e. gen_id_val (fst e)) ys)"]
    by (simp add: sorted_append)
  have mem: "(k, q) \<in> set ?del \<longleftrightarrow>
      (\<exists>y. recid_db ?st' q = Some y \<and> k = get_distid (kr_keyid (dr_rec y)) ?st')" for k q
  proof (cases "q = p")
    case True
    then show ?thesis using np by (force simp: image_iff)
  next
    case False
    then have "(k, q) \<in> set ?del \<longleftrightarrow> (k, q) \<in> set ?es" using R(1) j(3) by auto
    then show ?thesis unfolding db_indexD(4)[OF idx, of k q] using False by (simp add: get_distid_def)
  qed
  have "db_index ?st'"
  proof (rule db_indexI)
    fix q y
    assume "recid_db ?st' q = Some y"
    then have "recid_db st q = Some y" by (simp split: if_splits)
    then show "kr_recid (dr_rec y) = q \<and> length q = kad_id_len \<and> length (kr_keyid (dr_rec y)) = kad_id_len"
      using db_indexD(5,6,7)[OF idx] by blast
  qed (use srt R(3) db_indexD(1)[OF idx] mem in simp_all)
  moreover have "db_limits ?st'"
  proof -
    have "distinct (map fst ?es) \<Longrightarrow> distinct (map fst ?del)" using set_remove_nth(3)[OF j(1)] by blast
    then show ?thesis using lim by (auto simp: db_limits_def)
  qed
  moreover have "db_size ?st' = db_size st - rec_len (dr_rec x)" by simp
  then have "db_size ?st' = db_total ?st'" "db_size st = db_size ?st' + rec_len (dr_rec x)" using tot sz by linarith+
  moreover have "set ?del \<subseteq> set ?es" using R(1) by blast
  ultimately show ?thesis using eq unfolding db_inv_def by (intro exI[of _ ?st']) simp
qed

lemma rec_dolink_ok:
  assumes inv: "db_inv st" and new: "recid_db st (kr_recid (dr_rec x)) = None"
    and len: "length (kr_recid (dr_rec x)) = kad_id_len" "length (kr_keyid (dr_rec x)) = kad_id_len"
    and lim: "kr_ttl (dr_rec x) \<le> rec_max_ttl (db_profile st)"
      "rec_max_len (db_profile st) \<noteq> 0 \<longrightarrow> rec_len (dr_rec x) \<le> rec_max_len (db_profile st)"
      "db_max_len (db_profile st) \<noteq> 0 \<longrightarrow> db_size st + rec_len (dr_rec x) \<le> db_max_len (db_profile st)"
      "keyid_nodups_ok (db_profile st) \<longrightarrow> get_distid (kr_keyid (dr_rec x)) st \<notin> fst ` set (distid_db st)"
  shows "\<exists>st'. rec_dolink x st = Inr st' \<and> db_inv st' \<and> recid_db st' = (recid_db st)(kr_recid (dr_rec x) \<mapsto> x) \<and>
    db_profile st' = db_profile st \<and> db_local_peerid st' = db_local_peerid st \<and> is_remote_db st' = is_remote_db st \<and>
    db_size st' = db_size st + rec_len (dr_rec x)"
proof -
  have idx: "db_index st" and sz: "db_size st = db_total st" and limits: "db_limits st" using inv by (simp_all add: db_inv_def)
  let ?p = "kr_recid (dr_rec x)" let ?k = "get_distid (kr_keyid (dr_rec x)) st" let ?es = "distid_db st"
  let ?st' = "st\<lparr>db_size := db_size st + rec_len (dr_rec x), distid_db := mm_insert ?k ?p ?es,
    recid_db := (recid_db st)(?p \<mapsto> x)\<rparr>"
  have eq: "rec_dolink x st = Inr ?st'" using new by (simp add: rec_dolink_def Let_def get_distid_def)
  have np: "?p \<notin> snd ` set ?es" using db_indexD(4)[OF idx, of _ ?p] new by auto
  have perm: "mset (mm_insert ?k ?p ?es) = mset ((?k, ?p) # ?es)" by (simp add: mset_mm_insert)
  have dist: "distinct (map f (mm_insert ?k ?p ?es)) \<longleftrightarrow> f (?k, ?p) \<notin> f ` set ?es \<and> distinct (map f ?es)" for f :: "bytes \<times> bytes \<Rightarrow> bytes"
    using mset_eq_imp_distinct_iff[of "map f (mm_insert ?k ?p ?es)" "map f ((?k, ?p) # ?es)"] perm by simp
  have "\<forall>e\<in>set ?es. length (fst e) = length ?k"
    using db_fst_len[OF idx] length_get_distid[OF idx len(2)] by simp
  then have srt: "sorted (map (\<lambda>e. gen_id_val (fst e)) (mm_insert ?k ?p ?es))"
    using sorted_mm_insert db_indexD(2)[OF idx] by blast
  have mem: "(a, q) \<in> insert (?k, ?p) (set ?es) \<longleftrightarrow>
      (\<exists>y. recid_db ?st' q = Some y \<and> a = get_distid (kr_keyid (dr_rec y)) ?st')" for a q
  proof (cases "q = ?p")
    case True
    then show ?thesis using np by (force simp: image_iff get_distid_def)
  next
    case False
    then have "(a, q) \<in> insert (?k, ?p) (set ?es) \<longleftrightarrow> (a, q) \<in> set ?es" by auto
    then show ?thesis unfolding db_indexD(4)[OF idx, of a q] using False by (simp add: get_distid_def)
  qed
  have "db_index ?st'"
  proof (rule db_indexI)
    fix q y
    assume "recid_db ?st' q = Some y"
    then have "recid_db st q = Some y \<or> y = x \<and> q = ?p" by (auto split: if_splits)
    then show "kr_recid (dr_rec y) = q \<and> length q = kad_id_len \<and> length (kr_keyid (dr_rec y)) = kad_id_len"
      using db_indexD(5,6,7)[OF idx] len by blast
  next
    show "distinct (map snd (distid_db ?st'))" using dist[of snd] np db_indexD(3)[OF idx] by simp
    show "(a, q) \<in> set (distid_db ?st') \<longleftrightarrow>
        (\<exists>y. recid_db ?st' q = Some y \<and> a = get_distid (kr_keyid (dr_rec y)) ?st')" for a q
      using mem[of a q] by simp
  qed (use srt db_indexD(1)[OF idx] in simp_all)
  moreover have "db_total ?st' = db_size st + rec_len (dr_rec x)"
  proof -
    let ?f = "\<lambda>e. rec_len (dr_rec (the (((recid_db st)(?p \<mapsto> x)) (snd e))))"
    have "sum_list (map ?f (mm_insert ?k ?p ?es)) = sum_list (map ?f ((?k, ?p) # ?es))"
      using arg_cong[OF perm, of "\<lambda>m. sum_mset (image_mset ?f m)"] by (simp only: mset_map[symmetric] sum_mset_sum_list)
    moreover have "sum_list (map ?f ?es) = (\<Sum>e\<leftarrow>?es. rec_len (dr_rec (the (recid_db st (snd e)))))"
      using np by (intro arg_cong[of _ _ sum_list] map_cong refl) (auto simp: image_iff)
    ultimately have "db_total ?st' = rec_len (dr_rec x) + db_total st" by (simp add: db_total_def comp_def)
    then show ?thesis using sz by linarith
  qed
  moreover have "db_limits ?st'"
    using limits lim dist[of fst] by (auto simp: db_limits_def)
  ultimately show ?thesis using eq by (simp add: db_inv_def)
qed

subsection \<open>The operations keep the invariant\<close>

text \<open>What an operation leaves alone.\<close>

definition same_db :: "kad_db_t \<Rightarrow> kad_db_t \<Rightarrow> bool" where
  "same_db st st' \<longleftrightarrow> db_profile st' = db_profile st \<and> db_local_peerid st' = db_local_peerid st \<and>
     is_remote_db st' = is_remote_db st"

lemma same_db_refl [simp]: "same_db st st"
  by (simp add: same_db_def)

lemma same_db_trans: "same_db a b \<Longrightarrow> same_db b c \<Longrightarrow> same_db a c"
  by (simp add: same_db_def)

lemma delay_compare_gr [simp]: "delay_compare a b > 0 \<longleftrightarrow> a > b"
  by (auto simp: delay_compare_def)

lemma contain_keyid_iff:
  assumes "db_index st" "length key = kad_id_len"
  shows "contain_keyid key st \<longleftrightarrow> get_distid key st \<in> fst ` set (distid_db st)"
  using db_fst_len[OF assms(1)] length_get_distid[OF assms]
  by (force simp: contain_keyid_def list_ex_iff gen_id_compare_eq_0)

abbreviation rec_ids_ok :: "kad_rec_t \<Rightarrow> bool" where
  "rec_ids_ok r \<equiv> length (kr_recid r) = kad_id_len \<and> length (kr_keyid r) = kad_id_len"

lemma may_acceptD:
  assumes "may_accept r st" "db_index st" "rec_ids_ok r"
  shows "kr_ttl r \<le> rec_max_ttl (db_profile st)"
    "rec_max_len (db_profile st) \<noteq> 0 \<longrightarrow> rec_len r \<le> rec_max_len (db_profile st)"
    "db_max_len (db_profile st) \<noteq> 0 \<longrightarrow> db_size st + rec_len r \<le> db_max_len (db_profile st)"
    "keyid_nodups_ok (db_profile st) \<longrightarrow> get_distid (kr_keyid r) st \<notin> fst ` set (distid_db st)"
  using assms contain_keyid_iff[of st "kr_keyid r"] by (auto simp: may_accept_def Let_def not_less split: if_splits)

definition db_entry :: "(kad_rec_t \<Rightarrow> delay_t) \<Rightarrow> kad_rec_t \<Rightarrow> kad_db_t \<Rightarrow> db_rec_t" where
  "db_entry cpu_republish_delay r st =
     \<lparr>dr_rec = r, dr_republish = cpu_republish_delay r, dr_expire = cpu_expire_delay r st\<rparr>"

lemma rec_ctor_ok:
  assumes "db_inv st" "rec_ids_ok r" "recid_db st (kr_recid r) = None" "may_accept r st"
  shows "\<exists>st'. rec_ctor c r st = Inr st' \<and> db_inv st' \<and> same_db st st' \<and>
    recid_db st' = (recid_db st)(kr_recid r \<mapsto> db_entry c r st) \<and> db_size st' = db_size st + rec_len r"
proof -
  note A = may_acceptD[OF assms(4) _ assms(2)]
  show ?thesis
    using rec_dolink_ok[of st "db_entry c r st"] assms(1,2,3) A
    by (auto simp: rec_ctor_def db_entry_def same_db_def db_inv_def)
qed

lemma may_accept_after_unlink:
  assumes "may_accept r st" "db_index st" "rec_ids_ok r" "db_index st'" "same_db st st'" "db_size st' \<le> db_size st"
    "set (distid_db st') \<subseteq> set (distid_db st)"
  shows "may_accept r st'"
proof -
  have "get_distid (kr_keyid r) st' = get_distid (kr_keyid r) st" using assms(5) by (simp add: get_distid_def same_db_def)
  then have "contain_keyid (kr_keyid r) st' \<Longrightarrow> contain_keyid (kr_keyid r) st"
    using assms(3,7) contain_keyid_iff[OF assms(2)] contain_keyid_iff[OF assms(4)] by auto
  then show ?thesis using assms(1,5,6) by (auto simp: may_accept_def Let_def same_db_def split: if_splits)
qed

lemma db_update_ok:
  assumes inv: "db_inv st" and ids: "rec_ids_ok r" and acc: "may_accept r st"
  shows "\<exists>st'. db_update c r st = Inr st' \<and> db_inv st' \<and> same_db st st' \<and> db_size st' \<le> db_size st + rec_len r \<and>
    recid_db st' = (case recid_db st (kr_recid r) of
        None \<Rightarrow> (recid_db st)(kr_recid r \<mapsto> db_entry c r st)
      | Some x \<Rightarrow> if kr_ttl (db_get_kad_rec x st) < kr_ttl r then (recid_db st)(kr_recid r \<mapsto> db_entry c r st)
                  else recid_db st)"
proof (cases "recid_db st (kr_recid r)")
  case None
  then show ?thesis using rec_ctor_ok[OF inv ids None acc, of c] acc by (auto simp: db_update_def)
next
  case (Some x)
  have id: "kr_recid (db_get_kad_rec x st) = kr_recid r"
    using db_indexD(5)[of st] Some inv by (simp add: db_get_kad_rec_def db_inv_def)
  show ?thesis
  proof (cases "kr_ttl (db_get_kad_rec x st) < kr_ttl r")
    case False
    then show ?thesis using Some acc inv id by (simp add: db_update_def is_tie_winner_against_def gen_id_compare_eq_0)
  next
    case True
    obtain st1 where st1: "rec_unlink (kr_recid r) st = Inr st1" "db_inv st1" "recid_db st1 = (recid_db st)(kr_recid r := None)"
      "same_db st st1" "db_size st = db_size st1 + rec_len (dr_rec x)" "set (distid_db st1) \<subseteq> set (distid_db st)"
      using rec_unlink_ok[OF inv Some] by (auto simp: same_db_def)
    have "may_accept r st1"
      using may_accept_after_unlink[OF acc _ ids _ st1(4)] inv st1 by (auto simp: db_inv_def)
    then obtain st2 where "rec_ctor c r st1 = Inr st2" "db_inv st2" "same_db st1 st2"
      "recid_db st2 = (recid_db st1)(kr_recid r \<mapsto> db_entry c r st1)" "db_size st2 = db_size st1 + rec_len r"
      using rec_ctor_ok[OF st1(2) ids, of c] st1(3) by auto
    moreover have "db_entry c r st1 = db_entry c r st"
      using st1(4) by (simp add: db_entry_def cpu_expire_delay_def same_db_def)
    ultimately show ?thesis
      using True Some acc st1 id same_db_trans
      by (auto simp: db_update_def is_tie_winner_against_def gen_id_compare_eq_0)
  qed
qed

end
