(* ===== verification/Cookie.thy ===== *)
theory Cookie
  imports GenId
begin

text \<open>
  Cookies against forged requests (\<open>neoip_netutils/cookie\<close>): \<open>cookie_db_t\<close> gives out a cookie for a path, the keyed hash of the
  path under a secret, and checks later that a request comes back with it.  The secret is renewed by a timer, and the
  previous one stays valid for one more period.  The keyed hash (\<open>sha1/hmac/20\<close> of \<open>skey_auth_t\<close>) is an argument, as are the secrets
  drawn at random; the sets of accepted cookies are lists.
\<close>

definition cookie_id_len :: nat where "cookie_id_len = 20"

record cookie_db_t =
  cur_accepted_db :: "bytes list"
  cur_secret :: bytes
  old_accepted_db :: "bytes list"
  old_secret :: bytes

definition cookie_db_ctor :: "bytes \<Rightarrow> cookie_db_t" where
  "cookie_db_ctor rand = \<lparr>cur_accepted_db = [], cur_secret = rand, old_accepted_db = [], old_secret = rand\<rparr>"

definition cookie_rekey_cb :: "bytes \<Rightarrow> cookie_db_t \<Rightarrow> cookie_db_t" where
  "cookie_rekey_cb rand st =
     st\<lparr>old_secret := cur_secret st, old_accepted_db := cur_accepted_db st, cur_secret := rand, cur_accepted_db := []\<rparr>"

definition cookie_cpu :: "(bytes \<Rightarrow> bytes \<Rightarrow> bytes) \<Rightarrow> bytes \<Rightarrow> bytes \<Rightarrow> bytes" where
  "cookie_cpu hmac pathid secret = hmac secret pathid"

definition cookie_generate :: "(bytes \<Rightarrow> bytes \<Rightarrow> bytes) \<Rightarrow> bytes \<Rightarrow> cookie_db_t \<Rightarrow> bytes" where
  "cookie_generate hmac pathid st = cookie_cpu hmac pathid (cur_secret st)"

definition cookie_accepted :: "bytes \<Rightarrow> bytes list \<Rightarrow> bool" where
  "cookie_accepted cookie_id db = list_ex (\<lambda>c. gen_id_compare c cookie_id = 0) db"

definition cookie_check :: "(bytes \<Rightarrow> bytes \<Rightarrow> bytes) \<Rightarrow> bytes \<Rightarrow> bytes \<Rightarrow> cookie_db_t \<Rightarrow> bool" where
  "cookie_check hmac pathid cookie_id st =
     (if gen_id_compare cookie_id (cookie_cpu hmac pathid (cur_secret st)) = 0
      then if cookie_accepted cookie_id (cur_accepted_db st) then False else True
      else if gen_id_compare cookie_id (cookie_cpu hmac pathid (old_secret st)) = 0
      then if cookie_accepted cookie_id (old_accepted_db st) then False else True
      else False)"

definition cookie_accept :: "(bytes \<Rightarrow> bytes \<Rightarrow> bytes) \<Rightarrow> bytes \<Rightarrow> bytes \<Rightarrow> cookie_db_t \<Rightarrow> cookie_db_t res" where
  "cookie_accept hmac pathid cookie_id st =
     (if gen_id_compare cookie_id (cookie_cpu hmac pathid (cur_secret st)) = 0
      then dbg_assert (\<not> cookie_accepted cookie_id (cur_accepted_db st))
             (Inr (st\<lparr>cur_accepted_db := cookie_id # cur_accepted_db st\<rparr>))
      else if gen_id_compare cookie_id (cookie_cpu hmac pathid (old_secret st)) = 0
      then dbg_assert (\<not> cookie_accepted cookie_id (old_accepted_db st))
             (Inr (st\<lparr>old_accepted_db := cookie_id # old_accepted_db st\<rparr>))
      else Inl Assert_failed)"

subsection \<open>Histories\<close>

text \<open>The users accept a cookie after they have checked it.\<close>

datatype cookie_op = Cookie_rekey bytes | Cookie_accept bytes bytes

fun cookie_exec :: "(bytes \<Rightarrow> bytes \<Rightarrow> bytes) \<Rightarrow> cookie_op \<Rightarrow> cookie_db_t \<Rightarrow> cookie_db_t res" where
  "cookie_exec hmac (Cookie_rekey rand) st = Inr (cookie_rekey_cb rand st)"
| "cookie_exec hmac (Cookie_accept pathid c) st = (if cookie_check hmac pathid c st then cookie_accept hmac pathid c st else Inr st)"

fun cookie_run :: "(bytes \<Rightarrow> bytes \<Rightarrow> bytes) \<Rightarrow> cookie_op list \<Rightarrow> cookie_db_t \<Rightarrow> cookie_db_t res" where
  "cookie_run hmac [] st = Inr st"
| "cookie_run hmac (op # ops) st = res_bind (cookie_exec hmac op st) (cookie_run hmac ops)"

fun cookie_secrets :: "cookie_op list \<Rightarrow> bytes list" where
  "cookie_secrets [] = []"
| "cookie_secrets (Cookie_rekey rand # ops) = rand # cookie_secrets ops"
| "cookie_secrets (op # ops) = cookie_secrets ops"

fun cookie_accepts :: "bytes \<Rightarrow> cookie_op \<Rightarrow> bool" where
  "cookie_accepts c (Cookie_accept pathid d) = (c = d)"
| "cookie_accepts c op = False"

lemma cookie_eq: "length a = length b \<Longrightarrow> gen_id_compare a b = 0 \<longleftrightarrow> a = b"
  using gen_id_val_inject[of a b] by (auto simp: gen_id_compare_val)

lemma cookie_accepted_iff:
  assumes "\<forall>d\<in>set db. length d = cookie_id_len" "length c = cookie_id_len"
  shows "cookie_accepted c db \<longleftrightarrow> c \<in> set db"
  using assms by (auto simp: cookie_accepted_def list_ex_iff cookie_eq)

lemma cookie_accept_then_refuse:
  assumes "cookie_check hmac pathid c st"
  shows "\<exists>st'. cookie_accept hmac pathid c st = Inr st' \<and> \<not> cookie_check hmac pathid c st'"
proof -
  have acc: "cookie_accepted c (c # db)" for db by (simp add: cookie_accepted_def cookie_eq)
  show ?thesis
  proof (cases "gen_id_compare c (cookie_cpu hmac pathid (cur_secret st)) = 0")
    case True
    then have "cookie_accept hmac pathid c st = Inr (st\<lparr>cur_accepted_db := c # cur_accepted_db st\<rparr>)"
      using assms by (simp add: cookie_check_def cookie_accept_def split: if_splits)
    then show ?thesis using True acc by (simp add: cookie_check_def)
  next
    case False
    then have "cookie_accept hmac pathid c st = Inr (st\<lparr>old_accepted_db := c # old_accepted_db st\<rparr>)"
      using assms by (simp add: cookie_check_def cookie_accept_def split: if_splits)
    then show ?thesis using False acc by (simp add: cookie_check_def)
  qed
qed

definition cookie_sane :: "cookie_db_t \<Rightarrow> bool" where
  "cookie_sane st \<longleftrightarrow> (\<forall>d\<in>set (cur_accepted_db st) \<union> set (old_accepted_db st). length d = cookie_id_len)"

text \<open>One step: the two secrets are the last two, and a cookie enters an accepted set only by \<open>accept\<close>.\<close>

lemma cookie_exec_ok:
  assumes "\<And>s p. length (hmac s p) = cookie_id_len" "cookie_sane st"
    "case op of Cookie_accept p d \<Rightarrow> length d = cookie_id_len | _ \<Rightarrow> True"
  shows "\<exists>st'. cookie_exec hmac op st = Inr st' \<and> cookie_sane st' \<and>
    (cur_secret st', old_secret st') =
      (case op of Cookie_rekey r \<Rightarrow> (r, cur_secret st) | _ \<Rightarrow> (cur_secret st, old_secret st)) \<and>
    (\<not> cookie_accepts c op \<longrightarrow> c \<notin> set (cur_accepted_db st) \<longrightarrow> c \<notin> set (cur_accepted_db st')) \<and>
    (\<not> cookie_accepts c op \<longrightarrow> c \<notin> set (cur_accepted_db st) \<union> set (old_accepted_db st) \<longrightarrow>
       c \<notin> set (cur_accepted_db st') \<union> set (old_accepted_db st'))"
proof (cases op)
  case (Cookie_rekey r)
  then show ?thesis using assms(2) by (auto simp: cookie_rekey_cb_def cookie_sane_def)
next
  case (Cookie_accept p d)
  then have d: "length d = cookie_id_len" using assms(3) by simp
  show ?thesis
  proof (cases "cookie_check hmac p d st")
    case True
    then show ?thesis
      using Cookie_accept assms(2) d
      by (auto simp: cookie_check_def cookie_accept_def cookie_sane_def split: if_splits)
  qed (use Cookie_accept assms(2) in simp)
qed

definition cookie_op_ok :: "cookie_op \<Rightarrow> bool" where
  "cookie_op_ok op = (case op of Cookie_accept p d \<Rightarrow> length d = cookie_id_len | Cookie_rekey r \<Rightarrow> True)"

definition last_two :: "bytes list \<Rightarrow> bytes \<times> bytes" where
  "last_two ss = (last ss, last (butlast ss))"

lemma cookie_run_ok:
  assumes "\<And>s p. length (hmac s p) = cookie_id_len" "cookie_sane st" "list_all cookie_op_ok ops" "\<not> list_ex (cookie_accepts c) ops"
    "c \<notin> set (cur_accepted_db st) \<union> set (old_accepted_db st)" "last_two ss = (cur_secret st, old_secret st)" "2 \<le> length ss"
  shows "\<exists>st'. cookie_run hmac ops st = Inr st' \<and> cookie_sane st' \<and> c \<notin> set (cur_accepted_db st') \<union> set (old_accepted_db st') \<and>
    (cur_secret st', old_secret st') = last_two (ss @ cookie_secrets ops)"
  using assms(2-)
proof (induction ops arbitrary: st ss)
  case (Cons op ops)
  have op: "case op of Cookie_accept p d \<Rightarrow> length d = cookie_id_len | _ \<Rightarrow> True" "\<not> cookie_accepts c op"
    using Cons.prems(2,3) by (auto simp: cookie_op_ok_def split: cookie_op.splits)
  obtain st1 where st1: "cookie_exec hmac op st = Inr st1" "cookie_sane st1"
    "(cur_secret st1, old_secret st1) = (case op of Cookie_rekey r \<Rightarrow> (r, cur_secret st) | _ \<Rightarrow> (cur_secret st, old_secret st))"
    "c \<notin> set (cur_accepted_db st1) \<union> set (old_accepted_db st1)"
    using cookie_exec_ok[where hmac = hmac and c = c, OF assms(1) Cons.prems(1) op(1)] op(2) Cons.prems(4) by blast
  let ?ss = "ss @ cookie_secrets [op]"
  have two: "last_two ?ss = (cur_secret st1, old_secret st1)" "2 \<le> length ?ss"
    using Cons.prems(5,6) st1(3) by (auto simp: last_two_def butlast_append split: cookie_op.splits)
  have "\<exists>st'. cookie_run hmac ops st1 = Inr st' \<and> cookie_sane st' \<and> c \<notin> set (cur_accepted_db st') \<union> set (old_accepted_db st') \<and>
    (cur_secret st', old_secret st') = last_two (?ss @ cookie_secrets ops)"
    using Cons.prems(2,3) by (intro Cons.IH st1(2,4) two) simp_all
  moreover have "cookie_secrets (op # ops) = cookie_secrets [op] @ cookie_secrets ops" by (cases op) simp_all
  ultimately show ?case using st1(1) by simp
qed simp

text \<open>C30. A cookie is accepted until the secret has been renewed twice, whatever other cookies are accepted in between; after
  two renewals it is refused, unless a later secret happens to give the same cookie; and once accepted itself it is refused.\<close>
theorem cookie_lifetime:
  assumes "\<And>s p. length (hmac s p) = cookie_id_len" "list_all cookie_op_ok ops" "\<not> list_ex (cookie_accepts c) ops"
    "cookie_sane st" "c = cookie_generate hmac pathid st" "c \<notin> set (cur_accepted_db st) \<union> set (old_accepted_db st)"
  shows "\<exists>st'. cookie_run hmac ops st = Inr st' \<and>
    (length (cookie_secrets ops) \<le> 1 \<longrightarrow> cookie_check hmac pathid c st' \<and>
       (\<exists>st''. cookie_accept hmac pathid c st' = Inr st'' \<and> \<not> cookie_check hmac pathid c st'')) \<and>
    (length (cookie_secrets ops) \<ge> 2 \<and> (\<forall>s\<in>set (cookie_secrets ops). hmac s pathid \<noteq> c) \<longrightarrow> \<not> cookie_check hmac pathid c st')"
proof -
  obtain st' where st': "cookie_run hmac ops st = Inr st'" "cookie_sane st'"
    "c \<notin> set (cur_accepted_db st') \<union> set (old_accepted_db st')"
    "(cur_secret st', old_secret st') = last_two ([old_secret st, cur_secret st] @ cookie_secrets ops)"
  proof -
    have "last_two [old_secret st, cur_secret st] = (cur_secret st, old_secret st)" "2 \<le> length [old_secret st, cur_secret st]"
      by (simp_all add: last_two_def)
    from cookie_run_ok[where hmac = hmac, OF assms(1,4,2,3,6) this] that show thesis by blast
  qed
  let ?ss = "cookie_secrets ops"
  have len: "length c = cookie_id_len" "length (cookie_cpu hmac pathid s) = cookie_id_len" for s
    using assms(1,5) by (simp_all add: cookie_generate_def cookie_cpu_def)
  have c: "c = hmac (cur_secret st) pathid" using assms(5) by (simp add: cookie_generate_def cookie_cpu_def)
  have check: "cookie_check hmac pathid c st' \<longleftrightarrow> c = hmac (cur_secret st') pathid \<or> c = hmac (old_secret st') pathid"
    using st'(2,3) len cookie_accepted_iff[of _ c]
    by (auto simp: cookie_check_def cookie_eq cookie_cpu_def cookie_sane_def)
  have "cookie_check hmac pathid c st'" if "length ?ss \<le> 1"
    using that st'(4) check c by (cases ?ss) (auto simp: last_two_def)
  moreover have "\<exists>st''. cookie_accept hmac pathid c st' = Inr st'' \<and> \<not> cookie_check hmac pathid c st''" if "cookie_check hmac pathid c st'"
    using cookie_accept_then_refuse[OF that] .
  moreover have "\<not> cookie_check hmac pathid c st'" if "length ?ss \<ge> 2" "\<forall>s\<in>set ?ss. hmac s pathid \<noteq> c"
  proof -
    have "?ss \<noteq> []" "butlast ?ss \<noteq> []" using that(1) by (auto simp flip: length_greater_0_conv)
    then have "cur_secret st' \<in> set ?ss" "old_secret st' \<in> set ?ss"
      using st'(4) by (auto simp: last_two_def butlast_append dest: in_set_butlastD last_in_set)
    then show ?thesis using check that(2) by metis
  qed
  ultimately show ?thesis using st'(1) by blast
qed

definition cookie_ex_hmac :: "bytes \<Rightarrow> bytes \<Rightarrow> bytes" where
  "cookie_ex_hmac s p = take 20 (s @ replicate 20 0)"

theorem cookie_lifetime_witness:
  "\<exists>st'. cookie_run cookie_ex_hmac [Cookie_rekey [8], Cookie_accept [5] (replicate 20 1)] (cookie_db_ctor [7]) = Inr st' \<and>
     cookie_check cookie_ex_hmac [5] (cookie_generate cookie_ex_hmac [5] (cookie_db_ctor [7])) st'"
proof -
  let ?ops = "[Cookie_rekey [8], Cookie_accept [5] (replicate 20 1)]"
  let ?c = "cookie_generate cookie_ex_hmac [5] (cookie_db_ctor [7])"
  have len: "\<And>s p. length (cookie_ex_hmac s p) = cookie_id_len" by (simp add: cookie_ex_hmac_def cookie_id_len_def)
  have ok: "list_all cookie_op_ok ?ops" "\<not> list_ex (cookie_accepts ?c) ?ops" by code_simp+
  have sane: "cookie_sane (cookie_db_ctor [7])"
    "?c \<notin> set (cur_accepted_db (cookie_db_ctor [7])) \<union> set (old_accepted_db (cookie_db_ctor [7]))"
    by (simp_all add: cookie_sane_def cookie_db_ctor_def)
  have "length (cookie_secrets ?ops) \<le> 1" by simp
  then show ?thesis using cookie_lifetime[where hmac = cookie_ex_hmac, OF len ok sane(1) refl sane(2)] by blast
qed

end
