(* ===== verification/Pkttype.thy ===== *)
theory Pkttype
  imports SerialCodec
begin

text \<open>
  Packet types and arrays of items (\<open>neoip_base/tools/pkttype\<close>, \<open>neoip_base/tools/item_arr\<close>).  A packet type is a number: the
  rank of its name in the order of registration, plus the offset of a profile that also says how wide the
  number is on the wire.  The map of a class of packet types is the list of the names with their ranks.  An \<open>item_arr_t\<close> is
  a list; the comparison of the items is an argument.  Display strings and xmlrpc are not modelled.
\<close>

subsection \<open>Packet types\<close>

datatype pkttype_serial_t = PT_NONE | PT_UINT8 | PT_UINT16 | PT_UINT32

record pkttype_profile_t =
  pt_serial_type :: pkttype_serial_t
  pt_offset :: nat
  pt_nb_reserved :: nat

definition pkttype_profile_is_null :: "pkttype_profile_t \<Rightarrow> bool" where
  "pkttype_profile_is_null p = (pt_serial_type p = PT_NONE)"

definition pkttype_in_range :: "pkttype_profile_t \<Rightarrow> nat \<Rightarrow> bool" where
  "pkttype_in_range p val = (val \<ge> pt_offset p \<and> val < pt_offset p + pt_nb_reserved p)"

definition pkttype_serialize :: "pkttype_profile_t \<Rightarrow> nat \<Rightarrow> bytes res" where
  "pkttype_serialize p val =
     dbg_assert (pkttype_in_range p val)
      (dbg_assert (\<not> pkttype_profile_is_null p)
        (case pt_serial_type p of
           PT_UINT8 \<Rightarrow> Inr (put_uint8 (word_of_nat val))
         | PT_UINT16 \<Rightarrow> Inr (put_uint16 (word_of_nat val))
         | PT_UINT32 \<Rightarrow> Inr (put_uint32 (word_of_nat val))
         | PT_NONE \<Rightarrow> Inl Assert_failed))"

definition pkttype_unserialize :: "pkttype_profile_t \<Rightarrow> nat reader" where
  "pkttype_unserialize p bs =
     dbg_assert (\<not> pkttype_profile_is_null p)
      (res_bind
        (case pt_serial_type p of
           PT_UINT8 \<Rightarrow> res_bind (get_uint8 bs) (\<lambda>(tmp, bs). Inr (unat tmp, bs))
         | PT_UINT16 \<Rightarrow> res_bind (get_uint16 bs) (\<lambda>(tmp, bs). Inr (unat tmp, bs))
         | PT_UINT32 \<Rightarrow> res_bind (get_uint32 bs) (\<lambda>(tmp, bs). Inr (unat tmp, bs))
         | PT_NONE \<Rightarrow> Inl Assert_failed)
        (\<lambda>(val, bs). dbg_assert (pkttype_in_range p val) (Inr (val, bs))))"

type_synonym pkttype_map = "(string \<times> nat) list"

definition pkttype_register :: "string \<Rightarrow> pkttype_map \<Rightarrow> pkttype_map res" where
  "pkttype_register pkttype_str m =
     (let max_val = foldl max 0 (map snd m); idx = (if m = [] then 0 else max_val + 1) in
      dbg_assert (map_of m pkttype_str = None) (Inr (m @ [(pkttype_str, idx)])))"

fun init_pkttype_map :: "string list \<Rightarrow> pkttype_map \<Rightarrow> pkttype_map res" where
  "init_pkttype_map [] m = Inr m"
| "init_pkttype_map (s # ss) m = res_bind (pkttype_register s m) (init_pkttype_map ss)"

definition get_pkttype :: "pkttype_map \<Rightarrow> pkttype_profile_t \<Rightarrow> string \<Rightarrow> nat res" where
  "get_pkttype m p pkttype_str =
     dbg_assert (\<not> pkttype_profile_is_null p)
      (case map_of m pkttype_str of None \<Rightarrow> Inl Assert_failed | Some i \<Rightarrow> Inr (i + pt_offset p))"

text \<open>The profiles that the program uses: every value of the range fits the width on the wire.\<close>

definition pkttype_width :: "pkttype_serial_t \<Rightarrow> nat" where
  "pkttype_width t = (case t of PT_NONE \<Rightarrow> 0 | PT_UINT8 \<Rightarrow> 8 | PT_UINT16 \<Rightarrow> 16 | PT_UINT32 \<Rightarrow> 32)"

definition pkttype_profile_sane :: "pkttype_profile_t \<Rightarrow> bool" where
  "pkttype_profile_sane p \<longleftrightarrow> \<not> pkttype_profile_is_null p \<and>
     pt_offset p + pt_nb_reserved p \<le> 2 ^ pkttype_width (pt_serial_type p)"

lemma pkttype_serialize_ok:
  assumes "pkttype_profile_sane p" "pkttype_in_range p v"
  shows "\<exists>bs. pkttype_serialize p v = Inr bs \<and> (\<forall>rest. pkttype_unserialize p (bs @ rest) = Inr (v, rest))"
proof -
  have v: "v < 2 ^ pkttype_width (pt_serial_type p)" using assms by (simp add: pkttype_profile_sane_def pkttype_in_range_def)
  show ?thesis
  proof (cases "pt_serial_type p")
    case PT_NONE
    then show ?thesis using assms by (simp add: pkttype_profile_sane_def pkttype_profile_is_null_def)
  next
    case PT_UINT8
    then have "unat (word_of_nat v :: 8 word) = v" using v by (simp add: pkttype_width_def unat_of_nat take_bit_nat_eq_self)
    then show ?thesis
      using PT_UINT8 assms by (simp add: pkttype_serialize_def pkttype_unserialize_def pkttype_profile_is_null_def
          uint8_codec.get_put)
  next
    case PT_UINT16
    then have "unat (word_of_nat v :: 16 word) = v" using v by (simp add: pkttype_width_def unat_of_nat take_bit_nat_eq_self)
    then show ?thesis
      using PT_UINT16 assms by (simp add: pkttype_serialize_def pkttype_unserialize_def pkttype_profile_is_null_def
          uint16_codec.get_put)
  next
    case PT_UINT32
    then have "unat (word_of_nat v :: 32 word) = v" using v by (simp add: pkttype_width_def unat_of_nat take_bit_nat_eq_self)
    then show ?thesis
      using PT_UINT32 assms by (simp add: pkttype_serialize_def pkttype_unserialize_def pkttype_profile_is_null_def
          uint32_codec.get_put)
  qed
qed

subsection \<open>Arrays of items\<close>

definition SIZE_T_MAX :: nat where "SIZE_T_MAX = 2 ^ 64 - 1"

fun item_find_from :: "('a \<Rightarrow> 'a \<Rightarrow> int) \<Rightarrow> 'a \<Rightarrow> nat \<Rightarrow> 'a list \<Rightarrow> nat" where
  "item_find_from cmp item i [] = SIZE_T_MAX"
| "item_find_from cmp item i (x # xs) = (if cmp x item = 0 then i else item_find_from cmp item (Suc i) xs)"

definition item_find :: "('a \<Rightarrow> 'a \<Rightarrow> int) \<Rightarrow> 'a \<Rightarrow> 'a list \<Rightarrow> nat" where
  "item_find cmp item arr = item_find_from cmp item 0 arr"

definition item_contain :: "('a \<Rightarrow> 'a \<Rightarrow> int) \<Rightarrow> 'a \<Rightarrow> 'a list \<Rightarrow> bool" where
  "item_contain cmp item arr = (item_find cmp item arr \<noteq> SIZE_T_MAX)"

fun find_first_common :: "('a \<Rightarrow> 'a \<Rightarrow> int) \<Rightarrow> 'a list \<Rightarrow> 'a list \<Rightarrow> 'a option" where
  "find_first_common cmp [] other = None"
| "find_first_common cmp (x # xs) other = (if item_contain cmp x other then Some x else find_first_common cmp xs other)"

fun items_compare :: "('a \<Rightarrow> 'a \<Rightarrow> int) \<Rightarrow> 'a list \<Rightarrow> 'a list \<Rightarrow> int" where
  "items_compare cmp (x # xs) (y # ys) =
     (if cmp x y > 0 then 1 else if cmp x y < 0 then -1 else items_compare cmp xs ys)"
| "items_compare cmp xs ys = 0"

definition item_arr_compare :: "('a \<Rightarrow> 'a \<Rightarrow> int) \<Rightarrow> 'a list \<Rightarrow> 'a list \<Rightarrow> int" where
  "item_arr_compare cmp a b =
     (if length a > length b then 1 else if length a < length b then -1 else items_compare cmp a b)"

definition item_remove :: "nat \<Rightarrow> 'a list \<Rightarrow> 'a list res" where
  "item_remove idx arr = dbg_assert (idx < length arr) (Inr (take idx arr @ drop (Suc idx) arr))"

text \<open>\<open>pop_front\<close> reads the first item without a test.\<close>

fun item_pop_front :: "'a list \<Rightarrow> ('a \<times> 'a list) res" where
  "item_pop_front [] = Inl Out_of_bounds"
| "item_pop_front (x # xs) = Inr (x, xs)"

definition put_item_arr :: "('a \<Rightarrow> bytes) \<Rightarrow> 'a list \<Rightarrow> bytes" where
  "put_item_arr put arr = put_uint32 (word_of_nat (length arr)) @ concat (map put arr)"

fun get_items :: "'a reader \<Rightarrow> nat \<Rightarrow> 'a list reader" where
  "get_items get 0 bs = Inr ([], bs)"
| "get_items get (Suc n) bs =
     res_bind (get bs) (\<lambda>(item, bs). res_bind (get_items get n bs) (\<lambda>(items, bs). Inr (item # items, bs)))"

definition get_item_arr :: "'a reader \<Rightarrow> 'a list reader" where
  "get_item_arr get bs = res_bind (get_uint32 bs) (\<lambda>(nb_elem, bs). get_items get (unat nb_elem) bs)"

lemma item_find_from_spec:
  assumes "i + length arr < SIZE_T_MAX"
  shows "(\<exists>x\<in>set arr. cmp x item = 0) \<longleftrightarrow> item_find_from cmp item i arr \<noteq> SIZE_T_MAX"
  using assms by (induction arr arbitrary: i) auto

lemma find_first_common_spec:
  assumes "length other < SIZE_T_MAX" "\<And>x y. cmp x y = 0 \<longleftrightarrow> x = y"
  shows "find_first_common cmp arr other = find (\<lambda>x. x \<in> set other) arr"
proof -
  have "item_contain cmp x other \<longleftrightarrow> x \<in> set other" for x
    using item_find_from_spec[of 0 other cmp x] assms by (auto simp: item_contain_def item_find_def)
  then show ?thesis by (induction arr) auto
qed

lemma items_compare_eq_0:
  assumes "\<And>x y. cmp x y = 0 \<longleftrightarrow> x = y"
  shows "length a = length b \<Longrightarrow> items_compare cmp a b = 0 \<longleftrightarrow> a = b"
proof (induction a b rule: list_induct2)
  case (Cons x xs y ys)
  then show ?case using assms[of x y] by auto
qed simp

lemma item_arr_compare_eq_0:
  assumes "\<And>x y. cmp x y = 0 \<longleftrightarrow> x = y"
  shows "item_arr_compare cmp a b = 0 \<longleftrightarrow> a = b"
  using items_compare_eq_0[OF assms, of a b] by (auto simp: item_arr_compare_def)

text \<open>An array of items is a codec when the items are one.\<close>

locale item_codec = serial_codec
begin

lemma get_items_put: "\<forall>x\<in>set arr. ok x \<Longrightarrow> get_items get (length arr) (concat (map put arr) @ rest) = Inr (arr, rest)"
  by (induction arr) (simp_all add: get_put)

lemma get_items_prefix: "get_items get n bs = Inr (arr, rest) \<Longrightarrow> \<exists>p. bs = p @ rest"
proof (induction n arbitrary: bs arr)
  case (Suc n)
  then obtain x bs' xs where "get bs = Inr (x, bs')" "get_items get n bs' = Inr (xs, rest)"
    by (auto simp: res_bind_eq_Inr_iff)
  then show ?case using get_prefix Suc.IH by (metis append_assoc)
qed simp

lemma item_arr_codec: "serial_codec (put_item_arr put) (get_item_arr get) (\<lambda>arr. length arr < 2 ^ 32 \<and> (\<forall>x\<in>set arr. ok x))"
proof unfold_locales
  fix arr :: "'a list" and rest
  assume "length arr < 2 ^ 32 \<and> (\<forall>x\<in>set arr. ok x)"
  then show "get_item_arr get (put_item_arr put arr @ rest) = Inr (arr, rest)"
    by (simp add: put_item_arr_def get_item_arr_def uint32_codec.get_put get_items_put unat_of_nat_32)
next
  fix bs arr rest
  assume "get_item_arr get bs = Inr (arr, rest)"
  then obtain n bs' where "get_uint32 bs = Inr (n, bs')" "get_items get (unat n) bs' = Inr (arr, rest)"
    by (auto simp: get_item_arr_def res_bind_eq_Inr_iff)
  then show "\<exists>p. bs = p @ rest" using uint32_codec.get_prefix get_items_prefix by (metis append_assoc)
qed

end

end
