(* ===== verification/Aview.thy ===== *)
theory Aview
  imports Inet
begin

text \<open>
  The views of a listen address (\<open>neoip_inet/base/address/ipport_aview\<close>): behind a NAT box the address where a peer
  listens is not the one by which others reach it.  \<open>listen_aview2xmit\<close> chooses the address a peer tells another one, and
  \<open>listen_xmit2dest\<close> turns it into a destination address.  The functions that read the configuration and bind sockets are
  not modelled.
\<close>

record ipport_aview_t =
  lview :: ipport_addr_t
  pview :: ipport_addr_t

definition ipport_null :: ipport_addr_t where
  "ipport_null = \<lparr>m_ipaddr = Ip_null, m_port = 0\<rparr>"

definition aview_is_null :: "ipport_aview_t \<Rightarrow> bool" where
  "aview_is_null v = (if ipport_is_null (lview v) then True else False)"

definition any_or_qualified :: "ip_addr_t \<Rightarrow> bool res" where
  "any_or_qualified a = res_if (is_any a) (Inr True) (ip_is_fully_qualified a)"

definition is_sane_common :: "ipport_aview_t \<Rightarrow> bool res" where
  "is_sane_common v =
     dbg_assert (\<not> ipport_is_null (lview v))
      (res_bind (any_or_qualified (m_ipaddr (lview v))) (\<lambda>ok. dbg_assert ok
        (if \<not> ipport_is_null (pview v)
         then dbg_assert (m_port (pview v) \<noteq> 0)
               (res_bind (any_or_qualified (m_ipaddr (pview v))) (\<lambda>ok. dbg_assert ok (Inr True)))
         else Inr True)))"

definition is_run_ok :: "ipport_aview_t \<Rightarrow> bool res" where
  "is_run_ok v =
     res_bind (is_sane_common v) (\<lambda>sane. dbg_assert sane (dbg_assert (m_port (lview v) \<noteq> 0) (Inr True)))"

definition is_cfg_ok :: "ipport_aview_t \<Rightarrow> bool res" where
  "is_cfg_ok v = res_bind (is_sane_common v) (\<lambda>sane. dbg_assert sane (Inr True))"

definition update_once_bound :: "ipport_addr_t \<Rightarrow> ipport_aview_t \<Rightarrow> ipport_aview_t res" where
  "update_once_bound bound_lview v =
     res_bind (is_cfg_ok v) (\<lambda>ok. dbg_assert ok
       (let v = v\<lparr>lview := bound_lview\<rparr> in res_bind (is_run_ok v) (\<lambda>ok. dbg_assert ok (Inr v))))"

definition listen_aview2xmit :: "ipport_aview_t \<Rightarrow> ipport_addr_t \<Rightarrow> ipport_addr_t res" where
  "listen_aview2xmit listen_aview dst_ipport =
     res_bind (ipport_is_fully_qualified dst_ipport) (\<lambda>fq. dbg_assert fq
      (res_bind (is_run_ok listen_aview) (\<lambda>ok. dbg_assert ok
        (res_bind (is_public (m_ipaddr dst_ipport)) (\<lambda>public.
           if \<not> public then Inr (lview listen_aview)
           else if \<not> ipport_is_null (pview listen_aview) then Inr (pview listen_aview)
           else Inr ipport_null)))))"

definition listen_xmit2dest :: "ipport_addr_t \<Rightarrow> ipport_addr_t \<Rightarrow> ipport_addr_t res" where
  "listen_xmit2dest xmit_listen_ipport src_ipport =
     res_bind (ipport_is_fully_qualified src_ipport) (\<lambda>fq. dbg_assert fq
      (if ipport_is_null xmit_listen_ipport then Inr ipport_null
       else dbg_assert (\<not> ip_is_null (m_ipaddr xmit_listen_ipport) \<and> m_port xmit_listen_ipport \<noteq> 0)
        (if \<not> (\<not> ip_is_null (m_ipaddr xmit_listen_ipport) \<and> m_port xmit_listen_ipport \<noteq> 0) then Inr ipport_null
         else res_if (ip_is_fully_qualified (m_ipaddr xmit_listen_ipport)) (Inr xmit_listen_ipport)
             (res_if (is_any (m_ipaddr xmit_listen_ipport))
               (let dest_ipport = xmit_listen_ipport\<lparr>m_ipaddr := m_ipaddr src_ipport\<rparr> in
                res_bind (ipport_is_fully_qualified dest_ipport) (\<lambda>fq. dbg_assert fq (Inr dest_ipport)))
               (Inl Assert_failed)))))"

subsection \<open>Lemmas\<close>

definition listens_ok :: "ipport_addr_t \<Rightarrow> bool" where
  "listens_ok a \<longleftrightarrow> m_port a \<noteq> 0 \<and> (is_any (m_ipaddr a) = Inr True \<or> ip_is_fully_qualified (m_ipaddr a) = Inr True)"

lemma is_any_ok: "\<exists>b. is_any a = Inr b"
  by (auto simp: is_any_def)

lemma any_or_qualified_iff:
  "any_or_qualified a = Inr (is_any a = Inr True \<or> ip_is_fully_qualified a = Inr True)"
  using is_any_ok[of a] ip_is_fully_qualified_ok[of a] by (auto simp: any_or_qualified_def)

lemma ipport_fq_iff:
  "ipport_is_fully_qualified a = Inr (ip_is_fully_qualified (m_ipaddr a) = Inr True \<and> m_port a \<noteq> 0)"
  using ip_is_fully_qualified_ok[of "m_ipaddr a"] by (auto simp: ipport_is_fully_qualified_def)

lemma listens_ok_not_null: "listens_ok a \<Longrightarrow> \<not> ipport_is_null a"
  by (auto simp: listens_ok_def ipport_is_null_def is_any_def ip_is_fully_qualified_def ip_is_null_def)

lemma is_run_ok_iff:
  "is_run_ok v = Inr True \<longleftrightarrow> listens_ok (lview v) \<and> (ipport_is_null (pview v) \<or> listens_ok (pview v))"
  using listens_ok_not_null[of "lview v"] listens_ok_not_null[of "pview v"]
  by (auto simp: is_run_ok_def is_sane_common_def any_or_qualified_iff listens_ok_def res_simps split: if_splits)

lemma is_public_ok: "\<exists>b. is_public a = Inr b"
  by (cases a) (auto simp: is_public_v4 is_public_def[of Ip_null] ip_is_null_def)

lemma listen_aview2xmit_spec:
  assumes "is_run_ok v = Inr True" "ipport_is_fully_qualified dst = Inr True"
  shows "listen_aview2xmit v dst =
    Inr (if is_public (m_ipaddr dst) = Inr True then if ipport_is_null (pview v) then ipport_null else pview v else lview v)"
  using assms is_public_ok[of "m_ipaddr dst"] by (auto simp: listen_aview2xmit_def)

text \<open>The destination of a peer that told us \<open>x\<close>; a told address that is neither null nor usable stops the process.\<close>

definition xmit_dest :: "ipport_addr_t \<Rightarrow> ipport_addr_t \<Rightarrow> ipport_addr_t" where
  "xmit_dest x src = (if ip_is_fully_qualified (m_ipaddr x) = Inr True then x else x\<lparr>m_ipaddr := m_ipaddr src\<rparr>)"

lemma listen_xmit2dest_spec:
  assumes "ipport_is_fully_qualified src = Inr True"
  shows "listen_xmit2dest x src =
    (if ipport_is_null x then Inr ipport_null
     else if listens_ok x then Inr (xmit_dest x src) else Inl Assert_failed)"
proof -
  obtain any fq where a: "is_any (m_ipaddr x) = Inr any" and f: "ip_is_fully_qualified (m_ipaddr x) = Inr fq"
    using is_any_ok ip_is_fully_qualified_ok by blast
  show ?thesis
    using assms a f
    by (auto simp: listen_xmit2dest_def listens_ok_def xmit_dest_def ipport_fq_iff ipport_is_null_def)
qed

lemma xmit_dest_fq:
  "listens_ok x \<Longrightarrow> ipport_is_fully_qualified src = Inr True \<Longrightarrow> ipport_is_fully_qualified (xmit_dest x src) = Inr True"
  by (auto simp: xmit_dest_def ipport_fq_iff listens_ok_def)

subsection \<open>Property\<close>

text \<open>The address that a running peer tells another one leads back to it: the other peer gets an address that can be
  used as a destination, with the port of the view that was chosen, or learns that the peer cannot be reached, which
  happens only when the other peer is on the public internet and there is no public view.  No assertion fails.\<close>
lemma listen_address_reaches:
  assumes "is_run_ok v = Inr True" "ipport_is_fully_qualified dst = Inr True" "ipport_is_fully_qualified src = Inr True"
  shows "\<exists>x d. listen_aview2xmit v dst = Inr x \<and> listen_xmit2dest x src = Inr d \<and>
    (if is_public (m_ipaddr dst) = Inr True \<and> ipport_is_null (pview v) then ipport_is_null d
     else ipport_is_fully_qualified d = Inr True \<and>
       m_port d = m_port (if is_public (m_ipaddr dst) = Inr True then pview v else lview v))"
proof -
  let ?x = "if is_public (m_ipaddr dst) = Inr True then if ipport_is_null (pview v) then ipport_null else pview v else lview v"
  have ok: "listens_ok (lview v)" "ipport_is_null (pview v) \<or> listens_ok (pview v)" using assms(1) by (simp_all add: is_run_ok_iff)
  have port: "m_port (xmit_dest y src) = m_port y" for y by (simp add: xmit_dest_def)
  have null: "ipport_is_null ipport_null" by (simp add: ipport_null_def ipport_is_null_def ip_is_null_def)
  have dest: "listen_xmit2dest y src = Inr (xmit_dest y src)" if "listens_ok y" for y
    using listen_xmit2dest_spec[OF assms(3), of y] listens_ok_not_null[OF that] that by simp
  show ?thesis
    by (rule exI[of _ ?x])
      (use dest ok listen_aview2xmit_spec[OF assms(1,2)] null xmit_dest_fq[OF _ assms(3)]
        listen_xmit2dest_spec[OF assms(3), of ipport_null] in \<open>auto simp: port\<close>)
qed

end
