(* ===== verification/KadRpc.thy ===== *)
theory KadRpc
  imports Kbucket KadDb Cookie Pkttype Aview
begin

text \<open>
  A peer of the distributed hash table and its remote procedure calls: \<open>kad_peer_t\<close> with its routing table, its databases
  and its \<open>rpc_server_t\<close> (\<open>neoip_kad/peer\<close>), the headers of \<open>kad_rpc_common_t\<close> (\<open>neoip_kad/base/rpc_common\<close>), and on the side of the
  caller \<open>kad_client_rpc_t\<close> with the payloads of the calls (\<open>neoip_kad/client_rpc\<close>).  A packet is its bytes; the null packet
  that says that there is no reply is the empty one.

  \<open>DBG_ASSERT\<close> and \<open>DBGNET_ASSERT\<close> are both failed assertions here, as in the builds that have them.  A \<open>serial_except_t\<close> that
  the code catches is \<open>None\<close>.  Sockets, retransmission and the time outs of a call (\<open>kad_clicnx_t\<close>, with its byte counts), bootstrap and the listener are
  not modelled: the bytes of a packet and the addresses of its connection are arguments.  The keyed hash of the
  cookies, the republish delays and the random numbers (pairs below the number of records) are arguments; \<open>started\<close> says whether a ping could be sent.
\<close>

subsection \<open>Profiles and statistics\<close>

record kad_rpc_profile_t =
  ping_rpc_ok :: bool
  store_rpc_ok :: bool
  findnode_rpc_ok :: bool
  findsomeval_rpc_ok :: bool
  findallval_rpc_ok :: bool
  delete_rpc_ok :: bool
  cookie_store_ok :: bool
  cookie_delete_ok :: bool
  replypkt_maxlen :: nat
  req_nonce_in_pkt_ok :: bool
  dest_peerid_in_pkt_ok :: bool
  realmid_in_pkt_ok :: bool

definition kad_rpc_profile_ctor :: kad_rpc_profile_t where
  "kad_rpc_profile_ctor =
     \<lparr>ping_rpc_ok = True, store_rpc_ok = True, findnode_rpc_ok = True, findsomeval_rpc_ok = True, findallval_rpc_ok = True,
      delete_rpc_ok = True, cookie_store_ok = True, cookie_delete_ok = True, replypkt_maxlen = 1200,
      req_nonce_in_pkt_ok = True, dest_peerid_in_pkt_ok = True, realmid_in_pkt_ok = True\<rparr>"

definition cookie_in_reply_ok :: "kad_rpc_profile_t \<Rightarrow> bool" where
  "cookie_in_reply_ok p = (cookie_store_ok p \<or> cookie_delete_ok p)"

record kad_profile_t =
  profile_pkttype :: pkttype_profile_t
  profile_rpc :: kad_rpc_profile_t
  profile_kbucket :: kad_kbucket_profile_t
  profile_local_db :: kad_db_profile_t
  profile_remote_db :: kad_db_profile_t

definition kad_profile_ctor :: kad_profile_t where
  "kad_profile_ctor =
     \<lparr>profile_pkttype = \<lparr>pt_serial_type = PT_UINT8, pt_offset = 0, pt_nb_reserved = 16\<rparr>, profile_rpc = kad_rpc_profile_ctor,
      profile_kbucket = kad_kbucket_profile_ctor, profile_local_db = build_local_db, profile_remote_db = build_remote_db\<rparr>"

record kad_stat_t =
  nb_ping_sent :: "64 word"
  nb_ping_recv :: "64 word"
  nb_store_sent :: "64 word"
  nb_store_recv :: "64 word"
  nb_findnode_sent :: "64 word"
  nb_findnode_recv :: "64 word"
  nb_findsomeval_sent :: "64 word"
  nb_findsomeval_recv :: "64 word"
  nb_findallval_sent :: "64 word"
  nb_findallval_recv :: "64 word"
  nb_delete_sent :: "64 word"
  nb_delete_recv :: "64 word"
  nb_byte_sent :: "64 word"
  nb_byte_recv :: "64 word"

definition kad_stat_ctor :: kad_stat_t where
  "kad_stat_ctor =
     \<lparr>nb_ping_sent = 0, nb_ping_recv = 0,
      nb_store_sent = 0, nb_store_recv = 0,
      nb_findnode_sent = 0, nb_findnode_recv = 0,
      nb_findsomeval_sent = 0, nb_findsomeval_recv = 0,
      nb_findallval_sent = 0, nb_findallval_recv = 0,
      nb_delete_sent = 0, nb_delete_recv = 0,
      nb_byte_sent = 0, nb_byte_recv = 0\<rparr>"

subsection \<open>Packet types\<close>

definition kad_pkttype_names :: "string list" where
  "kad_pkttype_names =
     [''PING_REQUEST'', ''PING_REPLY'', ''STORE_REQUEST'', ''STORE_REPLY'', ''FINDNODE_REQUEST'', ''FINDNODE_REPLY'',
      ''FINDSOMEVAL_REQUEST'', ''FINDSOMEVAL_REPLY'', ''FINDALLVAL_REQUEST'', ''FINDALLVAL_REPLY'', ''DELETE_REQUEST'',
      ''DELETE_REPLY'', ''RESET_REPLY'']"

definition kad_pkttype :: "pkttype_profile_t \<Rightarrow> string \<Rightarrow> nat res" where
  "kad_pkttype p name = res_bind (init_pkttype_map kad_pkttype_names []) (\<lambda>m. get_pkttype m p name)"

text \<open>The checks of the other parts of the profile that the model has always succeed.\<close>

definition kad_profile_check :: "kad_profile_t \<Rightarrow> bool" where
  "kad_profile_check p = (\<not> pt_nb_reserved (profile_pkttype p) < length kad_pkttype_names)"

subsection \<open>Peers\<close>

definition kad_nonceid_len :: nat where "kad_nonceid_len = 8"

record kad_peer_t =
  kp_profile :: kad_profile_t
  kp_local_peerid :: bytes
  kp_realm_id :: bytes
  kp_listen_aview :: ipport_aview_t
  kp_kbucket :: kad_kbucket_t
  kp_local_db :: kad_db_t
  kp_remote_db :: kad_db_t
  kp_cookie_db :: cookie_db_t
  kp_stat :: kad_stat_t

abbreviation kp_rpc :: "kad_peer_t \<Rightarrow> kad_rpc_profile_t" where
  "kp_rpc st \<equiv> profile_rpc (kp_profile st)"

abbreviation kp_pkttype :: "kad_peer_t \<Rightarrow> pkttype_profile_t" where
  "kp_pkttype st \<equiv> profile_pkttype (kp_profile st)"

definition kad_peer_start :: "kad_profile_t \<Rightarrow> ipport_aview_t \<Rightarrow> bytes \<Rightarrow> bytes \<Rightarrow> bytes \<Rightarrow> kad_peer_t res" where
  "kad_peer_start profile listen_aview realm_id peerid secret =
     dbg_assert (kad_profile_check profile) (dbg_assert (\<not> gen_id_is_null peerid)
      (let remote_db = kad_db_ctor (profile_remote_db profile) True peerid;
           local_db = kad_db_ctor (profile_local_db profile) False peerid
       in res_bind (kad_kbucket_ctor (profile_kbucket profile) peerid (lview listen_aview)) (\<lambda>kbucket.
          Inr \<lparr>kp_profile = profile, kp_local_peerid = peerid, kp_realm_id = realm_id, kp_listen_aview = listen_aview,
               kp_kbucket = kbucket, kp_local_db = local_db, kp_remote_db = remote_db,
               kp_cookie_db = cookie_db_ctor secret, kp_stat = kad_stat_ctor\<rparr>)))"

definition kad_addr_null :: kad_addr_t where
  "kad_addr_null = \<lparr>m_oaddr = ipport_null, m_peerid = gen_id_ctor kad_id_len\<rparr>"

definition srckaddr_build :: "ipport_addr_t \<Rightarrow> kad_peer_t \<Rightarrow> kad_addr_t res" where
  "srckaddr_build remote_oaddr st =
     res_bind (listen_aview2xmit (kp_listen_aview st) remote_oaddr) (\<lambda>listen_xmit.
       if ipport_is_null listen_xmit then Inr kad_addr_null
       else Inr \<lparr>m_oaddr = listen_xmit, m_peerid = kp_local_peerid st\<rparr>)"

text \<open>The nodes that entered the routing table are told to \<open>remote_db\<close>; the result has the sets of records that are sent to
  each of them.\<close>

type_synonym replications = "(kad_addr_t \<times> kad_recdups_t list) list"

fun notify_new_nodes :: "kad_addr_t list \<Rightarrow> kad_db_t \<Rightarrow> replications res" where
  "notify_new_nodes [] db = Inr []"
| "notify_new_nodes (a # as) db =
     res_bind (db_notify_new_node a db) (\<lambda>ds. res_bind (notify_new_nodes as db) (\<lambda>rs. Inr ((a, ds) # rs)))"

definition srckaddr_parse :: "bool \<Rightarrow> kad_addr_t \<Rightarrow> ipport_addr_t \<Rightarrow> kad_peer_t \<Rightarrow> (replications \<times> kad_peer_t) res" where
  "srckaddr_parse started remote_kaddr remote_oaddr st =
     (if kad_addr_is_null remote_kaddr then Inr ([], st)
      else res_bind (listen_xmit2dest (m_oaddr remote_kaddr) remote_oaddr) (\<lambda>dest_oaddr.
        dbg_assert (\<not> ipport_is_null dest_oaddr)
         (let updated_kaddr = \<lparr>m_oaddr = dest_oaddr, m_peerid = m_peerid remote_kaddr\<rparr> in
          res_bind (kad_addr_is_fully_qualified updated_kaddr) (\<lambda>fq. dbg_assert fq
           (res_bind (notify_srckaddr started updated_kaddr (kp_kbucket st)) (\<lambda>kbucket.
            res_bind (notify_new_nodes (drop (length (kb_new_nodes (kp_kbucket st))) (kb_new_nodes kbucket)) (kp_remote_db st))
             (\<lambda>rs. Inr (rs, st\<lparr>kp_kbucket := kbucket\<rparr>))))))))"

subsection \<open>Headers\<close>

text \<open>The \<open>try\<close> blocks of the parsers.\<close>

definition try_parse :: "'a res \<Rightarrow> 'a option res" where
  "try_parse r = (case r of Inr x \<Rightarrow> Inr (Some x) | Inl (Except what) \<Rightarrow> Inr None | Inl e \<Rightarrow> Inl e)"

definition get_if :: "bool \<Rightarrow> 'a reader \<Rightarrow> 'a \<Rightarrow> 'a reader" where
  "get_if b get dfl pkt = (if b then get pkt else Inr (dfl, pkt))"

definition put_if :: "bool \<Rightarrow> bytes \<Rightarrow> bytes" where
  "put_if b bs = (if b then bs else [])"

definition read_req_header :: "kad_peer_t \<Rightarrow> (nat \<times> bytes \<times> bytes \<times> kad_addr_t \<times> bytes) reader" where
  "read_req_header st pkt =
     res_bind (pkttype_unserialize (kp_pkttype st) pkt) (\<lambda>(pkttype, pkt).
     res_bind (get_if (realmid_in_pkt_ok (kp_rpc st)) (get_gen_id kad_id_len) (gen_id_ctor kad_id_len) pkt) (\<lambda>(realmid, pkt).
     res_bind (get_if (dest_peerid_in_pkt_ok (kp_rpc st)) (get_gen_id kad_id_len) (gen_id_ctor kad_id_len) pkt) (\<lambda>(dest_peerid, pkt).
     res_bind (get_kad_addr pkt) (\<lambda>(source_addr, pkt).
     res_bind (get_if (req_nonce_in_pkt_ok (kp_rpc st)) (get_gen_id kad_nonceid_len) (gen_id_ctor kad_nonceid_len) pkt) (\<lambda>(nonce, pkt).
       Inr ((pkttype, realmid, dest_peerid, source_addr, nonce), pkt))))))"

text \<open>The result has the type, the source address, the nonce and the rest of the packet; \<open>None\<close> is an error.\<close>

definition parse_req_header :: "kad_peer_t \<Rightarrow> bytes \<Rightarrow> (nat \<times> kad_addr_t \<times> bytes \<times> bytes) option res" where
  "parse_req_header st pkt =
     res_bind (try_parse (read_req_header st pkt)) (\<lambda>parsed.
       case parsed of
         None \<Rightarrow> Inr None
       | Some ((pkttype, realmid, dest_peerid, source_addr, nonce), pkt) \<Rightarrow>
           if realmid_in_pkt_ok (kp_rpc st) \<and> gen_id_compare realmid (kp_realm_id st) \<noteq> 0 then Inr None
           else if dest_peerid_in_pkt_ok (kp_rpc st) \<and> \<not> gen_id_is_null dest_peerid \<and>
             gen_id_compare dest_peerid (kp_local_peerid st) \<noteq> 0 then Inr None
           else Inr (Some (pkttype, source_addr, nonce, pkt)))"

definition build_req_header :: "kad_peer_t \<Rightarrow> kad_addr_t \<Rightarrow> nat \<Rightarrow> bytes \<Rightarrow> bytes res" where
  "build_req_header st remote_addr pkttype request_nonce =
     res_bind (pkttype_serialize (kp_pkttype st) pkttype) (\<lambda>t.
     res_bind (srckaddr_build (m_oaddr remote_addr) st) (\<lambda>src.
       Inr (t @ put_if (realmid_in_pkt_ok (kp_rpc st)) (put_gen_id (kp_realm_id st)) @
            put_if (dest_peerid_in_pkt_ok (kp_rpc st)) (put_gen_id (m_peerid remote_addr)) @
            put_kad_addr src @ put_if (req_nonce_in_pkt_ok (kp_rpc st)) (put_gen_id request_nonce))))"

definition read_rep_header :: "kad_peer_t \<Rightarrow> (nat \<times> bytes \<times> kad_addr_t \<times> bytes) reader" where
  "read_rep_header st pkt =
     res_bind (pkttype_unserialize (kp_pkttype st) pkt) (\<lambda>(pkttype, pkt).
     res_bind (get_if (realmid_in_pkt_ok (kp_rpc st)) (get_gen_id kad_id_len) (gen_id_ctor kad_id_len) pkt) (\<lambda>(realmid, pkt).
     res_bind (get_kad_addr pkt) (\<lambda>(source_addr, pkt).
     res_bind (get_if (req_nonce_in_pkt_ok (kp_rpc st)) (get_gen_id kad_nonceid_len) (gen_id_ctor kad_nonceid_len) pkt) (\<lambda>(nonce, pkt).
       Inr ((pkttype, realmid, source_addr, nonce), pkt)))))"

definition parse_rep_header :: "kad_peer_t \<Rightarrow> bytes \<Rightarrow> (nat \<times> kad_addr_t \<times> bytes \<times> bytes) option res" where
  "parse_rep_header st pkt =
     res_bind (try_parse (read_rep_header st pkt)) (\<lambda>parsed.
       case parsed of
         None \<Rightarrow> Inr None
       | Some ((pkttype, realmid, source_addr, nonce), pkt) \<Rightarrow>
           if realmid_in_pkt_ok (kp_rpc st) \<and> gen_id_compare realmid (kp_realm_id st) \<noteq> 0 then Inr None
           else Inr (Some (pkttype, source_addr, nonce, pkt)))"

definition build_rep_header :: "kad_peer_t \<Rightarrow> ipport_addr_t \<Rightarrow> nat \<Rightarrow> bytes \<Rightarrow> bytes res" where
  "build_rep_header st remote_oaddr pkttype request_nonce =
     res_bind (pkttype_serialize (kp_pkttype st) pkttype) (\<lambda>t.
     res_bind (srckaddr_build remote_oaddr st) (\<lambda>src.
       Inr (t @ put_if (realmid_in_pkt_ok (kp_rpc st)) (put_gen_id (kp_realm_id st)) @
            put_kad_addr src @ put_if (req_nonce_in_pkt_ok (kp_rpc st)) (put_gen_id request_nonce))))"

subsection \<open>Requests\<close>

record request_t =
  rq_pkttype :: nat
  rq_pkt :: bytes
  rq_nonce :: bytes
  rq_local_oaddr :: ipport_addr_t
  rq_remote_oaddr :: ipport_addr_t
  rq_filter :: "kad_addr_t \<Rightarrow> bool res"

definition build_pathid :: "request_t \<Rightarrow> bytes" where
  "build_pathid rq = put_ip_addr (m_ipaddr (rq_remote_oaddr rq)) @ put_ipport_addr (rq_local_oaddr rq)"

definition server_rep_header :: "string \<Rightarrow> request_t \<Rightarrow> kad_peer_t \<Rightarrow> bytes res" where
  "server_rep_header name rq st =
     res_bind (kad_pkttype (kp_pkttype st) name) (\<lambda>t. build_rep_header st (rq_remote_oaddr rq) t (rq_nonce rq))"

definition put_kad_addr_arr :: "kad_addr_t list \<Rightarrow> bytes" where
  "put_kad_addr_arr = put_item_arr put_kad_addr"

definition get_kad_addr_arr :: "kad_addr_t list reader" where
  "get_kad_addr_arr = get_item_arr get_kad_addr"

definition handle_ping_request :: "request_t \<Rightarrow> kad_peer_t \<Rightarrow> (bytes \<times> kad_peer_t) res" where
  "handle_ping_request rq st =
     (let st = st\<lparr>kp_stat := (kp_stat st)\<lparr>nb_ping_recv := nb_ping_recv (kp_stat st) + 1\<rparr>\<rparr> in
      if \<not> ping_rpc_ok (kp_rpc st) then Inr ([], st)
      else res_bind (server_rep_header ''PING_REPLY'' rq st) (\<lambda>pkt_reply.
        Inr (pkt_reply @ put_ip_addr (m_ipaddr (rq_remote_oaddr rq)), st)))"

fun store_loop :: "(kad_rec_t \<Rightarrow> delay_t) \<Rightarrow> kad_rec_t list \<Rightarrow> kad_db_t \<Rightarrow> (bool \<times> kad_db_t) res" where
  "store_loop c [] db = Inr (True, db)"
| "store_loop c (r # rs) db =
     (if \<not> may_accept r db then Inr (False, db) else res_bind (db_update c r db) (store_loop c rs))"

definition handle_store_request ::
  "(bytes \<Rightarrow> bytes \<Rightarrow> bytes) \<Rightarrow> (kad_rec_t \<Rightarrow> delay_t) \<Rightarrow> request_t \<Rightarrow> kad_peer_t \<Rightarrow> (bytes \<times> kad_peer_t) res" where
  "handle_store_request hmac c rq st =
     (let st = st\<lparr>kp_stat := (kp_stat st)\<lparr>nb_store_recv := nb_store_recv (kp_stat st) + 1\<rparr>\<rparr>; profile = kp_rpc st in
      if \<not> store_rpc_ok profile then Inr ([], st)
      else res_bind (try_parse (res_bind (get_kad_recdups (rq_pkt rq)) (\<lambda>(d, pkt).
          res_bind (get_if (cookie_store_ok profile) (get_gen_id cookie_id_len) (gen_id_ctor cookie_id_len) pkt) (\<lambda>(cookie_id, pkt).
            Inr (d, cookie_id))))) (\<lambda>parsed.
        case parsed of
          None \<Rightarrow> Inr ([], st)
        | Some (d, cookie_id) \<Rightarrow>
            if cookie_store_ok profile \<and> \<not> cookie_check hmac (build_pathid rq) cookie_id (kp_cookie_db st) then Inr ([], st)
            else res_bind (store_loop c (map (rec_of_recval (rd_keyid d)) (recval_db d)) (kp_remote_db st)) (\<lambda>(stored, db).
              let st = st\<lparr>kp_remote_db := db\<rparr> in
              if \<not> stored then Inr ([], st)
              else res_bind (server_rep_header ''STORE_REPLY'' rq st) (\<lambda>pkt_reply. Inr (pkt_reply, st)))))"

definition handle_findnode_request :: "(bytes \<Rightarrow> bytes \<Rightarrow> bytes) \<Rightarrow> request_t \<Rightarrow> kad_peer_t \<Rightarrow> (bytes \<times> kad_peer_t) res" where
  "handle_findnode_request hmac rq st =
     (let st = st\<lparr>kp_stat := (kp_stat st)\<lparr>nb_findnode_recv := nb_findnode_recv (kp_stat st) + 1\<rparr>\<rparr>; profile = kp_rpc st in
      if \<not> findnode_rpc_ok profile then Inr ([], st)
      else res_bind (try_parse (get_gen_id kad_id_len (rq_pkt rq))) (\<lambda>parsed.
        case parsed of
          None \<Rightarrow> Inr ([], st)
        | Some (targetid, pkt) \<Rightarrow>
            res_bind (get_nclosest_addr targetid (nb_replication (profile_kbucket (kp_profile st))) (rq_filter rq) (kp_kbucket st)) (\<lambda>addrs.
            res_bind (server_rep_header ''FINDNODE_REPLY'' rq st) (\<lambda>pkt_reply.
              Inr (pkt_reply @ put_kad_addr_arr addrs @
                   put_if (cookie_in_reply_ok profile) (put_gen_id (cookie_generate hmac (build_pathid rq) (kp_cookie_db st))), st)))))"

text \<open>The number of records of a reply: what fits in the packet, and at most what is asked for, 0 meaning all.\<close>

definition clamp_nb_rec :: "nat \<Rightarrow> 32 word \<Rightarrow> nat" where
  "clamp_nb_rec max_nb_rec_pkt requested_nb_rec =
     (if requested_nb_rec \<noteq> 0 \<and> max_nb_rec_pkt > unat requested_nb_rec then unat requested_nb_rec else max_nb_rec_pkt)"

definition handle_findsomeval_request ::
  "(bytes \<Rightarrow> bytes \<Rightarrow> bytes) \<Rightarrow> (nat \<Rightarrow> nat \<Rightarrow> nat \<times> nat) \<Rightarrow> request_t \<Rightarrow> kad_peer_t \<Rightarrow> (bytes \<times> kad_peer_t) res" where
  "handle_findsomeval_request hmac rand rq st =
     (let st = st\<lparr>kp_stat := (kp_stat st)\<lparr>nb_findsomeval_recv := nb_findsomeval_recv (kp_stat st) + 1\<rparr>\<rparr>; profile = kp_rpc st in
      if \<not> findsomeval_rpc_ok profile then Inr ([], st)
      else res_bind (try_parse (res_bind (get_gen_id kad_id_len (rq_pkt rq)) (\<lambda>(keyid, pkt).
          res_bind (get_uint32 pkt) (\<lambda>(requested_nb_rec, pkt). Inr (keyid, requested_nb_rec))))) (\<lambda>parsed.
        case parsed of
          None \<Rightarrow> Inr ([], st)
        | Some (keyid, requested_nb_rec) \<Rightarrow>
            res_bind (server_rep_header ''FINDSOMEVAL_REPLY'' rq st) (\<lambda>pkt_reply.
            res_bind (find_by_keyid keyid (gen_id_ctor kad_id_len) (kp_remote_db st)) (\<lambda>d.
              if recval_db d \<noteq> [] then
                res_bind (randomize_order (rand (length (recval_db d))) d) (\<lambda>d.
                res_bind (nb_serialized_rec_in_size (replypkt_maxlen profile) d) (\<lambda>max_nb_rec_pkt.
                let nb_rec_to_del = length (recval_db d) - clamp_nb_rec max_nb_rec_pkt requested_nb_rec in
                res_bind (truncate_at_tail nb_rec_to_del d) (\<lambda>d.
                  Inr (pkt_reply @ put_uint8 1 @ put_uint8 (if nb_rec_to_del \<noteq> 0 then 1 else 0) @ put_kad_recdups d, st))))
              else
                res_bind (get_nclosest_addr keyid (nb_replication (profile_kbucket (kp_profile st))) (rq_filter rq) (kp_kbucket st)) (\<lambda>addrs.
                  Inr (pkt_reply @ put_uint8 0 @ put_kad_addr_arr addrs @
                    put_if (cookie_in_reply_ok profile) (put_gen_id (cookie_generate hmac (build_pathid rq) (kp_cookie_db st))), st))))))"

definition handle_findallval_request :: "request_t \<Rightarrow> kad_peer_t \<Rightarrow> (bytes \<times> kad_peer_t) res" where
  "handle_findallval_request rq st =
     (let st = st\<lparr>kp_stat := (kp_stat st)\<lparr>nb_findallval_recv := nb_findallval_recv (kp_stat st) + 1\<rparr>\<rparr>; profile = kp_rpc st in
      if \<not> findallval_rpc_ok profile then Inr ([], st)
      else res_bind (try_parse (res_bind (get_gen_id kad_id_len (rq_pkt rq)) (\<lambda>(recid_gt, pkt).
          res_bind (get_gen_id kad_id_len pkt) (\<lambda>(keyid, pkt).
          res_bind (get_uint8 pkt) (\<lambda>(keyid_ge, pkt).
          res_bind (get_uint32 pkt) (\<lambda>(requested_nb_rec, pkt). Inr (recid_gt, keyid, keyid_ge, requested_nb_rec))))))) (\<lambda>parsed.
        case parsed of
          None \<Rightarrow> Inr ([], st)
        | Some (recid_gt, keyid, keyid_ge, requested_nb_rec) \<Rightarrow>
            res_bind (find_by_keyid keyid recid_gt (kp_remote_db st)) (\<lambda>d.
            res_bind (if recval_db d = [] \<and> keyid_ge \<noteq> 0
                      then res_bind (get_next_keyid keyid (kp_remote_db st)) (\<lambda>keyid.
                             find_by_keyid keyid (gen_id_ctor kad_id_len) (kp_remote_db st))
                      else Inr d) (\<lambda>d.
            let d = sort_by_recid d in
            res_bind (nb_serialized_rec_in_size (replypkt_maxlen profile) d) (\<lambda>max_nb_rec_pkt.
            let nb_rec_to_del = length (recval_db d) - clamp_nb_rec max_nb_rec_pkt requested_nb_rec in
            res_bind (truncate_at_tail nb_rec_to_del d) (\<lambda>d.
            res_bind (server_rep_header ''FINDALLVAL_REPLY'' rq st) (\<lambda>pkt_reply.
              Inr (pkt_reply @ put_uint8 (if nb_rec_to_del \<noteq> 0 then 1 else 0) @ put_kad_recdups d, st))))))))"

definition handle_delete_request :: "(bytes \<Rightarrow> bytes \<Rightarrow> bytes) \<Rightarrow> request_t \<Rightarrow> kad_peer_t \<Rightarrow> (bytes \<times> kad_peer_t) res" where
  "handle_delete_request hmac rq st =
     (let st = st\<lparr>kp_stat := (kp_stat st)\<lparr>nb_delete_recv := nb_delete_recv (kp_stat st) + 1\<rparr>\<rparr>; profile = kp_rpc st in
      if \<not> delete_rpc_ok profile then Inr ([], st)
      else res_bind (try_parse (res_bind (get_gen_id kad_id_len (rq_pkt rq)) (\<lambda>(recid, pkt).
          res_bind (get_if (cookie_delete_ok profile) (get_gen_id cookie_id_len) (gen_id_ctor cookie_id_len) pkt) (\<lambda>(cookie_id, pkt).
            Inr (recid, cookie_id))))) (\<lambda>parsed.
        case parsed of
          None \<Rightarrow> Inr ([], st)
        | Some (recid, cookie_id) \<Rightarrow>
            if cookie_delete_ok profile \<and> \<not> cookie_check hmac (build_pathid rq) cookie_id (kp_cookie_db st) then Inr ([], st)
            else res_bind (db_remove recid (kp_remote_db st)) (\<lambda>db.
              let st = st\<lparr>kp_remote_db := db\<rparr> in
              res_bind (server_rep_header ''DELETE_REPLY'' rq st) (\<lambda>pkt_reply. Inr (pkt_reply, st)))))"

text \<open>The filter that leaves out addresses beyond the scope of the asking peer: the last test that holds decides.\<close>

definition choose_filter :: "ipport_addr_t \<Rightarrow> (kad_addr_t \<Rightarrow> bool res) res" where
  "choose_filter remote_oaddr =
     (let a = m_ipaddr remote_oaddr in
      res_bind (is_public a) (\<lambda>public. res_bind (is_private a) (\<lambda>private.
      res_bind (is_linklocal a) (\<lambda>linklocal. res_bind (is_localhost a) (\<lambda>localhost.
        let f = (\<lambda>addr. Inr False);
            f = (if public then filter_fct_dstpublic else f);
            f = (if private then filter_fct_dstprivate else f);
            f = (if linklocal then filter_fct_dstlinklocal else f);
            f = (if localhost then filter_fct_dstlocalhost else f)
        in Inr f)))))"

definition dispatch_request ::
  "(bytes \<Rightarrow> bytes \<Rightarrow> bytes) \<Rightarrow> (kad_rec_t \<Rightarrow> delay_t) \<Rightarrow> (nat \<Rightarrow> nat \<Rightarrow> nat \<times> nat) \<Rightarrow> request_t \<Rightarrow> kad_peer_t \<Rightarrow>
     (bytes \<times> kad_peer_t) res" where
  "dispatch_request hmac c rand rq st =
     (let is_type = (\<lambda>name. res_bind (kad_pkttype (kp_pkttype st) name) (\<lambda>t. Inr (rq_pkttype rq = t))) in
      res_if (is_type ''PING_REQUEST'') (handle_ping_request rq st)
     (res_if (is_type ''STORE_REQUEST'') (handle_store_request hmac c rq st)
     (res_if (is_type ''FINDNODE_REQUEST'') (handle_findnode_request hmac rq st)
     (res_if (is_type ''FINDSOMEVAL_REQUEST'') (handle_findsomeval_request hmac rand rq st)
     (res_if (is_type ''FINDALLVAL_REQUEST'') (handle_findallval_request rq st)
     (res_if (is_type ''DELETE_REQUEST'') (handle_delete_request hmac rq st) (Inl Assert_failed)))))))"

definition handle_request_pkt ::
  "(bytes \<Rightarrow> bytes \<Rightarrow> bytes) \<Rightarrow> (kad_rec_t \<Rightarrow> delay_t) \<Rightarrow> (nat \<Rightarrow> nat \<Rightarrow> nat \<times> nat) \<Rightarrow> bool \<Rightarrow> bytes \<Rightarrow> ipport_addr_t \<Rightarrow> ipport_addr_t \<Rightarrow>
     kad_peer_t \<Rightarrow> (bytes \<times> replications \<times> kad_peer_t) res" where
  "handle_request_pkt hmac c rand started pkt local_oaddr remote_oaddr st =
     (let st = st\<lparr>kp_stat := (kp_stat st)\<lparr>nb_byte_recv := nb_byte_recv (kp_stat st) + word_of_nat (length pkt)\<rparr>\<rparr> in
      res_bind (parse_req_header st pkt) (\<lambda>parsed.
        case parsed of
          None \<Rightarrow> Inr ([], [], st)
        | Some (pkttype, source_addr, request_nonce, pkt) \<Rightarrow>
            res_bind (srckaddr_parse started source_addr remote_oaddr st) (\<lambda>(replicated, st).
            res_bind (choose_filter remote_oaddr) (\<lambda>kad_addr_filter.
            let rq = \<lparr>rq_pkttype = pkttype, rq_pkt = pkt, rq_nonce = request_nonce, rq_local_oaddr = local_oaddr,
                      rq_remote_oaddr = remote_oaddr, rq_filter = kad_addr_filter\<rparr> in
            res_bind (dispatch_request hmac c rand rq st) (\<lambda>(pkt_reply, st).
              Inr (pkt_reply, replicated,
                st\<lparr>kp_stat := (kp_stat st)\<lparr>nb_byte_sent := nb_byte_sent (kp_stat st) + word_of_nat (length pkt_reply)\<rparr>\<rparr>))))))"

subsection \<open>Calls\<close>

record kad_client_rpc_t =
  cr_remote_addr :: kad_addr_t
  cr_reply_pkttype :: nat
  cr_request_nonce :: bytes

datatype kad_rpc_event =
  Rpc_completed
| Rpc_echoed ip_addr_t "ip_addr_t option"
| Rpc_recdups kad_recdups_t bool
| Rpc_addr_arr "kad_addr_t list" bytes

text \<open>The request packet that \<open>kad_clicnx_t\<close> is given.\<close>

definition client_rpc_start ::
  "kad_peer_t \<Rightarrow> bytes \<Rightarrow> string \<Rightarrow> string \<Rightarrow> kad_addr_t \<Rightarrow> bytes \<Rightarrow> (bytes \<times> kad_client_rpc_t) res" where
  "client_rpc_start st request_payload request_name reply_name remote_addr nonce =
     res_bind (kad_pkttype (kp_pkttype st) request_name) (\<lambda>request_pkttype.
     res_bind (kad_pkttype (kp_pkttype st) reply_name) (\<lambda>reply_pkttype.
     res_bind (ipport_is_fully_qualified (m_oaddr remote_addr)) (\<lambda>fq. dbg_assert fq
      (res_bind (build_req_header st remote_addr request_pkttype nonce) (\<lambda>request_header.
        Inr (request_header @ request_payload,
             \<lparr>cr_remote_addr = remote_addr, cr_reply_pkttype = reply_pkttype, cr_request_nonce = nonce\<rparr>))))))"

definition client_handle_reply ::
  "(bytes \<Rightarrow> kad_rpc_event option res) \<Rightarrow> bool \<Rightarrow> bytes \<Rightarrow> ipport_addr_t \<Rightarrow> kad_client_rpc_t \<Rightarrow> kad_peer_t \<Rightarrow>
     (kad_rpc_event option \<times> replications \<times> kad_peer_t) res" where
  "client_handle_reply reply_payload_cb started pkt remote_oaddr cr st =
     res_bind (parse_rep_header st pkt) (\<lambda>parsed.
       case parsed of
         None \<Rightarrow> Inr (None, [], st)
       | Some (pkttype, source_addr, incoming_nonce, pkt) \<Rightarrow>
           if req_nonce_in_pkt_ok (kp_rpc st) \<and> gen_id_compare incoming_nonce (cr_request_nonce cr) \<noteq> 0 then Inr (None, [], st)
           else if pkttype \<noteq> cr_reply_pkttype cr then Inr (None, [], st)
           else res_bind (srckaddr_parse started source_addr remote_oaddr st) (\<lambda>(replicated, st).
             res_bind (reply_payload_cb pkt) (\<lambda>event. Inr (event, replicated, st))))"

text \<open>The payloads of the requests and the readers of the replies.\<close>

definition ping_request_payload :: bytes where "ping_request_payload = []"

definition store_request_payload :: "kad_rpc_profile_t \<Rightarrow> kad_recdups_t \<Rightarrow> bytes \<Rightarrow> bytes" where
  "store_request_payload profile d cookie_id = put_kad_recdups d @ put_if (cookie_store_ok profile) (put_gen_id cookie_id)"

definition findnode_request_payload :: "bytes \<Rightarrow> bytes" where
  "findnode_request_payload targetid = put_gen_id targetid"

definition findsomeval_request_payload :: "bytes \<Rightarrow> nat \<Rightarrow> bytes" where
  "findsomeval_request_payload keyid max_nb_record = put_gen_id keyid @ put_uint32 (word_of_nat max_nb_record)"

definition findallval_request_payload :: "bytes \<Rightarrow> bytes \<Rightarrow> bool \<Rightarrow> nat \<Rightarrow> bytes" where
  "findallval_request_payload recid_gt keyid keyid_ge max_nb_record =
     put_gen_id recid_gt @ put_gen_id keyid @ put_uint8 (if keyid_ge then 1 else 0) @ put_uint32 (word_of_nat max_nb_record)"

definition delete_request_payload :: "kad_rpc_profile_t \<Rightarrow> bytes \<Rightarrow> bytes \<Rightarrow> bytes" where
  "delete_request_payload profile recid cookie_id = put_gen_id recid @ put_if (cookie_delete_ok profile) (put_gen_id cookie_id)"

text \<open>The start of each call, which counts it.\<close>

definition ping_rpc_start ::
  "kad_addr_t \<Rightarrow> bytes \<Rightarrow> kad_peer_t \<Rightarrow> (bytes \<times> kad_client_rpc_t \<times> kad_peer_t) res" where
  "ping_rpc_start remote_addr nonce st =
     res_bind (client_rpc_start st ping_request_payload ''PING_REQUEST'' ''PING_REPLY'' remote_addr nonce) (\<lambda>(pkt, cr).
       Inr (pkt, cr, st\<lparr>kp_stat := (kp_stat st)\<lparr>nb_ping_sent := nb_ping_sent (kp_stat st) + 1\<rparr>\<rparr>))"

definition store_rpc_start ::
  "kad_recdups_t \<Rightarrow> bytes \<Rightarrow> kad_addr_t \<Rightarrow> bytes \<Rightarrow> kad_peer_t \<Rightarrow> (bytes \<times> kad_client_rpc_t \<times> kad_peer_t) res" where
  "store_rpc_start d cookie_id remote_addr nonce st =
     res_bind (client_rpc_start st (store_request_payload (kp_rpc st) d cookie_id) ''STORE_REQUEST'' ''STORE_REPLY'' remote_addr nonce) (\<lambda>(pkt, cr).
       Inr (pkt, cr, st\<lparr>kp_stat := (kp_stat st)\<lparr>nb_store_sent := nb_store_sent (kp_stat st) + 1\<rparr>\<rparr>))"

definition findnode_rpc_start ::
  "bytes \<Rightarrow> kad_addr_t \<Rightarrow> bytes \<Rightarrow> kad_peer_t \<Rightarrow> (bytes \<times> kad_client_rpc_t \<times> kad_peer_t) res" where
  "findnode_rpc_start targetid remote_addr nonce st =
     res_bind (client_rpc_start st (findnode_request_payload targetid) ''FINDNODE_REQUEST'' ''FINDNODE_REPLY'' remote_addr nonce) (\<lambda>(pkt, cr).
       Inr (pkt, cr, st\<lparr>kp_stat := (kp_stat st)\<lparr>nb_findnode_sent := nb_findnode_sent (kp_stat st) + 1\<rparr>\<rparr>))"

definition findsomeval_rpc_start ::
  "bytes \<Rightarrow> nat \<Rightarrow> kad_addr_t \<Rightarrow> bytes \<Rightarrow> kad_peer_t \<Rightarrow> (bytes \<times> kad_client_rpc_t \<times> kad_peer_t) res" where
  "findsomeval_rpc_start keyid max_nb_record remote_addr nonce st =
     res_bind (client_rpc_start st (findsomeval_request_payload keyid max_nb_record) ''FINDSOMEVAL_REQUEST'' ''FINDSOMEVAL_REPLY'' remote_addr nonce) (\<lambda>(pkt, cr).
       Inr (pkt, cr, st\<lparr>kp_stat := (kp_stat st)\<lparr>nb_findsomeval_sent := nb_findsomeval_sent (kp_stat st) + 1\<rparr>\<rparr>))"

definition findallval_rpc_start ::
  "bytes \<Rightarrow> bytes \<Rightarrow> bool \<Rightarrow> nat \<Rightarrow> kad_addr_t \<Rightarrow> bytes \<Rightarrow> kad_peer_t \<Rightarrow> (bytes \<times> kad_client_rpc_t \<times> kad_peer_t) res" where
  "findallval_rpc_start recid_gt keyid keyid_ge max_nb_record remote_addr nonce st =
     res_bind (client_rpc_start st (findallval_request_payload recid_gt keyid keyid_ge max_nb_record) ''FINDALLVAL_REQUEST'' ''FINDALLVAL_REPLY'' remote_addr nonce) (\<lambda>(pkt, cr).
       Inr (pkt, cr, st\<lparr>kp_stat := (kp_stat st)\<lparr>nb_findallval_sent := nb_findallval_sent (kp_stat st) + 1\<rparr>\<rparr>))"

definition delete_rpc_start ::
  "bytes \<Rightarrow> bytes \<Rightarrow> kad_addr_t \<Rightarrow> bytes \<Rightarrow> kad_peer_t \<Rightarrow> (bytes \<times> kad_client_rpc_t \<times> kad_peer_t) res" where
  "delete_rpc_start recid cookie_id remote_addr nonce st =
     res_bind (client_rpc_start st (delete_request_payload (kp_rpc st) recid cookie_id) ''DELETE_REQUEST'' ''DELETE_REPLY'' remote_addr nonce) (\<lambda>(pkt, cr).
       Inr (pkt, cr, st\<lparr>kp_stat := (kp_stat st)\<lparr>nb_delete_sent := nb_delete_sent (kp_stat st) + 1\<rparr>\<rparr>))"

text \<open>The listener tells the address that a ping echoes to \<open>ndiag_watch_t\<close> when it is the view of a public node of a public
  address; the value is the address told, if any.\<close>

definition notify_echoed_local_ipaddr :: "ip_addr_t \<Rightarrow> kad_addr_t \<Rightarrow> ip_addr_t option res" where
  "notify_echoed_local_ipaddr echoed_ipaddr remote_addr =
     res_bind (is_public (m_ipaddr (m_oaddr remote_addr))) (\<lambda>public.
       if \<not> public then Inr None
       else res_bind (is_public echoed_ipaddr) (\<lambda>public. if \<not> public then Inr None else Inr (Some echoed_ipaddr)))"

definition ping_reply_cb :: "kad_addr_t \<Rightarrow> bytes \<Rightarrow> kad_rpc_event option res" where
  "ping_reply_cb remote_addr pkt =
     try_parse (res_bind (get_ip_addr pkt) (\<lambda>(a, pkt).
       res_bind (notify_echoed_local_ipaddr a remote_addr) (\<lambda>told. Inr (Rpc_echoed a told))))"

definition store_reply_cb :: "bytes \<Rightarrow> kad_rpc_event option res" where
  "store_reply_cb pkt = Inr (Some Rpc_completed)"

definition delete_reply_cb :: "bytes \<Rightarrow> kad_rpc_event option res" where
  "delete_reply_cb pkt = Inr (Some Rpc_completed)"

definition findnode_reply_cb :: "kad_rpc_profile_t \<Rightarrow> bytes \<Rightarrow> kad_rpc_event option res" where
  "findnode_reply_cb profile pkt =
     try_parse (res_bind (get_kad_addr_arr pkt) (\<lambda>(addrs, pkt).
       res_bind (get_if (cookie_in_reply_ok profile) (get_gen_id cookie_id_len) (gen_id_ctor cookie_id_len) pkt) (\<lambda>(cookie_id, pkt).
         Inr (Rpc_addr_arr addrs cookie_id))))"

definition findsomeval_reply_cb :: "kad_rpc_profile_t \<Rightarrow> bytes \<Rightarrow> kad_rpc_event option res" where
  "findsomeval_reply_cb profile pkt =
     try_parse (res_bind (get_uint8 pkt) (\<lambda>(record_found, pkt).
       if record_found \<noteq> 0 then
         res_bind (get_uint8 pkt) (\<lambda>(has_more_record, pkt).
         res_bind (get_kad_recdups pkt) (\<lambda>(d, pkt). Inr (Rpc_recdups d (has_more_record \<noteq> 0))))
       else
         res_bind (get_kad_addr_arr pkt) (\<lambda>(addrs, pkt).
         res_bind (get_if (cookie_in_reply_ok profile) (get_gen_id cookie_id_len) (gen_id_ctor cookie_id_len) pkt) (\<lambda>(cookie_id, pkt).
           Inr (Rpc_addr_arr addrs cookie_id)))))"

definition findallval_reply_cb :: "bytes \<Rightarrow> kad_rpc_event option res" where
  "findallval_reply_cb pkt =
     try_parse (res_bind (get_uint8 pkt) (\<lambda>(has_more_record, pkt).
       res_bind (get_kad_recdups pkt) (\<lambda>(d, pkt). Inr (Rpc_recdups d (has_more_record \<noteq> 0)))))"

end
