(* ===== verification/KbucketRun.thy ===== *)
theory KbucketRun
  imports Kbucket
begin

text \<open>
  Histories of the routing table \<open>kad_kbucket_t\<close>: the notifications, the ends of pings and the timer in
  any order, from the constructor on.  The invariant of \<open>Kbucket\<close> holds after every history and no
  assertion of the source fails; a node leaves the table only when it is reported dead.  The lookup of
  the nodes closest to a target and the choice of the identifiers that refresh a bucket follow.
\<close>

subsection \<open>The operations left\<close>

lemma kb_inv_bl_set:
  assumes "kb_inv st" "x < length (bucklist_db st)" "bucknode_lru bl = bucknode_lru (bucklist_db st ! x)"
  shows "kb_inv (bl_set x bl st)"
proof -
  have "kb_lru (bl_set x bl st) = kb_lru st" using assms(2,3) by (auto simp: kb_lru_def bl_set_def fun_eq_iff nth_list_update)
  moreover have "kb_shape (bl_set x bl st) = kb_shape st" by (simp add: kb_shape_def bl_set_def)
  moreover have "get_bucket_idx p (bl_set x bl st) = get_bucket_idx p st" for p by (simp add: get_bucket_idx_def bl_set_def)
  ultimately show ?thesis using assms(1) by (simp add: kb_inv_def bl_set_def)
qed

lemma kb_inv_todelete:
  assumes "kb_inv st" "\<forall>p\<in>set t. length p = kad_id_len"
  shows "kb_inv (st\<lparr>peerid_todelete_db := t\<rparr>)"
proof -
  have "kb_shape (st\<lparr>peerid_todelete_db := t\<rparr>)" using assms by (simp add: kb_inv_def kb_shape_def)
  then show ?thesis using assms(1) by (simp add: kb_inv_def)
qed

lemma kb_inv_zerotimer: "kb_inv st \<Longrightarrow> kb_inv (st\<lparr>peerid_todelete_zerotimer := z\<rparr>)"
  by (simp add: kb_inv_def)

lemma kb_nsearch_ok:
  assumes "kb_inv st" "length t = kad_id_len"
  shows "\<exists>st'. notify_nsearch t st = Inr st' \<and> kb_inv st' \<and> bucknode_db st' = bucknode_db st \<and>
    peerid_todelete_db st' = peerid_todelete_db st"
proof -
  have "get_bucket_idx t st < length (bucklist_db st)" using assms kb_bucket_idx_less by (simp add: kb_inv_def)
  then show ?thesis
    using kb_inv_bl_set[OF assms(1)] by (simp add: notify_nsearch_def bl_at_def Let_def) (simp add: bl_set_def)
qed

lemma kb_failed_ok:
  assumes "kb_inv st" "length p = kad_id_len"
  shows "\<exists>st'. notify_failed_rpc p True timedout d st = Inr st' \<and> kb_inv st' \<and> bucknode_db st' = bucknode_db st \<and>
    set (peerid_todelete_db st') \<subseteq> insert p (set (peerid_todelete_db st))"
proof -
  have "kb_inv (st\<lparr>peerid_todelete_db := peerid_todelete_db st @ [p]\<rparr>)"
    using assms by (intro kb_inv_todelete) (auto simp: kb_inv_def kb_shape_def)
  then show ?thesis
    using assms(1) by (auto simp: notify_failed_rpc_def Let_def kb_inv_zerotimer)
qed

lemma kb_todelete_ok:
  assumes "kb_inv st" "peerid_todelete_db st = todo"
  shows "\<exists>st'. todelete_loop todo st = Inr st' \<and> kb_inv st' \<and> peerid_todelete_db st' = [] \<and>
    dom (bucknode_db st') = dom (bucknode_db st) - set todo"
  using assms
proof (induction todo arbitrary: st)
  case (Cons p todo)
  let ?st = "st\<lparr>peerid_todelete_db := todo\<rparr>" let ?x = "get_bucket_idx p ?st"
  have len: "length p = kad_id_len" "\<forall>q\<in>set todo. length q = kad_id_len"
    using Cons.prems by (auto simp: kb_inv_def kb_shape_def)
  have inv: "kb_inv ?st" using kb_inv_todelete[OF Cons.prems(1) len(2)] .
  then have shape: "kb_shape ?st" by (simp add: kb_inv_def)
  obtain bl where bl: "bl_at ?x ?st = Inr bl" "bucknode_lru bl = kb_lru ?st ?x"
    using bl_at_lru[OF shape len(1)] by blast
  have present: "peerid_is_present p bl \<longleftrightarrow> p \<in> dom (bucknode_db st)"
    using inv by (simp add: peerid_is_present_def list_ex_iff bl kb_inv_def kb_lists_def)
  show ?case
  proof (cases "bucknode_db st p")
    case None
    then have "todelete_loop (p # todo) st = todelete_loop todo ?st"
      using bl(1) present by (simp add: Let_def domIff)
    then show ?thesis using Cons.IH[OF inv] None by auto
  next
    case (Some n)
    have mem: "p \<in> set (kb_lru ?st ?x)" using kb_inv_node(4)[OF inv] Some by simp
    obtain st1 where st1: "bucknode_dtor p (kb_without p ?st) = Inr st1" "kb_inv st1"
      "dom (bucknode_db st1) = dom (bucknode_db st) - {p}" "peerid_todelete_db st1 = todo"
      using kb_delete_ok[OF inv, of p n] Some by auto
    have "todelete_loop (p # todo) st = todelete_loop todo st1"
      using bl(1) present Some bl_remove_ok[OF shape len(1) mem] st1(1) by (auto simp: Let_def)
    then show ?thesis using Cons.IH[OF st1(2,4)] st1(3) by auto
  qed
qed auto

lemma kb_timer_notify_ok:
  assumes "kb_inv st" "peerid_todelete_db st = todo"
  shows "\<exists>st'. zerotimer_notify (\<lambda>u st. res_bind (todelete_loop (peerid_todelete_db st) st) (\<lambda>st. Inr (True, st))) us st =
      Inr (True, st') \<and> kb_inv st' \<and> set (peerid_todelete_db st') \<subseteq> set todo \<and>
    dom (bucknode_db st) - set todo \<subseteq> dom (bucknode_db st')"
  using assms
proof (induction us arbitrary: st todo)
  case (Cons u us)
  obtain st1 where st1: "todelete_loop todo st = Inr st1" "kb_inv st1" "peerid_todelete_db st1 = []"
    "dom (bucknode_db st1) = dom (bucknode_db st) - set todo"
    using kb_todelete_ok[OF Cons.prems] by blast
  then show ?case using Cons.IH[OF st1(2,3)] Cons.prems(2) by fastforce
qed auto

lemma kb_timer_ok:
  assumes "kb_inv st"
  shows "\<exists>st'. kb_zerotimer_expire st = Inr (True, st') \<and> kb_inv st' \<and>
    set (peerid_todelete_db st') \<subseteq> set (peerid_todelete_db st) \<and>
    dom (bucknode_db st) - set (peerid_todelete_db st) \<subseteq> dom (bucknode_db st')"
  using kb_timer_notify_ok[OF kb_inv_zerotimer[OF assms] refl] by (simp add: kb_zerotimer_expire_def zerotimer_expire_def Let_def)

text \<open>The identifiers and addresses with which the table is made: a wild card listen address is allowed.\<close>

definition kb_ctor_args_ok :: "kad_kbucket_profile_t \<Rightarrow> bytes \<Rightarrow> ipport_addr_t \<Rightarrow> bool" where
  "kb_ctor_args_ok profile peerid listen \<longleftrightarrow>
     profile_kbucket_width profile dvd kad_id_len * 8 \<and> length peerid = kad_id_len \<and>
     gen_id_is_fully_qualified peerid \<and> m_port listen \<noteq> 0 \<and>
     (is_any (m_ipaddr listen) = Inr True \<or> ip_is_fully_qualified (m_ipaddr listen) = Inr True)"

lemma kb_ctor_addr_ok:
  assumes "kb_ctor_args_ok profile peerid listen"
  shows "\<exists>any. is_any (m_ipaddr listen) = Inr any \<and>
    kad_addr_is_fully_qualified \<lparr>m_oaddr = if any then listen\<lparr>m_ipaddr := Ip_v4 0x7f000001\<rparr> else listen,
      m_peerid = peerid\<rparr> = Inr True"
proof (cases "is_any (m_ipaddr listen) = Inr True")
  case True
  then show ?thesis
    using assms by (intro exI[of _ True]) (simp add: kb_ctor_args_ok_def kad_addr_is_fully_qualified_def
        ipport_is_fully_qualified_def ip_fully_qualified_v4)
next
  case False
  then have "ip_is_fully_qualified (m_ipaddr listen) = Inr True" "is_any (m_ipaddr listen) = Inr False"
    using assms by (auto simp: kb_ctor_args_ok_def is_any_def split: if_splits)
  then show ?thesis
    using assms by (intro exI[of _ False]) (simp add: kb_ctor_args_ok_def kad_addr_is_fully_qualified_def ipport_is_fully_qualified_def)
qed

lemma kb_ctor_ok:
  assumes ok: "kb_ctor_args_ok profile peerid listen"
  shows "\<exists>st. kad_kbucket_ctor profile peerid listen = Inr st \<and> kb_inv st \<and> peerid_todelete_db st = []"
proof -
  let ?w = "profile_kbucket_width profile"
  let ?st = "\<lparr>kb_profile = profile, local_peerid = peerid, kbucket_width = ?w,
                   kbucket_height = nb_replication profile,
                   bucklist_db = replicate (kad_id_len * 8 div ?w) (bucklist_ctor profile),
                   bucknode_db = Map.empty, pending_node_db = Map.empty, peerid_todelete_db = [],
                   peerid_todelete_zerotimer = zerotimer_ctor, kb_new_nodes = []\<rparr>"
  have w: "0 < ?w" "kad_id_len * 8 div ?w * ?w = kad_id_len * 8"
    using ok by (auto simp: kb_ctor_args_ok_def kad_id_len_def dvd_div_mult_self intro: gr0I)
  have "kb_lru ?st i = []" for i by (simp add: kb_lru_def bucklist_ctor_def)
  then have inv: "kb_inv ?st"
    using w ok by (simp add: kb_ctor_args_ok_def kb_inv_def kb_shape_def kb_lists_def kb_nodes_def pends_def)
  obtain any where any: "is_any (m_ipaddr listen) = Inr any"
    "kad_addr_is_fully_qualified \<lparr>m_oaddr = if any then listen\<lparr>m_ipaddr := Ip_v4 0x7f000001\<rparr> else listen,
      m_peerid = peerid\<rparr> = Inr True"
    using kb_ctor_addr_ok[OF ok] by blast
  then show ?thesis
    using kb_srckaddr_ok[OF inv any(2), of False] ok w
    by (auto simp: kb_ctor_args_ok_def kad_kbucket_ctor_def Let_def)
qed

subsection \<open>Histories\<close>

datatype kb_op =
  Kb_srckaddr bool kad_addr_t
| Kb_ping_end bool bytes
| Kb_failed_rpc bytes bool delay_t
| Kb_timer
| Kb_nsearch bytes

text \<open>What the callers pass: full addresses and identifiers of the right length.\<close>

definition kb_op_ok :: "kb_op \<Rightarrow> bool" where
  "kb_op_ok op = (case op of
     Kb_srckaddr started a \<Rightarrow> kad_addr_is_fully_qualified a = Inr True \<and> length (m_peerid a) = kad_id_len
   | Kb_ping_end fatal p \<Rightarrow> True
   | Kb_failed_rpc p timedout d \<Rightarrow> length p = kad_id_len
   | Kb_timer \<Rightarrow> True
   | Kb_nsearch t \<Rightarrow> length t = kad_id_len)"

text \<open>The ping of a node calls back only while it is in progress: the object of the call is deleted with the node
  and by \<open>ping_stop\<close>.\<close>

definition kb_exec :: "kb_op \<Rightarrow> kad_kbucket_t \<Rightarrow> kad_kbucket_t res" where
  "kb_exec op st = (case op of
     Kb_srckaddr started a \<Rightarrow> notify_srckaddr started a st
   | Kb_ping_end fatal p \<Rightarrow>
       (case bucknode_db st p of
          None \<Rightarrow> Inr st
        | Some n \<Rightarrow> if ping_rpc n then ping_rpc_cb fatal p st else Inr st)
   | Kb_failed_rpc p timedout d \<Rightarrow> notify_failed_rpc p True timedout d st
   | Kb_timer \<Rightarrow> res_bind (kb_zerotimer_expire st) (\<lambda>(tokeep, st). Inr st)
   | Kb_nsearch t \<Rightarrow> notify_nsearch t st)"

fun kb_run :: "kb_op list \<Rightarrow> kad_kbucket_t \<Rightarrow> kad_kbucket_t res" where
  "kb_run [] st = Inr st"
| "kb_run (op # ops) st = res_bind (kb_exec op st) (kb_run ops)"

text \<open>The reports that a node is dead.\<close>

fun kb_reports :: "bytes \<Rightarrow> kb_op \<Rightarrow> bool" where
  "kb_reports p (Kb_ping_end fatal q) = (fatal \<and> p = q)"
| "kb_reports p (Kb_failed_rpc q timedout d) = (p = q)"
| "kb_reports p op = False"

lemma kb_exec_ok:
  assumes "kb_inv st" "kb_op_ok op"
  shows "\<exists>st'. kb_exec op st = Inr st' \<and> kb_inv st' \<and>
    (\<forall>p. \<not> kb_reports p op \<and> p \<notin> set (peerid_todelete_db st) \<longrightarrow>
       p \<notin> set (peerid_todelete_db st') \<and> (p \<in> dom (bucknode_db st) \<longrightarrow> p \<in> dom (bucknode_db st')))"
proof (cases op)
  case (Kb_srckaddr started a)
  then show ?thesis using kb_srckaddr_ok[OF assms(1), of a started] assms(2) by (fastforce simp: kb_exec_def kb_op_ok_def)
next
  case (Kb_ping_end fatal p)
  show ?thesis
  proof (cases "\<exists>n q. bucknode_db st p = Some n \<and> pending_node n = Some q")
    case True
    then obtain n q where n: "bucknode_db st p = Some n" "pending_node n = Some q" by blast
    have "kb_exec op st = ping_rpc_cb fatal p st" using n kb_inv_node(3)[OF assms(1) n(1)] by (simp add: kb_exec_def Kb_ping_end)
    then show ?thesis
      using kb_replace_ok[OF assms(1) n] kb_completed_ok[OF assms(1) n] by (cases fatal) (auto simp: Kb_ping_end)
  next
    case False
    then have "kb_exec op st = Inr st"
      using kb_inv_node(3)[OF assms(1)] by (auto simp: kb_exec_def Kb_ping_end split: option.splits)
    then show ?thesis using assms(1) by blast
  qed
next
  case (Kb_failed_rpc p timedout d)
  then show ?thesis
    using kb_failed_ok[OF assms(1), of p timedout d] assms(2) by (fastforce simp: kb_exec_def kb_op_ok_def)
next
  case Kb_timer
  then show ?thesis using kb_timer_ok[OF assms(1)] by (fastforce simp: kb_exec_def)
next
  case (Kb_nsearch t)
  then show ?thesis using kb_nsearch_ok[OF assms(1), of t] assms(2) by (fastforce simp: kb_exec_def kb_op_ok_def)
qed

lemma kb_run_ok:
  assumes "kb_inv st" "list_all kb_op_ok ops"
  shows "\<exists>st'. kb_run ops st = Inr st' \<and> kb_inv st' \<and>
    (\<forall>p. \<not> list_ex (kb_reports p) ops \<and> p \<notin> set (peerid_todelete_db st) \<longrightarrow>
       p \<notin> set (peerid_todelete_db st') \<and> (p \<in> dom (bucknode_db st) \<longrightarrow> p \<in> dom (bucknode_db st')))"
  using assms
proof (induction ops arbitrary: st)
  case (Cons op ops)
  obtain st1 where st1: "kb_exec op st = Inr st1" "kb_inv st1" and keep1:
    "\<And>p. \<not> kb_reports p op \<Longrightarrow> p \<notin> set (peerid_todelete_db st) \<Longrightarrow>
       p \<notin> set (peerid_todelete_db st1) \<and> (p \<in> dom (bucknode_db st) \<longrightarrow> p \<in> dom (bucknode_db st1))"
    using kb_exec_ok[of st op] Cons.prems by auto
  obtain st2 where st2: "kb_run ops st1 = Inr st2" "kb_inv st2" and keep2:
    "\<And>p. \<not> list_ex (kb_reports p) ops \<Longrightarrow> p \<notin> set (peerid_todelete_db st1) \<Longrightarrow>
       p \<notin> set (peerid_todelete_db st2) \<and> (p \<in> dom (bucknode_db st1) \<longrightarrow> p \<in> dom (bucknode_db st2))"
    using Cons.IH[OF st1(2)] Cons.prems(2) by auto
  show ?case
    using st1 st2 keep1 keep2 by (intro exI[of _ st2]) auto
qed auto

subsection \<open>The nodes closest to a target\<close>

text \<open>\<open>kb_addrs\<close> is what a bucket gives to a lookup, \<open>kb_eligible\<close> what the table holds for it.\<close>

definition kb_addrs :: "(kad_addr_t \<Rightarrow> bool) \<Rightarrow> kad_kbucket_t \<Rightarrow> nat \<Rightarrow> kad_addr_t list" where
  "kb_addrs f st i = filter (\<lambda>a. \<not> f a) (map (\<lambda>p. bn_kad_addr (the (bucknode_db st p))) (kb_lru st i))"

definition kb_eligible :: "(kad_addr_t \<Rightarrow> bool) \<Rightarrow> kad_kbucket_t \<Rightarrow> kad_addr_t set" where
  "kb_eligible f st = {a. \<not> f a \<and> (\<exists>n. bucknode_db st (m_peerid a) = Some n \<and> bn_kad_addr n = a)}"

lemma copy_nodes_spec:
  assumes "\<forall>a. flt a = Inr (f a)" "\<forall>p\<in>set ps. p \<in> dom (bucknode_db st)"
  shows "copy_nodes flt st ps acc =
    Inr (acc @ filter (\<lambda>a. \<not> f a) (map (\<lambda>p. bn_kad_addr (the (bucknode_db st p))) ps))"
  using assms(2) by (induction ps arbitrary: acc) (auto simp: kb_node_def assms(1))

lemma bl_copy_to_spec:
  assumes "kb_inv st" "\<forall>a. flt a = Inr (f a)" "i < length (bucklist_db st)"
  shows "bl_copy_to flt i st acc = Inr (acc @ kb_addrs f st i)"
proof -
  have "\<forall>p\<in>set (kb_lru st i). p \<in> dom (bucknode_db st)" using assms(1) by (simp add: kb_inv_def kb_lists_def)
  then show ?thesis
    using assms(2,3) by (simp add: bl_copy_to_def bl_at_def kb_addrs_def kb_lru_def copy_nodes_spec)
qed

lemma kb_addrs_set:
  assumes "kb_inv st"
  shows "a \<in> set (kb_addrs f st i) \<longleftrightarrow> a \<in> kb_eligible f st \<and> get_bucket_idx (m_peerid a) st = i"
proof -
  have lru: "p \<in> set (kb_lru st i) \<longleftrightarrow> p \<in> dom (bucknode_db st) \<and> get_bucket_idx p st = i" for p
    using assms by (simp add: kb_inv_def kb_lists_def)
  have id: "m_peerid (bn_kad_addr n) = p" if "bucknode_db st p = Some n" for p n using kb_inv_node(2)[OF assms that] .
  show ?thesis
  proof
    assume "a \<in> set (kb_addrs f st i)"
    then obtain p n where "bucknode_db st p = Some n" "a = bn_kad_addr n" "\<not> f a" "get_bucket_idx p st = i"
      by (auto simp: kb_addrs_def lru)
    then show "a \<in> kb_eligible f st \<and> get_bucket_idx (m_peerid a) st = i" using id by (auto simp: kb_eligible_def)
  next
    assume "a \<in> kb_eligible f st \<and> get_bucket_idx (m_peerid a) st = i"
    then obtain n where "bucknode_db st (m_peerid a) = Some n" "bn_kad_addr n = a" "\<not> f a"
      "get_bucket_idx (m_peerid a) st = i" by (auto simp: kb_eligible_def)
    moreover from this have "m_peerid a \<in> set (kb_lru st i)" by (auto simp: lru)
    ultimately show "a \<in> set (kb_addrs f st i)" by (auto simp: kb_addrs_def image_iff intro!: bexI[of _ "m_peerid a"])
  qed
qed

lemma kb_addrs_distinct:
  assumes "kb_inv st" "distinct is"
  shows "distinct (map m_peerid (concat (map (kb_addrs f st) is)))"
  using assms(2)
proof (induction "is")
  case (Cons i "is")
  have peerid: "map (m_peerid \<circ> (\<lambda>p. bn_kad_addr (the (bucknode_db st p)))) ps = ps"
    if "set ps \<subseteq> dom (bucknode_db st)" for ps
    using that kb_inv_node(2)[OF assms(1)] by (induction ps) auto
  have "distinct (kb_lru st i)" "set (kb_lru st i) \<subseteq> dom (bucknode_db st)"
    using assms(1) by (auto simp: kb_inv_def kb_lists_def)
  then have "distinct (map m_peerid (kb_addrs f st i))"
    unfolding kb_addrs_def by (intro distinct_map_filter) (simp add: peerid)
  moreover have "m_peerid a \<noteq> m_peerid b" if "a \<in> set (kb_addrs f st i)" "b \<in> set (kb_addrs f st j)" "j \<noteq> i" for a b j
    using that kb_addrs_set[OF assms(1)] by metis
  ultimately show ?case using Cons by fastforce
qed simp

text \<open>One turn of the loop visits the bucket above and the bucket below.\<close>

lemma nclosest_loop_turn:
  assumes inv: "kb_inv st" and flt: "\<forall>a. flt a = Inr (f a)" and "0 \<le> inc" "dec < int (length (bucklist_db st))"
    and "length tmp < mx" "0 \<le> dec \<or> inc < int (length (bucklist_db st))"
  defines "nb \<equiv> int (length (bucklist_db st))"
  defines "now \<equiv> (if inc < nb then [nat inc] else []) @ (if 0 \<le> dec then [nat dec] else [])"
  shows "nclosest_loop flt st mx inc dec tmp =
    nclosest_loop flt st mx (if inc < nb then inc + 1 else inc) (if 0 \<le> dec then dec - 1 else dec)
      (tmp @ concat (map (kb_addrs f st) now))"
proof -
  note copy = bl_copy_to_spec[OF inv flt]
  show ?thesis
    using assms(3-6) by (subst nclosest_loop.simps) (auto simp: now_def nb_def copy not_less)
qed

lemma nclosest_loop_spec:
  assumes inv: "kb_inv st" and flt: "\<forall>a. flt a = Inr (f a)"
    and "dec < inc" "-1 \<le> dec" "dec < int (length (bucklist_db st))"
  defines "todo \<equiv> \<lambda>inc dec. {i. i < length (bucklist_db st) \<and> (inc \<le> int i \<or> int i \<le> dec)}"
  shows "\<exists>is. nclosest_loop flt st mx inc dec tmp = Inr (tmp @ concat (map (kb_addrs f st) is)) \<and> distinct is \<and>
    set is \<subseteq> todo inc dec \<and> (mx \<le> length (tmp @ concat (map (kb_addrs f st) is)) \<or> set is = todo inc dec) \<and>
    (length tmp < mx \<and> inc < int (length (bucklist_db st)) \<longrightarrow> nat inc \<in> set is)"
  using assms(3-5)
proof (induction "nat (int (length (bucklist_db st)) - inc) + nat (dec + 1)" arbitrary: inc dec tmp rule: less_induct)
  case less
  define nb where "nb = int (length (bucklist_db st))"
  show ?case
  proof (cases "length tmp < mx \<and> (0 \<le> dec \<or> inc < nb)")
    case False
    then have "nclosest_loop flt st mx inc dec tmp = Inr tmp"
      by (subst nclosest_loop.simps) (auto simp: nb_def not_less)
    then show ?thesis
      using False by (intro exI[of _ "[]"]) (auto simp: todo_def nb_def)
  next
    case True
    define now where "now = (if inc < nb then [nat inc] else []) @ (if 0 \<le> dec then [nat dec] else [])"
    define inc' where "inc' = (if inc < nb then inc + 1 else inc)"
    define dec' where "dec' = (if 0 \<le> dec then dec - 1 else dec)"
    have turn: "nclosest_loop flt st mx inc dec tmp =
        nclosest_loop flt st mx inc' dec' (tmp @ concat (map (kb_addrs f st) now))"
      unfolding inc'_def dec'_def now_def nb_def using True less.prems
      by (intro nclosest_loop_turn[OF inv flt]) (auto simp: nb_def)
    have "nat (nb - inc') + nat (dec' + 1) < nat (nb - inc) + nat (dec + 1)" "dec' < inc'" "-1 \<le> dec'" "dec' < nb"
      using True less.prems by (auto simp: inc'_def dec'_def nb_def)
    from less.hyps[OF this[unfolded nb_def], of "tmp @ concat (map (kb_addrs f st) now)"] obtain "is" where
      "is": "nclosest_loop flt st mx inc' dec' (tmp @ concat (map (kb_addrs f st) now)) =
          Inr (tmp @ concat (map (kb_addrs f st) (now @ is)))" "distinct is" "set is \<subseteq> todo inc' dec'"
        "mx \<le> length (tmp @ concat (map (kb_addrs f st) (now @ is))) \<or> set is = todo inc' dec'"
      by (metis append.assoc concat_append map_append)
    have new: "distinct now" "set now \<inter> todo inc' dec' = {}" "todo inc dec = set now \<union> todo inc' dec'"
      using True less.prems by (auto simp: now_def todo_def inc'_def dec'_def nb_def)
    show ?thesis
      using turn "is" new by (intro exI[of _ "now @ is"]) (auto simp: now_def nb_def)
  qed
qed

lemma nclosest_spec:
  assumes inv: "kb_inv st" and flt: "\<forall>a. flt a = Inr (f a)" and t: "length t = kad_id_len"
  shows "\<exists>tmp is. get_nclosest_addr t mx flt st = Inr (take mx (sort_by_dist t tmp)) \<and>
    tmp = concat (map (kb_addrs f st) is) \<and> distinct is \<and>
    (mx \<le> length tmp \<or> set is = {..<length (bucklist_db st)}) \<and> (0 < mx \<longrightarrow> get_bucket_idx t st \<in> set is)"
proof -
  let ?x = "int (get_bucket_idx t st)"
  have x: "get_bucket_idx t st < length (bucklist_db st)" using inv t kb_bucket_idx_less by (simp add: kb_inv_def)
  have all: "{i. i < length (bucklist_db st) \<and> (?x \<le> int i \<or> int i \<le> ?x - 1)} = {..<length (bucklist_db st)}" by auto
  have "?x - 1 < ?x" "-1 \<le> ?x - 1" "?x - 1 < int (length (bucklist_db st))" using x by auto
  from nclosest_loop_spec[OF inv flt this, of mx "[]"] obtain "is" where
    "nclosest_loop flt st mx ?x (?x - 1) [] = Inr (concat (map (kb_addrs f st) is))" "distinct is"
    "mx \<le> length (concat (map (kb_addrs f st) is)) \<or> set is = {..<length (bucklist_db st)}"
    "0 < mx \<longrightarrow> get_bucket_idx t st \<in> set is"
    unfolding all using x by auto
  then show ?thesis by (intro exI[of _ "concat (map (kb_addrs f st) is)"] exI[of _ "is"]) (simp add: get_nclosest_addr_def)
qed

lemma kb_all_addrs:
  assumes "kb_inv st"
  shows "set (concat (map (kb_addrs f st) is)) = {a\<in>kb_eligible f st. get_bucket_idx (m_peerid a) st \<in> set is}"
  using kb_addrs_set[OF assms, of _ f] by auto

lemma kb_eligible_len:
  assumes "kb_inv st" "a \<in> kb_eligible f st"
  shows "length (m_peerid a) = kad_id_len" "get_bucket_idx (m_peerid a) st < length (bucklist_db st)"
proof -
  show len: "length (m_peerid a) = kad_id_len" using assms kb_inv_node(1) by (auto simp: kb_eligible_def)
  show "get_bucket_idx (m_peerid a) st < length (bucklist_db st)"
    using assms(1) len kb_bucket_idx_less by (simp add: kb_inv_def)
qed

lemma kb_lookup_card:
  assumes inv: "kb_inv st" and dist: "distinct (map m_peerid tmp)"
    and set_tmp: "set tmp = {a\<in>kb_eligible f st. get_bucket_idx (m_peerid a) st \<in> set is}"
    and enough: "mx \<le> length tmp \<or> set is = {..<length (bucklist_db st)}"
  shows "min mx (length tmp) = min mx (card (kb_eligible f st))"
proof -
  have "kb_eligible f st = set (concat (map (kb_addrs f st) [0..<length (bucklist_db st)]))"
    unfolding kb_all_addrs[OF inv] using kb_eligible_len(2)[OF inv] by auto
  then have fin: "finite (kb_eligible f st)" by (metis List.finite_set)
  have len: "length tmp = card (set tmp)" using dist by (simp add: distinct_card distinct_map)
  show ?thesis
  proof (cases "mx \<le> length tmp")
    case True
    then show ?thesis using card_mono[OF fin, of "set tmp"] set_tmp len by auto
  next
    case False
    then have "set tmp = kb_eligible f st" using enough set_tmp kb_eligible_len(2)[OF inv] by auto
    then show ?thesis using len by simp
  qed
qed

lemma nclosest_lookup_ok:
  assumes "kb_inv st" "length t = kad_id_len"
  shows "\<exists>res. get_nclosest_addr t mx (\<lambda>a. Inr (f a)) st = Inr res \<and>
    length res = min mx (card (kb_eligible f st)) \<and> set res \<subseteq> kb_eligible f st \<and> distinct (map m_peerid res) \<and>
    sorted (map (\<lambda>a. kad_dist t (m_peerid a)) res) \<and>
    (\<forall>a\<in>kb_eligible f st - set res. get_bucket_idx (m_peerid a) st = get_bucket_idx t st \<longrightarrow>
       (\<forall>b\<in>set res. kad_dist t (m_peerid b) \<le> kad_dist t (m_peerid a)))"
proof -
  obtain tmp "is" where r: "get_nclosest_addr t mx (\<lambda>a. Inr (f a)) st = Inr (take mx (sort_by_dist t tmp))"
    and tmp: "tmp = concat (map (kb_addrs f st) is)" and "is": "distinct is"
      "mx \<le> length tmp \<or> set is = {..<length (bucklist_db st)}" "0 < mx \<longrightarrow> get_bucket_idx t st \<in> set is"
    using nclosest_spec[OF assms(1) _ assms(2), of "\<lambda>a. Inr (f a)" f mx] by blast
  let ?s = "sort_by_dist t tmp" let ?res = "take mx ?s" let ?d = "\<lambda>a. kad_dist t (m_peerid a)"
  have set_tmp: "set tmp = {a\<in>kb_eligible f st. get_bucket_idx (m_peerid a) st \<in> set is}"
    unfolding tmp by (rule kb_all_addrs[OF assms(1)])
  have dist_ids: "distinct (map m_peerid tmp)" unfolding tmp by (rule kb_addrs_distinct[OF assms(1) "is"(1)])
  have "mset (map m_peerid ?s) = mset (map m_peerid tmp)" by simp
  then have dist_s: "distinct (map m_peerid ?s)" using dist_ids by (metis mset_eq_imp_distinct_iff)
  have srt: "sorted (map ?d ?s)"
    using sorted_sort_by_dist[of tmp t] set_tmp kb_eligible_len(1)[OF assms(1)] assms(2) by auto
  have len: "length ?res = min mx (card (kb_eligible f st))"
    using kb_lookup_card[OF assms(1) dist_ids set_tmp "is"(2)] by simp
  have "?d b \<le> ?d a" if "a \<in> kb_eligible f st - set ?res" "get_bucket_idx (m_peerid a) st = get_bucket_idx t st" "b \<in> set ?res" for a b
  proof -
    have "0 < mx" using that(3) by (cases mx) auto
    then have "a \<in> set ?s" using that "is"(3) set_tmp by auto
    then have "a \<in> set (drop mx ?s)" using that(1) by (metis Diff_iff Un_iff append_take_drop_id set_append)
    moreover have "sorted (map ?d ?res @ map ?d (drop mx ?s))" using srt by (metis append_take_drop_id map_append)
    ultimately show ?thesis using that(3) by (auto simp: sorted_append)
  qed
  moreover have "sorted (map ?d ?res)" "distinct (map m_peerid ?res)"
    using sorted_wrt_take[OF srt, of mx] distinct_take[OF dist_s, of mx] by (simp_all add: take_map)
  moreover have "set ?res \<subseteq> kb_eligible f st" using set_take_subset[of mx ?s] set_tmp by auto
  ultimately show ?thesis using r len by (intro exI[of _ ?res]) blast
qed

subsection \<open>Identifiers that refresh a bucket\<close>

lemma highest_bit_xor:
  assumes "length a = length b" "bit_get_highest_set b < bit_get_highest_set a"
  shows "bit_get_highest_set (gen_id_xor a b) = bit_get_highest_set a"
    "bit_get_highest_set (gen_id_xor b a) = bit_get_highest_set a"
proof -
  let ?h = "bit_get_highest_set a"
  have "gen_id_val a \<noteq> 0" using assms(2) bit_get_highest_set_null[of a] by linarith
  then have a: "2 ^ ?h \<le> gen_id_val a" "gen_id_val a < 2 ^ Suc ?h" using bit_get_highest_set_val[of a] by simp_all
  have b: "gen_id_val b < 2 ^ ?h"
  proof (cases "gen_id_val b = 0")
    case False
    then have "gen_id_val b < 2 ^ Suc (bit_get_highest_set b)" using bit_get_highest_set_val[of b] by simp
    also have "\<dots> \<le> 2 ^ ?h" using assms(2) by (intro power_increasing) auto
    finally show ?thesis .
  qed simp
  show "bit_get_highest_set (gen_id_xor a b) = ?h" "bit_get_highest_set (gen_id_xor b a) = ?h"
    using nat_xor_bounds[OF a b] assms(1)
    by (auto intro!: bit_get_highest_set_eqI simp: gen_id_val_xor xor.commute)
qed

lemma refresh_pick_spec:
  assumes "refresh_pick st i rs = Inr (Some r)" "\<forall>r\<in>set rs. length r = kad_id_len" "0 < kbucket_width st"
  shows "length r = kad_id_len \<and> bit_get_highest_set r div kbucket_width st = i"
  using assms
proof (induction rs)
  case (Cons r' rs)
  let ?k = "kad_id_len * 8 - (i + 1) * kbucket_width st"
  have "?k < 8 * length r'" using Cons.prems by (simp add: kad_id_len_def)
  then obtain c where "bit_clear_n_highest ?k r' = Inr c" "length c = length r'"
    using bit_clear_n_highest_val[of ?k r'] by blast
  then show ?case using Cons by (auto split: if_splits)
qed simp

subsection \<open>Properties\<close>

text \<open>The table of the witnesses: twenty byte identifiers that differ in one byte.\<close>

definition kb_ex_id :: "nat \<Rightarrow> byte \<Rightarrow> bytes" where
  "kb_ex_id i x = (replicate 20 0)[i := x, 19 := if i = 19 then x else 1]"

definition kb_ex_addr :: "nat \<Rightarrow> byte \<Rightarrow> kad_addr_t" where
  "kb_ex_addr i x = \<lparr>m_oaddr = \<lparr>m_ipaddr = Ip_v4 0x0a000001, m_port = 80\<rparr>, m_peerid = kb_ex_id i x\<rparr>"

definition kb_ex_ops :: "kb_op list" where
  "kb_ex_ops = [Kb_srckaddr True (kb_ex_addr 16 4), Kb_nsearch (kb_ex_id 0 1), Kb_srckaddr False (kb_ex_addr 0 128),
     Kb_failed_rpc (kb_ex_id 0 128) False (from_sec 1), Kb_timer, Kb_ping_end True (kb_ex_id 3 1)]"

text \<open>C6. The routing table, made for any profile whose width divides 160 and any local peer, then used in any order:
  addresses seen, with or without the ping starting, pings that end, calls that fail, the timer, searches.
  No assertion of the source fails.  Every bucket has distinct nodes and at most \<open>kbucket_height\<close> of them, a node is in
  the bucket of the highest bit of its distance to the local peer and in no other, the buckets hold
  exactly the nodes of \<open>bucknode_db\<close>, a node is pinged exactly when another waits for its place, and
  that other is in \<open>pending_node_db\<close>, belongs to the same bucket and is not in the table.\<close>
theorem kbucket_invariant:
  assumes "kb_ctor_args_ok profile peerid listen" "list_all kb_op_ok ops"
  shows "\<exists>st. res_bind (kad_kbucket_ctor profile peerid listen) (kb_run ops) = Inr st \<and>
    (\<forall>i. distinct (kb_lru st i) \<and> length (kb_lru st i) \<le> kbucket_height st) \<and>
    (\<forall>i p. p \<in> set (kb_lru st i) \<longleftrightarrow> p \<in> dom (bucknode_db st) \<and> get_bucket_idx p st = i) \<and>
    (\<forall>p n. bucknode_db st p = Some n \<longrightarrow>
       m_peerid (bn_kad_addr n) = p \<and> ping_rpc n = (pending_node n \<noteq> None) \<and>
       (\<forall>q. pending_node n = Some q \<longrightarrow> pending_node_db st (m_peerid q) = Some q \<and>
          bucknode_db st (m_peerid q) = None \<and> get_bucket_idx (m_peerid q) st = get_bucket_idx p st))"
proof -
  obtain st0 where st0: "kad_kbucket_ctor profile peerid listen = Inr st0" "kb_inv st0"
    using kb_ctor_ok[OF assms(1)] by blast
  obtain st where st: "kb_run ops st0 = Inr st" "kb_inv st" using kb_run_ok[OF st0(2) assms(2)] by blast
  have L: "kb_lists (\<lambda>p. get_bucket_idx p st) (kbucket_height st) (kb_lru st) (bucknode_db st)"
    and N: "kb_nodes (\<lambda>p. get_bucket_idx p st) (bucknode_db st) (pending_node_db st)"
    using st(2) by (simp_all add: kb_inv_def)
  have "m_peerid (bn_kad_addr n) = p \<and> ping_rpc n = (pending_node n \<noteq> None) \<and>
       (\<forall>q. pending_node n = Some q \<longrightarrow> pending_node_db st (m_peerid q) = Some q \<and>
          bucknode_db st (m_peerid q) = None \<and> get_bucket_idx (m_peerid q) st = get_bucket_idx p st)"
    if n: "bucknode_db st p = Some n" for p n
  proof -
    have "pends (bucknode_db st) p q" if "pending_node n = Some q" for q using n that by (simp add: pends_def)
    then show ?thesis using kb_nodesD(1)[OF N n] kb_nodesD(2,3)[OF N] by blast
  qed
  then show ?thesis
    using st0(1) st(1) L by (intro exI[of _ st]) (simp add: kb_lists_def)
qed

theorem kbucket_invariant_witness:
  "\<exists>st. res_bind (kad_kbucket_ctor kad_kbucket_profile_ctor (kb_ex_id 19 1) \<lparr>m_ipaddr = Ip_v4 0, m_port = 80\<rparr>)
      (kb_run kb_ex_ops) = Inr st \<and> (\<forall>i. length (kb_lru st i) \<le> kbucket_height st)"
proof -
  have "kb_ctor_args_ok kad_kbucket_profile_ctor (kb_ex_id 19 1) \<lparr>m_ipaddr = Ip_v4 0, m_port = 80\<rparr>"
    "list_all kb_op_ok kb_ex_ops"
    by code_simp+
  from kbucket_invariant[OF this] show ?thesis by blast
qed

text \<open>C18. A node that entered the table stays in it, in its bucket, whatever newcomers are seen: it leaves only after
  its ping ended with a failure or after a failed call was reported.\<close>
theorem kbucket_keeps_live_nodes:
  assumes "kb_ctor_args_ok profile peerid listen" "list_all kb_op_ok (ops @ ops')"
    "res_bind (kad_kbucket_ctor profile peerid listen) (kb_run ops) = Inr st" "bucknode_db st p \<noteq> None"
    "\<not> list_ex (kb_reports p) (ops @ ops')"
  shows "\<exists>st'. kb_run ops' st = Inr st' \<and> bucknode_db st' p \<noteq> None \<and> p \<in> set (kb_lru st' (get_bucket_idx p st'))"
proof -
  obtain st0 where st0: "kad_kbucket_ctor profile peerid listen = Inr st0" "kb_inv st0" "peerid_todelete_db st0 = []"
    using kb_ctor_ok[OF assms(1)] by blast
  have st: "kb_inv st" "p \<notin> set (peerid_todelete_db st)"
    using kb_run_ok[OF st0(2), of ops] assms(2,3,5) st0 by auto
  obtain st' where "kb_run ops' st = Inr st'" "kb_inv st'" "p \<in> dom (bucknode_db st')"
    using kb_run_ok[OF st(1), of ops'] st(2) assms(2,4,5) by auto
  then show ?thesis using kb_inv_node(4)[of st' p] by (intro exI[of _ st']) auto
qed

theorem kbucket_keeps_live_nodes_witness:
  "\<exists>st st'. res_bind (kad_kbucket_ctor kad_kbucket_profile_ctor (kb_ex_id 19 1) \<lparr>m_ipaddr = Ip_v4 0, m_port = 80\<rparr>)
      (kb_run []) = Inr st \<and> kb_run kb_ex_ops st = Inr st' \<and> bucknode_db st' (kb_ex_id 19 1) \<noteq> None"
proof -
  let ?c = "kad_kbucket_ctor kad_kbucket_profile_ctor (kb_ex_id 19 1) \<lparr>m_ipaddr = Ip_v4 0, m_port = 80\<rparr>"
  have ok: "kb_ctor_args_ok kad_kbucket_profile_ctor (kb_ex_id 19 1) \<lparr>m_ipaddr = Ip_v4 0, m_port = 80\<rparr>"
    "list_all kb_op_ok ([] @ kb_ex_ops)" "\<not> list_ex (kb_reports (kb_ex_id 19 1)) ([] @ kb_ex_ops)"
    by code_simp+
  obtain st where st: "res_bind ?c (kb_run []) = Inr st" using kb_ctor_ok[OF ok(1)] by auto
  have "res_bind (res_bind ?c (kb_run [])) (\<lambda>st. Inr (bucknode_db st (kb_ex_id 19 1) = None)) = Inr False" by code_simp
  then have "bucknode_db st (kb_ex_id 19 1) \<noteq> None" unfolding st by simp
  from kbucket_keeps_live_nodes[OF ok(1,2) st this ok(3)] st show ?thesis by blast
qed

text \<open>C19. A lookup in a table that satisfies the invariant returns, for any target, number and filter, addresses of
  distinct peers of the table that pass the filter, from the closest to the farthest in the
  exclusive-or distance; as many as were asked for or all of them when the table has fewer.  No
  eligible peer of the target's own bucket that is left out is closer than one that is returned.\<close>
theorem nclosest_lookup:
  assumes "kb_inv st" "length t = kad_id_len"
  shows "\<exists>res. get_nclosest_addr t mx (\<lambda>a. Inr (f a)) st = Inr res \<and>
    length res = min mx (card (kb_eligible f st)) \<and> set res \<subseteq> kb_eligible f st \<and> distinct (map m_peerid res) \<and>
    sorted (map (\<lambda>a. kad_dist t (m_peerid a)) res) \<and>
    (\<forall>a\<in>kb_eligible f st - set res. get_bucket_idx (m_peerid a) st = get_bucket_idx t st \<longrightarrow>
       (\<forall>b\<in>set res. kad_dist t (m_peerid b) \<le> kad_dist t (m_peerid a)))"
  using nclosest_lookup_ok[OF assms] .

theorem nclosest_lookup_witness:
  "\<exists>st res. kad_kbucket_ctor kad_kbucket_profile_ctor (kb_ex_id 19 1) \<lparr>m_ipaddr = Ip_v4 0, m_port = 80\<rparr> = Inr st \<and>
     get_nclosest_addr (kb_ex_id 3 1) 5 (\<lambda>a. Inr False) st = Inr res \<and>
     sorted (map (\<lambda>a. kad_dist (kb_ex_id 3 1) (m_peerid a)) res)"
proof -
  have ok: "kb_ctor_args_ok kad_kbucket_profile_ctor (kb_ex_id 19 1) \<lparr>m_ipaddr = Ip_v4 0, m_port = 80\<rparr>"
    "length (kb_ex_id 3 1) = kad_id_len"
    by code_simp+
  obtain st where st: "kad_kbucket_ctor kad_kbucket_profile_ctor (kb_ex_id 19 1) \<lparr>m_ipaddr = Ip_v4 0, m_port = 80\<rparr> = Inr st"
    "kb_inv st"
    using kb_ctor_ok[OF ok(1)] by blast
  from nclosest_lookup[OF st(2) ok(2), of 5 "\<lambda>a. False"] st(1) show ?thesis by blast
qed

text \<open>The lookup is not the closest nodes of the table, as its comment says: the loop takes the buckets above and
  below in turn and stops as soon as it has enough, although every node below the bucket of the target is closer than any
  node above it.  Here the table holds the local peer and one far peer; asked for one address near a
  target, it gives the far peer.\<close>
lemma nclosest_misses_closer:
  "\<exists>st a b. res_bind (kad_kbucket_ctor kad_kbucket_profile_ctor (kb_ex_id 19 1) \<lparr>m_ipaddr = Ip_v4 0, m_port = 80\<rparr>)
      (kb_run [Kb_srckaddr False (kb_ex_addr 16 4)]) = Inr st \<and>
    get_nclosest_addr (kb_ex_id 17 16) 1 filter_fct_dstlocalhost st = Inr [a] \<and>
    b \<in> kb_eligible (\<lambda>a. False) st \<and> kad_dist (kb_ex_id 17 16) (m_peerid b) < kad_dist (kb_ex_id 17 16) (m_peerid a)"
proof -
  let ?b = "\<lparr>m_oaddr = \<lparr>m_ipaddr = Ip_v4 0x7f000001, m_port = 80\<rparr>, m_peerid = kb_ex_id 19 1\<rparr>"
  let ?run = "res_bind (kad_kbucket_ctor kad_kbucket_profile_ctor (kb_ex_id 19 1) \<lparr>m_ipaddr = Ip_v4 0, m_port = 80\<rparr>)
      (kb_run [Kb_srckaddr False (kb_ex_addr 16 4)])"
  have look: "res_bind ?run (get_nclosest_addr (kb_ex_id 17 16) 1 filter_fct_dstlocalhost) = Inr [kb_ex_addr 16 4]"
    by code_simp
  then obtain st where st: "?run = Inr st" by (cases ?run) auto
  have "res_bind ?run (\<lambda>st. Inr (map_option bn_kad_addr (bucknode_db st (m_peerid ?b)))) = Inr (Some ?b)" by code_simp
  then have "?b \<in> kb_eligible (\<lambda>a. False) st" unfolding st by (simp add: kb_eligible_def)
  moreover have "cmp_xor_dist (kb_ex_id 17 16) ?b (kb_ex_addr 16 4)" by code_simp
  then have "kad_dist (kb_ex_id 17 16) (m_peerid ?b) < kad_dist (kb_ex_id 17 16) (m_peerid (kb_ex_addr 16 4))"
    by (subst (asm) cmp_xor_dist_iff) (simp_all add: kb_ex_id_def kb_ex_addr_def)
  moreover have "get_nclosest_addr (kb_ex_id 17 16) 1 filter_fct_dstlocalhost st = Inr [kb_ex_addr 16 4]"
    using look unfolding st by simp
  ultimately show ?thesis using st by blast
qed

text \<open>C34. The identifier searched to refresh bucket \<open>i\<close> is chosen by its own highest bit, not by its distance to the
  local peer: when the local identifier is small (its highest bit is in a bucket below \<open>i\<close>) the search is
  in bucket \<open>i\<close>; when it is in a bucket above \<open>i\<close>, every identifier that can be chosen belongs to that one
  bucket, and bucket \<open>i\<close> is not refreshed.\<close>
theorem refresh_targets_bucket:
  assumes "kb_shape st" "\<forall>r\<in>set rs. length r = kad_id_len" "refresh_pick st i rs = Inr (Some r)"
  shows "(bit_get_highest_set (local_peerid st) div kbucket_width st < i \<longrightarrow> get_bucket_idx r st = i) \<and>
    (i < bit_get_highest_set (local_peerid st) div kbucket_width st \<longrightarrow>
      get_bucket_idx r st = bit_get_highest_set (local_peerid st) div kbucket_width st)"
proof (intro conjI impI)
  let ?w = "kbucket_width st" let ?l = "local_peerid st"
  have r: "length ?l = length r" "bit_get_highest_set r div ?w = i"
    using refresh_pick_spec[OF assms(3,2)] assms(1) by (simp_all add: kb_shape_def)
  show "get_bucket_idx r st = i" if "bit_get_highest_set ?l div ?w < i"
  proof -
    have "bit_get_highest_set ?l < bit_get_highest_set r" using that r(2) by (metis div_le_mono not_less)
    then show ?thesis using highest_bit_xor(2)[of r ?l] r by (simp add: get_bucket_idx_def)
  qed
  show "get_bucket_idx r st = bit_get_highest_set ?l div ?w" if "i < bit_get_highest_set ?l div ?w"
  proof -
    have "bit_get_highest_set r < bit_get_highest_set ?l" using that r(2) by (metis div_le_mono not_less)
    then show ?thesis using highest_bit_xor(1)[of ?l r] r by (simp add: get_bucket_idx_def)
  qed
qed

theorem refresh_targets_bucket_witness:
  "\<exists>st. kad_kbucket_ctor kad_kbucket_profile_ctor (kb_ex_id 0 64) \<lparr>m_ipaddr = Ip_v4 0, m_port = 80\<rparr> = Inr st \<and>
     refresh_pick st 0 [kb_ex_id 0 8, kb_ex_id 19 4] = Inr (Some (kb_ex_id 19 1)) \<and> get_bucket_idx (kb_ex_id 19 1) st = 31"
proof -
  let ?c = "kad_kbucket_ctor kad_kbucket_profile_ctor (kb_ex_id 0 64) \<lparr>m_ipaddr = Ip_v4 0, m_port = 80\<rparr>"
  have ok: "kb_ctor_args_ok kad_kbucket_profile_ctor (kb_ex_id 0 64) \<lparr>m_ipaddr = Ip_v4 0, m_port = 80\<rparr>"
    "\<forall>r\<in>set [kb_ex_id 0 8, kb_ex_id 19 4]. length r = kad_id_len"
    by code_simp+
  obtain st where st: "?c = Inr st" "kb_shape st" using kb_ctor_ok[OF ok(1)] by (auto simp: kb_inv_def)
  have "res_bind ?c (\<lambda>st. refresh_pick st 0 [kb_ex_id 0 8, kb_ex_id 19 4]) = Inr (Some (kb_ex_id 19 1))"
    "res_bind ?c (\<lambda>st. Inr (bit_get_highest_set (local_peerid st) div kbucket_width st)) = Inr 31"
    by code_simp+
  then have "refresh_pick st 0 [kb_ex_id 0 8, kb_ex_id 19 4] = Inr (Some (kb_ex_id 19 1))"
    "bit_get_highest_set (local_peerid st) div kbucket_width st = 31"
    by (simp_all add: st(1))
  with refresh_targets_bucket[OF st(2) ok(2) this(1)] st(1) show ?thesis by auto
qed

end
