(* ===== verification/KadDbRun.thy ===== *)
theory KadDbRun
  imports KadDb
begin

text \<open>
  Histories of a record database: records stored by other peers or by the local user, removals, timers and the
  passing of time in any order, from the constructor on.  The invariant of \<open>KadDb\<close> holds after every history and no
  assertion of the source fails, when the profile accepts several records of a key as both profiles of the source do.
  The lookups, the life time of a record and the replication to a new node follow.
\<close>

subsection \<open>The operations left\<close>

lemma db_remove_ok:
  assumes "db_inv st"
  shows "\<exists>st'. db_remove p st = Inr st' \<and> db_inv st' \<and> same_db st st' \<and> recid_db st' = (recid_db st)(p := None) \<and>
    db_size st' \<le> db_size st"
proof (cases "recid_db st p")
  case None
  then show ?thesis using assms by (auto simp: db_remove_def fun_upd_idem)
next
  case (Some x)
  then show ?thesis using rec_unlink_ok[OF assms Some] by (auto simp: db_remove_def same_db_def)
qed

lemma remove_loop_ok:
  assumes "db_inv st"
  shows "\<exists>st'. remove_loop rs st = Inr st' \<and> db_inv st' \<and> same_db st st' \<and> db_size st' \<le> db_size st \<and>
    (\<forall>p. recid_db st' p = (if p \<in> kr_recid ` set rs then None else recid_db st p))"
  using assms
proof (induction rs arbitrary: st)
  case (Cons r rs)
  obtain st1 where st1: "(if \<not> contain_recid (kr_recid r) st then Inr st else db_remove (kr_recid r) st) = Inr st1"
    "db_inv st1" "same_db st st1" "db_size st1 \<le> db_size st" "recid_db st1 = (recid_db st)(kr_recid r := None)"
    using db_remove_ok[OF Cons.prems, of "kr_recid r"] Cons.prems
    by (cases "recid_db st (kr_recid r)") (auto simp: contain_recid_def fun_upd_idem)
  have "remove_loop (r # rs) st = remove_loop rs st1" using st1(1) by (auto split: if_splits)
  then show ?case
    using Cons.IH[OF st1(2)] st1(3-5) same_db_trans[OF st1(3)] by fastforce
qed simp

definition rec_fits :: "kad_db_profile_t \<Rightarrow> kad_rec_t \<Rightarrow> bool" where
  "rec_fits prof r \<longleftrightarrow> rec_ids_ok r \<and> kr_ttl r \<le> rec_max_ttl prof \<and> (rec_max_len prof \<noteq> 0 \<longrightarrow> rec_len r \<le> rec_max_len prof)"

lemma db_update_loop_ok:
  assumes "db_inv st" "\<not> keyid_nodups_ok (db_profile st)" "\<forall>r\<in>set rs. rec_fits (db_profile st) r"
    "db_max_len (db_profile st) \<noteq> 0 \<longrightarrow> db_size st + sum_list (map rec_len rs) \<le> db_max_len (db_profile st)"
  shows "\<exists>st'. db_update_loop c rs st = Inr st' \<and> db_inv st' \<and> same_db st st' \<and>
    (\<forall>p. p \<notin> kr_recid ` set rs \<longrightarrow> recid_db st' p = recid_db st p)"
  using assms
proof (induction rs arbitrary: st)
  case (Cons r rs)
  have "may_accept r st" "rec_ids_ok r" using Cons.prems by (auto simp: may_accept_def Let_def rec_fits_def not_less)
  then obtain st1 where st1: "db_update c r st = Inr st1" "db_inv st1" "same_db st st1" "db_size st1 \<le> db_size st + rec_len r"
    "\<And>p. p \<noteq> kr_recid r \<Longrightarrow> recid_db st1 p = recid_db st p"
    using db_update_ok[OF Cons.prems(1), of r c] by (auto split: option.splits if_splits)
  have "\<exists>st'. db_update_loop c rs st1 = Inr st' \<and> db_inv st' \<and> same_db st1 st' \<and>
    (\<forall>p. p \<notin> kr_recid ` set rs \<longrightarrow> recid_db st' p = recid_db st1 p)"
    using Cons.prems st1(2-4) by (intro Cons.IH) (auto simp: same_db_def)
  then show ?case using st1(1,5) same_db_trans[OF st1(3)] by auto
qed simp

lemma store_local_ok:
  assumes "db_inv st" "\<not> keyid_nodups_ok (db_profile st)" "recdups_inv d"
  shows "\<exists>b st'. store_local_db c d st = Inr (b, st') \<and> db_inv st' \<and> same_db st st' \<and>
    (\<forall>p. p \<notin> rv_recid ` set (recval_db d) \<longrightarrow> recid_db st' p = recid_db st p)"
proof (cases "may_accept_dups d st")
  case True
  let ?rs = "map (rec_of_recval (rd_keyid d)) (recval_db d)"
  have ids: "kr_recid ` set ?rs = rv_recid ` set (recval_db d)" by (force simp: rec_of_recval_def image_iff)
  obtain st1 where st1: "remove_loop ?rs st = Inr st1" "db_inv st1" "same_db st st1" "db_size st1 \<le> db_size st"
    "\<And>p. recid_db st1 p = (if p \<in> kr_recid ` set ?rs then None else recid_db st p)"
    using remove_loop_ok[OF assms(1), of ?rs] by metis
  have fits: "\<forall>r\<in>set ?rs. rec_fits (db_profile st) r"
    using True assms by (auto simp: may_accept_dups_def may_accept_def Let_def list_all_iff rec_fits_def
        recdups_inv_def rec_of_recval_def not_less split: if_splits)
  have "db_max_len (db_profile st) \<noteq> 0 \<longrightarrow> db_size st + sum_list (map rec_len ?rs) \<le> db_max_len (db_profile st)"
    using True by (auto simp: may_accept_dups_def Let_def not_less split: if_splits)
  then have "\<exists>st'. db_update_loop c ?rs st1 = Inr st' \<and> db_inv st' \<and> same_db st1 st' \<and>
      (\<forall>p. p \<notin> kr_recid ` set ?rs \<longrightarrow> recid_db st' p = recid_db st1 p)"
    using st1(2-4) assms(2) fits by (intro db_update_loop_ok) (auto simp: same_db_def)
  then obtain st' where "db_update_loop c ?rs st1 = Inr st'" "db_inv st'" "same_db st1 st'"
    "\<And>p. p \<notin> kr_recid ` set ?rs \<Longrightarrow> recid_db st' p = recid_db st1 p" by blast
  then show ?thesis
    using True st1(1,5) same_db_trans[OF st1(3)] unfolding store_local_db_def db_update_dups_def ids by auto
qed (use assms in \<open>auto simp: store_local_db_def\<close>)

text \<open>An operation on the timers keeps the records.\<close>

lemma db_inv_timers:
  assumes "db_inv st" "\<And>p. map_option dr_rec (m p) = map_option dr_rec (recid_db st p)"
  shows "db_inv (st\<lparr>recid_db := m\<rparr>)"
proof -
  let ?st = "st\<lparr>recid_db := m\<rparr>"
  have eq: "(\<exists>x. m p = Some x \<and> P (dr_rec x)) \<longleftrightarrow> (\<exists>x. recid_db st p = Some x \<and> P (dr_rec x))" for P p
    using assms(2)[of p] by (cases "m p"; cases "recid_db st p") auto
  have some: "\<exists>y. recid_db st p = Some y \<and> dr_rec y = dr_rec x" if "m p = Some x" for p x
    using assms(2)[of p] that by (cases "recid_db st p") auto
  have idx: "db_index st" using assms(1) by (simp add: db_inv_def)
  have "db_index ?st"
  proof (rule db_indexI)
    show "(k, p) \<in> set (distid_db ?st) \<longleftrightarrow> (\<exists>x. recid_db ?st p = Some x \<and> k = get_distid (kr_keyid (dr_rec x)) ?st)" for k p
      using db_indexD(4)[OF idx, of k p] eq[of p "\<lambda>r. k = get_distid (kr_keyid r) st"] by (simp add: get_distid_def)
    fix p x
    assume "recid_db ?st p = Some x"
    then obtain y where "recid_db st p = Some y" "dr_rec y = dr_rec x" using some by auto
    then show "kr_recid (dr_rec x) = p \<and> length p = kad_id_len \<and> length (kr_keyid (dr_rec x)) = kad_id_len"
      using db_indexD(5,6,7)[OF idx] by metis
  qed (use db_indexD(1,2,3)[OF idx] in simp_all)
  moreover have "dr_rec (the (m p)) = dr_rec (the (recid_db st p))" if "p \<in> snd ` set (distid_db st)" for p
    using that db_indexD(4)[OF idx, of _ p] assms(2)[of p] by (cases "m p") auto
  then have "db_total ?st = db_total st" by (intro db_total_cong) auto
  moreover have "db_limits ?st" using assms(1) some unfolding db_inv_def db_limits_def by simp metis
  ultimately show ?thesis using assms(1) by (simp add: db_inv_def)
qed

lemma db_elapse_ok: "db_inv st \<Longrightarrow> db_inv (db_elapse d st)"
  unfolding db_elapse_def by (rule db_inv_timers) (auto simp: option.map_comp comp_def)

lemma republish_ok:
  assumes "db_inv st" "recid_db st p = Some x"
  shows "\<exists>st'. republish_timeout_cb c p st = Inr (dr_rec x, st') \<and> db_inv st' \<and> same_db st st' \<and>
    recid_db st' = (recid_db st)(p \<mapsto> x\<lparr>dr_republish := c (dr_rec x)\<rparr>)"
  using assms db_inv_timers[OF assms(1), of "(recid_db st)(p \<mapsto> x\<lparr>dr_republish := c (dr_rec x)\<rparr>)"]
  by (simp add: republish_timeout_cb_def db_rec_at_def same_db_def)

subsection \<open>Histories\<close>

text \<open>\<open>Op_store\<close> is the work of \<open>handle_store_request\<close> for one record, \<open>Op_elapse\<close> the passing of time up to the next
  timer at most; the second component of the state is the time that has passed.\<close>

datatype db_op =
  Op_store kad_rec_t | Op_store_local kad_recdups_t | Op_remove bytes | Op_republish bytes | Op_expire bytes
| Op_elapse delay_t

definition timer_allows :: "delay_t \<Rightarrow> delay_t \<Rightarrow> bool" where
  "timer_allows d left \<longleftrightarrow> delay_is_infinite left \<or> d \<le> left"

definition timers_allow :: "delay_t \<Rightarrow> kad_db_t \<Rightarrow> bool" where
  "timers_allow d st \<longleftrightarrow> list_all (\<lambda>e. case recid_db st (snd e) of None \<Rightarrow> True
      | Some x \<Rightarrow> timer_allows d (dr_expire x) \<and> timer_allows d (dr_republish x)) (distid_db st)"

fun db_exec :: "(kad_rec_t \<Rightarrow> delay_t) \<Rightarrow> db_op \<Rightarrow> kad_db_t \<times> nat \<Rightarrow> (kad_db_t \<times> nat) res" where
  "db_exec c (Op_store r) (st, now) =
     (if may_accept r st then res_bind (db_update c r st) (\<lambda>st. Inr (st, now)) else Inr (st, now))"
| "db_exec c (Op_store_local d) (st, now) = res_bind (store_local_db c d st) (\<lambda>(ok, st). Inr (st, now))"
| "db_exec c (Op_remove p) (st, now) = res_bind (db_remove p st) (\<lambda>st. Inr (st, now))"
| "db_exec c (Op_republish p) (st, now) =
     (case recid_db st p of
        Some x \<Rightarrow> if dr_republish x = 0 then res_bind (republish_timeout_cb c p st) (\<lambda>(r, st). Inr (st, now)) else Inr (st, now)
      | None \<Rightarrow> Inr (st, now))"
| "db_exec c (Op_expire p) (st, now) =
     (case recid_db st p of
        Some x \<Rightarrow> if dr_expire x = 0 then res_bind (expire_timeout_cb p st) (\<lambda>st. Inr (st, now)) else Inr (st, now)
      | None \<Rightarrow> Inr (st, now))"
| "db_exec c (Op_elapse d) (st, now) = Inr (if timers_allow d st then (db_elapse d st, now + unat d) else (st, now))"

fun db_run :: "(kad_rec_t \<Rightarrow> delay_t) \<Rightarrow> db_op list \<Rightarrow> kad_db_t \<times> nat \<Rightarrow> (kad_db_t \<times> nat) res" where
  "db_run c [] s = Inr s"
| "db_run c (op # ops) s = res_bind (db_exec c op s) (db_run c ops)"

fun db_op_ok :: "db_op \<Rightarrow> bool" where
  "db_op_ok (Op_store r) = rec_ids_ok r"
| "db_op_ok (Op_store_local d) = recdups_inv d"
| "db_op_ok op = True"

fun db_op_stores :: "db_op \<Rightarrow> bytes list" where
  "db_op_stores (Op_store r) = [kr_recid r]"
| "db_op_stores (Op_store_local d) = map rv_recid (recval_db d)"
| "db_op_stores op = []"

text \<open>A record, a set of two records and a node for the examples.\<close>

definition db_ex_rec :: "byte \<Rightarrow> delay_t \<Rightarrow> kad_rec_t" where
  "db_ex_rec b ttl = \<lparr>kr_recid = replicate 20 b, kr_keyid = replicate 20 3,
     kr_payload = \<lparr>datum_flag = FLAG_DFL, datum_data = [b]\<rparr>, kr_ttl = ttl\<rparr>"

definition db_ex_dups :: kad_recdups_t where
  "db_ex_dups = \<lparr>rd_keyid = replicate 20 3, recval_db = [recval_ctor (db_ex_rec 8 60), recval_ctor (db_ex_rec 9 60)]\<rparr>"

definition db_ex_addr :: kad_addr_t where
  "db_ex_addr = \<lparr>m_oaddr = \<lparr>m_ipaddr = Ip_v4 0x0a000001, m_port = 80\<rparr>, m_peerid = replicate 20 2\<rparr>"

definition db_ex_state :: "delay_t \<Rightarrow> kad_db_t" where
  "db_ex_state left =
     \<lparr>db_profile = build_remote_db, is_remote_db = True, db_local_peerid = replicate 20 1,
      distid_db = [(gen_id_xor (replicate 20 1) (replicate 20 3), replicate 20 9)],
      recid_db = [replicate 20 9 \<mapsto> \<lparr>dr_rec = db_ex_rec 9 7000, dr_republish = 0, dr_expire = left\<rparr>], db_size = 1\<rparr>"

lemma db_inv_ctor: "length peerid = kad_id_len \<Longrightarrow> db_inv (kad_db_ctor prof remote peerid)"
  by (simp add: db_inv_def db_index_def db_total_def db_limits_def kad_db_ctor_def)

lemma same_db_elapse [simp]: "same_db st (db_elapse d st)"
  by (simp add: same_db_def db_elapse_def)

text \<open>What a step does to a record that it does not store.\<close>

definition rec_ages :: "db_rec_t option \<Rightarrow> db_rec_t option \<Rightarrow> delay_t \<Rightarrow> bool" where
  "rec_ages old new d \<longleftrightarrow> new = None \<or>
     (\<exists>x y. old = Some x \<and> new = Some y \<and> dr_rec y = dr_rec x \<and> dr_expire y = delay_left d (dr_expire x) \<and>
       timer_allows d (dr_expire x))"

lemma delay_left_0 [simp]: "delay_left 0 x = x" "timer_allows 0 x"
  by (simp_all add: delay_left_def timer_allows_def)

lemma rec_ages_refl [simp]: "rec_ages x x 0"
  by (cases x) (auto simp: rec_ages_def)

lemma timers_allowD:
  assumes "timers_allow d st" "db_index st" "recid_db st p = Some x"
  shows "timer_allows d (dr_expire x)"
proof -
  have "(get_distid (kr_keyid (dr_rec x)) st, p) \<in> set (distid_db st)" using db_indexD(4)[OF assms(2)] assms(3) by blast
  then show ?thesis using assms(1,3) by (fastforce simp: timers_allow_def list_all_iff)
qed

lemma db_exec_ok:
  assumes inv: "db_inv st" and dups: "\<not> keyid_nodups_ok (db_profile st)" and op: "db_op_ok op"
  shows "\<exists>st' d. db_exec c op (st, now) = Inr (st', now + unat d) \<and> db_inv st' \<and> same_db st st' \<and>
    (\<forall>p. p \<notin> set (db_op_stores op) \<longrightarrow> rec_ages (recid_db st p) (recid_db st' p) d)"
proof (cases op)
  case (Op_store r)
  show ?thesis
  proof (cases "may_accept r st")
    case True
    then obtain st' where "db_update c r st = Inr st'" "db_inv st'" "same_db st st'"
      "\<And>p. p \<noteq> kr_recid r \<Longrightarrow> recid_db st' p = recid_db st p"
      using db_update_ok[OF inv, of r c] op Op_store by (auto split: option.splits if_splits)
    then show ?thesis using Op_store True by (intro exI[of _ st'] exI[of _ 0]) simp
  next
    case False
    then show ?thesis using Op_store inv by (intro exI[of _ st] exI[of _ 0]) simp
  qed
next
  case (Op_store_local rd)
  obtain b st' where "store_local_db c rd st = Inr (b, st')" "db_inv st'" "same_db st st'"
      "\<And>p. p \<notin> rv_recid ` set (recval_db rd) \<Longrightarrow> recid_db st' p = recid_db st p"
    using store_local_ok[OF inv dups, of rd c] op Op_store_local by auto
  then show ?thesis using Op_store_local by (intro exI[of _ st'] exI[of _ 0]) simp
next
  case (Op_remove q)
  obtain st' where "db_remove q st = Inr st'" "db_inv st'" "same_db st st'" "recid_db st' = (recid_db st)(q := None)"
    using db_remove_ok[OF inv] by blast
  then show ?thesis using Op_remove by (intro exI[of _ st'] exI[of _ 0]) (auto simp: rec_ages_def[of _ None])
next
  case (Op_republish q)
  show ?thesis
  proof (cases "\<exists>x. recid_db st q = Some x \<and> dr_republish x = 0")
    case True
    then obtain x where x: "recid_db st q = Some x" "dr_republish x = 0" by blast
    then obtain st' where "republish_timeout_cb c q st = Inr (dr_rec x, st')" "db_inv st'" "same_db st st'"
      "recid_db st' = (recid_db st)(q \<mapsto> x\<lparr>dr_republish := c (dr_rec x)\<rparr>)"
      using republish_ok[OF inv x(1)] by blast
    moreover have "rec_ages (Some x) (Some (x\<lparr>dr_republish := c (dr_rec x)\<rparr>)) 0" by (simp add: rec_ages_def)
    ultimately show ?thesis using Op_republish x by (intro exI[of _ st'] exI[of _ 0]) simp
  next
    case False
    then have "db_exec c op (st, now) = Inr (st, now)" using Op_republish by (auto split: option.splits)
    then show ?thesis using inv by (intro exI[of _ st] exI[of _ 0]) simp
  qed
next
  case (Op_expire q)
  show ?thesis
  proof (cases "\<exists>x. recid_db st q = Some x \<and> dr_expire x = 0")
    case True
    then obtain x where x: "recid_db st q = Some x" "dr_expire x = 0" by blast
    then obtain st' where "rec_unlink q st = Inr st'" "db_inv st'" "same_db st st'" "recid_db st' = (recid_db st)(q := None)"
      using rec_unlink_ok[OF inv x(1)] by (auto simp: same_db_def)
    then show ?thesis
      using Op_expire x by (intro exI[of _ st'] exI[of _ 0]) (auto simp: expire_timeout_cb_def rec_ages_def[of _ None])
  next
    case False
    then have "db_exec c op (st, now) = Inr (st, now)" using Op_expire by (auto split: option.splits)
    then show ?thesis using inv by (intro exI[of _ st] exI[of _ 0]) simp
  qed
next
  case (Op_elapse d)
  show ?thesis
  proof (cases "timers_allow d st")
    case True
    have "rec_ages (recid_db st p) (recid_db (db_elapse d st) p) d" for p
      using timers_allowD[OF True, of p] inv by (cases "recid_db st p") (auto simp: rec_ages_def db_elapse_def db_inv_def)
    then show ?thesis using Op_elapse True db_elapse_ok[OF inv] by (intro exI[of _ "db_elapse d st"] exI[of _ d]) simp
  next
    case False
    then show ?thesis using Op_elapse inv by (intro exI[of _ st] exI[of _ 0]) simp
  qed
qed

lemma db_run_ok:
  assumes "db_inv st" "\<not> keyid_nodups_ok (db_profile st)" "list_all db_op_ok ops"
  shows "\<exists>st' t. db_run c ops (st, now) = Inr (st', t) \<and> db_inv st' \<and> same_db st st'"
  using assms
proof (induction ops arbitrary: st now)
  case (Cons op ops)
  have "db_op_ok op" using Cons.prems(3) by simp
  then obtain st1 and d :: delay_t where st1: "db_exec c op (st, now) = Inr (st1, now + unat d)" "db_inv st1" "same_db st st1"
    using db_exec_ok[OF Cons.prems(1,2), of op c now] by blast
  have "\<exists>st' t. db_run c ops (st1, now + unat d) = Inr (st', t) \<and> db_inv st' \<and> same_db st1 st'"
    using Cons.prems st1(2,3) by (intro Cons.IH) (simp_all add: same_db_def)
  then show ?case using st1(1) same_db_trans[OF st1(3)] by auto
qed simp

lemma db_run_ages:
  assumes "db_inv st" "\<not> keyid_nodups_ok (db_profile st)" "list_all (\<lambda>op. db_op_ok op \<and> p \<notin> set (db_op_stores op)) ops"
    "recid_db st p = None \<or> (\<exists>x. recid_db st p = Some x \<and> dr_rec x = r \<and> dr_expire x < INFINITE_VAL \<and> unat (dr_expire x) + past = life)"
  shows "\<exists>st' t. db_run c ops (st, now) = Inr (st', t) \<and> same_db st st' \<and> now \<le> t \<and>
    (recid_db st' p = None \<or>
     (\<exists>y. recid_db st' p = Some y \<and> dr_rec y = r \<and> dr_expire y < INFINITE_VAL \<and> unat (dr_expire y) + (past + (t - now)) = life))"
  using assms
proof (induction ops arbitrary: st now past)
  case (Cons op ops)
  have "db_op_ok op" "p \<notin> set (db_op_stores op)" using Cons.prems(3) by simp_all
  then obtain st1 d where st1: "db_exec c op (st, now) = Inr (st1, now + unat d)" "db_inv st1" "same_db st st1"
    and age: "rec_ages (recid_db st p) (recid_db st1 p) d"
    using db_exec_ok[OF Cons.prems(1,2), of op c now] by blast
  have "recid_db st1 p = None \<or>
      (\<exists>y. recid_db st1 p = Some y \<and> dr_rec y = r \<and> dr_expire y < INFINITE_VAL \<and> unat (dr_expire y) + (past + unat d) = life)"
  proof (cases "recid_db st1 p")
    case (Some y)
    then obtain x where x: "recid_db st p = Some x" "dr_rec y = dr_rec x" "dr_expire y = delay_left d (dr_expire x)"
      "timer_allows d (dr_expire x)" using age by (auto simp: rec_ages_def)
    then have "dr_rec x = r" "dr_expire x < INFINITE_VAL" "unat (dr_expire x) + past = life" using Cons.prems(4) by auto
    moreover have "d \<le> dr_expire x" "dr_expire y = dr_expire x - d"
      using x(3,4) calculation(2) by (auto simp: delay_left_def timer_allows_def delay_is_infinite_def)
    moreover have "unat (dr_expire y) + unat d = unat (dr_expire x)"
      using calculation(4,5) by (simp add: unat_sub word_le_nat_alt)
    moreover have "dr_expire y \<le> dr_expire x" using calculation(6) by (simp add: word_le_nat_alt)
    ultimately show ?thesis using Some x(2) by auto
  qed simp
  then have "\<exists>st' t. db_run c ops (st1, now + unat d) = Inr (st', t) \<and> same_db st1 st' \<and> now + unat d \<le> t \<and>
    (recid_db st' p = None \<or>
     (\<exists>y. recid_db st' p = Some y \<and> dr_rec y = r \<and> dr_expire y < INFINITE_VAL \<and>
        unat (dr_expire y) + (past + unat d + (t - (now + unat d))) = life))"
    using Cons.prems st1(2,3) by (intro Cons.IH) (simp_all add: same_db_def)
  then obtain st' t where "db_run c ops (st1, now + unat d) = Inr (st', t)" "same_db st1 st'" "now + unat d \<le> t"
    "recid_db st' p = None \<or>
     (\<exists>y. recid_db st' p = Some y \<and> dr_rec y = r \<and> dr_expire y < INFINITE_VAL \<and>
        unat (dr_expire y) + (past + unat d + (t - (now + unat d))) = life)" by blast
  then show ?case
    using st1(1) same_db_trans[OF st1(3)] by (intro exI[of _ st'] exI[of _ t]) auto
qed auto

subsection \<open>Lookup\<close>

lemma rec_of_recval_ctor: "rec_of_recval (kr_keyid r) (recval_ctor r) = r"
  by (simp add: rec_of_recval_def recval_ctor_def)

lemma db_get_kad_rec_ids [simp]:
  "kr_recid (db_get_kad_rec x st) = kr_recid (dr_rec x)" "kr_keyid (db_get_kad_rec x st) = kr_keyid (dr_rec x)"
  by (simp_all add: db_get_kad_rec_def)

definition rec_selected :: "bytes \<Rightarrow> bytes \<Rightarrow> bool" where
  "rec_selected recid_gt p \<longleftrightarrow> gen_id_is_null recid_gt \<or> gen_id_val recid_gt < gen_id_val p"

lemma find_loop_ok:
  assumes "db_index st" "length key = kad_id_len" "length recid_gt = kad_id_len"
    "set es \<subseteq> set (distid_db st)" "distinct (map snd es)"
    "sorted (map (\<lambda>e. gen_id_val (fst e)) es)" "\<forall>e\<in>set es. gen_id_val (get_distid key st) \<le> gen_id_val (fst e)"
    "recdups_inv d" "d = kad_recdups_ctor \<or> rd_keyid d = key" "rv_recid ` set (recval_db d) \<inter> snd ` set es = {}"
  shows "\<exists>d'. find_loop (get_distid key st) recid_gt st es d = Inr d' \<and> recdups_inv d' \<and>
    (d' = kad_recdups_ctor \<or> rd_keyid d' = key) \<and>
    set (recval_db d') = set (recval_db d) \<union>
      {recval_ctor (db_get_kad_rec x st) |p x. (get_distid key st, p) \<in> set es \<and> recid_db st p = Some x \<and> rec_selected recid_gt p}"
  using assms(4-)
proof (induction es arbitrary: d)
  case (Cons e es)
  let ?k = "get_distid key st"
  have len: "length (fst e) = length ?k" using db_fst_len[OF assms(1)] Cons.prems(1) length_get_distid[OF assms(1,2)] by auto
  show ?case
  proof (cases "fst e = ?k")
    case False
    then have "gen_id_val ?k < gen_id_val (fst e)"
      using gen_id_val_inject[of "fst e" ?k] len Cons.prems(4) by force
    then have "\<forall>e'\<in>set (e # es). fst e' \<noteq> ?k" using Cons.prems(3) by auto
    then have none: "{recval_ctor (db_get_kad_rec x st) |p x. (?k, p) \<in> set (e # es) \<and> recid_db st p = Some x \<and> rec_selected recid_gt p} = {}"
      by force
    show ?thesis unfolding none using False len Cons.prems(5,6) by (simp add: gen_id_compare_eq_0)
  next
    case True
    obtain x where x: "recid_db st (snd e) = Some x" "fst e = get_distid (kr_keyid (dr_rec x)) st"
      using db_indexD(4)[OF assms(1), of "fst e" "snd e"] Cons.prems(1) by auto
    note ids = db_indexD(5,6,7)[OF assms(1) x(1)]
    have key: "kr_keyid (dr_rec x) = key" using get_distid_inject[OF assms(1) ids(3) assms(2)] x(2) True by simp
    let ?r = "db_get_kad_rec x st" let ?v = "recval_ctor ?r"
    have v: "rv_recid ?v = snd e" using ids(1) by (simp add: recval_ctor_def)
    have sel: "(\<not> gen_id_is_null recid_gt \<and> gen_id_compare (kr_recid (dr_rec x)) recid_gt \<le> 0) \<longleftrightarrow> \<not> rec_selected recid_gt (snd e)"
      using ids(1,2) assms(3) gen_id_compare_val[of "snd e" recid_gt] by (auto simp: rec_selected_def)
    have set_eq: "{recval_ctor (db_get_kad_rec y st) |p y. (?k, p) \<in> set (e # es) \<and> recid_db st p = Some y \<and> rec_selected recid_gt p} =
        (if rec_selected recid_gt (snd e) then {?v} else {}) \<union>
        {recval_ctor (db_get_kad_rec y st) |p y. (?k, p) \<in> set es \<and> recid_db st p = Some y \<and> rec_selected recid_gt p}"
      using x(1) True by (cases e) auto
    show ?thesis
    proof (cases "rec_selected recid_gt (snd e)")
      case False
      have "find_loop ?k recid_gt st (e # es) d = find_loop ?k recid_gt st es d"
        using True False len x(1) sel by (simp add: gen_id_compare_eq_0 db_rec_at_def)
      moreover have "rv_recid ` set (recval_db d) \<inter> snd ` set es = {}" using Cons.prems(7) by auto
      ultimately show ?thesis using Cons.IH[of d] Cons.prems False unfolding set_eq by simp
    next
      case sel_e: True
      let ?d = "\<lparr>rd_keyid = key, recval_db = recval_db d @ [?v]\<rparr>"
      have notin: "rv_recid ?v \<notin> rv_recid ` set (recval_db d)" using v Cons.prems(7) by auto
      have "recdups_update ?r d = Inr ?d"
        using recdups_update_append[OF Cons.prems(5), of ?v key] ids(2) v assms(2) notin Cons.prems(6)
          rec_of_recval_ctor[of ?r] key by simp
      then have "find_loop ?k recid_gt st (e # es) d = find_loop ?k recid_gt st es ?d"
        using True sel_e len x(1) sel by (auto simp: gen_id_compare_eq_0 db_rec_at_def)
      moreover have "recdups_inv ?d" using Cons.prems(5) notin v ids(2) assms(2) by (auto simp: recdups_inv_def)
      moreover have "rv_recid ` set (recval_db ?d) \<inter> snd ` set es = {}" using Cons.prems(2,7) v by auto
      ultimately show ?thesis using Cons.IH[of ?d] Cons.prems sel_e unfolding set_eq by simp
    qed
  qed
qed simp

lemma find_by_keyid_ok:
  assumes "db_index st" "length key = kad_id_len" "length recid_gt = kad_id_len"
  shows "\<exists>d. find_by_keyid key recid_gt st = Inr d \<and> recdups_inv d \<and> (recval_db d \<noteq> [] \<longrightarrow> rd_keyid d = key) \<and>
    set (recval_db d) = {recval_ctor (db_get_kad_rec x st) |p x.
      recid_db st p = Some x \<and> kr_keyid (dr_rec x) = key \<and> rec_selected recid_gt p}"
proof -
  let ?k = "get_distid key st" let ?es = "drop (mm_lower_bound ?k (distid_db st)) (distid_db st)"
  have len: "\<forall>e\<in>set (distid_db st). length (fst e) = length ?k"
    using db_fst_len[OF assms(1)] length_get_distid[OF assms(1,2)] by simp
  have es: "?es = filter (\<lambda>e. gen_id_val ?k \<le> gen_id_val (fst e)) (distid_db st)"
    using mm_lower_bound_drop[OF len db_indexD(2)[OF assms(1)]] by blast
  have 1: "set ?es \<subseteq> set (distid_db st)" by (rule set_drop_subset)
  have 2: "distinct (map snd ?es)" using db_indexD(3)[OF assms(1)] by (simp flip: drop_map)
  have 3: "sorted (map (\<lambda>e. gen_id_val (fst e)) ?es)"
    using sorted_wrt_drop[OF db_indexD(2)[OF assms(1)], of "mm_lower_bound ?k (distid_db st)"] by (simp add: drop_map)
  have 4: "\<forall>e\<in>set ?es. gen_id_val ?k \<le> gen_id_val (fst e)" unfolding es by simp
  have mem: "(?k, p) \<in> set ?es \<and> recid_db st p = Some x \<longleftrightarrow> recid_db st p = Some x \<and> kr_keyid (dr_rec x) = key" for p x
  proof -
    have in_es: "(?k, p) \<in> set ?es \<longleftrightarrow> (\<exists>y. recid_db st p = Some y \<and> ?k = get_distid (kr_keyid (dr_rec y)) st)"
      unfolding es using db_indexD(4)[OF assms(1), of ?k p] by simp
    show ?thesis
      unfolding in_es using get_distid_inject[OF assms(1) db_indexD(7)[OF assms(1), of p x] assms(2)] by auto
  qed
  obtain d where d: "find_loop ?k recid_gt st ?es kad_recdups_ctor = Inr d" "recdups_inv d" "d = kad_recdups_ctor \<or> rd_keyid d = key"
    and vals: "set (recval_db d) = set (recval_db kad_recdups_ctor) \<union>
      {recval_ctor (db_get_kad_rec x st) |p x. (?k, p) \<in> set ?es \<and> recid_db st p = Some x \<and> rec_selected recid_gt p}"
    using find_loop_ok[OF assms 1 2 3 4 recdups_inv_ctor] by (auto simp: kad_recdups_ctor_def)
  have "set (recval_db d) = {recval_ctor (db_get_kad_rec x st) |p x.
      recid_db st p = Some x \<and> kr_keyid (dr_rec x) = key \<and> rec_selected recid_gt p}"
    unfolding vals using mem by (auto simp: kad_recdups_ctor_def)
  then show ?thesis using d by (auto simp: find_by_keyid_def kad_recdups_ctor_def)
qed

lemma get_next_keyid_ok:
  assumes "db_index st" "length key = kad_id_len"
  shows "\<exists>k. get_next_keyid key st = Inr k \<and>
    (if \<exists>p x. recid_db st p = Some x \<and> kad_dist key (db_local_peerid st) < kad_dist (kr_keyid (dr_rec x)) (db_local_peerid st)
     then (\<exists>p x. recid_db st p = Some x \<and> kr_keyid (dr_rec x) = k) \<and> kad_dist key (db_local_peerid st) < kad_dist k (db_local_peerid st)
     else k = gen_id_ctor kad_id_len)"
proof -
  let ?k = "get_distid key st" let ?es = "distid_db st" let ?i = "mm_upper_bound ?k ?es"
  have len: "\<forall>e\<in>set ?es. length (fst e) = length ?k"
    using db_fst_len[OF assms(1)] length_get_distid[OF assms] by simp
  have up: "drop ?i ?es = filter (\<lambda>e. gen_id_val ?k < gen_id_val (fst e)) ?es" "?i \<le> length ?es"
    using mm_upper_bound_drop[OF len db_indexD(2)[OF assms(1)]] by blast+
  have dist: "kad_dist a (db_local_peerid st) = gen_id_val (get_distid a st)" if "length a = kad_id_len" for a
    using that db_indexD(1)[OF assms(1)] by (simp add: kad_dist_xor get_distid_def gen_id_val_xor xor.commute)
  show ?thesis
  proof (cases "?i = length ?es")
    case True
    then have "drop ?i ?es = []" by simp
    then have "filter (\<lambda>e. gen_id_val ?k < gen_id_val (fst e)) ?es = []" unfolding up(1) .
    then have none: "\<not> gen_id_val ?k < gen_id_val (fst e)" if "e \<in> set ?es" for e
      using that by (simp add: filter_empty_conv)
    have "\<not> kad_dist key (db_local_peerid st) < kad_dist (kr_keyid (dr_rec x)) (db_local_peerid st)" if "recid_db st p = Some x" for p x
    proof -
      have "(get_distid (kr_keyid (dr_rec x)) st, p) \<in> set ?es" using db_indexD(4)[OF assms(1)] that by blast
      then show ?thesis using none[of "(get_distid (kr_keyid (dr_rec x)) st, p)"] dist assms(2) db_indexD(7)[OF assms(1) that] by simp
    qed
    then show ?thesis using True by (auto simp: get_next_keyid_def Let_def)
  next
    case False
    then have i: "?i < length ?es" using up(2) by simp
    then have e: "?es ! ?i \<in> set (drop ?i ?es)" using nth_mem[of 0 "drop ?i ?es"] by simp
    then have gt: "gen_id_val ?k < gen_id_val (fst (?es ! ?i))" unfolding up(1) by simp
    obtain x where x: "recid_db st (snd (?es ! ?i)) = Some x" "fst (?es ! ?i) = get_distid (kr_keyid (dr_rec x)) st"
      using db_indexD(4)[OF assms(1), of "fst (?es ! ?i)" "snd (?es ! ?i)"] i by auto
    have "get_next_keyid key st = Inr (kr_keyid (dr_rec x))" using False x(1) by (simp add: get_next_keyid_def Let_def db_rec_at_def)
    moreover have "kad_dist key (db_local_peerid st) < kad_dist (kr_keyid (dr_rec x)) (db_local_peerid st)"
      using gt x dist assms(2) db_indexD(7)[OF assms(1) x(1)] by simp
    ultimately show ?thesis using x(1) by auto
  qed
qed

subsection \<open>Replication to a new node\<close>

definition one_rec :: "kad_rec_t \<Rightarrow> kad_recdups_t" where
  "one_rec r = \<lparr>rd_keyid = kr_keyid r, recval_db = [recval_ctor r]\<rparr>"

lemma replicate_in_ok:
  assumes "rec_ids_ok r" "kad_addr_is_fully_qualified addr = Inr True"
  shows "replicate_in r addr = Inr (one_rec r)"
  using recdups_update_append[OF recdups_inv_ctor, of "recval_ctor r" "kr_keyid r"] assms rec_of_recval_ctor[of r]
  by (simp add: replicate_in_def one_rec_def kad_recdups_ctor_def recval_ctor_def)

lemma replicate_loop_ok:
  assumes "db_index st" "set es \<subseteq> set (distid_db st)" "kad_addr_is_fully_qualified addr = Inr True"
  shows "replicate_loop addr st es = Inr (map (\<lambda>e. one_rec (db_get_kad_rec (the (recid_db st (snd e))) st)) es)"
  using assms(2)
proof (induction es)
  case (Cons e es)
  obtain x where x: "recid_db st (snd e) = Some x"
    using db_indexD(4)[OF assms(1), of "fst e" "snd e"] Cons.prems by auto
  have "rec_ids_ok (db_get_kad_rec x st)" using db_indexD(5-7)[OF assms(1) x] by simp
  then show ?case using Cons x replicate_in_ok[OF _ assms(3)] by (simp add: db_rec_at_def)
qed simp

text \<open>A record that is closer to the new node is at least half as far as the new node.\<close>

lemma closer_half_dist:
  assumes "length l = kad_id_len" "length n = kad_id_len" "length k = kad_id_len" "kad_dist k n < kad_dist k l"
  shows "kad_dist l n div 2 \<le> kad_dist k l"
proof (rule ccontr)
  let ?n = "gen_id_val l XOR gen_id_val n" let ?d = "gen_id_val k XOR gen_id_val l"
  assume "\<not> kad_dist l n div 2 \<le> kad_dist k l"
  then have less: "?d < ?n div 2" using assms by (simp add: kad_dist_xor)
  have nd: "?n XOR ?d = gen_id_val k XOR gen_id_val n" by (rule bit_eqI) (auto simp: bit_xor_iff)
  let ?h = "bit_get_highest_set (gen_id_xor l n)"
  have "gen_id_val (gen_id_xor l n) = ?n" "?n \<noteq> 0" using assms less by (auto simp: gen_id_val_xor)
  then have h: "2 ^ ?h \<le> ?n" "?n < 2 ^ Suc ?h" using bit_get_highest_set_val[of "gen_id_xor l n"] by simp_all
  then have d: "?d < 2 ^ ?h" using less by simp
  then have "2 ^ ?h \<le> ?n XOR ?d" using nat_xor_bounds[OF h] by blast
  then show False using assms d nd by (simp add: kad_dist_xor)
qed

lemma notify_new_node_ok:
  assumes idx: "db_index st" and addr: "kad_addr_is_fully_qualified addr = Inr True" "length (m_peerid addr) = kad_id_len"
  shows "\<exists>ds. db_notify_new_node addr st = Inr ds \<and>
    set ds = {one_rec (db_get_kad_rec x st) |p x. recid_db st p = Some x \<and>
      kad_dist (db_local_peerid st) (m_peerid addr) div 2 \<le> kad_dist (kr_keyid (dr_rec x)) (db_local_peerid st)}"
proof -
  let ?mid = "gen_id_shift_right (gen_id_xor (db_local_peerid st) (m_peerid addr)) 1"
  let ?es = "drop (mm_lower_bound ?mid (distid_db st)) (distid_db st)"
  let ?f = "\<lambda>e. one_rec (db_get_kad_rec (the (recid_db st (snd e))) st)"
  have "length ?mid = kad_id_len" using addr(2) db_indexD(1)[OF idx] by (simp add: gen_id_shift_right_def Let_def)
  then have len: "\<forall>e\<in>set (distid_db st). length (fst e) = length ?mid" using db_fst_len[OF idx] by simp
  have es: "?es = filter (\<lambda>e. gen_id_val ?mid \<le> gen_id_val (fst e)) (distid_db st)"
    using mm_lower_bound_drop[OF len db_indexD(2)[OF idx]] by blast
  have mid: "gen_id_val ?mid = kad_dist (db_local_peerid st) (m_peerid addr) div 2"
    by (simp add: gen_id_shift_right_val kad_dist_def)
  have dist: "kad_dist (kr_keyid (dr_rec x)) (db_local_peerid st) = gen_id_val (get_distid (kr_keyid (dr_rec x)) st)"
    if "recid_db st p = Some x" for p x
    using db_indexD(1)[OF idx] db_indexD(7)[OF idx that] by (simp add: kad_dist_xor get_distid_def gen_id_val_xor xor.commute)
  have run: "db_notify_new_node addr st = Inr (map ?f ?es)"
    using replicate_loop_ok[OF idx set_drop_subset addr(1)] by (simp add: db_notify_new_node_def Let_def)
  have "?f ` set ?es = {one_rec (db_get_kad_rec x st) |p x. recid_db st p = Some x \<and>
      kad_dist (db_local_peerid st) (m_peerid addr) div 2 \<le> kad_dist (kr_keyid (dr_rec x)) (db_local_peerid st)}" (is "?L = ?R")
  proof (intro set_eqI iffI)
    fix d
    assume "d \<in> ?L"
    then obtain e where e: "e \<in> set (distid_db st)" "gen_id_val ?mid \<le> gen_id_val (fst e)" "d = ?f e" unfolding es by auto
    then obtain x where x: "recid_db st (snd e) = Some x" "fst e = get_distid (kr_keyid (dr_rec x)) st"
      using db_indexD(4)[OF idx, of "fst e" "snd e"] by auto
    then have "kad_dist (db_local_peerid st) (m_peerid addr) div 2 \<le> kad_dist (kr_keyid (dr_rec x)) (db_local_peerid st)"
      using e(2) mid dist[OF x(1)] by simp
    moreover have "d = one_rec (db_get_kad_rec x st)" using e(3) x(1) by simp
    ultimately show "d \<in> ?R" using x(1) by blast
  next
    fix d
    assume "d \<in> ?R"
    then obtain p x where x: "recid_db st p = Some x" "d = one_rec (db_get_kad_rec x st)"
      "kad_dist (db_local_peerid st) (m_peerid addr) div 2 \<le> kad_dist (kr_keyid (dr_rec x)) (db_local_peerid st)" by blast
    then have "(get_distid (kr_keyid (dr_rec x)) st, p) \<in> set (distid_db st)" using db_indexD(4)[OF idx] by blast
    then have "(get_distid (kr_keyid (dr_rec x)) st, p) \<in> set ?es" unfolding es using x(3) mid dist[OF x(1)] by simp
    then show "d \<in> ?L" using x(1,2) by (intro image_eqI[of _ _ "(get_distid (kr_keyid (dr_rec x)) st, p)"]) simp_all
  qed
  then show ?thesis using run by simp
qed

subsection \<open>Properties\<close>

text \<open>C11. Whatever records are stored, removed, published again or expire, in any order and with any time in between, no
  assertion of the database fails; both indices hold the same records, the size is the sum of their lengths and the limits
  of the profile on the database and on each record are kept.\<close>
theorem db_invariant:
  assumes "length peerid = kad_id_len" "\<not> keyid_nodups_ok prof" "list_all db_op_ok ops"
  shows "\<exists>st now. db_run c ops (kad_db_ctor prof remote peerid, 0) = Inr (st, now) \<and>
    distinct (map snd (distid_db st)) \<and>
    (\<forall>k p. (k, p) \<in> set (distid_db st) \<longleftrightarrow> (\<exists>x. recid_db st p = Some x \<and> k = gen_id_xor peerid (kr_keyid (dr_rec x)))) \<and>
    db_size st = (\<Sum>p\<leftarrow>map snd (distid_db st). rec_len (dr_rec (the (recid_db st p)))) \<and>
    (db_max_len prof \<noteq> 0 \<longrightarrow> db_size st \<le> db_max_len prof) \<and>
    (\<forall>p x. recid_db st p = Some x \<longrightarrow> kr_recid (dr_rec x) = p \<and> kr_ttl (dr_rec x) \<le> rec_max_ttl prof \<and>
       (rec_max_len prof \<noteq> 0 \<longrightarrow> rec_len (dr_rec x) \<le> rec_max_len prof))"
proof -
  obtain st now where run: "db_run c ops (kad_db_ctor prof remote peerid, 0) = Inr (st, now)" and inv: "db_inv st"
    and same: "same_db (kad_db_ctor prof remote peerid) st"
    using db_run_ok[OF db_inv_ctor[OF assms(1)], of prof remote ops c 0] assms(2,3) by (auto simp: kad_db_ctor_def)
  have p: "db_profile st = prof" "db_local_peerid st = peerid" using same by (simp_all add: same_db_def kad_db_ctor_def)
  have lim: "db_limits st" and idx: "db_index st" and tot: "db_size st = db_total st" using inv by (simp_all add: db_inv_def)
  show ?thesis
    using run db_indexD(3,4,5)[OF idx] lim tot p
    by (intro exI[of _ st] exI[of _ now]) (simp add: db_limits_def db_total_def get_distid_def)
qed

theorem db_invariant_witness:
  "\<exists>st now. db_run (\<lambda>r. 5000)
      [Op_store (db_ex_rec 9 7000), Op_elapse 5000,
       Op_republish (replicate 20 9), Op_elapse 2000, Op_expire (replicate 20 9)]
      (kad_db_ctor build_remote_db True (replicate 20 1), 0) = Inr (st, now) \<and>
    db_size st = (\<Sum>p\<leftarrow>map snd (distid_db st). rec_len (dr_rec (the (recid_db st p))))"
  using db_invariant[of "replicate 20 1" build_remote_db
      "[Op_store (db_ex_rec 9 7000), Op_elapse 5000,
       Op_republish (replicate 20 9), Op_elapse 2000, Op_expire (replicate 20 9)]" "\<lambda>r. 5000" True]
  by (auto simp: kad_id_len_def build_remote_db_def db_ex_rec_def)

text \<open>C20. After any history a lookup returns exactly the records of the key, those whose identifier is above
  \<open>recid_gt\<close> unless it is null, each with the time to live that is left, and \<open>get_next_keyid\<close> finds a key that has
  records and is farther away whenever there is one.\<close>
theorem db_find_exact:
  assumes "length peerid = kad_id_len" "\<not> keyid_nodups_ok prof" "list_all db_op_ok ops"
    "db_run c ops (kad_db_ctor prof remote peerid, 0) = Inr (st, now)"
    "length key = kad_id_len" "length recid_gt = kad_id_len"
  shows "\<exists>d k. find_by_keyid key recid_gt st = Inr d \<and> recdups_inv d \<and> (recval_db d \<noteq> [] \<longrightarrow> rd_keyid d = key) \<and>
    set (recval_db d) = {recval_ctor (db_get_kad_rec x st) |p x. recid_db st p = Some x \<and> kr_keyid (dr_rec x) = key \<and>
       (gen_id_is_null recid_gt \<or> gen_id_val recid_gt < gen_id_val p)} \<and>
    get_next_keyid key st = Inr k \<and>
    (if \<exists>p x. recid_db st p = Some x \<and> kad_dist key peerid < kad_dist (kr_keyid (dr_rec x)) peerid
     then (\<exists>p x. recid_db st p = Some x \<and> kr_keyid (dr_rec x) = k) \<and> kad_dist key peerid < kad_dist k peerid
     else k = gen_id_ctor kad_id_len)"
proof -
  have inv: "db_inv st" and same: "same_db (kad_db_ctor prof remote peerid) st"
    using db_run_ok[OF db_inv_ctor[OF assms(1)], of prof remote ops c 0] assms(2,3,4) by (auto simp: kad_db_ctor_def)
  have p: "db_local_peerid st = peerid" using same by (simp add: same_db_def kad_db_ctor_def)
  have idx: "db_index st" using inv by (simp add: db_inv_def)
  show ?thesis
    using find_by_keyid_ok[OF idx assms(5,6)] get_next_keyid_ok[OF idx assms(5)] unfolding rec_selected_def p by blast
qed

theorem db_find_exact_witness:
  "\<exists>d. find_by_keyid (replicate 20 3) (replicate 20 0) (kad_db_ctor build_remote_db True (replicate 20 1)) = Inr d \<and> recdups_inv d"
  using db_find_exact[of "replicate 20 1" build_remote_db "[]" "\<lambda>r. 5000" True
      "kad_db_ctor build_remote_db True (replicate 20 1)" 0 "replicate 20 3" "replicate 20 0"]
  by (auto simp: kad_id_len_def build_remote_db_def)

text \<open>C21. A record that another peer stores is there until it is removed or its time to live has passed, unless it is
  stored again: while it is there, the time that is left and the time that has passed add up to the time to live it came
  with, and the lookups report the time that is left.\<close>
theorem stored_record_lifetime:
  assumes "length peerid = kad_id_len" "\<not> keyid_nodups_ok prof" "rec_max_ttl prof < INFINITE_VAL"
    "list_all db_op_ok before" "db_run c before (kad_db_ctor prof True peerid, 0) = Inr (st, t0)"
    "rec_ids_ok r" "may_accept r st" "recid_db st (kr_recid r) = None"
    "list_all (\<lambda>op. db_op_ok op \<and> kr_recid r \<notin> set (db_op_stores op)) after"
  shows "\<exists>st' t1. db_run c (Op_store r # after) (st, t0) = Inr (st', t1) \<and> t0 \<le> t1 \<and>
    (recid_db st' (kr_recid r) = None \<or>
     (\<exists>y. recid_db st' (kr_recid r) = Some y \<and> unat (dr_expire y) + (t1 - t0) = unat (kr_ttl r) \<and>
        db_get_kad_rec y st' = r\<lparr>kr_ttl := dr_expire y\<rparr>))"
proof -
  have inv: "db_inv st" and same: "same_db (kad_db_ctor prof True peerid) st"
    using db_run_ok[OF db_inv_ctor[OF assms(1)], of prof True before c 0] assms(2,4,5) by (auto simp: kad_db_ctor_def)
  have prof: "db_profile st = prof" "is_remote_db st" using same by (simp_all add: same_db_def kad_db_ctor_def)
  obtain st1 where st1: "db_update c r st = Inr st1" "db_inv st1" "same_db st st1" "recid_db st1 (kr_recid r) = Some (db_entry c r st)"
    using db_update_ok[OF inv assms(6,7), of c] assms(8) by auto
  have "kr_ttl r < INFINITE_VAL"
    using may_acceptD(1)[OF assms(7) _ assms(6)] inv prof(1) assms(3) by (simp add: db_inv_def)
  then have "\<exists>st' t. db_run c after (st1, t0) = Inr (st', t) \<and> same_db st1 st' \<and> t0 \<le> t \<and>
    (recid_db st' (kr_recid r) = None \<or>
     (\<exists>y. recid_db st' (kr_recid r) = Some y \<and> dr_rec y = r \<and> dr_expire y < INFINITE_VAL \<and>
       unat (dr_expire y) + (0 + (t - t0)) = unat (kr_ttl r)))"
    using st1 assms(2,9) prof by (intro db_run_ages) (auto simp: same_db_def db_entry_def cpu_expire_delay_def)
  then obtain st' t where run: "db_run c after (st1, t0) = Inr (st', t)" "same_db st1 st'" "t0 \<le> t"
    "recid_db st' (kr_recid r) = None \<or>
     (\<exists>y. recid_db st' (kr_recid r) = Some y \<and> dr_rec y = r \<and> unat (dr_expire y) + (t - t0) = unat (kr_ttl r))" by auto
  have "is_remote_db st'" using prof(2) st1(3) run(2) by (simp add: same_db_def)
  then show ?thesis
    using run st1(1) assms(7) by (intro exI[of _ st'] exI[of _ t]) (auto simp: db_get_kad_rec_def)
qed

theorem stored_record_lifetime_witness:
  "\<exists>st' t1. db_run (\<lambda>r. 5000) (Op_store (db_ex_rec 9 7000) # [Op_elapse 5000])
      (kad_db_ctor build_remote_db True (replicate 20 1), 0) = Inr (st', t1) \<and>
    (recid_db st' (replicate 20 9) = None \<or>
     (\<exists>y. recid_db st' (replicate 20 9) = Some y \<and> unat (dr_expire y) + (t1 - 0) = unat (7000 :: delay_t)))"
  using stored_record_lifetime[of "replicate 20 1" build_remote_db "[]" "\<lambda>r. 5000"
      "kad_db_ctor build_remote_db True (replicate 20 1)" 0
      "db_ex_rec 9 7000" "[Op_elapse 5000]"]
  by (fastforce simp: kad_id_len_def build_remote_db_def kad_db_ctor_def from_sec_def from_msec_def INFINITE_VAL_def
      may_accept_def Let_def delay_compare_def db_ex_rec_def)

text \<open>C22. When a new node is observed, the records at half the distance of the new node or farther are sent to it, each with
  the time to live that is left.  All records that are closer to the new node than to the local peer are among
  them.\<close>
theorem new_node_gets_closer_records:
  assumes "length peerid = kad_id_len" "\<not> keyid_nodups_ok prof" "list_all db_op_ok ops"
    "db_run c ops (kad_db_ctor prof remote peerid, 0) = Inr (st, now)"
    "kad_addr_is_fully_qualified addr = Inr True" "length (m_peerid addr) = kad_id_len"
  shows "\<exists>ds. db_notify_new_node addr st = Inr ds \<and>
    set ds = {one_rec (db_get_kad_rec x st) |p x. recid_db st p = Some x \<and>
      kad_dist peerid (m_peerid addr) div 2 \<le> kad_dist (kr_keyid (dr_rec x)) peerid} \<and>
    (\<forall>p x. recid_db st p = Some x \<longrightarrow>
      kad_dist (kr_keyid (dr_rec x)) (m_peerid addr) < kad_dist (kr_keyid (dr_rec x)) peerid \<longrightarrow>
      one_rec (db_get_kad_rec x st) \<in> set ds)"
proof -
  have inv: "db_inv st" and same: "same_db (kad_db_ctor prof remote peerid) st"
    using db_run_ok[OF db_inv_ctor[OF assms(1)], of prof remote ops c 0] assms(2,3,4) by (auto simp: kad_db_ctor_def)
  have p: "db_local_peerid st = peerid" using same by (simp add: same_db_def kad_db_ctor_def)
  have idx: "db_index st" using inv by (simp add: db_inv_def)
  obtain ds where ds: "db_notify_new_node addr st = Inr ds"
    "set ds = {one_rec (db_get_kad_rec x st) |p x. recid_db st p = Some x \<and>
      kad_dist peerid (m_peerid addr) div 2 \<le> kad_dist (kr_keyid (dr_rec x)) peerid}"
    using notify_new_node_ok[OF idx assms(5,6)] unfolding p by blast
  have "one_rec (db_get_kad_rec x st) \<in> set ds"
    if "recid_db st q = Some x" "kad_dist (kr_keyid (dr_rec x)) (m_peerid addr) < kad_dist (kr_keyid (dr_rec x)) peerid" for q x
    unfolding ds(2) using closer_half_dist[OF assms(1,6) db_indexD(7)[OF idx that(1)] that(2)] that(1) by blast
  then show ?thesis using ds by blast
qed

theorem new_node_gets_closer_records_witness:
  "\<exists>st now ds. db_run (\<lambda>r. 5000) [Op_store (db_ex_rec 9 7000)] (kad_db_ctor build_remote_db True (replicate 20 1), 0) = Inr (st, now) \<and>
    db_notify_new_node db_ex_addr st = Inr ds"
proof -
  have ok: "length (replicate 20 (1 :: byte)) = kad_id_len" "\<not> keyid_nodups_ok build_remote_db" "list_all db_op_ok [Op_store (db_ex_rec 9 7000)]"
    "kad_addr_is_fully_qualified db_ex_addr = Inr True" "length (m_peerid db_ex_addr) = kad_id_len"
    by code_simp+
  obtain st now where st: "db_run (\<lambda>r. 5000) [Op_store (db_ex_rec 9 7000)] (kad_db_ctor build_remote_db True (replicate 20 1), 0) = Inr (st, now)"
    using db_run_ok[OF db_inv_ctor[OF ok(1), of build_remote_db True] _ ok(3), of "\<lambda>r. 5000" 0] ok(2)
    by (auto simp: kad_db_ctor_def)
  from new_node_gets_closer_records[OF ok(1-3) st ok(4,5)] st show ?thesis by blast
qed

text \<open>C40. With a profile that accepts one record for each key, a set of two new records of a key passes
  \<open>may_accept\<close> and then stops the process in \<open>update\<close>: the first record makes the second one unacceptable.\<close>
theorem update_dups_can_assert:
  assumes "db_inv st" "keyid_nodups_ok (db_profile st)" "recdups_inv d" "recval_db d = v # w # vs"
    "recid_db st (rv_recid v) = None" "may_accept_dups d st"
  shows "db_update_dups c d st = Inl Assert_failed"
proof -
  let ?r = "rec_of_recval (rd_keyid d) v" let ?s = "rec_of_recval (rd_keyid d) w"
  have ids: "rec_ids_ok ?r" "length (rd_keyid d) = kad_id_len" using assms(3,4) by (simp_all add: recdups_inv_def rec_of_recval_def)
  have acc: "may_accept ?r st" using assms(4,6) by (simp add: may_accept_dups_def Let_def split: if_splits)
  obtain st1 where st1: "db_update c ?r st = Inr st1" "db_inv st1" "same_db st st1" "recid_db st1 (rv_recid v) = Some (db_entry c ?r st)"
    using db_update_ok[OF assms(1) ids(1) acc, of c] assms(5) by (auto simp: rec_of_recval_def)
  have idx: "db_index st1" using st1(2) by (simp add: db_inv_def)
  have "(get_distid (rd_keyid d) st1, rv_recid v) \<in> set (distid_db st1)"
    using db_indexD(4)[OF idx] st1(4) by (auto simp: db_entry_def rec_of_recval_def)
  then have "contain_keyid (rd_keyid d) st1" unfolding contain_keyid_iff[OF idx ids(2)] by force
  then have "\<not> may_accept ?s st1"
    using st1(3) assms(2) by (simp add: may_accept_def Let_def same_db_def rec_of_recval_def)
  then have "db_update c ?s st1 = Inl Assert_failed" by (simp add: db_update_def)
  then show ?thesis using st1(1) assms(4) by (simp add: db_update_dups_def)
qed

theorem update_dups_can_assert_witness:
  "may_accept_dups db_ex_dups (kad_db_ctor (build_remote_db\<lparr>keyid_nodups_ok := True\<rparr>) True (replicate 20 1)) \<and>
   db_update_dups (\<lambda>r. 5000) db_ex_dups (kad_db_ctor (build_remote_db\<lparr>keyid_nodups_ok := True\<rparr>) True (replicate 20 1)) =
     Inl Assert_failed"
proof -
  let ?st = "kad_db_ctor (build_remote_db\<lparr>keyid_nodups_ok := True\<rparr>) True (replicate 20 1)"
  have "length (replicate 20 (1 :: byte)) = kad_id_len" "may_accept_dups db_ex_dups ?st" "keyid_nodups_ok (db_profile ?st)"
    by code_simp+
  moreover have "recdups_inv db_ex_dups" by (simp add: recdups_inv_def db_ex_dups_def db_ex_rec_def recval_ctor_def kad_id_len_def)
  ultimately show ?thesis
    using update_dups_can_assert[OF db_inv_ctor, of "replicate 20 1" "build_remote_db\<lparr>keyid_nodups_ok := True\<rparr>" True db_ex_dups
        "recval_ctor (db_ex_rec 8 60)" "recval_ctor (db_ex_rec 9 60)" "[]" "\<lambda>r. 5000"]
    by (simp add: db_ex_dups_def) (simp add: kad_db_ctor_def)
qed

text \<open>A record goes out for republication with the time to live it was first stored with, so a peer that holds the
  same record, and whose copy has less time left, starts the time to live of the record again.\<close>
lemma republish_renews_ttl:
  assumes "db_inv st" "recid_db st p = Some x"
    "db_inv other" "is_remote_db other" "recid_db other p = Some y" "dr_rec y = dr_rec x"
    "dr_expire y < kr_ttl (dr_rec y)" "may_accept (dr_rec x) other"
  shows "\<exists>r st' other'. republish_timeout_cb c p st = Inr (r, st') \<and> db_update c' r other = Inr other' \<and>
    recid_db other' p = Some (db_entry c' r other) \<and> r = dr_rec x \<and> dr_expire (db_entry c' r other) = kr_ttl (dr_rec x)"
proof -
  have ids: "rec_ids_ok (dr_rec x)" "kr_recid (dr_rec x) = p"
    using db_indexD(5,6,7)[of st p x] assms(1,2) by (simp_all add: db_inv_def)
  then obtain other' where "db_update c' (dr_rec x) other = Inr other'" "recid_db other' p = Some (db_entry c' (dr_rec x) other)"
    using db_update_ok[OF assms(3) ids(1) assms(8), of c'] assms(4-7) by (auto simp: db_get_kad_rec_def)
  then show ?thesis
    using republish_ok[OF assms(1,2), of c] assms(4) by (auto simp: db_entry_def cpu_expire_delay_def)
qed

end
