(* ===== verification/KadRpcSafe.thy ===== *)
theory KadRpcSafe
  imports KadRpc KbucketRun KadDbRun
begin

text \<open>
  The server of the remote procedure calls on bytes that a peer did not choose: readers whose only errors are the exceptions that
  the parsers catch, the invariant of a peer, which addresses get into its routing table, and for every handler of
  \<open>KadRpc\<close> that it returns a reply and keeps the invariant.
\<close>

named_theorems safe_intros

subsection \<open>Readers of received bytes\<close>

text \<open>A reader is safe when its only error is the exception that the parsers catch.\<close>

definition net_safe :: "('a \<Rightarrow> bool) \<Rightarrow> 'a res \<Rightarrow> bool" where
  "net_safe P r = (case r of Inr v \<Rightarrow> P v | Inl (Except what) \<Rightarrow> True | Inl e \<Rightarrow> False)"

lemma net_safe_simps [simp]: "net_safe P (Inr v) = P v" "net_safe P (Inl (Except w))"
  by (simp_all add: net_safe_def)

lemma net_safe_bind [safe_intros]:
  assumes "net_safe P r" "\<And>v. P v \<Longrightarrow> net_safe Q (f v)"
  shows "net_safe Q (res_bind r f)"
proof (cases r)
  case (Inl e)
  then show ?thesis using assms(1) by (cases e) (simp_all add: net_safe_def)
next
  case (Inr v)
  then show ?thesis using assms by simp
qed

lemma net_safe_if [safe_intros]:
  "(b \<Longrightarrow> net_safe P r) \<Longrightarrow> (\<not> b \<Longrightarrow> net_safe P s) \<Longrightarrow> net_safe P (if b then r else s)"
  by simp

lemma net_safe_mono: "net_safe P r \<Longrightarrow> (\<And>v. P v \<Longrightarrow> Q v) \<Longrightarrow> net_safe Q r"
  by (auto simp: net_safe_def split: sum.splits neoip_error.splits)

lemma try_parse_safe:
  assumes "net_safe P r"
  obtains "try_parse r = Inr None" | v where "r = Inr v" "P v" "try_parse r = Inr (Some v)"
  using assms by (auto simp: net_safe_def try_parse_def split: sum.splits neoip_error.splits)

lemma safe_uint [safe_intros]:
  "net_safe (\<lambda>_. True) (get_uint8 bs)" "net_safe (\<lambda>_. True) (get_uint16 bs)" "net_safe (\<lambda>_. True) (get_uint32 bs)"
  "net_safe (\<lambda>_. True) (get_uint64 bs)"
  by (simp_all add: get_uint8_def get_uint16_def get_uint32_def get_uint64_def)

lemma safe_gen_id [safe_intros]: "net_safe (\<lambda>(a, rest). length a = n) (get_gen_id n bs)"
  by (simp add: get_gen_id_def)

lemma safe_ip_addr: "net_safe (\<lambda>_. True) (get_ip_addr bs)"
  unfolding get_ip_addr_def by (auto intro!: net_safe_if net_safe_bind safe_uint split: prod.split)

lemma safe_ipport: "net_safe (\<lambda>_. True) (get_ipport_addr bs)"
  unfolding get_ipport_addr_def
  by (rule net_safe_bind[OF safe_ip_addr]) (auto intro!: net_safe_bind safe_uint split: prod.split)

lemma safe_kad_addr: "net_safe (\<lambda>(a, rest). length (m_peerid a) = kad_id_len) (get_kad_addr bs)"
  unfolding get_kad_addr_def
  by (rule net_safe_bind[OF safe_ipport]) (auto intro!: net_safe_bind[OF safe_gen_id] split: prod.split)

lemma safe_datum: "net_safe (\<lambda>(d, rest). payload_ok d) (get_datum bs)"
  unfolding get_datum_def
proof (rule net_safe_bind[OF safe_uint(3)])
  fix v :: "32 word \<times> bytes"
  have "unat (fst v) < 2 ^ 32" using unsigned_less[of "fst v"] by simp
  then show "net_safe (\<lambda>(d, rest). payload_ok d) (case v of (len, rest) \<Rightarrow>
      if length rest < unat len then Inl (Except ''datum_t Payload Too Short'')
      else res_bind (datum_ctor (take (unat len) rest) FLAG_DFL) (\<lambda>d. Inr (d, drop (unat len) rest)))"
    by (cases v) (simp add: datum_ctor_def FLAG_DFL_def is_nocopy_def flag_fully_include_def NOCOPY_def datum_length_def)
qed

lemma safe_delay: "net_safe (\<lambda>_. True) (get_delay bs)"
  unfolding get_delay_def by (auto intro!: net_safe_bind safe_uint split: prod.split)

lemma safe_get_if:
  assumes "net_safe P (get pkt)" "P (dfl, pkt)"
  shows "net_safe P (get_if b get dfl pkt)"
  using assms by (simp add: get_if_def)

text \<open>The sets of records that come out of a packet are sane, with payloads that can be written again.\<close>

definition wire_dups :: "kad_recdups_t \<Rightarrow> bool" where
  "wire_dups d \<longleftrightarrow> recdups_inv d \<and> (\<forall>v\<in>set (recval_db d). payload_ok (rv_payload v))"

lemma recdups_update_wire:
  assumes "wire_dups d" "kad_rec_ok r" "gen_id_is_null (rd_keyid d) \<or> rd_keyid d = kr_keyid r"
  shows "\<exists>d'. recdups_update r d = Inr d' \<and> wire_dups d' \<and> (gen_id_is_null (rd_keyid d') \<or> rd_keyid d' = kr_keyid r)"
proof -
  obtain d' where d': "recdups_update r d = Inr d'" "recdups_inv d'"
    "recdups_map d' = (case recdups_map d (kr_recid r) of
       None \<Rightarrow> (recdups_map d)(kr_recid r \<mapsto> recval_ctor r)
     | Some v \<Rightarrow> if rv_ttl v < kr_ttl r then (recdups_map d)(kr_recid r \<mapsto> recval_ctor r) else recdups_map d)"
    "rd_keyid d' = kr_keyid r \<or> d' = d"
    using recdups_update_ok[of d r] assms by (auto simp: wire_dups_def kad_rec_ok_def)
  have "payload_ok (rv_payload v)" if "v \<in> set (recval_db d')" for v
  proof -
    have "recdups_map d' (rv_recid v) = Some v" using recdups_map_Some[OF d'(2)] that by simp
    then have "recdups_map d (rv_recid v) = Some v \<or> v = recval_ctor r"
      unfolding d'(3) by (auto split: option.splits if_splits)
    then show ?thesis
      using assms(1,2) recdups_map_Some[of d] by (auto simp: wire_dups_def recval_ctor_def kad_rec_ok_def)
  qed
  then show ?thesis using d' assms(3) by (auto simp: wire_dups_def)
qed

lemma safe_recvals:
  assumes "wire_dups d" "length key = kad_id_len" "gen_id_is_null (rd_keyid d) \<or> rd_keyid d = key"
  shows "net_safe (\<lambda>(d, rest). wire_dups d) (get_recvals n key d bs)"
  using assms(1,3)
proof (induction n arbitrary: d bs)
  case (Suc n)
  have step: "net_safe (\<lambda>(d, rest). wire_dups d)
      (res_bind (recdups_update \<lparr>kr_recid = recid, kr_keyid = key, kr_payload = payload, kr_ttl = ttl\<rparr> d)
        (\<lambda>d. get_recvals n key d bs))"
    if "length recid = kad_id_len" "payload_ok payload" for recid payload ttl bs
    using recdups_update_wire[OF Suc.prems(1), of "\<lparr>kr_recid = recid, kr_keyid = key, kr_payload = payload, kr_ttl = ttl\<rparr>"]
      that assms(2) Suc by (auto simp: kad_rec_ok_def)
  show ?case
    unfolding get_recvals.simps
    by (rule net_safe_bind[OF safe_gen_id], clarsimp, rule net_safe_bind[OF safe_datum], clarsimp,
        rule net_safe_bind[OF safe_delay], clarsimp, rule step) simp_all
qed simp

lemma wire_dups_ctor: "wire_dups kad_recdups_ctor"
  unfolding wire_dups_def by (simp add: kad_recdups_ctor_def recdups_inv_def gen_id_ctor_def)

lemma safe_recdups: "net_safe (\<lambda>(d, rest). wire_dups d) (get_kad_recdups bs)"
proof -
  have null: "gen_id_is_null (rd_keyid kad_recdups_ctor)"
    by (simp add: kad_recdups_ctor_def gen_id_is_null_def gen_id_ctor_def)
  show ?thesis
    unfolding get_kad_recdups_def
    by (rule net_safe_bind[OF safe_uint(3)], clarsimp simp: wire_dups_ctor, rule net_safe_bind[OF safe_gen_id], clarsimp)
      (rule safe_recvals[OF wire_dups_ctor _ disjI1[OF null]])
qed

subsection \<open>Packet types\<close>

lemma kad_pkttype_map:
  "init_pkttype_map kad_pkttype_names [] = Inr (zip kad_pkttype_names [0..<13])"
  by code_simp

definition kad_type_rank :: "string \<Rightarrow> nat" where
  "kad_type_rank name = the (map_of (zip kad_pkttype_names [0..<13]) name)"

lemma kad_type_ranks:
  "map kad_type_rank kad_pkttype_names = [0..<13]"
  by code_simp

lemma kad_pkttype_ok:
  assumes "\<not> pkttype_profile_is_null p" "name \<in> set kad_pkttype_names"
  shows "kad_pkttype p name = Inr (kad_type_rank name + pt_offset p)"
proof -
  have "map_of (zip kad_pkttype_names [0..<13]) name \<noteq> None"
    using assms(2) by (simp add: map_of_zip_is_None kad_pkttype_names_def)
  then show ?thesis using assms(1) by (auto simp: kad_pkttype_def kad_pkttype_map get_pkttype_def kad_type_rank_def)
qed

lemma known_names:
  "''PING_REPLY'' \<in> set kad_pkttype_names" "''STORE_REPLY'' \<in> set kad_pkttype_names"
  "''FINDNODE_REPLY'' \<in> set kad_pkttype_names" "''FINDSOMEVAL_REPLY'' \<in> set kad_pkttype_names"
  "''FINDALLVAL_REPLY'' \<in> set kad_pkttype_names" "''DELETE_REPLY'' \<in> set kad_pkttype_names"
  "''STORE_REQUEST'' \<in> set kad_pkttype_names" "''FINDSOMEVAL_REQUEST'' \<in> set kad_pkttype_names"
  "''FINDALLVAL_REQUEST'' \<in> set kad_pkttype_names" "''FINDNODE_REQUEST'' \<in> set kad_pkttype_names"
  "''PING_REQUEST'' \<in> set kad_pkttype_names" "''DELETE_REQUEST'' \<in> set kad_pkttype_names"
  by code_simp+

lemma kad_type_rank_less: "name \<in> set kad_pkttype_names \<Longrightarrow> kad_type_rank name < 13"
  using kad_type_ranks by (metis atLeastLessThan_iff image_eqI image_set set_upt)

definition request_names :: "string list" where
  "request_names = [''PING_REQUEST'', ''STORE_REQUEST'', ''FINDNODE_REQUEST'', ''FINDSOMEVAL_REQUEST'', ''FINDALLVAL_REQUEST'',
     ''DELETE_REQUEST'']"

lemma request_names_known [simp]: "set request_names \<subseteq> set kad_pkttype_names"
  by code_simp

lemma kad_type_rank_requests: "map kad_type_rank request_names = [0, 2, 4, 6, 8, 10]"
  by code_simp

definition is_request_type :: "pkttype_profile_t \<Rightarrow> nat \<Rightarrow> bool" where
  "is_request_type p t \<longleftrightarrow> (\<exists>i\<in>{0, 2, 4, 6, 8, 10}. t = i + pt_offset p)"

subsection \<open>Addresses in the routing table\<close>

text \<open>The addresses in the routing table and the ones that wait for a place come from notifications.\<close>

definition kb_known :: "kad_kbucket_t \<Rightarrow> kad_addr_t set" where
  "kb_known st = {a. \<exists>p n. bucknode_db st p = Some n \<and> (bn_kad_addr n = a \<or> pending_node n = Some a)}"

lemma kb_known_bl [simp]: "kb_known (bl_set x bl st) = kb_known st" "kb_new_nodes (bl_set x bl st) = kb_new_nodes st"
  by (simp_all add: kb_known_def bl_set_def)

lemma bl_known:
  "bl_insert x p st = Inr st' \<Longrightarrow> kb_known st' = kb_known st \<and> kb_new_nodes st' = kb_new_nodes st"
  "bl_update x p st = Inr st' \<Longrightarrow> kb_known st' = kb_known st \<and> kb_new_nodes st' = kb_new_nodes st"
  "bl_remove x p st = Inr st' \<Longrightarrow> kb_known st' = kb_known st \<and> kb_new_nodes st' = kb_new_nodes st"
  by (auto simp: bl_insert_def bl_update_def bl_remove_def res_bind_eq_Inr_iff dbg_assert_eq_Inr_iff Let_def)

lemma bucknode_ctor_known:
  "bucknode_ctor a st = Inr st' \<Longrightarrow> kb_known st' \<subseteq> insert a (kb_known st) \<and> kb_new_nodes st' = kb_new_nodes st @ [a]"
  by (auto simp: bucknode_ctor_def Let_def dbg_assert_eq_Inr_iff kb_known_def split: if_splits; blast)

lemma ping_start_known:
  "ping_start started a p st = Inr (b, st') \<Longrightarrow> kb_known st' \<subseteq> insert a (kb_known st) \<and> kb_new_nodes st' = kb_new_nodes st"
  by (fastforce simp: ping_start_def res_bind_eq_Inr_iff dbg_assert_eq_Inr_iff kb_known_def kb_node_def
      split: if_splits option.splits)

lemma ping_stop_known:
  "ping_stop p st = Inr st' \<Longrightarrow> kb_known st' \<subseteq> kb_known st \<and> kb_new_nodes st' = kb_new_nodes st"
  by (fastforce simp: ping_stop_def res_bind_eq_Inr_iff dbg_assert_eq_Inr_iff kb_known_def kb_node_def
      split: if_splits option.splits)

lemma bucknode_dtor_known:
  assumes "bucknode_dtor p st = Inr st'"
  shows "kb_known st' \<subseteq> kb_known st \<and> kb_new_nodes st' = kb_new_nodes st"
proof -
  obtain n :: bucknode_t and st1 where st1: "(if ping_rpc n then ping_stop p st else Inr st) = Inr st1"
    "st1\<lparr>bucknode_db := (bucknode_db st1)(p := None)\<rparr> = st'"
    using assms unfolding bucknode_dtor_def res_bind_eq_Inr_iff sum.inject by blast
  have "kb_known st1 \<subseteq> kb_known st \<and> kb_new_nodes st1 = kb_new_nodes st"
    using st1(1) ping_stop_known by (auto split: if_splits)
  moreover have "kb_known (st1\<lparr>bucknode_db := (bucknode_db st1)(p := None)\<rparr>) \<subseteq> kb_known st1"
    by (auto simp: kb_known_def split: if_splits)
  ultimately show ?thesis unfolding st1(2)[symmetric] by auto
qed

lemma todelete_known:
  "todelete_loop ps st = Inr st' \<Longrightarrow> kb_known st' \<subseteq> kb_known st \<and> kb_new_nodes st' = kb_new_nodes st"
proof (induction ps arbitrary: st)
  case (Cons p ps)
  let ?st = "st\<lparr>peerid_todelete_db := ps\<rparr>"
  have known: "kb_known ?st = kb_known st" by (simp add: kb_known_def)
  have "\<exists>bl. (if \<not> peerid_is_present p bl then todelete_loop ps ?st
      else res_bind (bl_remove (get_bucket_idx p ?st) p ?st) (\<lambda>st. res_bind (bucknode_dtor p st) (todelete_loop ps))) = Inr st'"
    using Cons.prems unfolding todelete_loop.simps Let_def by (rule res_bindE) blast
  then obtain bl where run: "(if \<not> peerid_is_present p bl then todelete_loop ps ?st
      else res_bind (bl_remove (get_bucket_idx p ?st) p ?st) (\<lambda>st. res_bind (bucknode_dtor p st) (todelete_loop ps))) = Inr st'" ..
  show ?case
  proof (cases "peerid_is_present p bl")
    case False
    then show ?thesis
      using run Cons.IH[of ?st] known by simp
  next
    case True
    then obtain st1 st2 where "bl_remove (get_bucket_idx p ?st) p ?st = Inr st1" "bucknode_dtor p st1 = Inr st2"
      "todelete_loop ps st2 = Inr st'"
      using run by (auto elim!: res_bindE)
    then show ?thesis using bl_known(3) bucknode_dtor_known Cons.IH known by fastforce
  qed
qed (simp add: kb_known_def)

definition kb_grows :: "kad_addr_t set \<Rightarrow> kad_kbucket_t \<Rightarrow> kad_kbucket_t \<Rightarrow> bool" where
  "kb_grows A st st' \<longleftrightarrow> kb_known st' \<subseteq> A \<union> kb_known st \<and>
     (\<exists>ns. kb_new_nodes st' = kb_new_nodes st @ ns \<and> set ns \<subseteq> A \<union> kb_known st)"

lemma kb_growsI: "kb_known st' \<subseteq> A \<union> kb_known st \<Longrightarrow> kb_new_nodes st' = kb_new_nodes st \<Longrightarrow> kb_grows A st st'"
  by (simp add: kb_grows_def)

lemma notify_srckaddr_grows:
  assumes "notify_srckaddr started a st = Inr st'"
  shows "kb_grows {a} st st'"
proof -
  consider "st' = st" | x p where "bl_update x p st = Inr st'"
    | x p st1 where "bucknode_ctor a st = Inr st1" "bl_insert x p st1 = Inr st'"
    | p b where "ping_start started a p st = Inr (b, st')"
    using assms unfolding notify_srckaddr_def Let_def
    by (auto simp: res_bind_eq_Inr_iff dbg_assert_eq_Inr_iff split: if_splits option.splits)
  then show ?thesis
  proof cases
    case 3
    then show ?thesis using bucknode_ctor_known[OF 3(1)] bl_known(1)[OF 3(2)] by (auto simp: kb_grows_def)
  qed (auto intro!: kb_growsI dest: bl_known ping_start_known)
qed

lemma ping_rpc_cb_grows:
  assumes "ping_rpc_cb fatal p st = Inr st'"
  shows "kb_grows {} st st'"
proof (cases fatal)
  case True
  then obtain n q st1 st2 st3 where st: "kb_node p st = Inr n" "pending_node n = Some q" "bucknode_ctor q st = Inr st1"
    "bl_remove (get_bucket_idx p st1) p st1 = Inr st2" "bl_insert (get_bucket_idx p st1) (m_peerid q) st2 = Inr st3"
    "bucknode_dtor p st3 = Inr st'"
    using assms unfolding ping_rpc_cb_def Let_def by (auto simp: res_bind_eq_Inr_iff split: option.splits)
  have "q \<in> kb_known st" using st(1,2) by (auto simp: kb_known_def kb_node_def split: option.splits)
  then show ?thesis
    using bucknode_ctor_known[OF st(3)] bl_known(3)[OF st(4)] bl_known(1)[OF st(5)] bucknode_dtor_known[OF st(6)]
    by (auto simp: kb_grows_def)
next
  case False
  then obtain st1 where "bl_update (get_bucket_idx p st) p st = Inr st1" "ping_stop p st1 = Inr st'"
    using assms by (auto simp: ping_rpc_cb_def res_bind_eq_Inr_iff)
  then show ?thesis using bl_known(2) ping_stop_known by (intro kb_growsI) fastforce+
qed

lemma zerotimer_todelete_grows:
  "zerotimer_notify (\<lambda>u st. res_bind (todelete_loop (peerid_todelete_db st) st) (\<lambda>st. Inr (True, st))) us st = Inr (b, st') \<Longrightarrow>
    kb_grows {} st st'"
proof (induction us arbitrary: st)
  case (Cons u us)
  then obtain st1 where "todelete_loop (peerid_todelete_db st) st = Inr st1"
    "zerotimer_notify (\<lambda>u st. res_bind (todelete_loop (peerid_todelete_db st) st) (\<lambda>st. Inr (True, st))) us st1 = Inr (b, st')"
    by (auto simp: res_bind_eq_Inr_iff)
  then show ?case using Cons.IH todelete_known by (fastforce simp: kb_grows_def)
qed (simp add: kb_grows_def)

lemma kb_exec_grows:
  assumes "kb_exec op st = Inr st'"
  shows "kb_grows (case op of Kb_srckaddr started a \<Rightarrow> {a} | _ \<Rightarrow> {}) st st'"
proof (cases op)
  case (Kb_srckaddr started a)
  then show ?thesis using assms notify_srckaddr_grows by (simp add: kb_exec_def)
next
  case (Kb_ping_end fatal p)
  then show ?thesis
    using assms ping_rpc_cb_grows[of fatal p st st']
    by (auto simp: kb_exec_def kb_grows_def split: option.splits if_splits)
next
  case (Kb_failed_rpc p timedout d)
  have "kb_known (st\<lparr>peerid_todelete_db := t\<rparr>) = kb_known st"
    "kb_known (st\<lparr>peerid_todelete_db := t, peerid_todelete_zerotimer := z\<rparr>) = kb_known st" for t z
    by (simp_all add: kb_known_def)
  then show ?thesis
    using assms Kb_failed_rpc
    by (auto simp: kb_exec_def notify_failed_rpc_def Let_def kb_grows_def split: if_splits)
next
  case Kb_timer
  let ?st = "st\<lparr>peerid_todelete_zerotimer := \<lparr>zero_timeout_running = False, cbuserptr_list = []\<rparr>\<rparr>"
  let ?us = "cbuserptr_list (peerid_todelete_zerotimer st)"
  obtain b where "zerotimer_notify (\<lambda>u st. res_bind (todelete_loop (peerid_todelete_db st) st) (\<lambda>st. Inr (True, st))) ?us ?st = Inr (b, st')"
    using assms Kb_timer
    by (auto simp: kb_exec_def kb_zerotimer_expire_def zerotimer_expire_def Let_def res_bind_eq_Inr_iff)
  then have "kb_grows {} ?st st'" by (rule zerotimer_todelete_grows)
  moreover have "kb_known ?st = kb_known st" "kb_new_nodes ?st = kb_new_nodes st" by (simp_all add: kb_known_def)
  ultimately show ?thesis unfolding kb_grows_def Kb_timer by simp
next
  case (Kb_nsearch t)
  then show ?thesis
    using assms by (auto simp: kb_exec_def notify_nsearch_def Let_def res_bind_eq_Inr_iff kb_grows_def)
qed

definition kb_fq :: "kad_kbucket_t \<Rightarrow> bool" where
  "kb_fq st \<longleftrightarrow> (\<forall>a\<in>kb_known st. kad_addr_is_fully_qualified a = Inr True \<and> length (m_peerid a) = kad_id_len)"

lemma kb_grows_fq:
  assumes "kb_grows A st st'" "kb_fq st" "\<forall>a\<in>A. kad_addr_is_fully_qualified a = Inr True \<and> length (m_peerid a) = kad_id_len"
  shows "kb_fq st'"
    "\<forall>a\<in>set (drop (length (kb_new_nodes st)) (kb_new_nodes st')). kad_addr_is_fully_qualified a = Inr True \<and> length (m_peerid a) = kad_id_len"
proof -
  obtain ns where "kb_known st' \<subseteq> A \<union> kb_known st" "kb_new_nodes st' = kb_new_nodes st @ ns" "set ns \<subseteq> A \<union> kb_known st"
    using assms(1) by (auto simp: kb_grows_def)
  then show "kb_fq st'"
    "\<forall>a\<in>set (drop (length (kb_new_nodes st)) (kb_new_nodes st')). kad_addr_is_fully_qualified a = Inr True \<and> length (m_peerid a) = kad_id_len"
    using assms(2,3) by (auto simp: kb_fq_def)
qed

lemma kb_ctor_fq:
  assumes "kb_ctor_args_ok profile peerid listen" "kad_kbucket_ctor profile peerid listen = Inr st"
  shows "kb_fq st"
proof -
  obtain any where any: "is_any (m_ipaddr listen) = Inr any"
    "kad_addr_is_fully_qualified \<lparr>m_oaddr = if any then listen\<lparr>m_ipaddr := Ip_v4 0x7f000001\<rparr> else listen,
      m_peerid = peerid\<rparr> = Inr True"
    using kb_ctor_addr_ok[OF assms(1)] by blast
  let ?st = "\<lparr>kb_profile = profile, local_peerid = peerid, kbucket_width = profile_kbucket_width profile,
                   kbucket_height = nb_replication profile,
                   bucklist_db = replicate (kad_id_len * 8 div profile_kbucket_width profile) (bucklist_ctor profile),
                   bucknode_db = Map.empty, pending_node_db = Map.empty, peerid_todelete_db = [],
                   peerid_todelete_zerotimer = zerotimer_ctor, kb_new_nodes = []\<rparr>"
  have w: "profile_kbucket_width profile dvd kad_id_len * 8" "kad_id_len * 8 div profile_kbucket_width profile * profile_kbucket_width profile = kad_id_len * 8"
    using assms(1) by (auto simp: kb_ctor_args_ok_def)
  have fq: "kb_fq ?st" by (simp add: kb_fq_def kb_known_def)
  have "notify_srckaddr False \<lparr>m_oaddr = if any then listen\<lparr>m_ipaddr := Ip_v4 0x7f000001\<rparr> else listen, m_peerid = peerid\<rparr> ?st = Inr st"
    using assms w any(1) by (simp add: kad_kbucket_ctor_def Let_def kb_ctor_args_ok_def dbg_assert_eq_Inr_iff split: if_splits)
  from notify_srckaddr_grows[OF this] show ?thesis
    by (rule kb_grows_fq(1)[OF _ fq]) (use any(2) assms(1) in \<open>simp add: kb_ctor_args_ok_def\<close>)
qed

subsection \<open>The invariant of a peer\<close>

text \<open>The payloads that a peer holds can be sent.\<close>

definition db_wire :: "kad_db_t \<Rightarrow> bool" where
  "db_wire db \<longleftrightarrow> (\<forall>p x. recid_db db p = Some x \<longrightarrow> payload_ok (kr_payload (dr_rec x)))"

definition peer_cfg_ok :: "kad_profile_t \<Rightarrow> ipport_aview_t \<Rightarrow> bytes \<Rightarrow> bytes \<Rightarrow> bool" where
  "peer_cfg_ok profile listen_aview realm_id peerid \<longleftrightarrow>
     pkttype_profile_sane (profile_pkttype profile) \<and> 13 \<le> pt_nb_reserved (profile_pkttype profile) \<and>
     is_run_ok listen_aview = Inr True \<and> length realm_id = kad_id_len \<and> length peerid = kad_id_len \<and>
     gen_id_is_fully_qualified peerid \<and> profile_kbucket_width (profile_kbucket profile) dvd kad_id_len * 8 \<and>
     nb_replication (profile_kbucket profile) < 2 ^ 32 \<and>
     \<not> keyid_nodups_ok (profile_local_db profile) \<and> \<not> keyid_nodups_ok (profile_remote_db profile) \<and>
     (replypkt_maxlen (profile_rpc profile) = 0 \<or> get_serial_hd_main \<le> replypkt_maxlen (profile_rpc profile))"

definition peer_inv :: "kad_peer_t \<Rightarrow> bool" where
  "peer_inv st \<longleftrightarrow> peer_cfg_ok (kp_profile st) (kp_listen_aview st) (kp_realm_id st) (kp_local_peerid st) \<and>
     kb_inv (kp_kbucket st) \<and> kb_fq (kp_kbucket st) \<and>
     db_inv (kp_remote_db st) \<and> db_wire (kp_remote_db st) \<and> db_profile (kp_remote_db st) = profile_remote_db (kp_profile st) \<and>
     db_inv (kp_local_db st) \<and> db_profile (kp_local_db st) = profile_local_db (kp_profile st)"

definition same_peer :: "kad_peer_t \<Rightarrow> kad_peer_t \<Rightarrow> bool" where
  "same_peer st st' \<longleftrightarrow> kp_profile st' = kp_profile st \<and> kp_listen_aview st' = kp_listen_aview st \<and>
     kp_realm_id st' = kp_realm_id st \<and> kp_local_peerid st' = kp_local_peerid st"

lemma same_peer_refl [simp]: "same_peer st st" by (simp add: same_peer_def)

lemma same_peer_trans: "same_peer a b \<Longrightarrow> same_peer b c \<Longrightarrow> same_peer a c" by (simp add: same_peer_def)

lemma peer_inv_stat [simp]: "peer_inv (st\<lparr>kp_stat := s\<rparr>) = peer_inv st" "same_peer st (st\<lparr>kp_stat := s\<rparr>)"
  by (simp_all add: peer_inv_def same_peer_def)

lemma peer_invD:
  assumes "peer_inv st"
  shows "kb_inv (kp_kbucket st)" "db_inv (kp_remote_db st)" "db_index (kp_remote_db st)" "db_wire (kp_remote_db st)"
    "is_run_ok (kp_listen_aview st) = Inr True" "length (kp_realm_id st) = kad_id_len" "length (kp_local_peerid st) = kad_id_len"
    "pkttype_profile_sane (kp_pkttype st)" "\<not> pkttype_profile_is_null (kp_pkttype st)" "13 \<le> pt_nb_reserved (kp_pkttype st)"
    "replypkt_maxlen (kp_rpc st) = 0 \<or> get_serial_hd_main \<le> replypkt_maxlen (kp_rpc st)"
    "nb_replication (profile_kbucket (kp_profile st)) < 2 ^ 32" "gen_id_is_fully_qualified (kp_local_peerid st)"
    "kb_fq (kp_kbucket st)" "\<not> keyid_nodups_ok (db_profile (kp_remote_db st))" "db_inv (kp_local_db st)"
    "\<not> keyid_nodups_ok (db_profile (kp_local_db st))"
  using assms by (simp_all add: peer_inv_def peer_cfg_ok_def db_inv_def pkttype_profile_sane_def)

lemma kad_peer_start_ok:
  assumes "peer_cfg_ok profile listen_aview realm_id peerid"
  shows "\<exists>st. kad_peer_start profile listen_aview realm_id peerid secret = Inr st \<and> peer_inv st"
proof -
  have args: "kb_ctor_args_ok (profile_kbucket profile) peerid (lview listen_aview)"
    using assms by (simp add: peer_cfg_ok_def kb_ctor_args_ok_def is_run_ok_iff listens_ok_def)
  obtain kb where kb: "kad_kbucket_ctor (profile_kbucket profile) peerid (lview listen_aview) = Inr kb" "kb_inv kb" "kb_fq kb"
    using kb_ctor_ok[OF args] kb_ctor_fq[OF args] by blast
  have "db_wire (kad_db_ctor prof remote peerid)" for prof remote by (simp add: db_wire_def kad_db_ctor_def)
  moreover have "db_profile (kad_db_ctor prof remote peerid) = prof" for prof remote by (simp add: kad_db_ctor_def)
  moreover have "\<not> gen_id_is_null peerid" "length peerid = kad_id_len"
    using assms by (simp_all add: peer_cfg_ok_def gen_id_is_fully_qualified_def)
  ultimately show ?thesis using kb assms db_inv_ctor by (simp add: kad_peer_start_def peer_inv_def Let_def kad_profile_check_def peer_cfg_ok_def kad_pkttype_names_def)
qed

subsection \<open>Source addresses\<close>

definition src_harmful :: "kad_addr_t \<Rightarrow> bool" where
  "src_harmful a \<longleftrightarrow> \<not> kad_addr_is_null a \<and> \<not> (listens_ok (m_oaddr a) \<and> gen_id_is_fully_qualified (m_peerid a))"

lemma notify_new_nodes_ok:
  assumes "db_index db" "\<forall>a\<in>set as. kad_addr_is_fully_qualified a = Inr True \<and> length (m_peerid a) = kad_id_len"
  shows "\<exists>rs. notify_new_nodes as db = Inr rs \<and> map fst rs = as"
  using assms(2)
proof (induction as)
  case (Cons a as)
  then obtain ds where "db_notify_new_node a db = Inr ds" using notify_new_node_ok[OF assms(1)] by force
  then show ?case using Cons by auto
qed simp

lemma srckaddr_parse_ok:
  assumes "peer_inv st" "ipport_is_fully_qualified remote = Inr True" "length (m_peerid a) = kad_id_len"
  shows "if src_harmful a then srckaddr_parse started a remote st = Inl Assert_failed
    else \<exists>rs st'. srckaddr_parse started a remote st = Inr (rs, st') \<and> peer_inv st' \<and> same_peer st st' \<and>
      kp_remote_db st' = kp_remote_db st \<and> kp_cookie_db st' = kp_cookie_db st"
proof (cases "kad_addr_is_null a")
  case True
  then show ?thesis using assms(1) by (simp add: src_harmful_def srckaddr_parse_def)
next
  case notnull: False
  let ?b = "\<lparr>m_oaddr = xmit_dest (m_oaddr a) remote, m_peerid = m_peerid a\<rparr>"
  have null: "ipport_is_null ipport_null" by (simp add: ipport_null_def ipport_is_null_def ip_is_null_def)
  note dest = listen_xmit2dest_spec[OF assms(2), of "m_oaddr a"]
  show ?thesis
  proof (cases "listens_ok (m_oaddr a)")
    case False
    then have "srckaddr_parse started a remote st = Inl Assert_failed"
      using notnull dest null by (simp add: srckaddr_parse_def)
    then show ?thesis using notnull False by (simp add: src_harmful_def)
  next
    case True
    then have fq: "ipport_is_fully_qualified (xmit_dest (m_oaddr a) remote) = Inr True" using xmit_dest_fq assms(2) by blast
    then have nn: "\<not> ipport_is_null (xmit_dest (m_oaddr a) remote)"
      by (auto simp: ipport_fq_iff ipport_is_null_def ip_is_fully_qualified_def ip_is_null_def)
    have x: "listen_xmit2dest (m_oaddr a) remote = Inr (xmit_dest (m_oaddr a) remote)"
      using dest True listens_ok_not_null[OF True] by simp
    have bfq: "kad_addr_is_fully_qualified ?b = Inr (gen_id_is_fully_qualified (m_peerid a))"
      using fq by (simp add: kad_addr_is_fully_qualified_def)
    show ?thesis
    proof (cases "gen_id_is_fully_qualified (m_peerid a)")
      case False
      then show ?thesis using notnull True x nn bfq by (simp add: srckaddr_parse_def src_harmful_def)
    next
      case pfq: True
      obtain kb where kb: "notify_srckaddr started ?b (kp_kbucket st) = Inr kb" "kb_inv kb"
        using kb_srckaddr_ok[OF peer_invD(1)[OF assms(1)], of ?b started] bfq pfq assms(3) by auto
      note new = kb_grows_fq[OF notify_srckaddr_grows[OF kb(1)] peer_invD(14)[OF assms(1)]]
      have fq_kb: "kb_fq kb" by (rule new(1)) (use bfq pfq assms(3) in simp)
      have "\<forall>a\<in>set (drop (length (kb_new_nodes (kp_kbucket st))) (kb_new_nodes kb)).
          kad_addr_is_fully_qualified a = Inr True \<and> length (m_peerid a) = kad_id_len"
        by (rule new(2)) (use bfq pfq assms(3) in simp)
      then obtain rs where "notify_new_nodes (drop (length (kb_new_nodes (kp_kbucket st))) (kb_new_nodes kb)) (kp_remote_db st) = Inr rs"
        using notify_new_nodes_ok[OF peer_invD(3)[OF assms(1)]] by blast
      then have "srckaddr_parse started a remote st = Inr (rs, st\<lparr>kp_kbucket := kb\<rparr>)"
        using notnull x nn bfq pfq kb(1) by (simp add: srckaddr_parse_def Let_def)
      then show ?thesis using notnull True pfq kb(2) fq_kb assms(1) by (simp add: src_harmful_def peer_inv_def same_peer_def)
    qed
  qed
qed


subsection \<open>Headers\<close>

text \<open>The number of a packet type is big endian; out of the range of the profile it makes an assertion fail.\<close>

lemma unat_byte_of: "unat (ucast (drop_bit k w) :: byte) = unat (w :: 'a::len word) div 2 ^ k mod 256"
  by (simp only: unsigned_ucast_eq take_bit_eq_mod unat_drop_bit_div) simp

lemma base256_digits:
  fixes x :: nat
  shows "x < 2 ^ 16 \<Longrightarrow> x div 2 ^ 8 mod 256 * 2 ^ 8 + x div 2 ^ 0 mod 256 = x"
    "x < 2 ^ 32 \<Longrightarrow> x div 2 ^ 24 mod 256 * 2 ^ 24 + (x div 2 ^ 16 mod 256 * 2 ^ 16 +
      (x div 2 ^ 8 mod 256 * 2 ^ 8 + x div 2 ^ 0 mod 256)) = x"
proof -
  define a where "a = x div 256"
  define b where "b = a div 256"
  define c where "c = b div 256"
  have divs: "x div 2 ^ 8 = a" "x div 2 ^ 16 = b" "x div 2 ^ 24 = c"
    by (simp_all add: a_def b_def c_def flip: div_mult2_eq)
  have parts: "x = a * 256 + x mod 256" "a = b * 256 + a mod 256" "b = c * 256 + b mod 256"
    by (simp_all add: a_def b_def c_def)
  show "x div 2 ^ 8 mod 256 * 2 ^ 8 + x div 2 ^ 0 mod 256 = x" if "x < 2 ^ 16"
  proof -
    have "a < 256" using that by (simp add: a_def)
    then show ?thesis unfolding divs using parts by simp
  qed
  show "x div 2 ^ 24 mod 256 * 2 ^ 24 + (x div 2 ^ 16 mod 256 * 2 ^ 16 +
      (x div 2 ^ 8 mod 256 * 2 ^ 8 + x div 2 ^ 0 mod 256)) = x" if "x < 2 ^ 32"
  proof -
    have "c < 256" using that by (simp add: a_def b_def c_def flip: div_mult2_eq)
    then have "c mod 256 * 2 ^ 24 + (b mod 256 * 2 ^ 16 + (a mod 256 * 2 ^ 8 + x mod 256)) = x" using parts by simp
    then show ?thesis unfolding divs by simp
  qed
qed

lemma gen_id_val_put_uint: "gen_id_val (put_uint16 a) = unat a" "gen_id_val (put_uint32 b) = unat b"
proof -
  have "put_uint16 a = [ucast (drop_bit 8 a), ucast (drop_bit 0 a)]" by (simp add: put_uint_big_endian upt_rec)
  then have 1: "gen_id_val (put_uint16 a) = unat a div 2 ^ 8 mod 256 * 2 ^ 8 + unat a div 2 ^ 0 mod 256"
    by (simp only: gen_id_val.simps unat_byte_of) simp
  have "put_uint32 b = [ucast (drop_bit 24 b), ucast (drop_bit 16 b), ucast (drop_bit 8 b), ucast (drop_bit 0 b)]"
    by (simp add: put_uint_big_endian upt_rec)
  then have 2: "gen_id_val (put_uint32 b) = unat b div 2 ^ 24 mod 256 * 2 ^ 24 + (unat b div 2 ^ 16 mod 256 * 2 ^ 16 +
      (unat b div 2 ^ 8 mod 256 * 2 ^ 8 + unat b div 2 ^ 0 mod 256))"
    by (simp only: gen_id_val.simps unat_byte_of) simp
  have less: "unat a < 2 ^ 16" "unat b < 2 ^ 32" using unsigned_less[of a] unsigned_less[of b] by simp_all
  show "gen_id_val (put_uint16 a) = unat a" "gen_id_val (put_uint32 b) = unat b"
    unfolding 1 2 by (rule base256_digits(1)[OF less(1)], rule base256_digits(2)[OF less(2)])
qed


lemma get_uint_val:
  "1 \<le> length bs \<Longrightarrow> \<exists>v. get_uint8 bs = Inr (v, drop 1 bs) \<and> unat v = gen_id_val (take 1 bs)"
  "2 \<le> length bs \<Longrightarrow> \<exists>v. get_uint16 bs = Inr (v, drop 2 bs) \<and> unat v = gen_id_val (take 2 bs)"
  "4 \<le> length bs \<Longrightarrow> \<exists>v. get_uint32 bs = Inr (v, drop 4 bs) \<and> unat v = gen_id_val (take 4 bs)"
proof -
  show "\<exists>v. get_uint8 bs = Inr (v, drop 1 bs) \<and> unat v = gen_id_val (take 1 bs)" if "1 \<le> length bs"
    using that by (cases bs) (auto simp: get_uint8_def)
  have put: "put_uint16 (NEOIP_BSWAP16 (le_word (take 2 bs))) = take 2 bs" if "2 \<le> length bs"
    using le_bytes_le_word[where 'a = 16, of "take 2 bs"] that by (simp add: put_uint16_def)
  then show "\<exists>v. get_uint16 bs = Inr (v, drop 2 bs) \<and> unat v = gen_id_val (take 2 bs)" if "2 \<le> length bs"
    using that gen_id_val_put_uint(1)[of "NEOIP_BSWAP16 (le_word (take 2 bs))"] by (simp add: get_uint16_def)
  have put: "put_uint32 (NEOIP_BSWAP32 (le_word (take 4 bs))) = take 4 bs" if "4 \<le> length bs"
    using le_bytes_le_word[where 'a = 32, of "take 4 bs"] that by (simp add: put_uint32_def)
  then show "\<exists>v. get_uint32 bs = Inr (v, drop 4 bs) \<and> unat v = gen_id_val (take 4 bs)" if "4 \<le> length bs"
    using that gen_id_val_put_uint(2)[of "NEOIP_BSWAP32 (le_word (take 4 bs))"] by (simp add: get_uint32_def)
qed

definition type_len :: "pkttype_profile_t \<Rightarrow> nat" where
  "type_len p = pkttype_width (pt_serial_type p) div 8"

definition type_harmful :: "pkttype_profile_t \<Rightarrow> bytes \<Rightarrow> bool" where
  "type_harmful p pkt \<longleftrightarrow> type_len p \<le> length pkt \<and> \<not> pkttype_in_range p (gen_id_val (take (type_len p) pkt))"

lemma pkttype_unserialize_spec:
  assumes "\<not> pkttype_profile_is_null p"
  shows "if type_harmful p pkt then pkttype_unserialize p pkt = Inl Assert_failed
    else net_safe (\<lambda>(t, rest). t = gen_id_val (take (type_len p) pkt) \<and> pkttype_in_range p t \<and> rest = drop (type_len p) pkt)
      (pkttype_unserialize p pkt)"
proof (cases "type_len p \<le> length pkt")
  case True
  then show ?thesis
    using assms get_uint_val[of pkt]
    by (cases "pt_serial_type p")
      (auto simp: pkttype_unserialize_def type_harmful_def type_len_def pkttype_width_def pkttype_profile_is_null_def)
next
  case False
  then show ?thesis
    using assms
    by (cases "pt_serial_type p")
      (auto simp: pkttype_unserialize_def type_harmful_def type_len_def pkttype_width_def pkttype_profile_is_null_def
        get_uint8_def get_uint16_def get_uint32_def Suc_le_eq)
qed

lemma safe_get_if_gen_id [safe_intros]:
  "net_safe (\<lambda>(a, rest). length a = n) (get_if b (get_gen_id n) (gen_id_ctor n) pkt)"
  by (rule safe_get_if[OF safe_gen_id]) (simp add: gen_id_ctor_def)

lemma read_req_header_spec:
  assumes "\<not> pkttype_profile_is_null (kp_pkttype st)"
  shows "if type_harmful (kp_pkttype st) pkt then read_req_header st pkt = Inl Assert_failed
    else net_safe (\<lambda>((t, realm, dest, src, nonce), rest). length (m_peerid src) = kad_id_len \<and>
        t = gen_id_val (take (type_len (kp_pkttype st)) pkt) \<and> pkttype_in_range (kp_pkttype st) t)
      (read_req_header st pkt)"
proof (cases "type_harmful (kp_pkttype st) pkt")
  case True
  then show ?thesis using pkttype_unserialize_spec[OF assms, of pkt] by (simp add: read_req_header_def)
next
  case False
  then have ty: "net_safe (\<lambda>(t, rest). t = gen_id_val (take (type_len (kp_pkttype st)) pkt) \<and> pkttype_in_range (kp_pkttype st) t \<and>
      rest = drop (type_len (kp_pkttype st)) pkt) (pkttype_unserialize (kp_pkttype st) pkt)"
    using pkttype_unserialize_spec[OF assms, of pkt] by simp
  show ?thesis
    unfolding read_req_header_def if_not_P[OF False]
    by (rule net_safe_bind[OF ty], clarsimp, rule net_safe_bind[OF safe_get_if_gen_id], clarsimp,
        rule net_safe_bind[OF safe_get_if_gen_id], clarsimp, rule net_safe_bind[OF safe_kad_addr], clarsimp,
        rule net_safe_bind[OF safe_get_if_gen_id], clarsimp)
qed

lemma read_rep_header_spec:
  assumes "\<not> pkttype_profile_is_null (kp_pkttype st)"
  shows "if type_harmful (kp_pkttype st) pkt then read_rep_header st pkt = Inl Assert_failed
    else net_safe (\<lambda>((t, realm, src, nonce), rest). length (m_peerid src) = kad_id_len) (read_rep_header st pkt)"
proof (cases "type_harmful (kp_pkttype st) pkt")
  case True
  then show ?thesis using pkttype_unserialize_spec[OF assms, of pkt] by (simp add: read_rep_header_def)
next
  case False
  then have ty: "net_safe (\<lambda>(t, rest). t = gen_id_val (take (type_len (kp_pkttype st)) pkt) \<and> pkttype_in_range (kp_pkttype st) t \<and>
      rest = drop (type_len (kp_pkttype st)) pkt) (pkttype_unserialize (kp_pkttype st) pkt)"
    using pkttype_unserialize_spec[OF assms, of pkt] by simp
  show ?thesis
    unfolding read_rep_header_def if_not_P[OF False]
    by (rule net_safe_bind[OF ty], clarsimp, rule net_safe_bind[OF safe_get_if_gen_id], clarsimp,
        rule net_safe_bind[OF safe_kad_addr], clarsimp, rule net_safe_bind[OF safe_get_if_gen_id], clarsimp)
qed

lemma parse_req_header_ok:
  assumes "\<not> pkttype_profile_is_null (kp_pkttype st)" "\<not> type_harmful (kp_pkttype st) pkt"
  shows "parse_req_header st pkt = Inr None \<or>
    (\<exists>t src nonce rest. parse_req_header st pkt = Inr (Some (t, src, nonce, rest)) \<and> length (m_peerid src) = kad_id_len \<and>
      pkttype_in_range (kp_pkttype st) t)"
proof -
  have safe: "net_safe (\<lambda>((t, realm, dest, src, nonce), rest). length (m_peerid src) = kad_id_len \<and>
        t = gen_id_val (take (type_len (kp_pkttype st)) pkt) \<and> pkttype_in_range (kp_pkttype st) t) (read_req_header st pkt)"
    using read_req_header_spec[OF assms(1), of pkt] assms(2) by simp
  then show ?thesis
  proof (rule try_parse_safe)
    fix v assume v: "read_req_header st pkt = Inr v" and p: "try_parse (read_req_header st pkt) = Inr (Some v)"
    obtain t realm dest src nonce rest where [simp]: "v = ((t, realm, dest, src, nonce), rest)" by (metis prod.exhaust)
    have "parse_req_header st pkt = Inr None \<or> parse_req_header st pkt = Inr (Some (t, src, nonce, rest))"
      using p by (simp add: parse_req_header_def)
    then show ?thesis using v safe by auto
  qed (simp add: parse_req_header_def)
qed

lemma try_parse_assert [simp]: "try_parse (Inl Assert_failed) = Inl Assert_failed"
  by (simp add: try_parse_def)

subsection \<open>Requests\<close>

lemma pkttype_serialize_known:
  assumes "pkttype_profile_sane p" "13 \<le> pt_nb_reserved p" "name \<in> set kad_pkttype_names"
  shows "\<exists>bs. pkttype_serialize p (kad_type_rank name + pt_offset p) = Inr bs \<and>
    (\<forall>rest. pkttype_unserialize p (bs @ rest) = Inr (kad_type_rank name + pt_offset p, rest))"
  using pkttype_serialize_ok[OF assms(1)] kad_type_rank_less[OF assms(3)] assms(2) by (simp add: pkttype_in_range_def)

lemma srckaddr_build_ok:
  assumes "peer_inv st" "ipport_is_fully_qualified remote = Inr True"
  shows "\<exists>a. srckaddr_build remote st = Inr a \<and> length (m_peerid a) = kad_id_len \<and> \<not> src_harmful a \<and>
    (kad_addr_is_null a \<or> m_peerid a = kp_local_peerid st)"
proof -
  have run: "listens_ok (lview (kp_listen_aview st))"
    "ipport_is_null (pview (kp_listen_aview st)) \<or> listens_ok (pview (kp_listen_aview st))"
    using peer_invD(5)[OF assms(1)] by (simp_all add: is_run_ok_iff)
  have null: "kad_addr_is_null kad_addr_null" "length (m_peerid kad_addr_null) = kad_id_len"
    by (simp_all add: kad_addr_null_def kad_addr_is_null_def ipport_null_def ipport_is_null_def ip_is_null_def
        gen_id_is_null_def gen_id_ctor_def)
  have n: "ipport_is_null ipport_null" by (simp add: ipport_null_def ipport_is_null_def ip_is_null_def)
  show ?thesis
    using listen_aview2xmit_spec[OF peer_invD(5)[OF assms(1)] assms(2)] run null n listens_ok_not_null
      peer_invD(7,13)[OF assms(1)]
    by (auto simp: srckaddr_build_def src_harmful_def)
qed

lemma server_rep_header_ok:
  assumes "peer_inv st" "ipport_is_fully_qualified (rq_remote_oaddr rq) = Inr True" "name \<in> set kad_pkttype_names"
  shows "\<exists>bs. server_rep_header name rq st = Inr bs"
proof -
  obtain t where "pkttype_serialize (kp_pkttype st) (kad_type_rank name + pt_offset (kp_pkttype st)) = Inr t"
    using pkttype_serialize_known[OF peer_invD(8,10)[OF assms(1)] assms(3)] by blast
  moreover obtain a where "srckaddr_build (rq_remote_oaddr rq) st = Inr a" using srckaddr_build_ok[OF assms(1,2)] by blast
  ultimately show ?thesis
    using kad_pkttype_ok[OF peer_invD(9)[OF assms(1)] assms(3)] by (simp add: server_rep_header_def build_rep_header_def)
qed

lemma server_rep_header_stat [simp]: "server_rep_header name rq (st\<lparr>kp_stat := s\<rparr>) = server_rep_header name rq st"
  by (simp add: server_rep_header_def build_rep_header_def srckaddr_build_def cong: if_cong)

text \<open>What a handler does to the peer: its reply, the invariant, and nothing but the records, the statistics.\<close>

definition handler_ok :: "kad_peer_t \<Rightarrow> (bytes \<times> kad_peer_t) res \<Rightarrow> bool" where
  "handler_ok st r \<longleftrightarrow> (\<exists>reply st'. r = Inr (reply, st') \<and> peer_inv st' \<and> same_peer st st' \<and>
     kp_cookie_db st' = kp_cookie_db st \<and> kp_kbucket st' = kp_kbucket st \<and> kp_local_db st' = kp_local_db st)"

lemma handler_okI: "peer_inv st \<Longrightarrow> handler_ok st (Inr (reply, st\<lparr>kp_stat := s\<rparr>))"
  by (simp add: handler_ok_def)

definition request_ok :: "request_t \<Rightarrow> bool" where
  "request_ok rq \<longleftrightarrow> ipport_is_fully_qualified (rq_remote_oaddr rq) = Inr True \<and> (\<forall>a. \<exists>b. rq_filter rq a = Inr b)"

lemma request_okD:
  assumes "request_ok rq"
  shows "ipport_is_fully_qualified (rq_remote_oaddr rq) = Inr True" "\<forall>a. rq_filter rq a = Inr (rq_filter rq a = Inr True)"
  using assms by (auto simp: request_ok_def) (metis (full_types))

lemma handle_ping_ok:
  assumes "peer_inv st" "request_ok rq"
  shows "handler_ok st (handle_ping_request rq st)"
  using server_rep_header_ok[OF assms(1) request_okD(1)[OF assms(2)] known_names(1)] handler_okI[OF assms(1)]
  by (auto simp: handle_ping_request_def Let_def)

lemma nclosest_ok:
  assumes "peer_inv st" "request_ok rq" "length t = kad_id_len"
  shows "\<exists>addrs. get_nclosest_addr t mx (rq_filter rq) (kp_kbucket st) = Inr addrs"
  using nclosest_spec[OF peer_invD(1)[OF assms(1)] request_okD(2)[OF assms(2)] assms(3)] by blast

lemma handle_findnode_ok:
  assumes "peer_inv st" "request_ok rq"
  shows "handler_ok st (handle_findnode_request hmac rq st)"
proof (cases "findnode_rpc_ok (kp_rpc st)")
  case True
  obtain h where h: "server_rep_header ''FINDNODE_REPLY'' rq st = Inr h"
    using server_rep_header_ok[OF assms(1) request_okD(1)[OF assms(2)] known_names(3)] by blast
  show ?thesis
  proof (rule try_parse_safe[OF safe_gen_id[of kad_id_len "rq_pkt rq"]])
    assume "try_parse (get_gen_id kad_id_len (rq_pkt rq)) = Inr None"
    then show ?thesis using True handler_okI[OF assms(1)] by (simp add: handle_findnode_request_def Let_def)
  next
    fix v assume v: "case v of (a, rest) \<Rightarrow> length a = kad_id_len" "try_parse (get_gen_id kad_id_len (rq_pkt rq)) = Inr (Some v)"
    obtain addrs where
      "get_nclosest_addr (fst v) (nb_replication (profile_kbucket (kp_profile st))) (rq_filter rq) (kp_kbucket st) = Inr addrs"
      using nclosest_ok[OF assms, of "fst v"] v(1) by fastforce
    then show ?thesis
      using True h v(2) handler_okI[OF assms(1)] by (simp add: handle_findnode_request_def Let_def split_beta)
  qed
qed (use handler_okI[OF assms(1)] in \<open>simp add: handle_findnode_request_def Let_def\<close>)

lemma db_wire_upd:
  assumes "db_wire db" "payload_ok (kr_payload r)" "recid_db db' = (recid_db db)(k \<mapsto> db_entry c r db) \<or> recid_db db' = recid_db db"
  shows "db_wire db'"
  using assms by (auto simp: db_wire_def db_entry_def split: if_splits)

lemma store_loop_ok:
  assumes "db_inv db" "db_wire db" "\<forall>r\<in>set rs. kad_rec_ok r"
  shows "\<exists>b db'. store_loop c rs db = Inr (b, db') \<and> db_inv db' \<and> same_db db db' \<and> db_wire db'"
  using assms
proof (induction rs arbitrary: db)
  case (Cons r rs)
  show ?case
  proof (cases "may_accept r db")
    case False
    then show ?thesis using Cons.prems by auto
  next
    case True
    have r: "rec_ids_ok r" "payload_ok (kr_payload r)" using Cons.prems(3) by (simp_all add: kad_rec_ok_def)
    obtain db1 where db1: "db_update c r db = Inr db1" "db_inv db1" "same_db db db1"
      "recid_db db1 = (recid_db db)(kr_recid r \<mapsto> db_entry c r db) \<or> recid_db db1 = recid_db db"
      using db_update_ok[OF Cons.prems(1) r(1) True, of c] by (auto split: option.splits if_splits)
    have "db_wire db1" using db_wire_upd[OF Cons.prems(2) r(2) db1(4)] .
    from Cons.IH[OF db1(2) this] Cons.prems(3) db1(1,3) True show ?thesis by (auto dest: same_db_trans)
  qed
qed auto

lemma db_wire_remove: "db_wire db \<Longrightarrow> recid_db db' = (recid_db db)(p := None) \<Longrightarrow> db_wire db'"
  by (simp add: db_wire_def)

lemma peer_inv_db:
  assumes "peer_inv st" "db_inv db" "db_wire db" "same_db (kp_remote_db st) db"
  shows "peer_inv (st\<lparr>kp_remote_db := db\<rparr>)" "same_peer st (st\<lparr>kp_remote_db := db\<rparr>)"
  using assms by (simp_all add: peer_inv_def same_peer_def same_db_def)

lemma handle_delete_ok:
  assumes "peer_inv st" "request_ok rq"
  shows "handler_ok st (handle_delete_request hmac rq st)"
proof (cases "delete_rpc_ok (kp_rpc st)")
  case True
  let ?read = "res_bind (get_gen_id kad_id_len (rq_pkt rq)) (\<lambda>(recid, pkt).
          res_bind (get_if (cookie_delete_ok (kp_rpc st)) (get_gen_id cookie_id_len) (gen_id_ctor cookie_id_len) pkt) (\<lambda>(cookie_id, pkt).
            Inr (recid, cookie_id)))"
  have "net_safe (\<lambda>_. True) ?read"
    by (rule net_safe_bind[OF safe_gen_id], clarsimp, rule net_safe_bind[OF safe_get_if_gen_id], clarsimp)
  then show ?thesis
  proof (rule try_parse_safe)
    fix v assume v: "try_parse ?read = Inr (Some v)"
    obtain db where db: "db_remove (fst v) (kp_remote_db st) = Inr db" "db_inv db"
      "recid_db db = (recid_db (kp_remote_db st))(fst v := None)" "same_db (kp_remote_db st) db"
      using db_remove_ok[OF peer_invD(2)[OF assms(1)]] by blast
    let ?st = "st\<lparr>kp_stat := (kp_stat st)\<lparr>nb_delete_recv := nb_delete_recv (kp_stat st) + 1\<rparr>\<rparr>"
    let ?st' = "?st\<lparr>kp_remote_db := db\<rparr>"
    have inv: "peer_inv ?st'" using peer_inv_db(1)[of ?st db] assms(1) db(2,4) db_wire_remove[OF peer_invD(4)[OF assms(1)] db(3)] by simp
    obtain h where "server_rep_header ''DELETE_REPLY'' rq ?st' = Inr h"
      using server_rep_header_ok[OF inv request_okD(1)[OF assms(2)] known_names(6)] by blast
    then show ?thesis
      using True v db(1) inv handler_okI[OF assms(1)]
      by (auto simp: handle_delete_request_def Let_def split_beta handler_ok_def same_peer_def)
  qed (use True handler_okI[OF assms(1)] in \<open>simp add: handle_delete_request_def Let_def\<close>)
qed (use handler_okI[OF assms(1)] in \<open>simp add: handle_delete_request_def Let_def\<close>)

lemma wire_dups_recs: "wire_dups d \<Longrightarrow> v \<in> set (recval_db d) \<Longrightarrow> kad_rec_ok (rec_of_recval (rd_keyid d) v)"
  by (simp add: wire_dups_def recdups_inv_def kad_rec_ok_def rec_of_recval_def)

lemma handle_store_ok:
  assumes "peer_inv st" "request_ok rq"
  shows "handler_ok st (handle_store_request hmac c rq st)"
proof (cases "store_rpc_ok (kp_rpc st)")
  case True
  let ?read = "res_bind (get_kad_recdups (rq_pkt rq)) (\<lambda>(d, pkt).
          res_bind (get_if (cookie_store_ok (kp_rpc st)) (get_gen_id cookie_id_len) (gen_id_ctor cookie_id_len) pkt) (\<lambda>(cookie_id, pkt).
            Inr (d, cookie_id)))"
  have safe: "net_safe (\<lambda>(d, cookie_id). wire_dups d) ?read"
    by (rule net_safe_bind[OF safe_recdups], clarsimp, rule net_safe_bind[OF safe_get_if_gen_id], clarsimp)
  then show ?thesis
  proof (rule try_parse_safe)
    fix v assume v: "?read = Inr v" "try_parse ?read = Inr (Some v)"
    then have "wire_dups (fst v)" using safe by (simp add: split_beta)
    then obtain b db where db: "store_loop c (map (rec_of_recval (rd_keyid (fst v))) (recval_db (fst v))) (kp_remote_db st) = Inr (b, db)"
      "db_inv db" "db_wire db" "same_db (kp_remote_db st) db"
      using store_loop_ok[OF peer_invD(2,4)[OF assms(1)], of "map (rec_of_recval (rd_keyid (fst v))) (recval_db (fst v))" c]
        wire_dups_recs by auto
    let ?st = "st\<lparr>kp_stat := (kp_stat st)\<lparr>nb_store_recv := nb_store_recv (kp_stat st) + 1\<rparr>\<rparr>"
    let ?st' = "?st\<lparr>kp_remote_db := db\<rparr>"
    have inv: "peer_inv ?st'" using peer_inv_db(1)[of ?st db] assms(1) db(2,3,4) by simp
    obtain h where "server_rep_header ''STORE_REPLY'' rq ?st' = Inr h"
      using server_rep_header_ok[OF inv request_okD(1)[OF assms(2)] known_names(2)] by blast
    then show ?thesis
      using True v(2) db(1) inv handler_okI[OF assms(1)]
      by (auto simp: handle_store_request_def Let_def split_beta handler_ok_def same_peer_def)
  qed (use True handler_okI[OF assms(1)] in \<open>simp add: handle_store_request_def Let_def\<close>)
qed (use handler_okI[OF assms(1)] in \<open>simp add: handle_store_request_def Let_def\<close>)

text \<open>What the replies with records hold: a random or sorted choice of at most so many records.\<close>

definition draws_ok :: "(nat \<Rightarrow> nat \<Rightarrow> nat \<times> nat) \<Rightarrow> bool" where
  "draws_ok rand \<longleftrightarrow> (\<forall>n i. 0 < n \<longrightarrow> fst (rand n i) < n \<and> snd (rand n i) < n)"

lemma mset_swap_nth:
  assumes "i < length vs" "j < length vs"
  shows "mset (vs[i := vs ! j, j := vs ! i]) = mset vs"
  using mset_swap[OF assms(2,1)] by simp

lemma randomize_loop_ok:
  assumes "\<forall>(i, j)\<in>set draws. i < length vs \<and> j < length vs"
  shows "\<exists>ws. randomize_loop draws vs = Inr ws \<and> mset ws = mset vs"
  using assms
proof (induction draws vs rule: randomize_loop.induct)
  case (2 i j draws vs)
  then have ij: "i < length vs" "j < length vs" by auto
  obtain ws where "randomize_loop draws (vs[i := vs ! j, j := vs ! i]) = Inr ws" "mset ws = mset (vs[i := vs ! j, j := vs ! i])"
    using 2 by auto
  then show ?case using ij mset_swap_nth[OF ij] by simp
qed simp

lemma randomize_order_ok:
  assumes "draws_ok rand"
  shows "\<exists>ws. randomize_order (rand (length (recval_db d))) d = Inr (d\<lparr>recval_db := ws\<rparr>) \<and> mset ws = mset (recval_db d)"
proof -
  have "\<exists>ws. randomize_loop (map (rand (length (recval_db d))) [0..<length (recval_db d)]) (recval_db d) = Inr ws \<and>
      mset ws = mset (recval_db d)"
  proof (rule randomize_loop_ok)
    let ?n = "length (recval_db d)"
    have "fst p < ?n \<and> snd p < ?n" if p: "p \<in> set (map (rand ?n) [0..<?n])" for p
    proof -
      obtain i where "p = rand ?n i" "i < ?n" using p by auto
      then have "0 < ?n" by linarith
      then show ?thesis using assms \<open>p = rand ?n i\<close> by (simp add: draws_ok_def)
    qed
    then show "\<forall>(i, j)\<in>set (map (rand ?n) [0..<?n]). i < ?n \<and> j < ?n" by (intro ballI) (simp only: case_prod_beta)
  qed
  then show ?thesis by (auto simp: randomize_order_def)
qed

lemma nb_fit_ok:
  assumes "m = 0 \<or> get_serial_hd_main \<le> m"
  shows "\<exists>n. nb_serialized_rec_in_size m d = Inr n \<and> n \<le> length (recval_db d)"
  using count_rec_in_size_spec(2)[of m get_serial_hd_main "recval_db d"] assms by (auto simp: nb_serialized_rec_in_size_def)

lemma clamp_le: "clamp_nb_rec n r \<le> n"
  by (simp add: clamp_nb_rec_def)

lemma truncate_ok:
  "truncate_at_tail (length (recval_db d) - n) d = Inr (d\<lparr>recval_db := take n (recval_db d)\<rparr>)"
  by (cases "n \<le> length (recval_db d)") (simp_all add: truncate_at_tail_def pop_back_n_spec)

text \<open>The records that are sent: the first of a rearrangement.\<close>

definition sent_of :: "kad_recdups_t \<Rightarrow> kad_recdups_t \<Rightarrow> bool" where
  "sent_of d e \<longleftrightarrow> rd_keyid e = rd_keyid d \<and> (\<exists>n ws. recval_db e = take n ws \<and> mset ws = mset (recval_db d))"

lemma handle_findsomeval_ok:
  assumes "peer_inv st" "request_ok rq" "draws_ok rand"
  shows "handler_ok st (handle_findsomeval_request hmac rand rq st)"
proof (cases "findsomeval_rpc_ok (kp_rpc st)")
  case True
  let ?read = "res_bind (get_gen_id kad_id_len (rq_pkt rq)) (\<lambda>(keyid, pkt).
          res_bind (get_uint32 pkt) (\<lambda>(requested_nb_rec, pkt). Inr (keyid, requested_nb_rec)))"
  have safe: "net_safe (\<lambda>(key, n). length key = kad_id_len) ?read"
    by (rule net_safe_bind[OF safe_gen_id], clarsimp, rule net_safe_bind[OF safe_uint(3)], clarsimp)
  then show ?thesis
  proof (rule try_parse_safe)
    fix v assume v: "?read = Inr v" "try_parse ?read = Inr (Some v)"
    then have key: "length (fst v) = kad_id_len" using safe by (simp add: split_beta)
    obtain h where h: "server_rep_header ''FINDSOMEVAL_REPLY'' rq st = Inr h"
      using server_rep_header_ok[OF assms(1) request_okD(1)[OF assms(2)] known_names(4)] by blast
    obtain d where d: "find_by_keyid (fst v) (gen_id_ctor kad_id_len) (kp_remote_db st) = Inr d"
      using find_by_keyid_ok[OF peer_invD(3)[OF assms(1)] key, of "gen_id_ctor kad_id_len"] by (auto simp: gen_id_ctor_def)
    show ?thesis
    proof (cases "recval_db d = []")
      case True
      obtain addrs where
        "get_nclosest_addr (fst v) (nb_replication (profile_kbucket (kp_profile st))) (rq_filter rq) (kp_kbucket st) = Inr addrs"
        using nclosest_ok[OF assms(1,2) key] by blast
      then show ?thesis
        using True \<open>findsomeval_rpc_ok (kp_rpc st)\<close> v(2) h d handler_okI[OF assms(1)]
        by (simp add: handle_findsomeval_request_def Let_def split_beta)
    next
      case False
      obtain ws where ws: "randomize_order (rand (length (recval_db d))) d = Inr (d\<lparr>recval_db := ws\<rparr>)"
        using randomize_order_ok[OF assms(3)] by blast
      obtain n where "nb_serialized_rec_in_size (replypkt_maxlen (kp_rpc st)) (d\<lparr>recval_db := ws\<rparr>) = Inr n"
        using nb_fit_ok[OF peer_invD(11)[OF assms(1)]] by blast
      then show ?thesis
        using False \<open>findsomeval_rpc_ok (kp_rpc st)\<close> v(2) h d ws handler_okI[OF assms(1)]
          truncate_ok[of "d\<lparr>recval_db := ws\<rparr>"]
        by (simp add: handle_findsomeval_request_def Let_def split_beta)
    qed
  qed (use True handler_okI[OF assms(1)] in \<open>simp add: handle_findsomeval_request_def Let_def\<close>)
qed (use handler_okI[OF assms(1)] in \<open>simp add: handle_findsomeval_request_def Let_def\<close>)

lemma find_or_next_ok:
  assumes "db_index db" "length recid_gt = kad_id_len" "length keyid = kad_id_len"
  shows "\<exists>d. res_bind (find_by_keyid keyid recid_gt db) (\<lambda>d. if recval_db d = [] \<and> keyid_ge \<noteq> 0
      then res_bind (get_next_keyid keyid db) (\<lambda>keyid. find_by_keyid keyid (gen_id_ctor kad_id_len) db) else Inr d) = Inr d"
proof -
  obtain d where d: "find_by_keyid keyid recid_gt db = Inr d" using find_by_keyid_ok[OF assms(1,3,2)] by blast
  obtain k where k: "get_next_keyid keyid db = Inr k" "length k = kad_id_len"
  proof -
    obtain k where k: "get_next_keyid keyid db = Inr k"
      "(\<exists>p x. recid_db db p = Some x \<and> kr_keyid (dr_rec x) = k) \<or> k = gen_id_ctor kad_id_len"
      using get_next_keyid_ok[OF assms(1,3)] by (auto split: if_splits)
    then show thesis using that db_indexD(7)[OF assms(1)] by (auto simp: gen_id_ctor_def)
  qed
  obtain e where "find_by_keyid k (gen_id_ctor kad_id_len) db = Inr e"
    using find_by_keyid_ok[OF assms(1) k(2), of "gen_id_ctor kad_id_len"] by (auto simp: gen_id_ctor_def)
  then show ?thesis using d k(1) by simp
qed

lemma handle_findallval_ok:
  assumes "peer_inv st" "request_ok rq"
  shows "handler_ok st (handle_findallval_request rq st)"
proof (cases "findallval_rpc_ok (kp_rpc st)")
  case True
  let ?read = "res_bind (get_gen_id kad_id_len (rq_pkt rq)) (\<lambda>(recid_gt, pkt).
          res_bind (get_gen_id kad_id_len pkt) (\<lambda>(keyid, pkt).
          res_bind (get_uint8 pkt) (\<lambda>(keyid_ge, pkt).
          res_bind (get_uint32 pkt) (\<lambda>(requested_nb_rec, pkt). Inr (recid_gt, keyid, keyid_ge, requested_nb_rec)))))"
  have safe: "net_safe (\<lambda>(recid_gt, key, b, n). length recid_gt = kad_id_len \<and> length key = kad_id_len) ?read"
    by (rule net_safe_bind[OF safe_gen_id], clarsimp, rule net_safe_bind[OF safe_gen_id], clarsimp,
        rule net_safe_bind[OF safe_uint(1)], clarsimp, rule net_safe_bind[OF safe_uint(3)], clarsimp)
  then show ?thesis
  proof (rule try_parse_safe)
    fix v assume v: "?read = Inr v" "try_parse ?read = Inr (Some v)"
    obtain recid_gt key b n where [simp]: "v = (recid_gt, key, b, n)" by (cases v)
    have len: "length recid_gt = kad_id_len" "length key = kad_id_len" using v(1) safe by simp_all
    obtain h where h: "server_rep_header ''FINDALLVAL_REPLY'' rq st = Inr h"
      using server_rep_header_ok[OF assms(1) request_okD(1)[OF assms(2)] known_names(5)] by blast
    obtain d where d: "res_bind (find_by_keyid key recid_gt (kp_remote_db st)) (\<lambda>d. if recval_db d = [] \<and> b \<noteq> 0
      then res_bind (get_next_keyid key (kp_remote_db st)) (\<lambda>keyid. find_by_keyid keyid (gen_id_ctor kad_id_len) (kp_remote_db st))
      else Inr d) = Inr d"
      using find_or_next_ok[OF peer_invD(3)[OF assms(1)] len] by blast
    obtain m where m: "nb_serialized_rec_in_size (replypkt_maxlen (kp_rpc st)) (sort_by_recid d) = Inr m"
      using nb_fit_ok[OF peer_invD(11)[OF assms(1)]] by blast
    obtain d1 where d1: "find_by_keyid key recid_gt (kp_remote_db st) = Inr d1"
      "(if recval_db d1 = [] \<and> b \<noteq> 0
      then res_bind (get_next_keyid key (kp_remote_db st)) (\<lambda>keyid. find_by_keyid keyid (gen_id_ctor kad_id_len) (kp_remote_db st))
      else Inr d1) = Inr d" using d by (auto simp: res_bind_eq_Inr_iff)
    show ?thesis
      using True v(2) h d1 m handler_okI[OF assms(1)] truncate_ok[of "sort_by_recid d"]
      by (simp add: handle_findallval_request_def Let_def cong: if_cong)
  qed (use True handler_okI[OF assms(1)] in \<open>simp add: handle_findallval_request_def Let_def\<close>)
qed (use handler_okI[OF assms(1)] in \<open>simp add: handle_findallval_request_def Let_def\<close>)

end
