(* ===== verification/KadRpcRun.thy ===== *)
theory KadRpcRun
  imports KadRpcSafe
begin

text \<open>
  Packets as a whole and the histories of a peer: no packet but the ones of \<open>pkt_harmful\<close> and \<open>reply_harmful\<close> makes an
  assertion fail, and every history of packets, timers and user actions keeps the invariant of the peer.
\<close>

subsection \<open>Packets\<close>

lemma choose_filter_ok:
  shows "\<exists>f. choose_filter remote = Inr f \<and> (\<forall>a. \<exists>b. f a = Inr b)"
proof -
  have cls: "\<exists>b. is_private a = Inr b" "\<exists>b. is_linklocal a = Inr b" "\<exists>b. is_localhost a = Inr b" for a
  proof -
    have "is_private Ip_null = Inr False" "is_linklocal Ip_null = Inr False" "is_localhost Ip_null = Inr False"
      by (simp_all only: is_private_def is_linklocal_def is_localhost_def ip_is_null_def simp_thms if_True)
    then show "\<exists>b. is_private a = Inr b" "\<exists>b. is_linklocal a = Inr b" "\<exists>b. is_localhost a = Inr b"
      by (cases a; simp only: ip_class_v4; blast)+
  qed
  obtain p v l h where *: "is_public (m_ipaddr remote) = Inr p" "is_private (m_ipaddr remote) = Inr v"
    "is_linklocal (m_ipaddr remote) = Inr l" "is_localhost (m_ipaddr remote) = Inr h"
    using is_public_ok cls by blast
  have "\<exists>b. filter_fct_dstpublic a = Inr b" "\<exists>b. filter_fct_dstprivate a = Inr b" "\<exists>b. filter_fct_dstlinklocal a = Inr b"
    "\<exists>b. filter_fct_dstlocalhost a = Inr b" for a
    using is_public_ok[of "m_ipaddr (m_oaddr a)"] cls[of "m_ipaddr (m_oaddr a)"]
    by (auto simp: filter_fct_dstpublic_def filter_fct_dstprivate_def filter_fct_dstlinklocal_def filter_fct_dstlocalhost_def)
  then show ?thesis using * by (auto simp: choose_filter_def Let_def)
qed

lemma request_ranks:
  "kad_type_rank ''PING_REQUEST'' = 0" "kad_type_rank ''STORE_REQUEST'' = 2" "kad_type_rank ''FINDNODE_REQUEST'' = 4"
  "kad_type_rank ''FINDSOMEVAL_REQUEST'' = 6" "kad_type_rank ''FINDALLVAL_REQUEST'' = 8" "kad_type_rank ''DELETE_REQUEST'' = 10"
  using kad_type_rank_requests by (simp_all add: request_names_def)

lemma dispatch_request_eq:
  fixes rq :: request_t
  assumes "peer_inv st"
  defines "t \<equiv> rq_pkttype rq" and "off \<equiv> pt_offset (kp_pkttype st)"
  shows "dispatch_request hmac c rand rq st =
    (if t = off then handle_ping_request rq st
     else if t = 2 + off then handle_store_request hmac c rq st
     else if t = 4 + off then handle_findnode_request hmac rq st
     else if t = 6 + off then handle_findsomeval_request hmac rand rq st
     else if t = 8 + off then handle_findallval_request rq st
     else if t = 10 + off then handle_delete_request hmac rq st else Inl Assert_failed)"
proof -
  note types = kad_pkttype_ok[OF peer_invD(9)[OF assms(1)] known_names(7)] kad_pkttype_ok[OF peer_invD(9)[OF assms(1)] known_names(8)]
    kad_pkttype_ok[OF peer_invD(9)[OF assms(1)] known_names(9)] kad_pkttype_ok[OF peer_invD(9)[OF assms(1)] known_names(10)]
    kad_pkttype_ok[OF peer_invD(9)[OF assms(1)] known_names(11)] kad_pkttype_ok[OF peer_invD(9)[OF assms(1)] known_names(12)]
  show ?thesis by (simp add: dispatch_request_def types request_ranks res_if_def t_def off_def)
qed

lemma dispatch_request_ok:
  assumes "peer_inv st" "request_ok rq" "draws_ok rand"
  shows "if is_request_type (kp_pkttype st) (rq_pkttype rq) then handler_ok st (dispatch_request hmac c rand rq st)
    else dispatch_request hmac c rand rq st = Inl Assert_failed"
  using handle_ping_ok[OF assms(1,2)] handle_store_ok[OF assms(1,2)] handle_findnode_ok[OF assms(1,2)]
    handle_findsomeval_ok[OF assms] handle_findallval_ok[OF assms(1,2)] handle_delete_ok[OF assms(1,2)]
  by (auto simp: is_request_type_def dispatch_request_eq[OF assms(1)])

text \<open>The packets that make an assertion of a peer fail: a type number out of the range of the profile, or a header that
  the parser accepts with a source address that cannot be one or with a type that is not one of a request.\<close>

definition pkt_harmful :: "kad_peer_t \<Rightarrow> bytes \<Rightarrow> bool" where
  "pkt_harmful st pkt \<longleftrightarrow> type_harmful (kp_pkttype st) pkt \<or>
     (case parse_req_header st pkt of
        Inr (Some (t, src, nonce, rest)) \<Rightarrow> src_harmful src \<or> \<not> is_request_type (kp_pkttype st) t
      | _ \<Rightarrow> False)"

lemma parse_req_header_same:
  assumes "same_peer st st'"
  shows "parse_req_header st' pkt = parse_req_header st pkt"
proof -
  have "read_req_header st' pkt = read_req_header st pkt" using assms by (simp add: read_req_header_def same_peer_def)
  moreover have "kp_profile st' = kp_profile st" "kp_realm_id st' = kp_realm_id st" "kp_local_peerid st' = kp_local_peerid st"
    using assms by (simp_all add: same_peer_def)
  ultimately show ?thesis unfolding parse_req_header_def by (simp only:)
qed

lemma pkt_harmful_same:
  assumes "same_peer st st'"
  shows "pkt_harmful st' pkt = pkt_harmful st pkt"
proof -
  have eq: "kp_profile st' = kp_profile st" using assms by (simp add: same_peer_def)
  show ?thesis unfolding pkt_harmful_def parse_req_header_same[OF assms] eq ..
qed

lemma handle_request_pkt_ok:
  assumes "peer_inv st" "ipport_is_fully_qualified remote = Inr True" "draws_ok rand"
  shows "if pkt_harmful st pkt then handle_request_pkt hmac c rand started pkt local remote st = Inl Assert_failed
    else \<exists>reply rs st'. handle_request_pkt hmac c rand started pkt local remote st = Inr (reply, rs, st') \<and>
      peer_inv st' \<and> same_peer st st' \<and> kp_cookie_db st' = kp_cookie_db st"
proof -
  let ?st = "st\<lparr>kp_stat := (kp_stat st)\<lparr>nb_byte_recv := nb_byte_recv (kp_stat st) + word_of_nat (length pkt)\<rparr>\<rparr>"
  have inv: "peer_inv ?st" using assms(1) by simp
  have same: "parse_req_header ?st pkt = parse_req_header st pkt" by (rule parse_req_header_same) simp
  show ?thesis
  proof (cases "type_harmful (kp_pkttype st) pkt")
    case True
    then have "read_req_header ?st pkt = Inl Assert_failed"
      using read_req_header_spec[of ?st pkt] peer_invD(9)[OF assms(1)] by simp
    then show ?thesis using True by (simp add: pkt_harmful_def handle_request_pkt_def Let_def parse_req_header_def)
  next
    case nt: False
    from parse_req_header_ok[OF peer_invD(9)[OF assms(1)] nt] show ?thesis
    proof (elim disjE exE conjE)
      assume "parse_req_header st pkt = Inr None"
      then show ?thesis using nt inv same by (simp add: pkt_harmful_def handle_request_pkt_def Let_def)
    next
      fix t src nonce rest
      assume p: "parse_req_header st pkt = Inr (Some (t, src, nonce, rest))" and src: "length (m_peerid src) = kad_id_len"
      note S = srckaddr_parse_ok[OF inv assms(2) src, of started]
      show ?thesis
      proof (cases "src_harmful src")
        case True
        then show ?thesis using p S same by (simp add: pkt_harmful_def handle_request_pkt_def Let_def)
      next
        case ns: False
        then obtain rs st1 where st1: "srckaddr_parse started src remote ?st = Inr (rs, st1)" "peer_inv st1" "same_peer ?st st1"
          "kp_cookie_db st1 = kp_cookie_db st" using S by auto
        obtain f where f: "choose_filter remote = Inr f" "\<forall>a. \<exists>b. f a = Inr b" using choose_filter_ok by blast
        let ?rq = "\<lparr>rq_pkttype = t, rq_pkt = rest, rq_nonce = nonce, rq_local_oaddr = local, rq_remote_oaddr = remote, rq_filter = f\<rparr>"
        have rq: "request_ok ?rq" using f(2) assms(2) by (simp add: request_ok_def)
        note D = dispatch_request_ok[OF st1(2) rq assms(3), of hmac c]
        have ty: "kp_pkttype st1 = kp_pkttype st" using st1(3) by (simp add: same_peer_def)
        show ?thesis
        proof (cases "is_request_type (kp_pkttype st) t")
          case False
          then show ?thesis using p ns nt same st1(1) f(1) D ty by (simp add: pkt_harmful_def handle_request_pkt_def Let_def)
        next
          case True
          then obtain reply st2 where "dispatch_request hmac c rand ?rq st1 = Inr (reply, st2)" "peer_inv st2" "same_peer st1 st2"
            "kp_cookie_db st2 = kp_cookie_db st1"
            using D ty by (auto simp: handler_ok_def)
          then show ?thesis
            using p ns nt same st1 f(1) True same_peer_trans[OF st1(3)]
            by (auto simp: pkt_harmful_def handle_request_pkt_def Let_def same_peer_def)
        qed
      qed
    qed
  qed
qed

subsection \<open>Replies\<close>

datatype kad_rpc_kind = Rpc_ping | Rpc_store | Rpc_findnode | Rpc_findsomeval | Rpc_findallval | Rpc_delete

definition rpc_reply_cb :: "kad_rpc_kind \<Rightarrow> kad_rpc_profile_t \<Rightarrow> kad_addr_t \<Rightarrow> bytes \<Rightarrow> kad_rpc_event option res" where
  "rpc_reply_cb kind profile remote_addr = (case kind of
     Rpc_ping \<Rightarrow> ping_reply_cb remote_addr | Rpc_store \<Rightarrow> store_reply_cb | Rpc_findnode \<Rightarrow> findnode_reply_cb profile
   | Rpc_findsomeval \<Rightarrow> findsomeval_reply_cb profile | Rpc_findallval \<Rightarrow> findallval_reply_cb | Rpc_delete \<Rightarrow> delete_reply_cb)"

lemma safe_addr_items: "net_safe (\<lambda>(as, rest). \<forall>a\<in>set as. length (m_peerid a) = kad_id_len) (get_items get_kad_addr n bs)"
proof (induction n arbitrary: bs)
  case (Suc n)
  show ?case
    unfolding get_items.simps
    by (rule net_safe_bind[OF safe_kad_addr], clarsimp, rule net_safe_bind[OF Suc.IH], clarsimp)
qed simp

lemma safe_addr_arr: "net_safe (\<lambda>(as, rest). \<forall>a\<in>set as. length (m_peerid a) = kad_id_len) (get_kad_addr_arr bs)"
  unfolding get_kad_addr_arr_def get_item_arr_def
  by (rule net_safe_bind[OF safe_uint(3)], clarsimp) (rule safe_addr_items)

lemma try_parse_total: "net_safe P r \<Longrightarrow> \<exists>x. try_parse r = Inr x"
  by (erule try_parse_safe) auto

lemma notify_echoed_ok: "\<exists>told. notify_echoed_local_ipaddr a remote_addr = Inr told"
  using is_public_ok[of "m_ipaddr (m_oaddr remote_addr)"] is_public_ok[of a] by (auto simp: notify_echoed_local_ipaddr_def)

lemma rpc_reply_cb_ok: "\<exists>event. rpc_reply_cb kind profile remote_addr pkt = Inr event"
proof (cases kind)
  case Rpc_ping
  have told: "net_safe (\<lambda>_. True) (res_bind (notify_echoed_local_ipaddr a remote_addr) (\<lambda>told. Inr (Rpc_echoed a told)))" for a
    using notify_echoed_ok[of a remote_addr] by auto
  have "net_safe (\<lambda>_. True) (res_bind (get_ip_addr pkt) (\<lambda>(a, pkt).
      res_bind (notify_echoed_local_ipaddr a remote_addr) (\<lambda>told. Inr (Rpc_echoed a told))))"
    by (rule net_safe_bind[OF safe_ip_addr], clarsimp simp: told)
  then show ?thesis using try_parse_total by (fastforce simp: rpc_reply_cb_def Rpc_ping ping_reply_cb_def)
next
  case Rpc_findnode
  have "net_safe (\<lambda>_. True) (res_bind (get_kad_addr_arr pkt) (\<lambda>(addrs, pkt).
       res_bind (get_if (cookie_in_reply_ok profile) (get_gen_id cookie_id_len) (gen_id_ctor cookie_id_len) pkt) (\<lambda>(cookie_id, pkt).
         Inr (Rpc_addr_arr addrs cookie_id))))"
    by (rule net_safe_bind[OF safe_addr_arr], clarsimp, rule net_safe_bind[OF safe_get_if_gen_id], clarsimp)
  then show ?thesis using try_parse_total by (fastforce simp: rpc_reply_cb_def Rpc_findnode findnode_reply_cb_def)
next
  case Rpc_findsomeval
  have "net_safe (\<lambda>_. True) (res_bind (get_uint8 pkt) (\<lambda>(record_found, pkt).
       if record_found \<noteq> 0 then
         res_bind (get_uint8 pkt) (\<lambda>(has_more_record, pkt).
         res_bind (get_kad_recdups pkt) (\<lambda>(d, pkt). Inr (Rpc_recdups d (has_more_record \<noteq> 0))))
       else
         res_bind (get_kad_addr_arr pkt) (\<lambda>(addrs, pkt).
         res_bind (get_if (cookie_in_reply_ok profile) (get_gen_id cookie_id_len) (gen_id_ctor cookie_id_len) pkt) (\<lambda>(cookie_id, pkt).
           Inr (Rpc_addr_arr addrs cookie_id)))))"
    by (rule net_safe_bind[OF safe_uint(1)], clarsimp, intro conjI impI,
        rule net_safe_bind[OF safe_uint(1)], clarsimp, rule net_safe_bind[OF safe_recdups], clarsimp,
        rule net_safe_bind[OF safe_addr_arr], clarsimp, rule net_safe_bind[OF safe_get_if_gen_id], clarsimp)
  then show ?thesis using try_parse_total unfolding rpc_reply_cb_def Rpc_findsomeval findsomeval_reply_cb_def by simp blast
next
  case Rpc_findallval
  have "net_safe (\<lambda>_. True) (res_bind (get_uint8 pkt) (\<lambda>(has_more_record, pkt).
       res_bind (get_kad_recdups pkt) (\<lambda>(d, pkt). Inr (Rpc_recdups d (has_more_record \<noteq> 0)))))"
    by (rule net_safe_bind[OF safe_uint(1)], clarsimp, rule net_safe_bind[OF safe_recdups], clarsimp)
  then show ?thesis using try_parse_total by (fastforce simp: rpc_reply_cb_def Rpc_findallval findallval_reply_cb_def)
qed (simp_all add: rpc_reply_cb_def store_reply_cb_def delete_reply_cb_def)

text \<open>A reply is looked at only when it answers the call: with its nonce, and its type.\<close>

definition reply_harmful :: "kad_peer_t \<Rightarrow> kad_client_rpc_t \<Rightarrow> bytes \<Rightarrow> bool" where
  "reply_harmful st cr pkt \<longleftrightarrow> type_harmful (kp_pkttype st) pkt \<or>
     (case parse_rep_header st pkt of
        Inr (Some (t, src, nonce, rest)) \<Rightarrow>
          (req_nonce_in_pkt_ok (kp_rpc st) \<longrightarrow> gen_id_compare nonce (cr_request_nonce cr) = 0) \<and> t = cr_reply_pkttype cr \<and> src_harmful src
      | _ \<Rightarrow> False)"

lemma parse_rep_header_ok:
  assumes "\<not> pkttype_profile_is_null (kp_pkttype st)" "\<not> type_harmful (kp_pkttype st) pkt"
  shows "parse_rep_header st pkt = Inr None \<or>
    (\<exists>t src nonce rest. parse_rep_header st pkt = Inr (Some (t, src, nonce, rest)) \<and> length (m_peerid src) = kad_id_len)"
proof -
  have safe: "net_safe (\<lambda>((t, realm, src, nonce), rest). length (m_peerid src) = kad_id_len) (read_rep_header st pkt)"
    using read_rep_header_spec[OF assms(1), of pkt] assms(2) by simp
  then show ?thesis
  proof (rule try_parse_safe)
    fix v assume v: "read_rep_header st pkt = Inr v" and p: "try_parse (read_rep_header st pkt) = Inr (Some v)"
    obtain t realm src nonce rest where [simp]: "v = ((t, realm, src, nonce), rest)" by (metis prod.exhaust)
    have "parse_rep_header st pkt = Inr None \<or> parse_rep_header st pkt = Inr (Some (t, src, nonce, rest))"
      using p by (simp add: parse_rep_header_def)
    then show ?thesis using v safe by auto
  qed (simp add: parse_rep_header_def)
qed

lemma client_handle_reply_ok:
  assumes "peer_inv st" "ipport_is_fully_qualified remote = Inr True" "\<And>pkt. \<exists>event. cb pkt = Inr event"
  shows "if reply_harmful st cr pkt then client_handle_reply cb started pkt remote cr st = Inl Assert_failed
    else \<exists>event rs st'. client_handle_reply cb started pkt remote cr st = Inr (event, rs, st') \<and>
      peer_inv st' \<and> same_peer st st' \<and> kp_cookie_db st' = kp_cookie_db st"
proof (cases "type_harmful (kp_pkttype st) pkt")
  case True
  then have "read_rep_header st pkt = Inl Assert_failed" using read_rep_header_spec[of st pkt] peer_invD(9)[OF assms(1)] by simp
  then show ?thesis using True by (simp add: reply_harmful_def client_handle_reply_def parse_rep_header_def)
next
  case nt: False
  from parse_rep_header_ok[OF peer_invD(9)[OF assms(1)] nt] show ?thesis
  proof (elim disjE exE conjE)
    assume "parse_rep_header st pkt = Inr None"
    then show ?thesis using nt assms(1) by (simp add: reply_harmful_def client_handle_reply_def)
  next
    fix t src nonce rest
    assume p: "parse_rep_header st pkt = Inr (Some (t, src, nonce, rest))" and src: "length (m_peerid src) = kad_id_len"
    note S = srckaddr_parse_ok[OF assms(1,2) src, of started]
    show ?thesis
    proof (cases "(req_nonce_in_pkt_ok (kp_rpc st) \<longrightarrow> gen_id_compare nonce (cr_request_nonce cr) = 0) \<and> t = cr_reply_pkttype cr")
      case False
      then show ?thesis using p nt assms(1) by (auto simp: reply_harmful_def client_handle_reply_def)
    next
      case True
      then show ?thesis using p nt S assms(3)[of rest] by (auto simp: reply_harmful_def client_handle_reply_def split: if_splits)
    qed
  qed
qed

lemma parse_rep_header_same:
  assumes "same_peer st st'"
  shows "parse_rep_header st' pkt = parse_rep_header st pkt"
proof -
  have "read_rep_header st' pkt = read_rep_header st pkt" using assms by (simp add: read_rep_header_def same_peer_def)
  moreover have "kp_profile st' = kp_profile st" "kp_realm_id st' = kp_realm_id st"
    using assms by (simp_all add: same_peer_def)
  ultimately show ?thesis unfolding parse_rep_header_def by (simp only:)
qed

lemma reply_harmful_same:
  assumes "same_peer st st'"
  shows "reply_harmful st' cr pkt = reply_harmful st cr pkt"
proof -
  have eq: "kp_profile st' = kp_profile st" using assms by (simp add: same_peer_def)
  show ?thesis unfolding reply_harmful_def parse_rep_header_same[OF assms] eq ..
qed

subsection \<open>Histories\<close>

text \<open>The calls that a peer starts, each to an address and with a nonce drawn at random.\<close>

datatype peer_call =
  Call_ping
| Call_store kad_recdups_t bytes
| Call_findnode bytes
| Call_findsomeval bytes nat
| Call_findallval bytes bytes bool nat
| Call_delete bytes bytes

fun peer_call_start ::
  "peer_call \<Rightarrow> kad_addr_t \<Rightarrow> bytes \<Rightarrow> kad_peer_t \<Rightarrow> (bytes \<times> kad_client_rpc_t \<times> kad_peer_t) res" where
  "peer_call_start Call_ping addr nonce st = ping_rpc_start addr nonce st"
| "peer_call_start (Call_store d cookie_id) addr nonce st = store_rpc_start d cookie_id addr nonce st"
| "peer_call_start (Call_findnode targetid) addr nonce st = findnode_rpc_start targetid addr nonce st"
| "peer_call_start (Call_findsomeval keyid n) addr nonce st = findsomeval_rpc_start keyid n addr nonce st"
| "peer_call_start (Call_findallval recid_gt keyid keyid_ge n) addr nonce st =
     findallval_rpc_start recid_gt keyid keyid_ge n addr nonce st"
| "peer_call_start (Call_delete recid cookie_id) addr nonce st = delete_rpc_start recid cookie_id addr nonce st"

lemma client_rpc_start_ok:
  assumes "peer_inv st" "ipport_is_fully_qualified (m_oaddr addr) = Inr True"
    and "name \<in> set kad_pkttype_names" "rname \<in> set kad_pkttype_names"
  shows "\<exists>pkt cr. client_rpc_start st payload name rname addr nonce = Inr (pkt, cr)"
proof -
  obtain t where "pkttype_serialize (kp_pkttype st) (kad_type_rank name + pt_offset (kp_pkttype st)) = Inr t"
    using pkttype_serialize_known[OF peer_invD(8,10)[OF assms(1)] assms(3)] by blast
  moreover obtain a where "srckaddr_build (m_oaddr addr) st = Inr a" using srckaddr_build_ok[OF assms(1,2)] by blast
  ultimately show ?thesis
    using assms(2) kad_pkttype_ok[OF peer_invD(9)[OF assms(1)]] assms(3,4)
    by (simp add: client_rpc_start_def build_req_header_def)
qed

text \<open>A call to a usable address always starts, and changes nothing but the counters.\<close>

lemma peer_call_start_ok:
  assumes "peer_inv st" "ipport_is_fully_qualified (m_oaddr addr) = Inr True"
  shows "\<exists>pkt cr s. peer_call_start call addr nonce st = Inr (pkt, cr, st\<lparr>kp_stat := s\<rparr>)"
proof -
  note ok = client_rpc_start_ok[OF assms]
  have "\<exists>r. client_rpc_start st pl n rn addr nonce = Inr r" if "n \<in> set kad_pkttype_names" "rn \<in> set kad_pkttype_names" for pl n rn
    using ok[OF that] by blast
  note ok = this
  show ?thesis
  proof (cases call)
    case Call_ping
    then show ?thesis using ok[OF known_names(11,1), of ping_request_payload] by (auto simp: ping_rpc_start_def)
  next
    case (Call_store d cookie_id)
    then show ?thesis using ok[OF known_names(7,2), of "store_request_payload (kp_rpc st) d cookie_id"] by (auto simp: store_rpc_start_def)
  next
    case (Call_findnode targetid)
    then show ?thesis using ok[OF known_names(10,3), of "findnode_request_payload targetid"] by (auto simp: findnode_rpc_start_def)
  next
    case (Call_findsomeval keyid n)
    then show ?thesis using ok[OF known_names(8,4), of "findsomeval_request_payload keyid n"] by (auto simp: findsomeval_rpc_start_def)
  next
    case (Call_findallval recid_gt keyid keyid_ge n)
    then show ?thesis
      using ok[OF known_names(9,5), of "findallval_request_payload recid_gt keyid keyid_ge n"] by (auto simp: findallval_rpc_start_def)
  next
    case (Call_delete recid cookie_id)
    then show ?thesis using ok[OF known_names(12,6), of "delete_request_payload (kp_rpc st) recid cookie_id"] by (auto simp: delete_rpc_start_def)
  qed
qed

text \<open>What happens to a peer: packets from its connections, the calls it starts, the events of the routing table, what its user
  publishes, the timers of the two databases and of the cookies.  The nodes that enter the routing table are told to the
  database of the remote records, whatever the event.\<close>

datatype peer_op =
  Peer_request bool bytes ipport_addr_t ipport_addr_t
| Peer_call peer_call kad_addr_t bytes
| Peer_reply kad_rpc_kind kad_client_rpc_t bool bytes ipport_addr_t
| Peer_kbucket kb_op
| Peer_local_db db_op
| Peer_remote_timer db_op
| Peer_cookie_rekey bytes

fun peer_exec ::
  "(bytes \<Rightarrow> bytes \<Rightarrow> bytes) \<Rightarrow> (kad_rec_t \<Rightarrow> delay_t) \<Rightarrow> (nat \<Rightarrow> nat \<Rightarrow> nat \<times> nat) \<Rightarrow> peer_op \<Rightarrow> kad_peer_t \<Rightarrow> kad_peer_t res" where
  "peer_exec hmac c rand (Peer_request started pkt local remote) st =
     res_bind (handle_request_pkt hmac c rand started pkt local remote st) (\<lambda>(reply, rs, st). Inr st)"
| "peer_exec hmac c rand (Peer_call call addr nonce) st =
     res_bind (peer_call_start call addr nonce st) (\<lambda>(pkt, cr, st). Inr st)"
| "peer_exec hmac c rand (Peer_reply kind cr started pkt remote) st =
     res_bind (client_handle_reply (rpc_reply_cb kind (kp_rpc st) (cr_remote_addr cr)) started pkt remote cr st) (\<lambda>(event, rs, st). Inr st)"
| "peer_exec hmac c rand (Peer_kbucket op) st =
     res_bind (kb_exec op (kp_kbucket st)) (\<lambda>kb.
     res_bind (notify_new_nodes (drop (length (kb_new_nodes (kp_kbucket st))) (kb_new_nodes kb)) (kp_remote_db st)) (\<lambda>rs.
       Inr (st\<lparr>kp_kbucket := kb\<rparr>)))"
| "peer_exec hmac c rand (Peer_local_db op) st =
     res_bind (db_exec c op (kp_local_db st, 0)) (\<lambda>(db, now). Inr (st\<lparr>kp_local_db := db\<rparr>))"
| "peer_exec hmac c rand (Peer_remote_timer op) st =
     res_bind (db_exec c op (kp_remote_db st, 0)) (\<lambda>(db, now). Inr (st\<lparr>kp_remote_db := db\<rparr>))"
| "peer_exec hmac c rand (Peer_cookie_rekey secret) st = Inr (st\<lparr>kp_cookie_db := cookie_rekey_cb secret (kp_cookie_db st)\<rparr>)"

fun peer_run ::
  "(bytes \<Rightarrow> bytes \<Rightarrow> bytes) \<Rightarrow> (kad_rec_t \<Rightarrow> delay_t) \<Rightarrow> (nat \<Rightarrow> nat \<Rightarrow> nat \<times> nat) \<Rightarrow> peer_op list \<Rightarrow> kad_peer_t \<Rightarrow> kad_peer_t res" where
  "peer_run hmac c rand [] st = Inr st"
| "peer_run hmac c rand (op # ops) st = res_bind (peer_exec hmac c rand op st) (peer_run hmac c rand ops)"

fun timer_op :: "db_op \<Rightarrow> bool" where
  "timer_op (Op_republish p) = True"
| "timer_op (Op_expire p) = True"
| "timer_op (Op_elapse d) = True"
| "timer_op op = False"

fun peer_op_ok :: "peer_op \<Rightarrow> bool" where
  "peer_op_ok (Peer_request started pkt local remote) = (ipport_is_fully_qualified remote = Inr True)"
| "peer_op_ok (Peer_call call addr nonce) = (ipport_is_fully_qualified (m_oaddr addr) = Inr True)"
| "peer_op_ok (Peer_reply kind cr started pkt remote) = (ipport_is_fully_qualified remote = Inr True)"
| "peer_op_ok (Peer_kbucket op) = kb_op_ok op"
| "peer_op_ok (Peer_local_db op) = db_op_ok op"
| "peer_op_ok (Peer_remote_timer op) = timer_op op"
| "peer_op_ok (Peer_cookie_rekey secret) = True"

fun peer_op_harmful :: "kad_peer_t \<Rightarrow> peer_op \<Rightarrow> bool" where
  "peer_op_harmful st (Peer_request started pkt local remote) = pkt_harmful st pkt"
| "peer_op_harmful st (Peer_reply kind cr started pkt remote) = reply_harmful st cr pkt"
| "peer_op_harmful st op = False"

lemma peer_op_harmful_same: "same_peer st st' \<Longrightarrow> peer_op_harmful st' op = peer_op_harmful st op"
  by (cases op) (simp_all add: pkt_harmful_same reply_harmful_same)

text \<open>The secrets that the renewals of the cookies draw.\<close>

fun peer_rekeys :: "peer_op list \<Rightarrow> bytes list" where
  "peer_rekeys [] = []"
| "peer_rekeys (Peer_cookie_rekey secret # ops) = secret # peer_rekeys ops"
| "peer_rekeys (op # ops) = peer_rekeys ops"

lemma peer_rekeys_Cons: "peer_rekeys (op # ops) = peer_rekeys [op] @ peer_rekeys ops"
  by (cases op) simp_all

text \<open>The cookies of a peer after the secrets \<open>ss\<close>, the first one drawn at the start: none is used up, the last secret is the current
  one and the one before it, if any, still counts.\<close>

definition cookies_after :: "bytes list \<Rightarrow> cookie_db_t" where
  "cookies_after ss = \<lparr>cur_accepted_db = [], cur_secret = last ss, old_accepted_db = [],
     old_secret = (if length ss < 2 then last ss else ss ! (length ss - 2))\<rparr>"

lemma cookies_after_rekey: "ss \<noteq> [] \<Longrightarrow> cookie_rekey_cb s (cookies_after ss) = cookies_after (ss @ [s])"
  by (auto simp: cookies_after_def cookie_rekey_cb_def last_conv_nth nth_append)

lemma remote_timer_ok:
  assumes "db_inv db" "db_wire db" "\<not> keyid_nodups_ok (db_profile db)" "timer_op op"
  shows "\<exists>db' now. db_exec c op (db, 0) = Inr (db', now) \<and> db_inv db' \<and> db_wire db' \<and> same_db db db'"
proof -
  have "db_op_ok op" using assms(4) by (cases op) simp_all
  then obtain db' d where db': "db_exec c op (db, 0) = Inr (db', 0 + unat (d :: delay_t))" "db_inv db'" "same_db db db'"
    "\<And>p. p \<notin> set (db_op_stores op) \<Longrightarrow> rec_ages (recid_db db p) (recid_db db' p) d"
    using db_exec_ok[OF assms(1,3), of op c 0] by blast
  have "db_op_stores op = []" using assms(4) by (cases op) simp_all
  then have ages: "rec_ages (recid_db db p) (recid_db db' p) d" for p using db'(4) by simp
  have "db_wire db'"
    unfolding db_wire_def
  proof (intro allI impI)
    fix p x assume x: "recid_db db' p = Some x"
    then obtain y where "recid_db db p = Some y" "dr_rec x = dr_rec y"
      using ages[of p] by (auto simp: rec_ages_def split: option.splits)
    then show "payload_ok (kr_payload (dr_rec x))" using assms(2) by (simp add: db_wire_def)
  qed
  then show ?thesis using db' by blast
qed

lemma peer_exec_ok:
  assumes inv: "peer_inv st" and ok: "peer_op_ok op" and draws: "draws_ok rand"
  shows "if peer_op_harmful st op then peer_exec hmac c rand op st = Inl Assert_failed
    else \<exists>st'. peer_exec hmac c rand op st = Inr st' \<and> peer_inv st' \<and> same_peer st st' \<and>
      kp_cookie_db st' = fold cookie_rekey_cb (peer_rekeys [op]) (kp_cookie_db st)"
proof (cases op)
  case (Peer_request started pkt local remote)
  then show ?thesis
    using handle_request_pkt_ok[OF inv _ draws, of remote pkt hmac c started local] ok by (auto split: if_splits)
next
  case (Peer_call call addr nonce)
  then show ?thesis using peer_call_start_ok[OF inv, of addr call nonce] ok inv by auto
next
  case (Peer_reply kind cr started pkt remote)
  then show ?thesis
    using client_handle_reply_ok[where cb = "rpc_reply_cb kind (kp_rpc st) (cr_remote_addr cr)" and cr = cr and pkt = pkt and started = started,
        OF inv _ rpc_reply_cb_ok, of remote] ok by (auto split: if_splits)
next
  case (Peer_kbucket kop)
  obtain kb where kb: "kb_exec kop (kp_kbucket st) = Inr kb" "kb_inv kb"
    using kb_exec_ok[OF peer_invD(1)[OF inv], of kop] ok Peer_kbucket by auto
  have args: "\<forall>a\<in>(case kop of Kb_srckaddr started a \<Rightarrow> {a} | _ \<Rightarrow> {}). kad_addr_is_fully_qualified a = Inr True \<and> length (m_peerid a) = kad_id_len"
    using ok Peer_kbucket by (auto simp: kb_op_ok_def split: kb_op.splits)
  note new = kb_grows_fq[OF kb_exec_grows[OF kb(1)] peer_invD(14)[OF inv] args]
  obtain rs where "notify_new_nodes (drop (length (kb_new_nodes (kp_kbucket st))) (kb_new_nodes kb)) (kp_remote_db st) = Inr rs"
    using notify_new_nodes_ok[OF peer_invD(3)[OF inv] new(2)] by blast
  then show ?thesis using Peer_kbucket kb new(1) inv by (simp add: peer_inv_def same_peer_def)
next
  case (Peer_local_db dop)
  obtain db now where db: "db_exec c dop (kp_local_db st, 0) = Inr (db, now)" "db_inv db" "same_db (kp_local_db st) db"
    using db_exec_ok[OF peer_invD(16,17)[OF inv], of dop c 0] ok Peer_local_db by auto
  have "peer_inv (st\<lparr>kp_local_db := db\<rparr>)" using db(2,3) inv by (simp add: peer_inv_def same_db_def)
  then show ?thesis using Peer_local_db db(1) by (simp add: same_peer_def)
next
  case (Peer_remote_timer dop)
  obtain db now where db: "db_exec c dop (kp_remote_db st, 0) = Inr (db, now)" "db_inv db" "db_wire db" "same_db (kp_remote_db st) db"
    using remote_timer_ok[OF peer_invD(2,4,15)[OF inv], of dop c] ok Peer_remote_timer by auto
  then show ?thesis using Peer_remote_timer peer_inv_db[OF inv] by simp
next
  case (Peer_cookie_rekey secret)
  then show ?thesis using inv by (simp add: peer_inv_def same_peer_def)
qed

lemma peer_run_ok:
  assumes "peer_inv st" "list_all peer_op_ok ops" "draws_ok rand"
  shows "if list_ex (peer_op_harmful st) ops then peer_run hmac c rand ops st = Inl Assert_failed
    else \<exists>st'. peer_run hmac c rand ops st = Inr st' \<and> peer_inv st' \<and> same_peer st st' \<and>
      kp_cookie_db st' = fold cookie_rekey_cb (peer_rekeys ops) (kp_cookie_db st)"
  using assms(1,2)
proof (induction ops arbitrary: st)
  case (Cons op ops)
  note E = peer_exec_ok[OF Cons.prems(1) _ assms(3), of op hmac c]
  show ?case
  proof (cases "peer_op_harmful st op")
    case True
    then show ?thesis using E Cons.prems(2) by simp
  next
    case False
    then obtain st1 where st1: "peer_exec hmac c rand op st = Inr st1" "peer_inv st1" "same_peer st st1"
      "kp_cookie_db st1 = fold cookie_rekey_cb (peer_rekeys [op]) (kp_cookie_db st)"
      using E Cons.prems(2) by auto
    have "list_ex (peer_op_harmful st1) ops = list_ex (peer_op_harmful st) ops"
      using peer_op_harmful_same[OF st1(3)] by (simp add: list_ex_iff)
    then show ?thesis
      using Cons.IH[OF st1(2)] Cons.prems(2) st1 False same_peer_trans[OF st1(3)] peer_rekeys_Cons[of op ops]
      by (auto split: if_splits)
  qed
qed simp

lemma cookies_after_rekeys: "ss \<noteq> [] \<Longrightarrow> fold cookie_rekey_cb rs (cookies_after ss) = cookies_after (ss @ rs)"
  by (induction rs arbitrary: ss) (simp_all add: cookies_after_rekey)

lemma kad_peer_start_cookies:
  "kad_peer_start profile listen_aview realm_id peerid secret = Inr st \<Longrightarrow> kp_cookie_db st = cookies_after [secret]"
  by (auto simp: kad_peer_start_def Let_def res_bind_eq_Inr_iff dbg_assert_eq_Inr_iff cookies_after_def cookie_db_ctor_def)

subsection \<open>Properties\<close>

text \<open>A peer and packets for the examples.\<close>

definition rpc_ex_profile :: kad_profile_t where
  "rpc_ex_profile = kad_profile_ctor"

definition rpc_ex_aview :: ipport_aview_t where
  "rpc_ex_aview = \<lparr>lview = \<lparr>m_ipaddr = Ip_v4 0, m_port = 80\<rparr>, pview = ipport_null\<rparr>"

definition rpc_ex_realm :: bytes where "rpc_ex_realm = replicate 20 9"

definition rpc_ex_oaddr :: ipport_addr_t where "rpc_ex_oaddr = \<lparr>m_ipaddr = Ip_v4 0x0a000002, m_port = 90\<rparr>"

definition rpc_ex_hmac :: "bytes \<Rightarrow> bytes \<Rightarrow> bytes" where "rpc_ex_hmac = cookie_ex_hmac"

lemma rpc_ex_cfg: "peer_cfg_ok rpc_ex_profile rpc_ex_aview rpc_ex_realm (kb_ex_id 19 1)"
proof -
  have "is_run_ok rpc_ex_aview = Inr True" "gen_id_is_fully_qualified (kb_ex_id 19 1)"
    "length rpc_ex_realm = kad_id_len" "length (kb_ex_id 19 1) = kad_id_len"
    "\<not> keyid_nodups_ok (profile_local_db rpc_ex_profile)" "\<not> keyid_nodups_ok (profile_remote_db rpc_ex_profile)"
    by code_simp+
  moreover have "pkttype_profile_sane (profile_pkttype rpc_ex_profile)" "13 \<le> pt_nb_reserved (profile_pkttype rpc_ex_profile)"
    "get_serial_hd_main \<le> replypkt_maxlen (profile_rpc rpc_ex_profile)" "nb_replication (profile_kbucket rpc_ex_profile) < 2 ^ 32"
    by (simp_all add: rpc_ex_profile_def kad_profile_ctor_def pkttype_profile_sane_def pkttype_profile_is_null_def pkttype_width_def
        kad_rpc_profile_ctor_def get_serial_hd_main_def put_gen_id_def gen_id_ctor_def kad_id_len_def kad_kbucket_profile_ctor_def)
  moreover have "profile_kbucket_width (profile_kbucket rpc_ex_profile) dvd kad_id_len * 8" by code_simp
  ultimately show ?thesis by (simp add: peer_cfg_ok_def)
qed

lemma draws_ex: "draws_ok (\<lambda>n i. (i mod n, 0))"
  by (simp add: draws_ok_def)

text \<open>C29. Values that come out of a packet are well formed whatever the bytes are: the identifiers have their length, a set of records
  has no record twice and payloads that can be sent again, a list of addresses has identifiers of the right length; the only error
  of the readers is the exception that the parsers catch.\<close>
theorem received_values_well_formed:
  "(case get_kad_recdups bs of
      Inr (d, rest) \<Rightarrow> length (rd_keyid d) = kad_id_len \<and> distinct (map rv_recid (recval_db d)) \<and>
        (\<forall>v\<in>set (recval_db d). length (rv_recid v) = kad_id_len \<and> payload_ok (rv_payload v))
    | Inl e \<Rightarrow> \<exists>what. e = Except what) \<and>
   (case get_kad_addr_arr bs of Inr (as, rest) \<Rightarrow> (\<forall>a\<in>set as. length (m_peerid a) = kad_id_len) | Inl e \<Rightarrow> \<exists>what. e = Except what) \<and>
   (case get_gen_id n bs of Inr (a, rest) \<Rightarrow> length a = n | Inl e \<Rightarrow> \<exists>what. e = Except what)"
proof -
  have safe: "case r of Inr v \<Rightarrow> P v | Inl e \<Rightarrow> \<exists>what. e = Except what" if "net_safe P r" for P :: "'b \<Rightarrow> bool" and r
    using that by (auto simp: net_safe_def split: sum.splits neoip_error.splits)
  have 1: "net_safe (\<lambda>(d, rest). length (rd_keyid d) = kad_id_len \<and> distinct (map rv_recid (recval_db d)) \<and>
        (\<forall>v\<in>set (recval_db d). length (rv_recid v) = kad_id_len \<and> payload_ok (rv_payload v))) (get_kad_recdups bs)"
    by (rule net_safe_mono[OF safe_recdups]) (auto simp: wire_dups_def recdups_inv_def)
  show ?thesis using safe[OF 1] safe[OF safe_addr_arr[of bs]] safe[OF safe_gen_id[of n bs]] by blast
qed

theorem received_values_well_formed_witness:
  "get_kad_recdups [] = Inl (Except ''uint32_t Payload Too Short'') \<and> (case get_gen_id 2 [1, 2, 3] of Inr (a, rest) \<Rightarrow> length a = 2 | Inl e \<Rightarrow> False)"
  using received_values_well_formed[where bs = "[1, 2, 3]" and n = 2]
  by (simp add: get_kad_recdups_def get_uint32_def get_gen_id_def)

text \<open>C27. The server is total: a packet of any bytes from any usable connection either gets a reply (empty for no reply) with the invariant of
  the peer kept and the cookies untouched, or makes an assertion fail, and the packets that do are exactly the ones of
  \<open>pkt_harmful\<close>: a type number out of the range of the profile, or an accepted header whose source address cannot be one or whose
  type is not one of a request.\<close>
theorem rpc_server_total:
  assumes "peer_inv st" "ipport_is_fully_qualified remote = Inr True" "draws_ok rand"
  shows "if pkt_harmful st pkt then handle_request_pkt hmac c rand started pkt local remote st = Inl Assert_failed
    else \<exists>reply rs st'. handle_request_pkt hmac c rand started pkt local remote st = Inr (reply, rs, st') \<and>
      peer_inv st' \<and> same_peer st st' \<and> kp_cookie_db st' = kp_cookie_db st"
  using handle_request_pkt_ok[OF assms] .

theorem rpc_server_total_witness:
  "\<exists>st. kad_peer_start rpc_ex_profile rpc_ex_aview rpc_ex_realm (kb_ex_id 19 1) [7] = Inr st \<and>
     handle_request_pkt rpc_ex_hmac kr_ttl (\<lambda>n i. (i mod n, 0)) False [0xff] rpc_ex_oaddr rpc_ex_oaddr st = Inl Assert_failed \<and>
     (\<exists>reply rs st'. handle_request_pkt rpc_ex_hmac kr_ttl (\<lambda>n i. (i mod n, 0)) False [] rpc_ex_oaddr rpc_ex_oaddr st = Inr (reply, rs, st'))"
proof -
  obtain st where st: "kad_peer_start rpc_ex_profile rpc_ex_aview rpc_ex_realm (kb_ex_id 19 1) [7] = Inr st" "peer_inv st"
    using kad_peer_start_ok[OF rpc_ex_cfg] by blast
  have "kp_profile st = rpc_ex_profile"
    using st(1) by (auto simp: kad_peer_start_def Let_def res_bind_eq_Inr_iff dbg_assert_eq_Inr_iff split: if_splits)
  then have p: "kp_pkttype st = \<lparr>pt_serial_type = PT_UINT8, pt_offset = 0, pt_nb_reserved = 16\<rparr>"
    by (simp add: rpc_ex_profile_def kad_profile_ctor_def)
  have bad: "pkt_harmful st [0xff]"
    by (simp add: pkt_harmful_def type_harmful_def p type_len_def pkttype_width_def pkttype_in_range_def)
  have "read_req_header st [] = Inl (Except ''uint8_t Payload Too Short'')"
    by (simp add: read_req_header_def pkttype_unserialize_def p pkttype_profile_is_null_def get_uint8_def)
  then have good: "\<not> pkt_harmful st []"
    by (simp add: pkt_harmful_def type_harmful_def p type_len_def pkttype_width_def parse_req_header_def try_parse_def)
  have fq: "ipport_is_fully_qualified rpc_ex_oaddr = Inr True" by code_simp
  note total = rpc_server_total[OF st(2) fq draws_ex, of _ rpc_ex_hmac kr_ttl False rpc_ex_oaddr]
  show ?thesis using total[of "[0xff]"] total[of "[]"] bad good st(1) by auto
qed

text \<open>C7. A peer that is started with a sane configuration and lives through any history of requests, calls it starts, replies, routing
  table events, publications, timers and cookie renewals keeps the invariant of its routing table and databases and its
  configuration; its cookies are the ones of the last two secrets drawn, none of them used up by any packet; and no assertion
  fails unless a harmful packet arrived, which always makes one fail.\<close>
theorem rpc_peer_invariant:
  assumes "peer_cfg_ok profile aview realm peerid" "list_all peer_op_ok ops" "draws_ok rand"
  shows "\<exists>st. kad_peer_start profile aview realm peerid secret = Inr st \<and>
    (if list_ex (peer_op_harmful st) ops then peer_run hmac c rand ops st = Inl Assert_failed
     else \<exists>st'. peer_run hmac c rand ops st = Inr st' \<and> peer_inv st' \<and> same_peer st st' \<and>
       kp_cookie_db st' = cookies_after (secret # peer_rekeys ops))"
proof -
  obtain st where st: "kad_peer_start profile aview realm peerid secret = Inr st" "peer_inv st"
    using kad_peer_start_ok[OF assms(1)] by blast
  then show ?thesis
    using peer_run_ok[OF st(2) assms(2,3), of hmac c] kad_peer_start_cookies[OF st(1)] cookies_after_rekeys[of "[secret]"]
    by (auto split: if_splits)
qed

theorem rpc_peer_invariant_witness:
  "\<exists>st. kad_peer_start rpc_ex_profile rpc_ex_aview rpc_ex_realm (kb_ex_id 19 1) [7] = Inr st \<and>
    (\<exists>st'. peer_run rpc_ex_hmac kr_ttl (\<lambda>n i. (i mod n, 0))
       [Peer_cookie_rekey [8], Peer_call Call_ping \<lparr>m_oaddr = rpc_ex_oaddr, m_peerid = gen_id_ctor kad_id_len\<rparr> [1],
        Peer_remote_timer (Op_elapse 5), Peer_kbucket Kb_timer] st = Inr st' \<and> peer_inv st' \<and>
       kp_cookie_db st' = \<lparr>cur_accepted_db = [], cur_secret = [8], old_accepted_db = [], old_secret = [7]\<rparr>)"
proof -
  have "ipport_is_fully_qualified rpc_ex_oaddr = Inr True" by code_simp
  then have "list_all peer_op_ok [Peer_cookie_rekey [8], Peer_call Call_ping \<lparr>m_oaddr = rpc_ex_oaddr, m_peerid = gen_id_ctor kad_id_len\<rparr> [1],
      Peer_remote_timer (Op_elapse 5), Peer_kbucket Kb_timer]"
    by (simp add: kb_op_ok_def)
  from rpc_peer_invariant[OF rpc_ex_cfg this draws_ex, of "[7]" rpc_ex_hmac kr_ttl] show ?thesis by (auto simp: cookies_after_def)
qed

end
