(* ===== verification/KadRpcFlow.thy ===== *)
theory KadRpcFlow
  imports KadRpcRun
begin

text \<open>
  Calls from end to end: what a caller writes is what the server reads, what the server replies is what the caller is told.
  The headers first, then the calls that store, look up and delete records, between two peers of the same
  profile and realm.
\<close>

interpretation kad_addr_items: item_codec put_kad_addr get_kad_addr "\<lambda>a. length (m_peerid a) = kad_id_len" ..

interpretation kad_addr_arr: serial_codec put_kad_addr_arr get_kad_addr_arr
  "\<lambda>as. length as < 2 ^ 32 \<and> (\<forall>a\<in>set as. length (m_peerid a) = kad_id_len)"
  unfolding put_kad_addr_arr_def get_kad_addr_arr_def by (rule kad_addr_items.item_arr_codec)

subsection \<open>Headers\<close>

lemma get_if_put_if:
  assumes "length a = n"
  shows "get_if b (get_gen_id n) (gen_id_ctor n) (put_if b (put_gen_id a) @ rest) = Inr (if b then a else gen_id_ctor n, rest)"
  using gen_id_codec.get_put[OF assms] by (simp add: get_if_def put_if_def)

definition peers_match :: "kad_peer_t \<Rightarrow> kad_peer_t \<Rightarrow> bool" where
  "peers_match a b \<longleftrightarrow> kp_profile a = kp_profile b \<and> kp_realm_id a = kp_realm_id b"

definition dest_ok :: "kad_addr_t \<Rightarrow> kad_peer_t \<Rightarrow> bool" where
  "dest_ok addr b \<longleftrightarrow> ipport_is_fully_qualified (m_oaddr addr) = Inr True \<and> length (m_peerid addr) = kad_id_len \<and>
     (gen_id_is_null (m_peerid addr) \<or> m_peerid addr = kp_local_peerid b)"

definition wire_nonce :: "kad_peer_t \<Rightarrow> bytes \<Rightarrow> bytes" where
  "wire_nonce st nonce = (if req_nonce_in_pkt_ok (kp_rpc st) then nonce else gen_id_ctor kad_nonceid_len)"

definition kad_type :: "kad_peer_t \<Rightarrow> string \<Rightarrow> nat" where
  "kad_type st name = kad_type_rank name + pt_offset (kp_pkttype st)"

lemma gen_id_compare_refl [simp]: "gen_id_compare a a = 0"
  by (simp add: cookie_eq)

lemma req_header_roundtrip:
  assumes a: "peer_inv a" and b: "peer_inv b" "peers_match a b" and addr: "dest_ok addr b" and nonce: "length nonce = kad_nonceid_len"
    and name: "name \<in> set kad_pkttype_names"
  shows "\<exists>h src. build_req_header a addr (kad_type a name) nonce = Inr h \<and> srckaddr_build (m_oaddr addr) a = Inr src \<and>
    length (m_peerid src) = kad_id_len \<and> \<not> src_harmful src \<and>
    (\<forall>rest. \<not> type_harmful (kp_pkttype b) (h @ rest) \<and>
       parse_req_header b (h @ rest) = Inr (Some (kad_type a name, src, wire_nonce a nonce, rest)))"
proof -
  have prof: "kp_profile b = kp_profile a" "kp_realm_id b = kp_realm_id a" using b(2) by (simp_all add: peers_match_def)
  obtain t where t: "pkttype_serialize (kp_pkttype a) (kad_type a name) = Inr t"
    "\<And>rest. pkttype_unserialize (kp_pkttype a) (t @ rest) = Inr (kad_type a name, rest)"
    using pkttype_serialize_known[OF peer_invD(8,10)[OF a] name] unfolding kad_type_def by blast
  obtain src where src: "srckaddr_build (m_oaddr addr) a = Inr src" "length (m_peerid src) = kad_id_len" "\<not> src_harmful src"
    using srckaddr_build_ok[OF a, of "m_oaddr addr"] addr by (auto simp: dest_ok_def)
  let ?p = "kp_rpc a"
  let ?h = "t @ put_if (realmid_in_pkt_ok ?p) (put_gen_id (kp_realm_id a)) @ put_if (dest_peerid_in_pkt_ok ?p) (put_gen_id (m_peerid addr)) @
      put_kad_addr src @ put_if (req_nonce_in_pkt_ok ?p) (put_gen_id nonce)"
  have build: "build_req_header a addr (kad_type a name) nonce = Inr ?h" using t(1) src(1) by (simp add: build_req_header_def)
  have lens: "length (kp_realm_id a) = kad_id_len" "length (m_peerid addr) = kad_id_len"
    using peer_invD(6)[OF a] addr by (simp_all add: dest_ok_def)
  have read: "read_req_header b (?h @ rest) = Inr ((kad_type a name,
      if realmid_in_pkt_ok ?p then kp_realm_id a else gen_id_ctor kad_id_len,
      if dest_peerid_in_pkt_ok ?p then m_peerid addr else gen_id_ctor kad_id_len, src, wire_nonce a nonce), rest)" for rest
    unfolding read_req_header_def prof
    by (simp add: t(2) get_if_put_if[OF lens(1)] get_if_put_if[OF lens(2)] get_if_put_if[OF nonce] kad_addr_codec.get_put[OF src(2)]
        wire_nonce_def)
  have "parse_req_header b (?h @ rest) = Inr (Some (kad_type a name, src, wire_nonce a nonce, rest))" for rest
    unfolding parse_req_header_def read using addr by (auto simp: try_parse_def prof dest_ok_def)
  moreover have "\<not> type_harmful (kp_pkttype b) (?h @ rest)" for rest
    using read_req_header_spec[of b "?h @ rest"] peer_invD(9)[OF b(1)] read[of rest] by (auto split: if_splits)
  ultimately show ?thesis using build src by blast
qed

lemma rep_header_roundtrip:
  assumes b: "peer_inv b" and a: "peer_inv a" "peers_match a b" and fq: "ipport_is_fully_qualified (rq_remote_oaddr rq) = Inr True"
    and nonce: "req_nonce_in_pkt_ok (kp_rpc a) \<longrightarrow> length (rq_nonce rq) = kad_nonceid_len" and name: "name \<in> set kad_pkttype_names"
    and h: "server_rep_header name rq b = Inr h"
  shows "\<exists>src. srckaddr_build (rq_remote_oaddr rq) b = Inr src \<and> length (m_peerid src) = kad_id_len \<and> \<not> src_harmful src \<and>
    (\<forall>rest. \<not> type_harmful (kp_pkttype a) (h @ rest) \<and>
       parse_rep_header a (h @ rest) = Inr (Some (kad_type a name, src, wire_nonce a (rq_nonce rq), rest)))"
proof -
  have prof: "kp_profile b = kp_profile a" "kp_realm_id b = kp_realm_id a" using a(2) by (simp_all add: peers_match_def)
  obtain t where t: "pkttype_serialize (kp_pkttype a) (kad_type a name) = Inr t"
    "\<And>rest. pkttype_unserialize (kp_pkttype a) (t @ rest) = Inr (kad_type a name, rest)"
    using pkttype_serialize_known[OF peer_invD(8,10)[OF a(1)] name] unfolding kad_type_def by blast
  obtain src where src: "srckaddr_build (rq_remote_oaddr rq) b = Inr src" "length (m_peerid src) = kad_id_len" "\<not> src_harmful src"
    using srckaddr_build_ok[OF b fq] by auto
  let ?p = "kp_rpc a"
  have heq: "h = t @ put_if (realmid_in_pkt_ok ?p) (put_gen_id (kp_realm_id a)) @ put_kad_addr src @
      put_if (req_nonce_in_pkt_ok ?p) (put_gen_id (rq_nonce rq))"
    using h t(1) src(1) kad_pkttype_ok[OF peer_invD(9)[OF b] name]
    by (simp add: server_rep_header_def build_rep_header_def prof kad_type_def)
  have nonce_rt: "get_if (req_nonce_in_pkt_ok ?p) (get_gen_id kad_nonceid_len) (gen_id_ctor kad_nonceid_len)
      (put_if (req_nonce_in_pkt_ok ?p) (put_gen_id (rq_nonce rq)) @ rest) = Inr (wire_nonce a (rq_nonce rq), rest)" for rest
    using nonce gen_id_codec.get_put[of "rq_nonce rq" kad_nonceid_len rest] by (auto simp: get_if_def put_if_def wire_nonce_def)
  have read: "read_rep_header a (h @ rest) = Inr ((kad_type a name,
      if realmid_in_pkt_ok ?p then kp_realm_id a else gen_id_ctor kad_id_len, src, wire_nonce a (rq_nonce rq)), rest)" for rest
    unfolding read_rep_header_def heq
    by (simp add: t(2) get_if_put_if[OF peer_invD(6)[OF a(1)]] nonce_rt kad_addr_codec.get_put[OF src(2)])
  have "parse_rep_header a (h @ rest) = Inr (Some (kad_type a name, src, wire_nonce a (rq_nonce rq), rest))" for rest
    unfolding parse_rep_header_def read by (auto simp: try_parse_def)
  moreover have "\<not> type_harmful (kp_pkttype a) (h @ rest)" for rest
    using read_rep_header_spec[of a "h @ rest"] peer_invD(9)[OF a(1)] read[of rest] by (auto split: if_splits)
  ultimately show ?thesis using src by blast
qed

text \<open>The address that a peer announces to somebody at \<open>remote\<close>.\<close>

definition announces :: "kad_peer_t \<Rightarrow> ipport_addr_t \<Rightarrow> kad_addr_t \<Rightarrow> bool" where
  "announces st remote src \<longleftrightarrow>
     (\<exists>public. is_public (m_ipaddr remote) = Inr public \<and>
        src = (if \<not> public then \<lparr>m_oaddr = lview (kp_listen_aview st), m_peerid = kp_local_peerid st\<rparr>
          else if ipport_is_null (pview (kp_listen_aview st)) then \<lparr>m_oaddr = ipport_null, m_peerid = replicate kad_id_len 0\<rparr>
          else \<lparr>m_oaddr = pview (kp_listen_aview st), m_peerid = kp_local_peerid st\<rparr>))"

lemma if_Inr:
  "((if b then Inr x else Inr y) = Inr z) = (z = (if b then x else y))"
  "((if b then Inr x else if d then Inr y else Inr w) = Inr z) = (z = (if b then x else if d then y else w))"
  by auto

lemma srckaddr_build_announces:
  assumes "peer_inv st" "srckaddr_build remote st = Inr src"
  shows "announces st remote src"
proof -
  have "listens_ok (lview (kp_listen_aview st))" using peer_invD(5)[OF assms(1)] by (simp add: is_run_ok_iff)
  then have l: "\<not> ipport_is_null (lview (kp_listen_aview st))" by (rule listens_ok_not_null)
  have n: "ipport_is_null ipport_null" by (simp add: ipport_null_def ipport_is_null_def ip_is_null_def)
  obtain x where x: "listen_aview2xmit (kp_listen_aview st) remote = Inr x"
    "src = (if ipport_is_null x then kad_addr_null else \<lparr>m_oaddr = x, m_peerid = kp_local_peerid st\<rparr>)"
    using assms(2) unfolding srckaddr_build_def res_bind_eq_Inr_iff if_Inr by (elim exE conjE) (rule that)
  obtain p where p: "is_public (m_ipaddr remote) = Inr p"
    "x = (if \<not> p then lview (kp_listen_aview st) else if \<not> ipport_is_null (pview (kp_listen_aview st)) then pview (kp_listen_aview st)
      else ipport_null)"
    using x(1) unfolding listen_aview2xmit_def res_bind_eq_Inr_iff dbg_assert_eq_Inr_iff if_Inr by (elim exE conjE) (rule that)
  have null: "kad_addr_null = \<lparr>m_oaddr = ipport_null, m_peerid = replicate kad_id_len 0\<rparr>"
    by (simp only: kad_addr_null_def gen_id_ctor_def)
  show ?thesis
    unfolding announces_def x(2) null[symmetric]
    by (rule exI[of _ p]) (cases p; cases "ipport_is_null (pview (kp_listen_aview st))"; simp only: p l n simp_thms if_True if_False)
qed

subsection \<open>An exchange\<close>

lemma gen_id_null_wire [simp]: "wire_nonce a (wire_nonce a nonce) = wire_nonce a nonce"
  by (simp add: wire_nonce_def)

lemma known_type: "peer_inv a \<Longrightarrow> name \<in> set kad_pkttype_names \<Longrightarrow> kad_pkttype (kp_pkttype a) name = Inr (kad_type a name)"
  using kad_pkttype_ok peer_invD(9) by (simp add: kad_type_def)

text \<open>A call reaches the handler of the server with the payload and the nonce of the caller.\<close>

lemma request_reaches_handler:
  assumes a: "peer_inv a" and b: "peer_inv b" "peers_match a b" and addr: "dest_ok addr b" and nonce: "length nonce = kad_nonceid_len"
    and names: "name \<in> set kad_pkttype_names" "rname \<in> set kad_pkttype_names" and remote: "ipport_is_fully_qualified remote = Inr True"
  shows "\<exists>pkt f rs b1. client_rpc_start a payload name rname addr nonce =
      Inr (pkt, \<lparr>cr_remote_addr = addr, cr_reply_pkttype = kad_type a rname, cr_request_nonce = nonce\<rparr>) \<and>
    peer_inv b1 \<and> same_peer b b1 \<and> kp_remote_db b1 = kp_remote_db b \<and> kp_cookie_db b1 = kp_cookie_db b \<and>
    request_ok \<lparr>rq_pkttype = kad_type a name, rq_pkt = payload, rq_nonce = wire_nonce a nonce, rq_local_oaddr = local,
        rq_remote_oaddr = remote, rq_filter = f\<rparr> \<and>
    (\<forall>reply b2. dispatch_request hmac c rand \<lparr>rq_pkttype = kad_type a name, rq_pkt = payload, rq_nonce = wire_nonce a nonce,
          rq_local_oaddr = local, rq_remote_oaddr = remote, rq_filter = f\<rparr> b1 = Inr (reply, b2) \<longrightarrow>
       (\<exists>b3. handle_request_pkt hmac c rand started pkt local remote b = Inr (reply, rs, b3) \<and>
          kp_remote_db b3 = kp_remote_db b2 \<and> kp_cookie_db b3 = kp_cookie_db b2 \<and> kp_kbucket b3 = kp_kbucket b2 \<and> peer_inv b3 = peer_inv b2 \<and>
          (same_peer b b2 \<longrightarrow> same_peer b b3)))"
proof -
  obtain h src where h: "build_req_header a addr (kad_type a name) nonce = Inr h" and src: "length (m_peerid src) = kad_id_len" "\<not> src_harmful src"
    and parse: "\<And>rest. parse_req_header b (h @ rest) = Inr (Some (kad_type a name, src, wire_nonce a nonce, rest))"
    using req_header_roundtrip[OF a b addr nonce names(1)] by blast
  have start: "client_rpc_start a payload name rname addr nonce =
      Inr (h @ payload, \<lparr>cr_remote_addr = addr, cr_reply_pkttype = kad_type a rname, cr_request_nonce = nonce\<rparr>)"
    using h addr known_type[OF a] names by (simp add: client_rpc_start_def dest_ok_def)
  let ?b = "b\<lparr>kp_stat := (kp_stat b)\<lparr>nb_byte_recv := nb_byte_recv (kp_stat b) + word_of_nat (length (h @ payload))\<rparr>\<rparr>"
  have "peer_inv ?b" using b(1) by simp
  from srckaddr_parse_ok[OF this remote src(1), of started] src(2) obtain rs b1 where
    b1: "srckaddr_parse started src remote ?b = Inr (rs, b1)" "peer_inv b1" "same_peer ?b b1"
      "kp_remote_db b1 = kp_remote_db b" "kp_cookie_db b1 = kp_cookie_db b" by auto
  obtain f where f: "choose_filter remote = Inr f" "\<forall>x. \<exists>y. f x = Inr y" using choose_filter_ok by blast
  have parse': "parse_req_header ?b (h @ payload) = Inr (Some (kad_type a name, src, wire_nonce a nonce, payload))"
    using parse_req_header_same[of b ?b] parse by simp
  have same: "same_peer b b1" using b1(3) by (simp add: same_peer_def)
  let ?rq = "\<lparr>rq_pkttype = kad_type a name, rq_pkt = payload, rq_nonce = wire_nonce a nonce, rq_local_oaddr = local,
        rq_remote_oaddr = remote, rq_filter = f\<rparr>"
  have run: "\<exists>b3. handle_request_pkt hmac c rand started (h @ payload) local remote b = Inr (reply, rs, b3) \<and>
      kp_remote_db b3 = kp_remote_db b2 \<and> kp_cookie_db b3 = kp_cookie_db b2 \<and> kp_kbucket b3 = kp_kbucket b2 \<and> peer_inv b3 = peer_inv b2 \<and>
      (same_peer b b2 \<longrightarrow> same_peer b b3)"
    if "dispatch_request hmac c rand ?rq b1 = Inr (reply, b2)" for reply b2
    by (intro exI[of _ "b2\<lparr>kp_stat := (kp_stat b2)\<lparr>nb_byte_sent := nb_byte_sent (kp_stat b2) + word_of_nat (length reply)\<rparr>\<rparr>"])
      (use b1 f parse' that in \<open>simp add: handle_request_pkt_def Let_def same_peer_def\<close>)
  have rq: "request_ok ?rq" using f(2) remote by (simp add: request_ok_def)
  show ?thesis using start b1(2,4,5) same run rq by blast
qed

text \<open>The reply reaches the caller, which gives its payload to the call.\<close>

lemma reply_reaches_caller:
  assumes a: "peer_inv a" and b: "peer_inv b" "peers_match a b" and rq: "request_ok rq" "rq_nonce rq = wire_nonce a nonce"
    and nonce: "length nonce = kad_nonceid_len" and rname: "rname \<in> set kad_pkttype_names"
    and h: "server_rep_header rname rq b = Inr h" and cb: "cb r = Inr event" and "from": "ipport_is_fully_qualified server = Inr True"
  shows "\<exists>rs a'. client_handle_reply cb started (h @ r) server
      \<lparr>cr_remote_addr = addr, cr_reply_pkttype = kad_type a rname, cr_request_nonce = nonce\<rparr> a = Inr (event, rs, a') \<and> peer_inv a'"
proof -
  have "req_nonce_in_pkt_ok (kp_rpc a) \<longrightarrow> length (rq_nonce rq) = kad_nonceid_len" using rq(2) nonce by (simp add: wire_nonce_def)
  then obtain src where src: "length (m_peerid src) = kad_id_len" "\<not> src_harmful src"
    and parse: "parse_rep_header a (h @ r) = Inr (Some (kad_type a rname, src, wire_nonce a nonce, r))"
    using rep_header_roundtrip[OF b(1) a b(2) request_okD(1)[OF rq(1)] _ rname h] rq(2) by auto
  obtain rs a' where "srckaddr_parse started src server a = Inr (rs, a')" "peer_inv a'"
    using srckaddr_parse_ok[OF a "from" src(1), of started] src(2) by auto
  then show ?thesis using parse cb by (auto simp: client_handle_reply_def wire_nonce_def)
qed

subsection \<open>Storing\<close>

definition stored_as :: "(kad_rec_t \<Rightarrow> delay_t) \<Rightarrow> kad_rec_t \<Rightarrow> kad_db_t \<Rightarrow> db_rec_t" where
  "stored_as c r db = (case recid_db db (kr_recid r) of
     None \<Rightarrow> db_entry c r db
   | Some x \<Rightarrow> if kr_ttl (db_get_kad_rec x db) < kr_ttl r then db_entry c r db else x)"

lemma stored_as_cong:
  assumes "same_db db db'" "recid_db db' (kr_recid r) = recid_db db (kr_recid r)"
  shows "stored_as c r db' = stored_as c r db"
  using assms by (simp add: stored_as_def db_entry_def cpu_expire_delay_def same_db_def db_get_kad_rec_def split: option.split)

lemma store_loop_effect:
  assumes "db_inv db" "\<forall>r\<in>set rs. kad_rec_ok r" "distinct (map kr_recid rs)" "\<not> keyid_nodups_ok (db_profile db)"
    "\<forall>r\<in>set rs. rec_fits (db_profile db) r"
    "db_max_len (db_profile db) \<noteq> 0 \<longrightarrow> db_size db + sum_list (map rec_len rs) \<le> db_max_len (db_profile db)"
  shows "\<exists>db'. store_loop c rs db = Inr (True, db') \<and> db_inv db' \<and> same_db db db' \<and>
    (\<forall>r\<in>set rs. recid_db db' (kr_recid r) = Some (stored_as c r db)) \<and>
    (\<forall>p. p \<notin> kr_recid ` set rs \<longrightarrow> recid_db db' p = recid_db db p)"
  using assms
proof (induction rs arbitrary: db)
  case (Cons r rs)
  have acc: "may_accept r db" "rec_ids_ok r"
    using Cons.prems(4,5,6) by (auto simp: may_accept_def Let_def rec_fits_def not_less)
  obtain db1 where db1: "db_update c r db = Inr db1" "db_inv db1" "same_db db db1" "db_size db1 \<le> db_size db + rec_len r"
    "recid_db db1 = (case recid_db db (kr_recid r) of
        None \<Rightarrow> (recid_db db)(kr_recid r \<mapsto> db_entry c r db)
      | Some x \<Rightarrow> if kr_ttl (db_get_kad_rec x db) < kr_ttl r then (recid_db db)(kr_recid r \<mapsto> db_entry c r db)
                  else recid_db db)"
    using db_update_ok[OF Cons.prems(1) acc(2,1), of c] by blast
  have eff: "recid_db db1 (kr_recid r) = Some (stored_as c r db)" "\<And>p. p \<noteq> kr_recid r \<Longrightarrow> recid_db db1 p = recid_db db p"
    unfolding db1(5) stored_as_def by (auto split: option.splits)
  have prof: "db_profile db1 = db_profile db" using db1(3) by (simp add: same_db_def)
  have "\<exists>db'. store_loop c rs db1 = Inr (True, db') \<and> db_inv db' \<and> same_db db1 db' \<and>
    (\<forall>r\<in>set rs. recid_db db' (kr_recid r) = Some (stored_as c r db1)) \<and>
    (\<forall>p. p \<notin> kr_recid ` set rs \<longrightarrow> recid_db db' p = recid_db db1 p)"
    by (rule Cons.IH[OF db1(2)]) (use Cons.prems db1(4) prof in auto)
  then obtain db' where db': "store_loop c rs db1 = Inr (True, db')" "db_inv db'" "same_db db1 db'"
    "\<And>r. r \<in> set rs \<Longrightarrow> recid_db db' (kr_recid r) = Some (stored_as c r db1)"
    "\<And>p. p \<notin> kr_recid ` set rs \<Longrightarrow> recid_db db' p = recid_db db1 p" by blast
  have rest: "stored_as c q db1 = stored_as c q db" if "q \<in> set rs" for q
  proof (rule stored_as_cong[OF db1(3)])
    have "kr_recid q \<noteq> kr_recid r" using Cons.prems(3) imageI[OF that, of kr_recid] by auto
    then show "recid_db db1 (kr_recid q) = recid_db db (kr_recid q)" by (rule eff(2))
  qed
  have "kr_recid r \<notin> kr_recid ` set rs" using Cons.prems(3) by auto
  then have "recid_db db' (kr_recid r) = Some (stored_as c r db)" using db'(5) eff(1) by simp
  moreover have "store_loop c (r # rs) db = Inr (True, db')" using acc(1) db1(1) db'(1) by simp
  ultimately show ?case
    using db'(2-5) rest eff(2) same_db_trans[OF db1(3) db'(3)] by (intro exI[of _ db']) auto
qed auto

abbreviation recs_of :: "kad_recdups_t \<Rightarrow> kad_rec_t list" where
  "recs_of d \<equiv> map (rec_of_recval (rd_keyid d)) (recval_db d)"

text \<open>The records that a peer accepts together.\<close>

definition dups_fit :: "kad_recdups_t \<Rightarrow> kad_db_t \<Rightarrow> bool" where
  "dups_fit d db \<longleftrightarrow> recval_db d \<noteq> [] \<and> length (recval_db d) < 2 ^ 32 \<and> (\<forall>r\<in>set (recs_of d). rec_fits (db_profile db) r) \<and>
     (db_max_len (db_profile db) \<noteq> 0 \<longrightarrow> db_size db + sum_list (map rec_len (recs_of d)) \<le> db_max_len (db_profile db))"

definition pathid_of :: "ipport_addr_t \<Rightarrow> ipport_addr_t \<Rightarrow> bytes" where
  "pathid_of remote local = put_ip_addr (m_ipaddr remote) @ put_ipport_addr local"

lemma wire_dups_put:
  assumes "wire_dups d" "recval_db d \<noteq> []" "length (recval_db d) < 2 ^ 32"
  shows "get_kad_recdups (put_kad_recdups d @ rest) = Inr (d, rest)"
  using recdups_get_put[of d rest] assms by (simp add: wire_dups_def list_all_iff)

lemma handle_store_effect:
  assumes b: "peer_inv b" and rq: "request_ok rq" "rq_pkt rq = store_request_payload (kp_rpc b) d cookie" and d: "wire_dups d" "dups_fit d (kp_remote_db b)"
    and len: "length cookie = cookie_id_len" and on: "store_rpc_ok (kp_rpc b)"
    and cookie: "cookie_store_ok (kp_rpc b) \<longrightarrow> cookie_check hmac (build_pathid rq) cookie (kp_cookie_db b)"
  shows "\<exists>h b2. handle_store_request hmac c rq b = Inr (h, b2) \<and> server_rep_header ''STORE_REPLY'' rq b = Inr h \<and>
    peer_inv b2 \<and> same_peer b b2 \<and> kp_cookie_db b2 = kp_cookie_db b \<and>
    (\<forall>r\<in>set (recs_of d). recid_db (kp_remote_db b2) (kr_recid r) = Some (stored_as c r (kp_remote_db b))) \<and>
    (\<forall>p. p \<notin> kr_recid ` set (recs_of d) \<longrightarrow> recid_db (kp_remote_db b2) p = recid_db (kp_remote_db b) p) \<and>
    same_db (kp_remote_db b) (kp_remote_db b2)"
proof -
  have recs: "\<forall>r\<in>set (recs_of d). kad_rec_ok r" using wire_dups_recs[OF d(1)] by auto
  have dist: "distinct (map kr_recid (recs_of d))" using d(1) by (simp add: wire_dups_def recdups_inv_def rec_of_recval_def comp_def)
  obtain db where db: "store_loop c (recs_of d) (kp_remote_db b) = Inr (True, db)" "db_inv db" "same_db (kp_remote_db b) db"
    "\<forall>r\<in>set (recs_of d). recid_db db (kr_recid r) = Some (stored_as c r (kp_remote_db b))"
    "\<forall>p. p \<notin> kr_recid ` set (recs_of d) \<longrightarrow> recid_db db p = recid_db (kp_remote_db b) p"
    using store_loop_effect[OF peer_invD(2)[OF b] recs dist peer_invD(15)[OF b], of c] d(2) by (auto simp: dups_fit_def)
  have "db_wire db" using store_loop_ok[OF peer_invD(2,4)[OF b] recs, of c] db(1) by simp
  let ?b = "b\<lparr>kp_stat := (kp_stat b)\<lparr>nb_store_recv := nb_store_recv (kp_stat b) + 1\<rparr>\<rparr>"
  let ?b2 = "?b\<lparr>kp_remote_db := db\<rparr>"
  have inv: "peer_inv ?b2" using peer_inv_db(1)[of ?b db] b db(2,3) \<open>db_wire db\<close> by simp
  obtain h where h: "server_rep_header ''STORE_REPLY'' rq b = Inr h"
    using server_rep_header_ok[OF b request_okD(1)[OF rq(1)] known_names(2)] by blast
  moreover have "server_rep_header ''STORE_REPLY'' rq ?b2 = server_rep_header ''STORE_REPLY'' rq b"
    by (simp add: server_rep_header_def build_rep_header_def srckaddr_build_def cong: if_cong)
  moreover have "get_kad_recdups (rq_pkt rq) = Inr (d, put_if (cookie_store_ok (kp_rpc b)) (put_gen_id cookie))"
    unfolding rq(2) store_request_payload_def using wire_dups_put[OF d(1)] d(2) by (simp add: dups_fit_def)
  moreover have "get_if (cookie_store_ok (kp_rpc b)) (get_gen_id cookie_id_len) (gen_id_ctor cookie_id_len)
      (put_if (cookie_store_ok (kp_rpc b)) (put_gen_id cookie)) =
    Inr (if cookie_store_ok (kp_rpc b) then cookie else gen_id_ctor cookie_id_len, [])"
    using get_if_put_if[OF len, of "cookie_store_ok (kp_rpc b)" "[]"] by simp
  ultimately have "handle_store_request hmac c rq b = Inr (h, ?b2)"
    using on cookie db(1) by (auto simp: handle_store_request_def Let_def try_parse_def)
  then show ?thesis
    using h inv db(3-5) by (intro exI[of _ h] exI[of _ ?b2]) (auto simp: same_peer_def)
qed

subsection \<open>Looking up\<close>

text \<open>The records that a reply with records says: some of the records of the key, as many as fit and are asked for.\<close>

definition key_recs :: "bytes \<Rightarrow> kad_db_t \<Rightarrow> recval_t set" where
  "key_recs key db = {recval_ctor (db_get_kad_rec x db) |p x. recid_db db p = Some x \<and> kr_keyid (dr_rec x) = key}"

definition reply_fits :: "kad_rpc_profile_t \<Rightarrow> bool" where
  "reply_fits p \<longleftrightarrow> get_serial_hd_main \<le> replypkt_maxlen p \<and> replypkt_maxlen p < 2 ^ 32 \<and> 0 < replypkt_maxlen p"

lemma get_serial_hd_vals: "get_serial_hd_main = 24" "0 < get_serial_hd_per_rec"
  by (simp_all add: get_serial_hd_main_def get_serial_hd_per_rec_def put_gen_id_def gen_id_ctor_def kad_id_len_def)

lemma count_rec_bound:
  assumes "cur \<le> mx" "mx \<noteq> 0"
  shows "count_rec_in_size mx cur vs \<le> mx"
proof -
  let ?len = "\<lambda>v. get_serial_hd_per_rec + datum_length (rv_payload v)"
  let ?n = "count_rec_in_size mx cur vs"
  have le: "?n \<le> length vs" by (rule count_rec_in_size_spec(2))
  then have sum: "cur + (\<Sum>v\<leftarrow>take ?n vs. ?len v) \<le> mx" using count_rec_in_size_spec(1)[OF assms le] by simp
  have len: "length xs \<le> (\<Sum>v\<leftarrow>xs. ?len v)" for xs
  proof (induction xs)
    case (Cons x xs)
    then show ?case using get_serial_hd_vals(2) by simp
  qed simp
  have "?n = length (take ?n vs)" using le by simp
  then show ?thesis using sum len[of "take ?n vs"] by linarith
qed

lemma nth_take_set: "set (take n xs) \<subseteq> set xs" by (rule set_take_subset)

lemma key_recs_wire:
  assumes "db_wire db" "v \<in> key_recs key db"
  shows "payload_ok (rv_payload v)"
  using assms by (auto simp: key_recs_def db_wire_def recval_ctor_def db_get_kad_rec_def)

lemma find_all_of_key:
  assumes "db_index db" "length key = kad_id_len"
  shows "\<exists>d. find_by_keyid key (gen_id_ctor kad_id_len) db = Inr d \<and> recdups_inv d \<and> (recval_db d \<noteq> [] \<longrightarrow> rd_keyid d = key) \<and>
    set (recval_db d) = key_recs key db"
proof -
  have "rec_selected (gen_id_ctor kad_id_len) p" for p by (simp add: rec_selected_def gen_id_is_null_def gen_id_ctor_def)
  then show ?thesis
    using find_by_keyid_ok[OF assms, of "gen_id_ctor kad_id_len"] by (simp add: key_recs_def gen_id_ctor_def[of kad_id_len])
qed

text \<open>What the caller of \<open>FINDSOMEVAL\<close> is told.\<close>

definition found_ok :: "(bytes \<Rightarrow> bytes \<Rightarrow> bytes) \<Rightarrow> bytes \<Rightarrow> bytes \<Rightarrow> nat \<Rightarrow> kad_peer_t \<Rightarrow> kad_rpc_event \<Rightarrow> bool" where
  "found_ok hmac pathid key wanted b event = (case event of
     Rpc_recdups e has_more \<Rightarrow> set (recval_db e) \<subseteq> key_recs key (kp_remote_db b) \<and> distinct (map rv_recid (recval_db e)) \<and>
       (recval_db e \<noteq> [] \<longrightarrow> rd_keyid e = key) \<and>
       (wanted \<noteq> 0 \<longrightarrow> length (recval_db e) \<le> wanted) \<and> length (put_kad_recdups e) \<le> replypkt_maxlen (kp_rpc b) \<and>
       key_recs key (kp_remote_db b) \<noteq> {} \<and> (\<not> has_more \<longleftrightarrow> set (recval_db e) = key_recs key (kp_remote_db b))
   | Rpc_addr_arr addrs cookie \<Rightarrow> key_recs key (kp_remote_db b) = {} \<and>
       length addrs \<le> nb_replication (profile_kbucket (kp_profile b)) \<and> set addrs \<subseteq> kb_known (kp_kbucket b) \<and>
       (cookie_in_reply_ok (kp_rpc b) \<longrightarrow> cookie = cookie_generate hmac pathid (kp_cookie_db b))
   | _ \<Rightarrow> False)"

lemma nclosest_known:
  assumes "peer_inv b" "request_ok rq" "length t = kad_id_len"
  shows "\<exists>addrs. get_nclosest_addr t mx (rq_filter rq) (kp_kbucket b) = Inr addrs \<and> length addrs \<le> mx \<and>
    set addrs \<subseteq> kb_known (kp_kbucket b)"
proof -
  let ?f = "\<lambda>a. rq_filter rq a = Inr True"
  obtain tmp "is" where run: "get_nclosest_addr t mx (rq_filter rq) (kp_kbucket b) = Inr (take mx (sort_by_dist t tmp))"
    and tmp: "tmp = concat (map (kb_addrs ?f (kp_kbucket b)) is)"
    using nclosest_spec[OF peer_invD(1)[OF assms(1)] request_okD(2)[OF assms(2)] assms(3), of mx] by blast
  have "set tmp \<subseteq> kb_eligible ?f (kp_kbucket b)" unfolding tmp using kb_all_addrs[OF peer_invD(1)[OF assms(1)]] by blast
  moreover have "kb_eligible ?f (kp_kbucket b) \<subseteq> kb_known (kp_kbucket b)" by (auto simp: kb_eligible_def kb_known_def)
  moreover have "set (take mx (sort_by_dist t tmp)) \<subseteq> set tmp" using set_take_subset[of mx "sort_by_dist t tmp"] by simp
  ultimately show ?thesis using run by auto
qed

lemma reply_recs:
  fixes wanted :: "32 word" and k :: nat
  assumes b: "peer_inv b" and d: "recdups_inv d" "set (recval_db d) = key_recs key (kp_remote_db b)" "recval_db d \<noteq> []" "rd_keyid d = key"
    and ws: "mset ws = mset (recval_db d)" and fits: "reply_fits (kp_rpc b)"
    and n: "nb_serialized_rec_in_size (replypkt_maxlen (kp_rpc b)) (d\<lparr>recval_db := ws\<rparr>) = Inr n"
  defines "k \<equiv> clamp_nb_rec n wanted" and "e \<equiv> d\<lparr>recval_db := take k ws\<rparr>"
  shows "\<exists>e' rest. get_kad_recdups (put_kad_recdups e) = Inr (e', rest) \<and>
    found_ok hmac pathid key (unat wanted) b (Rpc_recdups e' (length ws - k \<noteq> 0))"
proof -
  have dist: "distinct (map rv_recid ws)" and set_ws: "set ws = set (recval_db d)" and len: "length ws = length (recval_db d)"
    using d(1) ws mset_eq_setD[OF ws] mset_eq_length[OF ws] mset_eq_imp_distinct_iff[of "map rv_recid ws" "map rv_recid (recval_db d)"]
    by (simp_all add: recdups_inv_def)
  have inv: "recdups_inv (d\<lparr>recval_db := ws\<rparr>)" using d(1) dist set_ws by (simp add: recdups_inv_def)
  have n_eq: "n = count_rec_in_size (replypkt_maxlen (kp_rpc b)) get_serial_hd_main ws"
    using n by (simp add: nb_serialized_rec_in_size_def dbg_assert_eq_Inr_iff)
  have n_le: "n \<le> length ws" unfolding n_eq by (rule count_rec_in_size_spec(2))
  have n_max: "n \<le> replypkt_maxlen (kp_rpc b)" unfolding n_eq using fits by (intro count_rec_bound) (simp_all add: reply_fits_def)
  have k: "k \<le> n" "unat wanted \<noteq> 0 \<longrightarrow> k \<le> unat wanted" by (auto simp: k_def clamp_nb_rec_def unat_eq_zero)
  then have k_len: "k \<le> length ws" using n_le by simp
  have inv_e: "recdups_inv e"
    using inv set_take_subset[of k ws] by (auto simp: recdups_inv_def e_def simp flip: take_map dest: in_set_takeD)
  have pay: "list_all (\<lambda>v. payload_ok (rv_payload v)) (recval_db e)"
    using key_recs_wire[OF peer_invD(4)[OF b], of _ key] set_take_subset[of k ws] set_ws d(2) by (auto simp: list_all_iff e_def)
  have len_e: "length (recval_db e) = k" "k < 2 ^ 32" using k k_len n_max fits by (auto simp: e_def reply_fits_def)
  have size: "length (put_kad_recdups e) \<le> replypkt_maxlen (kp_rpc b)"
  proof -
    have "get_serial_hd_main + (\<Sum>v\<leftarrow>take k ws. get_serial_hd_per_rec + datum_length (rv_payload v)) \<le> replypkt_maxlen (kp_rpc b)"
      using count_rec_in_size_spec(1)[of get_serial_hd_main "replypkt_maxlen (kp_rpc b)" k ws] fits k_len k(1) n_eq by (simp add: reply_fits_def)
    then show ?thesis using length_put_kad_recdups[OF inv_e] by (simp add: e_def)
  qed
  have ne: "key_recs key (kp_remote_db b) \<noteq> {}" using d(2,3) by auto
  have all: "length ws - k = 0 \<longleftrightarrow> set (take k ws) = key_recs key (kp_remote_db b)"
  proof
    assume "length ws - k = 0"
    then show "set (take k ws) = key_recs key (kp_remote_db b)" using set_ws d(2) by simp
  next
    assume eq: "set (take k ws) = key_recs key (kp_remote_db b)"
    have "distinct ws" using dist by (simp add: distinct_map)
    then have "card (set (take k ws)) = k" "card (set ws) = length ws" using k_len by (simp_all add: distinct_card)
    then show "length ws - k = 0" using eq set_ws d(2) by simp
  qed
  have rt: "get_kad_recdups (put_kad_recdups e) = (if recval_db e = [] then Inr (kad_recdups_ctor, rd_keyid e) else Inr (e, []))"
    using recdups_get_put[OF inv_e pay, of "[]"] len_e by simp
  show ?thesis
  proof (cases "recval_db e = []")
    case True
    then have emp: "set (take k ws) = {}" by (simp add: e_def)
    have "length ws - k \<noteq> 0" using all ne unfolding emp by blast
    moreover have "length (put_kad_recdups kad_recdups_ctor) \<le> replypkt_maxlen (kp_rpc b)"
      using fits length_put_kad_recdups[of kad_recdups_ctor] recdups_inv_ctor by (simp add: reply_fits_def kad_recdups_ctor_def)
    ultimately show ?thesis using rt True ne by (simp add: found_ok_def kad_recdups_ctor_def)
  next
    case False
    have "set (recval_db e) \<subseteq> key_recs key (kp_remote_db b)"
      using set_take_subset[of k ws] set_ws d(2) by (auto simp: e_def)
    moreover have "distinct (map rv_recid (recval_db e))" using inv_e by (simp add: recdups_inv_def)
    moreover have "rd_keyid e = key" using d(4) by (simp add: e_def)
    moreover have "set (recval_db e) = set (take k ws)" by (simp add: e_def)
    ultimately show ?thesis using rt False ne size all k(2) len_e(1) by (simp add: found_ok_def)
  qed
qed

lemma findsomeval_request_read:
  assumes "length key = kad_id_len" "n < 2 ^ 32"
  shows "res_bind (get_gen_id kad_id_len (findsomeval_request_payload key n)) (\<lambda>(keyid, pkt).
      res_bind (get_uint32 pkt) (\<lambda>(requested_nb_rec, pkt). Inr (keyid, requested_nb_rec))) = Inr (key, word_of_nat n)"
  using gen_id_codec.get_put[OF assms(1), of "put_uint32 (word_of_nat n)"] uint32_codec.get_put_exact[of "word_of_nat n"]
  by (simp add: findsomeval_request_payload_def)

lemma cookie_tail:
  assumes "b \<longrightarrow> length cookie = cookie_id_len"
  shows "get_if b (get_gen_id cookie_id_len) (gen_id_ctor cookie_id_len) (put_if b (put_gen_id cookie)) =
    Inr (if b then cookie else gen_id_ctor cookie_id_len, [])"
  using assms gen_id_codec.get_put_exact[of cookie cookie_id_len] by (simp add: get_if_def put_if_def)

lemma handle_findsomeval_effect:
  assumes b: "peer_inv b" and rq: "request_ok rq" "rq_pkt rq = findsomeval_request_payload key n" and key: "length key = kad_id_len" "n < 2 ^ 32"
    and on: "findsomeval_rpc_ok (kp_rpc b)" and fits: "reply_fits (kp_rpc b)" and draws: "draws_ok rand"
    and hmac: "\<And>s p. length (hmac s p) = cookie_id_len"
  shows "\<exists>h r event. handle_findsomeval_request hmac rand rq b =
      Inr (h @ r, b\<lparr>kp_stat := (kp_stat b)\<lparr>nb_findsomeval_recv := nb_findsomeval_recv (kp_stat b) + 1\<rparr>\<rparr>) \<and>
    server_rep_header ''FINDSOMEVAL_REPLY'' rq b = Inr h \<and> findsomeval_reply_cb (kp_rpc b) r = Inr (Some event) \<and>
    found_ok hmac (build_pathid rq) key n b event"
proof -
  obtain h where h: "server_rep_header ''FINDSOMEVAL_REPLY'' rq b = Inr h"
    using server_rep_header_ok[OF b request_okD(1)[OF rq(1)] known_names(4)] by blast
  obtain d where d: "find_by_keyid key (gen_id_ctor kad_id_len) (kp_remote_db b) = Inr d" "recdups_inv d"
    "recval_db d \<noteq> [] \<longrightarrow> rd_keyid d = key" "set (recval_db d) = key_recs key (kp_remote_db b)"
    using find_all_of_key[OF peer_invD(3)[OF b] key(1)] by blast
  have n: "unat (word_of_nat n :: 32 word) = n" using key(2) by (simp add: unat_of_nat_32)
  note read = findsomeval_request_read[OF key, folded rq(2)]
  show ?thesis
  proof (cases "recval_db d = []")
    case True
    obtain addrs where addrs:
      "get_nclosest_addr key (nb_replication (profile_kbucket (kp_profile b))) (rq_filter rq) (kp_kbucket b) = Inr addrs"
      "length addrs \<le> nb_replication (profile_kbucket (kp_profile b))" "set addrs \<subseteq> kb_known (kp_kbucket b)"
      using nclosest_known[OF b rq(1) key(1)] by blast
    let ?cookie = "cookie_generate hmac (build_pathid rq) (kp_cookie_db b)"
    let ?r = "put_uint8 0 @ put_kad_addr_arr addrs @ put_if (cookie_in_reply_ok (kp_rpc b)) (put_gen_id ?cookie)"
    have run: "handle_findsomeval_request hmac rand rq b =
        Inr (h @ ?r, b\<lparr>kp_stat := (kp_stat b)\<lparr>nb_findsomeval_recv := nb_findsomeval_recv (kp_stat b) + 1\<rparr>\<rparr>)"
      using True on h d(1) addrs(1) unfolding handle_findsomeval_request_def Let_def read by (simp add: try_parse_def)
    have "\<forall>a\<in>set addrs. length (m_peerid a) = kad_id_len"
      using addrs(3) peer_invD(14)[OF b] by (auto simp: kb_fq_def)
    moreover have "length addrs < 2 ^ 32" using addrs(2) peer_invD(12)[OF b] by linarith
    ultimately have arr: "get_kad_addr_arr (put_kad_addr_arr addrs @ rest) = Inr (addrs, rest)" for rest
      using kad_addr_arr.get_put by blast
    have "findsomeval_reply_cb (kp_rpc b) ?r =
        Inr (Some (Rpc_addr_arr addrs (if cookie_in_reply_ok (kp_rpc b) then ?cookie else gen_id_ctor cookie_id_len)))"
      using cookie_tail[of "cookie_in_reply_ok (kp_rpc b)" ?cookie] hmac
      by (simp add: findsomeval_reply_cb_def uint8_codec.get_put arr cookie_generate_def cookie_cpu_def try_parse_def)
    moreover have "found_ok hmac (build_pathid rq) key n b
        (Rpc_addr_arr addrs (if cookie_in_reply_ok (kp_rpc b) then ?cookie else gen_id_ctor cookie_id_len))"
      using True d(4) addrs(2,3) by (simp add: found_ok_def)
    ultimately show ?thesis using run h by blast
  next
    case False
    obtain ws where ws: "randomize_order (rand (length (recval_db d))) d = Inr (d\<lparr>recval_db := ws\<rparr>)" "mset ws = mset (recval_db d)"
      using randomize_order_ok[OF draws] by blast
    obtain m where m: "nb_serialized_rec_in_size (replypkt_maxlen (kp_rpc b)) (d\<lparr>recval_db := ws\<rparr>) = Inr m"
      using nb_fit_ok[OF peer_invD(11)[OF b]] by blast
    let ?k = "clamp_nb_rec m (word_of_nat n)"
    let ?r = "put_uint8 1 @ put_uint8 (if length ws - ?k \<noteq> 0 then 1 else 0) @ put_kad_recdups (d\<lparr>recval_db := take ?k ws\<rparr>)"
    have trunc: "truncate_at_tail (length ws - ?k) (d\<lparr>recval_db := ws\<rparr>) = Inr (d\<lparr>recval_db := take ?k ws\<rparr>)"
      using truncate_ok[of "d\<lparr>recval_db := ws\<rparr>" ?k] by simp
    have run: "handle_findsomeval_request hmac rand rq b =
        Inr (h @ ?r, b\<lparr>kp_stat := (kp_stat b)\<lparr>nb_findsomeval_recv := nb_findsomeval_recv (kp_stat b) + 1\<rparr>\<rparr>)"
      using False on h d(1) ws(1) m trunc unfolding handle_findsomeval_request_def Let_def read by (simp add: try_parse_def)
    obtain e rest where e: "get_kad_recdups (put_kad_recdups (d\<lparr>recval_db := take ?k ws\<rparr>)) = Inr (e, rest)"
      "found_ok hmac (build_pathid rq) key (unat (word_of_nat n :: 32 word)) b (Rpc_recdups e (length ws - ?k \<noteq> 0))"
      using reply_recs[OF b d(2,4) False _ ws(2) fits m] d(3) False by blast
    have "findsomeval_reply_cb (kp_rpc b) ?r = Inr (Some (Rpc_recdups e (length ws - ?k \<noteq> 0)))"
      using e(1) by (simp add: findsomeval_reply_cb_def uint8_codec.get_put try_parse_def)
    then show ?thesis using run h e(2) unfolding n by blast
  qed
qed

subsection \<open>Calls\<close>

text \<open>The two ends of a call: the peers, the address that is called, the nonce, and the addresses of the connection as the
  server and the caller see them.\<close>

definition call_ok :: "kad_peer_t \<Rightarrow> kad_peer_t \<Rightarrow> kad_addr_t \<Rightarrow> bytes \<Rightarrow> ipport_addr_t \<Rightarrow> ipport_addr_t \<Rightarrow> bool" where
  "call_ok a b addr nonce remote server \<longleftrightarrow> peer_inv a \<and> peer_inv b \<and> peers_match a b \<and> dest_ok addr b \<and>
     length nonce = kad_nonceid_len \<and> ipport_is_fully_qualified remote = Inr True \<and> ipport_is_fully_qualified server = Inr True"

lemma call_okD:
  assumes "call_ok a b addr nonce remote server"
  shows "peer_inv a" "peer_inv b" "peers_match a b" "dest_ok addr b" "length nonce = kad_nonceid_len"
    "ipport_is_fully_qualified remote = Inr True" "ipport_is_fully_qualified server = Inr True" "kp_profile a = kp_profile b"
  using assms by (simp_all add: call_ok_def peers_match_def)

lemma match_same: "peers_match a b \<Longrightarrow> same_peer b b' \<Longrightarrow> peers_match a b'"
  by (simp add: peers_match_def same_peer_def)

lemma build_pathid_of: "build_pathid rq = pathid_of (rq_remote_oaddr rq) (rq_local_oaddr rq)"
  by (simp add: build_pathid_def pathid_of_def)

lemma wire_nonce_stat [simp]: "wire_nonce (a\<lparr>kp_stat := s\<rparr>) = wire_nonce a" "kad_type (a\<lparr>kp_stat := s\<rparr>) = kad_type a"
  "peers_match (a\<lparr>kp_stat := s\<rparr>) b = peers_match a b"
  by (simp_all add: wire_nonce_def kad_type_def peers_match_def fun_eq_iff)

lemma store_call_ok:
  assumes call: "call_ok a b addr nonce remote server" and d: "wire_dups d" "dups_fit d (kp_remote_db b)"
    and len: "length cookie = cookie_id_len" and on: "store_rpc_ok (kp_rpc b)"
    and cookie: "cookie_store_ok (kp_rpc b) \<longrightarrow> cookie_check hmac (pathid_of remote local) cookie (kp_cookie_db b)"
  shows "\<exists>pkt cr a1 reply rs b' rs' a'.
    store_rpc_start d cookie addr nonce a = Inr (pkt, cr, a1) \<and>
    handle_request_pkt hmac c rand started pkt local remote b = Inr (reply, rs, b') \<and>
    client_handle_reply store_reply_cb started' reply server cr a1 = Inr (Some Rpc_completed, rs', a') \<and>
    peer_inv a' \<and> peer_inv b' \<and> same_peer b b' \<and> kp_cookie_db b' = kp_cookie_db b \<and>
    (\<forall>r\<in>set (recs_of d). recid_db (kp_remote_db b') (kr_recid r) = Some (stored_as c r (kp_remote_db b))) \<and>
    (\<forall>p. p \<notin> kr_recid ` set (recs_of d) \<longrightarrow> recid_db (kp_remote_db b') p = recid_db (kp_remote_db b) p) \<and>
    same_db (kp_remote_db b) (kp_remote_db b')"
proof -
  note C = call_okD[OF call]
  let ?payload = "store_request_payload (kp_rpc a) d cookie"
  let ?cr = "\<lparr>cr_remote_addr = addr, cr_reply_pkttype = kad_type a ''STORE_REPLY'', cr_request_nonce = nonce\<rparr>"
  let ?rqf = "\<lambda>f. \<lparr>rq_pkttype = kad_type a ''STORE_REQUEST'', rq_pkt = ?payload, rq_nonce = wire_nonce a nonce,
        rq_local_oaddr = local, rq_remote_oaddr = remote, rq_filter = f\<rparr>"
  obtain pkt f rs b1 where start: "client_rpc_start a ?payload ''STORE_REQUEST'' ''STORE_REPLY'' addr nonce = Inr (pkt, ?cr)"
    and b1: "peer_inv b1" "same_peer b b1" "kp_remote_db b1 = kp_remote_db b" "kp_cookie_db b1 = kp_cookie_db b"
    and rq: "request_ok (?rqf f)"
    and run: "\<And>reply b2. dispatch_request hmac c rand (?rqf f) b1 = Inr (reply, b2) \<Longrightarrow>
       \<exists>b3. handle_request_pkt hmac c rand started pkt local remote b = Inr (reply, rs, b3) \<and>
          kp_remote_db b3 = kp_remote_db b2 \<and> kp_cookie_db b3 = kp_cookie_db b2 \<and> kp_kbucket b3 = kp_kbucket b2 \<and>
          peer_inv b3 = peer_inv b2 \<and> (same_peer b b2 \<longrightarrow> same_peer b b3)"
    using request_reaches_handler[where payload = ?payload and hmac = hmac and c = c and rand = rand and started = started and local = local,
      OF C(1-5) known_names(7) known_names(2) C(6)] by blast
  let ?rq = "?rqf f"
  have prof: "kp_profile b1 = kp_profile b" using b1(2) by (simp add: same_peer_def)
  have ck: "cookie_store_ok (kp_rpc b1) \<longrightarrow> cookie_check hmac (build_pathid ?rq) cookie (kp_cookie_db b1)"
    using cookie prof b1(4) by (simp add: build_pathid_of)
  have pkt_eq: "rq_pkt ?rq = store_request_payload (kp_rpc b1) d cookie" using prof C(8) by simp
  have fit: "dups_fit d (kp_remote_db b1)" using d(2) b1(3) by simp
  have on1: "store_rpc_ok (kp_rpc b1)" using on prof by simp
  obtain h b2 where h: "handle_store_request hmac c ?rq b1 = Inr (h, b2)" "server_rep_header ''STORE_REPLY'' ?rq b1 = Inr h"
    "peer_inv b2" "same_peer b1 b2" "kp_cookie_db b2 = kp_cookie_db b1"
    "\<forall>r\<in>set (recs_of d). recid_db (kp_remote_db b2) (kr_recid r) = Some (stored_as c r (kp_remote_db b1))"
    "\<forall>p. p \<notin> kr_recid ` set (recs_of d) \<longrightarrow> recid_db (kp_remote_db b2) p = recid_db (kp_remote_db b1) p"
    "same_db (kp_remote_db b1) (kp_remote_db b2)"
    using handle_store_effect[OF b1(1) rq pkt_eq d(1) fit len on1 ck, of c] by blast
  have ty: "kad_type a ''STORE_REQUEST'' = 2 + pt_offset (kp_pkttype b1)" using prof C(8) by (simp add: kad_type_def request_ranks)
  have "dispatch_request hmac c rand ?rq b1 = Inr (h, b2)"
    using h(1) ty by (simp add: dispatch_request_eq[OF b1(1)])
  then obtain b3 where b3: "handle_request_pkt hmac c rand started pkt local remote b = Inr (h, rs, b3)"
    "kp_remote_db b3 = kp_remote_db b2" "kp_cookie_db b3 = kp_cookie_db b2" "peer_inv b3" "same_peer b b3"
    using run h(3) same_peer_trans[OF b1(2) h(4)] by blast
  let ?a = "a\<lparr>kp_stat := (kp_stat a)\<lparr>nb_store_sent := nb_store_sent (kp_stat a) + 1\<rparr>\<rparr>"
  have a1: "peer_inv ?a" using C(1) by simp
  have start1: "store_rpc_start d cookie addr nonce a = Inr (pkt, ?cr, ?a)" using start by (simp add: store_rpc_start_def)
  have "store_reply_cb [] = Inr (Some Rpc_completed)" by (simp add: store_reply_cb_def)
  from reply_reaches_caller[where cb = store_reply_cb and started = started' and addr = addr,
      OF a1 b1(1) _ rq _ C(5) known_names(2) h(2) this C(7)]
  obtain rs' a' where "client_handle_reply store_reply_cb started' h server ?cr ?a = Inr (Some Rpc_completed, rs', a')" "peer_inv a'"
    using match_same[OF C(3) b1(2)] by auto
  moreover have "kp_cookie_db b3 = kp_cookie_db b" using b3(3) h(5) b1(4) by simp
  moreover note h(6-8)[unfolded b1(3), folded b3(2)]
  ultimately show ?thesis using start1 b3(1,4,5) by blast
qed

lemma found_ok_cong:
  assumes "kp_remote_db b' = kp_remote_db b" "kp_cookie_db b' = kp_cookie_db b" "kp_kbucket b' = kp_kbucket b" "kp_profile b' = kp_profile b"
  shows "found_ok hmac path key n b' event = found_ok hmac path key n b event"
  using assms by (simp add: found_ok_def split: kad_rpc_event.split)

lemma find_call_ok:
  assumes call: "call_ok a b addr nonce remote server" and key: "length key = kad_id_len" "n < 2 ^ 32"
    and on: "findsomeval_rpc_ok (kp_rpc b)" and fits: "reply_fits (kp_rpc b)" and draws: "draws_ok rand"
    and hmac: "\<And>s p. length (hmac s p) = cookie_id_len"
  shows "\<exists>pkt cr a1 reply rs b' event rs' a'.
    findsomeval_rpc_start key n addr nonce a = Inr (pkt, cr, a1) \<and>
    handle_request_pkt hmac c rand started pkt local remote b = Inr (reply, rs, b') \<and>
    client_handle_reply (findsomeval_reply_cb (kp_rpc a)) started' reply server cr a1 = Inr (Some event, rs', a') \<and>
    peer_inv a' \<and> peer_inv b' \<and> same_peer b b' \<and> kp_cookie_db b' = kp_cookie_db b \<and> kp_remote_db b' = kp_remote_db b \<and>
    found_ok hmac (pathid_of remote local) key n b' event"
proof -
  note C = call_okD[OF call]
  let ?payload = "findsomeval_request_payload key n"
  let ?cr = "\<lparr>cr_remote_addr = addr, cr_reply_pkttype = kad_type a ''FINDSOMEVAL_REPLY'', cr_request_nonce = nonce\<rparr>"
  let ?rqf = "\<lambda>f. \<lparr>rq_pkttype = kad_type a ''FINDSOMEVAL_REQUEST'', rq_pkt = ?payload, rq_nonce = wire_nonce a nonce,
        rq_local_oaddr = local, rq_remote_oaddr = remote, rq_filter = f\<rparr>"
  obtain pkt f rs b1 where start: "client_rpc_start a ?payload ''FINDSOMEVAL_REQUEST'' ''FINDSOMEVAL_REPLY'' addr nonce = Inr (pkt, ?cr)"
    and b1: "peer_inv b1" "same_peer b b1" "kp_remote_db b1 = kp_remote_db b" "kp_cookie_db b1 = kp_cookie_db b"
    and rq: "request_ok (?rqf f)"
    and run: "\<And>reply b2. dispatch_request hmac c rand (?rqf f) b1 = Inr (reply, b2) \<Longrightarrow>
       \<exists>b3. handle_request_pkt hmac c rand started pkt local remote b = Inr (reply, rs, b3) \<and>
          kp_remote_db b3 = kp_remote_db b2 \<and> kp_cookie_db b3 = kp_cookie_db b2 \<and> kp_kbucket b3 = kp_kbucket b2 \<and>
          peer_inv b3 = peer_inv b2 \<and> (same_peer b b2 \<longrightarrow> same_peer b b3)"
    using request_reaches_handler[where payload = ?payload and hmac = hmac and c = c and rand = rand and started = started and local = local,
      OF C(1-5) known_names(8) known_names(4) C(6)] by blast
  let ?rq = "?rqf f"
  let ?b2 = "b1\<lparr>kp_stat := (kp_stat b1)\<lparr>nb_findsomeval_recv := nb_findsomeval_recv (kp_stat b1) + 1\<rparr>\<rparr>"
  have prof: "kp_profile b1 = kp_profile b" using b1(2) by (simp add: same_peer_def)
  have on1: "findsomeval_rpc_ok (kp_rpc b1)" "reply_fits (kp_rpc b1)" using on fits prof by simp_all
  have pkt_eq: "rq_pkt ?rq = findsomeval_request_payload key n" by simp
  obtain h r event where h: "handle_findsomeval_request hmac rand ?rq b1 = Inr (h @ r, ?b2)"
    "server_rep_header ''FINDSOMEVAL_REPLY'' ?rq b1 = Inr h" "findsomeval_reply_cb (kp_rpc b1) r = Inr (Some event)"
    "found_ok hmac (build_pathid ?rq) key n b1 event"
    using handle_findsomeval_effect[where hmac = hmac, OF b1(1) rq pkt_eq key on1 draws hmac] by blast
  have ty: "kad_type a ''FINDSOMEVAL_REQUEST'' = 6 + pt_offset (kp_pkttype b1)" using prof C(8) by (simp add: kad_type_def request_ranks)
  have "dispatch_request hmac c rand ?rq b1 = Inr (h @ r, ?b2)"
    using h(1) ty by (simp add: dispatch_request_eq[OF b1(1)])
  moreover have "peer_inv ?b2" "same_peer b ?b2" using b1(1,2) by (simp_all add: same_peer_def)
  ultimately obtain b3 where b3: "handle_request_pkt hmac c rand started pkt local remote b = Inr (h @ r, rs, b3)"
    "kp_remote_db b3 = kp_remote_db ?b2" "kp_cookie_db b3 = kp_cookie_db ?b2" "kp_kbucket b3 = kp_kbucket ?b2" "peer_inv b3" "same_peer b b3"
    using run by blast
  let ?a = "a\<lparr>kp_stat := (kp_stat a)\<lparr>nb_findsomeval_sent := nb_findsomeval_sent (kp_stat a) + 1\<rparr>\<rparr>"
  have a1: "peer_inv ?a" using C(1) by simp
  have start1: "findsomeval_rpc_start key n addr nonce a = Inr (pkt, ?cr, ?a)" using start by (simp add: findsomeval_rpc_start_def)
  have cb: "findsomeval_reply_cb (kp_rpc a) r = Inr (Some event)" using h(3) prof C(8) by simp
  from reply_reaches_caller[where cb = "findsomeval_reply_cb (kp_rpc a)" and started = started' and addr = addr,
      OF a1 b1(1) _ rq _ C(5) known_names(4) h(2) cb C(7)]
  obtain rs' a' where "client_handle_reply (findsomeval_reply_cb (kp_rpc a)) started' (h @ r) server ?cr ?a = Inr (Some event, rs', a')"
    "peer_inv a'" using match_same[OF C(3) b1(2)] by auto
  moreover have "found_ok hmac (pathid_of remote local) key n b3 event"
  proof -
    have "kp_profile b3 = kp_profile b1" using b3(6) prof by (simp add: same_peer_def)
    then have "found_ok hmac (build_pathid ?rq) key n b3 event"
      using h(4) b3(2-4) found_ok_cong[of b3 b1] by simp
    then show ?thesis by (simp add: build_pathid_of)
  qed
  moreover have "kp_cookie_db b3 = kp_cookie_db b" "kp_remote_db b3 = kp_remote_db b" using b3(2,3) b1(3,4) by simp_all
  ultimately show ?thesis using start1 b3(1,5,6) by blast
qed

subsection \<open>Cookies\<close>

text \<open>Without a valid cookie in the packet the records do not change.\<close>

definition holds_cookie :: "(bytes \<Rightarrow> bytes \<Rightarrow> bytes) \<Rightarrow> bytes \<Rightarrow> cookie_db_t \<Rightarrow> bytes \<Rightarrow> bool" where
  "holds_cookie hmac pathid st pkt \<longleftrightarrow>
     list_ex (\<lambda>i. i + cookie_id_len \<le> length pkt \<and> cookie_check hmac pathid (take cookie_id_len (drop i pkt)) st) [0..<Suc (length pkt)]"

lemma holds_cookie_append: "holds_cookie hmac pathid st q \<Longrightarrow> holds_cookie hmac pathid st (p @ q)"
proof -
  assume "holds_cookie hmac pathid st q"
  then obtain i where i: "i + cookie_id_len \<le> length q" "cookie_check hmac pathid (take cookie_id_len (drop i q)) st"
    unfolding holds_cookie_def list_ex_iff by blast
  then show ?thesis
    unfolding holds_cookie_def list_ex_iff by (intro bexI[of _ "length p + i"]) auto
qed

lemma get_cookie_holds:
  assumes "get_gen_id cookie_id_len pkt = Inr (cookie, rest)" "cookie_check hmac pathid cookie st"
  shows "holds_cookie hmac pathid st pkt"
proof -
  have "cookie = take cookie_id_len pkt" "cookie_id_len \<le> length pkt" using assms(1) by (auto simp: get_gen_id_def split: if_splits)
  then show ?thesis unfolding holds_cookie_def list_ex_iff using assms(2) by (intro bexI[of _ 0]) auto
qed

text \<open>A reader leaves an end of what it was given.\<close>

definition leaves_end :: "'a reader \<Rightarrow> bool" where
  "leaves_end get \<longleftrightarrow> (\<forall>bs v rest. get bs = Inr (v, rest) \<longrightarrow> (\<exists>p. bs = p @ rest))"

lemma leaves_endD: "leaves_end get \<Longrightarrow> get bs = Inr (v, rest) \<Longrightarrow> \<exists>p. bs = p @ rest"
  by (simp add: leaves_end_def)

lemma leaves_end_bind:
  assumes "leaves_end get" "\<And>v. leaves_end (f v)"
  shows "leaves_end (\<lambda>bs. res_bind (get bs) (\<lambda>(v, bs). f v bs))"
  unfolding leaves_end_def
proof (intro allI impI)
  fix bs v rest
  assume "res_bind (get bs) (\<lambda>(v, bs). f v bs) = Inr (v, rest)"
  then obtain w bs1 where "get bs = Inr (w, bs1)" "f w bs1 = Inr (v, rest)" by (auto simp: res_bind_eq_Inr_iff)
  then obtain p q where "bs = p @ bs1" "bs1 = q @ rest" using assms unfolding leaves_end_def by meson
  then show "\<exists>p. bs = p @ rest" by simp
qed

lemma leaves_end_Inr [simp]: "leaves_end (\<lambda>bs. Inr (v, bs))"
  by (simp add: leaves_end_def)

lemma leaves_end_codecs:
  "leaves_end (get_gen_id n)" "leaves_end get_uint8" "leaves_end get_uint16" "leaves_end get_uint32" "leaves_end get_kad_addr"
  "leaves_end get_datum" "leaves_end get_delay"
  using gen_id_codec.get_prefix uint8_codec.get_prefix uint16_codec.get_prefix uint32_codec.get_prefix kad_addr_codec.get_prefix
    datum_codec.get_prefix delay_codec.get_prefix by (simp_all add: leaves_end_def)

lemma leaves_end_get_if: "leaves_end get \<Longrightarrow> leaves_end (get_if b get dfl)"
  by (auto simp: leaves_end_def get_if_def)

lemma leaves_end_pkttype: "leaves_end (pkttype_unserialize p)"
  unfolding leaves_end_def
proof (intro allI impI)
  fix bs v rest
  assume *: "pkttype_unserialize p bs = Inr (v, rest)"
  have "\<exists>w. get_uint8 bs = Inr (w, rest)" if "pt_serial_type p = PT_UINT8"
    using * that by (auto simp: pkttype_unserialize_def res_bind_eq_Inr_iff dbg_assert_eq_Inr_iff)
  moreover have "\<exists>w. get_uint16 bs = Inr (w, rest)" if "pt_serial_type p = PT_UINT16"
    using * that by (auto simp: pkttype_unserialize_def res_bind_eq_Inr_iff dbg_assert_eq_Inr_iff)
  moreover have "\<exists>w. get_uint32 bs = Inr (w, rest)" if "pt_serial_type p = PT_UINT32"
    using * that by (auto simp: pkttype_unserialize_def res_bind_eq_Inr_iff dbg_assert_eq_Inr_iff)
  moreover have "pt_serial_type p \<noteq> PT_NONE"
    using * by (auto simp: pkttype_unserialize_def pkttype_profile_is_null_def dbg_assert_eq_Inr_iff)
  ultimately show "\<exists>q. bs = q @ rest"
    using leaves_end_codecs(2-4) by (cases "pt_serial_type p") (auto dest: leaves_endD)
qed

lemma leaves_end_recvals: "leaves_end (\<lambda>bs. get_recvals n key d bs)"
proof (induction n arbitrary: d)
  case (Suc n)
  show ?case
    unfolding leaves_end_def
  proof (intro allI impI)
    fix bs v rest
    assume "get_recvals (Suc n) key d bs = Inr (v, rest)"
    then obtain i bs1 x bs2 t bs3 d' where "get_gen_id kad_id_len bs = Inr (i, bs1)" "get_datum bs1 = Inr (x, bs2)" "get_delay bs2 = Inr (t, bs3)"
      "get_recvals n key d' bs3 = Inr (v, rest)" by (auto simp: res_bind_eq_Inr_iff)
    then obtain p1 p2 p3 p4 where "bs = p1 @ bs1" "bs1 = p2 @ bs2" "bs2 = p3 @ bs3" "bs3 = p4 @ rest"
      using leaves_end_codecs Suc.IH by (meson leaves_endD)
    then show "\<exists>p. bs = p @ rest" by simp
  qed
qed (simp add: leaves_end_def)

lemma leaves_end_recdups: "leaves_end get_kad_recdups"
  unfolding leaves_end_def
proof (intro allI impI)
  fix bs v rest
  assume *: "get_kad_recdups bs = Inr (v, rest)"
  then obtain n bs1 where n: "get_uint32 bs = Inr (n, bs1)"
    "(if n = 0 then Inr (kad_recdups_ctor, bs1)
       else res_bind (get_gen_id kad_id_len bs1) (\<lambda>(keyid, bs). get_recvals (unat n) keyid kad_recdups_ctor bs)) = Inr (v, rest)"
    by (auto simp: get_kad_recdups_def res_bind_eq_Inr_iff)
  obtain p where p: "bs = p @ bs1" using n(1) leaves_end_codecs(4) by (meson leaves_endD)
  show "\<exists>p. bs = p @ rest"
  proof (cases "n = 0")
    case True
    then show ?thesis using n(2) p by simp
  next
    case False
    then obtain key bs2 where "get_gen_id kad_id_len bs1 = Inr (key, bs2)" "get_recvals (unat n) key kad_recdups_ctor bs2 = Inr (v, rest)"
      using n(2) by (auto simp: res_bind_eq_Inr_iff)
    then obtain q r where "bs1 = q @ bs2" "bs2 = r @ rest"
      using leaves_end_codecs(1) leaves_end_recvals by (meson leaves_endD)
    then show ?thesis using p by simp
  qed
qed

lemma parse_req_header_end:
  assumes "parse_req_header st pkt = Inr (Some (t, src, nonce, rest))"
  shows "\<exists>p. pkt = p @ rest"
proof -
  obtain realm dest where "read_req_header st pkt = Inr ((t, realm, dest, src, nonce), rest)"
    using assms by (auto simp: parse_req_header_def try_parse_def res_bind_eq_Inr_iff
        split: sum.splits neoip_error.splits option.splits if_splits)
  moreover have "leaves_end (read_req_header st)"
    unfolding read_req_header_def[abs_def]
    by (intro leaves_end_bind leaves_end_pkttype leaves_end_get_if leaves_end_codecs leaves_end_Inr)
  ultimately show ?thesis by (rule leaves_endD[rotated])
qed

lemma handle_store_needs_cookie:
  assumes "handle_store_request hmac c rq st = Inr (reply, st')" "cookie_store_ok (kp_rpc st)"
    "\<not> holds_cookie hmac (build_pathid rq) (kp_cookie_db st) (rq_pkt rq)"
  shows "kp_remote_db st' = kp_remote_db st"
proof (cases "store_rpc_ok (kp_rpc st)")
  case False
  then show ?thesis using assms(1) by (auto simp: handle_store_request_def Let_def)
next
  case True
  let ?read = "res_bind (get_kad_recdups (rq_pkt rq)) (\<lambda>(d, pkt).
          res_bind (get_if (cookie_store_ok (kp_rpc st)) (get_gen_id cookie_id_len) (gen_id_ctor cookie_id_len) pkt) (\<lambda>(cookie_id, pkt).
            Inr (d, cookie_id)))"
  have bad: "\<not> cookie_check hmac (build_pathid rq) cookie (kp_cookie_db st)" if rd: "?read = Inr (d, cookie)" for d cookie
  proof
    assume ck: "cookie_check hmac (build_pathid rq) cookie (kp_cookie_db st)"
    obtain rest rest' where "get_kad_recdups (rq_pkt rq) = Inr (d, rest)" "get_gen_id cookie_id_len rest = Inr (cookie, rest')"
      using rd assms(2) by (auto simp: res_bind_eq_Inr_iff get_if_def)
    then show False
      using leaves_endD[OF leaves_end_recdups] get_cookie_holds[OF _ ck] holds_cookie_append assms(3) by metis
  qed
  have "\<exists>x. try_parse ?read = Inr x"
  proof (rule try_parse_total)
    show "net_safe (\<lambda>_. True) ?read"
      by (rule net_safe_bind[OF safe_recdups], clarsimp, rule net_safe_bind[OF safe_get_if_gen_id], clarsimp)
  qed
  then obtain x where x: "try_parse ?read = Inr x" by blast
  have "?read = Inr v" if "x = Some v" for v
    using x that unfolding try_parse_def by (auto split: sum.splits neoip_error.splits)
  then show ?thesis
    using assms(1) True x bad assms(2) by (cases x) (auto simp: handle_store_request_def Let_def)
qed

lemma handle_delete_needs_cookie:
  assumes "handle_delete_request hmac rq st = Inr (reply, st')" "cookie_delete_ok (kp_rpc st)"
    "\<not> holds_cookie hmac (build_pathid rq) (kp_cookie_db st) (rq_pkt rq)"
  shows "kp_remote_db st' = kp_remote_db st"
proof (cases "delete_rpc_ok (kp_rpc st)")
  case False
  then show ?thesis using assms(1) by (auto simp: handle_delete_request_def Let_def)
next
  case True
  let ?read = "res_bind (get_gen_id kad_id_len (rq_pkt rq)) (\<lambda>(recid, pkt).
          res_bind (get_if (cookie_delete_ok (kp_rpc st)) (get_gen_id cookie_id_len) (gen_id_ctor cookie_id_len) pkt) (\<lambda>(cookie_id, pkt).
            Inr (recid, cookie_id)))"
  have bad: "\<not> cookie_check hmac (build_pathid rq) cookie (kp_cookie_db st)" if rd: "?read = Inr (d, cookie)" for d cookie
  proof
    assume ck: "cookie_check hmac (build_pathid rq) cookie (kp_cookie_db st)"
    obtain rest rest' where "get_gen_id kad_id_len (rq_pkt rq) = Inr (d, rest)" "get_gen_id cookie_id_len rest = Inr (cookie, rest')"
      using rd assms(2) by (auto simp: res_bind_eq_Inr_iff get_if_def)
    then show False
      using leaves_endD[OF leaves_end_codecs(1)] get_cookie_holds[OF _ ck] holds_cookie_append assms(3) by metis
  qed
  have "\<exists>x. try_parse ?read = Inr x"
  proof (rule try_parse_total)
    show "net_safe (\<lambda>_. True) ?read"
      by (rule net_safe_bind[OF safe_gen_id], clarsimp, rule net_safe_bind[OF safe_get_if_gen_id], clarsimp)
  qed
  then obtain x where x: "try_parse ?read = Inr x" by blast
  have "?read = Inr v" if "x = Some v" for v
    using x that unfolding try_parse_def by (auto split: sum.splits neoip_error.splits)
  then show ?thesis
    using assms(1) True x bad assms(2) by (cases x) (auto simp: handle_delete_request_def Let_def)
qed

lemma reading_handlers:
  assumes "peer_inv st" "request_ok rq" "draws_ok rand"
  shows "handle_ping_request rq st = Inr (reply, st') \<Longrightarrow> kp_remote_db st' = kp_remote_db st"
    "handle_findnode_request hmac rq st = Inr (reply, st') \<Longrightarrow> kp_remote_db st' = kp_remote_db st"
    "handle_findsomeval_request hmac rand rq st = Inr (reply, st') \<Longrightarrow> kp_remote_db st' = kp_remote_db st"
    "handle_findallval_request rq st = Inr (reply, st') \<Longrightarrow> kp_remote_db st' = kp_remote_db st"
  unfolding handle_ping_request_def handle_findnode_request_def handle_findsomeval_request_def handle_findallval_request_def Let_def
  by (auto simp: res_bind_eq_Inr_iff split: if_splits option.splits)

lemma records_need_cookie_ok:
  assumes inv: "peer_inv st" and remote: "ipport_is_fully_qualified remote = Inr True" and draws: "draws_ok rand"
    and need: "cookie_store_ok (kp_rpc st)" "cookie_delete_ok (kp_rpc st)"
    and no: "\<not> holds_cookie hmac (pathid_of remote local) (kp_cookie_db st) pkt"
    and run: "handle_request_pkt hmac c rand started pkt local remote st = Inr (reply, rs, st')"
  shows "kp_remote_db st' = kp_remote_db st"
proof -
  let ?st = "st\<lparr>kp_stat := (kp_stat st)\<lparr>nb_byte_recv := nb_byte_recv (kp_stat st) + word_of_nat (length pkt)\<rparr>\<rparr>"
  have same: "parse_req_header ?st pkt = parse_req_header st pkt" by (rule parse_req_header_same) simp
  have nt: "\<not> type_harmful (kp_pkttype st) pkt"
    using handle_request_pkt_ok[OF inv remote draws, of pkt hmac c started local] run by (auto simp: pkt_harmful_def split: if_splits)
  from parse_req_header_ok[OF peer_invD(9)[OF inv] nt] show ?thesis
  proof (elim disjE exE conjE)
    assume "parse_req_header st pkt = Inr None"
    then show ?thesis using run same by (auto simp: handle_request_pkt_def Let_def)
  next
    fix t src nonce rest
    assume p: "parse_req_header st pkt = Inr (Some (t, src, nonce, rest))" and src: "length (m_peerid src) = kad_id_len"
    have "\<not> src_harmful src"
      using handle_request_pkt_ok[OF inv remote draws, of pkt hmac c started local] run p by (auto simp: pkt_harmful_def split: if_splits)
    then obtain rs1 st1 where st1: "srckaddr_parse started src remote ?st = Inr (rs1, st1)" "peer_inv st1" "same_peer ?st st1"
      "kp_remote_db st1 = kp_remote_db st" "kp_cookie_db st1 = kp_cookie_db st"
      using srckaddr_parse_ok[of ?st remote src started] inv remote src by auto
    obtain f where f: "choose_filter remote = Inr f" "\<forall>a. \<exists>b. f a = Inr b" using choose_filter_ok by blast
    let ?rq = "\<lparr>rq_pkttype = t, rq_pkt = rest, rq_nonce = nonce, rq_local_oaddr = local, rq_remote_oaddr = remote, rq_filter = f\<rparr>"
    have rq: "request_ok ?rq" using f(2) remote by (simp add: request_ok_def)
    obtain reply st2 where d: "dispatch_request hmac c rand ?rq st1 = Inr (reply, st2)" "kp_remote_db st' = kp_remote_db st2"
      using run same p st1(1) f(1) by (auto simp: handle_request_pkt_def Let_def res_bind_eq_Inr_iff)
    obtain q where "pkt = q @ rest" using parse_req_header_end[OF p] by blast
    then have no1: "\<not> holds_cookie hmac (build_pathid ?rq) (kp_cookie_db st1) (rq_pkt ?rq)"
      using no holds_cookie_append st1(5) by (auto simp: build_pathid_of)
    have need1: "cookie_store_ok (kp_rpc st1)" "cookie_delete_ok (kp_rpc st1)" using need st1(3) by (simp_all add: same_peer_def)
    have "kp_remote_db st2 = kp_remote_db st1"
      using d(1) handle_store_needs_cookie[OF _ need1(1) no1] handle_delete_needs_cookie[OF _ need1(2) no1]
        reading_handlers[OF st1(2) rq draws]
      unfolding dispatch_request_eq[OF st1(2)] by (auto split: if_splits)
    then show ?thesis using d(2) st1(4) by simp
  qed
qed

subsection \<open>Storing and looking up\<close>

definition dups_fresh :: "kad_recdups_t \<Rightarrow> kad_db_t \<Rightarrow> bool" where
  "dups_fresh d db \<longleftrightarrow> list_all (\<lambda>v. recid_db db (rv_recid v) = None) (recval_db d)"

lemma stored_fresh_found:
  assumes "dups_fresh d db" "same_db db db'" "\<forall>r\<in>set (recs_of d). recid_db db' (kr_recid r) = Some (stored_as c r db)"
  shows "set (recval_db d) \<subseteq> key_recs (rd_keyid d) db'"
proof
  fix v assume v: "v \<in> set (recval_db d)"
  let ?r = "rec_of_recval (rd_keyid d) v"
  have "kr_recid ?r = rv_recid v" by (simp add: rec_of_recval_def)
  then have "stored_as c ?r db = db_entry c ?r db" using assms(1) v by (simp add: dups_fresh_def list_all_iff stored_as_def)
  moreover have "recid_db db' (kr_recid ?r) = Some (stored_as c ?r db)" using assms(3) v by auto
  ultimately have x: "recid_db db' (rv_recid v) = Some (db_entry c ?r db)" by (simp add: rec_of_recval_def)
  have "recval_ctor (db_get_kad_rec (db_entry c ?r db) db') = v"
    using assms(2) by (simp add: recval_ctor_def db_get_kad_rec_def db_entry_def cpu_expire_delay_def same_db_def rec_of_recval_def)
  moreover have "kr_keyid (dr_rec (db_entry c ?r db)) = rd_keyid d" by (simp add: db_entry_def rec_of_recval_def)
  ultimately show "v \<in> key_recs (rd_keyid d) db'"
    using x unfolding key_recs_def mem_Collect_eq
    by (intro exI[of _ "rv_recid v"] exI[of _ "db_entry c ?r db"] conjI) (simp_all only:)
qed

subsection \<open>Properties\<close>

text \<open>Two started peers for the examples.\<close>

lemma kad_peer_start_fields:
  assumes "kad_peer_start profile aview realm peerid secret = Inr st"
  shows "kp_profile st = profile" "kp_realm_id st = realm" "kp_local_peerid st = peerid"
    "kp_remote_db st = kad_db_ctor (profile_remote_db profile) True peerid" "kp_cookie_db st = cookie_db_ctor secret"
  using assms by (auto simp: kad_peer_start_def Let_def res_bind_eq_Inr_iff dbg_assert_eq_Inr_iff)

definition flow_ex_addr :: kad_addr_t where
  "flow_ex_addr = \<lparr>m_oaddr = rpc_ex_oaddr, m_peerid = gen_id_ctor kad_id_len\<rparr>"

definition flow_ex_nonce :: bytes where "flow_ex_nonce = replicate 8 3"

lemma flow_ex_call:
  assumes "kad_peer_start rpc_ex_profile rpc_ex_aview rpc_ex_realm (kb_ex_id 19 1) [7] = Inr st" "peer_inv st"
  shows "call_ok st st flow_ex_addr flow_ex_nonce rpc_ex_oaddr rpc_ex_oaddr" "dest_ok flow_ex_addr st"
    "length flow_ex_nonce = kad_nonceid_len"
    "ipport_is_fully_qualified rpc_ex_oaddr = Inr True" "reply_fits (kp_rpc st)" "store_rpc_ok (kp_rpc st)" "findsomeval_rpc_ok (kp_rpc st)"
    "peers_match st st"
proof -
  show fq: "ipport_is_fully_qualified rpc_ex_oaddr = Inr True" by code_simp
  show dest: "dest_ok flow_ex_addr st"
    using fq by (simp add: dest_ok_def flow_ex_addr_def gen_id_ctor_def gen_id_is_null_def)
  show len: "length flow_ex_nonce = kad_nonceid_len" by (simp add: flow_ex_nonce_def kad_nonceid_len_def)
  show match: "peers_match st st" by (simp add: peers_match_def)
  show "call_ok st st flow_ex_addr flow_ex_nonce rpc_ex_oaddr rpc_ex_oaddr"
    using assms(2) fq dest len match by (simp add: call_ok_def)
  show "reply_fits (kp_rpc st)" "store_rpc_ok (kp_rpc st)" "findsomeval_rpc_ok (kp_rpc st)"
    unfolding kad_peer_start_fields(1)[OF assms(1)]
    by (simp_all add: rpc_ex_profile_def kad_profile_ctor_def kad_rpc_profile_ctor_def reply_fits_def get_serial_hd_vals)
qed

text \<open>C28. The header of a request or of a reply that one peer writes is read by another peer of the same profile and realm as it was
  written, whatever follows it: the packet type, the nonce, and as the source address exactly what the writer announces towards
  the other side, its listen address for local destinations, its public one or none for public ones, with its own identifier.
  The fields that the profile leaves out are read as null.\<close>
theorem rpc_headers_roundtrip:
  assumes "peer_inv a" "peer_inv b" "peers_match a b" "dest_ok addr b" "length nonce = kad_nonceid_len"
    "name \<in> set kad_pkttype_names" "ipport_is_fully_qualified remote = Inr True"
  shows "(\<exists>h src. build_req_header a addr (kad_type a name) nonce = Inr h \<and> announces a (m_oaddr addr) src \<and> \<not> src_harmful src \<and>
      (\<forall>rest. parse_req_header b (h @ rest) = Inr (Some (kad_type a name, src, wire_nonce a nonce, rest)))) \<and>
    (\<exists>h src. build_rep_header b remote (kad_type a name) (wire_nonce a nonce) = Inr h \<and> announces b remote src \<and> \<not> src_harmful src \<and>
      (\<forall>rest. parse_rep_header a (h @ rest) = Inr (Some (kad_type a name, src, wire_nonce a nonce, rest))))"
proof
  show "\<exists>h src. build_req_header a addr (kad_type a name) nonce = Inr h \<and> announces a (m_oaddr addr) src \<and> \<not> src_harmful src \<and>
      (\<forall>rest. parse_req_header b (h @ rest) = Inr (Some (kad_type a name, src, wire_nonce a nonce, rest)))"
    using req_header_roundtrip[OF assms(1-6)] srckaddr_build_announces[OF assms(1)] by blast
next
  let ?rq = "\<lparr>rq_pkttype = 0, rq_pkt = [], rq_nonce = wire_nonce a nonce, rq_local_oaddr = remote, rq_remote_oaddr = remote,
      rq_filter = filter_fct_dstlocalhost\<rparr>"
  have ty: "kad_pkttype (kp_pkttype b) name = Inr (kad_type a name)"
    using known_type[OF assms(2,6)] assms(3) by (simp add: kad_type_def peers_match_def)
  obtain h where h: "server_rep_header name ?rq b = Inr h"
    using server_rep_header_ok[OF assms(2), of ?rq] assms(6,7) by auto
  then have build: "build_rep_header b remote (kad_type a name) (wire_nonce a nonce) = Inr h" using ty by (simp add: server_rep_header_def)
  have "req_nonce_in_pkt_ok (kp_rpc a) \<longrightarrow> length (rq_nonce ?rq) = kad_nonceid_len" using assms(5) by (simp add: wire_nonce_def)
  from rep_header_roundtrip[OF assms(2,1,3) _ this assms(6) h] assms(7) build srckaddr_build_announces[OF assms(2)]
  show "\<exists>h src. build_rep_header b remote (kad_type a name) (wire_nonce a nonce) = Inr h \<and> announces b remote src \<and> \<not> src_harmful src \<and>
      (\<forall>rest. parse_rep_header a (h @ rest) = Inr (Some (kad_type a name, src, wire_nonce a nonce, rest)))" by auto
qed

theorem rpc_headers_roundtrip_witness:
  "\<exists>st h src. kad_peer_start rpc_ex_profile rpc_ex_aview rpc_ex_realm (kb_ex_id 19 1) [7] = Inr st \<and>
     build_req_header st flow_ex_addr (kad_type st ''PING_REQUEST'') flow_ex_nonce = Inr h \<and>
     parse_req_header st (h @ [1, 2]) = Inr (Some (kad_type st ''PING_REQUEST'', src, wire_nonce st flow_ex_nonce, [1, 2]))"
proof -
  obtain st where st: "kad_peer_start rpc_ex_profile rpc_ex_aview rpc_ex_realm (kb_ex_id 19 1) [7] = Inr st" "peer_inv st"
    using kad_peer_start_ok[OF rpc_ex_cfg] by blast
  note E = flow_ex_call[OF st]
  show ?thesis using rpc_headers_roundtrip[OF st(2) st(2) E(8,2,3) known_names(11) E(4)] st(1) by blast
qed

text \<open>C9. A look up by \<open>FINDSOMEVAL\<close>, from the call of one peer through the server of another and back: the caller is told records of the key
  only, none twice, at most as many as it asked for and as fit in a packet, with the flag for more records exactly when some are left
  out; or, when there is no record of the key, nodes of the routing table with a cookie that the server accepts for the address of the
  caller.  The records and the cookies of the server are as before.\<close>
theorem lookup_call:
  assumes "call_ok a b addr nonce remote server" "length key = kad_id_len" "n < 2 ^ 32"
    "findsomeval_rpc_ok (kp_rpc b)" "reply_fits (kp_rpc b)" "draws_ok rand" "\<And>s p. length (hmac s p) = cookie_id_len"
  shows "\<exists>pkt cr a1 reply rs b' event rs' a'.
    findsomeval_rpc_start key n addr nonce a = Inr (pkt, cr, a1) \<and>
    handle_request_pkt hmac c rand started pkt local remote b = Inr (reply, rs, b') \<and>
    client_handle_reply (findsomeval_reply_cb (kp_rpc a)) started' reply server cr a1 = Inr (Some event, rs', a') \<and>
    peer_inv a' \<and> peer_inv b' \<and> kp_cookie_db b' = kp_cookie_db b \<and> kp_remote_db b' = kp_remote_db b \<and>
    found_ok hmac (pathid_of remote local) key n b' event"
  using find_call_ok[where hmac = hmac and c = c and started = started and started' = started' and local = local, OF assms(1-6)]
    assms(7) by blast

theorem lookup_call_witness:
  "\<exists>st pkt cr a1 reply rs b'. kad_peer_start rpc_ex_profile rpc_ex_aview rpc_ex_realm (kb_ex_id 19 1) [7] = Inr st \<and>
     findsomeval_rpc_start (replicate 20 3) 0 flow_ex_addr flow_ex_nonce st = Inr (pkt, cr, a1) \<and>
     handle_request_pkt cookie_ex_hmac kr_ttl (\<lambda>n i. (i mod n, 0)) False pkt rpc_ex_oaddr rpc_ex_oaddr st = Inr (reply, rs, b')"
proof -
  obtain st where st: "kad_peer_start rpc_ex_profile rpc_ex_aview rpc_ex_realm (kb_ex_id 19 1) [7] = Inr st" "peer_inv st"
    using kad_peer_start_ok[OF rpc_ex_cfg] by blast
  note E = flow_ex_call[OF st]
  have len: "length (replicate 20 (3 :: byte)) = kad_id_len" "(0 :: nat) < 2 ^ 32" by (simp_all add: kad_id_len_def)
  have hmac: "length (cookie_ex_hmac s p) = cookie_id_len" for s p by (simp add: cookie_ex_hmac_def cookie_id_len_def)
  show ?thesis
    using lookup_call[where hmac = cookie_ex_hmac and c = kr_ttl and started = False and started' = False and local = rpc_ex_oaddr,
        OF E(1) len E(7,5) draws_ex hmac] st(1) by blast
qed

text \<open>C5. A store followed by a look up, each from the call of a peer through the server and back.  When the records fit the limits of the
  database, are new to it and come with a cookie that the server accepts where it asks for one, the storing peer is told that the call is
  completed, and any peer that then asks for all the records of the key is told records, not nodes; unless the flag says
  that there are more than fit in a packet, all the stored ones are among them with their payload and time to live.\<close>
theorem store_then_find:
  assumes "call_ok a b addr nonce remote server" "wire_dups d" "dups_fit d (kp_remote_db b)" "dups_fresh d (kp_remote_db b)"
    "length cookie = cookie_id_len" "store_rpc_ok (kp_rpc b)"
    "cookie_store_ok (kp_rpc b) \<longrightarrow> cookie_check hmac (pathid_of remote local) cookie (kp_cookie_db b)"
    "call_ok e b addr2 nonce2 remote2 server2" "findsomeval_rpc_ok (kp_rpc b)" "reply_fits (kp_rpc b)" "draws_ok rand"
    "\<And>s p. length (hmac s p) = cookie_id_len"
  shows "\<exists>pkt cr a1 reply rs b1 rs' a' pkt2 cr2 e1 reply2 rs2 b2 found has_more rs2' e'.
    store_rpc_start d cookie addr nonce a = Inr (pkt, cr, a1) \<and>
    handle_request_pkt hmac c rand started pkt local remote b = Inr (reply, rs, b1) \<and>
    client_handle_reply store_reply_cb started' reply server cr a1 = Inr (Some Rpc_completed, rs', a') \<and>
    findsomeval_rpc_start (rd_keyid d) 0 addr2 nonce2 e = Inr (pkt2, cr2, e1) \<and>
    handle_request_pkt hmac c rand started pkt2 local2 remote2 b1 = Inr (reply2, rs2, b2) \<and>
    client_handle_reply (findsomeval_reply_cb (kp_rpc e)) started' reply2 server2 cr2 e1 = Inr (Some (Rpc_recdups found has_more), rs2', e') \<and>
    (\<not> has_more \<longrightarrow> rd_keyid found = rd_keyid d \<and> set (recval_db d) \<subseteq> set (recval_db found))"
proof -
  obtain pkt cr a1 reply rs b1 rs' a' where store:
    "store_rpc_start d cookie addr nonce a = Inr (pkt, cr, a1)"
    "handle_request_pkt hmac c rand started pkt local remote b = Inr (reply, rs, b1)"
    "client_handle_reply store_reply_cb started' reply server cr a1 = Inr (Some Rpc_completed, rs', a')"
    and b1: "peer_inv b1" "same_peer b b1" "same_db (kp_remote_db b) (kp_remote_db b1)"
      "\<forall>r\<in>set (recs_of d). recid_db (kp_remote_db b1) (kr_recid r) = Some (stored_as c r (kp_remote_db b))"
    using store_call_ok[where rand = rand and c = c and started = started and started' = started', OF assms(1,2,3,5,6,7)] by blast
  have prof: "kp_profile b1 = kp_profile b" "kp_local_peerid b1 = kp_local_peerid b" using b1(2) by (simp_all add: same_peer_def)
  note C = call_okD[OF assms(8)]
  have call: "call_ok e b1 addr2 nonce2 remote2 server2"
    using C b1(1) match_same[OF C(3) b1(2)] prof(2) by (simp add: call_ok_def dest_ok_def)
  have key: "length (rd_keyid d) = kad_id_len" "(0 :: nat) < 2 ^ 32" using assms(2) by (simp_all add: wire_dups_def recdups_inv_def)
  have ok: "findsomeval_rpc_ok (kp_rpc b1)" "reply_fits (kp_rpc b1)" using assms(9,10) prof(1) by simp_all
  obtain pkt2 cr2 e1 reply2 rs2 b2 event rs2' e' where find:
    "findsomeval_rpc_start (rd_keyid d) 0 addr2 nonce2 e = Inr (pkt2, cr2, e1)"
    "handle_request_pkt hmac c rand started pkt2 local2 remote2 b1 = Inr (reply2, rs2, b2)"
    "client_handle_reply (findsomeval_reply_cb (kp_rpc e)) started' reply2 server2 cr2 e1 = Inr (Some event, rs2', e')"
    and b2: "kp_remote_db b2 = kp_remote_db b1" "found_ok hmac (pathid_of remote2 local2) (rd_keyid d) 0 b2 event"
    using find_call_ok[where hmac = hmac and c = c and started = started and started' = started' and local = local2,
        OF call key ok assms(11,12)] by blast
  have sub: "set (recval_db d) \<subseteq> key_recs (rd_keyid d) (kp_remote_db b2)"
    using stored_fresh_found[OF assms(4) b1(3,4)] b2(1) by simp
  then have ne: "key_recs (rd_keyid d) (kp_remote_db b2) \<noteq> {}" using assms(3) by (auto simp: dups_fit_def)
  obtain found has_more where ev: "event = Rpc_recdups found has_more"
    using b2(2) ne by (cases event) (auto simp: found_ok_def)
  have "rd_keyid found = rd_keyid d \<and> set (recval_db d) \<subseteq> set (recval_db found)" if "\<not> has_more"
    using b2(2) ev that sub ne by (auto simp: found_ok_def)
  then show ?thesis using store find unfolding ev by blast
qed

definition flow_ex_dups :: kad_recdups_t where
  "flow_ex_dups = db_ex_dups"

theorem store_then_find_witness:
  "\<exists>st pkt cr a1 reply rs b1. kad_peer_start rpc_ex_profile rpc_ex_aview rpc_ex_realm (kb_ex_id 19 1) [7] = Inr st \<and>
     store_rpc_start flow_ex_dups (cookie_generate cookie_ex_hmac (pathid_of rpc_ex_oaddr rpc_ex_oaddr) (cookie_db_ctor [7]))
       flow_ex_addr flow_ex_nonce st = Inr (pkt, cr, a1) \<and>
     handle_request_pkt cookie_ex_hmac kr_ttl (\<lambda>n i. (i mod n, 0)) False pkt rpc_ex_oaddr rpc_ex_oaddr st = Inr (reply, rs, b1)"
proof -
  obtain st where st: "kad_peer_start rpc_ex_profile rpc_ex_aview rpc_ex_realm (kb_ex_id 19 1) [7] = Inr st" "peer_inv st"
    using kad_peer_start_ok[OF rpc_ex_cfg] by blast
  note E = flow_ex_call[OF st]
  note F = kad_peer_start_fields[OF st(1)]
  have hmac: "length (cookie_ex_hmac s p) = cookie_id_len" for s p by (simp add: cookie_ex_hmac_def cookie_id_len_def)
  let ?cookie = "cookie_generate cookie_ex_hmac (pathid_of rpc_ex_oaddr rpc_ex_oaddr) (cookie_db_ctor [7])"
  have len: "length ?cookie = cookie_id_len" using hmac by (simp add: cookie_generate_def cookie_cpu_def)
  have ck: "cookie_store_ok (kp_rpc st) \<longrightarrow> cookie_check cookie_ex_hmac (pathid_of rpc_ex_oaddr rpc_ex_oaddr) ?cookie (kp_cookie_db st)"
    unfolding F(5) by (simp add: cookie_check_def cookie_generate_def cookie_db_ctor_def cookie_accepted_def)
  have db: "kp_remote_db st = kad_db_ctor build_remote_db True (kb_ex_id 19 1)"
    using F(4) by (simp add: rpc_ex_profile_def kad_profile_ctor_def)
  have wire: "wire_dups flow_ex_dups"
    by (simp add: wire_dups_def flow_ex_dups_def db_ex_dups_def recdups_inv_def recval_ctor_def db_ex_rec_def kad_id_len_def datum_length_def)
  have "rec_fits build_remote_db (rec_of_recval (replicate 20 3) (recval_ctor (db_ex_rec 8 60)))"
    "rec_fits build_remote_db (rec_of_recval (replicate 20 3) (recval_ctor (db_ex_rec 9 60)))"
    by code_simp+
  then have fit: "dups_fit flow_ex_dups (kp_remote_db st)"
    unfolding db by (simp add: dups_fit_def flow_ex_dups_def db_ex_dups_def kad_db_ctor_def build_remote_db_def)
  have fresh: "dups_fresh flow_ex_dups (kp_remote_db st)" unfolding db by (simp add: dups_fresh_def kad_db_ctor_def list_all_iff)
  show ?thesis
    using store_then_find[where hmac = cookie_ex_hmac and c = kr_ttl and started = False and started' = False and local = rpc_ex_oaddr
        and ?local2.0 = rpc_ex_oaddr, OF E(1) wire fit fresh len E(6) ck E(1,7,5) draws_ex hmac] st(1) by blast
qed

text \<open>C8. Where the profile asks for cookies, a packet changes the records of the server only if twenty consecutive bytes of it are a cookie that the
  server accepts for the address that sent it.\<close>
theorem records_need_cookie:
  assumes "peer_inv st" "ipport_is_fully_qualified remote = Inr True" "draws_ok rand"
    "cookie_store_ok (kp_rpc st)" "cookie_delete_ok (kp_rpc st)"
    "\<not> holds_cookie hmac (pathid_of remote local) (kp_cookie_db st) pkt" "\<not> pkt_harmful st pkt"
  shows "\<exists>reply rs st'. handle_request_pkt hmac c rand started pkt local remote st = Inr (reply, rs, st') \<and> kp_remote_db st' = kp_remote_db st"
proof -
  obtain reply rs st' where run: "handle_request_pkt hmac c rand started pkt local remote st = Inr (reply, rs, st')"
    using handle_request_pkt_ok[OF assms(1-3), of pkt hmac c started local] assms(7) by auto
  show ?thesis using run records_need_cookie_ok[OF assms(1-6) run] by blast
qed

theorem records_need_cookie_witness:
  "\<exists>st reply rs st'. kad_peer_start rpc_ex_profile rpc_ex_aview rpc_ex_realm (kb_ex_id 19 1) [7] = Inr st \<and>
     handle_request_pkt cookie_ex_hmac kr_ttl (\<lambda>n i. (i mod n, 0)) False [2, 5] rpc_ex_oaddr rpc_ex_oaddr st = Inr (reply, rs, st') \<and>
     kp_remote_db st' = kp_remote_db st"
proof -
  obtain st where st: "kad_peer_start rpc_ex_profile rpc_ex_aview rpc_ex_realm (kb_ex_id 19 1) [7] = Inr st" "peer_inv st"
    using kad_peer_start_ok[OF rpc_ex_cfg] by blast
  note E = flow_ex_call[OF st]
  note F = kad_peer_start_fields[OF st(1)]
  have prof: "kp_rpc st = kad_rpc_profile_ctor" "kp_pkttype st = \<lparr>pt_serial_type = PT_UINT8, pt_offset = 0, pt_nb_reserved = 16\<rparr>"
    unfolding F(1) by (simp_all add: rpc_ex_profile_def kad_profile_ctor_def)
  have need: "cookie_store_ok (kp_rpc st)" "cookie_delete_ok (kp_rpc st)" unfolding prof by (simp_all add: kad_rpc_profile_ctor_def)
  have no: "\<not> holds_cookie cookie_ex_hmac (pathid_of rpc_ex_oaddr rpc_ex_oaddr) (kp_cookie_db st) [2, 5]"
    by (simp add: holds_cookie_def list_ex_iff cookie_id_len_def)
  have "read_req_header st [2, 5] = Inl (Except ''gen_id_t Payload Too Short'')"
    by (simp add: read_req_header_def pkttype_unserialize_def prof pkttype_profile_is_null_def get_uint8_def pkttype_in_range_def
        get_if_def get_gen_id_def kad_rpc_profile_ctor_def kad_id_len_def)
  then have "\<not> pkt_harmful st [2, 5]"
    by (simp add: pkt_harmful_def type_harmful_def prof type_len_def pkttype_width_def parse_req_header_def try_parse_def pkttype_in_range_def)
  from records_need_cookie[OF st(2) E(4) draws_ex need no this, of kr_ttl False] st(1) show ?thesis by blast
qed

end
