(* ===== verification/KadSearch.thy ===== *)
theory KadSearch
  imports KadRpcFlow
begin

text \<open>
  The search for the peers closest to an identifier (\<open>neoip_kad/cmd/base/nsearch\<close>): \<open>kad_nsearch_t\<close> with its list
  of learned nodes \<open>kad_nsearch_llist_t\<close> and the nodes \<open>kad_nsearch_lnode_t\<close>.  The record \<open>kad_nsearch_t\<close> joins the
  fields of the search and of its list.  \<open>lnode_db\<close>, a \<open>std::map\<close> from the distance of a node to the node, is the list of its
  elements in the order of the map.

  A remote procedure call that is started is an action of the result and its outcome is the event of \<open>rpc_event_cb\<close>; \<open>start_ok\<close> says
  for which addresses a call can be started (a socket is opened).  The event that ends a search is an action, too: all
  users of the class delete the object when they are notified, so that no state is left.  The clock is the argument
  \<open>now\<close>.
\<close>

subsection \<open>State\<close>

record kad_nsearch_profile_t =
  rpccli_soft_timeout :: delay_t
  rpccli_hard_timeout :: delay_t
  nb_concurrent_req :: nat
  caching_enable :: bool

definition kad_nsearch_profile_ctor :: kad_nsearch_profile_t where
  "kad_nsearch_profile_ctor =
     \<lparr>rpccli_soft_timeout = from_sec 60, rpccli_hard_timeout = from_sec 60, nb_concurrent_req = 3, caching_enable = True\<rparr>"

datatype lnode_state_t = LNODE_NULL | LNODE_QUERYING | LNODE_SUCCEED | LNODE_FAILED

record kad_nsearch_lnode_t =
  ln_kad_addr :: kad_addr_t
  ln_cookie_id :: bytes
  ln_current_state :: lnode_state_t
  ln_rpc_birthdate :: delay_t

text \<open>The packet type of the calls of a search is the one of the two requests that \<open>start_findnode\<close> and \<open>start_findsomeval\<close>
  set.\<close>

datatype query_type_t = FINDNODE_REQUEST | FINDSOMEVAL_REQUEST

type_synonym lnode_db_t = "(bytes \<times> kad_nsearch_lnode_t) list"

record kad_nsearch_t =
  ns_profile :: kad_nsearch_profile_t
  ns_target_id :: bytes
  ns_n_closest :: nat
  ns_query_type :: query_type_t
  nb_succ_useless_query :: nat
  findsome_max_nb_rec :: nat
  caching_candidate :: kad_addr_t
  lnode_db :: lnode_db_t

datatype ns_action =
  Ns_findnode_rpc bytes kad_addr_t
| Ns_findsomeval_rpc bytes nat kad_addr_t
| Ns_replicate kad_recdups_t kad_addr_t
| Ns_caddr_arr "(kad_addr_t \<times> bytes) list"
| Ns_recdups kad_recdups_t bool
| Ns_timedout

text \<open>What a call reports: an event that is fatal for it (closed, refused, timed out) or a reply.\<close>

datatype rpc_outcome_t = Rpc_fatal | Rpc_reply kad_rpc_event

subsection \<open>The list of nodes\<close>

definition ns_distid :: "bytes \<Rightarrow> kad_nsearch_t \<Rightarrow> bytes" where
  "ns_distid peerid st = gen_id_xor peerid (ns_target_id st)"

fun lnode_find :: "bytes \<Rightarrow> lnode_db_t \<Rightarrow> kad_nsearch_lnode_t option" where
  "lnode_find k [] = None"
| "lnode_find k (e # es) = (if gen_id_compare (fst e) k = 0 then Some (snd e) else lnode_find k es)"

fun lnode_insert :: "bytes \<Rightarrow> kad_nsearch_lnode_t \<Rightarrow> lnode_db_t \<Rightarrow> lnode_db_t" where
  "lnode_insert k x [] = [(k, x)]"
| "lnode_insert k x (e # es) = (if gen_id_compare k (fst e) < 0 then (k, x) # e # es else e # lnode_insert k x es)"

text \<open>Following a pointer to a node, and writing to it.\<close>

definition lnode_at :: "bytes \<Rightarrow> kad_nsearch_t \<Rightarrow> kad_nsearch_lnode_t res" where
  "lnode_at k st = (case lnode_find k (lnode_db st) of None \<Rightarrow> Inl Out_of_bounds | Some x \<Rightarrow> Inr x)"

definition lnode_upd :: "bytes \<Rightarrow> (kad_nsearch_lnode_t \<Rightarrow> kad_nsearch_lnode_t) \<Rightarrow> kad_nsearch_t \<Rightarrow> kad_nsearch_t" where
  "lnode_upd k f st = st\<lparr>lnode_db := map (\<lambda>e. if gen_id_compare (fst e) k = 0 then (fst e, f (snd e)) else e) (lnode_db st)\<rparr>"

definition lnode_present :: "bytes \<Rightarrow> kad_nsearch_t \<Rightarrow> bool" where
  "lnode_present peerid st = (case lnode_find (ns_distid peerid st) (lnode_db st) of None \<Rightarrow> False | Some x \<Rightarrow> True)"

definition lnode_link :: "kad_nsearch_lnode_t \<Rightarrow> kad_nsearch_t \<Rightarrow> kad_nsearch_t res" where
  "lnode_link x st =
     (let peerid = m_peerid (ln_kad_addr x) in
      dbg_assert (\<not> lnode_present peerid st)
       (let distid = ns_distid peerid st in
        dbg_assert (lnode_find distid (lnode_db st) = None)
          (Inr (st\<lparr>lnode_db := lnode_insert distid x (lnode_db st)\<rparr>))))"

definition lnode_ctor :: "kad_addr_t \<Rightarrow> kad_nsearch_t \<Rightarrow> kad_nsearch_t res" where
  "lnode_ctor addr st =
     res_bind (ipport_is_fully_qualified (m_oaddr addr)) (\<lambda>fq. dbg_assert fq
       (lnode_link \<lparr>ln_kad_addr = addr, ln_cookie_id = gen_id_ctor cookie_id_len, ln_current_state = LNODE_NULL,
                    ln_rpc_birthdate = NONE_VAL\<rparr> st))"

definition rpc_age :: "delay_t \<Rightarrow> kad_nsearch_lnode_t \<Rightarrow> delay_t res" where
  "rpc_age now x = dbg_assert (\<not> delay_is_null (ln_rpc_birthdate x)) (delay_sub now (ln_rpc_birthdate x))"

definition is_online :: "kad_nsearch_lnode_t \<Rightarrow> bool" where
  "is_online x = (if ln_current_state x = LNODE_SUCCEED then True else False)"

definition is_offline :: "delay_t \<Rightarrow> kad_nsearch_t \<Rightarrow> kad_nsearch_lnode_t \<Rightarrow> bool res" where
  "is_offline now st x =
     (if ln_current_state x = LNODE_FAILED then Inr True
      else if ln_current_state x = LNODE_QUERYING
      then res_bind (rpc_age now x) (\<lambda>age. if age > rpccli_soft_timeout (ns_profile st) then Inr True else Inr False)
      else Inr False)"

text \<open>The loops over the nodes, from the closest to the farthest, that skip those considered offline.\<close>

fun nclosest_distid_loop :: "delay_t \<Rightarrow> kad_nsearch_t \<Rightarrow> nat \<Rightarrow> lnode_db_t \<Rightarrow> bytes list \<Rightarrow> bytes list res" where
  "nclosest_distid_loop now st nb_considered [] ids = Inr ids"
| "nclosest_distid_loop now st nb_considered (e # es) ids =
     res_if (is_offline now st (snd e)) (nclosest_distid_loop now st nb_considered es ids)
      (let nb_considered = nb_considered + 1 in
       if nb_considered > ns_n_closest st then Inr ids
       else dbg_assert (fst e \<notin> set ids) (nclosest_distid_loop now st nb_considered es (ids @ [fst e])))"

definition get_nclosest_distid :: "delay_t \<Rightarrow> kad_nsearch_t \<Rightarrow> bytes list res" where
  "get_nclosest_distid now st = nclosest_distid_loop now st 0 (lnode_db st) []"

fun merge_loop :: "kad_addr_t list \<Rightarrow> kad_nsearch_t \<Rightarrow> kad_nsearch_t res" where
  "merge_loop [] st = Inr st"
| "merge_loop (a # as) st =
     (if lnode_present (m_peerid a) st then merge_loop as st else res_bind (lnode_ctor a st) (merge_loop as))"

definition merge_addr_arr :: "delay_t \<Rightarrow> kad_addr_t list \<Rightarrow> kad_nsearch_t \<Rightarrow> (bool \<times> kad_nsearch_t) res" where
  "merge_addr_arr now as st =
     res_bind (get_nclosest_distid now st) (\<lambda>before.
     res_bind (merge_loop as st) (\<lambda>st.
     res_bind (get_nclosest_distid now st) (\<lambda>after.
       if before = after then Inr (False, st) else Inr (True, st))))"

fun next_query_loop :: "delay_t \<Rightarrow> kad_nsearch_t \<Rightarrow> nat \<Rightarrow> lnode_db_t \<Rightarrow> bytes option res" where
  "next_query_loop now st nb_considered [] = Inr None"
| "next_query_loop now st nb_considered (e # es) =
     res_if (is_offline now st (snd e)) (next_query_loop now st nb_considered es)
      (let nb_considered = nb_considered + 1 in
       if nb_considered > ns_n_closest st then Inr None
       else if ln_current_state (snd e) \<noteq> LNODE_NULL then next_query_loop now st nb_considered es
       else Inr (Some (fst e)))"

definition get_next_lnode_to_query :: "delay_t \<Rightarrow> kad_nsearch_t \<Rightarrow> bytes option res" where
  "get_next_lnode_to_query now st = next_query_loop now st 0 (lnode_db st)"

fun nb_querying_loop :: "delay_t \<Rightarrow> kad_nsearch_t \<Rightarrow> nat \<Rightarrow> nat \<Rightarrow> lnode_db_t \<Rightarrow> nat res" where
  "nb_querying_loop now st nb_considered nb_querying [] = Inr nb_querying"
| "nb_querying_loop now st nb_considered nb_querying (e # es) =
     res_if (is_offline now st (snd e)) (nb_querying_loop now st nb_considered nb_querying es)
      (let nb_considered = nb_considered + 1 in
       if nb_considered > ns_n_closest st then Inr nb_querying
       else nb_querying_loop now st nb_considered
              (if ln_current_state (snd e) = LNODE_QUERYING then nb_querying + 1 else nb_querying) es)"

definition get_nb_querying_node :: "delay_t \<Rightarrow> kad_nsearch_t \<Rightarrow> nat res" where
  "get_nb_querying_node now st = nb_querying_loop now st 0 0 (lnode_db st)"

fun completed_loop :: "delay_t \<Rightarrow> kad_nsearch_t \<Rightarrow> nat \<Rightarrow> lnode_db_t \<Rightarrow> bool res" where
  "completed_loop now st nb_considered [] = Inr True"
| "completed_loop now st nb_considered (e # es) =
     res_if (is_offline now st (snd e)) (completed_loop now st nb_considered es)
      (let nb_considered = nb_considered + 1 in
       if nb_considered > ns_n_closest st then Inr True
       else if ln_current_state (snd e) \<noteq> LNODE_SUCCEED then Inr False
       else completed_loop now st nb_considered es)"

definition nsearch_is_completed :: "delay_t \<Rightarrow> kad_nsearch_t \<Rightarrow> bool res" where
  "nsearch_is_completed now st = completed_loop now st 0 (lnode_db st)"

fun findnode_result_loop ::
  "delay_t \<Rightarrow> kad_nsearch_t \<Rightarrow> lnode_db_t \<Rightarrow> (kad_addr_t \<times> bytes) list \<Rightarrow> (kad_addr_t \<times> bytes) list res" where
  "findnode_result_loop now st [] result = Inr result"
| "findnode_result_loop now st (e # es) result =
     res_if (is_offline now st (snd e)) (findnode_result_loop now st es result)
      (dbg_assert (is_online (snd e))
        (let result = result @ [(ln_kad_addr (snd e), ln_cookie_id (snd e))] in
         if length result = ns_n_closest st then Inr result else findnode_result_loop now st es result))"

definition notify_findnode_result :: "delay_t \<Rightarrow> kad_nsearch_t \<Rightarrow> ns_action res" where
  "notify_findnode_result now st =
     res_bind (nsearch_is_completed now st) (\<lambda>completed. dbg_assert completed
      (res_bind (findnode_result_loop now st (lnode_db st) []) (\<lambda>result. Inr (Ns_caddr_arr result))))"

definition notify_findsomeval_result :: ns_action where
  "notify_findsomeval_result = Ns_recdups kad_recdups_ctor False"

definition notify_end_result :: "delay_t \<Rightarrow> kad_nsearch_t \<Rightarrow> ns_action res" where
  "notify_end_result now st =
     res_bind (nsearch_is_completed now st) (\<lambda>completed. dbg_assert completed
      (case ns_query_type st of
         FINDNODE_REQUEST \<Rightarrow> notify_findnode_result now st
       | FINDSOMEVAL_REQUEST \<Rightarrow> Inr notify_findsomeval_result))"

subsection \<open>Calls\<close>

definition lnode_start ::
  "delay_t \<Rightarrow> (kad_addr_t \<Rightarrow> bool) \<Rightarrow> bytes \<Rightarrow> kad_nsearch_t \<Rightarrow> (bool \<times> ns_action list \<times> kad_nsearch_t) res" where
  "lnode_start now start_ok k st =
     res_bind (lnode_at k st) (\<lambda>x.
       dbg_assert (ln_current_state x = LNODE_NULL)
        (let st = lnode_upd k (\<lambda>x. x\<lparr>ln_current_state := LNODE_QUERYING, ln_rpc_birthdate := now\<rparr>) st;
             rpc = (case ns_query_type st of
                      FINDNODE_REQUEST \<Rightarrow> Ns_findnode_rpc (ns_target_id st) (ln_kad_addr x)
                    | FINDSOMEVAL_REQUEST \<Rightarrow> Ns_findsomeval_rpc (ns_target_id st) (findsome_max_nb_rec st) (ln_kad_addr x)) in
         if \<not> start_ok (ln_kad_addr x)
         then Inr (False, [], lnode_upd k (\<lambda>x. x\<lparr>ln_current_state := LNODE_FAILED\<rparr>) st)
         else Inr (True, [rpc], st)))"

text \<open>The inner loop of \<open>launch_queries\<close> tries nodes until a call can be started; each failure leaves one node less.\<close>

definition nb_null_nodes :: "kad_nsearch_t \<Rightarrow> nat" where
  "nb_null_nodes st = length (filter (\<lambda>e. ln_current_state (snd e) = LNODE_NULL) (lnode_db st))"

lemma lnode_find_set: "lnode_find k es = Some x \<Longrightarrow> \<exists>e\<in>set es. snd e = x \<and> gen_id_compare (fst e) k = 0"
  by (induction es) (auto split: if_splits)

lemma nb_null_nodes_upd:
  assumes "lnode_at k st = Inr x" "ln_current_state x = LNODE_NULL" "\<And>y. ln_current_state (f y) \<noteq> LNODE_NULL"
  shows "nb_null_nodes (lnode_upd k f st) < nb_null_nodes st"
proof -
  let ?P = "\<lambda>e :: bytes \<times> kad_nsearch_lnode_t. ln_current_state (snd e) = LNODE_NULL"
  have 1: "lnode_find k (lnode_db st) = Some x" using assms(1) by (simp add: lnode_at_def split: option.splits)
  have "length (filter ?P (map (\<lambda>e. if gen_id_compare (fst e) k = 0 then (fst e, f (snd e)) else e) es)) \<le> length (filter ?P es)" for es
    using assms(3) by (induction es) auto
  moreover have "lnode_find k es = Some x \<Longrightarrow>
     length (filter ?P (map (\<lambda>e. if gen_id_compare (fst e) k = 0 then (fst e, f (snd e)) else e) es)) < length (filter ?P es)" for es
    using assms(2,3) calculation by (induction es) (auto simp: less_Suc_eq_le split: if_splits)
  ultimately show ?thesis using 1 by (simp add: nb_null_nodes_def lnode_upd_def)
qed

lemma lnode_upd_upd: "lnode_upd k f (lnode_upd k g st) = lnode_upd k (\<lambda>x. f (g x)) st"
  by (simp add: lnode_upd_def comp_def if_distrib[of fst] if_distrib[of snd] cong: if_cong)

lemma lnode_start_failed:
  assumes "lnode_start now start_ok k st = Inr (False, acts, st')"
  shows "nb_null_nodes st' < nb_null_nodes st"
proof -
  let ?q = "\<lambda>x. x\<lparr>ln_current_state := LNODE_QUERYING, ln_rpc_birthdate := now\<rparr>"
  let ?f = "\<lambda>x :: kad_nsearch_lnode_t. x\<lparr>ln_current_state := LNODE_FAILED\<rparr>"
  obtain x where x: "lnode_at k st = Inr x" "ln_current_state x = LNODE_NULL"
    "st' = lnode_upd k ?f (lnode_upd k ?q st)"
    using assms by (auto simp: lnode_start_def res_simps Let_def split: if_splits)
  then show ?thesis using nb_null_nodes_upd[OF x(1,2), of "\<lambda>x. ?f (?q x)"] by (simp add: lnode_upd_upd)
qed

function launch_one ::
  "delay_t \<Rightarrow> (kad_addr_t \<Rightarrow> bool) \<Rightarrow> kad_nsearch_t \<Rightarrow> (ns_action list \<times> kad_nsearch_t) res" where
  "launch_one now start_ok st =
     (case get_next_lnode_to_query now st of
        Inl e \<Rightarrow> Inl e
      | Inr None \<Rightarrow> Inr ([], st)
      | Inr (Some k) \<Rightarrow>
          (case lnode_start now start_ok k st of
             Inl e \<Rightarrow> Inl e
           | Inr (True, acts, st') \<Rightarrow> Inr (acts, st')
           | Inr (False, acts, st') \<Rightarrow> launch_one now start_ok st'))"
  by pat_completeness auto

termination
  by (relation "measure (\<lambda>(now, start_ok, st). nb_null_nodes st)") (auto dest: lnode_start_failed)

declare launch_one.simps [simp del]

fun launch_queries ::
  "delay_t \<Rightarrow> (kad_addr_t \<Rightarrow> bool) \<Rightarrow> nat \<Rightarrow> kad_nsearch_t \<Rightarrow> (ns_action list \<times> kad_nsearch_t) res" where
  "launch_queries now start_ok 0 st = Inr ([], st)"
| "launch_queries now start_ok (Suc max_nb_query) st =
     res_bind (launch_one now start_ok st) (\<lambda>(acts, st).
     res_bind (launch_queries now start_ok max_nb_query st) (\<lambda>(acts', st). Inr (acts @ acts', st)))"

subsection \<open>Start\<close>

definition post_start ::
  "delay_t \<Rightarrow> (kad_addr_t \<Rightarrow> bool) \<Rightarrow> nat \<Rightarrow> kad_addr_t list \<Rightarrow> kad_nsearch_t \<Rightarrow> kad_kbucket_t \<Rightarrow>
     (ns_action list \<times> kad_nsearch_t \<times> kad_kbucket_t) res" where
  "post_start now start_ok n_closest base_addr_arr st kbucket =
     (let st = st\<lparr>ns_n_closest := n_closest\<rparr> in
      res_bind (notify_nsearch (ns_target_id st) kbucket) (\<lambda>kbucket.
      res_bind (if base_addr_arr = [] then get_nclosest_addr (ns_target_id st) n_closest (\<lambda>a. Inr False) kbucket
                else Inr base_addr_arr) (\<lambda>init_addr_arr.
      res_bind (merge_addr_arr now init_addr_arr st) (\<lambda>(closer, st).
      res_bind (launch_queries now start_ok (nb_concurrent_req (ns_profile st)) st) (\<lambda>(acts, st).
        Inr (acts, st, kbucket))))))"

definition kad_nsearch_ctor :: "kad_nsearch_profile_t \<Rightarrow> query_type_t \<Rightarrow> bytes \<Rightarrow> nat \<Rightarrow> kad_nsearch_t" where
  "kad_nsearch_ctor profile query_type target_id max_nb_record =
     \<lparr>ns_profile = profile, ns_target_id = target_id, ns_n_closest = 0, ns_query_type = query_type, nb_succ_useless_query = 0,
      findsome_max_nb_rec = max_nb_record, caching_candidate = kad_addr_null, lnode_db = []\<rparr>"

definition start_findnode where
  "start_findnode profile now start_ok peerid n_closest base_addr_arr kbucket =
     post_start now start_ok n_closest base_addr_arr (kad_nsearch_ctor profile FINDNODE_REQUEST peerid 0) kbucket"

definition start_findsomeval where
  "start_findsomeval profile now start_ok keyid max_nb_record n_closest base_addr_arr kbucket =
     post_start now start_ok n_closest base_addr_arr (kad_nsearch_ctor profile FINDSOMEVAL_REQUEST keyid max_nb_record) kbucket"

text \<open>The timeout of the whole search.\<close>

definition nsearch_timeout_expire_cb :: ns_action where
  "nsearch_timeout_expire_cb = Ns_timedout"

subsection \<open>Replies\<close>

definition process_replied_addr_arr :: "delay_t \<Rightarrow> kad_addr_t list \<Rightarrow> kad_nsearch_t \<Rightarrow> kad_nsearch_t res" where
  "process_replied_addr_arr now as st =
     res_bind (merge_addr_arr now as st) (\<lambda>(got_closer_node, st).
       if got_closer_node then Inr (st\<lparr>nb_succ_useless_query := 0\<rparr>)
       else Inr (st\<lparr>nb_succ_useless_query := nb_succ_useless_query st + 1\<rparr>))"

text \<open>The handlers of the replies; the Boolean is \<open>tokeep\<close>.\<close>

definition handle_findnode_reply ::
  "delay_t \<Rightarrow> bytes \<Rightarrow> kad_rpc_event \<Rightarrow> kad_nsearch_t \<Rightarrow> (ns_action list \<times> bool \<times> kad_nsearch_t) res" where
  "handle_findnode_reply now k event st =
     (case event of
        Rpc_addr_arr kad_addr_arr cookie_id \<Rightarrow>
          (let st = lnode_upd k (\<lambda>x. x\<lparr>ln_cookie_id := cookie_id\<rparr>) st in
           res_bind (process_replied_addr_arr now kad_addr_arr st) (\<lambda>st. Inr ([], True, st)))
      | _ \<Rightarrow> Inl Assert_failed)"

definition handle_findsomeval_reply ::
  "delay_t \<Rightarrow> bytes \<Rightarrow> kad_rpc_event \<Rightarrow> kad_nsearch_t \<Rightarrow> (ns_action list \<times> bool \<times> kad_nsearch_t) res" where
  "handle_findsomeval_reply now k event st =
     (case event of
        Rpc_recdups kad_recdups has_more_record \<Rightarrow>
          if caching_enable (ns_profile st) \<and> \<not> kad_addr_is_null (caching_candidate st)
          then res_bind (kad_addr_is_fully_qualified (caching_candidate st)) (\<lambda>fq. dbg_assert fq
                 (Inr ([Ns_replicate kad_recdups (caching_candidate st), Ns_recdups kad_recdups has_more_record], False, st)))
          else Inr ([Ns_recdups kad_recdups has_more_record], False, st)
      | Rpc_addr_arr kad_addr_arr cookie_id \<Rightarrow>
          (let st = lnode_upd k (\<lambda>x. x\<lparr>ln_cookie_id := cookie_id\<rparr>) st in
           res_bind (process_replied_addr_arr now kad_addr_arr st) (\<lambda>st.
             if caching_enable (ns_profile st)
             then res_bind (lnode_at k st) (\<lambda>x.
                    let curr_cand = ln_kad_addr x; prev_cand = caching_candidate st;
                        curr_dist = gen_id_xor (ns_target_id st) (m_peerid curr_cand) in
                    if kad_addr_is_null prev_cand
                       \<or> gen_id_compare curr_dist (gen_id_xor (ns_target_id st) (m_peerid prev_cand)) < 0
                    then Inr ([], True, st\<lparr>caching_candidate := curr_cand\<rparr>) else Inr ([], True, st))
             else Inr ([], True, st)))
      | _ \<Rightarrow> Inl Assert_failed)"

definition ns_handle_reply ::
  "delay_t \<Rightarrow> bytes \<Rightarrow> kad_rpc_event \<Rightarrow> kad_nsearch_t \<Rightarrow> (ns_action list \<times> bool \<times> kad_nsearch_t) res" where
  "ns_handle_reply now k event st =
     (case ns_query_type st of
        FINDNODE_REQUEST \<Rightarrow> handle_findnode_reply now k event st
      | FINDSOMEVAL_REQUEST \<Rightarrow> handle_findsomeval_reply now k event st)"

text \<open>The second half of \<open>rpc_event_cb\<close>: report the result, or see to it that enough calls are running.\<close>

definition ns_after_event ::
  "delay_t \<Rightarrow> (kad_addr_t \<Rightarrow> bool) \<Rightarrow> kad_nsearch_t \<Rightarrow> (ns_action list \<times> kad_nsearch_t option) res" where
  "ns_after_event now start_ok st =
     res_if (nsearch_is_completed now st)
      (res_bind (notify_end_result now st) (\<lambda>act. Inr ([act], None)))
      (let nb_wished_query = (if nb_succ_useless_query st \<ge> nb_concurrent_req (ns_profile st)
                              then ns_n_closest st else nb_concurrent_req (ns_profile st)) in
       res_bind (get_nb_querying_node now st) (\<lambda>nb_querying.
         if nb_querying \<ge> nb_wished_query then Inr ([], Some st)
         else res_bind (launch_queries now start_ok (nb_wished_query - nb_querying) st) (\<lambda>(acts, st). Inr (acts, Some st))))"

definition rpc_event_cb ::
  "delay_t \<Rightarrow> (kad_addr_t \<Rightarrow> bool) \<Rightarrow> bytes \<Rightarrow> rpc_outcome_t \<Rightarrow> kad_nsearch_t \<Rightarrow>
     (ns_action list \<times> kad_nsearch_t option) res" where
  "rpc_event_cb now start_ok k outcome st =
     res_bind (lnode_at k st) (\<lambda>x.
       dbg_assert (ln_current_state x = LNODE_QUERYING)
        (case outcome of
           Rpc_fatal \<Rightarrow> ns_after_event now start_ok (lnode_upd k (\<lambda>x. x\<lparr>ln_current_state := LNODE_FAILED\<rparr>) st)
         | Rpc_reply event \<Rightarrow>
             (let st = lnode_upd k (\<lambda>x. x\<lparr>ln_current_state := LNODE_SUCCEED\<rparr>) st in
              res_bind (ns_handle_reply now k event st) (\<lambda>(acts, tokeep, st).
                if \<not> tokeep then Inr (acts, None)
                else res_bind (ns_after_event now start_ok st) (\<lambda>(acts', r). Inr (acts @ acts', r))))))"

end
