(* ===== verification/KadSearchRun.thy ===== *)
theory KadSearchRun
  imports KadSearch
begin

text \<open>
  The search for the closest peers: the invariant of its list of nodes, and its runs over a network whose peers answer in any
  order or not at all.
\<close>

subsection \<open>The nodes that are considered\<close>

definition addr_usable :: "kad_addr_t \<Rightarrow> bool" where
  "addr_usable a \<longleftrightarrow> length (m_peerid a) = kad_id_len \<and> kad_addr_is_fully_qualified a = Inr True"

definition lnode_off :: "delay_t \<Rightarrow> kad_nsearch_t \<Rightarrow> kad_nsearch_lnode_t \<Rightarrow> bool" where
  "lnode_off now st x \<longleftrightarrow> is_offline now st x = Inr True"

definition considered :: "delay_t \<Rightarrow> kad_nsearch_t \<Rightarrow> lnode_db_t" where
  "considered now st = take (ns_n_closest st) (filter (\<lambda>e. \<not> lnode_off now st (snd e)) (lnode_db st))"

definition lnode_ok :: "kad_nsearch_t \<Rightarrow> bytes \<times> kad_nsearch_lnode_t \<Rightarrow> bool" where
  "lnode_ok st e \<longleftrightarrow> fst e = ns_distid (m_peerid (ln_kad_addr (snd e))) st \<and> addr_usable (ln_kad_addr (snd e)) \<and>
     (ln_current_state (snd e) = LNODE_QUERYING \<longrightarrow> \<not> delay_is_null (ln_rpc_birthdate (snd e)))"

definition ns_inv :: "kad_nsearch_t \<Rightarrow> bool" where
  "ns_inv st \<longleftrightarrow> length (ns_target_id st) = kad_id_len \<and> 0 < ns_n_closest st \<and>
     sorted_wrt (\<lambda>e f. gen_id_val (fst e) < gen_id_val (fst f)) (lnode_db st) \<and>
     (\<forall>e\<in>set (lnode_db st). lnode_ok st e) \<and>
     (kad_addr_is_null (caching_candidate st) \<or> kad_addr_is_fully_qualified (caching_candidate st) = Inr True)"

lemma addr_usable_oaddr: "addr_usable a \<Longrightarrow> ipport_is_fully_qualified (m_oaddr a) = Inr True"
  by (cases "ipport_is_fully_qualified (m_oaddr a)") (auto simp: addr_usable_def kad_addr_is_fully_qualified_def split: if_splits)

lemma ns_invD:
  assumes "ns_inv st"
  shows "length (ns_target_id st) = kad_id_len" "0 < ns_n_closest st"
    "sorted_wrt (\<lambda>e f. gen_id_val (fst e) < gen_id_val (fst f)) (lnode_db st)"
    "e \<in> set (lnode_db st) \<Longrightarrow> lnode_ok st e"
  using assms by (simp_all add: ns_inv_def)

lemma lnode_ok_length: "ns_inv st \<Longrightarrow> e \<in> set (lnode_db st) \<Longrightarrow> length (fst e) = kad_id_len"
  using ns_invD(4)[of st e] by (auto simp: lnode_ok_def ns_distid_def addr_usable_def ns_inv_def)

lemma ns_inv_distinct:
  assumes "ns_inv st" shows "distinct (map fst (lnode_db st))"
proof -
  have "sorted_wrt (\<lambda>e f. gen_id_val (fst e) < gen_id_val (fst f)) es \<Longrightarrow> distinct (map fst es)" for es :: lnode_db_t
    by (induction es) force+
  then show ?thesis using ns_invD(3)[OF assms] by blast
qed

lemma is_offline_ok:
  assumes "\<not> delay_is_null now" "ln_current_state x = LNODE_QUERYING \<longrightarrow> \<not> delay_is_null (ln_rpc_birthdate x)"
  shows "is_offline now st x = Inr (lnode_off now st x)"
  using assms by (auto simp: lnode_off_def is_offline_def rpc_age_def delay_sub_def)

lemma lnode_off_state:
  "ln_current_state x = LNODE_NULL \<Longrightarrow> \<not> lnode_off now st x" "ln_current_state x = LNODE_SUCCEED \<Longrightarrow> \<not> lnode_off now st x"
  "ln_current_state x = LNODE_FAILED \<Longrightarrow> lnode_off now st x"
  by (simp_all add: lnode_off_def is_offline_def)

text \<open>The loops in terms of the list of considered nodes.\<close>

lemma nclosest_distid_loop_eq:
  assumes "\<forall>e\<in>set es. is_offline now st (snd e) = Inr (lnode_off now st (snd e))" "nb \<le> ns_n_closest st"
    "distinct (ids @ map fst es)"
  shows "nclosest_distid_loop now st nb es ids =
    Inr (ids @ map fst (take (ns_n_closest st - nb) (filter (\<lambda>e. \<not> lnode_off now st (snd e)) es)))"
  using assms
proof (induction es arbitrary: nb ids)
  case (Cons e es)
  show ?case
  proof (cases "lnode_off now st (snd e)")
    case True
    then show ?thesis using Cons by simp
  next
    case False
    then show ?thesis using Cons.prems Cons.IH[of "Suc nb" "ids @ [fst e]"]
      by (cases "ns_n_closest st - nb") (auto simp: diff_Suc)
  qed
qed simp

lemma next_query_loop_eq:
  assumes "\<forall>e\<in>set es. is_offline now st (snd e) = Inr (lnode_off now st (snd e))" "nb \<le> ns_n_closest st"
  shows "next_query_loop now st nb es = Inr (map_option fst (List.find (\<lambda>e. ln_current_state (snd e) = LNODE_NULL)
    (take (ns_n_closest st - nb) (filter (\<lambda>e. \<not> lnode_off now st (snd e)) es))))"
  using assms
proof (induction es arbitrary: nb)
  case (Cons e es)
  show ?case
  proof (cases "lnode_off now st (snd e)")
    case True
    then show ?thesis using Cons by simp
  next
    case False
    then show ?thesis using Cons.prems Cons.IH[of "Suc nb"] by (cases "ns_n_closest st - nb") (auto simp: diff_Suc)
  qed
qed simp

lemma nb_querying_loop_eq:
  assumes "\<forall>e\<in>set es. is_offline now st (snd e) = Inr (lnode_off now st (snd e))" "nb \<le> ns_n_closest st"
  shows "nb_querying_loop now st nb q es = Inr (q + length (filter (\<lambda>e. ln_current_state (snd e) = LNODE_QUERYING)
    (take (ns_n_closest st - nb) (filter (\<lambda>e. \<not> lnode_off now st (snd e)) es))))"
  using assms
proof (induction es arbitrary: nb q)
  case (Cons e es)
  show ?case
  proof (cases "lnode_off now st (snd e)")
    case True
    then show ?thesis using Cons by simp
  next
    case False
    then show ?thesis using Cons.prems Cons.IH[of "Suc nb"] by (cases "ns_n_closest st - nb") (auto simp: diff_Suc)
  qed
qed simp

lemma completed_loop_eq:
  assumes "\<forall>e\<in>set es. is_offline now st (snd e) = Inr (lnode_off now st (snd e))" "nb \<le> ns_n_closest st"
  shows "completed_loop now st nb es = Inr (list_all (\<lambda>e. ln_current_state (snd e) = LNODE_SUCCEED)
    (take (ns_n_closest st - nb) (filter (\<lambda>e. \<not> lnode_off now st (snd e)) es)))"
  using assms
proof (induction es arbitrary: nb)
  case (Cons e es)
  show ?case
  proof (cases "lnode_off now st (snd e)")
    case True
    then show ?thesis using Cons by simp
  next
    case False
    then show ?thesis using Cons.prems Cons.IH[of "Suc nb"] by (cases "ns_n_closest st - nb") (auto simp: diff_Suc)
  qed
qed simp

lemma findnode_result_loop_eq:
  assumes "\<forall>e\<in>set es. is_offline now st (snd e) = Inr (lnode_off now st (snd e))" "length res < ns_n_closest st"
    "list_all (\<lambda>e. ln_current_state (snd e) = LNODE_SUCCEED)
      (take (ns_n_closest st - length res) (filter (\<lambda>e. \<not> lnode_off now st (snd e)) es))"
  shows "findnode_result_loop now st es res = Inr (res @ map (\<lambda>e. (ln_kad_addr (snd e), ln_cookie_id (snd e)))
    (take (ns_n_closest st - length res) (filter (\<lambda>e. \<not> lnode_off now st (snd e)) es)))"
  using assms
proof (induction es arbitrary: res)
  case (Cons e es)
  show ?case
  proof (cases "lnode_off now st (snd e)")
    case True
    then show ?thesis using Cons by simp
  next
    case False
    let ?r = "res @ [(ln_kad_addr (snd e), ln_cookie_id (snd e))]"
    obtain m where m: "ns_n_closest st - length res = Suc m" using Cons.prems(2) by (cases "ns_n_closest st - length res") auto
    have on: "is_online (snd e)" using Cons.prems(3) False m by (simp add: is_online_def)
    have n: "is_offline now st (snd e) = Inr False" using Cons.prems(1) False by simp
    show ?thesis
    proof (cases "length ?r = ns_n_closest st")
      case True
      then have "m = 0" using m by simp
      then show ?thesis using True n on m False by simp
    next
      case nf: False
      then have "ns_n_closest st - length ?r = m" "length ?r < ns_n_closest st" using m by auto
      then show ?thesis using nf n on m False Cons.IH[of ?r] Cons.prems by simp
    qed
  qed
qed simp

lemma nodes_clock:
  "ns_inv st \<Longrightarrow> \<not> delay_is_null now \<Longrightarrow> \<forall>e\<in>set (lnode_db st). is_offline now st (snd e) = Inr (lnode_off now st (snd e))"
  using ns_invD(4) is_offline_ok by (metis lnode_ok_def)

lemma ns_queries:
  assumes "ns_inv st" "\<not> delay_is_null now"
  shows "get_nclosest_distid now st = Inr (map fst (considered now st))"
    "get_next_lnode_to_query now st =
       Inr (map_option fst (List.find (\<lambda>e. ln_current_state (snd e) = LNODE_NULL) (considered now st)))"
    "get_nb_querying_node now st = Inr (length (filter (\<lambda>e. ln_current_state (snd e) = LNODE_QUERYING) (considered now st)))"
    "nsearch_is_completed now st = Inr (list_all (\<lambda>e. ln_current_state (snd e) = LNODE_SUCCEED) (considered now st))"
    "list_all (\<lambda>e. ln_current_state (snd e) = LNODE_SUCCEED) (considered now st) \<Longrightarrow>
       findnode_result_loop now st (lnode_db st) [] =
         Inr (map (\<lambda>e. (ln_kad_addr (snd e), ln_cookie_id (snd e))) (considered now st))"
proof -
  note on = nodes_clock[OF assms]
  show "get_nclosest_distid now st = Inr (map fst (considered now st))"
    using nclosest_distid_loop_eq[OF on, of 0 "[]"] ns_inv_distinct[OF assms(1)] by (simp add: get_nclosest_distid_def considered_def)
  show "get_next_lnode_to_query now st =
      Inr (map_option fst (List.find (\<lambda>e. ln_current_state (snd e) = LNODE_NULL) (considered now st)))"
    using next_query_loop_eq[OF on, of 0] by (simp add: get_next_lnode_to_query_def considered_def)
  show "get_nb_querying_node now st = Inr (length (filter (\<lambda>e. ln_current_state (snd e) = LNODE_QUERYING) (considered now st)))"
    using nb_querying_loop_eq[OF on, of 0 0] by (simp add: get_nb_querying_node_def considered_def)
  show "nsearch_is_completed now st = Inr (list_all (\<lambda>e. ln_current_state (snd e) = LNODE_SUCCEED) (considered now st))"
    using completed_loop_eq[OF on, of 0] by (simp add: nsearch_is_completed_def considered_def)
  show "list_all (\<lambda>e. ln_current_state (snd e) = LNODE_SUCCEED) (considered now st) \<Longrightarrow>
       findnode_result_loop now st (lnode_db st) [] =
         Inr (map (\<lambda>e. (ln_kad_addr (snd e), ln_cookie_id (snd e))) (considered now st))"
    using findnode_result_loop_eq[OF on, of "[]"] ns_invD(2)[OF assms(1)] by (simp add: considered_def)
qed

subsection \<open>The map of nodes\<close>

lemma gen_id_compare_eq: "length a = length b \<Longrightarrow> gen_id_compare a b = 0 \<longleftrightarrow> a = b"
  using gen_id_val_inject[of a b] by (auto simp: gen_id_compare_val)

lemma lnode_find_map_of:
  "\<forall>e\<in>set es. length (fst e) = length k \<Longrightarrow> lnode_find k es = map_of es k"
  by (induction es) (auto simp: gen_id_compare_eq)

lemma lnode_at_eq:
  "ns_inv st \<Longrightarrow> length k = kad_id_len \<Longrightarrow>
   lnode_at k st = (case map_of (lnode_db st) k of None \<Rightarrow> Inl Out_of_bounds | Some x \<Rightarrow> Inr x)"
  using lnode_find_map_of[of "lnode_db st" k] lnode_ok_length[of st] by (simp add: lnode_at_def)

lemma lnode_at_in:
  assumes "ns_inv st" "(k, x) \<in> set (lnode_db st)" shows "lnode_at k st = Inr x"
  using lnode_at_eq[OF assms(1), of k] lnode_ok_length[OF assms] ns_inv_distinct[OF assms(1)] assms(2) by simp

lemma length_ns_distid [simp]: "length (ns_distid p st) = min (length p) (length (ns_target_id st))"
  by (simp add: ns_distid_def)

lemma ns_distid_inject:
  assumes "length a = length (ns_target_id st)" "length b = length (ns_target_id st)" "ns_distid a st = ns_distid b st"
  shows "a = b"
proof -
  have "gen_id_val a XOR gen_id_val (ns_target_id st) = gen_id_val b XOR gen_id_val (ns_target_id st)"
    using assms(3) gen_id_val_xor[OF assms(1)] gen_id_val_xor[OF assms(2)] by (simp add: ns_distid_def)
  then have "kad_dist (ns_target_id st) a = kad_dist (ns_target_id st) b" using assms by (simp add: kad_dist_xor xor.commute)
  then show ?thesis using kad_dist_inject assms(1,2) by blast
qed

definition known :: "kad_nsearch_t \<Rightarrow> bytes set" where
  "known st = (\<lambda>e. m_peerid (ln_kad_addr (snd e))) ` set (lnode_db st)"

lemma lnode_present_eq:
  assumes "ns_inv st" "length p = kad_id_len"
  shows "lnode_present p st \<longleftrightarrow> p \<in> known st"
proof -
  have l: "length (ns_distid p st) = kad_id_len" using assms ns_invD(1)[OF assms(1)] by simp
  have "lnode_find (ns_distid p st) (lnode_db st) = map_of (lnode_db st) (ns_distid p st)"
    using lnode_find_map_of[of "lnode_db st" "ns_distid p st"] l lnode_ok_length[OF assms(1)] by simp
  then have "lnode_present p st \<longleftrightarrow> ns_distid p st \<in> fst ` set (lnode_db st)"
    by (auto simp: lnode_present_def map_of_eq_None_iff split: option.splits dest: map_of_SomeD intro: rev_image_eqI)
  also have "\<dots> \<longleftrightarrow> p \<in> known st"
  proof
    assume "ns_distid p st \<in> fst ` set (lnode_db st)"
    then obtain e where e: "e \<in> set (lnode_db st)" "ns_distid p st = fst e" by auto
    then have "ns_distid p st = ns_distid (m_peerid (ln_kad_addr (snd e))) st" "length (m_peerid (ln_kad_addr (snd e))) = kad_id_len"
      using ns_invD(4)[OF assms(1) e(1)] by (simp_all add: lnode_ok_def addr_usable_def)
    then have "p = m_peerid (ln_kad_addr (snd e))" using ns_distid_inject[of p st] assms(2) ns_invD(1)[OF assms(1)] by metis
    then show "p \<in> known st" using e(1) by (auto simp: known_def)
  next
    assume "p \<in> known st"
    then obtain e where e: "e \<in> set (lnode_db st)" "p = m_peerid (ln_kad_addr (snd e))" by (auto simp: known_def)
    then have "ns_distid p st = fst e" using ns_invD(4)[OF assms(1) e(1)] by (simp add: lnode_ok_def)
    then show "ns_distid p st \<in> fst ` set (lnode_db st)" using e(1) by simp
  qed
  finally show ?thesis .
qed

lemma lnode_insert_props:
  assumes "\<forall>e\<in>set es. length (fst e) = length k" "k \<notin> fst ` set es"
    "sorted_wrt (\<lambda>e f. gen_id_val (fst e) < gen_id_val (fst f)) es"
  shows "set (lnode_insert k x es) = insert (k, x) (set es) \<and>
    sorted_wrt (\<lambda>e f. gen_id_val (fst e) < gen_id_val (fst f)) (lnode_insert k x es)"
  using assms
proof (induction es)
  case (Cons e es)
  have l: "length k = length (fst e)" using Cons.prems(1) by simp
  have ne: "gen_id_val k \<noteq> gen_id_val (fst e)" using gen_id_val_inject[OF l] Cons.prems(2) by auto
  show ?case
  proof (cases "gen_id_val k < gen_id_val (fst e)")
    case True
    then have "gen_id_compare k (fst e) < 0" using gen_id_compare_val[OF l] by simp
    then show ?thesis using True Cons.prems(3) by (auto intro: less_trans)
  next
    case False
    then have "\<not> gen_id_compare k (fst e) < 0" using gen_id_compare_val[OF l] ne by simp
    then show ?thesis using False ne Cons by auto
  qed
qed simp


lemma lnode_upd_db:
  assumes "ns_inv st" "length k = kad_id_len"
  shows "lnode_db (lnode_upd k f st) = map (\<lambda>e. if fst e = k then (k, f (snd e)) else e) (lnode_db st)"
  using lnode_ok_length[OF assms(1)] assms(2) by (auto simp: lnode_upd_def gen_id_compare_eq)

lemma lnode_upd_rest [simp]:
  "ns_profile (lnode_upd k f st) = ns_profile st" "ns_target_id (lnode_upd k f st) = ns_target_id st"
  "ns_n_closest (lnode_upd k f st) = ns_n_closest st" "ns_query_type (lnode_upd k f st) = ns_query_type st"
  "nb_succ_useless_query (lnode_upd k f st) = nb_succ_useless_query st"
  "findsome_max_nb_rec (lnode_upd k f st) = findsome_max_nb_rec st" "caching_candidate (lnode_upd k f st) = caching_candidate st"
  by (simp_all add: lnode_upd_def)

definition same_search :: "kad_nsearch_t \<Rightarrow> kad_nsearch_t \<Rightarrow> bool" where
  "same_search st st' \<longleftrightarrow> ns_profile st' = ns_profile st \<and> ns_target_id st' = ns_target_id st \<and> ns_n_closest st' = ns_n_closest st \<and>
     ns_query_type st' = ns_query_type st \<and> findsome_max_nb_rec st' = findsome_max_nb_rec st"

lemma same_search_simps [simp]:
  "same_search st st" "same_search st (lnode_upd k f st)" "same_search st (st\<lparr>lnode_db := db\<rparr>)"
  "same_search st (st\<lparr>nb_succ_useless_query := n\<rparr>)" "same_search st (st\<lparr>caching_candidate := a\<rparr>)"
  by (simp_all add: same_search_def)

lemma same_search_trans [trans]: "same_search a b \<Longrightarrow> same_search b c \<Longrightarrow> same_search a c"
  by (simp add: same_search_def)

lemma same_search_distid: "same_search st st' \<Longrightarrow> ns_distid p st' = ns_distid p st"
  by (simp add: same_search_def ns_distid_def)

lemma ns_inv_upd:
  assumes "ns_inv st" "(k, x) \<in> set (lnode_db st)" "ln_kad_addr (f x) = ln_kad_addr x"
    "ln_current_state (f x) = LNODE_QUERYING \<Longrightarrow> \<not> delay_is_null (ln_rpc_birthdate (f x))"
  shows "ns_inv (lnode_upd k f st)"
proof -
  have l: "length k = kad_id_len" using lnode_ok_length[OF assms(1,2)] by simp
  note db = lnode_upd_db[OF assms(1) l, of f]
  have x: "y = x" if "(k, y) \<in> set (lnode_db st)" for y
    using that assms(2) ns_inv_distinct[OF assms(1)] by (metis map_of_eq_Some_iff option.inject)
  have d: "ns_distid p (lnode_upd k f st) = ns_distid p st" for p by (simp add: ns_distid_def)
  have s: "sorted_wrt (\<lambda>e g. gen_id_val (fst e) < gen_id_val (fst g)) (lnode_db (lnode_upd k f st))"
    using ns_invD(3)[OF assms(1)] unfolding db sorted_wrt_map by (rule sorted_wrt_mono_rel[rotated]) auto
  have "lnode_ok (lnode_upd k f st) e" if e: "e \<in> set (lnode_db (lnode_upd k f st))" for e
  proof -
    obtain g where g: "g \<in> set (lnode_db st)" "e = (if fst g = k then (k, f (snd g)) else g)"
      using e unfolding db set_map by blast
    note ok = ns_invD(4)[OF assms(1) g(1)]
    show ?thesis
    proof (cases "fst g = k")
      case True
      then have gx: "snd g = x" "e = (k, f x)" using g x[of "snd g"] by (metis prod.collapse)+
      show ?thesis unfolding lnode_ok_def gx(2) d fst_conv snd_conv using ok assms(3,4) gx(1) True unfolding lnode_ok_def by auto
    next
      case False
      then show ?thesis using ok g(2) by (simp add: lnode_ok_def d)
    qed
  qed
  then show ?thesis using s assms(1) by (simp add: ns_inv_def)
qed

lemma known_upd:
  assumes "ns_inv st" "length k = kad_id_len" "\<And>y. ln_kad_addr (f y) = ln_kad_addr y"
  shows "known (lnode_upd k f st) = known st"
  unfolding known_def lnode_upd_db[OF assms(1,2)] set_map image_image by (rule image_cong) (auto simp: assms(3))

lemma lnode_ctor_ok:
  assumes "ns_inv st" "addr_usable a" "m_peerid a \<notin> known st"
  defines "x \<equiv> \<lparr>ln_kad_addr = a, ln_cookie_id = gen_id_ctor cookie_id_len, ln_current_state = LNODE_NULL, ln_rpc_birthdate = NONE_VAL\<rparr>"
  shows "\<exists>st'. lnode_ctor a st = Inr st' \<and> ns_inv st' \<and> st' = st\<lparr>lnode_db := lnode_db st'\<rparr> \<and>
    set (lnode_db st') = insert (ns_distid (m_peerid a) st, x) (set (lnode_db st)) \<and> known st' = insert (m_peerid a) (known st)"
proof -
  let ?k = "ns_distid (m_peerid a) st"
  define st' where "st' = st\<lparr>lnode_db := lnode_insert ?k x (lnode_db st)\<rparr>"
  have la: "length (m_peerid a) = kad_id_len" using assms(2) by (simp add: addr_usable_def)
  have lk: "length ?k = kad_id_len" using la ns_invD(1)[OF assms(1)] by simp
  have np: "\<not> lnode_present (m_peerid a) st" using lnode_present_eq[OF assms(1) la] assms(3) by simp
  then have nf: "lnode_find ?k (lnode_db st) = None" by (simp add: lnode_present_def split: option.splits)
  then have "map_of (lnode_db st) ?k = None" using lnode_find_map_of[of "lnode_db st" ?k] lk lnode_ok_length[OF assms(1)] by simp
  then have "?k \<notin> fst ` set (lnode_db st)" by (simp only: map_of_eq_None_iff not_False_eq_True)
  from lnode_insert_props[OF _ this ns_invD(3)[OF assms(1)], of x]
  have ins: "set (lnode_db st') = insert (?k, x) (set (lnode_db st))"
    "sorted_wrt (\<lambda>e f. gen_id_val (fst e) < gen_id_val (fst f)) (lnode_db st')"
    using lnode_ok_length[OF assms(1)] lk by (simp_all add: st'_def)
  have d: "ns_distid p st' = ns_distid p st" for p by (simp add: ns_distid_def st'_def)
  have "lnode_ok st' (?k, x)" using assms(2) by (simp add: lnode_ok_def d x_def)
  moreover have "lnode_ok st' e" if "e \<in> set (lnode_db st)" for e using ns_invD(4)[OF assms(1) that] by (simp add: lnode_ok_def d)
  ultimately have "ns_inv st'" using assms(1) ins by (simp add: ns_inv_def st'_def)
  moreover have "lnode_ctor a st = Inr st'"
    using addr_usable_oaddr[OF assms(2)] np nf by (simp add: lnode_ctor_def lnode_link_def x_def st'_def)
  moreover have "known st' = insert (m_peerid a) (known st)" using ins(1) by (simp add: known_def x_def)
  ultimately show ?thesis using ins(1) by (auto simp: st'_def)
qed

text \<open>Learning addresses adds nodes that were not called yet.\<close>

lemma merge_loop_ok:
  assumes "ns_inv st" "\<forall>a\<in>set as. addr_usable a"
  shows "\<exists>st'. merge_loop as st = Inr st' \<and> ns_inv st' \<and> st' = st\<lparr>lnode_db := lnode_db st'\<rparr> \<and>
    set (lnode_db st) \<subseteq> set (lnode_db st') \<and> known st' = known st \<union> m_peerid ` set as \<and>
    (\<forall>e\<in>set (lnode_db st') - set (lnode_db st). ln_current_state (snd e) = LNODE_NULL)"
  using assms
proof (induction as arbitrary: st)
  case (Cons a as)
  have la: "length (m_peerid a) = kad_id_len" using Cons.prems(2) by (simp add: addr_usable_def)
  show ?case
  proof (cases "m_peerid a \<in> known st")
    case True
    then show ?thesis using Cons.IH[OF Cons.prems(1)] Cons.prems lnode_present_eq[OF Cons.prems(1) la] by auto
  next
    case False
    obtain st1 x where st1: "lnode_ctor a st = Inr st1" "ns_inv st1" "st1 = st\<lparr>lnode_db := lnode_db st1\<rparr>"
      "set (lnode_db st1) = insert (ns_distid (m_peerid a) st, x) (set (lnode_db st))" "ln_current_state x = LNODE_NULL"
      "known st1 = insert (m_peerid a) (known st)"
      using lnode_ctor_ok[OF Cons.prems(1) _ False] Cons.prems(2) by fastforce
    obtain st2 where st2: "merge_loop as st1 = Inr st2" "ns_inv st2" "st2 = st1\<lparr>lnode_db := lnode_db st2\<rparr>"
      "set (lnode_db st1) \<subseteq> set (lnode_db st2)" "known st2 = known st1 \<union> m_peerid ` set as"
      "\<forall>e\<in>set (lnode_db st2) - set (lnode_db st1). ln_current_state (snd e) = LNODE_NULL"
      using Cons.IH[OF st1(2)] Cons.prems(2) by auto
    have "st2 = st\<lparr>lnode_db := lnode_db st2\<rparr>" using st1(3) st2(3) by (metis kad_nsearch_t.surjective kad_nsearch_t.update_convs(8))
    moreover have "merge_loop (a # as) st = Inr st2" using lnode_present_eq[OF Cons.prems(1) la] False st1(1) st2(1) by simp
    ultimately show ?thesis using st1 st2 by (intro exI[of _ st2]) auto
  qed
qed simp

lemma merge_addr_arr_ok:
  assumes "ns_inv st" "\<forall>a\<in>set as. addr_usable a" "\<not> delay_is_null now"
  shows "\<exists>closer st'. merge_addr_arr now as st = Inr (closer, st') \<and> ns_inv st' \<and> st' = st\<lparr>lnode_db := lnode_db st'\<rparr> \<and>
    set (lnode_db st) \<subseteq> set (lnode_db st') \<and> known st' = known st \<union> m_peerid ` set as \<and>
    (\<forall>e\<in>set (lnode_db st') - set (lnode_db st). ln_current_state (snd e) = LNODE_NULL)"
  using merge_loop_ok[OF assms(1,2)] ns_queries(1)[OF _ assms(3)] assms(1) by (auto simp: merge_addr_arr_def)

subsection \<open>Launching calls\<close>

definition launch_upd :: "delay_t \<Rightarrow> (kad_addr_t \<Rightarrow> bool) \<Rightarrow> kad_nsearch_lnode_t \<Rightarrow> kad_nsearch_lnode_t" where
  "launch_upd now start_ok x =
     x\<lparr>ln_current_state := (if start_ok (ln_kad_addr x) then LNODE_QUERYING else LNODE_FAILED), ln_rpc_birthdate := now\<rparr>"

definition launched :: "delay_t \<Rightarrow> (kad_addr_t \<Rightarrow> bool) \<Rightarrow> kad_nsearch_lnode_t \<Rightarrow> kad_nsearch_lnode_t \<Rightarrow> bool" where
  "launched now start_ok x x' \<longleftrightarrow> x' = x \<or>
     (ln_current_state x = LNODE_NULL \<and> x' = launch_upd now start_ok x)"

definition launched_db :: "delay_t \<Rightarrow> (kad_addr_t \<Rightarrow> bool) \<Rightarrow> kad_nsearch_t \<Rightarrow> kad_nsearch_t \<Rightarrow> bool" where
  "launched_db now start_ok st st' \<longleftrightarrow> ns_inv st' \<and> st' = st\<lparr>lnode_db := lnode_db st'\<rparr> \<and>
     list_all2 (\<lambda>e e'. fst e' = fst e \<and> launched now start_ok (snd e) (snd e')) (lnode_db st) (lnode_db st')"

lemma launched_trans: "launched now ok a b \<Longrightarrow> launched now ok b c \<Longrightarrow> launched now ok a c"
  by (auto simp: launched_def launch_upd_def split: if_splits)

lemma launched_db_refl: "ns_inv st \<Longrightarrow> launched_db now ok st st"
  by (simp add: launched_db_def launched_def list.rel_refl)

lemma launched_db_trans: "launched_db now ok a b \<Longrightarrow> launched_db now ok b c \<Longrightarrow> launched_db now ok a c"
proof -
  assume ab: "launched_db now ok a b" and bc: "launched_db now ok b c"
  have "c = a\<lparr>lnode_db := lnode_db c\<rparr>" using ab bc
    by (metis launched_db_def kad_nsearch_t.surjective kad_nsearch_t.update_convs(8))
  moreover have "list_all2 (\<lambda>e e'. fst e' = fst e \<and> launched now ok (snd e) (snd e')) (lnode_db a) (lnode_db c)"
    using ab bc list_all2_trans[of "\<lambda>e e'. fst e' = fst e \<and> launched now ok (snd e) (snd e')"
        "\<lambda>e e'. fst e' = fst e \<and> launched now ok (snd e) (snd e')" "\<lambda>e e'. fst e' = fst e \<and> launched now ok (snd e) (snd e')"]
      launched_trans[of now ok] unfolding launched_db_def by (metis (mono_tags, lifting))
  ultimately show ?thesis using bc by (simp add: launched_db_def)
qed

lemma list_all2_inD1: "list_all2 R xs ys \<Longrightarrow> x \<in> set xs \<Longrightarrow> \<exists>y\<in>set ys. R x y"
  by (induction rule: list_all2_induct) auto

lemma list_all2_inD2: "list_all2 R xs ys \<Longrightarrow> y \<in> set ys \<Longrightarrow> \<exists>x\<in>set xs. R x y"
  by (induction rule: list_all2_induct) auto

lemma launched_db_props:
  assumes "launched_db now ok st st'"
  shows "ns_inv st'" "same_search st st'" "known st' = known st" "nb_succ_useless_query st' = nb_succ_useless_query st"
    "caching_candidate st' = caching_candidate st"
    "e \<in> set (lnode_db st) \<Longrightarrow> \<exists>e'\<in>set (lnode_db st'). fst e' = fst e \<and> launched now ok (snd e) (snd e')"
    "e' \<in> set (lnode_db st') \<Longrightarrow> \<exists>e\<in>set (lnode_db st). fst e' = fst e \<and> launched now ok (snd e) (snd e')"
proof -
  have st': "st' = st\<lparr>lnode_db := lnode_db st'\<rparr>"
    and l: "list_all2 (\<lambda>e e'. fst e' = fst e \<and> launched now ok (snd e) (snd e')) (lnode_db st) (lnode_db st')"
    using assms unfolding launched_db_def by blast+
  show "ns_inv st'" using assms by (simp add: launched_db_def)
  show "same_search st st'" by (subst st') simp
  show "nb_succ_useless_query st' = nb_succ_useless_query st" by (subst st') simp
  show "caching_candidate st' = caching_candidate st" by (subst st') simp
  show 1: "\<exists>e'\<in>set (lnode_db st'). fst e' = fst e \<and> launched now ok (snd e) (snd e')" if "e \<in> set (lnode_db st)" for e
    using that list_all2_inD1[OF l] by blast
  show 2: "\<exists>e\<in>set (lnode_db st). fst e' = fst e \<and> launched now ok (snd e) (snd e')" if "e' \<in> set (lnode_db st')" for e'
    using that list_all2_inD2[OF l] by blast
  have a: "ln_kad_addr y = ln_kad_addr x" if "launched now ok x y" for x y using that by (auto simp: launched_def launch_upd_def)
  have "p \<in> known st'" if p: "p \<in> known st" for p
  proof -
    obtain e where "e \<in> set (lnode_db st)" "p = m_peerid (ln_kad_addr (snd e))" using p unfolding known_def by blast
    with 1[of e] obtain e' where "e' \<in> set (lnode_db st')" "launched now ok (snd e) (snd e')" by blast
    then show ?thesis using a[of "snd e" "snd e'"] \<open>p = _\<close> by (auto simp: known_def intro!: image_eqI[of _ _ e'])
  qed
  moreover have "p \<in> known st" if p: "p \<in> known st'" for p
  proof -
    obtain e' where "e' \<in> set (lnode_db st')" "p = m_peerid (ln_kad_addr (snd e'))" using p unfolding known_def by blast
    with 2[of e'] obtain e where "e \<in> set (lnode_db st)" "launched now ok (snd e) (snd e')" by blast
    then show ?thesis using a[of "snd e" "snd e'"] \<open>p = _\<close> by (auto simp: known_def intro!: image_eqI[of _ _ e])
  qed
  ultimately show "known st' = known st" by blast
qed

lemma find_null_considered:
  assumes "List.find (\<lambda>e. ln_current_state (snd e) = LNODE_NULL) (considered now st) = Some (k, x)"
  shows "(k, x) \<in> set (lnode_db st)" "ln_current_state x = LNODE_NULL"
proof -
  show "ln_current_state x = LNODE_NULL" using assms by (metis (mono_tags, lifting) find_Some_iff snd_conv)
  have "(k, x) \<in> set (considered now st)" using assms by (auto simp: find_Some_iff)
  then show "(k, x) \<in> set (lnode_db st)" by (auto simp: considered_def dest: in_set_takeD)
qed

lemma upd_null_launched:
  assumes "ns_inv st" "(k, x) \<in> set (lnode_db st)" "ln_current_state x = LNODE_NULL" "\<not> delay_is_null now"
  shows "launched_db now ok st (lnode_upd k (launch_upd now ok) st)"
proof -
  have l: "length k = kad_id_len" using lnode_ok_length[OF assms(1,2)] by simp
  have inv: "ns_inv (lnode_upd k (launch_upd now ok) st)" using ns_inv_upd[OF assms(1,2), of "launch_upd now ok"] assms(4) by (simp add: launch_upd_def)
  have x: "y = x" if "(k, y) \<in> set (lnode_db st)" for y
    using that assms(2) ns_inv_distinct[OF assms(1)] by (metis map_of_eq_Some_iff option.inject)
  have "list_all2 (\<lambda>e e'. fst e' = fst e \<and> launched now ok (snd e) (snd e')) (lnode_db st) (lnode_db (lnode_upd k (launch_upd now ok) st))"
    unfolding lnode_upd_db[OF assms(1) l] list_all2_map2
  proof (rule list.rel_refl_strong)
    fix e assume e: "e \<in> set (lnode_db st)"
    have "snd e = x" if "fst e = k" using x[of "snd e"] e that by (metis prod.collapse)
    then show "fst (if fst e = k then (k, launch_upd now ok (snd e)) else e) = fst e \<and>
        launched now ok (snd e) (snd (if fst e = k then (k, launch_upd now ok (snd e)) else e))"
      using assms(3) by (auto simp: launched_def launch_upd_def)
  qed
  then show ?thesis using inv by (simp add: launched_db_def lnode_upd_def)
qed

lemma lnode_start_eq:
  assumes "ns_inv st" "(k, x) \<in> set (lnode_db st)" "ln_current_state x = LNODE_NULL"
  shows "\<exists>acts. lnode_start now ok k st = Inr (ok (ln_kad_addr x), acts, lnode_upd k (launch_upd now ok) st)"
proof -
  let ?q = "\<lambda>x. x\<lparr>ln_current_state := LNODE_QUERYING, ln_rpc_birthdate := now\<rparr>"
  have l: "length k = kad_id_len" using lnode_ok_length[OF assms(1,2)] by simp
  have x: "y = x" if "(k, y) \<in> set (lnode_db st)" for y
    using that assms(2) ns_inv_distinct[OF assms(1)] by (metis map_of_eq_Some_iff option.inject)
  have u: "lnode_upd k (launch_upd now ok) st = (if ok (ln_kad_addr x) then lnode_upd k ?q st
      else lnode_upd k (\<lambda>x. x\<lparr>ln_current_state := LNODE_FAILED\<rparr>) (lnode_upd k ?q st))"
  proof -
    have eq: "lnode_upd k g st = lnode_upd k h st" if "g x = h x" for g h
    proof -
      have "lnode_db (lnode_upd k g st) = lnode_db (lnode_upd k h st)"
        unfolding lnode_upd_db[OF assms(1) l] using x that by (auto intro!: map_cong)
      then show ?thesis by (simp add: lnode_upd_def)
    qed
    show ?thesis
      using eq[of "launch_upd now ok" ?q] eq[of "launch_upd now ok" "\<lambda>x. ?q x\<lparr>ln_current_state := LNODE_FAILED\<rparr>"]
      by (cases "ok (ln_kad_addr x)") (simp_all only: launch_upd_def lnode_upd_upd if_True if_False, simp_all)
  qed
  show ?thesis unfolding u lnode_start_def lnode_at_in[OF assms(1,2)] by (simp add: assms(3) Let_def)
qed

lemma launch_one_unfold:
  assumes "ns_inv st" "\<not> delay_is_null now"
  shows "launch_one now ok st =
    (case List.find (\<lambda>e. ln_current_state (snd e) = LNODE_NULL) (considered now st) of
       None \<Rightarrow> Inr ([], st)
     | Some e \<Rightarrow> (case lnode_start now ok (fst e) st of
             Inl e \<Rightarrow> Inl e
           | Inr (True, acts, st') \<Rightarrow> Inr (acts, st')
           | Inr (False, acts, st') \<Rightarrow> launch_one now ok st'))"
  by (subst launch_one.simps) (simp add: ns_queries(2)[OF assms] split: option.splits)

lemma launch_one_ok:
  assumes "ns_inv st" "\<not> delay_is_null now"
  shows "\<exists>acts st'. launch_one now ok st = Inr (acts, st') \<and> launched_db now ok st st'"
  using assms
proof (induction "nb_null_nodes st" arbitrary: st rule: less_induct)
  case less
  let ?f = "launch_upd now ok"
  show ?case
  proof (cases "List.find (\<lambda>e. ln_current_state (snd e) = LNODE_NULL) (considered now st)")
    case None
    then show ?thesis using launch_one_unfold[OF less.prems, of ok] launched_db_refl[OF less.prems(1)] by simp
  next
    case (Some e)
    obtain k x where e: "e = (k, x)" by (cases e)
    note kx = find_null_considered[OF Some[unfolded e]]
    obtain acts where start: "lnode_start now ok k st = Inr (ok (ln_kad_addr x), acts, lnode_upd k ?f st)"
      using lnode_start_eq[OF less.prems(1) kx, of now ok] by blast
    note up = upd_null_launched[OF less.prems(1) kx less.prems(2), of ok]
    show ?thesis
    proof (cases "ok (ln_kad_addr x)")
      case True
      then show ?thesis using launch_one_unfold[OF less.prems, of ok] start up Some e by simp
    next
      case False
      have "nb_null_nodes (lnode_upd k ?f st) < nb_null_nodes st" using lnode_start_failed[of now ok k st acts] start False by simp
      then obtain acts' st' where "launch_one now ok (lnode_upd k ?f st) = Inr (acts', st')" "launched_db now ok (lnode_upd k ?f st) st'"
        using less.hyps[OF _ launched_db_props(1)[OF up] less.prems(2)] by blast
      then show ?thesis using launch_one_unfold[OF less.prems, of ok] start launched_db_trans[OF up] Some e False by auto
    qed
  qed
qed

lemma launch_queries_ok:
  assumes "ns_inv st" "\<not> delay_is_null now"
  shows "\<exists>acts st'. launch_queries now ok m st = Inr (acts, st') \<and> launched_db now ok st st'"
  using assms
proof (induction m arbitrary: st)
  case 0
  then show ?case using launched_db_refl by simp
next
  case (Suc m)
  obtain acts st1 where 1: "launch_one now ok st = Inr (acts, st1)" "launched_db now ok st st1"
    using launch_one_ok[OF Suc.prems] by blast
  obtain acts' st2 where 2: "launch_queries now ok m st1 = Inr (acts', st2)" "launched_db now ok st1 st2"
    using Suc.IH[OF launched_db_props(1)[OF 1(2)] Suc.prems(2)] by blast
  show ?case using 1 2 launched_db_trans by fastforce
qed

text \<open>When calls can be started and a node is left to call, one is running afterwards.\<close>

lemma launched_querying:
  assumes "launched_db now ok st st'" "(k, x) \<in> set (lnode_db st)" "ln_current_state x = LNODE_QUERYING"
  shows "(k, x) \<in> set (lnode_db st')"
  using launched_db_props(6)[OF assms(1,2)] assms(3) by (auto simp: launched_def)

lemma launch_queries_running:
  assumes "ns_inv st" "\<not> delay_is_null now" "0 < m" "e \<in> set (considered now st)" "ln_current_state (snd e) = LNODE_NULL"
    "launch_queries now (\<lambda>a. True) m st = Inr (acts, st')"
  shows "\<exists>e\<in>set (lnode_db st'). ln_current_state (snd e) = LNODE_QUERYING"
proof -
  obtain k x where f: "List.find (\<lambda>e. ln_current_state (snd e) = LNODE_NULL) (considered now st) = Some (k, x)"
    using assms(4,5) by (metis (mono_tags, lifting) find_None_iff not_None_eq old.prod.exhaust)
  note kx = find_null_considered[OF f]
  let ?u = "launch_upd now (\<lambda>a. True)"
  obtain acts0 where start: "lnode_start now (\<lambda>a. True) k st = Inr (True, acts0, lnode_upd k ?u st)"
    using lnode_start_eq[OF assms(1) kx, of now "\<lambda>a. True"] by blast
  have up: "launched_db now (\<lambda>a. True) st (lnode_upd k ?u st)" by (rule upd_null_launched[OF assms(1) kx assms(2)])
  have one: "launch_one now (\<lambda>a. True) st = Inr (acts0, lnode_upd k ?u st)"
    using launch_one_unfold[OF assms(1,2), of "\<lambda>a. True"] f start by simp
  obtain n where m: "m = Suc n" using assms(3) by (cases m) auto
  obtain acts1 st1 where rest: "launch_queries now (\<lambda>a. True) n (lnode_upd k ?u st) = Inr (acts1, st1)"
    "launched_db now (\<lambda>a. True) (lnode_upd k ?u st) st1"
    using launch_queries_ok[OF launched_db_props(1)[OF up] assms(2)] by blast
  have "st' = st1" using assms(6) one rest(1) m by simp
  moreover have "(k, ?u x) \<in> set (lnode_db (lnode_upd k ?u st))"
    using kx(1) lnode_upd_db[OF assms(1), of k ?u] lnode_ok_length[OF assms(1) kx(1)] by force
  then have "(k, ?u x) \<in> set (lnode_db st1)" using launched_querying[OF rest(2)] by (simp add: launch_upd_def)
  ultimately show ?thesis by (force simp: launch_upd_def)
qed

definition ns_result :: "delay_t \<Rightarrow> kad_nsearch_t \<Rightarrow> (kad_addr_t \<times> bytes) list" where
  "ns_result now st = map (\<lambda>e. (ln_kad_addr (snd e), ln_cookie_id (snd e))) (considered now st)"

lemma ns_after_event_ok:
  assumes "ns_inv st" "\<not> delay_is_null now"
  shows "if list_all (\<lambda>e. ln_current_state (snd e) = LNODE_SUCCEED) (considered now st)
    then ns_after_event now ok st = Inr ([case ns_query_type st of FINDNODE_REQUEST \<Rightarrow> Ns_caddr_arr (ns_result now st)
           | FINDSOMEVAL_REQUEST \<Rightarrow> Ns_recdups kad_recdups_ctor False], None)
    else \<exists>acts st'. ns_after_event now ok st = Inr (acts, Some st') \<and> launched_db now ok st st' \<and>
           ((\<forall>a. ok a) \<longrightarrow> (\<exists>e\<in>set (lnode_db st'). ln_current_state (snd e) = LNODE_QUERYING))"
proof (cases "list_all (\<lambda>e. ln_current_state (snd e) = LNODE_SUCCEED) (considered now st)")
  case True
  then show ?thesis
    using ns_queries(4,5)[OF assms]
    by (simp add: ns_after_event_def notify_end_result_def notify_findnode_result_def notify_findsomeval_result_def ns_result_def
        split: query_type_t.splits)
next
  case False
  define wished where "wished = (if nb_succ_useless_query st \<ge> nb_concurrent_req (ns_profile st)
    then ns_n_closest st else nb_concurrent_req (ns_profile st))"
  define q where "q = length (filter (\<lambda>e. ln_current_state (snd e) = LNODE_QUERYING) (considered now st))"
  have wp: "0 < wished" using ns_invD(2)[OF assms(1)] by (auto simp: wished_def)
  have step: "ns_after_event now ok st = (if q \<ge> wished then Inr ([], Some st)
      else res_bind (launch_queries now ok (wished - q) st) (\<lambda>(acts, st). Inr (acts, Some st)))"
    using False ns_queries(3,4)[OF assms] by (simp add: ns_after_event_def wished_def q_def Let_def)
  obtain e where e: "e \<in> set (considered now st)" "ln_current_state (snd e) \<noteq> LNODE_SUCCEED" using False by (auto simp: list_all_iff)
  have "\<not> lnode_off now st (snd e)" using e(1) by (auto simp: considered_def dest: in_set_takeD)
  then have st: "ln_current_state (snd e) = LNODE_NULL \<or> ln_current_state (snd e) = LNODE_QUERYING"
    using e(2) lnode_off_state(3) by (metis lnode_state_t.exhaust)
  have db: "set (considered now st) \<subseteq> set (lnode_db st)" by (auto simp: considered_def dest: in_set_takeD)
  show ?thesis
  proof (cases "q \<ge> wished")
    case True
    then have "q \<noteq> 0" using wp by simp
    then have "\<exists>e\<in>set (lnode_db st). ln_current_state (snd e) = LNODE_QUERYING"
      using db by (auto simp: q_def filter_empty_conv)
    then show ?thesis using False True step launched_db_refl[OF assms(1)] by auto
  next
    case nq: False
    obtain acts st' where l: "launch_queries now ok (wished - q) st = Inr (acts, st')" "launched_db now ok st st'"
      using launch_queries_ok[OF assms] by blast
    have "\<exists>e\<in>set (lnode_db st'). ln_current_state (snd e) = LNODE_QUERYING" if ok: "\<forall>a. ok a"
      using st
    proof
      assume "ln_current_state (snd e) = LNODE_NULL"
      moreover have "ok = (\<lambda>a. True)" using ok by auto
      note oks = this
      ultimately show ?thesis using launch_queries_running[OF assms _ e(1) _ l(1)[unfolded oks]] nq by simp
    next
      assume "ln_current_state (snd e) = LNODE_QUERYING"
      then show ?thesis using launched_querying[OF l(2), of "fst e" "snd e"] e(1) db by force
    qed
    then show ?thesis using False nq step l by auto
  qed
qed

subsection \<open>Events\<close>

definition outcome_fits :: "kad_nsearch_t \<Rightarrow> rpc_outcome_t \<Rightarrow> bool" where
  "outcome_fits st outcome = (case outcome of
     Rpc_fatal \<Rightarrow> True
   | Rpc_reply event \<Rightarrow> (case event of
       Rpc_addr_arr as cookie \<Rightarrow> (\<forall>a\<in>set as. addr_usable a)
     | Rpc_recdups d has_more \<Rightarrow> ns_query_type st = FINDSOMEVAL_REQUEST
     | _ \<Rightarrow> False))"

definition learned :: "rpc_outcome_t \<Rightarrow> bytes set" where
  "learned outcome = (case outcome of Rpc_reply (Rpc_addr_arr as cookie) \<Rightarrow> m_peerid ` set as | _ \<Rightarrow> {})"

definition settled :: "rpc_outcome_t \<Rightarrow> kad_nsearch_lnode_t \<Rightarrow> kad_nsearch_lnode_t" where
  "settled outcome x = (case outcome of
     Rpc_reply (Rpc_addr_arr as cookie) \<Rightarrow> x\<lparr>ln_current_state := LNODE_SUCCEED, ln_cookie_id := cookie\<rparr>
   | _ \<Rightarrow> x\<lparr>ln_current_state := LNODE_FAILED\<rparr>)"

text \<open>What an event does to the nodes before the search goes on.\<close>

definition event_step :: "bytes \<Rightarrow> kad_nsearch_lnode_t \<Rightarrow> rpc_outcome_t \<Rightarrow> kad_nsearch_t \<Rightarrow> kad_nsearch_t \<Rightarrow> bool" where
  "event_step k x outcome st st' \<longleftrightarrow> ns_inv st' \<and> same_search st st' \<and> known st' = known st \<union> learned outcome \<and>
     (k, settled outcome x) \<in> set (lnode_db st') \<and>
     (\<forall>e\<in>set (lnode_db st). fst e \<noteq> k \<longrightarrow> e \<in> set (lnode_db st')) \<and>
     (\<forall>e\<in>set (lnode_db st'). e = (k, settled outcome x) \<or> (e \<in> set (lnode_db st) \<and> fst e \<noteq> k) \<or> ln_current_state (snd e) = LNODE_NULL)"

lemma upd_step:
  assumes "ns_inv st" "(k, x) \<in> set (lnode_db st)" "\<And>y. ln_kad_addr (f y) = ln_kad_addr y"
    "ln_current_state (f x) \<noteq> LNODE_QUERYING"
  shows "ns_inv (lnode_upd k f st)" "known (lnode_upd k f st) = known st" "(k, f x) \<in> set (lnode_db (lnode_upd k f st))"
    "e \<in> set (lnode_db st) \<Longrightarrow> fst e \<noteq> k \<Longrightarrow> e \<in> set (lnode_db (lnode_upd k f st))"
    "e \<in> set (lnode_db (lnode_upd k f st)) \<Longrightarrow> e = (k, f x) \<or> (e \<in> set (lnode_db st) \<and> fst e \<noteq> k)"
proof -
  have l: "length k = kad_id_len" using lnode_ok_length[OF assms(1,2)] by simp
  note db = lnode_upd_db[OF assms(1) l, of f]
  show "ns_inv (lnode_upd k f st)" using ns_inv_upd[OF assms(1,2), of f] assms(3,4) by simp
  show "known (lnode_upd k f st) = known st" using known_upd[OF assms(1) l, of f] assms(3) by simp
  show "(k, f x) \<in> set (lnode_db (lnode_upd k f st))" using assms(2) db by force
  show "e \<in> set (lnode_db (lnode_upd k f st))" if "e \<in> set (lnode_db st)" "fst e \<noteq> k" using that db by force
  have x: "y = x" if "(k, y) \<in> set (lnode_db st)" for y
    using that assms(2) ns_inv_distinct[OF assms(1)] by (metis map_of_eq_Some_iff option.inject)
  show "e = (k, f x) \<or> (e \<in> set (lnode_db st) \<and> fst e \<noteq> k)" if "e \<in> set (lnode_db (lnode_upd k f st))"
  proof -
    obtain g where g: "g \<in> set (lnode_db st)" "e = (if fst g = k then (k, f (snd g)) else g)"
      using \<open>e \<in> _\<close> unfolding db set_map by blast
    show ?thesis
    proof (cases "fst g = k")
      case True
      then have "(k, snd g) \<in> set (lnode_db st)" using g(1) by auto
      then show ?thesis using x True g(2) by simp
    qed (use g in simp)
  qed
qed

lemma ns_inv_rest:
  "ns_inv (st\<lparr>nb_succ_useless_query := n\<rparr>) = ns_inv st"
  "addr_usable a \<Longrightarrow> ns_inv st \<Longrightarrow> ns_inv (st\<lparr>caching_candidate := a\<rparr>)"
  by (auto simp: ns_inv_def lnode_ok_def ns_distid_def addr_usable_def)

lemma process_replied_ok:
  assumes "ns_inv st" "\<forall>a\<in>set as. addr_usable a" "\<not> delay_is_null now"
  shows "\<exists>st'. process_replied_addr_arr now as st = Inr st' \<and> ns_inv st' \<and> same_search st st' \<and>
    set (lnode_db st) \<subseteq> set (lnode_db st') \<and> known st' = known st \<union> m_peerid ` set as \<and>
    (\<forall>e\<in>set (lnode_db st') - set (lnode_db st). ln_current_state (snd e) = LNODE_NULL)"
proof -
  obtain closer st1 where m: "merge_addr_arr now as st = Inr (closer, st1)" "ns_inv st1" "st1 = st\<lparr>lnode_db := lnode_db st1\<rparr>"
    "set (lnode_db st) \<subseteq> set (lnode_db st1)" "known st1 = known st \<union> m_peerid ` set as"
    "\<forall>e\<in>set (lnode_db st1) - set (lnode_db st). ln_current_state (snd e) = LNODE_NULL"
    using merge_addr_arr_ok[OF assms] by blast
  have "same_search st st1" by (subst m(3)) simp
  moreover have "same_search st1 (st1\<lparr>nb_succ_useless_query := n\<rparr>)" for n by simp
  ultimately have "same_search st (st1\<lparr>nb_succ_useless_query := n\<rparr>)" for n using same_search_trans by blast
  then show ?thesis using m by (auto simp: process_replied_addr_arr_def ns_inv_rest known_def)
qed

lemma rpc_event_step:
  assumes "ns_inv st" "(k, x) \<in> set (lnode_db st)" "ln_current_state x = LNODE_QUERYING" "\<not> delay_is_null now"
    "outcome_fits st outcome"
  shows "(\<exists>acts d has_more. outcome = Rpc_reply (Rpc_recdups d has_more) \<and>
        rpc_event_cb now ok k outcome st = Inr (acts @ [Ns_recdups d has_more], None)) \<or>
    (\<exists>st'. event_step k x outcome st st' \<and> rpc_event_cb now ok k outcome st = ns_after_event now ok st')"
proof -
  have at: "lnode_at k st = Inr x" by (rule lnode_at_in[OF assms(1,2)])
  consider (fatal) "outcome = Rpc_fatal" | (recs) d m where "outcome = Rpc_reply (Rpc_recdups d m)" "ns_query_type st = FINDSOMEVAL_REQUEST"
    | (addrs) as c where "outcome = Rpc_reply (Rpc_addr_arr as c)" "\<forall>a\<in>set as. addr_usable a"
    using assms(5) by (auto simp: outcome_fits_def split: rpc_outcome_t.splits kad_rpc_event.splits)
  then show ?thesis
  proof cases
    case fatal
    let ?f = "\<lambda>x :: kad_nsearch_lnode_t. x\<lparr>ln_current_state := LNODE_FAILED\<rparr>"
    note u = upd_step[OF assms(1,2), of ?f]
    have "event_step k x outcome st (lnode_upd k ?f st)"
      using u by (simp add: event_step_def fatal settled_def learned_def, blast)
    then show ?thesis using at assms(3) by (auto simp: rpc_event_cb_def fatal)
  next
    case recs
    have fq: "kad_addr_is_null (caching_candidate st) \<or> kad_addr_is_fully_qualified (caching_candidate st) = Inr True"
      using assms(1) by (simp add: ns_inv_def)
    show ?thesis
    proof (cases "caching_enable (ns_profile st) \<and> \<not> kad_addr_is_null (caching_candidate st)")
      case True
      then have "rpc_event_cb now ok k outcome st = Inr ([Ns_replicate d (caching_candidate st)] @ [Ns_recdups d m], None)"
        using at assms(3) fq by (simp add: rpc_event_cb_def recs ns_handle_reply_def handle_findsomeval_reply_def)
      then show ?thesis using recs(1) by blast
    next
      case False
      then have "rpc_event_cb now ok k outcome st = Inr ([] @ [Ns_recdups d m], None)"
        using at assms(3) by (auto simp: rpc_event_cb_def recs ns_handle_reply_def handle_findsomeval_reply_def)
      then show ?thesis using recs(1) by blast
    qed
  next
    case addrs
    let ?f = "\<lambda>x :: kad_nsearch_lnode_t. x\<lparr>ln_current_state := LNODE_SUCCEED\<rparr>"
    let ?g = "\<lambda>x :: kad_nsearch_lnode_t. x\<lparr>ln_cookie_id := c\<rparr>"
    define st2 where "st2 = lnode_upd k ?g (lnode_upd k ?f st)"
    have st2: "st2 = lnode_upd k (\<lambda>x. ?g (?f x)) st" by (simp add: st2_def lnode_upd_upd)
    note u = upd_step[OF assms(1,2), of "\<lambda>x. ?g (?f x)", folded st2]
    have inv2: "ns_inv st2" using u(1) by simp
    obtain st3 where p: "process_replied_addr_arr now as st2 = Inr st3" "ns_inv st3" "same_search st2 st3"
      "set (lnode_db st2) \<subseteq> set (lnode_db st3)" "known st3 = known st2 \<union> m_peerid ` set as"
      "\<forall>e\<in>set (lnode_db st3) - set (lnode_db st2). ln_current_state (snd e) = LNODE_NULL"
      using process_replied_ok[OF inv2 addrs(2) assms(4)] by blast
    have x3: "(k, settled outcome x) \<in> set (lnode_db st3)" using u(3) p(4) by (auto simp: addrs settled_def)
    have s2: "same_search st st2" unfolding st2 by simp
    have ev: "event_step k x outcome st st3"
      unfolding event_step_def
    proof (intro conjI ballI impI)
      show "same_search st st3" using s2 p(3) same_search_trans by blast
      show "known st3 = known st \<union> learned outcome" using p(5) u(2) by (simp add: addrs learned_def)
      show "e \<in> set (lnode_db st3)" if "e \<in> set (lnode_db st)" "fst e \<noteq> k" for e using u(4)[OF _ _ that] p(4) by auto
      show "e = (k, settled outcome x) \<or> (e \<in> set (lnode_db st) \<and> fst e \<noteq> k) \<or> ln_current_state (snd e) = LNODE_NULL"
        if "e \<in> set (lnode_db st3)" for e
        using that p(6) u(5)[of e] by (cases "e \<in> set (lnode_db st2)") (auto simp: addrs settled_def)
    qed (use p(2) x3 in blast)+
    have us: "addr_usable (ln_kad_addr x)" using ns_invD(4)[OF assms(1,2)] by (simp add: lnode_ok_def)
    have ev': "event_step k x outcome st (st3\<lparr>caching_candidate := ln_kad_addr x\<rparr>)"
    proof -
      let ?st = "st3\<lparr>caching_candidate := ln_kad_addr x\<rparr>"
      have "ns_inv ?st" using ns_inv_rest(2)[OF us p(2)] .
      moreover have "same_search st ?st" using s2 p(3) same_search_trans same_search_simps(5) by blast
      moreover have "known ?st = known st3" "lnode_db ?st = lnode_db st3" by (simp_all add: known_def)
      ultimately show ?thesis using ev unfolding event_step_def by simp
    qed
    have at3: "lnode_at k st3 = Inr (settled outcome x)" by (rule lnode_at_in[OF p(2) x3])
    have "ln_kad_addr (settled outcome x) = ln_kad_addr x" by (simp add: addrs settled_def)
    then have "\<exists>st'. event_step k x outcome st st' \<and>
        ns_handle_reply now k (Rpc_addr_arr as c) (lnode_upd k ?f st) = Inr ([], True, st')"
      using ev ev' p(1) at3 unfolding st2_def
      by (cases "ns_query_type st") (auto simp: ns_handle_reply_def handle_findnode_reply_def handle_findsomeval_reply_def Let_def)
    then obtain st' where st': "event_step k x outcome st st'"
      "ns_handle_reply now k (Rpc_addr_arr as c) (lnode_upd k ?f st) = Inr ([], True, st')" by blast
    have "res_bind r (\<lambda>(acts', r). Inr ([] @ acts', r)) = r" for r :: "(ns_action list \<times> kad_nsearch_t option) res"
      by (cases r) auto
    then have "rpc_event_cb now ok k outcome st = ns_after_event now ok st'"
      using at assms(3) st'(2) by (simp add: rpc_event_cb_def addrs)
    then show ?thesis using st'(1) by blast
  qed
qed

text \<open>No assertion fails: the search ends, or goes on with its invariant.\<close>

lemma rpc_event_ok:
  assumes "ns_inv st" "(k, x) \<in> set (lnode_db st)" "ln_current_state x = LNODE_QUERYING" "\<not> delay_is_null now"
    "outcome_fits st outcome"
  shows "\<exists>acts r. rpc_event_cb now ok k outcome st = Inr (acts, r) \<and> (case r of None \<Rightarrow> True | Some st' \<Rightarrow> ns_inv st' \<and> same_search st st')"
proof -
  from rpc_event_step[OF assms, of ok] show ?thesis
  proof
    assume "\<exists>st'. event_step k x outcome st st' \<and> rpc_event_cb now ok k outcome st = ns_after_event now ok st'"
    then obtain st1 where st1: "event_step k x outcome st st1" "rpc_event_cb now ok k outcome st = ns_after_event now ok st1" by blast
    then have inv: "ns_inv st1" "same_search st st1" by (simp_all add: event_step_def)
    show ?thesis
      using ns_after_event_ok[OF inv(1) assms(4), of ok] st1(2) launched_db_props(1,2)[of now ok st1] same_search_trans[OF inv(2)]
      by (auto split: if_splits)
  qed auto
qed

subsection \<open>Searches over a network\<close>

text \<open>The network: what a peer answers, nothing when it is dead.  A run picks, again and again, any of the calls that are running and lets it
  end at some time.\<close>

type_synonym ns_network = "bytes \<Rightarrow> (kad_addr_t list \<times> bytes) option"

definition net_outcome :: "ns_network \<Rightarrow> kad_nsearch_lnode_t \<Rightarrow> rpc_outcome_t" where
  "net_outcome net x =
     (case net (m_peerid (ln_kad_addr x)) of None \<Rightarrow> Rpc_fatal | Some (as, cookie) \<Rightarrow> Rpc_reply (Rpc_addr_arr as cookie))"

fun ns_net_run :: "ns_network \<Rightarrow> (delay_t \<times> nat) list \<Rightarrow> kad_nsearch_t \<Rightarrow> (ns_action list \<times> kad_nsearch_t option) res" where
  "ns_net_run net [] st = Inr ([], Some st)"
| "ns_net_run net ((now, i) # ops) st =
     (let running = filter (\<lambda>e. ln_current_state (snd e) = LNODE_QUERYING) (lnode_db st) in
      if running = [] then Inr ([], Some st)
      else let e = running ! (i mod length running) in
        res_bind (rpc_event_cb now (\<lambda>a. True) (fst e) (net_outcome net (snd e)) st) (\<lambda>(acts, r).
          case r of
            None \<Rightarrow> Inr (acts, None)
          | Some st \<Rightarrow> res_bind (ns_net_run net ops st) (\<lambda>(acts', r). Inr (acts @ acts', r))))"

definition net_ok :: "ns_network \<Rightarrow> bytes set \<Rightarrow> bool" where
  "net_ok net N \<longleftrightarrow> finite N \<and> (\<forall>p\<in>N. \<forall>as cookie. net p = Some (as, cookie) \<longrightarrow> (\<forall>a\<in>set as. addr_usable a \<and> m_peerid a \<in> N))"

text \<open>The events come in time: within the soft time out of the calls.\<close>

definition times_ok :: "delay_t \<Rightarrow> delay_t \<Rightarrow> delay_t list \<Rightarrow> bool" where
  "times_ok soft lo ts \<longleftrightarrow> sorted (lo # ts) \<and> (\<forall>t\<in>set (lo # ts). t < INFINITE_VAL \<and> t - lo \<le> soft)"

text \<open>What a search promises: live peers in the order of their distance, each with the cookie that it gave, and every live peer that is a
  seed or that a reported peer names is reported, or else as many as asked for are, all of them closer.  This is optimality among the
  peers named by the seeds and the reported peers only: a closer live peer that is named by an unreported peer alone may be missed, as
  the search does not query a peer that is not among the \<open>n\<close> closest it knows.\<close>

definition locally_closest :: "ns_network \<Rightarrow> bytes \<Rightarrow> nat \<Rightarrow> bytes set \<Rightarrow> (kad_addr_t \<times> bytes) list \<Rightarrow> bool" where
  "locally_closest net target n seeds result \<longleftrightarrow>
     sorted_wrt (\<lambda>a b. kad_dist target (m_peerid (fst a)) < kad_dist target (m_peerid (fst b))) result \<and> length result \<le> n \<and>
     (\<forall>(a, cookie)\<in>set result. \<exists>as. net (m_peerid a) = Some (as, cookie)) \<and>
     (\<forall>p. (p \<in> seeds \<or> (\<exists>a\<in>fst ` set result. \<exists>as cookie. net (m_peerid a) = Some (as, cookie) \<and> p \<in> m_peerid ` set as)) \<and> net p \<noteq> None \<longrightarrow>
        p \<in> m_peerid ` fst ` set result \<or>
        (length result = n \<and> (\<forall>a\<in>fst ` set result. kad_dist target (m_peerid a) < kad_dist target p)))"

definition lnode_true :: "ns_network \<Rightarrow> delay_t \<Rightarrow> delay_t \<Rightarrow> bytes set \<Rightarrow> kad_nsearch_lnode_t \<Rightarrow> bool" where
  "lnode_true net lo now ps x \<longleftrightarrow> (case ln_current_state x of
     LNODE_NULL \<Rightarrow> True
   | LNODE_QUERYING \<Rightarrow> lo \<le> ln_rpc_birthdate x \<and> ln_rpc_birthdate x \<le> now
   | LNODE_SUCCEED \<Rightarrow> (\<exists>as. net (m_peerid (ln_kad_addr x)) = Some (as, ln_cookie_id x) \<and> m_peerid ` set as \<subseteq> ps)
   | LNODE_FAILED \<Rightarrow> net (m_peerid (ln_kad_addr x)) = None)"

definition net_inv :: "ns_network \<Rightarrow> bytes set \<Rightarrow> bytes set \<Rightarrow> delay_t \<Rightarrow> delay_t \<Rightarrow> kad_nsearch_t \<Rightarrow> bool" where
  "net_inv net N seeds lo now st \<longleftrightarrow> ns_inv st \<and> known st \<subseteq> N \<and> seeds \<subseteq> known st \<and>
     (\<forall>e\<in>set (lnode_db st). lnode_true net lo now (known st) (snd e))"

lemma lnode_true_mono:
  "lnode_true net lo now ps x \<Longrightarrow> ps \<subseteq> ps' \<Longrightarrow> now \<le> now' \<Longrightarrow> lnode_true net lo now' ps' x"
  by (auto simp: lnode_true_def split: lnode_state_t.splits)

lemma off_in_time:
  assumes "lnode_true net lo now ps x" "now < INFINITE_VAL" "now - lo \<le> rpccli_soft_timeout (ns_profile st)"
  shows "lnode_off now st x \<longleftrightarrow> ln_current_state x = LNODE_FAILED"
proof (cases "ln_current_state x = LNODE_QUERYING")
  case True
  then have b: "lo \<le> ln_rpc_birthdate x" "ln_rpc_birthdate x \<le> now" using assms(1) by (auto simp: lnode_true_def)
  have special: "t \<noteq> NONE_VAL" "t \<noteq> INFINITE_VAL" if "t < INFINITE_VAL" for t
    using that by (auto simp: INFINITE_VAL_def NONE_VAL_def)
  have "ln_rpc_birthdate x < INFINITE_VAL" using b(2) assms(2) by (rule le_less_trans)
  then have ne: "now \<noteq> NONE_VAL" "now \<noteq> INFINITE_VAL" "ln_rpc_birthdate x \<noteq> NONE_VAL" "ln_rpc_birthdate x \<noteq> INFINITE_VAL"
    using special assms(2) by blast+
  have "now - ln_rpc_birthdate x \<le> now - lo"
    using b by (simp add: word_le_nat_alt unat_sub)
  then show ?thesis using True ne assms(3)
    by (auto simp: lnode_off_def is_offline_def rpc_age_def delay_sub_def delay_is_null_def delay_is_infinite_def not_less)
next
  case False
  then show ?thesis using lnode_off_state by (metis lnode_state_t.exhaust)
qed

lemma dist_key:
  assumes "ns_inv st" "e \<in> set (lnode_db st)"
  shows "gen_id_val (fst e) = kad_dist (ns_target_id st) (m_peerid (ln_kad_addr (snd e)))"
proof -
  have "length (m_peerid (ln_kad_addr (snd e))) = length (ns_target_id st)" "fst e = ns_distid (m_peerid (ln_kad_addr (snd e))) st"
    using ns_invD(1,4)[OF assms(1)] assms(2) by (auto simp: lnode_ok_def addr_usable_def)
  then show ?thesis by (simp add: ns_distid_def kad_dist_xor gen_id_val_xor xor.commute)
qed

lemma net_result:
  assumes "net_inv net N seeds lo now st" "now < INFINITE_VAL" "now - lo \<le> rpccli_soft_timeout (ns_profile st)"
    "list_all (\<lambda>e. ln_current_state (snd e) = LNODE_SUCCEED) (considered now st)"
  shows "locally_closest net (ns_target_id st) (ns_n_closest st) seeds (ns_result now st)"
proof -
  define L where "L = filter (\<lambda>e. \<not> lnode_off now st (snd e)) (lnode_db st)"
  define n where "n = ns_n_closest st"
  have inv: "ns_inv st" and ntrue: "e \<in> set (lnode_db st) \<Longrightarrow> lnode_true net lo now (known st) (snd e)"
    and seeds: "seeds \<subseteq> known st" for e using assms(1) by (auto simp: net_inv_def)
  have c: "considered now st = take n L" by (simp add: considered_def L_def n_def)
  have sL: "sorted_wrt (\<lambda>e f. gen_id_val (fst e) < gen_id_val (fst f)) L"
    using ns_invD(3)[OF inv] by (simp add: L_def sorted_wrt_filter)
  have db: "set L \<subseteq> set (lnode_db st)" by (auto simp: L_def)
  let ?d = "\<lambda>e :: bytes \<times> kad_nsearch_lnode_t. kad_dist (ns_target_id st) (m_peerid (ln_kad_addr (snd e)))"
  have sL': "sorted_wrt (\<lambda>e f. ?d e < ?d f) L"
  proof (rule sorted_wrt_mono_rel[OF _ sL])
    fix e f assume ef: "e \<in> set L" "f \<in> set L" "gen_id_val (fst e) < gen_id_val (fst f)"
    then have "e \<in> set (lnode_db st)" "f \<in> set (lnode_db st)" using db by blast+
    then show "?d e < ?d f" using ef(3) unfolding dist_key[OF inv \<open>e \<in> set (lnode_db st)\<close>] dist_key[OF inv \<open>f \<in> set (lnode_db st)\<close>] by blast
  qed
  have s1: "sorted_wrt (\<lambda>e f. ?d e < ?d f) (take n L)" and s2: "\<forall>e\<in>set (take n L). \<forall>f\<in>set (drop n L). ?d e < ?d f"
    using sL' sorted_wrt_append[of "\<lambda>e f. ?d e < ?d f" "take n L" "drop n L"] by simp_all
  have suc: "ln_current_state (snd e) = LNODE_SUCCEED" if "e \<in> set (take n L)" for e
    using assms(4) that unfolding c by (auto simp: list_all_iff)
  have inL: "set (take n L) \<subseteq> set (lnode_db st)" using db by (auto dest: in_set_takeD)
  have r: "ns_result now st = map (\<lambda>e. (ln_kad_addr (snd e), ln_cookie_id (snd e))) (take n L)" by (simp add: ns_result_def c)
  have rep: "\<exists>as. net (m_peerid (ln_kad_addr (snd e))) = Some (as, ln_cookie_id (snd e)) \<and> m_peerid ` set as \<subseteq> known st"
    if "e \<in> set (take n L)" for e using ntrue[of e] suc[OF that] inL that by (auto simp: lnode_true_def)
  have cover: "p \<in> m_peerid ` fst ` set (ns_result now st) \<or>
      (length (ns_result now st) = n \<and> (\<forall>a\<in>fst ` set (ns_result now st). kad_dist (ns_target_id st) (m_peerid a) < kad_dist (ns_target_id st) p))"
    if p: "p \<in> known st" "net p \<noteq> None" for p
  proof -
    obtain e where e: "e \<in> set (lnode_db st)" "p = m_peerid (ln_kad_addr (snd e))" using p(1) by (auto simp: known_def)
    have "ln_current_state (snd e) \<noteq> LNODE_FAILED" using ntrue[OF e(1)] p(2) e(2) by (auto simp: lnode_true_def)
    then have "e \<in> set L" using off_in_time[OF ntrue[OF e(1)] assms(2,3)] e(1) by (simp add: L_def)
    then have "e \<in> set (take n L) \<or> e \<in> set (drop n L)" by (metis append_take_drop_id Un_iff set_append)
    then show ?thesis
    proof
      assume "e \<in> set (take n L)"
      then show ?thesis unfolding r e(2) by (auto intro!: disjI1 image_eqI[of _ _ e] simp: image_image)
    next
      assume d: "e \<in> set (drop n L)"
      then have "n < length L" by (metis drop_all empty_iff list.set(1) not_le_imp_less)
      then show ?thesis using s2 d unfolding r e(2) by auto
    qed
  qed
  show ?thesis
    unfolding locally_closest_def n_def[symmetric]
  proof (intro conjI allI impI)
    show "sorted_wrt (\<lambda>a b. kad_dist (ns_target_id st) (m_peerid (fst a)) < kad_dist (ns_target_id st) (m_peerid (fst b))) (ns_result now st)"
      using s1 by (simp add: r sorted_wrt_map)
    show "length (ns_result now st) \<le> n" by (simp add: r)
    show "\<forall>(a, cookie)\<in>set (ns_result now st). \<exists>as. net (m_peerid a) = Some (as, cookie)" using rep unfolding r by fastforce
    fix p
    assume p: "(p \<in> seeds \<or> (\<exists>a\<in>fst ` set (ns_result now st). \<exists>as cookie. net (m_peerid a) = Some (as, cookie) \<and> p \<in> m_peerid ` set as)) \<and> net p \<noteq> None"
    have "p \<in> known st"
    proof (cases "p \<in> seeds")
      case False
      then obtain e as cookie where "e \<in> set (take n L)" "net (m_peerid (ln_kad_addr (snd e))) = Some (as, cookie)" "p \<in> m_peerid ` set as"
        using p unfolding r by auto
      then show ?thesis using rep by fastforce
    qed (use seeds in blast)
    then show "p \<in> m_peerid ` fst ` set (ns_result now st) \<or>
      (length (ns_result now st) = n \<and> (\<forall>a\<in>fst ` set (ns_result now st). kad_dist (ns_target_id st) (m_peerid a) < kad_dist (ns_target_id st) p))"
      using cover p by blast
  qed
qed

definition settled_peers :: "kad_nsearch_t \<Rightarrow> bytes set" where
  "settled_peers st = {m_peerid (ln_kad_addr (snd e)) | e. e \<in> set (lnode_db st) \<and>
     (ln_current_state (snd e) = LNODE_SUCCEED \<or> ln_current_state (snd e) = LNODE_FAILED)}"

lemma settled_peersI:
  "e \<in> set (lnode_db st) \<Longrightarrow> ln_current_state (snd e) = LNODE_SUCCEED \<or> ln_current_state (snd e) = LNODE_FAILED \<Longrightarrow>
   m_peerid (ln_kad_addr (snd e)) \<in> settled_peers st"
  unfolding settled_peers_def by blast

lemma settled_known: "settled_peers st \<subseteq> known st"
  unfolding settled_peers_def known_def by blast

lemma same_peer_same_node:
  assumes "ns_inv st" "e \<in> set (lnode_db st)" "f \<in> set (lnode_db st)"
    "m_peerid (ln_kad_addr (snd e)) = m_peerid (ln_kad_addr (snd f))"
  shows "e = f"
proof -
  have "fst e = fst f" using ns_invD(4)[OF assms(1)] assms(2-4) by (metis lnode_ok_def)
  then show ?thesis using ns_inv_distinct[OF assms(1)] assms(2,3) by (metis map_of_eq_Some_iff option.inject prod.collapse)
qed

lemma querying_not_settled:
  assumes "ns_inv st" "(k, x) \<in> set (lnode_db st)" "ln_current_state x = LNODE_QUERYING"
  shows "m_peerid (ln_kad_addr x) \<notin> settled_peers st"
  using same_peer_same_node[OF assms(1,2)] assms(3) by (fastforce simp: settled_peers_def)

lemma net_outcome_fits:
  assumes "net_inv net N seeds lo t st" "net_ok net N" "(k, x) \<in> set (lnode_db st)"
  shows "outcome_fits st (net_outcome net x)"
proof -
  have "m_peerid (ln_kad_addr x) \<in> known st" using assms(3) by (force simp: known_def)
  then have "m_peerid (ln_kad_addr x) \<in> N" using assms(1) by (auto simp: net_inv_def)
  then show ?thesis using assms(2) by (auto simp: outcome_fits_def net_outcome_def net_ok_def split: option.splits)
qed

lemma net_event:
  assumes "net_inv net N seeds lo t st" "net_ok net N" "(k, x) \<in> set (lnode_db st)" "ln_current_state x = LNODE_QUERYING" "t \<le> now"
    "event_step k x (net_outcome net x) st st1"
  shows "net_inv net N seeds lo now st1" "settled_peers st1 = insert (m_peerid (ln_kad_addr x)) (settled_peers st)"
proof -
  let ?o = "net_outcome net x" and ?x = "settled (net_outcome net x) x"
  have ev: "ns_inv st1" "known st1 = known st \<union> learned ?o" "(k, ?x) \<in> set (lnode_db st1)"
    "e \<in> set (lnode_db st) \<Longrightarrow> fst e \<noteq> k \<Longrightarrow> e \<in> set (lnode_db st1)"
    "e \<in> set (lnode_db st1) \<Longrightarrow> e = (k, ?x) \<or> (e \<in> set (lnode_db st) \<and> fst e \<noteq> k) \<or> ln_current_state (snd e) = LNODE_NULL" for e
    using assms(6) unfolding event_step_def by blast+
  have inv: "ns_inv st" and N: "known st \<subseteq> N" and s: "seeds \<subseteq> known st"
    and tr: "e \<in> set (lnode_db st) \<Longrightarrow> lnode_true net lo t (known st) (snd e)" for e using assms(1) by (auto simp: net_inv_def)
  have xN: "m_peerid (ln_kad_addr x) \<in> N" using N assms(3) by (force simp: known_def)
  then have lN: "learned ?o \<subseteq> N" using assms(2) by (auto simp: learned_def net_outcome_def net_ok_def split: option.splits)
  have xs: "ln_kad_addr ?x = ln_kad_addr x" "ln_current_state ?x = LNODE_SUCCEED \<or> ln_current_state ?x = LNODE_FAILED"
    by (auto simp: settled_def net_outcome_def split: option.splits)
  have xt: "lnode_true net lo now (known st1) ?x"
    unfolding ev(2) by (auto simp: settled_def net_outcome_def lnode_true_def learned_def split: option.splits)
  show "net_inv net N seeds lo now st1"
    unfolding net_inv_def
  proof (intro conjI ballI)
    fix e assume "e \<in> set (lnode_db st1)"
    from ev(5)[OF this] show "lnode_true net lo now (known st1) (snd e)"
      using xt lnode_true_mono[OF tr, of e "known st1" now] assms(5) by (auto simp: ev(2)) (simp add: lnode_true_def)
  qed (use ev(1,2) N s lN in auto)
  show "settled_peers st1 = insert (m_peerid (ln_kad_addr x)) (settled_peers st)"
  proof (intro set_eqI iffI)
    fix p assume "p \<in> settled_peers st1"
    then obtain e where e: "e \<in> set (lnode_db st1)" "p = m_peerid (ln_kad_addr (snd e))"
      "ln_current_state (snd e) = LNODE_SUCCEED \<or> ln_current_state (snd e) = LNODE_FAILED" by (auto simp: settled_peers_def)
    from ev(5)[OF e(1)] show "p \<in> insert (m_peerid (ln_kad_addr x)) (settled_peers st)"
    proof (elim disjE conjE)
      assume "e \<in> set (lnode_db st)"
      then show ?thesis using e(2,3) unfolding settled_peers_def by blast
    qed (use e(2,3) xs(1) in auto)
  next
    fix p assume "p \<in> insert (m_peerid (ln_kad_addr x)) (settled_peers st)"
    then show "p \<in> settled_peers st1"
    proof
      assume "p = m_peerid (ln_kad_addr x)"
      then show ?thesis using settled_peersI[OF ev(3)] xs by simp
    next
      assume "p \<in> settled_peers st"
      then obtain e where e: "e \<in> set (lnode_db st)" "p = m_peerid (ln_kad_addr (snd e))"
        "ln_current_state (snd e) = LNODE_SUCCEED \<or> ln_current_state (snd e) = LNODE_FAILED" by (auto simp: settled_peers_def)
      have "fst e \<noteq> k"
      proof
        assume "fst e = k"
        then have "e = (k, x)" using ns_inv_distinct[OF inv] assms(3) e(1) by (metis map_of_eq_Some_iff option.inject prod.collapse)
        then show False using e(3) assms(4) by simp
      qed
      then show ?thesis using settled_peersI[OF ev(4)[OF e(1)]] e(2,3) by simp
    qed
  qed
qed

lemma net_launch:
  assumes "net_inv net N seeds lo now st" "launched_db now (\<lambda>a. True) st st'" "lo \<le> now"
  shows "net_inv net N seeds lo now st'" "settled_peers st' = settled_peers st"
proof -
  note l = launched_db_props[OF assms(2)]
  have k: "known st' = known st" using l(3) .
  have tr: "lnode_true net lo now (known st) (snd e)" if "e \<in> set (lnode_db st)" for e using assms(1) that by (auto simp: net_inv_def)
  have "lnode_true net lo now (known st') (snd e')" if e': "e' \<in> set (lnode_db st')" for e'
  proof -
    obtain e where e: "e \<in> set (lnode_db st)" "launched now (\<lambda>a. True) (snd e) (snd e')" using l(7)[OF e'] by blast
    then show ?thesis using tr[OF e(1)] assms(3) unfolding k
      by (auto simp: launched_def launch_upd_def lnode_true_def split: lnode_state_t.splits)
  qed
  then show "net_inv net N seeds lo now st'" using l(1) k assms(1) by (auto simp: net_inv_def)
  have s: "ln_current_state y = c \<longleftrightarrow> ln_current_state x = c" "ln_kad_addr y = ln_kad_addr x"
    if "launched now (\<lambda>a. True) x y" "c = LNODE_SUCCEED \<or> c = LNODE_FAILED" for x y c
    using that by (auto simp: launched_def launch_upd_def)
  show "settled_peers st' = settled_peers st"
  proof (intro set_eqI iffI)
    fix p assume "p \<in> settled_peers st'"
    then obtain e' where e': "e' \<in> set (lnode_db st')" "p = m_peerid (ln_kad_addr (snd e'))"
      "ln_current_state (snd e') = LNODE_SUCCEED \<or> ln_current_state (snd e') = LNODE_FAILED" by (auto simp: settled_peers_def)
    obtain e where e: "e \<in> set (lnode_db st)" "launched now (\<lambda>a. True) (snd e) (snd e')" using l(7)[OF e'(1)] by blast
    show "p \<in> settled_peers st" using s[OF e(2)] settled_peersI[OF e(1)] e'(2,3) by auto
  next
    fix p assume "p \<in> settled_peers st"
    then obtain e where e: "e \<in> set (lnode_db st)" "p = m_peerid (ln_kad_addr (snd e))"
      "ln_current_state (snd e) = LNODE_SUCCEED \<or> ln_current_state (snd e) = LNODE_FAILED" by (auto simp: settled_peers_def)
    obtain e' where e': "e' \<in> set (lnode_db st')" "launched now (\<lambda>a. True) (snd e) (snd e')" using l(6)[OF e(1)] by blast
    show "p \<in> settled_peers st'" using s[OF e'(2)] settled_peersI[OF e'(1)] e(2,3) by auto
  qed
qed

text \<open>Whatever the order of the answers, a search that has calls running ends, and keeps its promise.\<close>

lemma net_run_ends:
  assumes "net_inv net N seeds lo t st" "net_ok net N" "ns_query_type st = FINDNODE_REQUEST"
    "\<exists>e\<in>set (lnode_db st). ln_current_state (snd e) = LNODE_QUERYING"
    "times_ok (rpccli_soft_timeout (ns_profile st)) lo (t # map fst ops)" "card N \<le> card (settled_peers st) + length ops"
  shows "\<exists>acts result. ns_net_run net ops st = Inr (acts @ [Ns_caddr_arr result], None) \<and>
    locally_closest net (ns_target_id st) (ns_n_closest st) seeds result \<and> fst ` set result \<subseteq> {a. m_peerid a \<in> N}"
  using assms
proof (induction ops arbitrary: st t)
  case Nil
  have fin: "finite N" using Nil.prems(2) by (simp add: net_ok_def)
  have inv: "ns_inv st" "known st \<subseteq> N" using Nil.prems(1) by (auto simp: net_inv_def)
  obtain k x where kx: "(k, x) \<in> set (lnode_db st)" "ln_current_state x = LNODE_QUERYING" using Nil.prems(4) by auto
  have "m_peerid (ln_kad_addr x) \<in> known st" using kx(1) by (force simp: known_def)
  then have "settled_peers st \<subset> N" using querying_not_settled[OF inv(1) kx] settled_known[of st] inv(2) by blast
  then have "card (settled_peers st) < card N" using psubset_card_mono[OF fin] by blast
  then show ?case using Nil.prems(6) by simp
next
  case (Cons op ops)
  obtain now i where op: "op = (now, i)" by (cases op)
  have fin: "finite N" using Cons.prems(2) by (simp add: net_ok_def)
  have inv: "ns_inv st" "known st \<subseteq> N" using Cons.prems(1) by (auto simp: net_inv_def)
  define running where "running = filter (\<lambda>e. ln_current_state (snd e) = LNODE_QUERYING) (lnode_db st)"
  have ne: "running \<noteq> []" using Cons.prems(4) by (auto simp: running_def filter_empty_conv)
  obtain k x where e: "running ! (i mod length running) = (k, x)" by fastforce
  then have "(k, x) \<in> set running" using ne by (metis length_greater_0_conv mod_less_divisor nth_mem)
  then have kx: "(k, x) \<in> set (lnode_db st)" "ln_current_state x = LNODE_QUERYING" by (auto simp: running_def)
  have ts: "lo \<le> t" "t \<le> now" "now < INFINITE_VAL" "now - lo \<le> rpccli_soft_timeout (ns_profile st)"
    "times_ok (rpccli_soft_timeout (ns_profile st)) lo (now # map fst ops)"
    using Cons.prems(5) by (auto simp: times_ok_def op)
  have nn: "\<not> delay_is_null now" using ts(3) by (auto simp: delay_is_null_def NONE_VAL_def INFINITE_VAL_def)
  obtain st1 where st1: "event_step k x (net_outcome net x) st st1"
    "rpc_event_cb now (\<lambda>a. True) k (net_outcome net x) st = ns_after_event now (\<lambda>a. True) st1"
  proof -
    assume thesis: "\<And>st1. event_step k x (net_outcome net x) st st1 \<Longrightarrow>
      rpc_event_cb now (\<lambda>a. True) k (net_outcome net x) st = ns_after_event now (\<lambda>a. True) st1 \<Longrightarrow> thesis"
    have "net_outcome net x \<noteq> Rpc_reply (Rpc_recdups d m)" for d m by (auto simp: net_outcome_def split: option.splits)
    then show thesis
      using rpc_event_step[OF inv(1) kx nn net_outcome_fits[OF Cons.prems(1,2) kx(1)], of "\<lambda>a. True"] thesis by blast
  qed
  note ev = net_event[OF Cons.prems(1,2) kx ts(2) st1(1)]
  have same: "same_search st st1" and inv1: "ns_inv st1" using st1(1) by (auto simp: event_step_def)
  have run: "ns_net_run net (op # ops) st = res_bind (ns_after_event now (\<lambda>a. True) st1) (\<lambda>(acts, r).
      case r of None \<Rightarrow> Inr (acts, None) | Some st \<Rightarrow> res_bind (ns_net_run net ops st) (\<lambda>(acts', r). Inr (acts @ acts', r)))"
    using ne e st1(2) unfolding op ns_net_run.simps running_def[symmetric] Let_def by simp
  show ?case
  proof (cases "list_all (\<lambda>e. ln_current_state (snd e) = LNODE_SUCCEED) (considered now st1)")
    case True
    then have "ns_after_event now (\<lambda>a. True) st1 = Inr ([Ns_caddr_arr (ns_result now st1)], None)"
      using ns_after_event_ok[OF inv1 nn, of "\<lambda>a. True"] same Cons.prems(3) by (simp add: same_search_def)
    moreover have "locally_closest net (ns_target_id st1) (ns_n_closest st1) seeds (ns_result now st1)"
      using net_result[OF ev(1) ts(3) _ True] ts(4) same by (simp add: same_search_def)
    moreover have "fst ` set (ns_result now st1) \<subseteq> {a. m_peerid a \<in> N}"
    proof -
      have "m_peerid ` fst ` set (ns_result now st1) \<subseteq> known st1"
      proof
        fix p assume "p \<in> m_peerid ` fst ` set (ns_result now st1)"
        then obtain e where "e \<in> set (considered now st1)" "p = m_peerid (ln_kad_addr (snd e))" by (auto simp: ns_result_def)
        then show "p \<in> known st1" unfolding known_def considered_def by (auto dest: in_set_takeD intro: image_eqI[of _ _ e])
      qed
      then show ?thesis using ev(1) by (auto simp: net_inv_def)
    qed
    ultimately show ?thesis using run same by (intro exI[of _ "[]"] exI[of _ "ns_result now st1"]) (simp add: same_search_def)
  next
    case False
    obtain acts st2 where st2: "ns_after_event now (\<lambda>a. True) st1 = Inr (acts, Some st2)" "launched_db now (\<lambda>a. True) st1 st2"
      "\<exists>e\<in>set (lnode_db st2). ln_current_state (snd e) = LNODE_QUERYING"
      using ns_after_event_ok[OF inv1 nn, of "\<lambda>a. True"] False by auto
    note la = net_launch[OF ev(1) st2(2) order_trans[OF ts(1,2)]]
    have same2: "same_search st st2" using same launched_db_props(2)[OF st2(2)] same_search_trans by blast
    have fs: "finite (settled_peers st)" using settled_known[of st] inv(2) fin by (meson finite_subset)
    have "card (settled_peers st2) = Suc (card (settled_peers st))"
      using la(2) ev(2) querying_not_settled[OF inv(1) kx] fs by simp
    then obtain acts' result where "ns_net_run net ops st2 = Inr (acts' @ [Ns_caddr_arr result], None)"
      "locally_closest net (ns_target_id st2) (ns_n_closest st2) seeds result" "fst ` set result \<subseteq> {a. m_peerid a \<in> N}"
      using Cons.IH[OF la(1) Cons.prems(2) _ st2(3)] same2 ts(5) Cons.prems(3,6) by (auto simp: same_search_def)
    then show ?thesis using run st2(1) same2 by (intro exI[of _ "acts @ acts'"] exI[of _ result]) (simp add: same_search_def)
  qed
qed

lemma locally_closest_first:
  assumes "locally_closest net target n seeds result" "0 < n" "finite N" "\<exists>s\<in>seeds. s \<in> N \<and> net s \<noteq> None" "net_ok net N"
    "fst ` set result \<subseteq> {a. m_peerid a \<in> N}"
    "\<forall>p\<in>N. net p \<noteq> None \<longrightarrow> (\<exists>q\<in>N. net q \<noteq> None \<and> kad_dist target q < kad_dist target p) \<longrightarrow>
       (\<exists>as cookie. net p = Some (as, cookie) \<and> (\<exists>a\<in>set as. net (m_peerid a) \<noteq> None \<and> kad_dist target (m_peerid a) < kad_dist target p))"
    "q \<in> N" "net q \<noteq> None"
  shows "result \<noteq> [] \<and> kad_dist target (m_peerid (fst (hd result))) \<le> kad_dist target q"
proof -
  obtain s where s: "s \<in> seeds" "net s \<noteq> None" using assms(4) by blast
  have ne: "result \<noteq> []" using assms(1,2) s unfolding locally_closest_def by fastforce
  obtain a cookie r where res: "result = (a, cookie) # r" using ne by (cases result) auto
  have live: "net (m_peerid a) \<noteq> None" and aN: "m_peerid a \<in> N" using assms(1,6) res by (auto simp: locally_closest_def)
  have first: "kad_dist target (m_peerid a) \<le> kad_dist target (m_peerid b)" if "b \<in> fst ` set result" for b
    using assms(1) that unfolding locally_closest_def res by auto
  have "\<not> kad_dist target q < kad_dist target (m_peerid a)"
  proof
    assume "kad_dist target q < kad_dist target (m_peerid a)"
    then obtain as c b where b: "net (m_peerid a) = Some (as, c)" "b \<in> set as" "net (m_peerid b) \<noteq> None"
      "kad_dist target (m_peerid b) < kad_dist target (m_peerid a)"
      using assms(7-9) live aN by blast
    have "a \<in> fst ` set result" by (simp add: res)
    then have "m_peerid b \<in> m_peerid ` fst ` set result \<or> kad_dist target (m_peerid a) < kad_dist target (m_peerid b)"
      using assms(1) b(1-3) unfolding locally_closest_def by blast
    then show False using b(4) first by fastforce
  qed
  then show ?thesis using ne res by simp
qed

text \<open>A search starts with calls to the seeds.\<close>

lemma search_start:
  assumes "kb_inv kb" "length target = kad_id_len" "0 < n" "0 < nb_concurrent_req profile"
    "\<forall>a\<in>(if base = [] then kb_eligible (\<lambda>a. False) kb else set base). addr_usable a \<and> m_peerid a \<in> N"
    "base \<noteq> [] \<or> kb_eligible (\<lambda>a. False) kb \<noteq> {}" "t0 < INFINITE_VAL"
  shows "\<exists>acts st kb' seeds. start_findnode profile t0 (\<lambda>a. True) target n base kb = Inr (acts, st, kb') \<and>
    (if base = [] then set seeds \<subseteq> kb_eligible (\<lambda>a. False) kb \<and> length seeds = min n (card (kb_eligible (\<lambda>a. False) kb)) else seeds = base) \<and>
    net_inv net N (m_peerid ` set seeds) t0 t0 st \<and> ns_query_type st = FINDNODE_REQUEST \<and> ns_profile st = profile \<and>
    ns_target_id st = target \<and> ns_n_closest st = n \<and> (\<exists>e\<in>set (lnode_db st). ln_current_state (snd e) = LNODE_QUERYING) \<and>
    settled_peers st = {}"
proof -
  let ?E = "kb_eligible (\<lambda>a. False)"
  obtain kb' where kb': "notify_nsearch target kb = Inr kb'" "kb_inv kb'" "bucknode_db kb' = bucknode_db kb"
    using kb_nsearch_ok[OF assms(1,2)] by blast
  have E: "?E kb' = ?E kb" by (simp add: kb_eligible_def kb'(3))
  obtain near where near: "get_nclosest_addr target n (\<lambda>a. Inr False) kb' = Inr near" "length near = min n (card (?E kb))" "set near \<subseteq> ?E kb"
    using nclosest_lookup_ok[OF kb'(2) assms(2), of n "\<lambda>a. False"] unfolding E by blast
  define seeds where "seeds = (if base = [] then near else base)"
  have fin: "finite (?E kb)" if "base = []"
  proof -
    have "?E kb = set (concat (map (kb_addrs (\<lambda>a. False) kb) [0..<length (bucklist_db kb)]))"
      unfolding kb_all_addrs[OF assms(1)] using kb_eligible_len(2)[OF assms(1)] by auto
    then show ?thesis by (metis List.finite_set)
  qed
  have us: "\<forall>a\<in>set seeds. addr_usable a" "m_peerid ` set seeds \<subseteq> N"
    using assms(5) near(3) by (auto simp: seeds_def split: if_splits)
  have ne: "seeds \<noteq> []"
  proof (cases "base = []")
    case True
    then have "0 < card (?E kb)" using assms(6) fin by (simp add: card_gt_0_iff)
    then show ?thesis using assms(3) near(2) True by (auto simp: seeds_def)
  qed (simp add: seeds_def)
  define st0 where "st0 = (kad_nsearch_ctor profile FINDNODE_REQUEST target 0)\<lparr>ns_n_closest := n\<rparr>"
  have inv0: "ns_inv st0" using assms(2,3)
    by (simp add: ns_inv_def st0_def kad_nsearch_ctor_def kad_addr_null_def kad_addr_is_null_def ipport_is_null_def ipport_null_def
        ip_is_null_def gen_id_is_null_def gen_id_ctor_def)
  have db0: "lnode_db st0 = []" by (simp add: st0_def kad_nsearch_ctor_def)
  have nn: "\<not> delay_is_null t0" using assms(7) by (auto simp: delay_is_null_def NONE_VAL_def INFINITE_VAL_def)
  obtain closer st1 where m: "merge_addr_arr t0 seeds st0 = Inr (closer, st1)" "ns_inv st1" "st1 = st0\<lparr>lnode_db := lnode_db st1\<rparr>"
    "known st1 = known st0 \<union> m_peerid ` set seeds"
    "\<forall>e\<in>set (lnode_db st1) - set (lnode_db st0). ln_current_state (snd e) = LNODE_NULL"
    using merge_addr_arr_ok[OF inv0 us(1) nn] by blast
  have fields: "ns_profile st1 = profile" "ns_target_id st1 = target" "ns_n_closest st1 = n" "ns_query_type st1 = FINDNODE_REQUEST"
    by (subst m(3), simp add: st0_def kad_nsearch_ctor_def)+
  have k1: "known st1 = m_peerid ` set seeds" using m(4) db0 by (simp add: known_def)
  have null: "ln_current_state (snd e) = LNODE_NULL" if "e \<in> set (lnode_db st1)" for e using m(5) db0 that by simp
  have inv1: "net_inv net N (m_peerid ` set seeds) t0 t0 st1"
    using m(2) k1 us(2) null by (simp add: net_inv_def lnode_true_def)
  have "lnode_db st1 \<noteq> []" using k1 ne by (auto simp: known_def)
  then obtain e where e: "e \<in> set (lnode_db st1)" "hd (lnode_db st1) = e" by (metis hd_in_set)
  have "filter (\<lambda>e. \<not> lnode_off t0 st1 (snd e)) (lnode_db st1) = lnode_db st1" using null lnode_off_state(1) by (simp add: filter_id_conv)
  then have ec: "e \<in> set (considered t0 st1)"
    using e \<open>lnode_db st1 \<noteq> []\<close> assms(3) fields(3) by (cases "lnode_db st1"; cases n) (auto simp: considered_def)
  obtain acts st2 where l: "launch_queries t0 (\<lambda>a. True) (nb_concurrent_req profile) st1 = Inr (acts, st2)" "launched_db t0 (\<lambda>a. True) st1 st2"
    using launch_queries_ok[OF m(2) nn] by blast
  have run: "\<exists>e\<in>set (lnode_db st2). ln_current_state (snd e) = LNODE_QUERYING"
    using launch_queries_running[OF m(2) nn assms(4) ec null[OF e(1)] l(1)] .
  note la = net_launch[OF inv1 l(2)]
  have "settled_peers st1 = {}" using null by (auto simp: settled_peers_def)
  then have "settled_peers st2 = {}" using la(2) by simp
  moreover have "start_findnode profile t0 (\<lambda>a. True) target n base kb = Inr (acts, st2, kb')"
    using kb'(1) near(1) m(1) l(1) fields(1)
    by (simp add: start_findnode_def post_start_def seeds_def st0_def kad_nsearch_ctor_def Let_def split: if_splits)
  moreover have "if base = [] then set seeds \<subseteq> ?E kb \<and> length seeds = min n (card (?E kb)) else seeds = base"
    using near by (simp add: seeds_def)
  ultimately show ?thesis
    using la(1) run launched_db_props(2)[OF l(2)] fields unfolding same_search_def
    by (intro exI[of _ acts] exI[of _ st2] exI[of _ kb'] exI[of _ seeds]) simp
qed

subsection \<open>Properties\<close>

text \<open>C2. A search for the nodes closest to an identifier, started from the given addresses or else from the routing table, over any network of
  peers of which some are dead, where the answers come in any order within the soft time out.  No assertion fails, the search ends after at most
  as many answers as there are peers, and its report is \<open>locally_closest\<close>: live peers by increasing distance with their cookies, such
  that every live peer that is a seed or that a reported peer names is reported, or as many as asked for are closer.  That is
  local: it is not claimed that they are the closest of all peers that a chain of names leads to.  Only under a condition on the network,
  that a seed is alive and each live peer that is not the closest names a live one that is closer, the first peer reported is the closest
  live peer of the network.\<close>
theorem search_locally_closest:
  assumes "kb_inv kb" "length target = kad_id_len" "0 < n" "0 < nb_concurrent_req profile"
    "\<forall>a\<in>(if base = [] then kb_eligible (\<lambda>a. False) kb else set base). addr_usable a \<and> m_peerid a \<in> N"
    "base \<noteq> [] \<or> kb_eligible (\<lambda>a. False) kb \<noteq> {}"
    "net_ok net N" "times_ok (rpccli_soft_timeout profile) t0 (t0 # map fst ops)" "card N \<le> length ops"
  shows "\<exists>acts st kb' seeds acts' result.
    start_findnode profile t0 (\<lambda>a. True) target n base kb = Inr (acts, st, kb') \<and>
    (if base = [] then set seeds \<subseteq> kb_eligible (\<lambda>a. False) kb \<and> length seeds = min n (card (kb_eligible (\<lambda>a. False) kb)) else seeds = base) \<and>
    ns_net_run net ops st = Inr (acts' @ [Ns_caddr_arr result], None) \<and>
    locally_closest net target n (m_peerid ` set seeds) result \<and>
    ((\<exists>a\<in>set seeds. net (m_peerid a) \<noteq> None) \<and>
     (\<forall>p\<in>N. net p \<noteq> None \<longrightarrow> (\<exists>q\<in>N. net q \<noteq> None \<and> kad_dist target q < kad_dist target p) \<longrightarrow>
       (\<exists>as cookie. net p = Some (as, cookie) \<and> (\<exists>a\<in>set as. net (m_peerid a) \<noteq> None \<and> kad_dist target (m_peerid a) < kad_dist target p)))
     \<longrightarrow> result \<noteq> [] \<and> (\<forall>q\<in>N. net q \<noteq> None \<longrightarrow> kad_dist target (m_peerid (fst (hd result))) \<le> kad_dist target q))"
proof -
  have t0: "t0 < INFINITE_VAL" using assms(8) by (simp add: times_ok_def)
  obtain acts st kb' seeds where s: "start_findnode profile t0 (\<lambda>a. True) target n base kb = Inr (acts, st, kb')"
    "if base = [] then set seeds \<subseteq> kb_eligible (\<lambda>a. False) kb \<and> length seeds = min n (card (kb_eligible (\<lambda>a. False) kb)) else seeds = base"
    "net_inv net N (m_peerid ` set seeds) t0 t0 st" "ns_query_type st = FINDNODE_REQUEST" "ns_profile st = profile"
    "ns_target_id st = target" "ns_n_closest st = n" "\<exists>e\<in>set (lnode_db st). ln_current_state (snd e) = LNODE_QUERYING" "settled_peers st = {}"
    using search_start[OF assms(1-6) t0, of net] by blast
  obtain acts' result where r: "ns_net_run net ops st = Inr (acts' @ [Ns_caddr_arr result], None)"
    "locally_closest net target n (m_peerid ` set seeds) result" "fst ` set result \<subseteq> {a. m_peerid a \<in> N}"
  proof -
    have "card N \<le> card (settled_peers st) + length ops" using assms(9) by simp
    from net_run_ends[OF s(3) assms(7) s(4,8) _ this] show thesis using that s(5-7) assms(8) by auto
  qed
  have N: "finite N" "m_peerid ` set seeds \<subseteq> N" using s(2) assms(5,7) by (auto simp: net_ok_def split: if_splits)
  have "result \<noteq> [] \<and> kad_dist target (m_peerid (fst (hd result))) \<le> kad_dist target q"
    if live: "\<exists>a\<in>set seeds. net (m_peerid a) \<noteq> None" and progress: "\<forall>p\<in>N. net p \<noteq> None \<longrightarrow>
       (\<exists>q\<in>N. net q \<noteq> None \<and> kad_dist target q < kad_dist target p) \<longrightarrow>
       (\<exists>as cookie. net p = Some (as, cookie) \<and> (\<exists>a\<in>set as. net (m_peerid a) \<noteq> None \<and> kad_dist target (m_peerid a) < kad_dist target p))"
      and q: "q \<in> N" "net q \<noteq> None" for q
  proof -
    have "\<exists>s\<in>m_peerid ` set seeds. s \<in> N \<and> net s \<noteq> None" using live N(2) by blast
    from locally_closest_first[OF r(2) assms(3) N(1) this assms(7) r(3) progress q] show ?thesis .
  qed
  note first = this
  have "result \<noteq> [] \<and> (\<forall>q\<in>N. net q \<noteq> None \<longrightarrow> kad_dist target (m_peerid (fst (hd result))) \<le> kad_dist target q)"
    if live: "\<exists>a\<in>set seeds. net (m_peerid a) \<noteq> None" and progress: "\<forall>p\<in>N. net p \<noteq> None \<longrightarrow>
       (\<exists>q\<in>N. net q \<noteq> None \<and> kad_dist target q < kad_dist target p) \<longrightarrow>
       (\<exists>as cookie. net p = Some (as, cookie) \<and> (\<exists>a\<in>set as. net (m_peerid a) \<noteq> None \<and> kad_dist target (m_peerid a) < kad_dist target p))"
    using first[OF live progress] live N(2) by blast
  with s(1,2) r(1,2) show ?thesis
    by (intro exI[of _ acts] exI[of _ st] exI[of _ kb'] exI[of _ seeds] exI[of _ acts'] exI[of _ result]) simp
qed

definition ns_ex_net :: ns_network where
  "ns_ex_net p =
     (if p = kb_ex_id 16 4 then Some ([kb_ex_addr 16 4, kb_ex_addr 0 128, kb_ex_addr 3 1], replicate 20 7)
      else if p = kb_ex_id 3 1 then Some ([kb_ex_addr 16 4], replicate 20 9) else None)"

definition ns_ex_peers :: "bytes set" where "ns_ex_peers = {kb_ex_id 16 4, kb_ex_id 3 1, kb_ex_id 0 128}"

lemma ns_ex_usable: "addr_usable (kb_ex_addr 16 4)" "addr_usable (kb_ex_addr 0 128)" "addr_usable (kb_ex_addr 3 1)"
  unfolding addr_usable_def by code_simp+

lemma ns_ex_times: "times_ok (rpccli_soft_timeout kad_nsearch_profile_ctor) (from_sec 1) (from_sec 1 # map fst (replicate 3 (from_sec 2, 5)))"
  by (simp add: times_ok_def kad_nsearch_profile_ctor_def from_sec_def from_msec_def INFINITE_VAL_def numeral_3_eq_3)

lemma ns_ex_net_ok: "net_ok ns_ex_net ns_ex_peers"
  using ns_ex_usable by (auto simp: net_ok_def ns_ex_net_def ns_ex_peers_def kb_ex_addr_def split: if_splits)

theorem search_locally_closest_witness:
  "\<exists>kb acts st kb' acts' result.
     kad_kbucket_ctor kad_kbucket_profile_ctor (kb_ex_id 19 1) \<lparr>m_ipaddr = Ip_v4 0, m_port = 80\<rparr> = Inr kb \<and>
     start_findnode kad_nsearch_profile_ctor (from_sec 1) (\<lambda>a. True) (kb_ex_id 3 1) 2 [kb_ex_addr 16 4] kb = Inr (acts, st, kb') \<and>
     ns_net_run ns_ex_net (replicate 3 (from_sec 2, 5)) st = Inr (acts' @ [Ns_caddr_arr result], None) \<and>
     locally_closest ns_ex_net (kb_ex_id 3 1) 2 {kb_ex_id 16 4} result"
proof -
  have "kb_ctor_args_ok kad_kbucket_profile_ctor (kb_ex_id 19 1) \<lparr>m_ipaddr = Ip_v4 0, m_port = 80\<rparr>" by code_simp
  then obtain kb where kb: "kad_kbucket_ctor kad_kbucket_profile_ctor (kb_ex_id 19 1) \<lparr>m_ipaddr = Ip_v4 0, m_port = 80\<rparr> = Inr kb" "kb_inv kb"
    using kb_ctor_ok by blast
  have len: "length (kb_ex_id 3 1) = kad_id_len" by code_simp
  have pos: "0 < nb_concurrent_req kad_nsearch_profile_ctor" by (simp add: kad_nsearch_profile_ctor_def)
  have base: "\<forall>a\<in>(if [kb_ex_addr 16 4] = [] then kb_eligible (\<lambda>a. False) kb else set [kb_ex_addr 16 4]).
      addr_usable a \<and> m_peerid a \<in> ns_ex_peers"
    using ns_ex_usable by (simp add: ns_ex_peers_def kb_ex_addr_def)
  have card: "card ns_ex_peers \<le> length (replicate 3 (from_sec 2, 5 :: nat))"
    by (simp add: ns_ex_peers_def card_insert_if)
  have id: "m_peerid ` set [kb_ex_addr 16 4] = {kb_ex_id 16 4}" by (simp add: kb_ex_addr_def)
  from search_locally_closest[OF kb(2) len _ pos base _ ns_ex_net_ok ns_ex_times card, of 2] kb(1) id
  show ?thesis by (simp, metis)
qed

end
