(* ===== verification/BtFile.thy ===== *)
theory BtFile
  imports Interval GenId Bitfield
begin

text \<open>
  The bytes of a torrent: ranges of a file (\<open>neoip_file/base/size\<close>, \<open>neoip_file/base/range\<close>), the files of a torrent laid end to
  end and cut into pieces (\<open>neoip_bt_core/base/mfile\<close>, \<open>base/unit\<close>), ranges inside a piece (\<open>base/prange\<close>) and inside a file
  (\<open>base/iov\<close>).  The total file is the concatenation of all files; \<open>totfile\<close> offsets count in it.

  \<open>file_size_t\<close> is a 64 bit word, \<open>size_t\<close> too where it is a length.  Of a path only matters whether it is null, which is the empty
  string here.
\<close>

subsection \<open>Sizes and ranges\<close>

type_synonym file_size_t = "64 word"

definition file_size_MAX :: file_size_t where "file_size_MAX = 0xFFFFFFFFFFFFFFE"
definition file_size_NONE :: file_size_t where "file_size_NONE = 0xFFFFFFFFFFFFFFF"

definition file_size_is_null :: "file_size_t \<Rightarrow> bool" where
  "file_size_is_null s = (s = file_size_NONE)"

record file_range_t =
  fr_beg :: file_size_t
  fr_end :: file_size_t

definition file_range_null :: file_range_t where
  "file_range_null = \<lparr>fr_beg = file_size_NONE, fr_end = file_size_NONE\<rparr>"

definition fr_is_null :: "file_range_t \<Rightarrow> bool" where
  "fr_is_null r = (file_size_is_null (fr_beg r) \<or> file_size_is_null (fr_end r))"

definition fr_is_sane :: "file_range_t \<Rightarrow> bool" where
  "fr_is_sane r =
     (if fr_is_null r then True
      else if file_size_is_null (fr_beg r) \<or> file_size_is_null (fr_end r) then False
      else if fr_beg r = file_size_MAX then False
      else if fr_beg r > fr_end r then False
      else True)"

definition file_range_ctor :: "file_size_t \<Rightarrow> file_size_t \<Rightarrow> file_range_t res" where
  "file_range_ctor b e = (let r = \<lparr>fr_beg = b, fr_end = e\<rparr> in dbg_assert (fr_is_sane r) (Inr r))"

definition fr_set_beg :: "file_size_t \<Rightarrow> file_range_t \<Rightarrow> file_range_t res" where
  "fr_set_beg v r = (let r = r\<lparr>fr_beg := v\<rparr> in dbg_assert (fr_is_sane r) (Inr r))"

definition fr_set_end :: "file_size_t \<Rightarrow> file_range_t \<Rightarrow> file_range_t res" where
  "fr_set_end v r = (let r = r\<lparr>fr_end := v\<rparr> in dbg_assert (fr_is_sane r) (Inr r))"

definition from_offlen :: "file_size_t \<Rightarrow> file_size_t \<Rightarrow> file_range_t res" where
  "from_offlen off len = dbg_assert (len > 0) (file_range_ctor off (off + len - 1))"

definition fr_len :: "file_range_t \<Rightarrow> file_size_t" where
  "fr_len r = fr_end r - fr_beg r + 1"

definition fr_is_distinct :: "file_range_t \<Rightarrow> file_range_t \<Rightarrow> bool res" where
  "fr_is_distinct r other =
     dbg_assert (\<not> fr_is_null r \<and> \<not> fr_is_null other)
       (if fr_beg r > fr_end other then Inr True else if fr_end r < fr_beg other then Inr True else Inr False)"

definition fr_fully_include :: "file_range_t \<Rightarrow> file_range_t \<Rightarrow> bool res" where
  "fr_fully_include r other =
     dbg_assert (\<not> fr_is_null r \<and> \<not> fr_is_null other)
       (if fr_beg r > fr_beg other then Inr False else if fr_end r < fr_end other then Inr False else Inr True)"

definition fr_is_contiguous :: "file_range_t \<Rightarrow> file_range_t \<Rightarrow> bool res" where
  "fr_is_contiguous r other =
     dbg_assert (\<not> fr_is_null r \<and> \<not> fr_is_null other)
       (if fr_beg r = fr_end other + 1 then Inr True else if fr_end r + 1 = fr_beg other then Inr True else Inr False)"

definition fr_clamped_by :: "file_range_t \<Rightarrow> file_range_t \<Rightarrow> file_range_t res" where
  "fr_clamped_by other r =
     dbg_assert (\<not> fr_is_null r \<and> \<not> fr_is_null other)
      (res_if (fr_is_distinct r other) (Inr file_range_null)
        (res_bind (if fr_beg r < fr_beg other then fr_set_beg (fr_beg other) r else Inr r) (\<lambda>r.
         res_bind (if fr_end r > fr_end other then fr_set_end (fr_end other) r else Inr r) (\<lambda>r.
           dbg_assert (fr_is_sane r) (Inr r)))))"

definition fr_compare :: "file_range_t \<Rightarrow> file_range_t \<Rightarrow> int" where
  "fr_compare r other =
     (if fr_is_null r \<and> \<not> fr_is_null other then -1
      else if \<not> fr_is_null r \<and> fr_is_null other then 1
      else if fr_is_null r \<and> fr_is_null other then 0
      else if fr_beg r < fr_beg other then -1
      else if fr_beg r > fr_beg other then 1
      else if fr_end r < fr_end other then -1
      else if fr_end r > fr_end other then 1
      else 0)"

definition from_inval_item :: "interval_item_t \<Rightarrow> file_range_t res" where
  "from_inval_item i = file_range_ctor (min_val i) (max_val i)"

definition to_inval_item :: "file_range_t \<Rightarrow> interval_item_t res" where
  "to_inval_item r = item_ctor (fr_beg r) (fr_end r)"

subsection \<open>Ranges inside of a file\<close>

record bt_iov_t =
  iov_subfile_idx :: nat
  iov_subfile_range :: file_range_t

definition iov_compare :: "bt_iov_t \<Rightarrow> bt_iov_t \<Rightarrow> int" where
  "iov_compare a b =
     (let na = fr_is_null (iov_subfile_range a); nb = fr_is_null (iov_subfile_range b) in
      if na \<and> \<not> nb then -1 else if \<not> na \<and> nb then 1 else if na \<and> nb then 0
      else if iov_subfile_idx a < iov_subfile_idx b then -1
      else if iov_subfile_idx a > iov_subfile_idx b then 1
      else if fr_compare (iov_subfile_range a) (iov_subfile_range b) < 0 then -1
      else if fr_compare (iov_subfile_range a) (iov_subfile_range b) > 0 then 1
      else 0)"

definition iov_is_distinct :: "bt_iov_t \<Rightarrow> bt_iov_t \<Rightarrow> bool res" where
  "iov_is_distinct a b =
     (if iov_subfile_idx a \<noteq> iov_subfile_idx b then Inr True
      else fr_is_distinct (iov_subfile_range a) (iov_subfile_range b))"

definition iov_is_contiguous :: "bt_iov_t \<Rightarrow> bt_iov_t \<Rightarrow> bool res" where
  "iov_is_contiguous a b =
     res_bind (iov_is_distinct a b) (\<lambda>d. dbg_assert d
       (if iov_subfile_idx a \<noteq> iov_subfile_idx b then Inr False
        else fr_is_contiguous (iov_subfile_range a) (iov_subfile_range b)))"

text \<open>\<open>std::sort\<close> with the order of the items, and the loop of \<open>reduce\<close> from the current item on.\<close>

fun iov_insert :: "bt_iov_t \<Rightarrow> bt_iov_t list \<Rightarrow> bt_iov_t list" where
  "iov_insert x [] = [x]"
| "iov_insert x (y # ys) = (if iov_compare y x < 0 then y # iov_insert x ys else x # y # ys)"

definition iov_sort :: "bt_iov_t list \<Rightarrow> bt_iov_t list" where
  "iov_sort xs = foldr iov_insert xs []"

function iov_reduce :: "bt_iov_t list \<Rightarrow> bt_iov_t list res" where
  "iov_reduce [] = Inr []"
| "iov_reduce [cur] = Inr [cur]"
| "iov_reduce (cur # nxt # rest) =
     (case iov_is_contiguous cur nxt of
        Inl e \<Rightarrow> Inl e
      | Inr False \<Rightarrow> res_bind (iov_reduce (nxt # rest)) (\<lambda>r. Inr (cur # r))
      | Inr True \<Rightarrow>
          (case file_range_ctor (fr_beg (iov_subfile_range cur)) (fr_end (iov_subfile_range nxt)) of
             Inl e \<Rightarrow> Inl e
           | Inr r \<Rightarrow> iov_reduce (\<lparr>iov_subfile_idx = iov_subfile_idx cur, iov_subfile_range = r\<rparr> # rest)))"
  by pat_completeness auto
termination by (relation "measure length") auto

fun iov_arr_compare_loop :: "bt_iov_t list \<Rightarrow> bt_iov_t list \<Rightarrow> int" where
  "iov_arr_compare_loop (x # xs) (y # ys) =
     (if iov_compare x y > 0 then 1 else if iov_compare x y < 0 then -1 else iov_arr_compare_loop xs ys)"
| "iov_arr_compare_loop _ _ = 0"

definition iov_arr_compare :: "bt_iov_t list \<Rightarrow> bt_iov_t list \<Rightarrow> int" where
  "iov_arr_compare xs ys =
     (if length xs > length ys then 1 else if length xs < length ys then -1 else iov_arr_compare_loop xs ys)"

subsection \<open>The files of a torrent\<close>

record bt_mfile_subfile_t =
  sf_mfile_path :: string
  sf_len :: file_size_t
  sf_totfile_range_precpu :: file_range_t

definition sf_totfile_range :: "bt_mfile_subfile_t \<Rightarrow> file_range_t res" where
  "sf_totfile_range f = dbg_assert (\<not> fr_is_null (sf_totfile_range_precpu f)) (Inr (sf_totfile_range_precpu f))"

definition sf_is_null :: "bt_mfile_subfile_t \<Rightarrow> bool" where
  "sf_is_null f = (if file_size_is_null (sf_len f) then True else if sf_mfile_path f = [] then True else False)"

definition sf_is_fully_init :: "bt_mfile_subfile_t \<Rightarrow> bool res" where
  "sf_is_fully_init f =
     (if sf_is_null f then Inr False
      else if sf_len f > 0
      then res_bind (sf_totfile_range f) (\<lambda>r. if fr_is_null r then Inr False else Inr True)
      else Inr True)"

record bt_mfile_t =
  mf_infohash :: bytes
  mf_piecelen :: "64 word"
  mf_subfile_arr :: "bt_mfile_subfile_t list"
  mf_piecehash_arr :: "bytes list"
  mf_do_piecehash :: bool
  totfile_size_precpu :: file_size_t
  nb_piece_precpu :: "64 word"
  subfile_db :: "(file_size_t \<times> nat) list"

definition totfile_size :: "bt_mfile_t \<Rightarrow> file_size_t res" where
  "totfile_size mf = dbg_assert (\<not> file_size_is_null (totfile_size_precpu mf)) (Inr (totfile_size_precpu mf))"

definition mf_nb_piece :: "bt_mfile_t \<Rightarrow> 64 word res" where
  "mf_nb_piece mf = dbg_assert (nb_piece_precpu mf \<noteq> - 1) (Inr (nb_piece_precpu mf))"

definition mf_is_null :: "bt_mfile_t \<Rightarrow> bool" where
  "mf_is_null mf =
     (if mf_piecelen mf = 0 then True
      else if gen_id_is_null (mf_infohash mf) then True
      else if length (mf_subfile_arr mf) = 0 then True
      else list_ex sf_is_null (mf_subfile_arr mf))"

fun sf_all_fully_init :: "bt_mfile_subfile_t list \<Rightarrow> bool res" where
  "sf_all_fully_init [] = Inr True"
| "sf_all_fully_init (f # fs) = res_if (sf_is_fully_init f) (sf_all_fully_init fs) (Inr False)"

definition mf_is_fully_init :: "bt_mfile_t \<Rightarrow> bool res" where
  "mf_is_fully_init mf =
     (if mf_is_null mf then Inr False
      else if gen_id_is_null (mf_infohash mf) then Inr False
      else if file_size_is_null (totfile_size_precpu mf) then Inr False
      else if nb_piece_precpu mf = - 1 then Inr False
      else res_if (sf_all_fully_init (mf_subfile_arr mf))
             (if mf_do_piecehash mf
              then res_bind (mf_nb_piece mf) (\<lambda>n. if length (mf_piecehash_arr mf) \<noteq> unat n then Inr False else Inr True)
              else Inr True)
             (Inr False))"

definition file_ceil_div :: "file_size_t \<Rightarrow> file_size_t \<Rightarrow> file_size_t" where
  "file_ceil_div num d = (num + (d - 1)) div d"

text \<open>The loop of \<open>complete_init\<close> that gives the files their places; \<open>info_hash\<close> stands for the hash of the encoded torrent.\<close>

fun place_subfiles ::
  "nat \<Rightarrow> file_size_t \<Rightarrow> bt_mfile_subfile_t list \<Rightarrow> bt_mfile_subfile_t list \<Rightarrow> (file_size_t \<times> nat) list \<Rightarrow>
     (bt_mfile_subfile_t list \<times> (file_size_t \<times> nat) list) res" where
  "place_subfiles idx cur [] out db = Inr (out, db)"
| "place_subfiles idx cur (f # fs) out db =
     (if sf_len f = 0 then place_subfiles (Suc idx) cur fs (out @ [f]) db
      else res_bind (from_offlen cur (sf_len f)) (\<lambda>r.
        dbg_assert (map_of db cur = None)
          (place_subfiles (Suc idx) (cur + sf_len f) fs (out @ [f\<lparr>sf_totfile_range_precpu := r\<rparr>]) (stdmap_insert cur idx db))))"

definition complete_init :: "(bt_mfile_t \<Rightarrow> bytes) \<Rightarrow> bt_mfile_t \<Rightarrow> bt_mfile_t res" where
  "complete_init info_hash mf =
     dbg_assert (\<not> mf_is_null mf)
      (let mf = mf\<lparr>totfile_size_precpu := fold (\<lambda>f s. s + sf_len f) (mf_subfile_arr mf) 0\<rparr> in
       res_bind (totfile_size mf) (\<lambda>size.
       let mf = mf\<lparr>nb_piece_precpu := file_ceil_div size (mf_piecelen mf)\<rparr>;
           mf = (if gen_id_is_null (mf_infohash mf) then mf\<lparr>mf_infohash := info_hash mf\<rparr> else mf) in
       res_bind (place_subfiles 0 0 (mf_subfile_arr mf) [] []) (\<lambda>(fs, db).
       let mf = mf\<lparr>mf_subfile_arr := fs, subfile_db := db\<rparr> in
       res_bind (mf_is_fully_init mf) (\<lambda>ok. dbg_assert ok (Inr mf)))))"

text \<open>\<open>get_iov_arr\<close>: the start of the walk, one element before the lower bound if there is one, and the walk.\<close>

fun iov_start :: "file_size_t \<Rightarrow> (file_size_t \<times> nat) list \<Rightarrow> (file_size_t \<times> nat) list" where
  "iov_start beg [] = []"
| "iov_start beg [e] = [e]"
| "iov_start beg (e # e' # es) = (if fst e' < beg then iov_start beg (e' # es) else e # e' # es)"

fun iov_loop :: "bt_mfile_t \<Rightarrow> file_range_t \<Rightarrow> (file_size_t \<times> nat) list \<Rightarrow> bt_iov_t list \<Rightarrow> bt_iov_t list res" where
  "iov_loop mf wanted [] iovs = Inr iovs"
| "iov_loop mf wanted (e # es) iovs =
     (if snd e \<ge> length (mf_subfile_arr mf) then Inl Out_of_bounds
      else res_bind (sf_totfile_range (mf_subfile_arr mf ! snd e)) (\<lambda>sub.
       if fr_beg sub > fr_end wanted then Inr iovs
       else if fr_end sub < fr_beg wanted then iov_loop mf wanted es iovs
       else res_bind (fr_clamped_by wanted sub) (\<lambda>r.
         dbg_assert (\<not> fr_is_null r) (dbg_assert (fr_beg r \<ge> fr_beg sub) (dbg_assert (fr_end r \<ge> fr_beg sub)
          (res_bind (fr_set_beg (fr_beg r - fr_beg sub) r) (\<lambda>r.
           res_bind (fr_set_end (fr_end r - fr_beg sub) r) (\<lambda>r.
             iov_loop mf wanted es (iovs @ [\<lparr>iov_subfile_idx = snd e, iov_subfile_range = r\<rparr>])))))))))"

definition get_iov_arr :: "file_range_t \<Rightarrow> bt_mfile_t \<Rightarrow> bt_iov_t list res" where
  "get_iov_arr wanted mf =
     res_bind (mf_is_fully_init mf) (\<lambda>ok. dbg_assert ok
      (if subfile_db mf = [] then Inr []
       else res_bind (iov_loop mf wanted (iov_start (fr_beg wanted) (subfile_db mf)) []) (\<lambda>iovs.
         dbg_assert (iov_arr_compare (iov_sort iovs) iovs = 0)
          (res_bind (iov_reduce iovs) (\<lambda>red. dbg_assert (iov_arr_compare red iovs = 0) (Inr iovs))))))"

subsection \<open>Pieces\<close>

definition totfile_to_pieceidx :: "file_size_t \<Rightarrow> bt_mfile_t \<Rightarrow> nat" where
  "totfile_to_pieceidx off mf = unat (off div mf_piecelen mf)"

definition totfile_to_pieceoff :: "file_size_t \<Rightarrow> bt_mfile_t \<Rightarrow> nat" where
  "totfile_to_pieceoff off mf = unat (off mod mf_piecelen mf)"

definition pieceidx_to_piecelen :: "nat \<Rightarrow> bt_mfile_t \<Rightarrow> nat res" where
  "pieceidx_to_piecelen idx mf =
     res_bind (mf_nb_piece mf) (\<lambda>n. dbg_assert (idx < unat n) (dbg_assert (n > 0)
      (res_bind (totfile_size mf) (\<lambda>size.
        if idx = unat n - 1 \<and> size mod mf_piecelen mf \<noteq> 0 then Inr (unat (size mod mf_piecelen mf))
        else Inr (unat (mf_piecelen mf))))))"

definition pieceidx_to_piecebeg :: "nat \<Rightarrow> bt_mfile_t \<Rightarrow> file_size_t res" where
  "pieceidx_to_piecebeg idx mf =
     res_bind (mf_nb_piece mf) (\<lambda>n. dbg_assert (idx < unat n) (dbg_assert (n > 0) (Inr (mf_piecelen mf * word_of_nat idx))))"

definition pieceidx_to_pieceend :: "nat \<Rightarrow> bt_mfile_t \<Rightarrow> file_size_t res" where
  "pieceidx_to_pieceend idx mf =
     res_bind (mf_nb_piece mf) (\<lambda>n. dbg_assert (idx < unat n) (dbg_assert (n > 0)
      (if idx = unat n - 1 then res_bind (totfile_size mf) (\<lambda>size. Inr (size - 1))
       else Inr (mf_piecelen mf * word_of_nat (idx + 1) - 1))))"

definition pieceidx_to_totfile_range :: "nat \<Rightarrow> bt_mfile_t \<Rightarrow> file_range_t res" where
  "pieceidx_to_totfile_range idx mf =
     res_bind (pieceidx_to_piecebeg idx mf) (\<lambda>b. res_bind (fr_set_beg b file_range_null) (\<lambda>r.
     res_bind (pieceidx_to_pieceend idx mf) (\<lambda>e. fr_set_end e r)))"

record bt_prange_t =
  pr_piece_idx :: nat
  pr_offset :: nat
  pr_length :: nat

definition pr_totfile_beg :: "bt_mfile_t \<Rightarrow> bt_prange_t \<Rightarrow> file_size_t res" where
  "pr_totfile_beg mf p =
     dbg_assert (pr_length p > 0) (Inr (word_of_nat (pr_piece_idx p) * mf_piecelen mf + word_of_nat (pr_offset p)))"

definition pr_to_totfile_range :: "bt_mfile_t \<Rightarrow> bt_prange_t \<Rightarrow> file_range_t res" where
  "pr_to_totfile_range mf p =
     res_bind (fr_set_beg (word_of_nat (pr_piece_idx p) * mf_piecelen mf + word_of_nat (pr_offset p)) file_range_null) (\<lambda>r.
       fr_set_end (fr_beg r + word_of_nat (pr_length p) - 1) r)"

definition pr_from_totfile_range :: "bt_mfile_t \<Rightarrow> file_range_t \<Rightarrow> bt_prange_t res" where
  "pr_from_totfile_range mf r =
     (let piece_len = mf_piecelen mf in
      dbg_assert (fr_beg r div piece_len = fr_end r div piece_len)
        (Inr \<lparr>pr_piece_idx = unat (fr_beg r div piece_len), pr_offset = unat (fr_beg r mod piece_len),
              pr_length = unat (fr_len r)\<rparr>))"

text \<open>The loop of \<open>totfile_range_to_prange_arr\<close> has no bound in the code; the fuel is the number of pieces, of which each round
  leaves one behind.\<close>

fun prange_loop :: "nat \<Rightarrow> bt_mfile_t \<Rightarrow> file_range_t \<Rightarrow> bt_prange_t list \<Rightarrow> bt_prange_t list res" where
  "prange_loop 0 mf wanted out = Inl Diverges"
| "prange_loop (Suc fuel) mf wanted out =
     (let piece_idx = totfile_to_pieceidx (fr_beg wanted) mf in
      res_bind (pieceidx_to_totfile_range piece_idx mf) (\<lambda>piece_range.
      res_bind (fr_clamped_by wanted piece_range) (\<lambda>piece_range.
      res_bind (pr_from_totfile_range mf piece_range) (\<lambda>p.
        if fr_end piece_range = fr_end wanted then Inr (out @ [p])
        else res_bind (fr_set_beg (fr_end piece_range + 1) wanted) (\<lambda>wanted. prange_loop fuel mf wanted (out @ [p]))))))"

definition totfile_range_to_prange_arr :: "file_range_t \<Rightarrow> bt_mfile_t \<Rightarrow> bt_prange_t list res" where
  "totfile_range_to_prange_arr wanted mf =
     res_bind (totfile_size mf) (\<lambda>size. dbg_assert (fr_end wanted < size)
       (res_bind (mf_nb_piece mf) (\<lambda>n. prange_loop (unat n) mf wanted [])))"

text \<open>\<open>totfile_avail\<close>: the length of the data in the pieces of a bit field.\<close>

definition totfile_avail :: "bool list \<Rightarrow> bt_mfile_t \<Rightarrow> file_size_t res" where
  "totfile_avail pieceavail mf =
     res_bind (mf_is_fully_init mf) (\<lambda>ok. dbg_assert ok
      (res_bind (mf_nb_piece mf) (\<lambda>n. dbg_assert (length pieceavail = unat n) (dbg_assert (length pieceavail \<noteq> 0)
        (let nb_piece = length pieceavail;
             avl_size = for_range (nb_piece - 1) (\<lambda>i s. if \<not> pieceavail ! i then s else s + mf_piecelen mf) 0 in
         if pieceavail ! (nb_piece - 1)
         then res_bind (totfile_size mf) (\<lambda>size. Inr (avl_size + (size - word_of_nat (nb_piece - 1) * mf_piecelen mf)))
         else Inr avl_size)))))"

subsection \<open>Offsets as natural numbers\<close>

text \<open>Total files stay below the largest value of \<open>file_size_t\<close>, where words and numbers agree.\<close>

abbreviation offset_bound :: nat where "offset_bound \<equiv> unat file_size_MAX"

lemma offset_bound_val: "offset_bound = 2 ^ 60 - 2"
  by (simp add: file_size_MAX_def)

lemma unat_file_off: "n < offset_bound \<Longrightarrow> unat (word_of_nat n :: file_size_t) = n"
  by (rule unat_of_nat_64) (simp add: offset_bound_val)

lemma unat_add_64: "unat a + unat b < 2 ^ 64 \<Longrightarrow> unat ((a :: 64 word) + b) = unat a + unat b"
  by (simp add: unat_word_ariths)

lemma off_not_null: "unat x < offset_bound \<Longrightarrow> \<not> file_size_is_null x \<and> x \<noteq> file_size_MAX"
  by (auto simp: file_size_is_null_def file_size_NONE_def offset_bound_val)

definition fr_ok :: "nat \<Rightarrow> nat \<Rightarrow> file_range_t \<Rightarrow> bool" where
  "fr_ok b e r = (unat (fr_beg r) = b \<and> unat (fr_end r) = e \<and> b \<le> e \<and> e < offset_bound)"

abbreviation mk_range :: "nat \<Rightarrow> nat \<Rightarrow> file_range_t" where
  "mk_range b e \<equiv> \<lparr>fr_beg = word_of_nat b, fr_end = word_of_nat e\<rparr>"

lemma fr_ok_mk: "b \<le> e \<Longrightarrow> e < offset_bound \<Longrightarrow> fr_ok b e (mk_range b e)"
  by (simp add: fr_ok_def unat_file_off)

lemma fr_ok_eq: "fr_ok b e r \<Longrightarrow> r = mk_range b e"
  by (cases r) (auto simp: fr_ok_def)

lemma fr_okD:
  assumes "fr_ok b e r"
  shows "\<not> fr_is_null r" "fr_is_sane r" "unat (fr_beg r) = b" "unat (fr_end r) = e" "b \<le> e" "e < offset_bound"
  using assms off_not_null[of "fr_beg r"] off_not_null[of "fr_end r"]
  by (auto simp: fr_ok_def fr_is_null_def fr_is_sane_def word_unat)

lemma fr_len_ok: "fr_ok b e r \<Longrightarrow> unat (fr_len r) = e - b + 1"
proof -
  assume r: "fr_ok b e r"
  have "fr_len r = word_of_nat (e - b + 1)"
    using fr_okD[OF r] unfolding fr_ok_eq[OF r] fr_len_def by (simp add: of_nat_diff)
  moreover have "e - b + 1 < 2 ^ 64" using fr_okD(6)[OF r] by (simp add: offset_bound_val)
  ultimately show ?thesis using unat_of_nat_64 by metis
qed

lemma fr_distinct_ok: "fr_ok b e r \<Longrightarrow> fr_ok b' e' r' \<Longrightarrow> fr_is_distinct r r' = Inr (e < b' \<or> e' < b)"
  using fr_okD[of b e r] fr_okD[of b' e' r'] by (auto simp: fr_is_distinct_def word_unat)

lemma fr_set_ok:
  "fr_ok b e r \<Longrightarrow> unat v \<le> e \<Longrightarrow> fr_set_beg v r = Inr (r\<lparr>fr_beg := v\<rparr>) \<and> fr_ok (unat v) e (r\<lparr>fr_beg := v\<rparr>)"
  "fr_ok b e r \<Longrightarrow> b \<le> unat w \<Longrightarrow> unat w < offset_bound \<Longrightarrow>
     fr_set_end w r = Inr (r\<lparr>fr_end := w\<rparr>) \<and> fr_ok b (unat w) (r\<lparr>fr_end := w\<rparr>)"
proof -
  assume r: "fr_ok b e r" "unat v \<le> e"
  then have "fr_ok (unat v) e (r\<lparr>fr_beg := v\<rparr>)" by (simp add: fr_ok_def)
  with fr_okD(2)[OF this] show "fr_set_beg v r = Inr (r\<lparr>fr_beg := v\<rparr>) \<and> fr_ok (unat v) e (r\<lparr>fr_beg := v\<rparr>)"
    by (simp add: fr_set_beg_def)
next
  assume r: "fr_ok b e r" "b \<le> unat w" "unat w < offset_bound"
  then have "fr_ok b (unat w) (r\<lparr>fr_end := w\<rparr>)" by (simp add: fr_ok_def)
  with fr_okD(2)[OF this] show "fr_set_end w r = Inr (r\<lparr>fr_end := w\<rparr>) \<and> fr_ok b (unat w) (r\<lparr>fr_end := w\<rparr>)"
    by (simp add: fr_set_end_def)
qed

lemma fr_ctor_ok: "fr_ok b e \<lparr>fr_beg = x, fr_end = y\<rparr> \<Longrightarrow> file_range_ctor x y = Inr \<lparr>fr_beg = x, fr_end = y\<rparr>"
  using fr_okD(2) by (simp add: file_range_ctor_def)

lemma fr_clamped_ok:
  assumes "fr_ok b e r" "fr_ok b' e' w" "b \<le> e'" "b' \<le> e"
  shows "\<exists>c. fr_clamped_by w r = Inr c \<and> fr_ok (max b b') (min e e') c"
proof -
  have "(if fr_beg r < fr_beg w then fr_set_beg (fr_beg w) r else Inr r) =
      Inr (if fr_beg r < fr_beg w then r\<lparr>fr_beg := fr_beg w\<rparr> else r)"
    "fr_ok (max b b') e (if fr_beg r < fr_beg w then r\<lparr>fr_beg := fr_beg w\<rparr> else r)"
    using fr_set_ok(1)[OF assms(1), of "fr_beg w"] fr_okD[OF assms(1)] fr_okD[OF assms(2)] assms
    by (auto simp: word_unat max_def)
  then obtain r1 where 1: "(if fr_beg r < fr_beg w then fr_set_beg (fr_beg w) r else Inr r) = Inr r1" "fr_ok (max b b') e r1"
    by blast
  have "max b b' \<le> unat (fr_end w)" "unat (fr_end w) < offset_bound" "unat (fr_end w) = e'"
    using fr_okD[OF assms(2)] assms by auto
  then have "fr_set_end (fr_end w) r1 = Inr (r1\<lparr>fr_end := fr_end w\<rparr>)" "fr_ok (max b b') e' (r1\<lparr>fr_end := fr_end w\<rparr>)"
    using fr_set_ok(2)[OF 1(2), of "fr_end w"] by auto
  moreover have "fr_end r1 > fr_end w \<longleftrightarrow> e' < e" using fr_okD[OF 1(2)] fr_okD[OF assms(2)] by (simp add: word_unat)
  ultimately obtain r2 where 2: "(if fr_end r1 > fr_end w then fr_set_end (fr_end w) r1 else Inr r1) = Inr r2"
    "fr_ok (max b b') (min e e') r2"
    using 1(2) by (cases "e' < e") auto
  have "fr_is_distinct r w = Inr False" using fr_distinct_ok[OF assms(1,2)] assms by simp
  then have "fr_clamped_by w r = Inr r2"
    using fr_okD[OF assms(1)] fr_okD[OF assms(2)] fr_okD(2)[OF 2(2)] 1(1) 2(1) by (simp add: fr_clamped_by_def)
  with 2(2) show ?thesis by blast
qed

subsection \<open>The layout of the files\<close>

definition sf_lens :: "bt_mfile_subfile_t list \<Rightarrow> nat list" where
  "sf_lens fs = map (\<lambda>f. unat (sf_len f)) fs"

fun placed :: "nat \<Rightarrow> bt_mfile_subfile_t list \<Rightarrow> bt_mfile_subfile_t list" where
  "placed c [] = []"
| "placed c (f # fs) =
     (let l = unat (sf_len f) in
      (if l = 0 then f else f\<lparr>sf_totfile_range_precpu := mk_range c (c + l - 1)\<rparr>) # placed (c + l) fs)"

fun place_db :: "nat \<Rightarrow> nat \<Rightarrow> bt_mfile_subfile_t list \<Rightarrow> (file_size_t \<times> nat) list" where
  "place_db i c [] = []"
| "place_db i c (f # fs) =
     (let l = unat (sf_len f) in
      (if l = 0 then [] else [(word_of_nat c, i)]) @ place_db (Suc i) (c + l) fs)"

lemma length_placed [simp]: "length (placed c fs) = length fs"
  by (induction fs arbitrary: c) (simp_all add: Let_def)

lemma sf_lens_placed [simp]: "sf_lens (placed c fs) = sf_lens fs"
  by (induction fs arbitrary: c) (simp_all add: Let_def sf_lens_def)

lemma place_db_placed: "place_db i c (placed c' fs) = place_db i c fs"
  by (induction fs arbitrary: i c c') (simp_all add: Let_def)

lemma stdmap_insert_last: "\<forall>p\<in>set db. fst p < k \<Longrightarrow> stdmap_insert k v db = db @ [(k, v)]"
  by (induction k v db rule: stdmap_insert.induct) auto

lemma from_offlen_ok:
  assumes "0 < l" "c + l \<le> offset_bound" "unat len = l"
  shows "from_offlen (word_of_nat c) len = Inr (mk_range c (c + l - 1)) \<and> fr_ok c (c + l - 1) (mk_range c (c + l - 1))"
proof -
  have 1: "fr_ok c (c + l - 1) (mk_range c (c + l - 1))" using assms by (intro fr_ok_mk) auto
  have "word_of_nat c + len - 1 = (word_of_nat (c + l - 1) :: file_size_t)"
    using assms(1) unfolding assms(3)[symmetric] by (simp add: of_nat_diff)
  moreover have "len > 0" using assms by (metis word_gt_0 unat_0 less_irrefl)
  ultimately show ?thesis using fr_ctor_ok[OF 1] 1 by (simp add: from_offlen_def)
qed

lemma place_subfiles_ok:
  assumes "c + sum_list (sf_lens fs) \<le> offset_bound" "\<forall>p\<in>set db. unat (fst p) < c" "c = unat cur"
  shows "place_subfiles i cur fs out db = Inr (out @ placed c fs, db @ place_db i c fs)"
  using assms
proof (induction fs arbitrary: i c cur out db)
  case (Cons f fs)
  let ?l = "unat (sf_len f)"
  have IH: "place_subfiles (Suc i) (cur + sf_len f) fs out' db' = Inr (out' @ placed (c + ?l) fs, db' @ place_db (Suc i) (c + ?l) fs)"
    if "\<forall>p\<in>set db'. unat (fst p) < c + ?l" for out' db'
  proof -
    have "c + ?l < 2 ^ 64" using Cons.prems(1) by (simp add: sf_lens_def offset_bound_val)
    then have "unat (cur + sf_len f) = c + ?l" unfolding Cons.prems(3) by (rule unat_add_64)
    moreover have "c + ?l + sum_list (sf_lens fs) \<le> offset_bound" using Cons.prems(1) by (simp add: sf_lens_def)
    ultimately show ?thesis using Cons.IH[OF _ that, of "cur + sf_len f"] by metis
  qed
  show ?case
  proof (cases "sf_len f = 0")
    case True
    then show ?thesis using IH Cons.prems(2) by simp
  next
    case False
    then have l: "0 < ?l" by (simp add: unat_gt_0)
    have cur: "cur = word_of_nat c" using Cons.prems(3) by simp
    have "map_of db cur = None" using Cons.prems(2,3) by (force simp: map_of_eq_None_iff)
    moreover have "stdmap_insert cur i db = db @ [(cur, i)]"
      using Cons.prems(2,3) by (intro stdmap_insert_last) (auto simp: word_unat)
    moreover have "from_offlen cur (sf_len f) = Inr (mk_range c (c + ?l - 1))"
      using from_offlen_ok[OF l, of c "sf_len f"] Cons.prems(1) cur by (simp add: sf_lens_def)
    moreover have "\<forall>p\<in>set (db @ [(cur, i)]). unat (fst p) < c + ?l" using Cons.prems(2,3) l by auto
    ultimately show ?thesis using IH[of "db @ [(cur, i)]"] False l cur by (simp add: Let_def)
  qed
qed simp

text \<open>What \<open>complete_init\<close> establishes.\<close>

definition mf_total :: "bt_mfile_t \<Rightarrow> nat" where
  "mf_total mf = sum_list (sf_lens (mf_subfile_arr mf))"

definition mf_ok :: "bt_mfile_t \<Rightarrow> bool" where
  "mf_ok mf = (mf_is_fully_init mf = Inr True \<and> mf_total mf < offset_bound \<and>
     unat (totfile_size_precpu mf) = mf_total mf \<and>
     0 < unat (mf_piecelen mf) \<and> unat (mf_piecelen mf) < offset_bound \<and>
     unat (nb_piece_precpu mf) = ceil_div (mf_total mf) (unat (mf_piecelen mf)) \<and>
     mf_subfile_arr mf = placed 0 (mf_subfile_arr mf) \<and> subfile_db mf = place_db 0 0 (mf_subfile_arr mf))"

lemma fold_sizes:
  "unat s + sum_list (sf_lens fs) < 2 ^ 64 \<Longrightarrow> unat (fold (\<lambda>f s. s + sf_len f) fs s) = unat s + sum_list (sf_lens fs)"
proof (induction fs arbitrary: s)
  case (Cons f fs)
  then have "unat (s + sf_len f) = unat s + unat (sf_len f)" by (intro unat_add_64) (simp add: sf_lens_def)
  then show ?case using Cons by (simp add: sf_lens_def)
qed (simp add: sf_lens_def)

lemma file_ceil_div_ok:
  assumes "unat a + unat d < 2 ^ 64" "0 < unat d"
  shows "unat (file_ceil_div a d) = ceil_div (unat a) (unat d)"
proof -
  have d: "unat (d - 1) = unat d - 1" using assms(2) by (metis unat_pred unat_0 less_irrefl)
  then have "unat (a + (d - 1)) = unat a + (unat d - 1)" using assms by (simp add: unat_add_64)
  with d show ?thesis by (simp add: file_ceil_div_def unat_div ceil_div_def)
qed

lemma placed_placed: "placed c (placed c fs) = placed c fs"
  by (induction fs arbitrary: c) (simp_all add: Let_def)

lemma sf_is_null_placed: "list_ex sf_is_null (placed c fs) = list_ex sf_is_null fs"
  by (induction fs arbitrary: c) (simp_all add: Let_def sf_is_null_def)

lemma sf_fully_init_placed:
  "\<not> list_ex sf_is_null fs \<Longrightarrow> c + sum_list (sf_lens fs) \<le> offset_bound \<Longrightarrow> sf_all_fully_init (placed c fs) = Inr True"
proof (induction fs arbitrary: c)
  case (Cons f fs)
  let ?l = "unat (sf_len f)"
  have "sf_all_fully_init (placed (c + ?l) fs) = Inr True" using Cons by (simp add: sf_lens_def)
  moreover have "sf_is_fully_init (if ?l = 0 then f else f\<lparr>sf_totfile_range_precpu := mk_range c (c + ?l - 1)\<rparr>) = Inr True"
  proof (cases "?l = 0")
    case True
    then have "sf_len f = 0" using unat_eq_zero by blast
    then show ?thesis using True Cons.prems(1) by (simp add: sf_is_fully_init_def)
  next
    case False
    then have "\<not> fr_is_null (mk_range c (c + ?l - 1))"
      using Cons.prems(2) by (intro fr_okD(1)[of c "c + ?l - 1"] fr_ok_mk) (auto simp: sf_lens_def)
    moreover have "\<not> sf_is_null (f\<lparr>sf_totfile_range_precpu := mk_range c (c + ?l - 1)\<rparr>)" using Cons.prems(1) by (simp add: sf_is_null_def split: if_splits)
    ultimately show ?thesis using False by (simp add: sf_is_fully_init_def sf_totfile_range_def)
  qed
  ultimately show ?case by (simp add: Let_def)
qed simp

lemma complete_init_ok:
  assumes "\<not> mf_is_null mf" "mf_total mf < offset_bound" "unat (mf_piecelen mf) < offset_bound"
    "mf_do_piecehash mf \<longrightarrow> length (mf_piecehash_arr mf) = ceil_div (mf_total mf) (unat (mf_piecelen mf))"
  shows "\<exists>mf'. complete_init info_hash mf = Inr mf' \<and> mf_ok mf' \<and> mf_piecelen mf' = mf_piecelen mf \<and>
           sf_lens (mf_subfile_arr mf') = sf_lens (mf_subfile_arr mf)"
proof -
  let ?fs = "mf_subfile_arr mf" let ?p = "mf_piecelen mf" let ?S = "mf_total mf"
  let ?size = "fold (\<lambda>f s. s + sf_len f) ?fs 0"
  have nn: "?p \<noteq> 0" "\<not> gen_id_is_null (mf_infohash mf)" "?fs \<noteq> []" "\<not> list_ex sf_is_null ?fs"
    using assms(1) by (auto simp: mf_is_null_def split: if_splits)
  have p: "0 < unat ?p" using nn(1) by (simp add: unat_gt_0)
  have size: "unat ?size = ?S" using fold_sizes[of 0 ?fs] assms(2) by (simp add: mf_total_def offset_bound_val)
  have np: "unat (file_ceil_div ?size ?p) = ceil_div ?S (unat ?p)"
    using file_ceil_div_ok[of ?size ?p] size p assms(2,3) by (simp add: offset_bound_val)
  have "ceil_div ?S (unat ?p) \<le> unat ?p * ceil_div ?S (unat ?p)" using p by simp
  also have "unat ?p * ceil_div ?S (unat ?p) < 2 ^ 62"
    using ceil_div_bounds(2)[OF p, of ?S] assms(2,3) by (simp add: offset_bound_val)
  finally have "ceil_div ?S (unat ?p) < 2 ^ 62" .
  then have nm: "file_ceil_div ?size ?p \<noteq> - 1" using np by (auto simp: unsigned_minus_1_eq_mask mask_eq_exp_minus_1)
  have fs: "place_subfiles 0 0 ?fs [] [] = Inr (placed 0 ?fs, place_db 0 0 ?fs)"
    using place_subfiles_ok[of 0 ?fs "[]" 0 0 "[]"] assms(2) by (simp add: mf_total_def)
  let ?mf = "mf\<lparr>totfile_size_precpu := ?size, nb_piece_precpu := file_ceil_div ?size ?p,
                mf_subfile_arr := placed 0 ?fs, subfile_db := place_db 0 0 ?fs\<rparr>"
  have init: "mf_is_fully_init ?mf = Inr True"
    using nn nm off_not_null[of ?size] size assms sf_fully_init_placed[OF nn(4), of 0] sf_is_null_placed[of 0 ?fs] np
    by (auto simp: mf_is_fully_init_def mf_is_null_def mf_nb_piece_def mf_total_def)
  have "complete_init info_hash mf = Inr ?mf"
    using assms(1) nn(2) off_not_null[of ?size] size assms(2) fs init by (simp add: complete_init_def totfile_size_def Let_def)
  moreover have "mf_ok ?mf" using init size np p assms(2,3)
    by (simp add: mf_ok_def mf_total_def placed_placed place_db_placed)
  ultimately show ?thesis by auto
qed

subsection \<open>The parts of files that make up a range\<close>

text \<open>The bytes of the total file, each named by its file and its place in the file, and those that a range of a file stands for.\<close>

fun file_bytes :: "nat \<Rightarrow> nat list \<Rightarrow> (nat \<times> nat) list" where
  "file_bytes i [] = []"
| "file_bytes i (l # ls) = map (Pair i) [0..<l] @ file_bytes (Suc i) ls"

lemma length_file_bytes: "length (file_bytes i ls) = sum_list ls"
  by (induction ls arbitrary: i) simp_all

definition iov_bytes :: "bt_iov_t \<Rightarrow> (nat \<times> nat) list" where
  "iov_bytes v = map (Pair (iov_subfile_idx v)) [unat (fr_beg (iov_subfile_range v))..<Suc (unat (fr_end (iov_subfile_range v)))]"

definition iovs_ok :: "nat \<Rightarrow> bt_iov_t list \<Rightarrow> bool" where
  "iovs_ok i vs = (sorted_wrt (\<lambda>a b. iov_subfile_idx a < iov_subfile_idx b) vs \<and>
     (\<forall>v\<in>set vs. i \<le> iov_subfile_idx v \<and> \<not> fr_is_null (iov_subfile_range v)))"

lemma iovs_ok_simps [simp]:
  "iovs_ok i []"
  "iovs_ok i (v # vs) \<longleftrightarrow> i \<le> iov_subfile_idx v \<and> \<not> fr_is_null (iov_subfile_range v) \<and>
     (\<forall>w\<in>set vs. iov_subfile_idx v < iov_subfile_idx w) \<and> iovs_ok i vs"
  by (auto simp: iovs_ok_def)

lemma iovs_ok_mono: "iovs_ok j vs \<Longrightarrow> i \<le> j \<Longrightarrow> iovs_ok i vs"
  by (auto simp: iovs_ok_def)

lemma iov_sort_ok: "iovs_ok i vs \<Longrightarrow> iov_sort vs = vs"
proof (induction vs)
  case (Cons v vs)
  have "iov_insert v vs = v # vs"
  proof (cases vs)
    case (Cons w ws)
    then have "iov_compare w v = 1" using Cons.prems by (simp add: iov_compare_def Let_def)
    then show ?thesis using Cons by simp
  qed simp
  with Cons show ?case by (simp add: iov_sort_def)
qed (simp add: iov_sort_def)

lemma iov_reduce_ok: "iovs_ok i vs \<Longrightarrow> iov_reduce vs = Inr vs"
proof (induction vs rule: iov_reduce.induct)
  case (3 cur nxt rest)
  then have c: "iov_is_contiguous cur nxt = Inr False" by (simp add: iov_is_contiguous_def iov_is_distinct_def)
  have "iovs_ok i (nxt # rest)" using "3.prems" by simp
  then have "iov_reduce (nxt # rest) = Inr (nxt # rest)" using "3.IH" c by blast
  with c show ?case by simp
qed simp_all

lemma iov_arr_compare_self: "iov_arr_compare vs vs = 0"
proof -
  have "iov_arr_compare_loop vs vs = 0"
    by (induction vs) (simp_all add: iov_compare_def fr_compare_def Let_def)
  then show ?thesis by (simp add: iov_arr_compare_def)
qed

lemma drop_take_app3:
  "length xs = l \<Longrightarrow> drop m (take n (xs @ ys)) = drop m (take n xs) @ drop (m - l) (take (n - l) ys)"
  by (cases "n \<le> l") auto

lemma iov_loop_ok:
  assumes "c + sum_list (sf_lens fs) \<le> offset_bound" "drop i (mf_subfile_arr mf) = placed c fs" "fr_ok b e w"
  shows "\<exists>vs. iov_loop mf w (place_db i c fs) out = Inr (out @ vs) \<and> iovs_ok i vs \<and>
    concat (map iov_bytes vs) = drop (b - c) (take (Suc e - c) (file_bytes i (sf_lens fs)))"
  using assms(1,2)
proof (induction fs arbitrary: i c out)
  case (Cons f fs)
  let ?l = "unat (sf_len f)" let ?rest = "file_bytes (Suc i) (sf_lens fs)"
  have nth: "mf_subfile_arr mf ! i = placed c (f # fs) ! 0" "i < length (mf_subfile_arr mf)"
    using Cons.prems(2) by (metis nth_via_drop placed.simps(2) nth_Cons_0, metis drop_eq_Nil length_placed list.size(3) list.distinct(1) not_le placed.simps(2))
  have tl: "drop (Suc i) (mf_subfile_arr mf) = placed (c + ?l) fs"
    using Cons.prems(2) by (metis drop_Suc tl_drop placed.simps(2) list.sel(3))
  have IH: "\<exists>vs. iov_loop mf w (place_db (Suc i) (c + ?l) fs) out' = Inr (out' @ vs) \<and> iovs_ok (Suc i) vs \<and>
      concat (map iov_bytes vs) = drop (b - (c + ?l)) (take (Suc e - (c + ?l)) ?rest)" for out'
    using Cons.IH[OF _ tl] Cons.prems(1) by (simp add: sf_lens_def)
  have split: "drop (b - c) (take (Suc e - c) (file_bytes i (sf_lens (f # fs)))) =
      map (Pair i) (drop (b - c) (take (Suc e - c) [0..<?l])) @ drop (b - (c + ?l)) (take (Suc e - (c + ?l)) ?rest)"
  proof -
    have "file_bytes i (sf_lens (f # fs)) = map (Pair i) [0..<?l] @ ?rest" by (simp add: sf_lens_def)
    moreover have "drop (b - c) (take (Suc e - c) (map (Pair i) [0..<?l] @ ?rest)) =
        map (Pair i) (drop (b - c) (take (Suc e - c) [0..<?l])) @ drop (b - c - ?l) (take (Suc e - c - ?l) ?rest)"
      by (subst drop_take_app3[of _ ?l]) (simp_all add: take_map drop_map del: take_append drop_append)
    ultimately show ?thesis by simp
  qed
  show ?case
  proof (cases "?l = 0")
    case True
    with IH[of out] split iovs_ok_mono[of "Suc i" _ i] show ?thesis by auto
  next
    case False
    let ?sub = "mk_range c (c + ?l - 1)"
    have sub: "fr_ok c (c + ?l - 1) ?sub" using Cons.prems(1) False by (intro fr_ok_mk) (auto simp: sf_lens_def)
    have tot: "sf_totfile_range (mf_subfile_arr mf ! i) = Inr ?sub"
      using nth(1) False fr_okD(1)[OF sub] by (simp add: Let_def sf_totfile_range_def)
    have we: "unat (fr_end w) = e" "unat (fr_beg w) = b" "b \<le> e" "e < offset_bound" using fr_okD[OF assms(3)] by auto
    have se: "unat (fr_beg ?sub) = c" "unat (fr_end ?sub) = c + ?l - 1" using fr_okD[OF sub] by auto
    consider (after) "e < c" | (before) "c \<le> e" "c + ?l - 1 < b" | (meet) "c \<le> e" "b \<le> c + ?l - 1" by linarith
    then show ?thesis
    proof cases
      case after
      then have "fr_end w < fr_beg ?sub" using we se by (simp only: word_unat)
      then show ?thesis using after tot nth(2) False split by (simp add: Let_def)
    next
      case before
      then have "\<not> fr_end w < fr_beg ?sub" "fr_end ?sub < fr_beg w" using we se by (simp_all only: word_unat not_less)
      moreover have "drop (b - c) (take (Suc e - c) [0..<?l]) = []" using before False by auto
      ultimately show ?thesis using IH[of out] tot nth(2) False split iovs_ok_mono[of "Suc i" _ i] by (auto simp: Let_def)
    next
      case meet
      then have n: "\<not> fr_end w < fr_beg ?sub" "\<not> fr_end ?sub < fr_beg w" using we se by (simp_all only: word_unat not_less)
      obtain r where r: "fr_clamped_by w ?sub = Inr r" "fr_ok (max c b) (min (c + ?l - 1) e) r"
        using fr_clamped_ok[OF sub assms(3)] meet by auto
      have rb: "unat (fr_beg r) = max c b" "unat (fr_end r) = min (c + ?l - 1) e" "\<not> fr_is_null r" using fr_okD[OF r(2)] by auto
      let ?b = "fr_beg r - fr_beg ?sub" let ?e = "fr_end r - fr_beg ?sub"
      have g: "fr_beg ?sub \<le> fr_beg r" "fr_beg ?sub \<le> fr_end r" using rb se meet False by (simp_all only: word_unat)
      then have u: "unat ?b = max c b - c" "unat ?e = min (c + ?l - 1) e - c"
        using rb se by (simp_all only: unat_sub_if' word_unat if_True)
      have 1: "fr_set_beg ?b r = Inr (r\<lparr>fr_beg := ?b\<rparr>)" "fr_ok (max c b - c) (min (c + ?l - 1) e) (r\<lparr>fr_beg := ?b\<rparr>)"
      proof -
        have "unat ?b \<le> min (c + ?l - 1) e" using u(1) meet we(3) by (auto simp: max_def)
        then show "fr_set_beg ?b r = Inr (r\<lparr>fr_beg := ?b\<rparr>)" "fr_ok (max c b - c) (min (c + ?l - 1) e) (r\<lparr>fr_beg := ?b\<rparr>)"
          using fr_set_ok(1)[OF r(2)] u(1) by metis+
      qed
      have 2: "fr_set_end ?e (r\<lparr>fr_beg := ?b\<rparr>) = Inr (r\<lparr>fr_beg := ?b, fr_end := ?e\<rparr>)"
        "fr_ok (max c b - c) (min (c + ?l - 1) e - c) (r\<lparr>fr_beg := ?b, fr_end := ?e\<rparr>)"
      proof -
        have "max c b - c \<le> unat ?e" "unat ?e < offset_bound"
          using u(2) meet we(3) fr_okD(6)[OF r(2)] by (auto simp: max_def min_def)
        then show "fr_set_end ?e (r\<lparr>fr_beg := ?b\<rparr>) = Inr (r\<lparr>fr_beg := ?b, fr_end := ?e\<rparr>)"
          "fr_ok (max c b - c) (min (c + ?l - 1) e - c) (r\<lparr>fr_beg := ?b, fr_end := ?e\<rparr>)"
          using fr_set_ok(2)[OF 1(2), of ?e] u(2) by simp_all
      qed
      let ?v = "\<lparr>iov_subfile_idx = i, iov_subfile_range = r\<lparr>fr_beg := ?b, fr_end := ?e\<rparr>\<rparr>"
      have bytes: "iov_bytes ?v = map (Pair i) (drop (b - c) (take (Suc e - c) [0..<?l]))"
      proof -
        have "take (Suc e - c) [0..<?l] = [0..<min ?l (Suc e - c)]" by (cases "?l \<le> Suc e - c") (simp_all add: min_def)
        moreover have "Suc (unat ?e) = min ?l (Suc e - c)" "unat ?b = b - c" using u False meet by (auto simp: min_def)
        ultimately show ?thesis by (simp add: iov_bytes_def del: upt_Suc)
      qed
      obtain vs where vs: "iov_loop mf w (place_db (Suc i) (c + ?l) fs) (out @ [?v]) = Inr ((out @ [?v]) @ vs)" "iovs_ok (Suc i) vs"
        "concat (map iov_bytes vs) = drop (b - (c + ?l)) (take (Suc e - (c + ?l)) ?rest)"
        using IH[of "out @ [?v]"] by blast
      have "iov_loop mf w (place_db i c (f # fs)) out = Inr (out @ ?v # vs)"
        using tot nth(2) False n r(1) rb(3) g 1(1) 2(1) vs(1) by (simp add: Let_def)
      moreover have "iovs_ok i (?v # vs)"
        using vs(2) fr_okD(1)[OF 2(2)] by (auto simp: iovs_ok_def)
      moreover have "concat (map iov_bytes (?v # vs)) = drop (b - c) (take (Suc e - c) (file_bytes i (sf_lens (f # fs))))"
        by (simp only: split bytes vs(3) concat.simps list.map)
      ultimately show ?thesis by blast
    qed
  qed
qed (simp add: sf_lens_def)

definition file_before :: "bt_mfile_t \<Rightarrow> file_size_t \<times> nat \<Rightarrow> file_size_t \<times> nat \<Rightarrow> bool" where
  "file_before mf x y = (snd x < length (mf_subfile_arr mf) \<and>
     (\<exists>r. sf_totfile_range (mf_subfile_arr mf ! snd x) = Inr r \<and> unat (fr_beg r) = unat (fst x) \<and>
          unat (fr_end r) < unat (fst y) \<and> unat (fst x) < unat (fst y)))"

lemma place_db_hd: "place_db i c fs \<noteq> [] \<Longrightarrow> fst (hd (place_db i c fs)) = word_of_nat c"
  by (induction fs arbitrary: i c) (auto simp: Let_def hd_append unat_eq_zero split: if_splits)

lemma place_db_linked:
  assumes "c + sum_list (sf_lens fs) < offset_bound" "drop i (mf_subfile_arr mf) = placed c fs"
  shows "successively (file_before mf) (place_db i c fs)"
  using assms
proof (induction fs arbitrary: i c)
  case (Cons f fs)
  let ?l = "unat (sf_len f)"
  have nth: "mf_subfile_arr mf ! i = placed c (f # fs) ! 0" "i < length (mf_subfile_arr mf)"
    using Cons.prems(2) by (metis nth_via_drop placed.simps(2) nth_Cons_0, metis drop_eq_Nil length_placed list.size(3) list.distinct(1) not_le placed.simps(2))
  have "drop (Suc i) (mf_subfile_arr mf) = placed (c + ?l) fs"
    using Cons.prems(2) by (metis drop_Suc tl_drop placed.simps(2) list.sel(3))
  then have IH: "successively (file_before mf) (place_db (Suc i) (c + ?l) fs)"
    using Cons.IH[of "c + ?l" "Suc i"] Cons.prems(1) by (simp add: sf_lens_def)
  show ?case
  proof (cases "?l = 0")
    case False
    have b: "c + ?l < offset_bound" using Cons.prems(1) by (simp add: sf_lens_def)
    have sub: "fr_ok c (c + ?l - 1) (mk_range c (c + ?l - 1))" using b False by (intro fr_ok_mk) auto
    have tot: "sf_totfile_range (mf_subfile_arr mf ! i) = Inr (mk_range c (c + ?l - 1))"
      using nth(1) False fr_okD(1)[OF sub] by (simp add: Let_def sf_totfile_range_def)
    have "file_before mf (word_of_nat c, i) y" if "fst y = word_of_nat (c + ?l)" for y
      using fr_okD[OF sub] False b tot nth(2) that unat_file_off[OF b] by (simp add: file_before_def unat_file_off)
    with IH place_db_hd[of "Suc i" "c + ?l" fs] show ?thesis using False
      by (cases "place_db (Suc i) (c + ?l) fs") (simp_all add: Let_def)
  qed (use IH in simp)
qed simp

lemma iov_start_ok:
  "successively (file_before mf) db \<Longrightarrow> fr_ok b e w \<Longrightarrow>
     iov_loop mf w (iov_start (fr_beg w) db) out = iov_loop mf w db out"
proof (induction "fr_beg w" db rule: iov_start.induct)
  case (3 x y es)
  then obtain r where r: "snd x < length (mf_subfile_arr mf)" "sf_totfile_range (mf_subfile_arr mf ! snd x) = Inr r"
    "unat (fr_beg r) = unat (fst x)" "unat (fr_end r) < unat (fst y)" "unat (fst x) < unat (fst y)"
    by (auto simp: file_before_def)
  show ?case
  proof (cases "fst y < fr_beg w")
    case True
    then have y: "unat (fst y) < b" using fr_okD[OF "3.prems"(2)] by (simp add: word_unat)
    then have "\<not> fr_beg r > fr_end w" "fr_end r < fr_beg w" using r fr_okD[OF "3.prems"(2)] by (simp_all add: word_unat)
    then have "iov_loop mf w (x # y # es) out = iov_loop mf w (y # es) out"
      using r(1,2) by (simp only: iov_loop.simps(2)[of mf w x]) simp
    then show ?thesis using True 3 by simp
  qed simp
qed simp_all

lemma get_iov_arr_ok:
  assumes "mf_ok mf" "fr_ok b e w" "e < mf_total mf"
  shows "\<exists>vs. get_iov_arr w mf = Inr vs \<and> iovs_ok 0 vs \<and>
    concat (map iov_bytes vs) = drop b (take (Suc e) (file_bytes 0 (sf_lens (mf_subfile_arr mf))))"
proof -
  let ?fs = "mf_subfile_arr mf"
  have mf: "mf_is_fully_init mf = Inr True" "sum_list (sf_lens ?fs) < offset_bound" "?fs = placed 0 ?fs" "subfile_db mf = place_db 0 0 ?fs"
    using assms(1) by (auto simp: mf_ok_def mf_total_def)
  obtain vs where vs: "iov_loop mf w (place_db 0 0 ?fs) [] = Inr vs" "iovs_ok 0 vs"
    "concat (map iov_bytes vs) = drop b (take (Suc e) (file_bytes 0 (sf_lens ?fs)))"
    using iov_loop_ok[of 0 ?fs 0 mf b e w "[]"] mf(2,3) assms(2) by auto
  have st: "iov_loop mf w (iov_start (fr_beg w) (place_db 0 0 ?fs)) [] = Inr vs"
    using iov_start_ok[OF place_db_linked[of 0 ?fs 0 mf] assms(2)] mf(2,3) vs(1) by simp
  have "length (concat (map iov_bytes vs)) > 0"
    using assms(3) fr_okD(5)[OF assms(2)] vs(3) by (simp add: length_file_bytes mf_total_def)
  then have "place_db 0 0 ?fs \<noteq> []" using vs(1) by (cases "place_db 0 0 ?fs") auto
  then have "get_iov_arr w mf = Inr vs"
    using mf(1,4) st iov_sort_ok[OF vs(2)] iov_reduce_ok[OF vs(2)] by (simp add: get_iov_arr_def iov_arr_compare_self)
  with vs(2,3) show ?thesis by blast
qed

subsection \<open>The pieces of a range\<close>

definition piece_first :: "bt_mfile_t \<Rightarrow> nat \<Rightarrow> nat" where
  "piece_first mf i = unat (mf_piecelen mf) * i"

definition piece_last :: "bt_mfile_t \<Rightarrow> nat \<Rightarrow> nat" where
  "piece_last mf i = min (unat (mf_piecelen mf) * Suc i) (mf_total mf) - 1"

abbreviation mf_pieces :: "bt_mfile_t \<Rightarrow> nat" where
  "mf_pieces mf \<equiv> unat (nb_piece_precpu mf)"

lemma mf_okD:
  assumes "mf_ok mf"
  shows "totfile_size mf = Inr (totfile_size_precpu mf)" "mf_nb_piece mf = Inr (nb_piece_precpu mf)"
    "unat (totfile_size_precpu mf) = mf_total mf" "mf_total mf < offset_bound" "0 < unat (mf_piecelen mf)"
    "unat (mf_piecelen mf) < offset_bound" "mf_pieces mf = ceil_div (mf_total mf) (unat (mf_piecelen mf))"
    "mf_total mf \<le> unat (mf_piecelen mf) * mf_pieces mf" "unat (mf_piecelen mf) * mf_pieces mf < mf_total mf + unat (mf_piecelen mf)"
proof -
  show "totfile_size mf = Inr (totfile_size_precpu mf)" "unat (totfile_size_precpu mf) = mf_total mf" "mf_total mf < offset_bound"
    "0 < unat (mf_piecelen mf)" "unat (mf_piecelen mf) < offset_bound"
    "mf_pieces mf = ceil_div (mf_total mf) (unat (mf_piecelen mf))"
    using assms off_not_null[of "totfile_size_precpu mf"] by (auto simp: mf_ok_def totfile_size_def)
  show "mf_nb_piece mf = Inr (nb_piece_precpu mf)"
    using assms by (auto simp: mf_ok_def mf_is_fully_init_def mf_nb_piece_def split: if_splits)
  show "mf_total mf \<le> unat (mf_piecelen mf) * mf_pieces mf" "unat (mf_piecelen mf) * mf_pieces mf < mf_total mf + unat (mf_piecelen mf)"
    using assms ceil_div_bounds[of "unat (mf_piecelen mf)" "mf_total mf"] by (auto simp: mf_ok_def)
qed

lemma piece_bounds:
  assumes "mf_ok mf" "i < mf_pieces mf"
  shows "piece_first mf i < mf_total mf" "piece_first mf i \<le> piece_last mf i" "piece_last mf i < mf_total mf"
    "Suc i < mf_pieces mf \<longrightarrow> Suc (piece_last mf i) = piece_first mf (Suc i)"
    "Suc i = mf_pieces mf \<longrightarrow> Suc (piece_last mf i) = mf_total mf"
proof -
  let ?p = "unat (mf_piecelen mf)" let ?S = "mf_total mf" let ?n = "mf_pieces mf"
  note ok = mf_okD[OF assms(1)]
  have "?p * Suc i \<le> ?p * ?n" using assms(2) by (intro mult_le_mono) auto
  with ok(9) show f: "piece_first mf i < ?S" by (simp add: piece_first_def)
  then show "piece_first mf i \<le> piece_last mf i" "piece_last mf i < ?S"
    using ok(5) by (auto simp: piece_first_def piece_last_def)
  show "Suc i < ?n \<longrightarrow> Suc (piece_last mf i) = piece_first mf (Suc i)"
  proof
    assume "Suc i < ?n"
    then have "?p * Suc (Suc i) \<le> ?p * ?n" by (intro mult_le_mono) auto
    then show "Suc (piece_last mf i) = piece_first mf (Suc i)" using ok(5,9) by (simp add: piece_first_def piece_last_def)
  qed
  show "Suc i = ?n \<longrightarrow> Suc (piece_last mf i) = ?S"
  proof
    assume "Suc i = ?n"
    then have "?S \<le> ?p * Suc i" using ok(8) by simp
    then show "Suc (piece_last mf i) = ?S" using f by (simp add: piece_last_def)
  qed
qed

lemma unat_piece_mult:
  assumes "mf_ok mf" "i < mf_pieces mf"
  shows "unat (mf_piecelen mf * word_of_nat i) = piece_first mf i"
    "unat (mf_piecelen mf * word_of_nat (Suc i)) = unat (mf_piecelen mf) * Suc i"
proof -
  let ?p = "unat (mf_piecelen mf)"
  note ok = mf_okD[OF assms(1)]
  have b: "?p * Suc i < 2 ^ 64"
  proof -
    have "?p * Suc i \<le> ?p * mf_pieces mf" using assms(2) by (intro mult_le_mono) auto
    also have "\<dots> < 2 ^ 64" using ok(4,6,9) by (simp add: offset_bound_val)
    finally show ?thesis .
  qed
  have "Suc i < 2 ^ 64" using b ok(5) by (metis le_less_trans nat_mult_le_cancel_disj mult_1 One_nat_def Suc_leI mult.commute)
  then have "unat (word_of_nat (Suc i) :: 64 word) = Suc i" "unat (word_of_nat i :: 64 word) = i"
    using unat_of_nat_64[of "Suc i"] unat_of_nat_64[of i] by auto
  then show "unat (mf_piecelen mf * word_of_nat i) = piece_first mf i"
    "unat (mf_piecelen mf * word_of_nat (Suc i)) = ?p * Suc i"
    using b by (simp_all add: unat_word_ariths piece_first_def del: of_nat_Suc)
qed

lemma piece_range_ok:
  assumes "mf_ok mf" "i < mf_pieces mf"
  shows "\<exists>r. pieceidx_to_totfile_range i mf = Inr r \<and> fr_ok (piece_first mf i) (piece_last mf i) r"
proof -
  let ?p = "unat (mf_piecelen mf)"
  note ok = mf_okD[OF assms(1)] and pb = piece_bounds[OF assms]
  have n0: "nb_piece_precpu mf > 0" using assms(2) by (metis unat_0 not_less_zero word_gt_0)
  have "unat (if i = mf_pieces mf - 1 then totfile_size_precpu mf - 1 else mf_piecelen mf * word_of_nat (i + 1) - 1) = piece_last mf i"
  proof (cases "i = mf_pieces mf - 1")
    case True
    have "totfile_size_precpu mf \<noteq> 0" using ok(3) pb(1) by auto
    with True assms(2) ok(3) pb(5) show ?thesis by (auto simp: unat_pred)
  next
    case False
    have *: "unat (mf_piecelen mf * word_of_nat (i + 1)) = ?p * Suc i" using unat_piece_mult(2)[OF assms] by simp
    then have "mf_piecelen mf * word_of_nat (i + 1) \<noteq> 0" using ok(5) by (metis unat_0 nat_0_less_mult_iff less_irrefl zero_less_Suc)
    then have "unat (mf_piecelen mf * word_of_nat (i + 1) - 1) = ?p * Suc i - 1" using * by (simp add: unat_pred del: of_nat_Suc of_nat_add)
    moreover have "Suc (piece_last mf i) = piece_first mf (Suc i)" using pb(4) False assms(2) by auto
    ultimately show ?thesis using False by (simp add: piece_first_def del: of_nat_Suc of_nat_add)
  qed
  then obtain ew where e: "pieceidx_to_pieceend i mf = Inr ew" "unat ew = piece_last mf i"
    using ok(1,2) assms(2) n0 by (auto simp: pieceidx_to_pieceend_def split: if_splits)
  let ?b = "mf_piecelen mf * word_of_nat i"
  have b: "pieceidx_to_piecebeg i mf = Inr ?b" using ok(2) assms(2) n0 by (simp add: pieceidx_to_piecebeg_def)
  have 1: "fr_set_beg ?b file_range_null = Inr \<lparr>fr_beg = ?b, fr_end = file_size_NONE\<rparr>"
    by (simp add: fr_set_beg_def file_range_null_def fr_is_sane_def fr_is_null_def file_size_is_null_def)
  have 2: "fr_ok (piece_first mf i) (piece_last mf i) \<lparr>fr_beg = ?b, fr_end = ew\<rparr>"
    using e(2) unat_piece_mult(1)[OF assms] pb ok(4) by (simp add: fr_ok_def)
  have "fr_set_end ew \<lparr>fr_beg = ?b, fr_end = file_size_NONE\<rparr> = Inr \<lparr>fr_beg = ?b, fr_end = ew\<rparr>"
    using fr_okD(2)[OF 2] by (simp add: fr_set_end_def)
  then show ?thesis using b e(1) 1 2 by (simp add: pieceidx_to_totfile_range_def)
qed

text \<open>The bytes of the total file that a range of a piece stands for, by their offsets.\<close>

definition prange_bytes :: "bt_mfile_t \<Rightarrow> bt_prange_t \<Rightarrow> nat list" where
  "prange_bytes mf p = [piece_first mf (pr_piece_idx p) + pr_offset p..<piece_first mf (pr_piece_idx p) + pr_offset p + pr_length p]"

definition prange_ok :: "bt_mfile_t \<Rightarrow> bt_prange_t \<Rightarrow> bool" where
  "prange_ok mf p = (pr_piece_idx p < mf_pieces mf \<and> 0 < pr_length p \<and>
     piece_first mf (pr_piece_idx p) + pr_offset p + pr_length p \<le> Suc (piece_last mf (pr_piece_idx p)))"

lemma totfile_piece:
  assumes "mf_ok mf" "n < mf_total mf"
  shows "n div unat (mf_piecelen mf) < mf_pieces mf"
    "piece_first mf (n div unat (mf_piecelen mf)) \<le> n" "n \<le> piece_last mf (n div unat (mf_piecelen mf))"
    "unat x = n \<Longrightarrow> totfile_to_pieceidx x mf = n div unat (mf_piecelen mf)"
proof -
  let ?p = "unat (mf_piecelen mf)"
  note ok = mf_okD[OF assms(1)]
  have "n < ?p * mf_pieces mf" using ok(8) assms(2) by simp
  then show "n div ?p < mf_pieces mf" using ok(5) by (simp add: div_less_iff_less_mult mult.commute)
  show "piece_first mf (n div ?p) \<le> n" by (simp add: piece_first_def)
  have "n < ?p * Suc (n div ?p)" using mult_div_mod_eq[of ?p n] mod_less_divisor[OF ok(5), of n] by (simp only: mult_Suc_right)
  then show "n \<le> piece_last mf (n div ?p)" using assms(2) unfolding piece_last_def by linarith
  show "unat x = n \<Longrightarrow> totfile_to_pieceidx x mf = n div ?p" by (simp add: totfile_to_pieceidx_def unat_div)
qed

lemma same_piece_div:
  assumes "mf_ok mf" "piece_first mf i \<le> n" "n \<le> piece_last mf i" "i < mf_pieces mf"
  shows "n div unat (mf_piecelen mf) = i" "n mod unat (mf_piecelen mf) = n - piece_first mf i"
proof -
  let ?p = "unat (mf_piecelen mf)"
  have "n < ?p * Suc i" using assms(3) piece_bounds(1)[OF assms(1,4)] mf_okD(5)[OF assms(1)] by (auto simp: piece_last_def)
  then have "n div ?p < Suc i" using mf_okD(5)[OF assms(1)] by (simp add: div_less_iff_less_mult mult.commute del: mult_Suc_right)
  moreover have "i \<le> n div ?p" using assms(2) mf_okD(5)[OF assms(1)] by (simp add: less_eq_div_iff_mult_less_eq piece_first_def mult.commute)
  ultimately show 1: "n div ?p = i" by simp
  show "n mod ?p = n - piece_first mf i" using 1 minus_mult_div_eq_mod[of n ?p] by (simp add: piece_first_def)
qed

lemma pr_from_ok:
  assumes "mf_ok mf" "fr_ok b e r" "piece_first mf i \<le> b" "e \<le> piece_last mf i" "i < mf_pieces mf"
  shows "\<exists>p. pr_from_totfile_range mf r = Inr p \<and> pr_piece_idx p = i \<and> prange_ok mf p \<and> prange_bytes mf p = [b..<Suc e]"
proof -
  let ?p = "unat (mf_piecelen mf)" let ?q = "\<lparr>pr_piece_idx = i, pr_offset = b - piece_first mf i, pr_length = e - b + 1\<rparr>"
  note r = fr_okD[OF assms(2)]
  have b: "b div ?p = i" "b mod ?p = b - piece_first mf i" using same_piece_div[OF assms(1,3) _ assms(5)] assms(4) r(5) by auto
  have e: "e div ?p = i" using same_piece_div[OF assms(1) _ assms(4,5)] assms(3) r(5) by auto
  have "fr_beg r div mf_piecelen mf = fr_end r div mf_piecelen mf"
    using b(1) e r(3,4) by (intro word_unat_eq_iff[THEN iffD2]) (simp add: unat_div)
  then have "pr_from_totfile_range mf r = Inr ?q"
    using b r(3) fr_len_ok[OF assms(2)] by (simp add: pr_from_totfile_range_def unat_div unat_mod)
  moreover have "prange_ok mf ?q" "prange_bytes mf ?q = [b..<Suc e]"
    using assms(3-5) r(5) by (auto simp: prange_ok_def prange_bytes_def)
  ultimately show ?thesis by auto
qed

lemma prange_loop_ok:
  assumes "mf_ok mf" "fr_ok b e w" "e < mf_total mf" "mf_pieces mf \<le> fuel + b div unat (mf_piecelen mf)"
  shows "\<exists>ps. prange_loop fuel mf w out = Inr (out @ ps) \<and> (\<forall>p\<in>set ps. prange_ok mf p) \<and>
    map pr_piece_idx ps = [b div unat (mf_piecelen mf)..<Suc (e div unat (mf_piecelen mf))] \<and>
    concat (map (prange_bytes mf) ps) = [b..<Suc e]"
  using assms(2,4)
proof (induction fuel arbitrary: b w out)
  case 0
  have "b < mf_total mf" using fr_okD(5)[OF "0.prems"(1)] assms(3) by simp
  with totfile_piece(1)[OF assms(1)] 0 show ?case by (metis add_0 not_less)
next
  case (Suc fuel)
  let ?p = "unat (mf_piecelen mf)" let ?i = "b div ?p"
  note w = fr_okD[OF Suc.prems(1)]
  have b: "b < mf_total mf" using w(5) assms(3) by simp
  note pb = totfile_piece[OF assms(1) b]
  obtain pr where pr: "pieceidx_to_totfile_range ?i mf = Inr pr" "fr_ok (piece_first mf ?i) (piece_last mf ?i) pr"
    using piece_range_ok[OF assms(1) pb(1)] by blast
  obtain c where c: "fr_clamped_by w pr = Inr c" "fr_ok b (min (piece_last mf ?i) e) c"
    using fr_clamped_ok[OF pr(2) Suc.prems(1)] pb w(5) by (auto simp: max_def)
  obtain q where q: "pr_from_totfile_range mf c = Inr q" "pr_piece_idx q = ?i" "prange_ok mf q"
    "prange_bytes mf q = [b..<Suc (min (piece_last mf ?i) e)]"
    using pr_from_ok[OF assms(1) c(2) pb(2) _ pb(1)] by auto
  have ce: "unat (fr_end c) = min (piece_last mf ?i) e" using fr_okD[OF c(2)] by simp
  show ?case
  proof (cases "e \<le> piece_last mf ?i")
    case True
    then have "fr_end c = fr_end w" using ce w(4) by (simp add: word_unat_eq_iff)
    moreover have "e div ?p = ?i" using same_piece_div(1)[OF assms(1) _ True pb(1)] pb(2) w(5) by simp
    ultimately show ?thesis using pb(4)[OF w(3)] pr(1) c(1) q True by simp
  next
    case False
    then have ne: "fr_end c \<noteq> fr_end w" "unat (fr_end c) = piece_last mf ?i" using ce w(4) by auto
    have si: "Suc ?i < mf_pieces mf"
      using piece_bounds(5)[OF assms(1) pb(1)] pb(1) False assms(3) by (metis Suc_lessI less_Suc_eq_le not_less)
    then have first: "Suc (piece_last mf ?i) = piece_first mf (Suc ?i)" using piece_bounds(4)[OF assms(1) pb(1)] by simp
    then have nx: "unat (fr_end c + 1) = piece_first mf (Suc ?i)"
      using ne(2) unat_add_64[of "fr_end c" 1] piece_bounds(3)[OF assms(1) pb(1)] mf_okD(4)[OF assms(1)] by (simp add: offset_bound_val)
    have s: "fr_set_beg (fr_end c + 1) w = Inr (w\<lparr>fr_beg := fr_end c + 1\<rparr>)" "fr_ok (piece_first mf (Suc ?i)) e (w\<lparr>fr_beg := fr_end c + 1\<rparr>)"
      using fr_set_ok(1)[OF Suc.prems(1), of "fr_end c + 1"] nx first False by auto
    have d: "piece_first mf (Suc ?i) div ?p = Suc ?i" using mf_okD(5)[OF assms(1)] by (simp add: piece_first_def)
    obtain ps where ps: "prange_loop fuel mf (w\<lparr>fr_beg := fr_end c + 1\<rparr>) (out @ [q]) = Inr ((out @ [q]) @ ps)"
      "\<forall>p\<in>set ps. prange_ok mf p" "map pr_piece_idx ps = [Suc ?i..<Suc (e div ?p)]"
      "concat (map (prange_bytes mf) ps) = [piece_first mf (Suc ?i)..<Suc e]"
      using Suc.IH[OF s(2), of "out @ [q]"] Suc.prems(2) d by auto
    have "?i \<le> e div ?p" using w(5) by (simp add: div_le_mono)
    then have "map pr_piece_idx (q # ps) = [?i..<Suc (e div ?p)]" using q(2) ps(3) by (simp add: upt_conv_Cons del: upt_Suc)
    moreover have "[b..<Suc e] = [b..<piece_first mf (Suc ?i)] @ [piece_first mf (Suc ?i)..<Suc e]"
      using upt_add_eq_append[of b "piece_first mf (Suc ?i)" "Suc e - piece_first mf (Suc ?i)"] False first pb(3)
      by (simp del: upt_Suc)
    ultimately have "map pr_piece_idx (q # ps) = [?i..<Suc (e div ?p)]" "concat (map (prange_bytes mf) (q # ps)) = [b..<Suc e]"
      using q(4) ps(4) False first by (simp_all add: min_def del: upt_Suc)
    moreover have "prange_loop (Suc fuel) mf w out = Inr (out @ q # ps)"
      using pb(4)[OF w(3)] pr(1) c(1) q(1) ne(1) s(1) ps(1) by simp
    ultimately show ?thesis using q(3) ps(2) by (metis set_ConsD)
  qed
qed

lemma totfile_range_to_prange_arr_ok:
  assumes "mf_ok mf" "fr_ok b e w" "e < mf_total mf"
  shows "\<exists>ps. totfile_range_to_prange_arr w mf = Inr ps \<and> (\<forall>p\<in>set ps. prange_ok mf p) \<and>
    map pr_piece_idx ps = [b div unat (mf_piecelen mf)..<Suc (e div unat (mf_piecelen mf))] \<and>
    concat (map (prange_bytes mf) ps) = [b..<Suc e]"
proof -
  have "fr_end w < totfile_size_precpu mf" using fr_okD(4)[OF assms(2)] mf_okD(3)[OF assms(1)] assms(3) by (simp add: word_unat)
  then show ?thesis using prange_loop_ok[OF assms, of "mf_pieces mf" "[]"] mf_okD(1,2)[OF assms(1)]
    by (simp add: totfile_range_to_prange_arr_def)
qed

subsection \<open>Property\<close>

text \<open>C3. A torrent whose files are shorter together than the largest file size is completed to one whose layout is that of the
  files laid end to end, and every range of bytes of it is cut, without a failed assertion and by a loop that ends, into ranges of
  successive pieces that lie in their pieces, and into ranges of files by increasing file, both of which stand for exactly the bytes
  of the range in order.\<close>
theorem range_to_pieces_and_files:
  assumes "\<not> mf_is_null mf" "mf_total mf < offset_bound" "unat (mf_piecelen mf) < offset_bound"
    "mf_do_piecehash mf \<longrightarrow> length (mf_piecehash_arr mf) = ceil_div (mf_total mf) (unat (mf_piecelen mf))"
    "b \<le> e" "e < mf_total mf"
  shows "\<exists>mf' ps vs. complete_init info_hash mf = Inr mf' \<and>
    totfile_range_to_prange_arr (mk_range b e) mf' = Inr ps \<and> get_iov_arr (mk_range b e) mf' = Inr vs \<and>
    (\<forall>p\<in>set ps. prange_ok mf' p) \<and>
    map pr_piece_idx ps = [b div unat (mf_piecelen mf)..<Suc (e div unat (mf_piecelen mf))] \<and>
    concat (map (prange_bytes mf') ps) = [b..<Suc e] \<and>
    sorted_wrt (<) (map iov_subfile_idx vs) \<and>
    concat (map iov_bytes vs) = drop b (take (Suc e) (file_bytes 0 (sf_lens (mf_subfile_arr mf))))"
proof -
  obtain mf' where mf': "complete_init info_hash mf = Inr mf'" "mf_ok mf'" "mf_piecelen mf' = mf_piecelen mf"
    "sf_lens (mf_subfile_arr mf') = sf_lens (mf_subfile_arr mf)"
    using complete_init_ok[OF assms(1-4)] by blast
  have w: "fr_ok b e (mk_range b e)" "e < mf_total mf'" using assms(2,5,6) mf'(4) by (simp_all add: fr_ok_mk mf_total_def)
  obtain vs where "get_iov_arr (mk_range b e) mf' = Inr vs" "iovs_ok 0 vs"
    "concat (map iov_bytes vs) = drop b (take (Suc e) (file_bytes 0 (sf_lens (mf_subfile_arr mf))))"
    using get_iov_arr_ok[OF mf'(2) w] mf'(4) by auto
  moreover have "sorted_wrt (<) (map iov_subfile_idx vs)" using calculation(2) by (simp add: iovs_ok_def sorted_wrt_map)
  moreover obtain ps where "totfile_range_to_prange_arr (mk_range b e) mf' = Inr ps" "\<forall>p\<in>set ps. prange_ok mf' p"
    "map pr_piece_idx ps = [b div unat (mf_piecelen mf)..<Suc (e div unat (mf_piecelen mf))]"
    "concat (map (prange_bytes mf') ps) = [b..<Suc e]"
    using totfile_range_to_prange_arr_ok[OF mf'(2) w] mf'(3) by auto
  ultimately show ?thesis using mf'(1) by blast
qed

definition bt_ex_mfile :: bt_mfile_t where
  "bt_ex_mfile =
     (let f = (\<lambda>l. \<lparr>sf_mfile_path = ''f'', sf_len = l, sf_totfile_range_precpu = file_range_null\<rparr>) in
      \<lparr>mf_infohash = replicate 20 1, mf_piecelen = 4, mf_subfile_arr = [f 5, f 0, f 4], mf_piecehash_arr = [],
       mf_do_piecehash = False, totfile_size_precpu = file_size_NONE, nb_piece_precpu = - 1, subfile_db = []\<rparr>)"

lemma bt_ex_mfile_ok:
  "\<not> mf_is_null bt_ex_mfile" "mf_total bt_ex_mfile = 9" "mf_piecelen bt_ex_mfile = 4" "\<not> mf_do_piecehash bt_ex_mfile"
  "sf_lens (mf_subfile_arr bt_ex_mfile) = [5, 0, 4]"
  by (simp_all add: bt_ex_mfile_def mf_is_null_def gen_id_is_null_def gen_id_ctor_def sf_is_null_def file_size_is_null_def
      file_size_NONE_def mf_total_def sf_lens_def)

theorem range_to_pieces_and_files_witness:
  "\<exists>mf ps vs. complete_init (\<lambda>mf. []) bt_ex_mfile = Inr mf \<and>
     totfile_range_to_prange_arr (mk_range 3 7) mf = Inr ps \<and> get_iov_arr (mk_range 3 7) mf = Inr vs \<and>
     map pr_piece_idx ps = [0, 1] \<and> concat (map (prange_bytes mf) ps) = [3, 4, 5, 6, 7] \<and>
     concat (map iov_bytes vs) = [(0, 3), (0, 4), (2, 0), (2, 1), (2, 2)]"
proof -
  have "\<exists>mf' ps vs. complete_init (\<lambda>mf. []) bt_ex_mfile = Inr mf' \<and>
    totfile_range_to_prange_arr (mk_range 3 7) mf' = Inr ps \<and> get_iov_arr (mk_range 3 7) mf' = Inr vs \<and>
    (\<forall>p\<in>set ps. prange_ok mf' p) \<and>
    map pr_piece_idx ps = [3 div unat (mf_piecelen bt_ex_mfile)..<Suc (7 div unat (mf_piecelen bt_ex_mfile))] \<and>
    concat (map (prange_bytes mf') ps) = [3..<Suc 7] \<and>
    sorted_wrt (<) (map iov_subfile_idx vs) \<and>
    concat (map iov_bytes vs) = drop 3 (take (Suc 7) (file_bytes 0 (sf_lens (mf_subfile_arr bt_ex_mfile))))"
    by (rule range_to_pieces_and_files) (simp_all add: bt_ex_mfile_ok offset_bound_val)
  moreover have "[3 div unat (mf_piecelen bt_ex_mfile)..<Suc (7 div unat (mf_piecelen bt_ex_mfile))] = [0, 1]" "[3..<Suc 7] = [3, 4, 5, 6, 7]"
    "drop 3 (take (Suc 7) (file_bytes 0 (sf_lens (mf_subfile_arr bt_ex_mfile)))) = [(0, 3), (0, 4), (2, 0), (2, 1), (2, 2)]"
    by (simp_all add: bt_ex_mfile_ok upt_rec)
  ultimately show ?thesis by auto
qed

end
