(* ===== verification/BtPselect.thy ===== *)
theory BtPselect
  imports Bitfield
begin

text \<open>
  The choice of the next piece to download: the interface \<open>bt_pselect_vapi_t\<close> and its implementation for fixed precedences
  (\<open>neoip_bt_plugin/pselect/impl/fixed\<close>).  \<open>selectable_db\<close> holds the pieces that may be chosen, by their precedence, then by how
  many peers wish them; both are \<open>std::map\<close>, the sets of pieces \<open>std::set\<close>, that is sorted lists.

  An index that is the largest \<open>size_t\<close> stands for no piece and is \<open>None\<close> here.  \<open>rand()\<close> reads the next number of a sequence that
  is handed from call to call.
\<close>

subsection \<open>State\<close>

type_synonym bt_pieceprec_t = "64 word"

definition pieceprec_NOTNEEDED :: bt_pieceprec_t where "pieceprec_NOTNEEDED = 0"
definition pieceprec_DEFAULT :: bt_pieceprec_t where "pieceprec_DEFAULT = - 1 div 2"

definition pieceprec_is_needed :: "bt_pieceprec_t \<Rightarrow> bool" where
  "pieceprec_is_needed p = (p \<noteq> pieceprec_NOTNEEDED)"

type_synonym piece_db_t = "nat list"
type_synonym goub_db_t = "(64 word \<times> piece_db_t) list"
type_synonym selectable_db_t = "(64 word \<times> goub_db_t) list"

record bt_pselect_fixed_t =
  m_remote_pfreq :: bitcount_t
  m_remote_pwish :: bitcount_t
  m_local_pdling :: bitfield_t
  m_local_pavail :: bitfield_t
  m_pieceprec_arr :: "bt_pieceprec_t list"
  selectable_db :: selectable_db_t

definition ps_nb_piece :: "bt_pselect_fixed_t \<Rightarrow> nat" where
  "ps_nb_piece st = length (m_local_pavail st)"

definition ps_pieceprec :: "nat \<Rightarrow> bt_pselect_fixed_t \<Rightarrow> bt_pieceprec_t res" where
  "ps_pieceprec i st = dbg_assert (i < length (m_pieceprec_arr st)) (Inr (m_pieceprec_arr st ! i))"

definition remote_pgoub :: "nat \<Rightarrow> bt_pselect_fixed_t \<Rightarrow> 64 word res" where
  "remote_pgoub i st = bc_get i (m_remote_pwish st)"

definition cant_select :: "nat \<Rightarrow> bt_pselect_fixed_t \<Rightarrow> bool res" where
  "cant_select i st = res_if (bf_get i (m_local_pdling st)) (Inr True) (bf_get i (m_local_pavail st))"

definition may_select :: "nat \<Rightarrow> bt_pselect_fixed_t \<Rightarrow> bool res" where
  "may_select i st = res_bind (cant_select i st) (\<lambda>c. Inr (\<not> c))"

definition has_selectable :: "bt_pselect_fixed_t \<Rightarrow> bool" where
  "has_selectable st = (selectable_db st \<noteq> [])"

subsection \<open>The pieces that may be chosen\<close>

text \<open>\<open>std::set::insert\<close>, whether it inserted, and \<open>operator[]\<close> of \<open>std::map\<close>, which creates a missing element, on the left of an
  assignment.\<close>

fun stdset_insert :: "'a::linorder \<Rightarrow> 'a list \<Rightarrow> 'a list" where
  "stdset_insert x [] = [x]"
| "stdset_insert x (y # ys) = (if x < y then x # y # ys else if x = y then y # ys else y # stdset_insert x ys)"

definition stdmap_get :: "'k::linorder \<Rightarrow> 'v \<Rightarrow> ('k \<times> 'v) list \<Rightarrow> 'v" where
  "stdmap_get k dfl m = (case map_of m k of None \<Rightarrow> dfl | Some v \<Rightarrow> v)"

definition stdmap_put :: "'k::linorder \<Rightarrow> 'v \<Rightarrow> ('k \<times> 'v) list \<Rightarrow> ('k \<times> 'v) list" where
  "stdmap_put k v m = (case map_of m k of None \<Rightarrow> stdmap_insert k v m | Some _ \<Rightarrow> stdmap_replace k v m)"

definition sel_insert :: "64 word \<Rightarrow> 64 word \<Rightarrow> nat \<Rightarrow> selectable_db_t \<Rightarrow> selectable_db_t" where
  "sel_insert prec goub i db =
     (let goub_db = stdmap_get prec [] db in
      stdmap_put prec (stdmap_put goub (stdset_insert i (stdmap_get goub [] goub_db)) goub_db) db)"

definition selectable_db_insert :: "nat \<Rightarrow> bt_pselect_fixed_t \<Rightarrow> bt_pselect_fixed_t res" where
  "selectable_db_insert i st =
     dbg_assert (i < ps_nb_piece st)
      (res_bind (may_select i st) (\<lambda>m. dbg_assert m
      (res_bind (ps_pieceprec i st) (\<lambda>prec.
        if \<not> pieceprec_is_needed prec then Inr st
        else res_bind (remote_pgoub i st) (\<lambda>goub.
          dbg_assert (i \<notin> set (stdmap_get goub [] (stdmap_get prec [] (selectable_db st))))
            (Inr (st\<lparr>selectable_db := sel_insert prec goub i (selectable_db st)\<rparr>)))))))"

definition selectable_db_delete :: "nat \<Rightarrow> bt_pselect_fixed_t \<Rightarrow> bt_pselect_fixed_t res" where
  "selectable_db_delete i st =
     dbg_assert (i < ps_nb_piece st)
      (res_bind (may_select i st) (\<lambda>m. dbg_assert m
      (res_bind (ps_pieceprec i st) (\<lambda>prec.
        if \<not> pieceprec_is_needed prec then Inr st
        else (case map_of (selectable_db st) prec of
          None \<Rightarrow> Inl Assert_failed
        | Some goub_db \<Rightarrow>
            res_bind (remote_pgoub i st) (\<lambda>goub.
              case map_of goub_db goub of
                None \<Rightarrow> Inl Assert_failed
              | Some piece_db \<Rightarrow>
                  dbg_assert (i \<in> set piece_db)
                   (let piece_db = removeAll i piece_db;
                        goub_db = (if piece_db = [] then stdmap_erase goub goub_db else stdmap_replace goub piece_db goub_db) in
                    Inr (st\<lparr>selectable_db := (if goub_db = [] then stdmap_erase prec (selectable_db st)
                                              else stdmap_replace prec goub_db (selectable_db st))\<rparr>))))))))"

subsection \<open>Updates\<close>

text \<open>\<open>upd_selectable\<close> takes one of the two bit fields, or the counters of the wishes, by reference.\<close>

datatype ps_bits = Pdling | Pavail

definition ps_bits_set :: "ps_bits \<Rightarrow> nat \<Rightarrow> bool \<Rightarrow> bt_pselect_fixed_t \<Rightarrow> bt_pselect_fixed_t res" where
  "ps_bits_set b i v st =
     (case b of
        Pdling \<Rightarrow> res_bind (bf_set i v (m_local_pdling st)) (\<lambda>f. Inr (st\<lparr>m_local_pdling := f\<rparr>))
      | Pavail \<Rightarrow> res_bind (bf_set i v (m_local_pavail st)) (\<lambda>f. Inr (st\<lparr>m_local_pavail := f\<rparr>)))"

definition upd_selectable_bit :: "ps_bits \<Rightarrow> nat \<Rightarrow> bool \<Rightarrow> bt_pselect_fixed_t \<Rightarrow> bt_pselect_fixed_t res" where
  "upd_selectable_bit b i v st =
     res_bind (res_if (may_select i st) (selectable_db_delete i st) (Inr st)) (\<lambda>st.
     res_bind (ps_bits_set b i v st) (\<lambda>st.
     res_bind (res_if (may_select i st) (selectable_db_insert i st) (Inr st)) (\<lambda>st.
     res_bind (res_if (bf_get i (m_local_pavail st)) (bf_get i (m_local_pdling st)) (Inr False)) (\<lambda>both.
       dbg_assert (\<not> both) (Inr st)))))"

definition upd_selectable_bits :: "ps_bits \<Rightarrow> bitfield_t \<Rightarrow> bool \<Rightarrow> bt_pselect_fixed_t \<Rightarrow> bt_pselect_fixed_t res" where
  "upd_selectable_bits b extfield v st =
     dbg_assert (length extfield = ps_nb_piece st)
      (for_range_res (ps_nb_piece st)
        (\<lambda>i st. res_if (bf_get i extfield) (upd_selectable_bit b i v st) (Inr st)) st)"

definition upd_selectable_count :: "nat \<Rightarrow> bool \<Rightarrow> bt_pselect_fixed_t \<Rightarrow> bt_pselect_fixed_t res" where
  "upd_selectable_count i v st =
     res_bind (res_if (may_select i st) (selectable_db_delete i st) (Inr st)) (\<lambda>st.
     res_bind (if v then bc_inc1 i (m_remote_pwish st) else bc_dec1 i (m_remote_pwish st)) (\<lambda>c.
     let st = st\<lparr>m_remote_pwish := c\<rparr> in
     res_if (may_select i st) (selectable_db_insert i st) (Inr st)))"

definition upd_selectable_counts :: "bitfield_t \<Rightarrow> bool \<Rightarrow> bt_pselect_fixed_t \<Rightarrow> bt_pselect_fixed_t res" where
  "upd_selectable_counts extfield v st =
     dbg_assert (length extfield = ps_nb_piece st)
      (for_range_res (ps_nb_piece st)
        (\<lambda>i st. res_if (bf_get i extfield) (upd_selectable_count i v st) (Inr st)) st)"

definition pieceprec_arr_set :: "bt_pieceprec_t list \<Rightarrow> bt_pselect_fixed_t \<Rightarrow> bt_pselect_fixed_t res" where
  "pieceprec_arr_set arr st =
     dbg_assert (length arr = ps_nb_piece st)
      (for_range_res (ps_nb_piece st)
        (\<lambda>i st. res_bind (ps_pieceprec i st) (\<lambda>prec. res_bind (remote_pgoub i st) (\<lambda>goub.
           res_if (cant_select i st) (Inr st)
             (if prec = pieceprec_NOTNEEDED then Inr st
              else Inr (st\<lparr>selectable_db := sel_insert prec goub i (selectable_db st)\<rparr>)))))
        (st\<lparr>m_pieceprec_arr := arr, selectable_db := []\<rparr>))"

definition pselect_ctor :: "nat \<Rightarrow> bt_pselect_fixed_t res" where
  "pselect_ctor nb_piece =
     pieceprec_arr_set (replicate nb_piece pieceprec_DEFAULT)
       \<lparr>m_remote_pfreq = bitcount_ctor nb_piece, m_remote_pwish = bitcount_ctor nb_piece,
        m_local_pdling = bitfield_ctor nb_piece, m_local_pavail = bitfield_ctor nb_piece,
        m_pieceprec_arr = [], selectable_db = []\<rparr>"

text \<open>The operations of the interface.\<close>

definition inc_remote_pfreq :: "nat \<Rightarrow> bt_pselect_fixed_t \<Rightarrow> bt_pselect_fixed_t res" where
  "inc_remote_pfreq i st = res_bind (bc_inc1 i (m_remote_pfreq st)) (\<lambda>c. Inr (st\<lparr>m_remote_pfreq := c\<rparr>))"

definition dec_remote_pfreq :: "nat \<Rightarrow> bt_pselect_fixed_t \<Rightarrow> bt_pselect_fixed_t res" where
  "dec_remote_pfreq i st = res_bind (bc_dec1 i (m_remote_pfreq st)) (\<lambda>c. Inr (st\<lparr>m_remote_pfreq := c\<rparr>))"

definition inc_remote_pfreqs :: "bitfield_t \<Rightarrow> bt_pselect_fixed_t \<Rightarrow> bt_pselect_fixed_t res" where
  "inc_remote_pfreqs b st = res_bind (bc_inc b (m_remote_pfreq st)) (\<lambda>c. Inr (st\<lparr>m_remote_pfreq := c\<rparr>))"

definition dec_remote_pfreqs :: "bitfield_t \<Rightarrow> bt_pselect_fixed_t \<Rightarrow> bt_pselect_fixed_t res" where
  "dec_remote_pfreqs b st = res_bind (bc_dec b (m_remote_pfreq st)) (\<lambda>c. Inr (st\<lparr>m_remote_pfreq := c\<rparr>))"

definition inc_remote_pwish where "inc_remote_pwish i = upd_selectable_count i True"
definition dec_remote_pwish where "dec_remote_pwish i = upd_selectable_count i False"
definition inc_remote_pwishs where "inc_remote_pwishs b = upd_selectable_counts b True"
definition dec_remote_pwishs where "dec_remote_pwishs b = upd_selectable_counts b False"
definition enter_dling where "enter_dling i = upd_selectable_bit Pdling i True"
definition leave_dling where "leave_dling i = upd_selectable_bit Pdling i False"
definition mark_isavail where "mark_isavail i = upd_selectable_bit Pavail i True"
definition mark_unavail where "mark_unavail i = upd_selectable_bit Pavail i False"
definition mark_isavails where "mark_isavails b = upd_selectable_bits Pavail b True"

definition ps_isavail :: "nat \<Rightarrow> bt_pselect_fixed_t \<Rightarrow> bool res" where
  "ps_isavail i st = bf_get i (m_local_pavail st)"

subsection \<open>The choice\<close>

type_synonym rand_t = "nat \<Rightarrow> nat"

definition rand_draw :: "rand_t \<Rightarrow> nat \<times> rand_t" where
  "rand_draw r = (r 0, \<lambda>n. r (Suc n))"

text \<open>The walk over a set from a place in it, around its end, back to the place.\<close>

fun find_remote :: "bitfield_t \<Rightarrow> nat list \<Rightarrow> nat option res" where
  "find_remote remote [] = Inr None"
| "find_remote remote (i # is) = res_if (bf_get i remote) (Inr (Some i)) (find_remote remote is)"

definition select_in_piece_db :: "bitfield_t \<Rightarrow> piece_db_t \<Rightarrow> rand_t \<Rightarrow> (nat option \<times> rand_t) res" where
  "select_in_piece_db remote piece_db r =
     (let (d, r) = rand_draw r in
      if piece_db = [] then Inl Out_of_bounds
      else let k = d mod length piece_db in
        res_bind (find_remote remote (drop k piece_db @ take k piece_db)) (\<lambda>found. Inr (found, r)))"

fun select_in_goub_db :: "bitfield_t \<Rightarrow> goub_db_t \<Rightarrow> rand_t \<Rightarrow> (nat option \<times> rand_t) res" where
  "select_in_goub_db remote [] r = Inr (None, r)"
| "select_in_goub_db remote ((goub, piece_db) # db) r =
     res_bind (select_in_piece_db remote piece_db r) (\<lambda>(found, r).
       case found of Some i \<Rightarrow> Inr (Some i, r) | None \<Rightarrow> select_in_goub_db remote db r)"

fun select_in_selectable_db :: "bitfield_t \<Rightarrow> selectable_db_t \<Rightarrow> rand_t \<Rightarrow> (nat option \<times> rand_t) res" where
  "select_in_selectable_db remote [] r = Inr (None, r)"
| "select_in_selectable_db remote ((prec, goub_db) # db) r =
     res_bind (select_in_goub_db remote (rev goub_db) r) (\<lambda>(found, r).
       case found of Some i \<Rightarrow> Inr (Some i, r) | None \<Rightarrow> select_in_selectable_db remote db r)"

definition next_piece_to_select_nohint ::
  "bitfield_t \<Rightarrow> bt_pselect_fixed_t \<Rightarrow> rand_t \<Rightarrow> (nat option \<times> rand_t) res" where
  "next_piece_to_select_nohint remote st r =
     dbg_assert (length remote = ps_nb_piece st) (select_in_selectable_db remote (rev (selectable_db st)) r)"

definition next_piece_to_select ::
  "bitfield_t \<Rightarrow> nat option \<Rightarrow> bt_pselect_fixed_t \<Rightarrow> rand_t \<Rightarrow> (nat option \<times> rand_t) res" where
  "next_piece_to_select remote hint st r =
     (case hint of
        None \<Rightarrow> next_piece_to_select_nohint remote st r
      | Some h \<Rightarrow>
          dbg_assert (h < ps_nb_piece st)
           (res_bind (next_piece_to_select_nohint remote st r) (\<lambda>(normal, r).
             case normal of
               None \<Rightarrow> Inr (None, r)
             | Some n \<Rightarrow>
                 res_if (cant_select h st) (Inr (Some n, r))
                 (res_if (res_bind (bf_get h remote) (\<lambda>a. Inr (\<not> a))) (Inr (Some n, r))
                 (res_bind (ps_pieceprec h st) (\<lambda>ph. res_bind (ps_pieceprec n st) (\<lambda>pn.
                   if ph < pn then Inr (Some n, r)
                   else res_bind (remote_pgoub h st) (\<lambda>wh. res_bind (remote_pgoub n st) (\<lambda>wn.
                     if wh < wn then Inr (Some n, r) else Inr (Some h, r)))))))))) "

subsection \<open>What \<open>selectable_db\<close> holds\<close>

definition sel_mem :: "selectable_db_t \<Rightarrow> 64 word \<Rightarrow> 64 word \<Rightarrow> nat \<Rightarrow> bool" where
  "sel_mem db p w i = (\<exists>g s. map_of db p = Some g \<and> map_of g w = Some s \<and> i \<in> set s)"

definition goub_wf :: "goub_db_t \<Rightarrow> bool" where
  "goub_wf g = (g \<noteq> [] \<and> stdmap_ok g \<and> (\<forall>w s. map_of g w = Some s \<longrightarrow> s \<noteq> [] \<and> sorted_wrt (<) s))"

definition sel_wf :: "selectable_db_t \<Rightarrow> bool" where
  "sel_wf db = (stdmap_ok db \<and> (\<forall>p g. map_of db p = Some g \<longrightarrow> goub_wf g))"

lemma stdset_insert_ok:
  "sorted_wrt (<) xs \<Longrightarrow> sorted_wrt (<) (stdset_insert x xs) \<and> set (stdset_insert x xs) = insert x (set xs)"
  by (induction x xs rule: stdset_insert.induct) auto

lemma stdset_insert_ne [simp]: "stdset_insert x xs \<noteq> []"
  by (cases xs) auto

lemma map_of_replace_present:
  assumes "map_of m k = Some u"
  shows "map_of (stdmap_replace k v m) = (map_of m)(k \<mapsto> v)"
  using map_of_SomeD[OF assms] by (auto simp: map_of_stdmap_replace image_iff intro: bexI[of _ "(k, u)"])

lemma stdmap_put_ok:
  assumes "stdmap_ok m"
  shows "stdmap_ok (stdmap_put k v m) \<and> map_of (stdmap_put k v m) = (map_of m)(k \<mapsto> v)"
proof (cases "map_of m k")
  case None
  then have "k \<notin> fst ` set m" by (simp add: map_of_eq_None_iff)
  then show ?thesis using assms None by (simp add: stdmap_put_def map_of_stdmap_insert)
next
  case (Some u)
  then show ?thesis using assms map_of_replace_present[OF Some] by (simp add: stdmap_put_def)
qed

lemma stdmap_put_ne [simp]: "stdmap_ok m \<Longrightarrow> stdmap_put k v m \<noteq> []"
  by (metis stdmap_put_ok map_of.simps(1) map_upd_Some_unfold option.distinct(1))

lemma goub_put_wf:
  assumes "g = [] \<or> goub_wf g"
  shows "goub_wf (stdmap_put w (stdset_insert i (stdmap_get w [] g)) g)"
    "map_of (stdmap_put w (stdset_insert i (stdmap_get w [] g)) g) = (map_of g)(w \<mapsto> stdset_insert i (stdmap_get w [] g))"
    "set (stdset_insert i (stdmap_get w [] g)) = insert i (set (stdmap_get w [] g))"
proof -
  have g: "stdmap_ok g" "sorted_wrt (<) (stdmap_get w [] g)"
    using assms by (auto simp: goub_wf_def stdmap_get_def split: option.splits)
  show "map_of (stdmap_put w (stdset_insert i (stdmap_get w [] g)) g) = (map_of g)(w \<mapsto> stdset_insert i (stdmap_get w [] g))"
    using stdmap_put_ok[OF g(1)] by blast
  then show "goub_wf (stdmap_put w (stdset_insert i (stdmap_get w [] g)) g)"
    using stdmap_put_ok[OF g(1)] stdset_insert_ok[OF g(2)] assms g(1) by (auto simp: goub_wf_def)
  show "set (stdset_insert i (stdmap_get w [] g)) = insert i (set (stdmap_get w [] g))"
    using stdset_insert_ok[OF g(2)] by blast
qed

lemma sel_insert_ok:
  assumes "sel_wf db"
  shows "sel_wf (sel_insert p w i db)"
    "sel_mem (sel_insert p w i db) p' w' j \<longleftrightarrow> sel_mem db p' w' j \<or> p' = p \<and> w' = w \<and> j = i"
proof -
  let ?g = "stdmap_get p [] db"
  have "?g = [] \<or> goub_wf ?g" using assms by (auto simp: sel_wf_def stdmap_get_def split: option.splits)
  note g = goub_put_wf[where w = w and i = i, OF this]
  have eq: "sel_insert p w i db = stdmap_put p (stdmap_put w (stdset_insert i (stdmap_get w [] ?g)) ?g) db"
    by (simp add: sel_insert_def Let_def)
  have db: "stdmap_ok db" using assms by (simp add: sel_wf_def)
  show "sel_wf (sel_insert p w i db)"
    using stdmap_put_ok[OF db] g(1) assms unfolding eq by (auto simp: sel_wf_def)
  show "sel_mem (sel_insert p w i db) p' w' j \<longleftrightarrow> sel_mem db p' w' j \<or> p' = p \<and> w' = w \<and> j = i"
    unfolding eq sel_mem_def using stdmap_put_ok[OF db] g(2,3) by (auto simp: stdmap_get_def split: option.splits)
qed

text \<open>The end of \<open>selectable_db_delete\<close>.\<close>

definition sel_delete :: "64 word \<Rightarrow> 64 word \<Rightarrow> nat \<Rightarrow> goub_db_t \<Rightarrow> piece_db_t \<Rightarrow> selectable_db_t \<Rightarrow> selectable_db_t" where
  "sel_delete prec goub i goub_db piece_db db =
     (let piece_db = removeAll i piece_db;
          goub_db = (if piece_db = [] then stdmap_erase goub goub_db else stdmap_replace goub piece_db goub_db) in
      if goub_db = [] then stdmap_erase prec db else stdmap_replace prec goub_db db)"

lemma sel_delete_ok:
  assumes "sel_wf db" "map_of db p = Some g" "map_of g w = Some s"
  shows "sel_wf (sel_delete p w i g s db)"
    "sel_mem (sel_delete p w i g s db) p' w' j \<longleftrightarrow> sel_mem db p' w' j \<and> \<not> (p' = p \<and> w' = w \<and> j = i)"
proof -
  have db: "stdmap_ok db" "goub_wf g" "sorted_wrt (<) s" using assms by (auto simp: sel_wf_def goub_wf_def)
  let ?s = "removeAll i s"
  have s: "sorted_wrt (<) ?s" using db(3) by (simp add: removeAll_filter_not_eq sorted_wrt_filter)
  let ?g = "if ?s = [] then stdmap_erase w g else stdmap_replace w ?s g"
  have g: "stdmap_ok ?g" "map_of ?g = (map_of g)(w := if ?s = [] then None else Some ?s)"
    using db(2) map_of_replace_present[OF assms(3)] by (auto simp: goub_wf_def map_of_stdmap_erase)
  have gw: "?g = [] \<or> goub_wf ?g" using g db(2) s by (auto simp: goub_wf_def split: if_splits)
  have gm: "(\<exists>t. map_of ?g w' = Some t \<and> j \<in> set t) \<longleftrightarrow> (\<exists>t. map_of g w' = Some t \<and> j \<in> set t) \<and> \<not> (w' = w \<and> j = i)"
    unfolding g(2) using assms(3) by (auto simp: removeAll_filter_not_eq filter_empty_conv)
  have eq: "sel_delete p w i g s db = (if ?g = [] then stdmap_erase p db else stdmap_replace p ?g db)"
    by (simp add: sel_delete_def Let_def)
  have m: "map_of (sel_delete p w i g s db) = (map_of db)(p := if ?g = [] then None else Some ?g)"
    unfolding eq using map_of_replace_present[OF assms(2)] by (simp add: map_of_stdmap_erase)
  show "sel_wf (sel_delete p w i g s db)"
    using m gw assms(1) db(1) by (auto simp: sel_wf_def eq)
  show "sel_mem (sel_delete p w i g s db) p' w' j \<longleftrightarrow> sel_mem db p' w' j \<and> \<not> (p' = p \<and> w' = w \<and> j = i)"
  proof (cases "p' = p")
    case True
    have "sel_mem (sel_delete p w i g s db) p w' j \<longleftrightarrow> (\<exists>t. map_of ?g w' = Some t \<and> j \<in> set t)"
      by (auto simp: sel_mem_def m)
    with gm show ?thesis using True assms(2) by (auto simp: sel_mem_def)
  qed (simp add: sel_mem_def m)
qed

subsection \<open>The invariant\<close>

abbreviation ps_free :: "bt_pselect_fixed_t \<Rightarrow> nat \<Rightarrow> bool" where
  "ps_free st i \<equiv> \<not> m_local_pdling st ! i \<and> \<not> m_local_pavail st ! i"

definition ps_shape :: "bt_pselect_fixed_t \<Rightarrow> bool" where
  "ps_shape st = (let n = ps_nb_piece st in length (m_remote_pfreq st) = n \<and> length (m_remote_pwish st) = n \<and>
     length (m_local_pdling st) = n \<and> length (m_pieceprec_arr st) = n \<and>
     (\<forall>i<n. \<not> (m_local_pdling st ! i \<and> m_local_pavail st ! i)))"

text \<open>\<open>selectable_db\<close> holds the free pieces that are needed and in the set \<open>X\<close>, where they belong.\<close>

definition sel_exact :: "nat set \<Rightarrow> bt_pselect_fixed_t \<Rightarrow> bool" where
  "sel_exact X st = (sel_wf (selectable_db st) \<and>
     (\<forall>p w i. sel_mem (selectable_db st) p w i \<longleftrightarrow>
        i \<in> X \<and> i < ps_nb_piece st \<and> ps_free st i \<and> p = m_pieceprec_arr st ! i \<and> p \<noteq> 0 \<and> w = m_remote_pwish st ! i))"

definition ps_inv :: "bt_pselect_fixed_t \<Rightarrow> bool" where
  "ps_inv st = (ps_shape st \<and> sel_exact UNIV st)"

lemma bits_in_range:
  assumes "i < length f"
  shows "bf_get i f = Inr (f ! i)" "bf_set i v f = Inr (f[i := v])"
  using assms by (cases f; simp add: bf_get_def bf_set_def bf_is_null_def)+

lemma count_in_range: "i < length c \<Longrightarrow> bc_get i c = Inr (c ! i)"
  by (cases c) (simp_all add: bc_get_def)

lemma ps_shapeD:
  assumes "ps_shape st" "i < ps_nb_piece st"
  shows "bf_get i (m_local_pdling st) = Inr (m_local_pdling st ! i)" "bf_get i (m_local_pavail st) = Inr (m_local_pavail st ! i)"
    "may_select i st = Inr (ps_free st i)" "cant_select i st = Inr (\<not> ps_free st i)"
    "ps_pieceprec i st = Inr (m_pieceprec_arr st ! i)" "remote_pgoub i st = Inr (m_remote_pwish st ! i)"
    "i < length (m_remote_pwish st)" "i < length (m_remote_pfreq st)"
proof -
  have l: "i < length (m_remote_pwish st)" "i < length (m_remote_pfreq st)" "i < length (m_local_pdling st)"
    "i < length (m_local_pavail st)" "i < length (m_pieceprec_arr st)"
    using assms by (auto simp: ps_shape_def ps_nb_piece_def Let_def)
  then show a: "bf_get i (m_local_pdling st) = Inr (m_local_pdling st ! i)" "bf_get i (m_local_pavail st) = Inr (m_local_pavail st ! i)"
    "ps_pieceprec i st = Inr (m_pieceprec_arr st ! i)" "remote_pgoub i st = Inr (m_remote_pwish st ! i)"
    "i < length (m_remote_pwish st)" "i < length (m_remote_pfreq st)"
    by (simp_all add: bits_in_range count_in_range ps_pieceprec_def remote_pgoub_def)
  then show "may_select i st = Inr (ps_free st i)" "cant_select i st = Inr (\<not> ps_free st i)"
    by (simp_all add: may_select_def cant_select_def)
qed

lemma sel_exact_mem:
  assumes "sel_exact X st" "i \<in> X" "i < ps_nb_piece st" "ps_free st i" "m_pieceprec_arr st ! i \<noteq> 0"
  obtains g s where "map_of (selectable_db st) (m_pieceprec_arr st ! i) = Some g" "map_of g (m_remote_pwish st ! i) = Some s" "i \<in> set s"
  using assms unfolding sel_exact_def sel_mem_def by blast

lemma take_out_ok:
  assumes "ps_shape st" "sel_exact X st" "i \<in> X" "i < ps_nb_piece st"
  shows "\<exists>db. res_if (may_select i st) (selectable_db_delete i st) (Inr st) = Inr (st\<lparr>selectable_db := db\<rparr>) \<and>
           sel_exact (X - {i}) (st\<lparr>selectable_db := db\<rparr>)"
proof (cases "ps_free st i \<and> m_pieceprec_arr st ! i \<noteq> 0")
  case True
  obtain g s where gs: "map_of (selectable_db st) (m_pieceprec_arr st ! i) = Some g"
    "map_of g (m_remote_pwish st ! i) = Some s" "i \<in> set s"
    using sel_exact_mem[OF assms(2-4)] True by blast
  let ?db = "sel_delete (m_pieceprec_arr st ! i) (m_remote_pwish st ! i) i g s (selectable_db st)"
  have "res_if (may_select i st) (selectable_db_delete i st) (Inr st) = Inr (st\<lparr>selectable_db := ?db\<rparr>)"
    using True gs ps_shapeD[OF assms(1,4)] assms(4)
    by (simp add: selectable_db_delete_def pieceprec_is_needed_def pieceprec_NOTNEEDED_def sel_delete_def Let_def)
  moreover have "sel_exact (X - {i}) (st\<lparr>selectable_db := ?db\<rparr>)"
    using sel_delete_ok[OF _ gs(1,2), of i] assms(2) by (auto simp: sel_exact_def ps_nb_piece_def)
  ultimately show ?thesis by blast
next
  case False
  then have "res_if (may_select i st) (selectable_db_delete i st) (Inr st) = Inr st"
    using ps_shapeD[OF assms(1,4)] assms(4)
    by (auto simp: selectable_db_delete_def pieceprec_is_needed_def pieceprec_NOTNEEDED_def)
  moreover have "sel_exact (X - {i}) st" using assms(2) False by (auto simp: sel_exact_def)
  ultimately show ?thesis by (intro exI[of _ "selectable_db st"]) simp
qed

lemma put_in_ok:
  assumes "ps_shape st" "sel_exact X st" "i \<notin> X" "i < ps_nb_piece st"
  shows "\<exists>db. res_if (may_select i st) (selectable_db_insert i st) (Inr st) = Inr (st\<lparr>selectable_db := db\<rparr>) \<and>
           sel_exact (insert i X) (st\<lparr>selectable_db := db\<rparr>)"
proof (cases "ps_free st i \<and> m_pieceprec_arr st ! i \<noteq> 0")
  case True
  let ?p = "m_pieceprec_arr st ! i" let ?w = "m_remote_pwish st ! i"
  let ?db = "sel_insert ?p ?w i (selectable_db st)"
  have "\<not> sel_mem (selectable_db st) ?p ?w i" using assms(2,3) by (auto simp: sel_exact_def)
  then have "i \<notin> set (stdmap_get ?w [] (stdmap_get ?p [] (selectable_db st)))"
    by (auto simp: sel_mem_def stdmap_get_def split: option.splits)
  then have "res_if (may_select i st) (selectable_db_insert i st) (Inr st) = Inr (st\<lparr>selectable_db := ?db\<rparr>)"
    using True ps_shapeD[OF assms(1,4)] assms(4)
    by (simp add: selectable_db_insert_def pieceprec_is_needed_def pieceprec_NOTNEEDED_def)
  moreover have "sel_exact (insert i X) (st\<lparr>selectable_db := ?db\<rparr>)"
    using sel_insert_ok[of "selectable_db st" ?p ?w i] assms(2,4) True by (auto simp: sel_exact_def ps_nb_piece_def)
  ultimately show ?thesis by blast
next
  case False
  then have "res_if (may_select i st) (selectable_db_insert i st) (Inr st) = Inr st"
    using ps_shapeD[OF assms(1,4)] assms(4)
    by (auto simp: selectable_db_insert_def pieceprec_is_needed_def pieceprec_NOTNEEDED_def)
  moreover have "sel_exact (insert i X) st" using assms(2,3) False by (auto simp: sel_exact_def)
  ultimately show ?thesis by (intro exI[of _ "selectable_db st"]) simp
qed

text \<open>Changing what is known of a piece that is not in \<open>selectable_db\<close> keeps the rest exact.\<close>

lemma sel_exact_cong:
  assumes "sel_exact X st" "selectable_db st' = selectable_db st" "ps_nb_piece st' = ps_nb_piece st"
    "\<And>j. j \<in> X \<Longrightarrow> j < ps_nb_piece st \<Longrightarrow> ps_free st' j = ps_free st j \<and> m_pieceprec_arr st' ! j = m_pieceprec_arr st ! j \<and>
       m_remote_pwish st' ! j = m_remote_pwish st ! j"
  shows "sel_exact X st'"
  using assms unfolding sel_exact_def by (metis (no_types, lifting))

definition ps_bits_of :: "ps_bits \<Rightarrow> bt_pselect_fixed_t \<Rightarrow> bitfield_t" where
  "ps_bits_of b st = (case b of Pdling \<Rightarrow> m_local_pdling st | Pavail \<Rightarrow> m_local_pavail st)"

definition ps_bits_upd :: "ps_bits \<Rightarrow> nat \<Rightarrow> bool \<Rightarrow> bt_pselect_fixed_t \<Rightarrow> bt_pselect_fixed_t" where
  "ps_bits_upd b i v st =
     (case b of Pdling \<Rightarrow> st\<lparr>m_local_pdling := (m_local_pdling st)[i := v]\<rparr> | Pavail \<Rightarrow> st\<lparr>m_local_pavail := (m_local_pavail st)[i := v]\<rparr>)"

abbreviation other_bits :: "ps_bits \<Rightarrow> ps_bits" where
  "other_bits b \<equiv> (case b of Pdling \<Rightarrow> Pavail | Pavail \<Rightarrow> Pdling)"

lemma ps_bits_set_ok:
  "ps_shape st \<Longrightarrow> i < ps_nb_piece st \<Longrightarrow> ps_bits_set b i v st = Inr (ps_bits_upd b i v st)"
  by (cases b) (simp_all add: ps_bits_set_def ps_bits_upd_def bits_in_range ps_shape_def ps_nb_piece_def Let_def)

lemma ps_bits_upd_shape:
  assumes "ps_shape st" "i < ps_nb_piece st" "v \<longrightarrow> \<not> ps_bits_of (other_bits b) st ! i"
  shows "ps_shape (ps_bits_upd b i v st)" "ps_nb_piece (ps_bits_upd b i v st) = ps_nb_piece st"
  using assms by (cases b; auto simp: ps_shape_def ps_nb_piece_def ps_bits_upd_def ps_bits_of_def Let_def nth_list_update)+

lemma upd_bit_ok:
  assumes "ps_inv st" "i < ps_nb_piece st" "v \<longrightarrow> \<not> ps_bits_of (other_bits b) st ! i"
  shows "\<exists>db. upd_selectable_bit b i v st = Inr ((ps_bits_upd b i v st)\<lparr>selectable_db := db\<rparr>) \<and>
           ps_inv ((ps_bits_upd b i v st)\<lparr>selectable_db := db\<rparr>)"
proof -
  have sh: "ps_shape st" "sel_exact UNIV st" using assms(1) by (auto simp: ps_inv_def)
  obtain db1 where 1: "res_if (may_select i st) (selectable_db_delete i st) (Inr st) = Inr (st\<lparr>selectable_db := db1\<rparr>)"
    "sel_exact (UNIV - {i}) (st\<lparr>selectable_db := db1\<rparr>)"
    using take_out_ok[OF sh _ assms(2)] by auto
  let ?s1 = "st\<lparr>selectable_db := db1\<rparr>"
  have s1: "ps_shape ?s1" "i < ps_nb_piece ?s1" "v \<longrightarrow> \<not> ps_bits_of (other_bits b) ?s1 ! i"
    using sh(1) assms(2,3) by (cases b; simp add: ps_shape_def ps_nb_piece_def Let_def ps_bits_of_def)+
  let ?s2 = "ps_bits_upd b i v ?s1"
  note 2 = ps_bits_upd_shape[OF s1]
  have a2: "sel_exact (UNIV - {i}) ?s2" "i \<notin> UNIV - {i}" "i < ps_nb_piece ?s2"
    using s1(2) 2(2) by (auto intro!: sel_exact_cong[OF 1(2)]; cases b; auto simp: ps_bits_upd_def ps_nb_piece_def)+
  obtain db3 where 3: "res_if (may_select i ?s2) (selectable_db_insert i ?s2) (Inr ?s2) = Inr (?s2\<lparr>selectable_db := db3\<rparr>)"
    "sel_exact (insert i (UNIV - {i})) (?s2\<lparr>selectable_db := db3\<rparr>)"
    using put_in_ok[OF 2(1) a2] by blast
  let ?s3 = "?s2\<lparr>selectable_db := db3\<rparr>"
  have eq: "?s3 = (ps_bits_upd b i v st)\<lparr>selectable_db := db3\<rparr>" by (cases b) (simp_all add: ps_bits_upd_def)
  have s3: "ps_shape ?s3" "i < ps_nb_piece ?s3" using 2 s1(2) by (simp_all add: ps_shape_def ps_nb_piece_def Let_def)
  then have "\<not> (m_local_pavail ?s3 ! i \<and> m_local_pdling ?s3 ! i)" by (auto simp: ps_shape_def Let_def)
  then have "upd_selectable_bit b i v st = Inr ?s3"
    using 1(1) ps_bits_set_ok[OF s1(1,2)] 3(1) ps_shapeD[OF s3] by (auto simp: upd_selectable_bit_def)
  moreover have "insert i (UNIV - {i}) = UNIV" by auto
  ultimately show ?thesis using eq s3(1) 3(2) by (metis ps_inv_def)
qed

lemma upd_count_ok:
  assumes "ps_inv st" "i < ps_nb_piece st" "\<not> v \<longrightarrow> m_remote_pwish st ! i > 0"
  shows "\<exists>db. let c = m_remote_pwish st ! i; st' = st\<lparr>m_remote_pwish := (m_remote_pwish st)[i := if v then c + 1 else c - 1], selectable_db := db\<rparr> in
           upd_selectable_count i v st = Inr st' \<and> ps_inv st'"
proof -
  have sh: "ps_shape st" "sel_exact UNIV st" using assms(1) by (auto simp: ps_inv_def)
  obtain db1 where 1: "res_if (may_select i st) (selectable_db_delete i st) (Inr st) = Inr (st\<lparr>selectable_db := db1\<rparr>)"
    "sel_exact (UNIV - {i}) (st\<lparr>selectable_db := db1\<rparr>)"
    using take_out_ok[OF sh _ assms(2)] by auto
  let ?w = "(m_remote_pwish st)[i := if v then m_remote_pwish st ! i + 1 else m_remote_pwish st ! i - 1]"
  let ?s2 = "st\<lparr>selectable_db := db1, m_remote_pwish := ?w\<rparr>"
  have 2: "ps_shape ?s2" "i < ps_nb_piece ?s2" using sh(1) assms(2) by (simp_all add: ps_shape_def ps_nb_piece_def Let_def)
  have a2: "sel_exact (UNIV - {i}) ?s2" by (rule sel_exact_cong[OF 1(2)]) (auto simp: ps_nb_piece_def)
  have ni: "i \<notin> UNIV - {i}" by simp
  obtain db3 where 3: "res_if (may_select i ?s2) (selectable_db_insert i ?s2) (Inr ?s2) = Inr (?s2\<lparr>selectable_db := db3\<rparr>)"
    "sel_exact (insert i (UNIV - {i})) (?s2\<lparr>selectable_db := db3\<rparr>)"
    using put_in_ok[OF 2(1) a2 ni 2(2)] by blast
  have "(if v then bc_inc1 i (m_remote_pwish st) else bc_dec1 i (m_remote_pwish st)) = Inr ?w"
    using assms(3) ps_shapeD(7)[OF sh(1) assms(2)] by (simp add: bc_inc1_def bc_dec1_def)
  then have "upd_selectable_count i v st = Inr (?s2\<lparr>selectable_db := db3\<rparr>)"
    using 1(1) 3(1) by (cases v) (simp_all add: upd_selectable_count_def Let_def)
  moreover have "ps_inv (?s2\<lparr>selectable_db := db3\<rparr>)"
  proof -
    have "insert i (UNIV - {i}) = UNIV" by auto
    then show ?thesis using 2(1) 3(2) by (simp add: ps_inv_def ps_shape_def ps_nb_piece_def Let_def)
  qed
  ultimately show ?thesis by (intro exI[of _ db3]) (simp add: Let_def)
qed


subsection \<open>Loops over the pieces, the precedences and the constructor\<close>

lemma for_range_res_inv:
  assumes "I 0 s" "\<And>i s. i < n \<Longrightarrow> I i s \<Longrightarrow> \<exists>s'. f i s = Inr s' \<and> I (Suc i) s'"
  shows "\<exists>s'. for_range_res n f s = Inr s' \<and> I n s'"
  using assms
proof (induction n)
  case (Suc n)
  then obtain s' where "for_range_res n f s = Inr s'" "I n s'" by (metis less_Suc_eq)
  then show ?case using Suc.prems(2)[of n s'] by simp
qed simp

lemma pieceprec_arr_set_ok:
  assumes "ps_shape (st\<lparr>m_pieceprec_arr := arr\<rparr>)"
  shows "\<exists>db. pieceprec_arr_set arr st = Inr (st\<lparr>m_pieceprec_arr := arr, selectable_db := db\<rparr>) \<and>
           ps_inv (st\<lparr>m_pieceprec_arr := arr, selectable_db := db\<rparr>)"
proof -
  let ?n = "ps_nb_piece st"
  let ?s = "\<lambda>db. st\<lparr>m_pieceprec_arr := arr, selectable_db := db\<rparr>"
  let ?f = "\<lambda>i st. res_bind (ps_pieceprec i st) (\<lambda>prec. res_bind (remote_pgoub i st) (\<lambda>goub.
           res_if (cant_select i st) (Inr st)
             (if prec = pieceprec_NOTNEEDED then Inr st
              else Inr (st\<lparr>selectable_db := sel_insert prec goub i (selectable_db st)\<rparr>))))"
  have sh: "ps_shape (?s db)" "ps_nb_piece (?s db) = ?n" for db using assms by (simp_all add: ps_shape_def ps_nb_piece_def Let_def)
  have "\<exists>s'. for_range_res ?n ?f (?s []) = Inr s' \<and> (\<exists>db. s' = ?s db \<and> sel_exact {..<?n} (?s db))"
  proof (rule for_range_res_inv[where I = "\<lambda>i s. \<exists>db. s = ?s db \<and> sel_exact {..<i} (?s db)"])
    show "\<exists>db. ?s [] = ?s db \<and> sel_exact {..<0} (?s db)"
      by (intro exI[of _ "[]"]) (simp add: sel_exact_def sel_wf_def sel_mem_def)
  next
    fix i s assume i: "i < ?n" and "\<exists>db. s = ?s db \<and> sel_exact {..<i} (?s db)"
    then obtain db where s: "s = ?s db" and ex: "sel_exact {..<i} (?s db)" by blast
    note D = ps_shapeD[OF sh(1)[of db], of i]
    have i': "i < ps_nb_piece (?s db)" using i sh(2) by simp
    show "\<exists>s'. ?f i s = Inr s' \<and> (\<exists>db. s' = ?s db \<and> sel_exact {..<Suc i} (?s db))"
    proof (cases "ps_free st i \<and> arr ! i \<noteq> 0")
      case True
      let ?db = "sel_insert (arr ! i) (m_remote_pwish st ! i) i db"
      have "?f i s = Inr (?s ?db)" using D[OF i'] True unfolding s by (simp add: pieceprec_NOTNEEDED_def)
      moreover have "sel_exact {..<Suc i} (?s ?db)"
        using sel_insert_ok[of db "arr ! i" "m_remote_pwish st ! i" i] ex True i by (auto simp: sel_exact_def ps_nb_piece_def less_Suc_eq)
      ultimately show ?thesis by blast
    next
      case False
      then have "?f i s = Inr (?s db)" using D[OF i'] unfolding s by (auto simp: pieceprec_NOTNEEDED_def)
      moreover have "sel_exact {..<Suc i} (?s db)" using ex False by (auto simp: sel_exact_def less_Suc_eq)
      ultimately show ?thesis by blast
    qed
  qed
  then obtain db where db: "for_range_res ?n ?f (?s []) = Inr (?s db)" "sel_exact {..<?n} (?s db)" by blast
  have "sel_exact UNIV (?s db)" using db(2) sh(2)[of db] by (auto simp: sel_exact_def)
  moreover have "length arr = ?n" using assms by (simp add: ps_shape_def ps_nb_piece_def Let_def)
  ultimately show ?thesis using db(1) sh(1)[of db] by (intro exI[of _ db]) (simp add: pieceprec_arr_set_def ps_inv_def)
qed

lemma pselect_ctor_ok:
  "\<exists>st. pselect_ctor n = Inr st \<and> ps_inv st \<and> ps_nb_piece st = n \<and> m_pieceprec_arr st = replicate n pieceprec_DEFAULT \<and>
     m_local_pdling st = replicate n False \<and> m_local_pavail st = replicate n False \<and>
     m_remote_pwish st = replicate n 0 \<and> m_remote_pfreq st = replicate n 0"
proof -
  let ?s = "\<lparr>m_remote_pfreq = bitcount_ctor n, m_remote_pwish = bitcount_ctor n, m_local_pdling = bitfield_ctor n,
    m_local_pavail = bitfield_ctor n, m_pieceprec_arr = [], selectable_db = []\<rparr>"
  have "ps_shape (?s\<lparr>m_pieceprec_arr := replicate n pieceprec_DEFAULT\<rparr>)"
    by (simp add: ps_shape_def ps_nb_piece_def Let_def bitcount_ctor_def bitfield_ctor_def)
  from pieceprec_arr_set_ok[OF this] show ?thesis
    by (auto simp: pselect_ctor_def ps_nb_piece_def bitcount_ctor_def bitfield_ctor_def)
qed

subsection \<open>The choice\<close>

lemma find_remote_eq:
  "\<forall>i\<in>set is. i < length remote \<Longrightarrow> find_remote remote is = Inr (find (\<lambda>i. remote ! i) is)"
  by (induction "is") (auto simp: bits_in_range)

lemma select_in_piece_db_ok:
  assumes "s \<noteq> []" "\<forall>i\<in>set s. i < length remote"
  shows "\<exists>found r'. select_in_piece_db remote s r = Inr (found, r') \<and> (found = None \<longleftrightarrow> (\<forall>i\<in>set s. \<not> remote ! i)) \<and>
           (\<forall>i. found = Some i \<longrightarrow> i \<in> set s \<and> remote ! i)"
proof -
  obtain d r' where r: "rand_draw r = (d, r')" by fastforce
  define l where "l = drop (d mod length s) s @ take (d mod length s) s"
  have l: "set l = set s" unfolding l_def by (metis Un_commute append_take_drop_id set_append)
  obtain found where f: "find (\<lambda>i. remote ! i) l = found" by blast
  have "find_remote remote l = Inr found" using find_remote_eq[of l remote] assms(2) l f by simp
  then have "select_in_piece_db remote s r = Inr (found, r')"
    using assms(1) by (simp add: select_in_piece_db_def r l_def Let_def)
  moreover have "found = None \<longleftrightarrow> (\<forall>i\<in>set s. \<not> remote ! i)" using f l by (metis find_None_iff)
  moreover have "found = Some i \<Longrightarrow> i \<in> set s \<and> remote ! i" for i using f l by (metis find_Some_iff nth_mem)
  ultimately show ?thesis by blast
qed

text \<open>A walk over a list of groups takes a piece of the first group that has one.\<close>

lemma select_in_goub_db_ok:
  assumes "\<forall>(w, s)\<in>set g. s \<noteq> [] \<and> (\<forall>i\<in>set s. i < length remote)"
  shows "\<exists>found r'. select_in_goub_db remote g r = Inr (found, r') \<and>
           (found = None \<longleftrightarrow> (\<forall>(w, s)\<in>set g. \<forall>i\<in>set s. \<not> remote ! i)) \<and>
           (\<forall>i. found = Some i \<longrightarrow> (\<exists>xs w s ys. g = xs @ (w, s) # ys \<and> i \<in> set s \<and> remote ! i \<and>
              (\<forall>(w, s)\<in>set xs. \<forall>i\<in>set s. \<not> remote ! i)))"
  using assms
proof (induction g arbitrary: r)
  case (Cons ws g)
  obtain w s where ws: "ws = (w, s)" by fastforce
  obtain found r' where 1: "select_in_piece_db remote s r = Inr (found, r')" "found = None \<longleftrightarrow> (\<forall>i\<in>set s. \<not> remote ! i)"
    "\<forall>i. found = Some i \<longrightarrow> i \<in> set s \<and> remote ! i"
    using select_in_piece_db_ok[of s remote r] Cons.prems ws by auto
  show ?case
  proof (cases found)
    case (Some i)
    have "\<exists>xs w' s' ys. ws # g = xs @ (w', s') # ys \<and> i \<in> set s' \<and> remote ! i \<and> (\<forall>(w, s)\<in>set xs. \<forall>i\<in>set s. \<not> remote ! i)"
      using 1(3) Some ws by (intro exI[of _ "[]"]) auto
    then show ?thesis using 1 Some ws by auto
  next
    case None
    have pr: "\<forall>(w, s)\<in>set g. s \<noteq> [] \<and> (\<forall>i\<in>set s. i < length remote)" using Cons.prems by simp
    obtain found' r'' where 2: "select_in_goub_db remote g r' = Inr (found', r'')"
      "found' = None \<longleftrightarrow> (\<forall>(w, s)\<in>set g. \<forall>i\<in>set s. \<not> remote ! i)"
      "\<forall>i. found' = Some i \<longrightarrow> (\<exists>xs w s ys. g = xs @ (w, s) # ys \<and> i \<in> set s \<and> remote ! i \<and> (\<forall>(w, s)\<in>set xs. \<forall>i\<in>set s. \<not> remote ! i))"
      using Cons.IH[OF pr, of r'] by blast
    have n: "\<forall>i\<in>set s. \<not> remote ! i" using 1(2) None by simp
    have "\<exists>xs w' s' ys. ws # g = xs @ (w', s') # ys \<and> i \<in> set s' \<and> remote ! i \<and> (\<forall>(w, s)\<in>set xs. \<forall>i\<in>set s. \<not> remote ! i)"
      if found: "found' = Some i" for i
    proof -
      obtain xs w' s' ys where "g = xs @ (w', s') # ys" "i \<in> set s'" "remote ! i" "\<forall>(w, s)\<in>set xs. \<forall>i\<in>set s. \<not> remote ! i"
        using 2(3) found by blast
      then show ?thesis using n ws by (intro exI[of _ "ws # xs"] exI[of _ w'] exI[of _ s'] exI[of _ ys]) auto
    qed
    then show ?thesis using 1(1) 2(1,2) n None ws by auto
  qed
qed simp


text \<open>The list has no piece the peer has; a piece it has is in the first group of the first precedence with one.\<close>

definition sel_no_hit :: "bitfield_t \<Rightarrow> selectable_db_t \<Rightarrow> bool" where
  "sel_no_hit remote db = (\<forall>(p, g)\<in>set db. \<forall>(w, s)\<in>set g. \<forall>i\<in>set s. \<not> remote ! i)"

definition sel_first_hit :: "bitfield_t \<Rightarrow> selectable_db_t \<Rightarrow> nat \<Rightarrow> bool" where
  "sel_first_hit remote db i = (\<exists>xs p g ys us w s vs. db = xs @ (p, g) # ys \<and> rev g = us @ (w, s) # vs \<and> i \<in> set s \<and> remote ! i \<and>
     (\<forall>(w, s)\<in>set us. \<forall>i\<in>set s. \<not> remote ! i) \<and> sel_no_hit remote xs)"

definition sel_walkable :: "bitfield_t \<Rightarrow> selectable_db_t \<Rightarrow> bool" where
  "sel_walkable remote db = (\<forall>(p, g)\<in>set db. \<forall>(w, s)\<in>set g. s \<noteq> [] \<and> (\<forall>i\<in>set s. i < length remote))"

lemma sel_first_hit_Cons:
  "sel_first_hit remote db i \<Longrightarrow> sel_no_hit remote [pg] \<Longrightarrow> sel_first_hit remote (pg # db) i"
  unfolding sel_first_hit_def
proof (elim exE conjE)
  fix xs p g ys us w s vs
  assume a: "db = xs @ (p, g) # ys" "rev g = us @ (w, s) # vs" "i \<in> set s" "remote ! i"
    "\<forall>(w, s)\<in>set us. \<forall>i\<in>set s. \<not> remote ! i" "sel_no_hit remote xs" and n: "sel_no_hit remote [pg]"
  have "pg # db = (pg # xs) @ (p, g) # ys" "sel_no_hit remote (pg # xs)" using a(1,6) n by (simp_all add: sel_no_hit_def)
  then show "\<exists>xs p g ys us w s vs. pg # db = xs @ (p, g) # ys \<and> rev g = us @ (w, s) # vs \<and> i \<in> set s \<and> remote ! i \<and>
     (\<forall>(w, s)\<in>set us. \<forall>i\<in>set s. \<not> remote ! i) \<and> sel_no_hit remote xs" using a(2-5) by blast
qed

lemma select_in_selectable_db_ok:
  assumes "sel_walkable remote db"
  shows "\<exists>found r'. select_in_selectable_db remote db r = Inr (found, r') \<and>
           (found = None \<longleftrightarrow> sel_no_hit remote db) \<and> (\<forall>i. found = Some i \<longrightarrow> sel_first_hit remote db i)"
  using assms
proof (induction db arbitrary: r)
  case Nil
  then show ?case by (simp add: sel_no_hit_def)
next
  case (Cons pg db)
  obtain p g where pg: "pg = (p, g)" by fastforce
  have prem: "\<forall>(w, s)\<in>set (rev g). s \<noteq> [] \<and> (\<forall>i\<in>set s. i < length remote)" "sel_walkable remote db"
    using Cons.prems pg by (auto simp: sel_walkable_def)
  obtain found r' where 1: "select_in_goub_db remote (rev g) r = Inr (found, r')"
    "found = None \<longleftrightarrow> (\<forall>(w, s)\<in>set (rev g). \<forall>i\<in>set s. \<not> remote ! i)"
    "\<forall>i. found = Some i \<longrightarrow> (\<exists>xs w s ys. rev g = xs @ (w, s) # ys \<and> i \<in> set s \<and> remote ! i \<and> (\<forall>(w, s)\<in>set xs. \<forall>i\<in>set s. \<not> remote ! i))"
    using select_in_goub_db_ok[OF prem(1), of r] by blast
  have hit: "found = None \<longleftrightarrow> sel_no_hit remote [pg]" using 1(2) pg by (simp add: sel_no_hit_def)
  have split: "sel_no_hit remote (pg # db) \<longleftrightarrow> sel_no_hit remote [pg] \<and> sel_no_hit remote db" by (simp add: sel_no_hit_def)
  show ?case
  proof (cases found)
    case (Some i)
    obtain us w s vs where u: "rev g = us @ (w, s) # vs" "i \<in> set s" "remote ! i" "\<forall>(w, s)\<in>set us. \<forall>i\<in>set s. \<not> remote ! i"
      using 1(3) Some by blast
    have "sel_first_hit remote (pg # db) i" unfolding sel_first_hit_def
      using u pg by (intro exI[of _ "[]"] exI[of _ p] exI[of _ g] exI[of _ db] exI[of _ us] exI[of _ w] exI[of _ s] exI[of _ vs])
        (simp add: sel_no_hit_def)
    then show ?thesis using 1(1) Some pg hit split by simp
  next
    case None
    obtain found' r'' where 2: "select_in_selectable_db remote db r' = Inr (found', r'')" "found' = None \<longleftrightarrow> sel_no_hit remote db"
      "\<forall>i. found' = Some i \<longrightarrow> sel_first_hit remote db i"
      using Cons.IH[OF prem(2), of r'] by blast
    have "select_in_selectable_db remote (pg # db) r = Inr (found', r'')" using 1(1) 2(1) None pg by simp
    moreover have "found' = None \<longleftrightarrow> sel_no_hit remote (pg # db)" using 2(2) hit None split by simp
    ultimately show ?thesis using 2(3) sel_first_hit_Cons hit None by blast
  qed
qed

text \<open>The pieces that may be asked of a peer, and the order of their importance.\<close>

definition ps_cand :: "bitfield_t \<Rightarrow> bt_pselect_fixed_t \<Rightarrow> nat \<Rightarrow> bool" where
  "ps_cand remote st i = (i < ps_nb_piece st \<and> remote ! i \<and> ps_free st i \<and> m_pieceprec_arr st ! i \<noteq> 0)"

definition ps_better :: "bt_pselect_fixed_t \<Rightarrow> nat \<Rightarrow> nat \<Rightarrow> bool" where
  "ps_better st i j = (m_pieceprec_arr st ! j < m_pieceprec_arr st ! i \<or>
     m_pieceprec_arr st ! j = m_pieceprec_arr st ! i \<and> m_remote_pwish st ! j < m_remote_pwish st ! i)"

lemma sel_mem_iff_set:
  assumes "sel_wf db"
  shows "sel_mem db p w i \<longleftrightarrow> (\<exists>g s. (p, g) \<in> set db \<and> (w, s) \<in> set g \<and> i \<in> set s)"
proof -
  have d: "distinct (map fst db)" using assms by (simp add: sel_wf_def stdmap_ok_def strict_sorted_iff)
  have g: "distinct (map fst g)" if "(p, g) \<in> set db" for p g
    using assms that map_of_is_SomeI[OF d that] by (auto simp: sel_wf_def goub_wf_def stdmap_ok_def strict_sorted_iff)
  show ?thesis unfolding sel_mem_def using d g by (metis map_of_SomeD map_of_is_SomeI)
qed


lemma sorted_before:
  assumes "sorted_wrt (<) (map fst m)" "rev m = xs @ (k, v) # ys" "(k', v') \<in> set m" "k < (k' :: 'k :: linorder)"
  shows "(k', v') \<in> set xs"
proof -
  have "m = rev ys @ (k, v) # rev xs" using assms(2) by (metis rev_append rev_rev_ident rev.simps(2) append_assoc append_Cons append_Nil)
  then show ?thesis using assms(1,3,4) by (auto simp: sorted_wrt_append dest!: bspec)
qed

lemma ps_better_antisym:
  "\<not> ps_better st i j \<Longrightarrow> \<not> ps_better st j i \<Longrightarrow>
     m_pieceprec_arr st ! i = m_pieceprec_arr st ! j \<and> m_remote_pwish st ! i = m_remote_pwish st ! j"
  by (auto simp: ps_better_def not_less)

lemma ps_better_trans:
  "\<not> ps_better st j n \<Longrightarrow> m_pieceprec_arr st ! n \<le> m_pieceprec_arr st ! h \<Longrightarrow> m_remote_pwish st ! n \<le> m_remote_pwish st ! h \<Longrightarrow>
     \<not> ps_better st j h"
  by (auto simp: ps_better_def)

lemma nohint_ok:
  assumes "ps_inv st" "length remote = ps_nb_piece st"
  shows "\<exists>found r'. next_piece_to_select_nohint remote st r = Inr (found, r') \<and> (found = None \<longleftrightarrow> (\<forall>i. \<not> ps_cand remote st i)) \<and>
           (\<forall>i. found = Some i \<longrightarrow> ps_cand remote st i \<and> (\<forall>j. ps_cand remote st j \<longrightarrow> \<not> ps_better st j i))"
proof -
  let ?db = "selectable_db st"
  have wf: "sel_wf ?db" and ex: "\<And>p w i. sel_mem ?db p w i \<longleftrightarrow>
      i < ps_nb_piece st \<and> ps_free st i \<and> p = m_pieceprec_arr st ! i \<and> p \<noteq> 0 \<and> w = m_remote_pwish st ! i"
    using assms(1) by (auto simp: ps_inv_def sel_exact_def)
  have cand: "ps_cand remote st i \<longleftrightarrow> remote ! i \<and> (\<exists>p w. sel_mem ?db p w i)" for i by (auto simp: ps_cand_def ex)
  note mem = sel_mem_iff_set[OF wf]
  have so: "sorted_wrt (<) (map fst ?db)" using wf by (simp add: sel_wf_def stdmap_ok_def)
  have d: "distinct (map fst ?db)" using so by (simp add: strict_sorted_iff)
  have gw: "goub_wf g" if "(p, g) \<in> set ?db" for p g using wf map_of_is_SomeI[OF d that] by (auto simp: sel_wf_def)
  have sw: "s \<noteq> []" if "(p, g) \<in> set ?db" "(w, s) \<in> set g" for p g w s
    using gw[OF that(1)] that(2) by (metis goub_wf_def stdmap_ok_def strict_sorted_iff map_of_is_SomeI)
  have lt: "i < length remote" if "(p, g) \<in> set ?db" "(w, s) \<in> set g" "i \<in> set s" for p g w s i
    using that mem[of p w i] ex[of p w i] assms(2) by auto
  have prem: "sel_walkable remote (rev ?db)" using sw lt by (auto simp: sel_walkable_def)
  obtain found r' where f: "select_in_selectable_db remote (rev ?db) r = Inr (found, r')"
    "found = None \<longleftrightarrow> sel_no_hit remote (rev ?db)" "\<forall>i. found = Some i \<longrightarrow> sel_first_hit remote (rev ?db) i"
    using select_in_selectable_db_ok[OF prem, of r] by blast
  have "found = None \<longleftrightarrow> (\<forall>i. \<not> ps_cand remote st i)" unfolding f(2) cand mem by (fastforce simp: sel_no_hit_def)
  moreover have "ps_cand remote st i \<and> (\<forall>j. ps_cand remote st j \<longrightarrow> \<not> ps_better st j i)" if found: "found = Some i" for i
  proof -
    obtain xs p g ys us w s vs where x: "rev ?db = xs @ (p, g) # ys" "rev g = us @ (w, s) # vs" "i \<in> set s" "remote ! i"
      "\<forall>(w, s)\<in>set us. \<forall>i\<in>set s. \<not> remote ! i" "sel_no_hit remote xs"
      using f(3) found unfolding sel_first_hit_def by blast
    have pg: "(p, g) \<in> set ?db" "(w, s) \<in> set g" using x(1,2) by (metis in_set_conv_decomp set_rev)+
    then have i: "sel_mem ?db p w i" using mem x(3) by blast
    then have pw: "p = m_pieceprec_arr st ! i" "w = m_remote_pwish st ! i" using ex by blast+
    have "\<not> ps_better st j i" if j: "ps_cand remote st j" for j
    proof
      assume b: "ps_better st j i"
      obtain p' w' g' s' where j': "(p', g') \<in> set ?db" "(w', s') \<in> set g'" "j \<in> set s'" "p' = m_pieceprec_arr st ! j" "w' = m_remote_pwish st ! j"
      proof -
        obtain p' w' where m: "sel_mem ?db p' w' j" using j cand by blast
        then obtain g' s' where "(p', g') \<in> set ?db" "(w', s') \<in> set g'" "j \<in> set s'" unfolding mem by blast
        moreover have "p' = m_pieceprec_arr st ! j" "w' = m_remote_pwish st ! j" using m ex by blast+
        ultimately show ?thesis using that by blast
      qed
      have rj: "remote ! j" using j by (simp add: ps_cand_def)
      show False
      proof (cases "p < p'")
        case True
        then have "(p', g') \<in> set xs" using sorted_before[OF so x(1) j'(1)] by blast
        then show False using x(6) j'(2,3) rj by (fastforce simp: sel_no_hit_def)
      next
        case False
        then have "p' = p" "w < w'" using b j'(4,5) pw by (auto simp: ps_better_def)
        then have "g' = g" using d pg(1) j'(1) by (metis map_of_is_SomeI option.inject)
        then have "(w', s') \<in> set us"
          using sorted_before[OF _ x(2), of w' s'] gw[OF pg(1)] j'(2) \<open>w < w'\<close> by (simp add: goub_wf_def stdmap_ok_def)
        then show False using x(5) j'(3) rj by fastforce
      qed
    qed
    moreover have "ps_cand remote st i" using i x(4) cand by blast
    ultimately show ?thesis by blast
  qed
  ultimately show ?thesis using f(1) assms(2) by (auto simp: next_piece_to_select_nohint_def)
qed

lemma next_piece_ok:
  assumes "ps_inv st" "length remote = ps_nb_piece st" "\<forall>h. hint = Some h \<longrightarrow> h < ps_nb_piece st"
  shows "\<exists>found r'. next_piece_to_select remote hint st r = Inr (found, r') \<and> (found = None \<longleftrightarrow> (\<forall>i. \<not> ps_cand remote st i)) \<and>
           (\<forall>i. found = Some i \<longrightarrow> ps_cand remote st i \<and> (\<forall>j. ps_cand remote st j \<longrightarrow> \<not> ps_better st j i)) \<and>
           (\<forall>h. hint = Some h \<and> ps_cand remote st h \<and> (\<forall>j. ps_cand remote st j \<longrightarrow> \<not> ps_better st j h) \<longrightarrow> found = Some h)"
proof -
  obtain found r' where f: "next_piece_to_select_nohint remote st r = Inr (found, r')"
    "found = None \<longleftrightarrow> (\<forall>i. \<not> ps_cand remote st i)"
    "\<forall>i. found = Some i \<longrightarrow> ps_cand remote st i \<and> (\<forall>j. ps_cand remote st j \<longrightarrow> \<not> ps_better st j i)"
    using nohint_ok[OF assms(1,2), of r] by blast
  show ?thesis
  proof (cases "hint = None \<or> found = None")
    case True
    then have "next_piece_to_select remote hint st r = Inr (found, r')"
      using f(1) assms(3) by (auto simp: next_piece_to_select_def split: option.splits)
    then show ?thesis using f(2,3) True by fastforce
  next
    case False
    then obtain h n where h: "hint = Some h" "found = Some n" by auto
    have n: "ps_cand remote st n" "\<forall>j. ps_cand remote st j \<longrightarrow> \<not> ps_better st j n" using f(3) h(2) by blast+
    have sh: "ps_shape st" "h < ps_nb_piece st" "n < ps_nb_piece st" "h < length remote"
      using assms h n(1) by (auto simp: ps_inv_def ps_cand_def)
    note D = ps_shapeD[OF sh(1,2)] ps_shapeD[OF sh(1,3)] bits_in_range(1)[OF sh(4)]
    define keep where "keep = (ps_free st h \<and> remote ! h \<and> \<not> m_pieceprec_arr st ! h < m_pieceprec_arr st ! n \<and>
      \<not> m_remote_pwish st ! h < m_remote_pwish st ! n)"
    have eq: "next_piece_to_select remote hint st r = Inr (Some (if keep then h else n), r')"
      using f(1) h sh(2) D by (simp add: next_piece_to_select_def keep_def)
    have p: "m_pieceprec_arr st ! n \<noteq> 0" using n(1) by (simp add: ps_cand_def)
    have 1: "ps_cand remote st h" if keep
      using that p sh(2) by (auto simp: keep_def ps_cand_def word_neq_0_conv not_less dest: order.strict_trans2)
    have 2: "keep" if "ps_cand remote st h" "\<forall>j. ps_cand remote st j \<longrightarrow> \<not> ps_better st j h"
      using ps_better_antisym[of st n h] that n by (simp add: keep_def ps_cand_def)
    have 3: "\<not> ps_better st j h" if k: "keep" and j: "ps_cand remote st j" for j
      using ps_better_trans[of st j n h] n(2) k j by (simp add: keep_def not_less)
    show ?thesis using eq f(2) h(2) n 1 2 3 h(1) by auto
  qed
qed

subsection \<open>Histories\<close>

text \<open>The operations that change the object, and what an observer who only sees their arguments knows of each piece: whether it is
  being downloaded, whether it is available, how many peers wish it, and its precedence.\<close>

datatype ps_op =
    Inc_pfreq nat | Dec_pfreq nat | Inc_pfreqs bitfield_t | Dec_pfreqs bitfield_t
  | Inc_pwish nat | Dec_pwish nat | Inc_pwishs bitfield_t | Dec_pwishs bitfield_t
  | Enter_dling nat | Leave_dling nat | Mark_isavail nat | Mark_unavail nat | Mark_isavails bitfield_t
  | Set_pieceprec "bt_pieceprec_t list"

fun ps_exec :: "ps_op \<Rightarrow> bt_pselect_fixed_t \<Rightarrow> bt_pselect_fixed_t res" where
  "ps_exec (Inc_pfreq i) st = inc_remote_pfreq i st"
| "ps_exec (Dec_pfreq i) st = dec_remote_pfreq i st"
| "ps_exec (Inc_pfreqs b) st = inc_remote_pfreqs b st"
| "ps_exec (Dec_pfreqs b) st = dec_remote_pfreqs b st"
| "ps_exec (Inc_pwish i) st = inc_remote_pwish i st"
| "ps_exec (Dec_pwish i) st = dec_remote_pwish i st"
| "ps_exec (Inc_pwishs b) st = inc_remote_pwishs b st"
| "ps_exec (Dec_pwishs b) st = dec_remote_pwishs b st"
| "ps_exec (Enter_dling i) st = enter_dling i st"
| "ps_exec (Leave_dling i) st = leave_dling i st"
| "ps_exec (Mark_isavail i) st = mark_isavail i st"
| "ps_exec (Mark_unavail i) st = mark_unavail i st"
| "ps_exec (Mark_isavails b) st = mark_isavails b st"
| "ps_exec (Set_pieceprec arr) st = pieceprec_arr_set arr st"

fun ps_run :: "ps_op list \<Rightarrow> bt_pselect_fixed_t \<Rightarrow> bt_pselect_fixed_t res" where
  "ps_run [] st = Inr st"
| "ps_run (op # ops) st = res_bind (ps_exec op st) (ps_run ops)"

record ps_hist =
  h_dling :: "nat \<Rightarrow> bool"
  h_avail :: "nat \<Rightarrow> bool"
  h_freq :: "nat \<Rightarrow> 64 word"
  h_wish :: "nat \<Rightarrow> 64 word"
  h_prec :: "nat \<Rightarrow> 64 word"

definition hist_start :: ps_hist where
  "hist_start = \<lparr>h_dling = (\<lambda>i. False), h_avail = (\<lambda>i. False), h_freq = (\<lambda>i. 0), h_wish = (\<lambda>i. 0), h_prec = (\<lambda>i. pieceprec_DEFAULT)\<rparr>"

fun hist_step :: "ps_op \<Rightarrow> ps_hist \<Rightarrow> ps_hist" where
  "hist_step (Inc_pfreq i) h = h\<lparr>h_freq := (h_freq h)(i := h_freq h i + 1)\<rparr>"
| "hist_step (Dec_pfreq i) h = h\<lparr>h_freq := (h_freq h)(i := h_freq h i - 1)\<rparr>"
| "hist_step (Inc_pfreqs b) h = h\<lparr>h_freq := (\<lambda>i. if b ! i then h_freq h i + 1 else h_freq h i)\<rparr>"
| "hist_step (Dec_pfreqs b) h = h\<lparr>h_freq := (\<lambda>i. if b ! i then h_freq h i - 1 else h_freq h i)\<rparr>"
| "hist_step (Inc_pwish i) h = h\<lparr>h_wish := (h_wish h)(i := h_wish h i + 1)\<rparr>"
| "hist_step (Dec_pwish i) h = h\<lparr>h_wish := (h_wish h)(i := h_wish h i - 1)\<rparr>"
| "hist_step (Inc_pwishs b) h = h\<lparr>h_wish := (\<lambda>i. if b ! i then h_wish h i + 1 else h_wish h i)\<rparr>"
| "hist_step (Dec_pwishs b) h = h\<lparr>h_wish := (\<lambda>i. if b ! i then h_wish h i - 1 else h_wish h i)\<rparr>"
| "hist_step (Enter_dling i) h = h\<lparr>h_dling := (h_dling h)(i := True)\<rparr>"
| "hist_step (Leave_dling i) h = h\<lparr>h_dling := (h_dling h)(i := False)\<rparr>"
| "hist_step (Mark_isavail i) h = h\<lparr>h_avail := (h_avail h)(i := True)\<rparr>"
| "hist_step (Mark_unavail i) h = h\<lparr>h_avail := (h_avail h)(i := False)\<rparr>"
| "hist_step (Mark_isavails b) h = h\<lparr>h_avail := (\<lambda>i. h_avail h i \<or> b ! i)\<rparr>"
| "hist_step (Set_pieceprec arr) h = h\<lparr>h_prec := (!) arr\<rparr>"

definition hist_of :: "ps_op list \<Rightarrow> ps_hist" where
  "hist_of ops = fold hist_step ops hist_start"

text \<open>The calls that the object can take: indices and lengths in range, nothing taken off a count of zero, and no piece that is
  downloaded and available.\<close>

fun hist_allows :: "nat \<Rightarrow> ps_op \<Rightarrow> ps_hist \<Rightarrow> bool" where
  "hist_allows n (Inc_pfreq i) h = (i < n)"
| "hist_allows n (Dec_pfreq i) h = (i < n \<and> h_freq h i \<noteq> 0)"
| "hist_allows n (Inc_pfreqs b) h = (length b = n)"
| "hist_allows n (Dec_pfreqs b) h = (length b = n \<and> (\<forall>i<n. b ! i \<longrightarrow> h_freq h i \<noteq> 0))"
| "hist_allows n (Inc_pwish i) h = (i < n)"
| "hist_allows n (Dec_pwish i) h = (i < n \<and> h_wish h i \<noteq> 0)"
| "hist_allows n (Inc_pwishs b) h = (length b = n)"
| "hist_allows n (Dec_pwishs b) h = (length b = n \<and> (\<forall>i<n. b ! i \<longrightarrow> h_wish h i \<noteq> 0))"
| "hist_allows n (Enter_dling i) h = (i < n \<and> \<not> h_avail h i)"
| "hist_allows n (Leave_dling i) h = (i < n)"
| "hist_allows n (Mark_isavail i) h = (i < n \<and> \<not> h_dling h i)"
| "hist_allows n (Mark_unavail i) h = (i < n)"
| "hist_allows n (Mark_isavails b) h = (length b = n \<and> (\<forall>i<n. b ! i \<longrightarrow> \<not> h_dling h i))"
| "hist_allows n (Set_pieceprec arr) h = (length arr = n)"

fun hist_legal :: "nat \<Rightarrow> ps_op list \<Rightarrow> ps_hist \<Rightarrow> bool" where
  "hist_legal n [] h = True"
| "hist_legal n (op # ops) h = (hist_allows n op h \<and> hist_legal n ops (hist_step op h))"

text \<open>The pieces that may be asked of a peer, and which of two is more important, by the history.\<close>

definition hist_cand :: "nat \<Rightarrow> bitfield_t \<Rightarrow> ps_hist \<Rightarrow> nat \<Rightarrow> bool" where
  "hist_cand n remote h i = (i < n \<and> remote ! i \<and> \<not> h_dling h i \<and> \<not> h_avail h i \<and> h_prec h i \<noteq> pieceprec_NOTNEEDED)"

definition hist_better :: "ps_hist \<Rightarrow> nat \<Rightarrow> nat \<Rightarrow> bool" where
  "hist_better h i j = (h_prec h j < h_prec h i \<or> h_prec h j = h_prec h i \<and> h_wish h j < h_wish h i)"

text \<open>The object knows what the history says.\<close>

definition ps_knows :: "nat \<Rightarrow> ps_hist \<Rightarrow> bt_pselect_fixed_t \<Rightarrow> bool" where
  "ps_knows n h st = (ps_inv st \<and> ps_nb_piece st = n \<and>
     (\<forall>i<n. m_local_pdling st ! i = h_dling h i \<and> m_local_pavail st ! i = h_avail h i \<and>
        m_remote_pfreq st ! i = h_freq h i \<and> m_remote_pwish st ! i = h_wish h i \<and> m_pieceprec_arr st ! i = h_prec h i))"

lemma ps_knows_cong:
  assumes "ps_knows n h st" "\<forall>i<n. h_dling h' i = h_dling h i \<and> h_avail h' i = h_avail h i \<and> h_freq h' i = h_freq h i \<and>
    h_wish h' i = h_wish h i \<and> h_prec h' i = h_prec h i"
  shows "ps_knows n h' st"
  using assms by (simp add: ps_knows_def)

lemma may_select_range:
  "may_select i st = Inr m \<Longrightarrow> ps_shape st \<Longrightarrow> i < ps_nb_piece st"
  by (auto simp: may_select_def cant_select_def bf_get_def ps_shape_def ps_nb_piece_def Let_def res_bind_def
      res_if_def dbg_assert_def split: if_splits sum.splits)

lemma res_bind_InrD: "res_bind x f = Inr y \<Longrightarrow> \<exists>v. x = Inr v \<and> f v = Inr y"
  by (auto simp: res_bind_eq_Inr_iff)

text \<open>An update of a bit that returns had its preconditions.\<close>

lemma upd_bit_pre:
  assumes "ps_inv st" "upd_selectable_bit b i v st = Inr st'"
  shows "i < ps_nb_piece st \<and> (v \<longrightarrow> \<not> ps_bits_of (other_bits b) st ! i)"
proof -
  have sh: "ps_shape st" "sel_exact UNIV st" using assms(1) by (auto simp: ps_inv_def)
  have i: "i < ps_nb_piece st"
    using assms(2) may_select_range[OF _ sh(1), of i]
    by (auto simp: upd_selectable_bit_def res_if_def res_bind_eq_Inr_iff)
  obtain db1 where 1: "res_if (may_select i st) (selectable_db_delete i st) (Inr st) = Inr (st\<lparr>selectable_db := db1\<rparr>)"
    using take_out_ok[OF sh _ i] by auto
  let ?s1 = "st\<lparr>selectable_db := db1\<rparr>" let ?s2 = "ps_bits_upd b i v ?s1"
  have s1: "ps_shape ?s1" "i < ps_nb_piece ?s1" using sh(1) i by (simp_all add: ps_shape_def ps_nb_piece_def Let_def)
  have "\<not> ps_bits_of (other_bits b) st ! i" if v: v
  proof
    assume o: "ps_bits_of (other_bits b) st ! i"
    have l: "i < length (m_local_pdling st)" "i < length (m_local_pavail st)"
      using sh(1) i by (simp_all add: ps_shape_def ps_nb_piece_def Let_def)
    then have both: "bf_get i (m_local_pdling ?s2) = Inr True" "bf_get i (m_local_pavail ?s2) = Inr True"
      using o v by (cases b; simp add: ps_bits_upd_def ps_bits_of_def bits_in_range)+
    then have "may_select i ?s2 = Inr False" by (simp add: may_select_def cant_select_def)
    then have "upd_selectable_bit b i v st = Inl Assert_failed"
      using 1 ps_bits_set_ok[OF s1] both by (simp add: upd_selectable_bit_def)
    then show False using assms(2) by simp
  qed
  then show ?thesis using i by blast
qed

lemma upd_bit_knows:
  assumes "ps_knows n h st" "upd_selectable_bit b i v st = Inr st'"
  shows "ps_knows n (case b of Pdling \<Rightarrow> h\<lparr>h_dling := (h_dling h)(i := v)\<rparr> | Pavail \<Rightarrow> h\<lparr>h_avail := (h_avail h)(i := v)\<rparr>) st'"
proof -
  have inv: "ps_inv st" using assms(1) by (simp add: ps_knows_def)
  note pre = upd_bit_pre[OF inv assms(2)]
  obtain db where db: "st' = (ps_bits_upd b i v st)\<lparr>selectable_db := db\<rparr>" "ps_inv st'"
    using upd_bit_ok[OF inv, of i v b] pre assms(2) by auto
  have l: "length (m_local_pdling st) = ps_nb_piece st" "length (m_local_pavail st) = ps_nb_piece st"
    using inv by (simp_all add: ps_inv_def ps_shape_def ps_nb_piece_def Let_def)
  have k: "ps_nb_piece st = n" "\<And>j. j < n \<Longrightarrow> m_local_pdling st ! j = h_dling h j" "\<And>j. j < n \<Longrightarrow> m_local_pavail st ! j = h_avail h j"
    "\<And>j. j < n \<Longrightarrow> m_remote_pwish st ! j = h_wish h j" "\<And>j. j < n \<Longrightarrow> m_pieceprec_arr st ! j = h_prec h j"
    "\<And>j. j < n \<Longrightarrow> m_remote_pfreq st ! j = h_freq h j"
    using assms(1) by (simp_all add: ps_knows_def)
  show ?thesis
  proof (cases b)
    case Pdling
    have eq: "st' = st\<lparr>m_local_pdling := (m_local_pdling st)[i := v], selectable_db := db\<rparr>"
      using db(1) Pdling by (simp add: ps_bits_upd_def)
    have "ps_nb_piece st' = n" using k(1) by (simp add: eq ps_nb_piece_def)
    moreover have "j < n \<Longrightarrow> m_local_pdling st' ! j = ((h_dling h)(i := v)) j" for j
      using k(1,2) l(1) by (simp add: eq nth_list_update)
    ultimately show ?thesis using db(2) k(3-6) Pdling by (simp add: ps_knows_def) (simp add: eq)
  next
    case Pavail
    have eq: "st' = st\<lparr>m_local_pavail := (m_local_pavail st)[i := v], selectable_db := db\<rparr>"
      using db(1) Pavail by (simp add: ps_bits_upd_def)
    have "ps_nb_piece st' = n" using k(1) by (simp add: eq ps_nb_piece_def)
    moreover have "j < n \<Longrightarrow> m_local_pavail st' ! j = ((h_avail h)(i := v)) j" for j
      using k(1,3) l(2) by (simp add: eq nth_list_update)
    ultimately show ?thesis using db(2) k(2,4-6) Pavail by (simp add: ps_knows_def) (simp add: eq)
  qed
qed

lemma upd_count_pre:
  assumes "ps_inv st" "upd_selectable_count i v st = Inr st'"
  shows "i < ps_nb_piece st \<and> (\<not> v \<longrightarrow> m_remote_pwish st ! i > 0)"
proof -
  have sh: "ps_shape st" "sel_exact UNIV st" using assms(1) by (auto simp: ps_inv_def)
  have i: "i < ps_nb_piece st"
    using assms(2) may_select_range[OF _ sh(1), of i]
    by (auto simp: upd_selectable_count_def res_if_def res_bind_eq_Inr_iff)
  obtain db1 where 1: "res_if (may_select i st) (selectable_db_delete i st) (Inr st) = Inr (st\<lparr>selectable_db := db1\<rparr>)"
    using take_out_ok[OF sh _ i] by auto
  have "m_remote_pwish st ! i > 0" if "\<not> v"
  proof (rule ccontr)
    assume "\<not> m_remote_pwish st ! i > 0"
    then have "upd_selectable_count i v st = Inl Assert_failed"
      using 1 that ps_shapeD(7)[OF sh(1) i] by (simp add: upd_selectable_count_def bc_dec1_def)
    then show False using assms(2) by simp
  qed
  then show ?thesis using i by blast
qed

lemma upd_count_knows:
  assumes "ps_knows n h st" "upd_selectable_count i v st = Inr st'"
  shows "ps_knows n (h\<lparr>h_wish := (h_wish h)(i := if v then h_wish h i + 1 else h_wish h i - 1)\<rparr>) st'"
proof -
  have inv: "ps_inv st" using assms(1) by (simp add: ps_knows_def)
  note pre = upd_count_pre[OF inv assms(2)]
  obtain db where db: "st' = st\<lparr>m_remote_pwish := (m_remote_pwish st)[i := if v then m_remote_pwish st ! i + 1
      else m_remote_pwish st ! i - 1], selectable_db := db\<rparr>" "ps_inv st'"
    using upd_count_ok[OF inv, of i v] pre assms(2) by (auto simp: Let_def)
  have "length (m_remote_pwish st) = ps_nb_piece st"
    using inv by (simp add: ps_inv_def ps_shape_def ps_nb_piece_def Let_def)
  then show ?thesis
    using assms(1) db(2) pre unfolding db(1) by (auto simp: ps_knows_def ps_nb_piece_def nth_list_update)
qed

text \<open>A loop that returns went through all its rounds.\<close>

lemma for_range_res_steps:
  assumes "for_range_res n f s = Inr s'" "I 0 s"
    "\<And>i s s1. i < n \<Longrightarrow> I i s \<Longrightarrow> f i s = Inr s1 \<Longrightarrow> I (Suc i) s1"
  shows "I n s'"
  using assms
proof (induction n arbitrary: s')
  case (Suc n)
  obtain s1 where "for_range_res n f s = Inr s1" "f n s1 = Inr s'"
    using Suc.prems(1) by (auto simp: res_bind_eq_Inr_iff)
  then show ?case using Suc.IH[of s1] Suc.prems(2,3) by simp
qed simp

lemma res_if_InrD: "res_if c a b = Inr x \<Longrightarrow> \<exists>v. c = Inr v \<and> (if v then a else b) = Inr x"
  by (auto simp: res_if_def res_bind_eq_Inr_iff)

lemma bf_get_InrD: "bf_get i b = Inr v \<Longrightarrow> v = b ! i"
  by (auto simp: bf_get_def dbg_assert_def split: if_splits)

lemma upd_counts_knows:
  assumes "ps_knows n h st" "upd_selectable_counts b v st = Inr st'"
  shows "ps_knows n (h\<lparr>h_wish := (\<lambda>i. if b ! i then if v then h_wish h i + 1 else h_wish h i - 1 else h_wish h i)\<rparr>) st'"
proof -
  let ?w = "\<lambda>k i. if i < k \<and> b ! i then if v then h_wish h i + 1 else h_wish h i - 1 else h_wish h i"
  have n: "ps_nb_piece st = n" using assms(1) by (simp add: ps_knows_def)
  have run: "for_range_res n (\<lambda>i st. res_if (bf_get i b) (upd_selectable_count i v st) (Inr st)) st = Inr st'"
    using assms(2) n by (auto simp: upd_selectable_counts_def dbg_assert_def split: if_splits)
  have "ps_knows n (h\<lparr>h_wish := ?w n\<rparr>) st'"
  proof (rule for_range_res_steps[OF run, where I = "\<lambda>k. ps_knows n (h\<lparr>h_wish := ?w k\<rparr>)"])
    show "ps_knows n (h\<lparr>h_wish := ?w 0\<rparr>) st" using assms(1) by simp
  next
    fix i s s1 assume i: "ps_knows n (h\<lparr>h_wish := ?w i\<rparr>) s" "res_if (bf_get i b) (upd_selectable_count i v s) (Inr s) = Inr s1"
    from res_if_InrD[OF i(2)] show "ps_knows n (h\<lparr>h_wish := ?w (Suc i)\<rparr>) s1"
    proof (elim exE conjE)
      fix c assume c: "bf_get i b = Inr c" "(if c then upd_selectable_count i v s else Inr s) = Inr s1"
      have bi: "b ! i = c" using bf_get_InrD[OF c(1)] by simp
      show ?thesis
      proof (cases c)
        case True
        then have "upd_selectable_count i v s = Inr s1" using c(2) by simp
        from upd_count_knows[OF i(1) this] show ?thesis
          by (rule ps_knows_cong) (auto simp: less_Suc_eq bi True)
      next
        case False
        then have "s1 = s" using c(2) by simp
        then show ?thesis using i(1) bi False by (auto intro: ps_knows_cong simp: less_Suc_eq)
      qed
    qed
  qed
  then show ?thesis by (rule ps_knows_cong) simp
qed

lemma upd_bits_knows:
  assumes "ps_knows n h st" "mark_isavails b st = Inr st'"
  shows "ps_knows n (h\<lparr>h_avail := (\<lambda>i. h_avail h i \<or> b ! i)\<rparr>) st'"
proof -
  let ?a = "\<lambda>k i. h_avail h i \<or> i < k \<and> b ! i"
  have n: "ps_nb_piece st = n" using assms(1) by (simp add: ps_knows_def)
  have run: "for_range_res n (\<lambda>i st. res_if (bf_get i b) (upd_selectable_bit Pavail i True st) (Inr st)) st = Inr st'"
    using assms(2) n by (auto simp: mark_isavails_def upd_selectable_bits_def dbg_assert_def split: if_splits)
  have "ps_knows n (h\<lparr>h_avail := ?a n\<rparr>) st'"
  proof (rule for_range_res_steps[OF run, where I = "\<lambda>k. ps_knows n (h\<lparr>h_avail := ?a k\<rparr>)"])
    show "ps_knows n (h\<lparr>h_avail := ?a 0\<rparr>) st" using assms(1) by simp
  next
    fix i s s1 assume i: "ps_knows n (h\<lparr>h_avail := ?a i\<rparr>) s" "res_if (bf_get i b) (upd_selectable_bit Pavail i True s) (Inr s) = Inr s1"
    from res_if_InrD[OF i(2)] show "ps_knows n (h\<lparr>h_avail := ?a (Suc i)\<rparr>) s1"
    proof (elim exE conjE)
      fix c assume c: "bf_get i b = Inr c" "(if c then upd_selectable_bit Pavail i True s else Inr s) = Inr s1"
      have bi: "b ! i = c" using bf_get_InrD[OF c(1)] by simp
      show ?thesis
      proof (cases c)
        case True
        then have "upd_selectable_bit Pavail i True s = Inr s1" using c(2) by simp
        from upd_bit_knows[OF i(1) this] show ?thesis
          by (rule ps_knows_cong) (auto simp: less_Suc_eq bi True)
      next
        case False
        then have "s1 = s" using c(2) by simp
        then show ?thesis using i(1) bi False by (auto intro: ps_knows_cong simp: less_Suc_eq)
      qed
    qed
  qed
  then show ?thesis by (rule ps_knows_cong) simp
qed

lemma ps_knows_freq:
  assumes "ps_knows n h st" "length c = length (m_remote_pfreq st)" "\<forall>i<n. c ! i = f i"
  shows "ps_knows n (h\<lparr>h_freq := f\<rparr>) (st\<lparr>m_remote_pfreq := c\<rparr>)"
  using assms by (simp add: ps_knows_def ps_inv_def ps_shape_def ps_nb_piece_def sel_exact_def Let_def)

lemma ps_knows_freq_len: "ps_knows n h st \<Longrightarrow> length (m_remote_pfreq st) = n \<and> (\<forall>i<n. m_remote_pfreq st ! i = h_freq h i)"
  by (simp add: ps_knows_def ps_inv_def ps_shape_def Let_def)

lemma freq_knows:
  assumes "ps_knows n h st"
  shows "inc_remote_pfreq i st = Inr st' \<Longrightarrow> ps_knows n (hist_step (Inc_pfreq i) h) st'"
    "dec_remote_pfreq i st = Inr st' \<Longrightarrow> ps_knows n (hist_step (Dec_pfreq i) h) st'"
    "inc_remote_pfreqs b st = Inr st' \<Longrightarrow> ps_knows n (hist_step (Inc_pfreqs b) h) st'"
    "dec_remote_pfreqs b st = Inr st' \<Longrightarrow> ps_knows n (hist_step (Dec_pfreqs b) h) st'"
proof -
  have F: "length (m_remote_pfreq st) = n" "i < n \<Longrightarrow> m_remote_pfreq st ! i = h_freq h i" for i
    using ps_knows_freq_len[OF assms] by auto
  have put: "ps_knows n (h\<lparr>h_freq := f\<rparr>) (st\<lparr>m_remote_pfreq := c\<rparr>)" if "length c = n" "\<And>i. i < n \<Longrightarrow> c ! i = f i" for c f
    using ps_knows_freq[OF assms, of c f] that F(1) by simp
  show "ps_knows n (hist_step (Inc_pfreq i) h) st'" if r: "inc_remote_pfreq i st = Inr st'"
  proof -
    have i: "i < n" and st': "st' = st\<lparr>m_remote_pfreq := (m_remote_pfreq st)[i := m_remote_pfreq st ! i + 1]\<rparr>"
      using r F(1) by (auto simp: inc_remote_pfreq_def bc_inc1_def split: if_splits)
    show ?thesis unfolding st' hist_step.simps by (rule put) (use F i in \<open>simp_all add: nth_list_update\<close>)
  qed
  show "ps_knows n (hist_step (Dec_pfreq i) h) st'" if r: "dec_remote_pfreq i st = Inr st'"
  proof -
    have i: "i < n" and st': "st' = st\<lparr>m_remote_pfreq := (m_remote_pfreq st)[i := m_remote_pfreq st ! i - 1]\<rparr>"
      using r F(1) by (auto simp: dec_remote_pfreq_def bc_dec1_def res_bind_eq_Inr_iff dbg_assert_eq_Inr_iff split: if_splits)
    show ?thesis unfolding st' hist_step.simps by (rule put) (use F i in \<open>simp_all add: nth_list_update\<close>)
  qed
  show "ps_knows n (hist_step (Inc_pfreqs b) h) st'" if r: "inc_remote_pfreqs b st = Inr st'"
  proof -
    have l: "length (m_remote_pfreq st) = length b"
      using r by (auto simp: inc_remote_pfreqs_def bc_inc_def res_bind_eq_Inr_iff dbg_assert_eq_Inr_iff)
    have st': "st' = st\<lparr>m_remote_pfreq := map (\<lambda>i. if b ! i then m_remote_pfreq st ! i + 1 else m_remote_pfreq st ! i) [0..<n]\<rparr>"
      using r bc_inc_eq[OF l] F(1) by (simp add: inc_remote_pfreqs_def)
    show ?thesis unfolding st' hist_step.simps by (rule put) (use F(2) in simp_all)
  qed
  show "ps_knows n (hist_step (Dec_pfreqs b) h) st'" if r: "dec_remote_pfreqs b st = Inr st'"
  proof -
    have l: "length (m_remote_pfreq st) = length b"
      using r by (auto simp: dec_remote_pfreqs_def bc_dec_def res_bind_eq_Inr_iff dbg_assert_eq_Inr_iff)
    have st': "st' = st\<lparr>m_remote_pfreq := map (\<lambda>i. if b ! i then m_remote_pfreq st ! i - 1 else m_remote_pfreq st ! i) [0..<n]\<rparr>"
      using r bc_dec_eq[OF l] F(1) by (auto simp: dec_remote_pfreqs_def res_bind_eq_Inr_iff dbg_assert_eq_Inr_iff)
    show ?thesis unfolding st' hist_step.simps by (rule put) (use F(2) in simp_all)
  qed
qed

lemma bitcount_total:
  "i < length c \<Longrightarrow> \<exists>c'. bc_inc1 i c = Inr c'" "i < length c \<Longrightarrow> c ! i \<noteq> 0 \<Longrightarrow> \<exists>c'. bc_dec1 i c = Inr c'"
  "length c = length b \<Longrightarrow> \<exists>c'. bc_inc b c = Inr c'"
  "length c = length b \<Longrightarrow> \<forall>i<length c. b ! i \<longrightarrow> c ! i \<noteq> 0 \<Longrightarrow> \<exists>c'. bc_dec b c = Inr c'"
  using bc_dec_eq[of c b] by (auto simp: bc_inc1_def bc_dec1_def bc_inc_def word_gt_0)

lemma upd_bit_total:
  assumes "ps_knows n h st" "i < n" "v \<longrightarrow> \<not> (case b of Pdling \<Rightarrow> h_avail h i | Pavail \<Rightarrow> h_dling h i)"
  shows "\<exists>st'. upd_selectable_bit b i v st = Inr st'"
proof -
  have "ps_bits_of (other_bits b) st ! i = (case b of Pdling \<Rightarrow> h_avail h i | Pavail \<Rightarrow> h_dling h i)"
    using assms(1,2) by (cases b) (simp_all add: ps_knows_def ps_bits_of_def)
  then show ?thesis using upd_bit_ok[of st i v b] assms by (auto simp: ps_knows_def)
qed

lemma upd_count_total:
  assumes "ps_knows n h st" "i < n" "\<not> v \<longrightarrow> h_wish h i \<noteq> 0"
  shows "\<exists>st'. upd_selectable_count i v st = Inr st'"
  using upd_count_ok[of st i v] assms by (auto simp: ps_knows_def word_gt_0 Let_def)

text \<open>A loop over the pieces whose rounds run and keep what is known runs.\<close>

lemma for_range_res_total:
  assumes "I 0 s" "\<And>i s. i < n \<Longrightarrow> I i s \<Longrightarrow> \<exists>s'. f i s = Inr s'" "\<And>i s s'. i < n \<Longrightarrow> I i s \<Longrightarrow> f i s = Inr s' \<Longrightarrow> I (Suc i) s'"
  shows "\<exists>s'. for_range_res n f s = Inr s'"
  using for_range_res_inv[of I s n f] assms by metis

lemma upd_counts_total:
  assumes "ps_knows n h st" "length b = n" "\<not> v \<longrightarrow> (\<forall>i<n. b ! i \<longrightarrow> h_wish h i \<noteq> 0)"
  shows "\<exists>st'. upd_selectable_counts b v st = Inr st'"
proof -
  let ?w = "\<lambda>k i. if i < k \<and> b ! i then if v then h_wish h i + 1 else h_wish h i - 1 else h_wish h i"
  have n: "ps_nb_piece st = n" using assms(1) by (simp add: ps_knows_def)
  have bi: "bf_get i b = Inr (b ! i)" if "i < n" for i using that assms(2) by (simp add: bits_in_range)
  have "\<exists>st'. for_range_res n (\<lambda>i st. res_if (bf_get i b) (upd_selectable_count i v st) (Inr st)) st = Inr st'"
  proof (rule for_range_res_total[where I = "\<lambda>k. ps_knows n (h\<lparr>h_wish := ?w k\<rparr>)"])
    show "ps_knows n (h\<lparr>h_wish := ?w 0\<rparr>) st" using assms(1) by simp
  next
    fix i s assume i: "i < n" "ps_knows n (h\<lparr>h_wish := ?w i\<rparr>) s"
    show "\<exists>s'. res_if (bf_get i b) (upd_selectable_count i v s) (Inr s) = Inr s'"
      using upd_count_total[OF i(2,1), of v] assms(3) i(1) by (cases "b ! i") (simp_all add: bi res_if_def)
  next
    fix i s s1 assume i: "i < n" "ps_knows n (h\<lparr>h_wish := ?w i\<rparr>) s" "res_if (bf_get i b) (upd_selectable_count i v s) (Inr s) = Inr s1"
    show "ps_knows n (h\<lparr>h_wish := ?w (Suc i)\<rparr>) s1"
    proof (cases "b ! i")
      case True
      then have "upd_selectable_count i v s = Inr s1" using i(1,3) by (simp add: bi res_if_def)
      from upd_count_knows[OF i(2) this] show ?thesis by (rule ps_knows_cong) (auto simp: less_Suc_eq True)
    next
      case False
      then have "s1 = s" using i(1,3) by (simp add: bi res_if_def)
      then show ?thesis using i(2) False by (auto intro: ps_knows_cong simp: less_Suc_eq)
    qed
  qed
  then show ?thesis using n assms(2) by (simp add: upd_selectable_counts_def)
qed

lemma upd_bits_total:
  assumes "ps_knows n h st" "length b = n" "\<forall>i<n. b ! i \<longrightarrow> \<not> h_dling h i"
  shows "\<exists>st'. mark_isavails b st = Inr st'"
proof -
  let ?a = "\<lambda>k i. h_avail h i \<or> i < k \<and> b ! i"
  have n: "ps_nb_piece st = n" using assms(1) by (simp add: ps_knows_def)
  have bi: "bf_get i b = Inr (b ! i)" if "i < n" for i using that assms(2) by (simp add: bits_in_range)
  have "\<exists>st'. for_range_res n (\<lambda>i st. res_if (bf_get i b) (upd_selectable_bit Pavail i True st) (Inr st)) st = Inr st'"
  proof (rule for_range_res_total[where I = "\<lambda>k. ps_knows n (h\<lparr>h_avail := ?a k\<rparr>)"])
    show "ps_knows n (h\<lparr>h_avail := ?a 0\<rparr>) st" using assms(1) by simp
  next
    fix i s assume i: "i < n" "ps_knows n (h\<lparr>h_avail := ?a i\<rparr>) s"
    show "\<exists>s'. res_if (bf_get i b) (upd_selectable_bit Pavail i True s) (Inr s) = Inr s'"
      using upd_bit_total[OF i(2,1), of True Pavail] assms(3) i(1) by (cases "b ! i") (simp_all add: bi res_if_def)
  next
    fix i s s1 assume i: "i < n" "ps_knows n (h\<lparr>h_avail := ?a i\<rparr>) s" "res_if (bf_get i b) (upd_selectable_bit Pavail i True s) (Inr s) = Inr s1"
    show "ps_knows n (h\<lparr>h_avail := ?a (Suc i)\<rparr>) s1"
    proof (cases "b ! i")
      case True
      then have "upd_selectable_bit Pavail i True s = Inr s1" using i(1,3) by (simp add: bi res_if_def)
      from upd_bit_knows[OF i(2) this] show ?thesis by (rule ps_knows_cong) (auto simp: less_Suc_eq True)
    next
      case False
      then have "s1 = s" using i(1,3) by (simp add: bi res_if_def)
      then show ?thesis using i(2) False by (auto intro: ps_knows_cong simp: less_Suc_eq)
    qed
  qed
  then show ?thesis using n assms(2) by (simp add: mark_isavails_def upd_selectable_bits_def)
qed

lemma ps_exec_knows:
  assumes "ps_knows n h st" "ps_exec op st = Inr st'"
  shows "ps_knows n (hist_step op h) st'"
proof (cases op)
  case (Set_pieceprec arr)
  have run: "pieceprec_arr_set arr st = Inr st'" using assms(2) Set_pieceprec by simp
  then have l: "length arr = ps_nb_piece st" by (auto simp: pieceprec_arr_set_def dbg_assert_def split: if_splits)
  then have "ps_shape (st\<lparr>m_pieceprec_arr := arr\<rparr>)"
    using assms(1) by (simp add: ps_knows_def ps_inv_def ps_shape_def ps_nb_piece_def Let_def)
  from pieceprec_arr_set_ok[OF this] show ?thesis
    using run assms(1) Set_pieceprec by (auto simp: ps_knows_def ps_nb_piece_def)
qed (use assms freq_knows[OF assms(1)] upd_bit_knows[OF assms(1), of Pdling] upd_bit_knows[OF assms(1), of Pavail]
       upd_count_knows[OF assms(1), of _ True] upd_count_knows[OF assms(1), of _ False]
       upd_counts_knows[OF assms(1), of _ True, unfolded if_True] upd_counts_knows[OF assms(1), of _ False, unfolded if_False]
       upd_bits_knows[OF assms(1)]
     in \<open>auto simp: enter_dling_def leave_dling_def mark_isavail_def mark_unavail_def inc_remote_pwish_def dec_remote_pwish_def
       inc_remote_pwishs_def dec_remote_pwishs_def\<close>)

lemma ps_exec_total:
  assumes "ps_knows n h st" "hist_allows n op h"
  shows "\<exists>st'. ps_exec op st = Inr st'"
proof (cases op)
  case (Set_pieceprec arr)
  then have "ps_shape (st\<lparr>m_pieceprec_arr := arr\<rparr>)"
    using assms by (simp add: ps_knows_def ps_inv_def ps_shape_def ps_nb_piece_def Let_def)
  from pieceprec_arr_set_ok[OF this] show ?thesis using Set_pieceprec by auto
qed (use assms(2) ps_knows_freq_len[OF assms(1)] bitcount_total(1,2)[of _ "m_remote_pfreq st"] bitcount_total(3,4)[of "m_remote_pfreq st"]
       upd_bit_total[OF assms(1), of _ _ Pdling] upd_bit_total[OF assms(1), of _ _ Pavail] upd_count_total[OF assms(1)]
       upd_counts_total[OF assms(1)] upd_bits_total[OF assms(1)]
     in \<open>auto simp: enter_dling_def leave_dling_def mark_isavail_def mark_unavail_def inc_remote_pwish_def dec_remote_pwish_def
       inc_remote_pwishs_def dec_remote_pwishs_def inc_remote_pfreq_def dec_remote_pfreq_def inc_remote_pfreqs_def
       dec_remote_pfreqs_def res_bind_eq_Inr_iff\<close>)

lemma ps_run_total: "ps_knows n h st \<Longrightarrow> hist_legal n ops h \<Longrightarrow> \<exists>st'. ps_run ops st = Inr st'"
proof (induction ops arbitrary: h st)
  case (Cons op ops)
  obtain st1 where st1: "ps_exec op st = Inr st1" using ps_exec_total[OF Cons.prems(1)] Cons.prems(2) by auto
  from Cons.IH[OF ps_exec_knows[OF Cons.prems(1) st1]] show ?case using st1 Cons.prems(2) by simp
qed simp

lemma ps_run_knows:
  "ps_knows n h st \<Longrightarrow> ps_run ops st = Inr st' \<Longrightarrow> ps_knows n (fold hist_step ops h) st'"
proof (induction ops arbitrary: h st)
  case (Cons op ops)
  then show ?case using ps_exec_knows by (fastforce simp: res_bind_eq_Inr_iff)
qed simp

lemma pselect_ctor_knows: "\<exists>st. pselect_ctor n = Inr st \<and> ps_knows n hist_start st"
  using pselect_ctor_ok[of n] by (auto simp: ps_knows_def hist_start_def)

lemma ps_knows_cand:
  assumes "ps_knows n h st"
  shows "ps_cand remote st i \<longleftrightarrow> hist_cand n remote h i"
    "i < n \<Longrightarrow> j < n \<Longrightarrow> ps_better st i j \<longleftrightarrow> hist_better h i j"
  using assms by (auto simp: ps_knows_def ps_cand_def hist_cand_def ps_better_def hist_better_def pieceprec_NOTNEEDED_def)

text \<open>C4.  The choice of the next piece, after any history of the object: construction, changes of the wishes and the
  frequencies, of what is being downloaded or available, and of the precedences.  Every legal history runs without a failed assertion.
  After a history that runs, the choice runs too; it finds none exactly when the peer has no piece that is not available, not being
  downloaded and needed; what it finds is such a piece, and no other such piece has a higher precedence, or the same and more peers
  wishing it; and the hint is taken whenever it is as good as any.  All this is said of what the arguments of the calls in the
  history tell.  (This follows the note on the core structure in the header of the source, most wished first; other comments there
  speak of the rarest piece first, which the code does not do.)\<close>
theorem pselect_picks_best:
  assumes "h = hist_of ops" "length remote = n" "\<forall>k. hint = Some k \<longrightarrow> k < n"
  shows "(hist_legal n ops hist_start \<longrightarrow> (\<exists>st. res_bind (pselect_ctor n) (ps_run ops) = Inr st)) \<and>
    (\<forall>st. res_bind (pselect_ctor n) (ps_run ops) = Inr st \<longrightarrow>
      (\<exists>found r'. next_piece_to_select remote hint st r = Inr (found, r') \<and> (found = None \<longleftrightarrow> (\<forall>i. \<not> hist_cand n remote h i)) \<and>
           (\<forall>i. found = Some i \<longrightarrow> hist_cand n remote h i \<and> (\<forall>j. hist_cand n remote h j \<longrightarrow> \<not> hist_better h j i)) \<and>
           (\<forall>k. hint = Some k \<and> hist_cand n remote h k \<and> (\<forall>j. hist_cand n remote h j \<longrightarrow> \<not> hist_better h j k) \<longrightarrow> found = Some k)))"
proof (intro conjI impI allI)
  assume "hist_legal n ops hist_start"
  then show "\<exists>st. res_bind (pselect_ctor n) (ps_run ops) = Inr st"
    using pselect_ctor_knows[of n] ps_run_total[of n hist_start _ ops] by fastforce
next
  fix st assume run: "res_bind (pselect_ctor n) (ps_run ops) = Inr st"
  have K: "ps_knows n h st"
    using pselect_ctor_knows[of n] ps_run_knows[of n hist_start _ ops st] run assms(1) by (auto simp: hist_of_def)
  then have inv: "ps_inv st" "length remote = ps_nb_piece st" "\<forall>k. hint = Some k \<longrightarrow> k < ps_nb_piece st"
    using assms(2,3) by (simp_all add: ps_knows_def)
  have c: "ps_cand remote st i \<longleftrightarrow> hist_cand n remote h i" for i using ps_knows_cand(1)[OF K] .
  have b: "hist_cand n remote h i \<Longrightarrow> hist_cand n remote h j \<Longrightarrow> ps_better st i j \<longleftrightarrow> hist_better h i j" for i j
    using ps_knows_cand(2)[OF K] by (simp add: hist_cand_def)
  obtain found r' where f: "next_piece_to_select remote hint st r = Inr (found, r')"
    "found = None \<longleftrightarrow> (\<forall>i. \<not> hist_cand n remote h i)"
    "\<forall>i. found = Some i \<longrightarrow> hist_cand n remote h i \<and> (\<forall>j. hist_cand n remote h j \<longrightarrow> \<not> ps_better st j i)"
    "\<forall>k. hint = Some k \<and> hist_cand n remote h k \<and> (\<forall>j. hist_cand n remote h j \<longrightarrow> \<not> ps_better st j k) \<longrightarrow> found = Some k"
    using next_piece_ok[OF inv, of r] unfolding c by (elim exE conjE) (rule that)
  have "\<forall>i. found = Some i \<longrightarrow> hist_cand n remote h i \<and> (\<forall>j. hist_cand n remote h j \<longrightarrow> \<not> hist_better h j i)"
    using f(3) b by metis
  moreover have "\<forall>k. hint = Some k \<and> hist_cand n remote h k \<and> (\<forall>j. hist_cand n remote h j \<longrightarrow> \<not> hist_better h j k) \<longrightarrow> found = Some k"
    using f(4) b by metis
  ultimately show "\<exists>found r'. next_piece_to_select remote hint st r = Inr (found, r') \<and> (found = None \<longleftrightarrow> (\<forall>i. \<not> hist_cand n remote h i)) \<and>
           (\<forall>i. found = Some i \<longrightarrow> hist_cand n remote h i \<and> (\<forall>j. hist_cand n remote h j \<longrightarrow> \<not> hist_better h j i)) \<and>
           (\<forall>k. hint = Some k \<and> hist_cand n remote h k \<and> (\<forall>j. hist_cand n remote h j \<longrightarrow> \<not> hist_better h j k) \<longrightarrow> found = Some k)"
    using f(1,2) by (intro exI[of _ found] exI[of _ r'] conjI)
qed

theorem pselect_picks_best_witness:
  "\<exists>st r'. res_bind (pselect_ctor 3) (ps_run [Inc_pwish 2, Enter_dling 0]) = Inr st \<and>
     next_piece_to_select [True, True, True] None st (\<lambda>_. 0) = Inr (Some 2, r')"
proof -
  let ?ops = "[Inc_pwish 2, Enter_dling 0]"
  have l: "length [True, True, True] = 3" "\<forall>k. None = Some k \<longrightarrow> k < (3 :: nat)" by simp_all
  note best = pselect_picks_best[OF refl l, of ?ops "\<lambda>_. 0"]
  have "hist_legal 3 ?ops hist_start" by (simp add: hist_start_def)
  then obtain s2 where run: "res_bind (pselect_ctor 3) (ps_run ?ops) = Inr s2" using best by blast
  have h: "hist_of ?ops = \<lparr>h_dling = (\<lambda>i. i = 0), h_avail = (\<lambda>i. False), h_freq = (\<lambda>i. 0),
      h_wish = (\<lambda>i. if i = 2 then 1 else 0),
      h_prec = (\<lambda>i. pieceprec_DEFAULT)\<rparr>"
    by (auto simp: hist_of_def hist_start_def fun_eq_iff)
  obtain found r' where f: "next_piece_to_select [True, True, True] None s2 (\<lambda>_. 0) = Inr (found, r')"
    "found = None \<longleftrightarrow> (\<forall>i. \<not> hist_cand 3 [True, True, True] (hist_of ?ops) i)"
    "\<forall>i. found = Some i \<longrightarrow> hist_cand 3 [True, True, True] (hist_of ?ops) i \<and>
       (\<forall>j. hist_cand 3 [True, True, True] (hist_of ?ops) j \<longrightarrow> \<not> hist_better (hist_of ?ops) j i)"
    using best run by blast
  have c2: "hist_cand 3 [True, True, True] (hist_of ?ops) 2"
    by (simp add: h hist_cand_def pieceprec_DEFAULT_def pieceprec_NOTNEEDED_def)
  then obtain i where i: "found = Some i" using f(2) by auto
  then have "\<not> hist_better (hist_of ?ops) 2 i" "hist_cand 3 [True, True, True] (hist_of ?ops) i" using f(3) c2 by blast+
  then have "i = 2" by (auto simp: h hist_better_def split: if_splits)
  then show ?thesis using run f(1) i by blast
qed

end
