(* ===== verification/Spec2Isabelle.thy ===== *)
theory Spec2Isabelle
  imports Serial SerialCodec Slotpool Bitfield Interval Pktfrag Scnx Reliable KadSearchRun BtFile BtPselect
begin

text \<open>
  Verification of the core of neoIP, a C++ library for peer to peer networking.

  \<^bold>\<open>The program.\<close>  neoIP is a tree of C++ classes under \<open>src/src\<close>.  At the bottom are containers and byte buffers
  (\<open>neoip_base\<close>), on which all packets are built.  Above them stand protocol layers that are stacked on a datagram
  transport (\<open>neoip_proto\<close>): fragmentation, reliable and ordered datagrams, and an encrypted connection.  The distributed
  hash table (\<open>neoip_kad\<close>) keeps a routing table of peers and a database of records and talks to other peers with
  remote procedure calls.  Applications (file transfer, streaming, web browser plugins) use these layers.  Objects call each
  other, and notify their users by callbacks and timers from one event loop; there are no threads.

  \<^bold>\<open>Theories and sources.\<close>  Each theory models a component, in the order of the code; names are those of the source.

  \<^item> \<open>Prelude\<close>: bytes, results of operations that can fail, \<open>memcpy\<close> on lists, shared lemmas.
  \<^item> \<open>Datum\<close> (\<open>neoip_base/memory/datum\<close>): memory blobs and their flags.
  \<^item> \<open>Serial\<close> (\<open>neoip_base/memory/serial\<close>): the byte buffer \<open>serial_t\<close> with its zone, offset and length.  The locale
    \<open>byte_buffer\<close> says what its users rely on; \<open>serial_run_refines_bytes\<close> shows that the buffer acts as a list of bytes.
  \<^item> \<open>SerialCodec\<close>: \<open>operator <<\<close> and \<open>operator >>\<close> of the basic types.  The locale \<open>serial_codec\<close> states what a writer
    and a reader owe each other (what is written is read back, a reader takes a prefix); every type that travels in a packet
    is an interpretation of it, and \<open>serial_channel\<close> joins a codec to a buffer.
  \<^item> \<open>Slotpool\<close>, \<open>Bitfield\<close>, \<open>Interval\<close> (\<open>neoip_base/tools\<close>): slot identifiers, bit fields and counters, sets of integers as
    sorted ranges.  The locale \<open>element_store\<close> relates the interval operations to sets.
  \<^item> \<open>Delay\<close>, \<open>Wai\<close>, \<open>Slidwin\<close>: delays and timers, sequence numbers that wrap around, sliding windows.
  \<^item> \<open>Pktfrag\<close> (\<open>neoip_proto/pktfrag\<close>): fragments of datagrams and their reassembly.
  \<^item> \<open>Skey\<close>, \<open>Scnx\<close> (\<open>neoip_crypto/skey\<close>, \<open>neoip_proto/scnx/full\<close>): ciphers with padding, the sending and receiving of
    authenticated packets with a replay window.
  \<^item> \<open>Rdgram\<close>, \<open>Ordgram\<close>, \<open>Reliable\<close> (\<open>neoip_proto/rdgram\<close>, \<open>neoip_proto/ordgram\<close>): retransmission, delivery in order, and two
    connected objects over a network that loses, repeats and reorders packets (\<open>link_step\<close>).
  \<^item> \<open>Inet\<close>, \<open>GenId\<close> (\<open>neoip_inet/base/address\<close>, \<open>neoip_netutils/gen_id\<close>): internet addresses and networks, identifiers.
  \<^item> \<open>KadAddr\<close>, \<open>Kbucket\<close>, \<open>KbucketRun\<close> (\<open>neoip_kad/base/addr\<close>, \<open>neoip_kad/service/kbucket\<close>): addresses of peers, the routing
    table, its histories.
  \<^item> \<open>KadRec\<close>, \<open>KadDb\<close>, \<open>KadDbRun\<close> (\<open>neoip_kad/base/record\<close>, \<open>neoip_kad/service/db\<close>): records, sets of records of a key, the record
    database, its histories.
  \<^item> \<open>Pkttype\<close>, \<open>Aview\<close>, \<open>Cookie\<close> (\<open>neoip_base/tools/pkttype\<close>, \<open>item_arr\<close>, \<open>neoip_inet/base/address/ipport_aview\<close>,
    \<open>neoip_netutils/cookie\<close>): packet types, arrays of items, the addresses by which a listening peer is reached, cookies.
  \<^item> \<open>KadRpc\<close>, \<open>KadRpcSafe\<close>, \<open>KadRpcRun\<close>, \<open>KadRpcFlow\<close> (\<open>neoip_kad/peer\<close>, \<open>neoip_kad/base/rpc_common\<close>,
    \<open>neoip_kad/client_rpc\<close>): the peer, the server and the callers of the remote procedure calls; that the bytes of a packet cannot
    break the invariant of a peer; the histories of a peer; whole calls from the caller through the server and back.
  \<^item> \<open>KadSearch\<close>, \<open>KadSearchRun\<close> (\<open>neoip_kad/cmd/base/nsearch\<close>): the search of the nodes closest to an identifier, which asks
    the nodes it learns of in turn; its histories.
  \<^item> \<open>BtFile\<close> (\<open>neoip_file/base\<close>, \<open>neoip_bt_core/base\<close>): the files of a BitTorrent metafile laid end to end, its pieces, and the
    translation of byte ranges into ranges of files and of pieces.
  \<^item> \<open>BtPselect\<close> (\<open>neoip_bt_plugin/pselect/impl/fixed\<close>): which piece is downloaded next.

  \<^bold>\<open>How the code is modelled.\<close>  A class is a record of its fields and a method a function from the arguments and the state to
  a result with the new state.  Errors are values of type \<open>neoip_error + 'a\<close>: a failed assertion, an exception, an
  access outside of an object, a call that does not return, an undefined shift.  Builds with \<open>RELEASE_BUILD\<close> leave
  assertions out (\<open>DBGNET_ASSERT\<close> is an assertion of its own there, and the same here); a theorem that a call returns \<open>Inr\<close> is what makes that safe.  Integers keep their width where the
  code can wrap around (\<open>32 word\<close>, \<open>64 word\<close>, \<open>wai_t\<close>); lengths in bytes and numbers of elements are natural numbers,
  that is, below the range of \<open>size_t\<close>, and the host is little endian with 64 bit \<open>size_t\<close> where it matters.  Callbacks are
  events in the result or function arguments; a callback that calls back into the object it came from is not
  modelled.  Timers are the delay that is left, or an operation that can happen at any time.  Random numbers, clocks,
  hash functions and block ciphers are arguments; what is needed of them is stated as a hypothesis.  For the ciphers this is
  \<open>gcrypt_laws\<close> (\<open>Skey\<close>): in ECB and CBC a call succeeds on whole blocks, in CTR on any length, and deciphering undoes enciphering
  under the same vector; a stream cipher, whose handle keeps its position from call to call, satisfies no such law and the
  theorems leave it out.  Whether an allocation of a length that a peer can choose succeeds is the argument \<open>avail\<close> of \<open>Scnx\<close>.
  A packet of the user is a \<open>serial_t\<close> where the code puts a header in front of it: \<open>head_add\<close> can fail an assertion for want of
  room, and \<open>op_fits\<close> and \<open>ep_fits\<close> (\<open>Rdgram\<close>, \<open>Reliable\<close>) say for which buffers it does not.

  \<^bold>\<open>Loops.\<close>  Loops are structural recursions where a bound is visible.  Three loops of the source can run forever
  (\<open>complete_loop\<close>, \<open>frag_loop\<close>, the index loop of \<open>Slidwin\<close>): they are partial functions into \<open>option\<close>, and the
  theorems state when they return.  The loop of \<open>rdgram_t::stop\<close> gets as fuel the number of packets in the buffer, of which each
  round removes one (\<open>rdgram_stop_empties\<close>); the loop that cuts a byte range into pieces gets the number of pieces, of which each
  round passes one; the calls that a search launches end because each asks one more of the nodes it knows.  The loops that draw random identifiers recurse on the list of draws.

  \<^bold>\<open>What is proved.\<close>  For the transport: two peers deliver each other's payloads in order, once, and without gaps
  (\<open>link_reliable_and_ordered\<close>), no assertion fails but the one for want of room for a header (\<open>link_never_fails\<close>), and delivery
  can proceed in at most two steps (\<open>link_progress\<close>), with fewer than 2^31 payloads and of payloads that are not empty; the
  fragments of several datagrams are reassembled in any interleaving; the secure connection hands up a packet at most once and
  unchanged.  For the
  hash table: in every history the routing table and the record database keep their invariants and no assertion fails,
  live nodes stay, lookups return exactly what they promise, stored records live as long as their time to live.  A peer keeps
  these invariants and its cookies whatever packets arrive and whatever calls it starts (\<open>rpc_peer_invariant\<close>), the packets that fail an assertion are named
  (\<open>rpc_server_total\<close>), records change only with a cookie (\<open>records_need_cookie\<close>), and what one peer stores another one
  finds (\<open>store_then_find\<close>).  A search ends with a list that no seed and no node named by
  a reported node can improve; this is local, and the closest of all only under a condition on the network
  (\<open>search_locally_closest\<close>).  For file transfer: a byte range is cut into exactly its bytes of the pieces and of the files
  (\<open>range_to_pieces_and_files\<close>), and after any history the piece that is chosen is a best one (\<open>pselect_picks_best\<close>).  For
  the containers: refinement of lists of bytes and of sets, round trips of the wire formats.  Some theorems state defects: the
  inputs that make a loop run forever, an assertion fail or an address be missed.

  \<^bold>\<open>Not modelled.\<close>  Sockets and the event loop (system calls); the bindings of gnutls, libgcrypt, zlib and libxml; the handshake
  of the secure connection; of the hash table the retransmission of calls, the listener, the commands over a search and the
  bootstrap; of file transfer the metafile format, the sessions, the choking of peers and the trackers; streaming, routers and
  browser plugins above the modelled layers; display strings, xmlrpc and
  the debugging pages of the modelled classes.
\<close>

end
